(* ===== verification/Prelude.thy ===== *)
theory Prelude
  imports Main "HOL-Library.Word" "HOL-Library.Monad_Syntax"
begin

text \<open>
  Shared vocabulary of the development: the machine integer types of the C++ code, raw
  memory as a list of bytes with bounds-checked reads and writes, and generic lemmas on
  lists that several components use.

  A result of type \<open>'a option\<close> is used for operations that can leave defined C++
  behaviour: \<open>None\<close> stands for an out-of-bounds access, a null dereference or a loop
  that does not end; every value the code itself returns (\<open>false\<close>, \<open>nullptr\<close>, an
  error code) is an ordinary value below \<open>Some\<close>.
\<close>

unbundle bit_operations_syntax

type_synonym u8 = "8 word"
type_synonym u16 = "16 word"
type_synonym u32 = "32 word"
type_synonym bytes = "8 word list"

named_theorems mem_simps \<open>reading back what was written to raw memory\<close>

subsection \<open>Raw memory\<close>

text \<open>\<open>slice m off n\<close>: the \<open>n\<close> bytes at offset \<open>off\<close>; \<open>splice m off bs\<close>: \<open>m\<close> with
  \<open>bs\<close> stored at \<open>off\<close>.\<close>

definition slice :: "'a list \<Rightarrow> nat \<Rightarrow> nat \<Rightarrow> 'a list" where
  "slice m off n = take n (drop off m)"

definition splice :: "'a list \<Rightarrow> nat \<Rightarrow> 'a list \<Rightarrow> 'a list" where
  "splice m off bs = take off m @ bs @ drop (off + length bs) m"

text \<open>\<open>memcpy\<close>/\<open>memmove\<close> from and to an array: out of range is a fault.\<close>

definition mem_read :: "'a list \<Rightarrow> nat \<Rightarrow> nat \<Rightarrow> 'a list option" where
  "mem_read m off n = (if off + n \<le> length m then Some (slice m off n) else None)"

definition mem_write :: "'a list \<Rightarrow> nat \<Rightarrow> 'a list \<Rightarrow> 'a list option" where
  "mem_write m off bs = (if off + length bs \<le> length m then Some (splice m off bs) else None)"

text \<open>Array indexing \<open>a[i]\<close>: out of range is a fault.\<close>

definition at_opt :: "'a list \<Rightarrow> nat \<Rightarrow> 'a option" where
  "at_opt xs i = (if i < length xs then Some (xs ! i) else None)"

definition set_opt :: "'a list \<Rightarrow> nat \<Rightarrow> 'a \<Rightarrow> 'a list option" where
  "set_opt xs i x = (if i < length xs then Some (xs[i := x]) else None)"

lemma at_opt_Some_iff [simp]: "at_opt xs i = Some x \<longleftrightarrow> i < length xs \<and> xs ! i = x"
  by (auto simp: at_opt_def)

lemma at_opt_None_iff [simp]: "at_opt xs i = None \<longleftrightarrow> length xs \<le> i"
  by (auto simp: at_opt_def)

lemma at_opt_in_range [simp]: "i < length xs \<Longrightarrow> at_opt xs i = Some (xs ! i)"
  by simp

lemma set_opt_Some_iff [simp]: "set_opt xs i x = Some ys \<longleftrightarrow> i < length xs \<and> ys = xs[i := x]"
  by (auto simp: set_opt_def)

lemma set_opt_in_range [simp]: "i < length xs \<Longrightarrow> set_opt xs i x = Some (xs[i := x])"
  by simp

lemma length_splice [simp]:
  "off + length bs \<le> length m \<Longrightarrow> length (splice m off bs) = length m"
  by (simp add: splice_def)

lemma length_slice [simp]: "off + n \<le> length m \<Longrightarrow> length (slice m off n) = n"
  by (simp add: slice_def)

lemma slice_zero [simp]: "slice m off 0 = []"
  by (simp add: slice_def)

lemma slice_from_0: "slice m 0 n = take n m"
  by (simp add: slice_def)

lemma nth_slice: "off + n \<le> length m \<Longrightarrow> i < n \<Longrightarrow> slice m off n ! i = m ! (off + i)"
  by (simp add: slice_def)

lemma nth_splice:
  assumes "off + length bs \<le> length m" "i < length m"
  shows "splice m off bs ! i =
    (if i < off then m ! i else if i < off + length bs then bs ! (i - off) else m ! i)"
  using assms by (auto simp: splice_def nth_append min_def)

lemma slice_eqI:
  assumes "off + n \<le> length m" "off' + n \<le> length m'"
    and "\<And>i. i < n \<Longrightarrow> m ! (off + i) = m' ! (off' + i)"
  shows "slice m off n = slice m' off' n"
  using assms by (intro nth_equalityI) (simp_all add: nth_slice)

lemma slice_splice_same [mem_simps]:
  "off + length bs \<le> length m \<Longrightarrow> n = length bs \<Longrightarrow> slice (splice m off bs) off n = bs"
  by (simp add: slice_def splice_def)

lemma slice_splice_other:
  assumes "off + length bs \<le> length m" "off' + n \<le> length m"
    and "off' + n \<le> off \<or> off + length bs \<le> off'"
  shows "slice (splice m off bs) off' n = slice m off' n"
  using assms by (intro slice_eqI) (auto simp: nth_splice)

lemma take_splice_le: "n \<le> off \<Longrightarrow> off \<le> length m \<Longrightarrow> take n (splice m off bs) = take n m"
  by (simp add: splice_def min_def)

lemma slice_append:
  "slice m off a @ slice m (off + a) b = slice m off (a + b)"
  by (simp add: slice_def take_add add.commute)

lemma slice_Suc:
  "off < length m \<Longrightarrow> slice m off (Suc n) = m ! off # slice m (Suc off) n"
  by (simp add: slice_def Cons_nth_drop_Suc [symmetric])

lemma drop_eq_slice: "drop off m = slice m off (length m - off)"
  by (simp add: slice_def)

subsection \<open>Naturals and words\<close>

lemma unat_of_nat_small: "n < 2 ^ LENGTH('a::len) \<Longrightarrow> unat (of_nat n :: 'a word) = n"
  by (simp add: unsigned_of_nat take_bit_nat_eq_self)

lemma unat_ucast_mod: "unat (ucast (w :: 'b::len word) :: 'a::len word) = unat w mod 2 ^ LENGTH('a)"
  by (simp add: unsigned_ucast_eq take_bit_eq_mod)

subsection \<open>Unsigned 32-bit arithmetic on naturals\<close>

text \<open>C++ \<open>uint32_t\<close> subtraction on values below \<open>2 ^ 32\<close> wraps around.\<close>

definition sub32 :: "nat \<Rightarrow> nat \<Rightarrow> nat" where
  "sub32 a b = (a + 2 ^ 32 - b) mod 2 ^ 32"

lemma sub32_le:
  assumes "b \<le> a" "a < 2 ^ 32"
  shows "sub32 a b = a - b"
proof -
  have "a + 2 ^ 32 - b = (a - b) + 2 ^ 32" using assms by simp
  then have "sub32 a b = ((a - b) + 2 ^ 32) mod 2 ^ 32" by (simp only: sub32_def)
  also have "\<dots> = (a - b) mod 2 ^ 32" by (rule mod_add_self2)
  finally show ?thesis using assms by simp
qed

lemma sub32_wraps: "a < b \<Longrightarrow> b < 2 ^ 32 \<Longrightarrow> sub32 a b = 2 ^ 32 + a - b"
  by (simp add: sub32_def)

text \<open>The value of an unsigned 32-bit result.\<close>

definition wrap32 :: "nat \<Rightarrow> nat" where
  "wrap32 n = n mod 2 ^ 32"

lemma wrap32_small [simp]: "n < 2 ^ 32 \<Longrightarrow> wrap32 n = n"
  by (simp add: wrap32_def)

end
