(* ===== verification/Crc.thy ===== *)
theory Crc
  imports Prelude
begin

text \<open>
  The two checksums of the serial protocol: the tables of \<open>utilities/crc.h\<close> and the
  update, calculation and check functions at the end of \<open>protocol/protocol.cpp\<close>.
\<close>

definition CRC_INIT :: nat where "CRC_INIT = 0x3AA3"

definition crc_tab16 :: "u16 list" where
  "crc_tab16 = [
    0x0000, 0xc0c1, 0xc181, 0x0140, 0xc301, 0x03c0, 0x0280, 0xc241,
    0xc601, 0x06c0, 0x0780, 0xc741, 0x0500, 0xc5c1, 0xc481, 0x0440,
    0xcc01, 0x0cc0, 0x0d80, 0xcd41, 0x0f00, 0xcfc1, 0xce81, 0x0e40,
    0x0a00, 0xcac1, 0xcb81, 0x0b40, 0xc901, 0x09c0, 0x0880, 0xc841,
    0xd801, 0x18c0, 0x1980, 0xd941, 0x1b00, 0xdbc1, 0xda81, 0x1a40,
    0x1e00, 0xdec1, 0xdf81, 0x1f40, 0xdd01, 0x1dc0, 0x1c80, 0xdc41,
    0x1400, 0xd4c1, 0xd581, 0x1540, 0xd701, 0x17c0, 0x1680, 0xd641,
    0xd201, 0x12c0, 0x1380, 0xd341, 0x1100, 0xd1c1, 0xd081, 0x1040,
    0xf001, 0x30c0, 0x3180, 0xf141, 0x3300, 0xf3c1, 0xf281, 0x3240,
    0x3600, 0xf6c1, 0xf781, 0x3740, 0xf501, 0x35c0, 0x3480, 0xf441,
    0x3c00, 0xfcc1, 0xfd81, 0x3d40, 0xff01, 0x3fc0, 0x3e80, 0xfe41,
    0xfa01, 0x3ac0, 0x3b80, 0xfb41, 0x3900, 0xf9c1, 0xf881, 0x3840,
    0x2800, 0xe8c1, 0xe981, 0x2940, 0xeb01, 0x2bc0, 0x2a80, 0xea41,
    0xee01, 0x2ec0, 0x2f80, 0xef41, 0x2d00, 0xedc1, 0xec81, 0x2c40,
    0xe401, 0x24c0, 0x2580, 0xe541, 0x2700, 0xe7c1, 0xe681, 0x2640,
    0x2200, 0xe2c1, 0xe381, 0x2340, 0xe101, 0x21c0, 0x2080, 0xe041,
    0xa001, 0x60c0, 0x6180, 0xa141, 0x6300, 0xa3c1, 0xa281, 0x6240,
    0x6600, 0xa6c1, 0xa781, 0x6740, 0xa501, 0x65c0, 0x6480, 0xa441,
    0x6c00, 0xacc1, 0xad81, 0x6d40, 0xaf01, 0x6fc0, 0x6e80, 0xae41,
    0xaa01, 0x6ac0, 0x6b80, 0xab41, 0x6900, 0xa9c1, 0xa881, 0x6840,
    0x7800, 0xb8c1, 0xb981, 0x7940, 0xbb01, 0x7bc0, 0x7a80, 0xba41,
    0xbe01, 0x7ec0, 0x7f80, 0xbf41, 0x7d00, 0xbdc1, 0xbc81, 0x7c40,
    0xb401, 0x74c0, 0x7580, 0xb541, 0x7700, 0xb7c1, 0xb681, 0x7640,
    0x7200, 0xb2c1, 0xb381, 0x7340, 0xb101, 0x71c0, 0x7080, 0xb041,
    0x5000, 0x90c1, 0x9181, 0x5140, 0x9301, 0x53c0, 0x5280, 0x9241,
    0x9601, 0x56c0, 0x5780, 0x9741, 0x5500, 0x95c1, 0x9481, 0x5440,
    0x9c01, 0x5cc0, 0x5d80, 0x9d41, 0x5f00, 0x9fc1, 0x9e81, 0x5e40,
    0x5a00, 0x9ac1, 0x9b81, 0x5b40, 0x9901, 0x59c0, 0x5880, 0x9841,
    0x8801, 0x48c0, 0x4980, 0x8941, 0x4b00, 0x8bc1, 0x8a81, 0x4a40,
    0x4e00, 0x8ec1, 0x8f81, 0x4f40, 0x8d01, 0x4dc0, 0x4c80, 0x8c41,
    0x4400, 0x84c1, 0x8581, 0x4540, 0x8701, 0x47c0, 0x4680, 0x8641,
    0x8201, 0x42c0, 0x4380, 0x8341, 0x4100, 0x81c1, 0x8081, 0x4040]"

definition crc_tab32 :: "u32 list" where
  "crc_tab32 = [
    0x00000000, 0x77073096, 0xee0e612c, 0x990951ba, 0x076dc419, 0x706af48f,
    0xe963a535, 0x9e6495a3, 0x0edb8832, 0x79dcb8a4, 0xe0d5e91e, 0x97d2d988,
    0x09b64c2b, 0x7eb17cbd, 0xe7b82d07, 0x90bf1d91, 0x1db71064, 0x6ab020f2,
    0xf3b97148, 0x84be41de, 0x1adad47d, 0x6ddde4eb, 0xf4d4b551, 0x83d385c7,
    0x136c9856, 0x646ba8c0, 0xfd62f97a, 0x8a65c9ec, 0x14015c4f, 0x63066cd9,
    0xfa0f3d63, 0x8d080df5, 0x3b6e20c8, 0x4c69105e, 0xd56041e4, 0xa2677172,
    0x3c03e4d1, 0x4b04d447, 0xd20d85fd, 0xa50ab56b, 0x35b5a8fa, 0x42b2986c,
    0xdbbbc9d6, 0xacbcf940, 0x32d86ce3, 0x45df5c75, 0xdcd60dcf, 0xabd13d59,
    0x26d930ac, 0x51de003a, 0xc8d75180, 0xbfd06116, 0x21b4f4b5, 0x56b3c423,
    0xcfba9599, 0xb8bda50f, 0x2802b89e, 0x5f058808, 0xc60cd9b2, 0xb10be924,
    0x2f6f7c87, 0x58684c11, 0xc1611dab, 0xb6662d3d, 0x76dc4190, 0x01db7106,
    0x98d220bc, 0xefd5102a, 0x71b18589, 0x06b6b51f, 0x9fbfe4a5, 0xe8b8d433,
    0x7807c9a2, 0x0f00f934, 0x9609a88e, 0xe10e9818, 0x7f6a0dbb, 0x086d3d2d,
    0x91646c97, 0xe6635c01, 0x6b6b51f4, 0x1c6c6162, 0x856530d8, 0xf262004e,
    0x6c0695ed, 0x1b01a57b, 0x8208f4c1, 0xf50fc457, 0x65b0d9c6, 0x12b7e950,
    0x8bbeb8ea, 0xfcb9887c, 0x62dd1ddf, 0x15da2d49, 0x8cd37cf3, 0xfbd44c65,
    0x4db26158, 0x3ab551ce, 0xa3bc0074, 0xd4bb30e2, 0x4adfa541, 0x3dd895d7,
    0xa4d1c46d, 0xd3d6f4fb, 0x4369e96a, 0x346ed9fc, 0xad678846, 0xda60b8d0,
    0x44042d73, 0x33031de5, 0xaa0a4c5f, 0xdd0d7cc9, 0x5005713c, 0x270241aa,
    0xbe0b1010, 0xc90c2086, 0x5768b525, 0x206f85b3, 0xb966d409, 0xce61e49f,
    0x5edef90e, 0x29d9c998, 0xb0d09822, 0xc7d7a8b4, 0x59b33d17, 0x2eb40d81,
    0xb7bd5c3b, 0xc0ba6cad, 0xedb88320, 0x9abfb3b6, 0x03b6e20c, 0x74b1d29a,
    0xead54739, 0x9dd277af, 0x04db2615, 0x73dc1683, 0xe3630b12, 0x94643b84,
    0x0d6d6a3e, 0x7a6a5aa8, 0xe40ecf0b, 0x9309ff9d, 0x0a00ae27, 0x7d079eb1,
    0xf00f9344, 0x8708a3d2, 0x1e01f268, 0x6906c2fe, 0xf762575d, 0x806567cb,
    0x196c3671, 0x6e6b06e7, 0xfed41b76, 0x89d32be0, 0x10da7a5a, 0x67dd4acc,
    0xf9b9df6f, 0x8ebeeff9, 0x17b7be43, 0x60b08ed5, 0xd6d6a3e8, 0xa1d1937e,
    0x38d8c2c4, 0x4fdff252, 0xd1bb67f1, 0xa6bc5767, 0x3fb506dd, 0x48b2364b,
    0xd80d2bda, 0xaf0a1b4c, 0x36034af6, 0x41047a60, 0xdf60efc3, 0xa867df55,
    0x316e8eef, 0x4669be79, 0xcb61b38c, 0xbc66831a, 0x256fd2a0, 0x5268e236,
    0xcc0c7795, 0xbb0b4703, 0x220216b9, 0x5505262f, 0xc5ba3bbe, 0xb2bd0b28,
    0x2bb45a92, 0x5cb36a04, 0xc2d7ffa7, 0xb5d0cf31, 0x2cd99e8b, 0x5bdeae1d,
    0x9b64c2b0, 0xec63f226, 0x756aa39c, 0x026d930a, 0x9c0906a9, 0xeb0e363f,
    0x72076785, 0x05005713, 0x95bf4a82, 0xe2b87a14, 0x7bb12bae, 0x0cb61b38,
    0x92d28e9b, 0xe5d5be0d, 0x7cdcefb7, 0x0bdbdf21, 0x86d3d2d4, 0xf1d4e242,
    0x68ddb3f8, 0x1fda836e, 0x81be16cd, 0xf6b9265b, 0x6fb077e1, 0x18b74777,
    0x88085ae6, 0xff0f6a70, 0x66063bca, 0x11010b5c, 0x8f659eff, 0xf862ae69,
    0x616bffd3, 0x166ccf45, 0xa00ae278, 0xd70dd2ee, 0x4e048354, 0x3903b3c2,
    0xa7672661, 0xd06016f7, 0x4969474d, 0x3e6e77db, 0xaed16a4a, 0xd9d65adc,
    0x40df0b66, 0x37d83bf0, 0xa9bcae53, 0xdebb9ec5, 0x47b2cf7f, 0x30b5ffe9,
    0xbdbdf21c, 0xcabac28a, 0x53b39330, 0x24b4a3a6, 0xbad03605, 0xcdd70693,
    0x54de5729, 0x23d967bf, 0xb3667a2e, 0xc4614ab8, 0x5d681b02, 0x2a6f2b94,
    0xb40bbe37, 0xc30c8ea1, 0x5a05df1b, 0x2d02ef8d]"

definition crc16_update :: "u16 \<Rightarrow> u8 \<Rightarrow> u16" where
  "crc16_update crc ch =
     (let msg = 0x00ff AND (ucast ch :: u16);
          tmp = crc XOR msg
      in drop_bit 8 crc XOR crc_tab16 ! unat (tmp AND 0xff))"

definition crc32_update :: "u32 \<Rightarrow> u8 \<Rightarrow> u32" where
  "crc32_update crc ch =
     (let msg = 0x000000ff AND (ucast ch :: u32);
          tmp = crc XOR msg
      in drop_bit 8 crc XOR crc_tab32 ! unat (tmp AND 0xff))"

definition crc16_calc :: "bytes \<Rightarrow> u16" where
  "crc16_calc data = foldl crc16_update (of_nat CRC_INIT) data"

definition crc32_calc :: "bytes \<Rightarrow> u32" where
  "crc32_calc data = foldl crc32_update (of_nat CRC_INIT) data"

definition crc_head_check :: "bytes \<Rightarrow> bool" where
  "crc_head_check data = (if crc16_calc data = 0 then True else False)"

definition crc_tail_check :: "bytes \<Rightarrow> bool" where
  "crc_tail_check data = (if crc32_calc data = 0 then True else False)"


subsection \<open>The polynomial step behind both tables\<close>

text \<open>
  One bit of a reflected CRC: shift right and subtract the polynomial if a one was shifted
  out. The step is linear over \<open>XOR\<close>, and injective when the polynomial has its top bit.
\<close>

definition crc_round :: "'a::len word \<Rightarrow> 'a word \<Rightarrow> 'a word" where
  "crc_round poly c = (if bit c 0 then drop_bit 1 c XOR poly else drop_bit 1 c)"

lemma crc_round_0 [simp]: "crc_round poly 0 = 0"
  by (simp add: crc_round_def)

lemma crc_round_xor: "crc_round poly (a XOR b) = crc_round poly a XOR crc_round poly b"
  by (auto simp: crc_round_def bit_xor_iff intro!: bit_word_eqI simp: bit_drop_bit_eq)

lemma crc_rounds_0 [simp]: "(crc_round poly ^^ n) 0 = 0"
  by (induction n) simp_all

lemma crc_rounds_xor:
  "(crc_round poly ^^ n) (a XOR b) = (crc_round poly ^^ n) a XOR (crc_round poly ^^ n) b"
  by (induction n) (simp_all add: crc_round_xor)

lemma crc_round_even: "\<not> bit c 0 \<Longrightarrow> crc_round poly c = drop_bit 1 c"
  by (simp add: crc_round_def)

lemma crc_rounds_shift:
  "(\<And>i. i < n \<Longrightarrow> \<not> bit c i) \<Longrightarrow> (crc_round poly ^^ n) c = drop_bit n c"
proof (induction n)
  case (Suc n)
  then have "(crc_round poly ^^ n) c = drop_bit n c" by simp
  moreover have "\<not> bit (drop_bit n c) 0" using Suc.prems [of n] by (simp add: bit_drop_bit_eq)
  ultimately show ?case by (simp add: crc_round_even)
qed simp

lemma crc_round_inj:
  assumes top: "bit poly (LENGTH('a) - 1)" and eq: "crc_round poly a = crc_round poly (b :: 'a::len word)"
  shows "a = b"
proof (rule bit_word_eqI)
  have top_bit: "bit (crc_round poly c) (LENGTH('a) - 1) = bit c 0" for c :: "'a word"
    using top
    by (auto simp: crc_round_def bit_xor_iff bit_drop_bit_eq dest: bit_imp_le_length)
  have b0: "bit a 0 = bit b 0" using top_bit [of a] top_bit [of b] eq by simp
  then have "drop_bit 1 a = drop_bit 1 b"
    using eq by (auto simp: crc_round_def split: if_splits dest: arg_cong [of _ _ "\<lambda>x. x XOR poly"] simp: xor.assoc)
  then have "bit a (Suc m) = bit b (Suc m)" for m
    by (metis bit_drop_bit_eq comp_apply plus_1_eq_Suc)
  with b0 show "bit a n \<longleftrightarrow> bit b n" for n by (cases n) auto
qed

lemma crc_rounds_inj:
  fixes a :: "'a::len word"
  assumes "bit poly (LENGTH('a) - 1)"
  shows "(crc_round poly ^^ n) a = (crc_round poly ^^ n) b \<longleftrightarrow> a = b"
  by (induction n) (auto dest: crc_round_inj [OF assms])

text \<open>A table that doubles by adding one basis entry at a time is the table of the polynomial.\<close>

lemma of_nat_add_xor:
  assumes "j < 2 ^ k"
  shows "(of_nat (2 ^ k + j) :: 'a::len word) = of_nat j XOR push_bit k 1"
proof -
  have "of_nat j AND push_bit k (1::'a word) = 0"
  proof (rule bit_word_eqI)
    fix n
    have "\<not> bit j k" using assms by (simp add: bit_iff_odd)
    then show "bit (of_nat j AND push_bit k (1::'a word)) n = bit (0::'a word) n"
      by (auto simp: bit_and_iff bit_push_bit_iff bit_1_iff bit_of_nat_iff bit_exp_iff)
  qed
  then have "of_nat j + push_bit k (1::'a word) = of_nat j XOR push_bit k 1"
    by (rule disjunctive_add_eq_xor)
  then show ?thesis by (simp add: push_bit_eq_mult add.commute)
qed

lemma crc_table_doubling:
  fixes tab :: "'a::len word list"
  assumes len: "length tab = 2 ^ m" and zero: "tab ! 0 = 0"
    and dbl: "\<And>k. k < m \<Longrightarrow> take (2 ^ k) (drop (2 ^ k) tab)
      = map (\<lambda>x. x XOR (crc_round poly ^^ n) (push_bit k 1)) (take (2 ^ k) tab)"
  shows "i < 2 ^ k \<Longrightarrow> k \<le> m \<Longrightarrow> tab ! i = (crc_round poly ^^ n) (of_nat i)"
proof (induction k arbitrary: i)
  case 0
  then show ?case using zero by simp
next
  case (Suc k)
  show ?case
  proof (cases "i < 2 ^ k")
    case True
    with Suc show ?thesis by simp
  next
    case False
    then obtain j where i: "i = 2 ^ k + j" and j: "j < 2 ^ k"
      using Suc.prems(1) by (metis le_add_diff_inverse mult_2 nat_add_left_cancel_less not_less power_Suc)
    have big: "2 ^ k + 2 ^ k \<le> length tab"
      using Suc.prems(2) power_increasing [of "Suc k" m "2::nat"] by (simp add: len)
    have "tab ! i = take (2 ^ k) (drop (2 ^ k) tab) ! j" using i j big by simp
    also have "\<dots> = tab ! j XOR (crc_round poly ^^ n) (push_bit k 1)"
      using dbl [of k] Suc.prems(2) j big by simp
    finally show ?thesis
      using Suc.IH [OF j] Suc.prems(2) i by (simp only: of_nat_add_xor [OF j] crc_rounds_xor)
  qed
qed

lemma less_8_cases: "k < (8::nat) \<Longrightarrow> k \<in> {0, 1, 2, 3, 4, 5, 6, 7}"
  by auto

lemma funpow_8: "(f ^^ 8) x = f (f (f (f (f (f (f (f x)))))))"
  by (simp add: numeral_eq_Suc)

lemma crc_basis16:
  "(crc_round 0xA001 ^^ 8) (push_bit 0 (1::u16)) = 0xC0C1"
  "(crc_round 0xA001 ^^ 8) (push_bit 1 (1::u16)) = 0xC181"
  "(crc_round 0xA001 ^^ 8) (push_bit 2 (1::u16)) = 0xC301"
  "(crc_round 0xA001 ^^ 8) (push_bit 3 (1::u16)) = 0xC601"
  "(crc_round 0xA001 ^^ 8) (push_bit 4 (1::u16)) = 0xCC01"
  "(crc_round 0xA001 ^^ 8) (push_bit 5 (1::u16)) = 0xD801"
  "(crc_round 0xA001 ^^ 8) (push_bit 6 (1::u16)) = 0xF001"
  "(crc_round 0xA001 ^^ 8) (push_bit 7 (1::u16)) = 0xA001"
  by (simp_all add: funpow_8 crc_round_def)

lemma crc_basis32:
  "(crc_round 0xEDB88320 ^^ 8) (push_bit 0 (1::u32)) = 0x77073096"
  "(crc_round 0xEDB88320 ^^ 8) (push_bit 1 (1::u32)) = 0xEE0E612C"
  "(crc_round 0xEDB88320 ^^ 8) (push_bit 2 (1::u32)) = 0x76DC419"
  "(crc_round 0xEDB88320 ^^ 8) (push_bit 3 (1::u32)) = 0xEDB8832"
  "(crc_round 0xEDB88320 ^^ 8) (push_bit 4 (1::u32)) = 0x1DB71064"
  "(crc_round 0xEDB88320 ^^ 8) (push_bit 5 (1::u32)) = 0x3B6E20C8"
  "(crc_round 0xEDB88320 ^^ 8) (push_bit 6 (1::u32)) = 0x76DC4190"
  "(crc_round 0xEDB88320 ^^ 8) (push_bit 7 (1::u32)) = 0xEDB88320"
  by (simp_all add: funpow_8 crc_round_def)

lemma crc_tab16_entry:
  assumes "i < 256"
  shows "crc_tab16 ! i = (crc_round 0xA001 ^^ 8) (of_nat i)"
proof (rule crc_table_doubling [where m = 8 and k = 8])
  fix k :: nat
  assume "k < 8"
  then consider "k = 0" | "k = 1" | "k = 2" | "k = 3" | "k = 4" | "k = 5" | "k = 6" | "k = 7"
    by (auto dest: less_8_cases)
  then show "take (2 ^ k) (drop (2 ^ k) crc_tab16)
      = map (\<lambda>x. x XOR (crc_round 0xA001 ^^ 8) (push_bit k 1)) (take (2 ^ k) crc_tab16)"
    by cases (simp_all only: crc_basis16, simp_all add: crc_tab16_def)
qed (use assms in \<open>simp_all add: crc_tab16_def\<close>)

lemma crc_tab32_entry:
  assumes "i < 256"
  shows "crc_tab32 ! i = (crc_round 0xEDB88320 ^^ 8) (of_nat i)"
proof (rule crc_table_doubling [where m = 8 and k = 8])
  fix k :: nat
  assume "k < 8"
  then consider "k = 0" | "k = 1" | "k = 2" | "k = 3" | "k = 4" | "k = 5" | "k = 6" | "k = 7"
    by (auto dest: less_8_cases)
  then show "take (2 ^ k) (drop (2 ^ k) crc_tab32)
      = map (\<lambda>x. x XOR (crc_round 0xEDB88320 ^^ 8) (push_bit k 1)) (take (2 ^ k) crc_tab32)"
    by cases (simp_all only: crc_basis32, simp_all add: crc_tab32_def)
qed (use assms in \<open>simp_all add: crc_tab32_def\<close>)

subsection \<open>Little-endian words\<close>

text \<open>The word whose least significant byte comes first, as the code's \<open>memcpy\<close> and packed
  structs lay integers out on the little-endian targets.\<close>

primrec le_word :: "bytes \<Rightarrow> 'a::len word" where
  "le_word [] = 0"
| "le_word (b # bs) = ucast b XOR push_bit 8 (le_word bs)"

primrec le_bytes :: "nat \<Rightarrow> 'a::len word \<Rightarrow> bytes" where
  "le_bytes 0 w = []"
| "le_bytes (Suc n) w = ucast w # le_bytes n (drop_bit 8 w)"

lemma length_le_bytes [simp]: "length (le_bytes n w) = n"
  by (induction n arbitrary: w) simp_all

lemma nth_le_bytes: "k < n \<Longrightarrow> le_bytes n w ! k = ucast (drop_bit (8 * k) w)"
  by (induction n arbitrary: k w) (auto simp: nth_Cons' algebra_simps)

lemma bit_le_word:
  "bit (le_word bs :: 'a::len word) i \<longleftrightarrow>
    i < LENGTH('a) \<and> i < 8 * length bs \<and> bit (bs ! (i div 8)) (i mod 8)"
proof (induction bs arbitrary: i)
  case (Cons b bs)
  show ?case
  proof (cases "i < 8")
    case True
    then show ?thesis by (auto simp: bit_xor_iff bit_push_bit_iff bit_ucast_iff)
  next
    case False
    then obtain j where "i = 8 + j" by (metis le_add_diff_inverse not_less)
    moreover have "(8 + j) div 8 = Suc (j div 8)" "\<not> bit b (8 + j)"
      by (simp, auto dest: bit_imp_le_length)
    ultimately show ?thesis
      using Cons.IH [of j]
      by (auto simp: bit_xor_iff bit_push_bit_iff bit_ucast_iff)
  qed
qed simp

lemma le_word_inj:
  assumes len: "length bs = length cs" and fits: "8 * length bs \<le> LENGTH('a::len)"
    and eq: "(le_word bs :: 'a word) = le_word cs"
  shows "bs = cs"
proof (rule nth_equalityI)
  fix k
  assume k: "k < length bs"
  show "bs ! k = cs ! k"
  proof (rule bit_word_eqI)
    fix m
    assume "m < LENGTH(8)"
    then have m: "m < 8" by simp
    then have "8 * k + m < 8 * length bs" using k by linarith
    moreover from m have "(8 * k + m) div 8 = k" "(8 * k + m) mod 8 = m" by simp_all
    ultimately show "bit (bs ! k) m = bit (cs ! k) m"
      using arg_cong [OF eq, of "\<lambda>w. bit w (8 * k + m)"] len fits by (simp add: bit_le_word)
  qed
qed (rule len)

lemma le_word_le_bytes:
  "LENGTH('a::len) \<le> 8 * n \<Longrightarrow> le_word (le_bytes n w) = (w :: 'a word)"
proof (rule bit_word_eqI)
  fix i
  assume n: "LENGTH('a) \<le> 8 * n" and i: "i < LENGTH('a)"
  have "8 * (i div 8) + i mod 8 = i" by simp
  moreover have "i div 8 < n" using n i by linarith
  ultimately show "bit (le_word (le_bytes n w) :: 'a word) i = bit w i"
    using n i by (simp add: bit_le_word nth_le_bytes bit_ucast_iff bit_drop_bit_eq)
qed

lemma le_bytes_le_word:
  assumes "8 * length bs \<le> LENGTH('a::len)"
  shows "le_bytes (length bs) (le_word bs :: 'a word) = bs"
proof (rule le_word_inj [where 'a = 'a])
  show "(le_word (le_bytes (length bs) (le_word bs :: 'a word)) :: 'a word) = le_word bs"
  proof (rule bit_word_eqI)
    fix i
    assume "i < LENGTH('a)"
    have "8 * (i div 8) + i mod 8 = i" by simp
    then show "bit (le_word (le_bytes (length bs) (le_word bs :: 'a word)) :: 'a word) i = bit (le_word bs :: 'a word) i"
      by (auto simp: bit_le_word nth_le_bytes bit_ucast_iff bit_drop_bit_eq)
  qed
qed (use assms in simp_all)

subsection \<open>What the protocol relies on: residue and burst detection\<close>

text \<open>
  The interface between the checksum code and its clients. A client appends the checksum of
  a message in little-endian byte order; the provider promises that each update is eight
  polynomial steps. Everything the protocol needs of its checksums follows from that.
\<close>

locale crc_engine =
  fixes upd :: "'w::len word \<Rightarrow> u8 \<Rightarrow> 'w word" and poly :: "'w word"
  assumes upd_rounds: "upd c b = (crc_round poly ^^ 8) (c XOR ucast b)"
    and poly_top: "bit poly (LENGTH('w) - 1)"
    and whole_bytes: "8 dvd LENGTH('w)"
begin

lemma rounds_inj: "(crc_round poly ^^ n) a = (crc_round poly ^^ n) b \<longleftrightarrow> a = b"
  by (rule crc_rounds_inj [OF poly_top])

lemma upd_inj: "upd a x = upd b x \<longleftrightarrow> a = b"
proof -
  have "a XOR ucast x = b XOR ucast x \<longleftrightarrow> a = b"
    by (metis xor.right_neutral xor_self_eq xor.assoc)
  then show ?thesis by (simp add: upd_rounds rounds_inj)
qed

lemma foldl_upd_inj: "foldl upd a xs = foldl upd b xs \<longleftrightarrow> a = b"
  by (induction xs arbitrary: a b) (simp_all add: upd_inj)

lemma foldl_upd_word:
  "8 * length bs \<le> LENGTH('w) \<Longrightarrow>
    foldl upd c bs = (crc_round poly ^^ (8 * length bs)) (c XOR le_word bs)"
proof (induction bs arbitrary: c)
  case (Cons b bs)
  have shift: "(crc_round poly ^^ 8) (push_bit 8 (le_word bs)) = (le_word bs :: 'w word)"
  proof -
    have "drop_bit 8 (push_bit 8 (le_word bs)) = (le_word bs :: 'w word)"
      using Cons.prems
      by (intro bit_word_eqI) (auto simp: bit_drop_bit_eq bit_push_bit_iff bit_le_word)
    then show ?thesis by (subst crc_rounds_shift) (auto simp: bit_push_bit_iff)
  qed
  have "foldl upd c (b # bs) = (crc_round poly ^^ (8 * length bs)) (upd c b XOR le_word bs)"
    using Cons by simp
  also have "upd c b XOR le_word bs =
      (crc_round poly ^^ 8) (c XOR ucast b XOR push_bit 8 (le_word bs))"
    by (simp add: upd_rounds crc_rounds_xor shift xor.assoc)
  also have "c XOR ucast b XOR push_bit 8 (le_word bs) = c XOR le_word (b # bs)"
    by (simp add: xor.assoc)
  finally show ?case by (simp only: length_Cons mult_Suc_right add.commute [of 8] funpow_add o_apply)
qed simp

text \<open>The residue law: a checked message passes exactly if its trailer is its checksum.\<close>

lemma residue_iff:
  assumes "length t = LENGTH('w) div 8"
  shows "foldl upd c (d @ t) = 0 \<longleftrightarrow> le_word t = foldl upd c d"
proof -
  have len: "8 * length t \<le> LENGTH('w)" using assms by simp
  have "foldl upd c (d @ t) = 0 \<longleftrightarrow>
      (crc_round poly ^^ (8 * length t)) (foldl upd c d XOR le_word t)
        = (crc_round poly ^^ (8 * length t)) 0"
    by (simp add: foldl_upd_word [OF len])
  also have "\<dots> \<longleftrightarrow> foldl upd c d XOR le_word t = 0" by (rule rounds_inj)
  also have "\<dots> \<longleftrightarrow> le_word t = foldl upd c d"
    by (metis xor.right_neutral xor_self_eq xor.left_commute xor.commute)
  finally show ?thesis .
qed

lemma residue_append:
  "foldl upd c (d @ le_bytes (LENGTH('w) div 8) (foldl upd c d)) = 0"
  using whole_bytes by (subst residue_iff) (simp_all add: le_word_le_bytes)

text \<open>Two messages that differ only inside a window of the checksum's width have different
  checksums.\<close>

lemma burst_detected:
  assumes len: "length xs = length ys" and short: "8 * length xs \<le> LENGTH('w)" and diff: "xs \<noteq> ys"
  shows "foldl upd c (pre @ xs @ post) \<noteq> foldl upd c (pre @ ys @ post)"
proof
  assume "foldl upd c (pre @ xs @ post) = foldl upd c (pre @ ys @ post)"
  then have "foldl upd (foldl upd c pre) xs = foldl upd (foldl upd c pre) ys"
    by (simp add: foldl_upd_inj)
  then have "foldl upd c pre XOR le_word xs = foldl upd c pre XOR le_word ys"
    using short len by (simp add: foldl_upd_word rounds_inj)
  then have "(le_word xs :: 'w word) = le_word ys"
    by (metis xor.assoc xor.left_neutral xor_self_eq)
  then show False using le_word_inj [OF len short] diff by blast
qed

end

lemma low_byte_index:
  fixes w :: "'a::len word"
  assumes "8 \<le> LENGTH('a)"
  shows "unat (w AND 0xff) < 256" and "(of_nat (unat (w AND 0xff)) :: 'a word) = w AND 0xff"
proof -
  have "(0xff :: 'a word) = mask 8" by (simp add: mask_eq_exp_minus_1)
  then have "w AND 0xff = take_bit 8 w" by (simp add: take_bit_eq_mask)
  moreover have "unat (take_bit 8 w) < 2 ^ 8"
    unfolding unsigned_take_bit_eq by (rule take_bit_nat_less_exp)
  ultimately show "unat (w AND 0xff) < 256" by simp
qed simp

lemma crc_update_rounds:
  fixes c :: "'a::len word"
  assumes wide: "8 \<le> LENGTH('a)"
    and tab: "\<And>i. i < 256 \<Longrightarrow> tab ! i = (crc_round poly ^^ 8) (of_nat i)"
  shows "drop_bit 8 c XOR tab ! unat ((c XOR (0xff AND ucast (b :: u8))) AND 0xff)
    = (crc_round poly ^^ 8) (c XOR ucast b)"
proof -
  let ?x = "c XOR (ucast b :: 'a word)"
  have mask: "(0xff :: 'a word) = mask 8" by (simp add: mask_eq_exp_minus_1)
  have byte: "0xff AND (ucast b :: 'a word) = ucast b"
    by (rule bit_word_eqI) (auto simp: mask bit_and_iff bit_mask_iff bit_ucast_iff dest: bit_imp_le_length)
  have split: "?x = (?x AND 0xff) XOR push_bit 8 (drop_bit 8 ?x)"
  proof (rule bit_word_eqI)
    fix n
    show "bit ?x n = bit ((?x AND 0xff) XOR push_bit 8 (drop_bit 8 ?x)) n"
      by (cases "n < 8")
        (auto simp: mask bit_and_iff bit_xor_iff bit_mask_iff bit_push_bit_iff bit_drop_bit_eq
          dest: bit_imp_le_length)
  qed
  have high: "(crc_round poly ^^ 8) (push_bit 8 (drop_bit 8 ?x)) = drop_bit 8 c"
    by (subst crc_rounds_shift; (rule bit_word_eqI)?)
      (auto simp: bit_push_bit_iff bit_drop_bit_eq bit_xor_iff bit_ucast_iff dest: bit_imp_le_length)
  have "(crc_round poly ^^ 8) ?x
      = (crc_round poly ^^ 8) (?x AND 0xff) XOR (crc_round poly ^^ 8) (push_bit 8 (drop_bit 8 ?x))"
    by (subst split) (rule crc_rounds_xor)
  also have "\<dots> = tab ! unat (?x AND 0xff) XOR drop_bit 8 c"
    using low_byte_index [OF wide, of ?x] by (simp only: tab high)
  finally show ?thesis by (simp add: byte xor.commute)
qed

interpretation crc16: crc_engine crc16_update "0xA001"
  by unfold_locales (simp_all add: crc16_update_def crc_update_rounds crc_tab16_entry)

interpretation crc32: crc_engine crc32_update "0xEDB88320"
  by unfold_locales (simp_all add: crc32_update_def crc_update_rounds crc_tab32_entry)

lemma crc_head_check_iff:
  assumes "length t = 2"
  shows "crc_head_check (d @ t) \<longleftrightarrow> le_word t = crc16_calc d"
  using crc16.residue_iff [of t "of_nat CRC_INIT" d] assms
  by (simp add: crc_head_check_def crc16_calc_def)

lemma crc_tail_check_iff:
  assumes "length t = 4"
  shows "crc_tail_check (d @ t) \<longleftrightarrow> le_word t = crc32_calc d"
  using crc32.residue_iff [of t "of_nat CRC_INIT" d] assms
  by (simp add: crc_tail_check_def crc32_calc_def)

subsection \<open>Properties\<close>

text \<open>C1. The table-driven checksums over the tables of \<open>crc.h\<close> compute, for every message,
  what eight shift-and-xor steps per byte with the reflected polynomials 0xA001 (CRC-16) and
  0xEDB88320 (CRC-32) compute from the initial value 0x3AA3: all 512 table entries are right and
  the index arithmetic is.\<close>

theorem crc_tables_compute_polynomial_division:
  "crc16_calc bs = foldl (\<lambda>c b. (crc_round 0xA001 ^^ 8) (c XOR ucast b)) (of_nat CRC_INIT) bs \<and>
   crc32_calc bs = foldl (\<lambda>c b. (crc_round 0xEDB88320 ^^ 8) (c XOR ucast b)) (of_nat CRC_INIT) bs"
  by (simp_all add: crc16_calc_def crc32_calc_def flip: crc16.upd_rounds crc32.upd_rounds)

text \<open>C2. The receiver's checks accept exactly the messages that carry their own checksum in
  little-endian order behind them: \<open>CRCHeadCheck\<close> for a two byte trailer, \<open>CRCTailCheck\<close> for a
  four byte one.\<close>

theorem crc_checks_accept_exactly_own_checksum:
  assumes "length t2 = 2" "length t4 = 4"
  shows "(crc_head_check (d @ t2) \<longleftrightarrow> t2 = le_bytes 2 (crc16_calc d)) \<and>
    (crc_tail_check (d @ t4) \<longleftrightarrow> t4 = le_bytes 4 (crc32_calc d))"
proof -
  have "le_word t2 = crc16_calc d \<longleftrightarrow> t2 = le_bytes 2 (crc16_calc d)"
    using le_bytes_le_word [of t2, where 'a = 16] le_word_le_bytes [of 2 "crc16_calc d"] assms(1) by auto
  then have "crc_head_check (d @ t2) \<longleftrightarrow> t2 = le_bytes 2 (crc16_calc d)"
    by (simp add: crc_head_check_iff [OF assms(1)])
  moreover have "le_word t4 = crc32_calc d \<longleftrightarrow> t4 = le_bytes 4 (crc32_calc d)"
    using le_bytes_le_word [of t4, where 'a = 32] le_word_le_bytes [of 4 "crc32_calc d"] assms(2) by auto
  ultimately show ?thesis by (simp add: crc_tail_check_iff [OF assms(2)])
qed

theorem crc_checks_accept_exactly_own_checksum_witness:
  "\<not> (crc_head_check ([0xAA, 1, 2] @ [7, 7]) \<longleftrightarrow> [7, 7] \<noteq> le_bytes 2 (crc16_calc [0xAA, 1, 2]))"
  using crc_checks_accept_exactly_own_checksum [of "[7, 7]" "[7, 7, 7, 7]" "[0xAA, 1, 2]"] by simp

text \<open>C3. An accepted message whose bytes are changed inside any window of two (header) or four
  (whole frame) consecutive bytes is rejected.\<close>

theorem crc_checks_reject_bursts:
  assumes "length xs = length ys" "xs \<noteq> ys"
  shows "(length xs \<le> 2 \<longrightarrow> crc_head_check (pre @ xs @ post) \<longrightarrow> \<not> crc_head_check (pre @ ys @ post)) \<and>
    (length xs \<le> 4 \<longrightarrow> crc_tail_check (pre @ xs @ post) \<longrightarrow> \<not> crc_tail_check (pre @ ys @ post))"
  using crc16.burst_detected [of xs ys "of_nat CRC_INIT" pre post]
    crc32.burst_detected [of xs ys "of_nat CRC_INIT" pre post] assms
  unfolding crc_head_check_def crc_tail_check_def crc16_calc_def crc32_calc_def
  by (auto simp del: foldl_append split: if_splits)

text \<open>The message of the witness is the empty one followed by its checksum, 0x3AA3.\<close>

theorem crc_checks_reject_bursts_witness:
  "crc_head_check ([] @ [0xA3] @ [0x3A]) \<and> \<not> crc_head_check ([] @ [0xA2] @ [0x3A])"
proof -
  have "crc_head_check ([] @ [0xA3] @ [0x3A])"
    using crc_head_check_iff [of "[0xA3, 0x3A]" "[]"] by (simp add: crc16_calc_def CRC_INIT_def)
  then show ?thesis
    using crc_checks_reject_bursts [of "[0xA3]" "[0xA2]" "[]" "[0x3A]"] by simp
qed

end
