(* ===== verification/Packet.thy ===== *)
theory Packet
  imports Crc
begin

text \<open>
  The wire format of the serial protocol and the records exchanged with the dispatch layer:
  the structs and constants of \<open>protocol/protocol.h\<close>. The packed bit fields of \<open>Header\<close> are
  words of their declared width, laid out as the compiler does on the little-endian targets
  (first field in the low bits of each 32-bit unit).
\<close>

subsection \<open>Constants of the class Protocol\<close>

definition BUFFER_SIZE :: nat where "BUFFER_SIZE = 4096"
definition MAX_PACK_SIZE :: nat where "MAX_PACK_SIZE = 4096"
definition SESSION_TABLE_NUM :: nat where "SESSION_TABLE_NUM = 32"
definition HEADER_LEN :: nat where "HEADER_LEN = 12"
definition CRC_HEAD_LEN :: nat where "CRC_HEAD_LEN = 2"
definition CRC_DATA_LEN :: nat where "CRC_DATA_LEN = 4"
definition CMD_SET_PREFIX_LEN :: nat where "CMD_SET_PREFIX_LEN = 2"
definition SOF :: u8 where "SOF = 0xAA"
definition VERSION :: u8 where "VERSION = 0x00"
definition DEVICE :: u8 where "DEVICE = 0x00"
definition RECEIVER_NUM :: nat where "RECEIVER_NUM = 6"

lemmas protocol_consts = BUFFER_SIZE_def MAX_PACK_SIZE_def SESSION_TABLE_NUM_def HEADER_LEN_def
  CRC_HEAD_LEN_def CRC_DATA_LEN_def CMD_SET_PREFIX_LEN_def SOF_def VERSION_def DEVICE_def
  RECEIVER_NUM_def

subsection \<open>Packet header\<close>

record header =
  h_sof :: u8
  h_length :: "10 word"
  h_version :: "6 word"
  h_session_id :: "5 word"
  h_is_ack :: "1 word"
  h_reserved0 :: "2 word"
  h_sender :: u8
  h_receiver :: u8
  h_reserved1 :: u16
  h_seq_num :: u16
  h_crc :: u16

definition header_word0 :: "header \<Rightarrow> u32" where
  "header_word0 h = ucast (h_sof h) OR push_bit 8 (ucast (h_length h)) OR
     push_bit 18 (ucast (h_version h)) OR push_bit 24 (ucast (h_session_id h)) OR
     push_bit 29 (ucast (h_is_ack h)) OR push_bit 30 (ucast (h_reserved0 h))"

definition header_word1 :: "header \<Rightarrow> u32" where
  "header_word1 h = ucast (h_sender h) OR push_bit 8 (ucast (h_receiver h)) OR
     push_bit 16 (ucast (h_reserved1 h))"

definition header_word2 :: "header \<Rightarrow> u32" where
  "header_word2 h = ucast (h_seq_num h) OR push_bit 16 (ucast (h_crc h))"

definition header_bytes :: "header \<Rightarrow> bytes" where
  "header_bytes h =
     le_bytes 4 (header_word0 h) @ le_bytes 4 (header_word1 h) @ le_bytes 4 (header_word2 h)"

text \<open>\<open>(Header *) buf\<close>: the header read from the first twelve bytes.\<close>

definition header_of :: "bytes \<Rightarrow> header" where
  "header_of bs =
     (let w0 = le_word (slice bs 0 4) :: u32; w1 = le_word (slice bs 4 4) :: u32;
          w2 = le_word (slice bs 8 4) :: u32
      in \<lparr>h_sof = ucast w0, h_length = ucast (drop_bit 8 w0), h_version = ucast (drop_bit 18 w0),
          h_session_id = ucast (drop_bit 24 w0), h_is_ack = ucast (drop_bit 29 w0),
          h_reserved0 = ucast (drop_bit 30 w0), h_sender = ucast w1,
          h_receiver = ucast (drop_bit 8 w1), h_reserved1 = ucast (drop_bit 16 w1),
          h_seq_num = ucast w2, h_crc = ucast (drop_bit 16 w2)\<rparr>)"

lemma length_header_bytes [simp]: "length (header_bytes h) = 12"
  by (simp add: header_bytes_def)

lemmas field_bit_simps = bit_or_iff bit_push_bit_iff bit_ucast_iff bit_drop_bit_eq

lemma header_word_fields:
  "ucast (header_word0 h) = h_sof h" "ucast (drop_bit 8 (header_word0 h)) = h_length h"
  "ucast (drop_bit 18 (header_word0 h)) = h_version h"
  "ucast (drop_bit 24 (header_word0 h)) = h_session_id h"
  "ucast (drop_bit 29 (header_word0 h)) = h_is_ack h"
  "ucast (drop_bit 30 (header_word0 h)) = h_reserved0 h"
  "ucast (header_word1 h) = h_sender h" "ucast (drop_bit 8 (header_word1 h)) = h_receiver h"
  "ucast (drop_bit 16 (header_word1 h)) = h_reserved1 h"
  "ucast (header_word2 h) = h_seq_num h" "ucast (drop_bit 16 (header_word2 h)) = h_crc h"
  by (rule bit_word_eqI;
      auto simp: header_word0_def header_word1_def header_word2_def field_bit_simps
        dest: bit_imp_le_length)+

lemma header_of_append [simp]: "12 \<le> length bs \<Longrightarrow> header_of (bs @ cs) = header_of bs"
  by (simp add: header_of_def slice_def)

lemma header_of_take: "12 \<le> n \<Longrightarrow> header_of (take n bs) = header_of bs"
  by (simp add: header_of_def slice_def drop_take min_def)

lemma header_bytes_slices:
  "slice (header_bytes h) 0 4 = le_bytes 4 (header_word0 h)"
  "slice (header_bytes h) 4 4 = le_bytes 4 (header_word1 h)"
  "slice (header_bytes h) 8 4 = le_bytes 4 (header_word2 h)"
  by (simp_all add: header_bytes_def slice_def)

lemma le_word_le_bytes4: "le_word (le_bytes 4 w) = (w :: u32)"
  by (rule le_word_le_bytes) simp

lemma header_of_bytes: "header_of (header_bytes h) = h"
  by (simp only: header_of_def header_bytes_slices le_word_le_bytes4 Let_def header_word_fields)
    simp

lemma header_words_of:
  fixes w0 w1 w2 :: u32
  defines "h \<equiv> \<lparr>h_sof = ucast w0, h_length = ucast (drop_bit 8 w0), h_version = ucast (drop_bit 18 w0),
          h_session_id = ucast (drop_bit 24 w0), h_is_ack = ucast (drop_bit 29 w0),
          h_reserved0 = ucast (drop_bit 30 w0), h_sender = ucast w1,
          h_receiver = ucast (drop_bit 8 w1), h_reserved1 = ucast (drop_bit 16 w1),
          h_seq_num = ucast w2, h_crc = ucast (drop_bit 16 w2)\<rparr>"
  shows "header_word0 h = w0" "header_word1 h = w1" "header_word2 h = w2"
proof -
  have split: "bit w n \<longleftrightarrow> n < 32 \<and> bit w n" for w :: u32 and n
    by (auto dest: bit_imp_le_length)
  show "header_word0 h = w0"
  proof (rule bit_word_eqI)
    fix n
    assume "n < LENGTH(32)"
    then consider "n < 8" | "8 \<le> n" "n < 18" | "18 \<le> n" "n < 24" | "24 \<le> n" "n < 29" | "n = 29"
      | "30 \<le> n" "n < 32" by fastforce
    then show "bit (header_word0 h) n = bit w0 n"
      by cases (auto simp: h_def header_word0_def field_bit_simps)
  qed
  show "header_word1 h = w1"
  proof (rule bit_word_eqI)
    fix n
    assume "n < LENGTH(32)"
    then consider "n < 8" | "8 \<le> n" "n < 16" | "16 \<le> n" "n < 32" by fastforce
    then show "bit (header_word1 h) n = bit w1 n"
      by cases (auto simp: h_def header_word1_def field_bit_simps)
  qed
  show "header_word2 h = w2"
  proof (rule bit_word_eqI)
    fix n
    assume "n < LENGTH(32)"
    then consider "n < 16" | "16 \<le> n" "n < 32" by fastforce
    then show "bit (header_word2 h) n = bit w2 n"
      by cases (auto simp: h_def header_word2_def field_bit_simps)
  qed
qed

lemma header_bytes_of:
  assumes "length bs = 12"
  shows "header_bytes (header_of bs) = bs"
proof -
  have le: "le_bytes 4 (le_word (slice bs off 4) :: u32) = slice bs off 4" if "off + 4 \<le> 12" for off
    using le_bytes_le_word [of "slice bs off 4", where 'a = 32] that assms by simp
  have "slice bs 0 4 @ slice bs 4 4 @ slice bs 8 4 = slice bs 0 12"
    using slice_append [of bs 0 4 8] slice_append [of bs 4 4 4] by simp
  moreover have "slice bs 0 12 = bs" using assms by (simp add: slice_def)
  ultimately show ?thesis
    by (simp only: header_bytes_def header_of_def Let_def header_words_of le [of 0] le [of 4] le [of 8])
qed

subsection \<open>Records of the dispatch interface\<close>

record command_info =
  ci_cmd_set :: u8
  ci_cmd_id :: u8
  ci_need_ack :: bool
  ci_sender :: u8
  ci_receiver :: u8
  ci_length :: u16

record message_header =
  mh_seq_num :: u16
  mh_session_id :: u8
  mh_is_ack :: bool

text \<open>\<open>MessageData\<close> is a union over \<open>raw_data[1024]\<close>.\<close>

definition MESSAGE_DATA_SIZE :: nat where "MESSAGE_DATA_SIZE = 1024"

record recv_container =
  rc_command_info :: command_info
  rc_message_header :: message_header
  rc_raw_data :: bytes

subsection \<open>Sessions\<close>

datatype ack_session_status = ACK_SESSION_IDLE | ACK_SESSION_PROCESS | ACK_SESSION_USING

datatype cmd_session_mode = CMD_SESSION_0 | CMD_SESSION_1 | CMD_SESSION_AUTO

fun cmd_session_mode_value :: "cmd_session_mode \<Rightarrow> nat" where
  "cmd_session_mode_value CMD_SESSION_0 = 0"
| "cmd_session_mode_value CMD_SESSION_1 = 1"
| "cmd_session_mode_value CMD_SESSION_AUTO = 32"

text \<open>Block pointers are indices into the memory pool's table; \<open>nullptr\<close> is \<open>None\<close>. Time stamps are
  nanoseconds of the steady clock, timeouts milliseconds.\<close>

record cmd_session =
  cs_session_id :: u8
  cs_usage_flag :: bool
  cs_memory_block :: "nat option"
  cs_cmd_set :: u8
  cs_cmd_id :: u8
  cs_sent :: u16
  cs_retry_time :: u16
  cs_ack_timeout :: int
  cs_pre_time_stamp :: int
  cs_pre_seq_num :: u32

record ack_session =
  as_session_id :: u8
  as_session_status :: ack_session_status
  as_memory_block :: "nat option"

record recv_stream =
  rs_reuse_index :: nat
  rs_reuse_count :: nat
  rs_recv_index :: nat
  rs_recv_buff :: bytes

subsection \<open>Properties\<close>

text \<open>C4. The bit-field layout of the twelve header bytes is a bijection: reading back a written
  header gives the header, and every twelve bytes are the image of the header they are read as, so
  no field overlaps another and no bit is lost.\<close>

theorem header_layout_bijective:
  "length (header_bytes h) = HEADER_LEN \<and> header_of (header_bytes h) = h \<and>
   (length bs = HEADER_LEN \<longrightarrow> header_bytes (header_of bs) = bs)"
  using header_of_bytes header_bytes_of by (simp_all add: protocol_consts)

theorem header_layout_bijective_witness:
  "header_bytes (header_of [0xAA, 0x10, 0, 5, 0, 1, 0, 0, 9, 0, 0x12, 0x34])
    = [0xAA, 0x10, 0, 5, 0, 1, 0, 0, 9, 0, 0x12, 0x34]"
  using header_layout_bijective [of _ "[0xAA, 0x10, 0, 5, 0, 1, 0, 0, 9, 0, 0x12, 0x34]"]
  by (simp add: protocol_consts)

end
