(* ===== verification/CircularBuffer.thy ===== *)
theory CircularBuffer
  imports Prelude
begin

text \<open>
  The ring buffer of \<open>utilities/circular_buffer.h\<close>, which keeps the received messages of one
  command, and the queue interface its user relies on: a bounded first-in first-out queue
  that drops its oldest element when it is full.
\<close>

record 'a ring =
  buf :: "'a list"
  head :: nat
  tail :: nat
  max_size :: nat
  full :: bool

text \<open>The constructor: \<open>raw\<close> is the (uninitialised) array of the given size.\<close>

definition ring_new :: "'a list \<Rightarrow> 'a ring" where
  "ring_new raw = \<lparr>buf = raw, head = 0, tail = 0, max_size = length raw, full = False\<rparr>"

definition ring_is_empty :: "'a ring \<Rightarrow> bool" where
  "ring_is_empty r \<longleftrightarrow> \<not> full r \<and> head r = tail r"

definition ring_is_full :: "'a ring \<Rightarrow> bool" where
  "ring_is_full r \<longleftrightarrow> full r"

definition ring_capacity :: "'a ring \<Rightarrow> nat" where
  "ring_capacity r = max_size r"

definition ring_size :: "'a ring \<Rightarrow> nat" where
  "ring_size r =
     (if \<not> full r then
        if head r \<ge> tail r then head r - tail r else max_size r + head r - tail r
      else max_size r)"

text \<open>\<open>% max_size_\<close> with \<open>max_size_ = 0\<close> is undefined, as is the store to \<open>buf_[head_]\<close> then.\<close>

definition ring_push :: "'a \<Rightarrow> 'a ring \<Rightarrow> 'a ring option" where
  "ring_push item r = do {
     b \<leftarrow> set_opt (buf r) (head r) item;
     if max_size r = 0 then None else do {
       let tl' = (if full r then (tail r + 1) mod max_size r else tail r);
       let hd' = (head r + 1) mod max_size r;
       Some (r\<lparr>buf := b, tail := tl', head := hd', full := (hd' = tl')\<rparr>)
     }
   }"

definition ring_pop :: "'a ring \<Rightarrow> ('a option \<times> 'a ring) option" where
  "ring_pop r =
     (if ring_is_empty r then Some (None, r)
      else do {
        item \<leftarrow> at_opt (buf r) (tail r);
        if max_size r = 0 then None
        else Some (Some item, r\<lparr>full := False, tail := (tail r + 1) mod max_size r\<rparr>)
      })"

definition ring_reset :: "'a ring \<Rightarrow> 'a ring" where
  "ring_reset r = r\<lparr>head := tail r, full := False\<rparr>"

subsection \<open>Invariant and abstraction\<close>

definition ring_inv :: "'a ring \<Rightarrow> bool" where
  "ring_inv r \<longleftrightarrow> length (buf r) = max_size r \<and> head r < max_size r \<and> tail r < max_size r
     \<and> (full r \<longrightarrow> head r = tail r)"

definition ring_list :: "'a ring \<Rightarrow> 'a list" where
  "ring_list r = map (\<lambda>i. buf r ! ((tail r + i) mod max_size r)) [0..<ring_size r]"

lemma length_ring_list [simp]: "length (ring_list r) = ring_size r"
  by (simp add: ring_list_def)

lemma ring_size_le: "ring_inv r \<Longrightarrow> ring_size r \<le> max_size r"
  by (auto simp: ring_inv_def ring_size_def)

lemma ring_size_eq_max: "ring_inv r \<Longrightarrow> ring_size r = max_size r \<longleftrightarrow> full r"
  by (auto simp: ring_inv_def ring_size_def)

lemma ring_list_Nil_iff: "ring_inv r \<Longrightarrow> ring_list r = [] \<longleftrightarrow> ring_is_empty r"
  by (auto simp: ring_inv_def ring_size_def ring_is_empty_def ring_list_def split: if_splits)

lemma ring_head_eq: "ring_inv r \<Longrightarrow> head r = (tail r + ring_size r) mod max_size r"
  by (auto simp: ring_inv_def ring_size_def)

lemma Suc_mod_cases: "a < n \<Longrightarrow> Suc a mod n = (if Suc a = n then 0 else Suc a)"
  by auto

lemma add_mod_window: "t < n \<Longrightarrow> i \<le> n \<Longrightarrow> (t + i) mod n = (if t + i < n then t + i else t + i - n)"
  for t :: nat
  by (simp add: le_mod_geq)

lemma mod_window_inj:
  fixes t :: nat
  assumes "t < n" "i < n" "j < n" "(t + i) mod n = (t + j) mod n"
  shows "i = j"
  using assms by (auto simp: add_mod_window split: if_splits)

lemma ring_list_nth: "i < ring_size r \<Longrightarrow> ring_list r ! i = buf r ! ((tail r + i) mod max_size r)"
  by (simp add: ring_list_def)

lemma ring_push_ok:
  assumes inv: "ring_inv r"
  obtains r' where "ring_push x r = Some r'" "ring_inv r'" "max_size r' = max_size r"
    "ring_list r' = (if ring_size r = max_size r then tl (ring_list r) else ring_list r) @ [x]"
proof -
  let ?n = "max_size r"
  let ?b = "(buf r)[head r := x]"
  let ?t = "if full r then (tail r + 1) mod ?n else tail r"
  let ?h = "(head r + 1) mod ?n"
  let ?r = "r\<lparr>buf := ?b, tail := ?t, head := ?h, full := (?h = ?t)\<rparr>"
  let ?old = "if ring_size r = ?n then tl (ring_list r) else ring_list r"
  from inv have n: "0 < ?n" and hb: "head r < length (buf r)" and t: "tail r < ?n"
    and len: "length (buf r) = ?n" by (auto simp: ring_inv_def)
  have push: "ring_push x r = Some ?r" using n hb by (simp add: ring_push_def Let_def)
  have inv': "ring_inv ?r" using inv n by (auto simp: ring_inv_def)
  have full: "full r \<longleftrightarrow> ring_size r = ?n" using ring_size_eq_max [OF inv] by simp
  have size: "ring_size ?r = length ?old + 1"
    using inv by (auto simp: ring_inv_def ring_size_def Suc_mod_cases)
  have "ring_list ?r = ?old @ [x]"
  proof (rule nth_equalityI)
    fix i
    assume "i < length (ring_list ?r)"
    then have i: "i \<le> length ?old" using size by simp
    let ?k = "if full r then Suc i else i"
    have k: "?k \<le> ring_size r" using i full n by auto
    have k_n: "?k \<le> ?n" using k ring_size_le [OF inv] by (rule order_trans)
    have pos: "(?t + i) mod ?n = (tail r + ?k) mod ?n" by (simp add: mod_add_left_eq)
    have at: "ring_list ?r ! i = ?b ! ((tail r + ?k) mod ?n)"
      using i size pos by (subst ring_list_nth) simp_all
    show "ring_list ?r ! i = (?old @ [x]) ! i"
    proof (cases "i = length ?old")
      case True
      then have "?k = ring_size r" using full n by auto
      then have "(tail r + ?k) mod ?n = head r" using ring_head_eq [OF inv] by simp
      then show ?thesis using True hb at by (simp add: nth_append)
    next
      case False
      then have k': "?k < ring_size r" using i full n by auto
      have "(tail r + ?k) mod ?n \<noteq> head r"
      proof
        assume eq: "(tail r + ?k) mod ?n = head r"
        show False
        proof (cases "full r")
          case True
          then have "head r = (tail r + 0) mod ?n" using inv by (simp add: ring_inv_def)
          then show False using eq True k' full mod_window_inj [OF t, of "Suc i" 0] n by simp
        next
          case not_full: False
          then have "ring_size r < ?n" using full ring_size_le [OF inv] by simp
          then show False using eq not_full k' mod_window_inj [OF t, of i "ring_size r"] ring_head_eq [OF inv] by simp
        qed
      qed
      then have "ring_list ?r ! i = ring_list r ! ?k" using at k' by (simp add: ring_list_nth)
      also have "\<dots> = ?old ! i" using k' full i False by (auto simp: nth_tl)
      finally show ?thesis using i False by (simp add: nth_append)
    qed
  qed (use size in simp)
  then show ?thesis using that [of ?r] push inv' by simp
qed

lemma ring_pop_ok:
  assumes inv: "ring_inv r"
  obtains (empty) "ring_list r = []" "ring_pop r = Some (None, r)"
  | (item) x r' where "ring_list r = x # ring_list r'" "ring_pop r = Some (Some x, r')" "ring_inv r'"
      "max_size r' = max_size r"
proof (cases "ring_is_empty r")
  case True
  then show ?thesis using empty ring_list_Nil_iff [OF inv] by (simp add: ring_pop_def)
next
  case False
  let ?n = "max_size r"
  let ?r = "r\<lparr>full := False, tail := (tail r + 1) mod ?n\<rparr>"
  from inv have n: "0 < ?n" and t: "tail r < ?n" "tail r < length (buf r)" by (auto simp: ring_inv_def)
  have pop: "ring_pop r = Some (Some (buf r ! tail r), ?r)"
    using False n t by (simp add: ring_pop_def)
  have inv': "ring_inv ?r" using inv n by (auto simp: ring_inv_def)
  have size: "ring_size r = Suc (ring_size ?r)"
    using inv False by (auto simp: ring_inv_def ring_size_def ring_is_empty_def Suc_mod_cases)
  have "ring_list r = (buf r ! tail r) # ring_list ?r"
  proof (rule nth_equalityI)
    fix i
    assume "i < length (ring_list r)"
    then show "ring_list r ! i = ((buf r ! tail r) # ring_list ?r) ! i"
      using size t by (cases i) (simp_all add: ring_list_nth mod_add_left_eq)
  qed (use size in simp)
  then show ?thesis using item pop inv' by simp
qed

lemma ring_new_inv: "raw \<noteq> [] \<Longrightarrow> ring_inv (ring_new raw)"
  by (simp add: ring_inv_def ring_new_def)

lemma ring_new_list: "ring_list (ring_new raw) = []"
  by (simp add: ring_list_def ring_new_def ring_size_def)

lemma ring_reset_list: "ring_list (ring_reset r) = []"
  by (simp add: ring_list_def ring_reset_def ring_size_def)

lemma ring_reset_inv: "ring_inv r \<Longrightarrow> ring_inv (ring_reset r)"
  by (simp add: ring_inv_def ring_reset_def)

subsection \<open>The queue interface\<close>

text \<open>
  What the protocol layer relies on of its message buffers: \<open>push\<close> and \<open>pop\<close> never fault and
  act on the abstract contents as a bounded queue that forgets its oldest element.
\<close>

locale bounded_queue =
  fixes push :: "'a \<Rightarrow> 'q \<Rightarrow> 'q option"
    and pop :: "'q \<Rightarrow> ('a option \<times> 'q) option"
    and contents :: "'q \<Rightarrow> 'a list"
    and cap :: "'q \<Rightarrow> nat"
    and inv :: "'q \<Rightarrow> bool"
  assumes cap_pos: "inv q \<Longrightarrow> 0 < cap q"
    and contents_le: "inv q \<Longrightarrow> length (contents q) \<le> cap q"
    and push_spec: "inv q \<Longrightarrow> \<exists>q'. push x q = Some q' \<and> inv q' \<and> cap q' = cap q \<and>
          contents q' = (if length (contents q) = cap q then tl (contents q) else contents q) @ [x]"
    and pop_empty: "inv q \<Longrightarrow> contents q = [] \<Longrightarrow> pop q = Some (None, q)"
    and pop_item: "inv q \<Longrightarrow> contents q = x # xs \<Longrightarrow>
          \<exists>q'. pop q = Some (Some x, q') \<and> inv q' \<and> cap q' = cap q \<and> contents q' = xs"
begin

primrec push_all :: "'a list \<Rightarrow> 'q \<Rightarrow> 'q option" where
  "push_all [] q = Some q"
| "push_all (x # xs) q = do { q' \<leftarrow> push x q; push_all xs q' }"

lemma push_all_spec:
  "inv q \<Longrightarrow> \<exists>q'. push_all xs q = Some q' \<and> inv q' \<and> cap q' = cap q \<and>
    contents q' = drop (length (contents q) + length xs - cap q) (contents q @ xs)"
proof (induction xs arbitrary: q)
  case Nil
  then show ?case using contents_le [OF Nil] by simp
next
  case (Cons x xs)
  from push_spec [OF Cons.prems, of x] obtain q1 where q1: "push x q = Some q1" "inv q1" "cap q1 = cap q"
    "contents q1 = (if length (contents q) = cap q then tl (contents q) else contents q) @ [x]" by blast
  from Cons.IH [OF q1(2)] obtain q2 where q2: "push_all xs q1 = Some q2" "inv q2" "cap q2 = cap q1"
    "contents q2 = drop (length (contents q1) + length xs - cap q1) (contents q1 @ xs)" by blast
  have le: "length (contents q) \<le> cap q" and pos: "0 < cap q"
    using contents_le cap_pos Cons.prems by blast+
  have "contents q2 = drop (length (contents q) + length (x # xs) - cap q) (contents q @ x # xs)"
  proof (cases "length (contents q) = cap q")
    case True
    with pos obtain y ys where old: "contents q = y # ys" by (cases "contents q") auto
    with True have "cap q = Suc (length ys)" by simp
    then show ?thesis using q1(3,4) q2(4) old by simp
  next
    case False
    then show ?thesis using q1(3,4) q2(4) le by simp
  qed
  then show ?case using q1 q2 by simp
qed

text \<open>Taking the front element and putting it back rotates the queue and loses nothing.\<close>

lemma pop_push_rotates:
  assumes "inv q" "contents q = x # xs"
  shows "\<exists>q1 q2. pop q = Some (Some x, q1) \<and> push x q1 = Some q2 \<and> inv q2 \<and> cap q2 = cap q \<and>
    contents q2 = xs @ [x]"
proof -
  from pop_item [OF assms] obtain q1 where q1: "pop q = Some (Some x, q1)" "inv q1" "cap q1 = cap q"
    "contents q1 = xs" by blast
  moreover have "length xs < cap q" using contents_le [OF assms(1)] assms(2) by simp
  ultimately show ?thesis using push_spec [OF q1(2), of x] by auto
qed

end

interpretation ring: bounded_queue ring_push ring_pop ring_list ring_capacity ring_inv
proof
  fix q :: "'a ring" and x xs
  assume inv: "ring_inv q"
  then show "0 < ring_capacity q" by (auto simp: ring_inv_def ring_capacity_def)
  show "length (ring_list q) \<le> ring_capacity q"
    using ring_size_le [OF inv] by (simp add: ring_capacity_def)
  show "\<exists>q'. ring_push x q = Some q' \<and> ring_inv q' \<and> ring_capacity q' = ring_capacity q \<and> ring_list q' =
      (if length (ring_list q) = ring_capacity q then tl (ring_list q) else ring_list q) @ [x]"
    using ring_push_ok [OF inv, of x] by (metis length_ring_list ring_capacity_def)
  show "ring_pop q = Some (None, q)" if "ring_list q = []"
    using ring_pop_ok [OF inv] that by fastforce
  show "\<exists>q'. ring_pop q = Some (Some x, q') \<and> ring_inv q' \<and> ring_capacity q' = ring_capacity q \<and> ring_list q' = xs"
    if "ring_list q = x # xs"
    using ring_pop_ok [OF inv] that by (metis list.discI list.inject ring_capacity_def)
qed

subsection \<open>Properties\<close>

text \<open>C5. Over any ring in a valid state, \<open>push\<close> and \<open>pop\<close> refine a bounded queue: \<open>push\<close>
  appends, dropping the oldest element exactly when the queue is full; \<open>pop\<close> removes and returns
  the oldest element, or reports emptiness. Neither faults, and both keep the invariant and the
  capacity.\<close>

theorem ring_refines_bounded_queue:
  assumes "ring_inv r"
  shows "(\<exists>r'. ring_push x r = Some r' \<and> ring_inv r' \<and> ring_capacity r' = ring_capacity r \<and>
      ring_list r' = (if length (ring_list r) = ring_capacity r then tl (ring_list r) else ring_list r) @ [x]) \<and>
    (ring_list r = [] \<longrightarrow> ring_pop r = Some (None, r)) \<and>
    (ring_list r = y # ys \<longrightarrow> (\<exists>r'. ring_pop r = Some (Some y, r') \<and> ring_inv r' \<and>
      ring_capacity r' = ring_capacity r \<and> ring_list r' = ys))"
  using ring.push_spec [OF assms] ring.pop_empty [OF assms] ring.pop_item [OF assms] by blast

theorem ring_refines_bounded_queue_witness:
  "\<exists>r'. ring_push 7 \<lparr>buf = [1, 2, 3], head = 2, tail = 2, max_size = 3, full = True\<rparr> = Some r' \<and>
    ring_list r' = [1, 2, 7 :: nat]"
proof -
  let ?r = "\<lparr>buf = [1, 2, 3 :: nat], head = 2, tail = 2, max_size = 3, full = True\<rparr>"
  have "ring_inv ?r" "ring_list ?r = [3, 1, 2]" "ring_capacity ?r = 3" by code_simp+
  then show ?thesis using ring_refines_bounded_queue [of ?r 7 0 "[]"] by auto
qed

end
