(* ===== verification/MemoryPool.thy ===== *)
theory MemoryPool
  imports Prelude "HOL-Library.Multiset"
begin

text \<open>
  The memory pool of \<open>utilities/memory_pool.h\<close>: a fixed table of block descriptors over one
  byte array, best-fit allocation, and compaction when no single gap is large enough. Block
  pointers are positions in the table, memory pointers are offsets into the byte array.
\<close>

subsection \<open>State and operations\<close>

record memory_block =
  mb_usage :: bool
  mb_index :: nat
  mb_size :: nat
  mb_ptr :: nat

record pool =
  pl_table_num :: nat
  pl_memory_size :: nat
  pl_max_block_size :: nat
  pl_table :: "memory_block list"
  pl_memory :: bytes

text \<open>\<open>Init\<close>: \<open>raw\<close> and \<open>mem\<close> are the uninitialised table and memory that \<open>new\<close> returns; an
  unused entry keeps the pointer and size that happen to be there.\<close>

definition pool_init :: "memory_block list \<Rightarrow> bytes \<Rightarrow> nat \<Rightarrow> nat \<Rightarrow> nat \<Rightarrow> pool" where
  "pool_init raw mem max_block msize num =
     \<lparr>pl_table_num = num, pl_memory_size = msize, pl_max_block_size = max_block,
      pl_table = map (\<lambda>i.
        if i = num - 1 then \<lparr>mb_usage = True, mb_index = num - 1, mb_size = 0, mb_ptr = msize\<rparr>
        else if i = 0 then \<lparr>mb_usage = True, mb_index = 0, mb_size = 0, mb_ptr = 0\<rparr>
        else (raw ! i)\<lparr>mb_index := i, mb_usage := False\<rparr>) [0..<num],
      pl_memory = mem\<rparr>"

definition free_memory :: "nat option \<Rightarrow> pool \<Rightarrow> pool option" where
  "free_memory block p =
     (case block of
        None \<Rightarrow> Some p
      | Some b \<Rightarrow> do {
          m \<leftarrow> at_opt (pl_table p) b;
          if mb_index m = 0 \<or> mb_index m = pl_table_num p - 1 then Some p
          else Some (p\<lparr>pl_table := (pl_table p)[b := m\<lparr>mb_usage := False\<rparr>]\<rparr>)
        })"

definition used_size :: "memory_block list \<Rightarrow> nat" where
  "used_size tbl = sum_list (map mb_size (filter mb_usage tbl))"

definition used_index :: "memory_block list \<Rightarrow> nat list" where
  "used_index tbl = map mb_index (filter mb_usage tbl)"

text \<open>The exchange of two neighbours by three \<open>^=\<close> assignments.\<close>

definition bubble_swap :: "memory_block list \<Rightarrow> nat list \<Rightarrow> nat \<Rightarrow> nat list" where
  "bubble_swap tbl us j =
     (if mb_ptr (tbl ! (us ! j)) > mb_ptr (tbl ! (us ! (j + 1))) then
        let us1 = us[j + 1 := us ! (j + 1) XOR us ! j];
            us2 = us1[j := us1 ! j XOR us1 ! (j + 1)]
        in us2[j + 1 := us2 ! (j + 1) XOR us2 ! j]
      else us)"

definition bubble_pass :: "memory_block list \<Rightarrow> nat \<Rightarrow> nat list \<Rightarrow> nat list" where
  "bubble_pass tbl m us = foldl (bubble_swap tbl) us [0..<m]"

definition bubble_sort :: "memory_block list \<Rightarrow> nat list \<Rightarrow> nat list" where
  "bubble_sort tbl us =
     foldl (\<lambda>xs i. bubble_pass tbl (length us - i - 1) xs) us [0..<length us - 1]"

text \<open>The free bytes behind the \<open>i\<close>-th used block in address order (\<open>uint32_t\<close> arithmetic).\<close>

definition left_size :: "memory_block list \<Rightarrow> nat list \<Rightarrow> nat \<Rightarrow> nat" where
  "left_size tbl us i =
     sub32 (sub32 (mb_ptr (tbl ! (us ! (i + 1)))) (mb_ptr (tbl ! (us ! i)))) (mb_size (tbl ! (us ! i)))"

record scan =
  sc_area0 :: nat
  sc_area1 :: nat
  sc_accumulated :: nat
  sc_j :: nat
  sc_found :: bool

definition scan_step :: "memory_block list \<Rightarrow> nat list \<Rightarrow> nat \<Rightarrow> scan \<Rightarrow> nat \<Rightarrow> scan" where
  "scan_step tbl us sz s i =
     (let left = left_size tbl us i;
          s1 = (if left \<ge> sz \<and> sc_area1 s > left
                then s\<lparr>sc_area0 := mb_index (tbl ! (us ! i)), sc_area1 := left\<rparr> else s);
          s2 = s1\<lparr>sc_accumulated := (sc_accumulated s1 + left) mod 2 ^ 32\<rparr>
      in if sc_accumulated s2 \<ge> sz \<and> \<not> sc_found s2 then s2\<lparr>sc_j := i, sc_found := True\<rparr> else s2)"

definition NO_AREA :: nat where "NO_AREA = 0xFFFFFFFF"

definition scan_blocks :: "memory_block list \<Rightarrow> nat list \<Rightarrow> nat \<Rightarrow> scan" where
  "scan_blocks tbl us sz =
     foldl (scan_step tbl us sz)
       \<lparr>sc_area0 = NO_AREA, sc_area1 = NO_AREA, sc_accumulated = 0,
        sc_j = (if length us \<ge> 2 then 1 else 0), sc_found = False\<rparr>
       [0..<length us - 1]"

text \<open>One step of the compaction: \<open>memmove\<close> the next block down to the end of this one.\<close>

definition compress_step :: "nat list \<Rightarrow> nat \<Rightarrow> pool \<Rightarrow> pool option" where
  "compress_step us i p =
     (let a = pl_table p ! (us ! i); b = pl_table p ! (us ! (i + 1));
          dst = mb_ptr a + mb_size a
      in if mb_ptr b > dst then do {
           bs \<leftarrow> mem_read (pl_memory p) (mb_ptr b) (mb_size b);
           m \<leftarrow> mem_write (pl_memory p) dst bs;
           Some (p\<lparr>pl_memory := m, pl_table := (pl_table p)[us ! (i + 1) := b\<lparr>mb_ptr := dst\<rparr>]\<rparr>)
         } else Some p)"

primrec compress :: "nat list \<Rightarrow> nat \<Rightarrow> pool \<Rightarrow> pool option" where
  "compress us 0 p = Some p"
| "compress us (Suc i) p = do { p' \<leftarrow> compress us i p; compress_step us i p' }"

definition free_slot :: "pool \<Rightarrow> nat option" where
  "free_slot p = find (\<lambda>i. \<not> mb_usage (pl_table p ! i)) [1..<pl_table_num p - 1]"

definition place_after :: "nat \<Rightarrow> nat \<Rightarrow> pool \<Rightarrow> nat option \<times> pool" where
  "place_after area sz p =
     (case free_slot p of
        None \<Rightarrow> (None, p)
      | Some i \<Rightarrow>
          (Some i, p\<lparr>pl_table := (pl_table p)[i := (pl_table p ! i)
             \<lparr>mb_ptr := mb_ptr (pl_table p ! area) + mb_size (pl_table p ! area),
              mb_size := sz, mb_usage := True\<rparr>]\<rparr>))"

text \<open>The table counters of the code are \<open>uint8_t\<close>: its loops end only for tables of at most
  255 entries.\<close>

definition alloc_memory :: "nat \<Rightarrow> pool \<Rightarrow> (nat option \<times> pool) option" where
  "alloc_memory sz p =
     (if sz > pl_max_block_size p \<or> sz > pl_memory_size p then Some (None, p)
      else if pl_table_num p > 255 then None
      else if pl_memory_size p < used_size (pl_table p) + sz then Some (None, p)
      else if used_size (pl_table p) = 0 then
        Some (Some 1, p\<lparr>pl_table := (pl_table p)[1 := (pl_table p ! 1)
          \<lparr>mb_ptr := mb_ptr (pl_table p ! 0), mb_size := sz, mb_usage := True\<rparr>]\<rparr>)
      else
        let us = bubble_sort (pl_table p) (used_index (pl_table p));
            s = scan_blocks (pl_table p) us sz
        in if sc_area0 s = NO_AREA \<and> sc_area1 s = NO_AREA then do {
             p' \<leftarrow> compress us (sc_j s) p;
             Some (place_after (us ! sc_j s) sz p')
           }
           else Some (place_after (sc_area0 s) sz p))"

subsection \<open>Invariant\<close>

definition pool_live :: "pool \<Rightarrow> nat \<Rightarrow> bool" where
  "pool_live p i \<longleftrightarrow> 0 < i \<and> i < pl_table_num p - 1 \<and> mb_usage (pl_table p ! i)"

definition block_bytes :: "pool \<Rightarrow> nat \<Rightarrow> bytes" where
  "block_bytes p i = slice (pl_memory p) (mb_ptr (pl_table p ! i)) (mb_size (pl_table p ! i))"

definition blocks_apart :: "memory_block \<Rightarrow> memory_block \<Rightarrow> bool" where
  "blocks_apart a b \<longleftrightarrow> mb_ptr a + mb_size a \<le> mb_ptr b \<or> mb_ptr b + mb_size b \<le> mb_ptr a"

definition pool_frame :: "pool \<Rightarrow> bool" where
  "pool_frame p \<longleftrightarrow> 3 \<le> pl_table_num p \<and> pl_table_num p \<le> 255 \<and> pl_memory_size p < 2 ^ 16 \<and>
     length (pl_table p) = pl_table_num p \<and> length (pl_memory p) = pl_memory_size p \<and>
     (\<forall>i < pl_table_num p. mb_index (pl_table p ! i) = i) \<and>
     mb_usage (pl_table p ! 0) \<and> mb_ptr (pl_table p ! 0) = 0 \<and> mb_size (pl_table p ! 0) = 0 \<and>
     mb_usage (pl_table p ! (pl_table_num p - 1)) \<and>
     mb_ptr (pl_table p ! (pl_table_num p - 1)) = pl_memory_size p \<and>
     mb_size (pl_table p ! (pl_table_num p - 1)) = 0"

definition pool_inv :: "pool \<Rightarrow> bool" where
  "pool_inv p \<longleftrightarrow> pool_frame p \<and>
     (\<forall>i. pool_live p i \<longrightarrow> 0 < mb_size (pl_table p ! i) \<and>
        mb_ptr (pl_table p ! i) + mb_size (pl_table p ! i) \<le> pl_memory_size p) \<and>
     (\<forall>i j. pool_live p i \<longrightarrow> pool_live p j \<longrightarrow> i \<noteq> j \<longrightarrow>
        blocks_apart (pl_table p ! i) (pl_table p ! j))"

subsection \<open>Sorting the used blocks by address\<close>

lemma xor_cancel_left: "a XOR (a XOR b) = (b :: nat)"
  by (simp flip: xor.assoc)

lemma xor_cancel_right: "a XOR (b XOR a) = (b :: nat)"
  by (simp add: xor.commute [of b] xor_cancel_left)

lemma bubble_swap_eq:
  assumes "Suc j < length us"
  shows "bubble_swap tbl us j =
    (if mb_ptr (tbl ! (us ! j)) > mb_ptr (tbl ! (us ! Suc j))
     then us[j := us ! Suc j, Suc j := us ! j] else us)"
  using assms
  by (auto simp: bubble_swap_def Let_def nth_list_update xor.assoc xor_cancel_left xor_cancel_right
      intro!: nth_equalityI)

lemma length_bubble_swap [simp]: "length (bubble_swap tbl us j) = length us"
  by (simp add: bubble_swap_def Let_def)

lemma mset_bubble_swap: "Suc j < length us \<Longrightarrow> mset (bubble_swap tbl us j) = mset us"
  by (simp add: bubble_swap_eq mset_swap)

lemma nth_bubble_swap_other: "Suc j < length us \<Longrightarrow> i > Suc j \<Longrightarrow> bubble_swap tbl us j ! i = us ! i"
  by (simp add: bubble_swap_eq)

lemma bubble_pass_Suc: "bubble_pass tbl (Suc m) us = bubble_swap tbl (bubble_pass tbl m us) m"
  by (simp add: bubble_pass_def)

lemma bubble_pass_0 [simp]: "bubble_pass tbl 0 us = us"
  by (simp add: bubble_pass_def)

lemma length_bubble_pass [simp]: "length (bubble_pass tbl m us) = length us"
  by (induction m) (simp_all add: bubble_pass_Suc)

lemma bubble_pass_spec:
  assumes "m < length us"
  shows "mset (bubble_pass tbl m us) = mset us"
    and "\<And>i. m < i \<Longrightarrow> bubble_pass tbl m us ! i = us ! i"
    and "\<And>i. i \<le> m \<Longrightarrow> mb_ptr (tbl ! (bubble_pass tbl m us ! i)) \<le> mb_ptr (tbl ! (bubble_pass tbl m us ! m))"
  using assms
proof (induction m)
  case (Suc m)
  case 1
  then show ?case using Suc by (simp add: bubble_pass_Suc mset_bubble_swap)
next
  case (Suc m)
  case (2 i)
  then show ?case using Suc by (simp add: bubble_pass_Suc nth_bubble_swap_other)
next
  case (Suc m)
  case (3 i)
  let ?xs = "bubble_pass tbl m us"
  have max: "i \<le> m \<Longrightarrow> mb_ptr (tbl ! (?xs ! i)) \<le> mb_ptr (tbl ! (?xs ! m))" for i
    using Suc 3 by simp
  show ?case
    using 3 max [of i] max [of m]
    by (cases "i = Suc m") (auto simp: bubble_pass_Suc bubble_swap_eq nth_list_update)
qed auto

definition sorted_from :: "memory_block list \<Rightarrow> nat list \<Rightarrow> nat \<Rightarrow> bool" where
  "sorted_from tbl us k \<longleftrightarrow>
     (\<forall>a b. a < b \<longrightarrow> k \<le> b \<longrightarrow> b < length us \<longrightarrow> mb_ptr (tbl ! (us ! a)) \<le> mb_ptr (tbl ! (us ! b)))"

lemma set_take_eqI:
  assumes "mset xs = mset ys" "\<And>i. k \<le> i \<Longrightarrow> xs ! i = ys ! i"
  shows "set (take k xs) = set (take k ys)"
proof -
  have len: "length xs = length ys" using assms(1) mset_eq_length by blast
  have "drop k xs = drop k ys"
    using assms(2) len by (intro nth_equalityI) simp_all
  moreover have "mset (take k xs) + mset (drop k xs) = mset (take k ys) + mset (drop k ys)"
    using assms(1) by (simp flip: mset_append)
  ultimately have "mset (take k xs) = mset (take k ys)" by simp
  then show ?thesis by (rule mset_eq_setD)
qed

lemma bubble_pass_sorts:
  assumes sorted: "sorted_from tbl us (Suc m)" and m: "m < length us"
  shows "sorted_from tbl (bubble_pass tbl m us) m"
  unfolding sorted_from_def
proof (intro allI impI)
  fix a b
  assume ab: "a < b" "m \<le> b" "b < length (bubble_pass tbl m us)"
  let ?xs = "bubble_pass tbl m us"
  show "mb_ptr (tbl ! (?xs ! a)) \<le> mb_ptr (tbl ! (?xs ! b))"
  proof (cases "b = m")
    case True
    then show ?thesis using ab bubble_pass_spec(3) [OF m] by simp
  next
    case False
    then have b: "?xs ! b = us ! b" using ab bubble_pass_spec(2) [OF m] by simp
    have "set (take b ?xs) = set (take b us)"
      using bubble_pass_spec(1,2) [OF m, where tbl = tbl] ab False by (intro set_take_eqI) auto
    moreover have "?xs ! a \<in> set (take b ?xs)" using ab by (auto simp: in_set_conv_nth)
    ultimately obtain c where "c < b" "?xs ! a = us ! c"
      using ab by (auto simp: in_set_conv_nth)
    then show ?thesis using b sorted ab False unfolding sorted_from_def by auto
  qed
qed

lemma bubble_sort_spec:
  fixes tbl :: "memory_block list"
  assumes "n \<le> length us - 1"
  defines "ys \<equiv> foldl (\<lambda>xs i. bubble_pass tbl (length us - i - 1) xs) us [0..<n]"
  shows "mset ys = mset us \<and> sorted_from tbl ys (length us - n)"
  using assms(1) unfolding ys_def
proof (induction n)
  case 0
  then show ?case by (simp add: sorted_from_def)
next
  case (Suc n)
  let ?ys = "foldl (\<lambda>xs i. bubble_pass tbl (length us - i - 1) xs) us [0..<n]"
  let ?m = "length us - n - 1"
  from Suc have IH: "mset ?ys = mset us" "sorted_from tbl ?ys (Suc ?m)" by (auto simp: Suc_diff_Suc)
  then have "?m < length ?ys" using Suc.prems mset_eq_length [OF IH(1)] by simp
  then show ?case
    using IH bubble_pass_sorts [of tbl ?ys ?m] bubble_pass_spec(1) [of ?m ?ys tbl] by simp
qed

lemma mset_bubble_sort: "mset (bubble_sort tbl us) = mset us"
  using bubble_sort_spec [of "length us - 1" us tbl] by (simp add: bubble_sort_def)

lemma sorted_bubble_sort:
  "a < b \<Longrightarrow> b < length us \<Longrightarrow>
    mb_ptr (tbl ! (bubble_sort tbl us ! a)) \<le> mb_ptr (tbl ! (bubble_sort tbl us ! b))"
  using bubble_sort_spec [of "length us - 1" us tbl] mset_eq_length [OF mset_bubble_sort [of tbl us]]
  by (auto simp: bubble_sort_def sorted_from_def)

text \<open>The sort is stable where it matters: a first entry at address 0 stays first.\<close>

lemma bubble_pass_keeps_0:
  "m < length us \<Longrightarrow> mb_ptr (tbl ! (us ! 0)) = 0 \<Longrightarrow> bubble_pass tbl m us ! 0 = us ! 0"
proof (induction m)
  case (Suc m)
  then have "us \<noteq> []" by auto
  with Suc show ?case by (cases "m = 0") (auto simp: bubble_pass_Suc bubble_swap_eq nth_list_update)
qed simp

lemma bubble_sort_keeps_0:
  assumes "us \<noteq> []" "mb_ptr (tbl ! (us ! 0)) = 0"
  shows "bubble_sort tbl us ! 0 = us ! 0"
proof -
  have "n \<le> length us - 1 \<Longrightarrow>
      foldl (\<lambda>xs i. bubble_pass tbl (length us - i - 1) xs) us [0..<n] ! 0 = us ! 0" for n
  proof (induction n)
    case (Suc n)
    let ?ys = "foldl (\<lambda>xs i. bubble_pass tbl (length us - i - 1) xs) us [0..<n]"
    have "length ?ys = length us"
      using bubble_sort_spec [of n us tbl] Suc.prems by (auto dest: mset_eq_length)
    then show ?case using Suc assms by (simp add: bubble_pass_keeps_0)
  qed simp
  then show ?thesis by (simp add: bubble_sort_def)
qed

subsection \<open>The used blocks in address order\<close>

definition block_end :: "memory_block list \<Rightarrow> nat \<Rightarrow> nat" where
  "block_end tbl i = mb_ptr (tbl ! i) + mb_size (tbl ! i)"

definition chain :: "memory_block list \<Rightarrow> nat list \<Rightarrow> bool" where
  "chain tbl us \<longleftrightarrow> (\<forall>i. Suc i < length us \<longrightarrow> block_end tbl (us ! i) \<le> mb_ptr (tbl ! (us ! Suc i)))"

definition addr_order :: "pool \<Rightarrow> nat list \<Rightarrow> bool" where
  "addr_order p us \<longleftrightarrow> distinct us \<and> 2 \<le> length us \<and>
     set us = {i. i < pl_table_num p \<and> mb_usage (pl_table p ! i)} \<and>
     us ! 0 = 0 \<and> us ! (length us - 1) = pl_table_num p - 1 \<and> chain (pl_table p) us"

lemma chain_le:
  assumes "chain tbl us" "m < k" "k < length us"
  shows "block_end tbl (us ! m) \<le> mb_ptr (tbl ! (us ! k))"
  using assms(2,3)
proof (induction k)
  case (Suc k)
  have "block_end tbl (us ! m) \<le> block_end tbl (us ! k)"
  proof (cases "m = k")
    case False
    then have "block_end tbl (us ! m) \<le> mb_ptr (tbl ! (us ! k))" using Suc by simp
    then show ?thesis by (simp add: block_end_def)
  qed simp
  also have "\<dots> \<le> mb_ptr (tbl ! (us ! Suc k))" using assms(1) Suc.prems by (simp add: chain_def)
  finally show ?case .
qed simp

lemma used_index_filter:
  assumes "pool_frame p"
  shows "used_index (pl_table p) = filter (\<lambda>i. mb_usage (pl_table p ! i)) [0..<pl_table_num p]"
proof -
  let ?t = "pl_table p" and ?n = "pl_table_num p"
  have len: "length ?t = ?n" and idx: "\<And>i. i < ?n \<Longrightarrow> mb_index (?t ! i) = i"
    using assms by (auto simp: pool_frame_def)
  have "used_index ?t = map mb_index (filter mb_usage (map (nth ?t) [0..<?n]))"
    by (simp add: used_index_def map_nth flip: len)
  also have "\<dots> = map (\<lambda>i. mb_index (?t ! i)) (filter (\<lambda>i. mb_usage (?t ! i)) [0..<?n])"
    by (simp add: filter_map comp_def)
  also have "\<dots> = filter (\<lambda>i. mb_usage (?t ! i)) [0..<?n]"
    by (rule map_idI) (simp add: idx)
  finally show ?thesis .
qed

lemma used_size_filter:
  assumes "pool_frame p"
  shows "used_size (pl_table p) = (\<Sum>i | i < pl_table_num p \<and> mb_usage (pl_table p ! i). mb_size (pl_table p ! i))"
proof -
  let ?t = "pl_table p" and ?n = "pl_table_num p"
  have len: "length ?t = ?n" using assms by (simp add: pool_frame_def)
  have "used_size ?t = sum_list (map mb_size (filter mb_usage (map (nth ?t) [0..<?n])))"
    by (simp add: used_size_def map_nth flip: len)
  also have "\<dots> = sum_list (map (\<lambda>i. mb_size (?t ! i)) (filter (\<lambda>i. mb_usage (?t ! i)) [0..<?n]))"
    by (simp add: filter_map comp_def)
  also have "\<dots> = (\<Sum>i\<in>set (filter (\<lambda>i. mb_usage (?t ! i)) [0..<?n]). mb_size (?t ! i))"
    by (rule sum_list_distinct_conv_sum_set) simp
  finally show ?thesis by (simp add: conj_commute)
qed

lemma pool_invD:
  assumes "pool_inv p" "pool_live p i"
  shows "0 < mb_size (pl_table p ! i)" "block_end (pl_table p) i \<le> pl_memory_size p"
    "mb_ptr (pl_table p ! i) < pl_memory_size p"
  using assms by (fastforce simp: pool_inv_def block_end_def)+

lemma addr_order_bubble_sort:
  assumes inv: "pool_inv p"
  shows "addr_order p (bubble_sort (pl_table p) (used_index (pl_table p)))" (is "addr_order p ?us")
proof -
  let ?t = "pl_table p" and ?n = "pl_table_num p"
  have fr: "pool_frame p" using inv by (simp add: pool_inv_def)
  have n: "3 \<le> ?n" and p0: "mb_ptr (?t ! 0) = 0" "mb_size (?t ! 0) = 0" "mb_usage (?t ! 0)"
    and pn: "mb_ptr (?t ! (?n - 1)) = pl_memory_size p" "mb_usage (?t ! (?n - 1))"
    using fr by (auto simp: pool_frame_def)
  note ui = used_index_filter [OF fr]
  have ms: "mset ?us = mset (used_index ?t)" by (rule mset_bubble_sort)
  have dist: "distinct ?us" using ms ui by (metis distinct_filter distinct_upt mset_eq_imp_distinct_iff)
  have set_us: "set ?us = {i. i < ?n \<and> mb_usage (?t ! i)}"
    using mset_eq_setD [OF ms] ui by auto
  have hd: "used_index ?t \<noteq> []" "used_index ?t ! 0 = 0"
    using ui p0(3) n by (auto simp: upt_rec [of 0])
  have first: "?us ! 0 = 0" using bubble_sort_keeps_0 [of "used_index ?t" ?t] hd p0 by simp
  have sorted: "mb_ptr (?t ! (?us ! a)) \<le> mb_ptr (?t ! (?us ! b))" if "a < b" "b < length ?us" for a b
    using sorted_bubble_sort [of a b "used_index ?t" ?t] that mset_eq_length [OF ms] by simp
  have mem: "?us ! k < ?n \<and> mb_usage (?t ! (?us ! k))" if "k < length ?us" for k
    using nth_mem [OF that] set_us by blast
  have live: "?us ! k = 0 \<or> ?us ! k = ?n - 1 \<or> pool_live p (?us ! k)" if "k < length ?us" for k
    using mem [OF that] by (auto simp: pool_live_def)
  have "card {0, ?n - 1} \<le> card (set ?us)"
    using set_us p0 pn n by (intro card_mono) auto
  then have len: "2 \<le> length ?us" using n distinct_card [OF dist] by simp
  obtain k where k: "k < length ?us" "?us ! k = ?n - 1"
    using set_us pn n by (metis (mono_tags, lifting) in_set_conv_nth mem_Collect_eq diff_less less_numeral_extra(1) order_less_le_trans zero_less_numeral)
  have only0: "?us ! i \<noteq> 0" if "0 < i" "i < length ?us" for i
  proof -
    have "0 < length ?us" using that by linarith
    then show ?thesis using that first nth_eq_iff_index_eq [OF dist, of i 0] by simp
  qed
  have "k = length ?us - 1"
  proof (rule ccontr)
    assume "k \<noteq> length ?us - 1"
    then have k1: "Suc k < length ?us" using k by linarith
    have ne: "?us ! Suc k \<noteq> ?n - 1" using nth_eq_iff_index_eq [OF dist, of "Suc k" k] k k1 by auto
    have "pool_live p (?us ! Suc k)" using live [OF k1] ne only0 [OF _ k1] by auto
    then have "mb_ptr (?t ! (?us ! Suc k)) < pl_memory_size p" using pool_invD [OF inv] by blast
    then show False using sorted [of k "Suc k"] k k1 pn by simp
  qed
  then have last: "?us ! (length ?us - 1) = ?n - 1" using k by simp
  have "chain ?t ?us"
    unfolding chain_def
  proof (intro allI impI)
    fix i
    assume i: "Suc i < length ?us"
    let ?a = "?us ! i" and ?b = "?us ! Suc i"
    have le: "mb_ptr (?t ! ?a) \<le> mb_ptr (?t ! ?b)" using sorted i by simp
    have "?a \<noteq> ?b" using dist i by (simp add: nth_eq_iff_index_eq)
    have a_n: "?a \<noteq> ?n - 1" using last i nth_eq_iff_index_eq [OF dist, of i "length ?us - 1"] by auto
    have b_0: "?b \<noteq> 0" using only0 i by simp
    consider "?a = 0" | "pool_live p ?a" "?b = ?n - 1" | "pool_live p ?a" "pool_live p ?b"
      using live [of i] live [of "Suc i"] i a_n b_0 by auto
    then show "block_end ?t ?a \<le> mb_ptr (?t ! ?b)"
    proof cases
      case 1
      then show ?thesis using p0 le by (simp add: block_end_def)
    next
      case 2
      then show ?thesis using pool_invD [OF inv] pn by simp
    next
      case 3
      then have "blocks_apart (?t ! ?a) (?t ! ?b)" using inv \<open>?a \<noteq> ?b\<close> by (auto simp: pool_inv_def)
      moreover have "0 < mb_size (?t ! ?b)" using pool_invD(1) [OF inv] 3 by blast
      ultimately show ?thesis using le by (auto simp: blocks_apart_def block_end_def)
    qed
  qed
  then show ?thesis using dist len set_us first last by (simp add: addr_order_def)
qed

subsection \<open>The scan for a gap\<close>

definition gap :: "memory_block list \<Rightarrow> nat list \<Rightarrow> nat \<Rightarrow> nat" where
  "gap tbl us i = mb_ptr (tbl ! (us ! Suc i)) - block_end tbl (us ! i)"

lemma addr_order_ptr_le:
  assumes "pool_inv p" "addr_order p us" "k < length us"
  shows "mb_ptr (pl_table p ! (us ! k)) \<le> pl_memory_size p"
proof -
  have "us ! k < pl_table_num p" "mb_usage (pl_table p ! (us ! k))"
    using assms nth_mem by (fastforce simp: addr_order_def)+
  then consider "us ! k = 0" | "us ! k = pl_table_num p - 1" | "pool_live p (us ! k)"
    unfolding pool_live_def by linarith
  then show ?thesis
    using assms(1) pool_invD(3) [OF assms(1)] by cases (auto simp: pool_inv_def pool_frame_def order_less_imp_le)
qed

lemma left_size_gap:
  assumes "pool_inv p" "addr_order p us" "Suc i < length us"
  shows "left_size (pl_table p) us i = gap (pl_table p) us i"
    and "gap (pl_table p) us i \<le> pl_memory_size p"
    and "block_end (pl_table p) (us ! i) + gap (pl_table p) us i = mb_ptr (pl_table p ! (us ! Suc i))"
proof -
  have "block_end (pl_table p) (us ! i) \<le> mb_ptr (pl_table p ! (us ! Suc i))"
    using assms by (simp add: addr_order_def chain_def)
  moreover have "mb_ptr (pl_table p ! (us ! Suc i)) \<le> pl_memory_size p"
    using addr_order_ptr_le [OF assms(1,2)] assms(3) by blast
  moreover have "pl_memory_size p < 2 ^ 16" using assms(1) by (simp add: pool_inv_def pool_frame_def)
  ultimately show "left_size (pl_table p) us i = gap (pl_table p) us i"
    and "gap (pl_table p) us i \<le> pl_memory_size p"
    and "block_end (pl_table p) (us ! i) + gap (pl_table p) us i = mb_ptr (pl_table p ! (us ! Suc i))"
    by (auto simp: left_size_def gap_def block_end_def sub32_le)
qed

lemma sum_gaps:
  assumes "pool_inv p" "addr_order p us"
  shows "m < length us \<Longrightarrow> (\<Sum>i<m. gap (pl_table p) us i) + (\<Sum>i<m. mb_size (pl_table p ! (us ! i)))
    = mb_ptr (pl_table p ! (us ! m))"
proof (induction m)
  case 0
  then show ?case using assms by (simp add: addr_order_def pool_inv_def pool_frame_def)
next
  case (Suc m)
  then show ?case using left_size_gap(3) [OF assms, of m] by (simp add: block_end_def)
qed

lemma sum_gaps_le:
  assumes "pool_inv p" "addr_order p us" "m < length us"
  shows "(\<Sum>i<m. gap (pl_table p) us i) \<le> pl_memory_size p"
  using sum_gaps [OF assms] addr_order_ptr_le [OF assms] by linarith

lemma sum_used_sizes:
  assumes "pool_inv p" "addr_order p us"
  shows "(\<Sum>i<length us - 1. mb_size (pl_table p ! (us ! i))) = used_size (pl_table p)"
proof -
  let ?t = "pl_table p" and ?n = "length us"
  have fr: "pool_frame p" using assms(1) by (simp add: pool_inv_def)
  have "used_size ?t = (\<Sum>i\<in>set us. mb_size (?t ! i))"
    using assms(2) by (simp add: used_size_filter [OF fr] addr_order_def)
  also have "\<dots> = sum_list (map (\<lambda>i. mb_size (?t ! i)) us)"
    using assms(2) by (simp add: addr_order_def sum_list_distinct_conv_sum_set)
  also have "\<dots> = (\<Sum>i<?n. mb_size (?t ! (us ! i)))"
    by (simp add: sum_list_sum_nth atLeast0LessThan)
  also have "\<dots> = (\<Sum>i<Suc (?n - 1). mb_size (?t ! (us ! i)))"
  proof -
    have "Suc (?n - 1) = ?n" using assms(2) unfolding addr_order_def by linarith
    then show ?thesis by (simp only:)
  qed
  also have "\<dots> = (\<Sum>i<?n - 1. mb_size (?t ! (us ! i)))"
    using assms(2) fr by (simp add: addr_order_def pool_frame_def)
  finally show ?thesis by simp
qed

lemma total_gaps:
  assumes "pool_inv p" "addr_order p us"
  shows "(\<Sum>i<length us - 1. gap (pl_table p) us i) + used_size (pl_table p) = pl_memory_size p"
proof -
  have "length us - 1 < length us" using assms(2) unfolding addr_order_def by linarith
  from sum_gaps [OF assms this] sum_used_sizes [OF assms]
  have "(\<Sum>i<length us - 1. gap (pl_table p) us i) + used_size (pl_table p)
      = mb_ptr (pl_table p ! (us ! (length us - 1)))" by simp
  also have "us ! (length us - 1) = pl_table_num p - 1" using assms(2) by (simp add: addr_order_def)
  also have "mb_ptr (pl_table p ! (pl_table_num p - 1)) = pl_memory_size p"
    using assms(1) by (simp add: pool_inv_def pool_frame_def)
  finally show ?thesis .
qed

definition scan_inv :: "memory_block list \<Rightarrow> nat list \<Rightarrow> nat \<Rightarrow> nat \<Rightarrow> scan \<Rightarrow> bool" where
  "scan_inv tbl us sz m s \<longleftrightarrow>
     sc_accumulated s = (\<Sum>i<m. gap tbl us i) \<and>
     (sc_found s \<longleftrightarrow> (\<exists>k<m. sz \<le> (\<Sum>i<Suc k. gap tbl us i))) \<and>
     (sc_found s \<longrightarrow> sc_j s < m \<and> sz \<le> (\<Sum>i<Suc (sc_j s). gap tbl us i)) \<and>
     (if \<exists>k<m. sz \<le> gap tbl us k
      then \<exists>k<m. sz \<le> gap tbl us k \<and> sc_area0 s = us ! k \<and> sc_area1 s = gap tbl us k
      else sc_area0 s = NO_AREA \<and> sc_area1 s = NO_AREA)"

lemma scan_step_inv:
  assumes left: "left_size tbl us m = gap tbl us m" and idx: "mb_index (tbl ! (us ! m)) = us ! m"
    and small: "(\<Sum>i<Suc m. gap tbl us i) < 2 ^ 16" and inv: "scan_inv tbl us sz m s"
  shows "scan_inv tbl us sz (Suc m) (scan_step tbl us sz s m)"
proof -
  let ?g = "gap tbl us m" and ?s = "scan_step tbl us sz s m"
  have g: "?g < NO_AREA" using small by (simp add: NO_AREA_def)
  have acc: "sc_accumulated ?s = (\<Sum>i<Suc m. gap tbl us i)"
    using inv small by (simp add: scan_step_def Let_def left scan_inv_def)
  have found: "sc_found ?s \<longleftrightarrow> sc_found s \<or> sz \<le> (\<Sum>i<Suc m. gap tbl us i)"
    and j: "sc_j ?s = (if sz \<le> (\<Sum>i<Suc m. gap tbl us i) \<and> \<not> sc_found s then m else sc_j s)"
    using inv small by (auto simp: scan_step_def Let_def left scan_inv_def)
  have area: "sc_area0 ?s = (if sz \<le> ?g \<and> ?g < sc_area1 s then us ! m else sc_area0 s)"
    "sc_area1 ?s = (if sz \<le> ?g \<and> ?g < sc_area1 s then ?g else sc_area1 s)"
    using idx by (auto simp: scan_step_def Let_def left)
  have 1: "sc_found ?s \<longleftrightarrow> (\<exists>k<Suc m. sz \<le> (\<Sum>i<Suc k. gap tbl us i))"
    using inv found by (auto simp: scan_inv_def less_Suc_eq)
  have 2: "sc_found ?s \<longrightarrow> sc_j ?s < Suc m \<and> sz \<le> (\<Sum>i<Suc (sc_j ?s). gap tbl us i)"
    using inv found j by (auto simp: scan_inv_def)
  have 3: "if \<exists>k<Suc m. sz \<le> gap tbl us k
      then \<exists>k<Suc m. sz \<le> gap tbl us k \<and> sc_area0 ?s = us ! k \<and> sc_area1 ?s = gap tbl us k
      else sc_area0 ?s = NO_AREA \<and> sc_area1 ?s = NO_AREA"
  proof (cases "\<exists>k<m. sz \<le> gap tbl us k")
    case True
    then have "\<exists>k<m. sz \<le> gap tbl us k \<and> sc_area0 s = us ! k \<and> sc_area1 s = gap tbl us k"
      using inv by (auto simp: scan_inv_def)
    then show ?thesis using area by (auto simp: less_Suc_eq)
  next
    case False
    then have "sc_area0 s = NO_AREA \<and> sc_area1 s = NO_AREA" using inv by (auto simp: scan_inv_def)
    then show ?thesis using area False g by (auto simp: less_Suc_eq)
  qed
  show ?thesis unfolding scan_inv_def using acc 1 2 3 by blast
qed

lemma scan_blocks_inv:
  assumes "pool_inv p" "addr_order p us"
  shows "scan_inv (pl_table p) us sz (length us - 1) (scan_blocks (pl_table p) us sz)"
proof -
  let ?t = "pl_table p"
  let ?s0 = "\<lparr>sc_area0 = NO_AREA, sc_area1 = NO_AREA, sc_accumulated = 0,
        sc_j = (if length us \<ge> 2 then 1 else 0), sc_found = False\<rparr>"
  have "m \<le> length us - 1 \<Longrightarrow> scan_inv ?t us sz m (foldl (scan_step ?t us sz) ?s0 [0..<m])" for m
  proof (induction m)
    case 0
    then show ?case by (simp add: scan_inv_def)
  next
    case (Suc m)
    then have m: "Suc m < length us" by linarith
    then have "us ! m \<in> set us" by simp
    then have "us ! m < pl_table_num p" using assms(2) by (auto simp: addr_order_def)
    then have "mb_index (?t ! (us ! m)) = us ! m" using assms(1) by (simp add: pool_inv_def pool_frame_def)
    moreover have "(\<Sum>i<Suc m. gap ?t us i) < 2 ^ 16"
      using sum_gaps_le [OF assms m] assms(1) by (simp add: pool_inv_def pool_frame_def)
    ultimately show ?case
      using Suc scan_step_inv [OF left_size_gap(1) [OF assms m]] by simp
  qed
  then show ?thesis by (simp add: scan_blocks_def)
qed

subsection \<open>Placing a block behind another\<close>

lemma free_slot_Some:
  assumes "free_slot p = Some b"
  shows "0 < b" "b < pl_table_num p - 1" "\<not> mb_usage (pl_table p ! b)"
  using assms by (auto simp: free_slot_def find_Some_iff)

lemma free_slot_None: "free_slot p = None \<longleftrightarrow> (\<forall>i. 0 < i \<and> i < pl_table_num p - 1 \<longrightarrow> mb_usage (pl_table p ! i))"
  by (auto simp: free_slot_def find_None_iff)

lemma pool_live_in_order:
  assumes "addr_order p us" "pool_live p i"
  obtains m where "0 < m" "m < length us" "us ! m = i"
proof -
  have "set us = {i. i < pl_table_num p \<and> mb_usage (pl_table p ! i)}" "us ! 0 = 0"
    using assms(1) by (simp_all add: addr_order_def)
  moreover have i: "i < pl_table_num p" "mb_usage (pl_table p ! i)" "0 < i"
    using assms(2) unfolding pool_live_def by linarith+
  ultimately have "i \<in> set us" "us ! 0 \<noteq> i" by auto
  then obtain m where m: "m < length us" "us ! m = i" "m \<noteq> 0" by (metis in_set_conv_nth)
  moreover from m have "0 < m" by simp
  ultimately show ?thesis using that by blast
qed

lemma place_after_ok:
  assumes inv: "pool_inv p" and ord: "addr_order p us" and k: "Suc k < length us"
    and fits: "sz \<le> gap (pl_table p) us k" and sz: "0 < sz" and slot: "free_slot p = Some b"
    and res: "place_after (us ! k) sz p = (r, p')"
  shows "r = Some b" "pool_inv p'" "pool_live p' i \<longleftrightarrow> pool_live p i \<or> i = b"
    "mb_size (pl_table p' ! b) = sz" "pl_memory p' = pl_memory p"
    "i \<noteq> b \<Longrightarrow> pl_table p' ! i = pl_table p ! i" "\<not> pool_live p b"
    "pl_memory_size p' = pl_memory_size p" "pl_max_block_size p' = pl_max_block_size p"
    "pl_table_num p' = pl_table_num p"
proof -
  let ?t = "pl_table p" and ?e = "block_end (pl_table p) (us ! k)"
  let ?nb = "(?t ! b)\<lparr>mb_ptr := ?e, mb_size := sz, mb_usage := True\<rparr>"
  note b = free_slot_Some [OF slot]
  have len: "length ?t = pl_table_num p" using inv by (simp add: pool_inv_def pool_frame_def)
  have p': "p' = p\<lparr>pl_table := ?t[b := ?nb]\<rparr>" and r: "r = Some b"
    using res slot by (auto simp: place_after_def block_end_def)
  have live: "pool_live p' i \<longleftrightarrow> pool_live p i \<or> i = b" for i
    using b len by (auto simp: p' pool_live_def nth_list_update)
  have nb: "pl_table p' ! b = ?nb" using b len by (simp add: p')
  have other: "i \<noteq> b \<Longrightarrow> pl_table p' ! i = ?t ! i" for i by (simp add: p')
  have next_ptr: "?e + sz \<le> mb_ptr (?t ! (us ! Suc k))"
    using left_size_gap(3) [OF inv ord k] fits by linarith
  have in_mem: "?e + sz \<le> pl_memory_size p"
    using next_ptr addr_order_ptr_le [OF inv ord k] by linarith
  have apart: "blocks_apart ?nb (?t ! i)" if live_i: "pool_live p i" for i
  proof -
    obtain m where m: "m < length us" "us ! m = i" using pool_live_in_order [OF ord live_i] by blast
    have chain: "chain ?t us" using ord by (simp add: addr_order_def)
    show ?thesis
    proof (cases "m \<le> k")
      case True
      have "block_end ?t i \<le> ?e"
        using chain_le [OF chain, of m k] True m k by (cases "m = k") (auto simp: block_end_def)
      then show ?thesis by (simp add: blocks_apart_def block_end_def)
    next
      case False
      then have "m = Suc k \<or> Suc k < m" by linarith
      then have "mb_ptr (?t ! (us ! Suc k)) \<le> mb_ptr (?t ! i)"
        using chain_le [OF chain, of "Suc k" m] m by (auto simp: block_end_def)
      then show ?thesis using next_ptr by (simp add: blocks_apart_def)
    qed
  qed
  have frame: "pool_frame p'"
    using inv b len by (auto simp: p' pool_inv_def pool_frame_def nth_list_update)
  have "pool_inv p'"
    unfolding pool_inv_def
  proof (intro conjI allI impI)
    fix i
    assume "pool_live p' i"
    then show "0 < mb_size (pl_table p' ! i)"
      "mb_ptr (pl_table p' ! i) + mb_size (pl_table p' ! i) \<le> pl_memory_size p'"
      using live [of i] nb other [of i] sz in_mem pool_invD [OF inv, of i]
      by (cases "i = b"; simp add: p' block_end_def)+
  next
    fix i j
    assume "pool_live p' i" "pool_live p' j" "i \<noteq> j"
    then show "blocks_apart (pl_table p' ! i) (pl_table p' ! j)"
      using live [of i] live [of j] nb other [of i] other [of j] apart [of i] apart [of j] inv
      by (cases "i = b"; cases "j = b") (auto simp: pool_inv_def blocks_apart_def)
  qed (rule frame)
  then show "pool_inv p'" .
  show "r = Some b" "pool_live p' i \<longleftrightarrow> pool_live p i \<or> i = b"
    "mb_size (pl_table p' ! b) = sz" "pl_memory p' = pl_memory p"
    "i \<noteq> b \<Longrightarrow> pl_table p' ! i = pl_table p ! i" "\<not> pool_live p b"
    "pl_memory_size p' = pl_memory_size p" "pl_max_block_size p' = pl_max_block_size p"
    "pl_table_num p' = pl_table_num p"
    using r live nb other b by (auto simp: p' pool_live_def)
qed

subsection \<open>Compaction\<close>

text \<open>What an operation must keep of the blocks that are in use: their size and contents.\<close>

definition pool_keeps :: "pool \<Rightarrow> pool \<Rightarrow> bool" where
  "pool_keeps p p' \<longleftrightarrow>
     pl_table_num p' = pl_table_num p \<and> pl_memory_size p' = pl_memory_size p \<and>
     pl_max_block_size p' = pl_max_block_size p \<and>
     (\<forall>i. pool_live p i \<longrightarrow> pool_live p' i \<and> mb_size (pl_table p' ! i) = mb_size (pl_table p ! i) \<and>
        block_bytes p' i = block_bytes p i)"

lemma pool_keeps_refl [simp]: "pool_keeps p p"
  by (simp add: pool_keeps_def)

lemma pool_keeps_trans: "pool_keeps p q \<Longrightarrow> pool_keeps q r \<Longrightarrow> pool_keeps p r"
  by (simp add: pool_keeps_def)

lemma addr_order_inv:
  assumes fr: "pool_frame p" and ord: "addr_order p us"
    and pos: "\<And>i. pool_live p i \<Longrightarrow> 0 < mb_size (pl_table p ! i)"
  shows "pool_inv p"
proof -
  let ?t = "pl_table p"
  have chain: "chain ?t us" and last: "us ! (length us - 1) = pl_table_num p - 1" and len: "2 \<le> length us"
    using ord by (simp_all add: addr_order_def)
  have sent: "mb_ptr (?t ! (pl_table_num p - 1)) = pl_memory_size p" using fr by (simp add: pool_frame_def)
  have bound: "mb_ptr (?t ! i) + mb_size (?t ! i) \<le> pl_memory_size p" if live: "pool_live p i" for i
  proof -
    obtain m where m: "m < length us" "us ! m = i" using pool_live_in_order [OF ord live] by blast
    have "i \<noteq> pl_table_num p - 1" using live by (simp add: pool_live_def)
    then have "m \<noteq> length us - 1" using m last by auto
    then have "m < length us - 1" "length us - 1 < length us" using m len by linarith+
    from chain_le [OF chain this] show ?thesis using m last sent by (simp add: block_end_def)
  qed
  have apart: "blocks_apart (?t ! i) (?t ! j)"
    if li: "pool_live p i" and lj: "pool_live p j" and ne: "i \<noteq> j" for i j
  proof -
    obtain m where m: "m < length us" "us ! m = i" using pool_live_in_order [OF ord li] by blast
    obtain k where k: "k < length us" "us ! k = j" using pool_live_in_order [OF ord lj] by blast
    consider "m < k" | "k < m" using ne m k by fastforce
    then show ?thesis
      using chain_le [OF chain, of m k] chain_le [OF chain, of k m] m k
      by cases (auto simp: blocks_apart_def block_end_def)
  qed
  show ?thesis unfolding pool_inv_def using fr pos bound apart by simp
qed

lemma compress_step_ok:
  assumes inv: "pool_inv p" and ord: "addr_order p us" and i: "Suc i < length us - 1"
  obtains p' where "compress_step us i p = Some p'" "pool_inv p'" "addr_order p' us" "pool_keeps p p'"
    "\<And>k. pool_live p' k \<longleftrightarrow> pool_live p k" "\<And>k. mb_size (pl_table p' ! k) = mb_size (pl_table p ! k)"
    "\<And>k. mb_usage (pl_table p' ! k) = mb_usage (pl_table p ! k)"
    "\<And>k. k \<noteq> us ! Suc i \<Longrightarrow> pl_table p' ! k = pl_table p ! k"
    "mb_ptr (pl_table p' ! (us ! Suc i)) = block_end (pl_table p) (us ! i)"
proof -
  let ?t = "pl_table p" and ?c = "us ! Suc i" and ?dst = "block_end (pl_table p) (us ! i)"
  let ?b = "pl_table p ! (us ! Suc i)"
  have fr: "pool_frame p" using inv by (simp add: pool_inv_def)
  have dist: "distinct us" and chain: "chain ?t us" and first: "us ! 0 = 0"
    and last: "us ! (length us - 1) = pl_table_num p - 1"
    and set_us: "set us = {i. i < pl_table_num p \<and> mb_usage (?t ! i)}"
    using ord by (simp_all add: addr_order_def)
  have len: "length ?t = pl_table_num p" "length (pl_memory p) = pl_memory_size p"
    using fr by (simp_all add: pool_frame_def)
  have i': "Suc i < length us" using i by linarith
  have c_set: "?c \<in> set us" using i' by simp
  have "?c \<noteq> 0" using first nth_eq_iff_index_eq [OF dist i', of 0] i' by fastforce
  moreover have "?c \<noteq> pl_table_num p - 1"
    using last nth_eq_iff_index_eq [OF dist i', of "length us - 1"] i by fastforce
  moreover have "?c < pl_table_num p" "mb_usage ?b" using c_set set_us by auto
  ultimately have live_c: "pool_live p ?c" unfolding pool_live_def by linarith
  have le: "?dst \<le> mb_ptr ?b" using chain i' by (simp add: chain_def)
  have b_end: "mb_ptr ?b + mb_size ?b \<le> pl_memory_size p" and b_pos: "0 < mb_size ?b"
    using pool_invD [OF inv live_c] by (simp_all add: block_end_def)
  let ?bs = "slice (pl_memory p) (mb_ptr ?b) (mb_size ?b)"
  have len_bs: "length ?bs = mb_size ?b" using b_end len by simp
  let ?m = "splice (pl_memory p) ?dst ?bs"
  define q where "q = p\<lparr>pl_memory := ?m, pl_table := ?t[?c := ?b\<lparr>mb_ptr := ?dst\<rparr>]\<rparr>"
  show ?thesis
  proof (cases "mb_ptr ?b > ?dst")
    case False
    then have "compress_step us i p = Some p" by (simp add: compress_step_def Let_def block_end_def)
    then show ?thesis using False le inv ord that [of p] by simp
  next
    case True
    then have step: "compress_step us i p = Some q"
      using b_end le len by (simp add: q_def compress_step_def Let_def block_end_def mem_read_def mem_write_def)
    have c: "?c < length ?t" using live_c len unfolding pool_live_def by linarith
    have at_c: "pl_table q ! ?c = ?b\<lparr>mb_ptr := ?dst\<rparr>" using c by (simp add: q_def)
    have other: "k \<noteq> ?c \<Longrightarrow> pl_table q ! k = ?t ! k" for k by (simp add: q_def)
    have size: "mb_size (pl_table q ! k) = mb_size (?t ! k)"
      and usage: "mb_usage (pl_table q ! k) = mb_usage (?t ! k)"
      and ptr_le: "mb_ptr (pl_table q ! k) \<le> mb_ptr (?t ! k)" for k
      using at_c other [of k] le by (cases "k = ?c"; simp)+
    have num: "pl_table_num q = pl_table_num p" "pl_memory_size q = pl_memory_size p"
        "pl_max_block_size q = pl_max_block_size p" "pl_memory q = ?m"
      by (simp_all add: q_def)
    have live: "pool_live q k \<longleftrightarrow> pool_live p k" for k
      using usage [of k] num by (simp add: pool_live_def)
    have frame: "pool_frame q"
      using fr live_c c b_end le len_bs len by (auto simp: q_def pool_frame_def pool_live_def nth_list_update)
    have "chain (pl_table q) us"
      unfolding chain_def
    proof (intro allI impI)
      fix k
      assume k: "Suc k < length us"
      have "block_end (pl_table q) (us ! k) \<le> block_end ?t (us ! k)"
        by (simp only: block_end_def size) (rule add_right_mono [OF ptr_le])
      also have "\<dots> \<le> mb_ptr (?t ! (us ! Suc k))" using chain k by (simp add: chain_def)
      finally have old: "block_end (pl_table q) (us ! k) \<le> mb_ptr (?t ! (us ! Suc k))" .
      show "block_end (pl_table q) (us ! k) \<le> mb_ptr (pl_table q ! (us ! Suc k))"
      proof (cases "k = i")
        case True
        then have "us ! k \<noteq> ?c" using nth_eq_iff_index_eq [OF dist, of k "Suc i"] k i' by simp
        then show ?thesis using True at_c other by (simp add: block_end_def)
      next
        case False
        then have "us ! Suc k \<noteq> ?c" using nth_eq_iff_index_eq [OF dist, of "Suc k" "Suc i"] k i' by simp
        then show ?thesis using old other by simp
      qed
    qed
    then have ord': "addr_order q us" using ord usage num by (simp add: addr_order_def)
    have inv': "pool_inv q"
    proof (rule addr_order_inv [OF frame ord'])
      fix k
      assume "pool_live q k"
      then show "0 < mb_size (pl_table q ! k)" using live size pool_invD(1) [OF inv] by metis
    qed
    have bytes: "block_bytes q k = block_bytes p k" if live_k: "pool_live p k" for k
    proof (cases "k = ?c")
      case True
      then show ?thesis
        using at_c b_end le len len_bs num by (simp add: block_bytes_def slice_splice_same)
    next
      case False
      obtain m where m: "m < length us" "us ! m = k" using pool_live_in_order [OF ord live_k] by blast
      then have "m \<noteq> Suc i" using False by auto
      then have "m < Suc i \<or> Suc i < m" by linarith
      then have far: "block_end ?t k \<le> ?dst \<or> mb_ptr ?b + mb_size ?b \<le> mb_ptr (?t ! k)"
      proof
        assume "m < Suc i"
        then have "m = i \<or> m < i" by linarith
        then show ?thesis
          using chain_le [OF chain, of m i] m i' by (auto simp: block_end_def)
      next
        assume "Suc i < m"
        then show ?thesis using chain_le [OF chain, of "Suc i" m] m by (simp add: block_end_def)
      qed
      have "block_end ?t k \<le> pl_memory_size p" using pool_invD(2) [OF inv live_k] .
      then show ?thesis
        using other [OF False] far le b_end len len_bs num
        by (auto simp: block_bytes_def block_end_def intro!: slice_splice_other)
    qed
    have keeps: "pool_keeps p q" unfolding pool_keeps_def using live size bytes num by simp
    show ?thesis using that [OF step inv' ord' keeps live size usage other] at_c by simp
  qed
qed

lemma compress_ok:
  assumes inv: "pool_inv p" and ord: "addr_order p us"
  shows "j < length us - 1 \<Longrightarrow> \<exists>p'. compress us j p = Some p' \<and> pool_inv p' \<and> addr_order p' us \<and>
    pool_keeps p p' \<and> (\<forall>k. pool_live p' k \<longleftrightarrow> pool_live p k) \<and>
    (\<forall>k. mb_size (pl_table p' ! k) = mb_size (pl_table p ! k)) \<and>
    (\<forall>k. mb_usage (pl_table p' ! k) = mb_usage (pl_table p ! k)) \<and>
    (\<forall>m. j < m \<longrightarrow> m < length us \<longrightarrow> pl_table p' ! (us ! m) = pl_table p ! (us ! m)) \<and>
    block_end (pl_table p') (us ! j) = (\<Sum>m<Suc j. mb_size (pl_table p ! (us ! m)))"
proof (induction j)
  case 0
  then show ?case
    using inv ord by (simp add: block_end_def addr_order_def pool_inv_def pool_frame_def)
next
  case (Suc j)
  then obtain q where q: "compress us j p = Some q" "pool_inv q" "addr_order q us" "pool_keeps p q"
    "\<forall>k. pool_live q k \<longleftrightarrow> pool_live p k"
    "\<forall>k. mb_size (pl_table q ! k) = mb_size (pl_table p ! k)"
    "\<forall>k. mb_usage (pl_table q ! k) = mb_usage (pl_table p ! k)"
    "\<forall>m. j < m \<longrightarrow> m < length us \<longrightarrow> pl_table q ! (us ! m) = pl_table p ! (us ! m)"
    "block_end (pl_table q) (us ! j) = (\<Sum>m<Suc j. mb_size (pl_table p ! (us ! m)))" by auto
  obtain p' where p': "compress_step us j q = Some p'" "pool_inv p'" "addr_order p' us" "pool_keeps q p'"
    "\<And>k. pool_live p' k \<longleftrightarrow> pool_live q k" "\<And>k. mb_size (pl_table p' ! k) = mb_size (pl_table q ! k)"
    "\<And>k. mb_usage (pl_table p' ! k) = mb_usage (pl_table q ! k)"
    "\<And>k. k \<noteq> us ! Suc j \<Longrightarrow> pl_table p' ! k = pl_table q ! k"
    "mb_ptr (pl_table p' ! (us ! Suc j)) = block_end (pl_table q) (us ! j)"
    using compress_step_ok [OF q(2,3) Suc.prems] by blast
  have dist: "distinct us" using ord by (simp add: addr_order_def)
  have "compress us (Suc j) p = Some p'" using q(1) p'(1) by simp
  moreover have "pool_keeps p p'" using q(4) p'(4) by (rule pool_keeps_trans)
  moreover have "pl_table p' ! (us ! m) = pl_table p ! (us ! m)" if "Suc j < m" "m < length us" for m
  proof -
    have "us ! m \<noteq> us ! Suc j" using nth_eq_iff_index_eq [OF dist, of m "Suc j"] that by simp
    then show ?thesis using p'(8) q(8) that by simp
  qed
  moreover have "block_end (pl_table p') (us ! Suc j) = (\<Sum>m<Suc (Suc j). mb_size (pl_table p ! (us ! m)))"
    using p'(6,9) q(6,9) by (simp add: block_end_def)
  ultimately show ?case using p'(2,3,5,6,7) q(5,6,7) by simp
qed

subsection \<open>What an allocation does\<close>

definition alloc_result :: "pool \<Rightarrow> nat \<Rightarrow> nat option \<Rightarrow> pool \<Rightarrow> bool" where
  "alloc_result p sz r p' \<longleftrightarrow> pool_inv p' \<and> pool_keeps p p' \<and>
     (case r of
        None \<Rightarrow> \<forall>i. pool_live p' i \<longleftrightarrow> pool_live p i
      | Some b \<Rightarrow> \<not> pool_live p b \<and> mb_size (pl_table p' ! b) = sz \<and>
          (\<forall>i. pool_live p' i \<longleftrightarrow> pool_live p i \<or> i = b))"

lemma place_after_result:
  assumes inv: "pool_inv p" and ord: "addr_order p us" and k: "Suc k < length us"
    and fits: "sz \<le> gap (pl_table p) us k" and sz: "0 < sz"
  obtains r p' where "place_after (us ! k) sz p = (r, p')" "r = free_slot p" "alloc_result p sz r p'"
proof (cases "free_slot p")
  case None
  then show ?thesis using that [of None p] inv by (simp add: place_after_def alloc_result_def)
next
  case (Some b)
  obtain r p' where res: "place_after (us ! k) sz p = (r, p')" by fastforce
  note ok = place_after_ok [OF inv ord k fits sz Some res]
  have "pool_keeps p p'"
    unfolding pool_keeps_def
  proof (intro conjI allI impI)
    fix i
    assume i: "pool_live p i"
    then have "i \<noteq> b" using ok(7) by blast
    then show "pool_live p' i" "mb_size (pl_table p' ! i) = mb_size (pl_table p ! i)"
      "block_bytes p' i = block_bytes p i"
      using i ok(3,5,6) by (simp_all add: block_bytes_def)
  qed (use ok in simp_all)
  then have "alloc_result p sz r p'" using ok by (simp add: alloc_result_def)
  then show ?thesis using that res ok(1) Some by simp
qed

lemma no_live_if_unused:
  assumes "pool_inv p" "used_size (pl_table p) = 0"
  shows "\<not> pool_live p i"
proof
  assume live: "pool_live p i"
  have fr: "pool_frame p" using assms(1) by (simp add: pool_inv_def)
  have "(\<Sum>i | i < pl_table_num p \<and> mb_usage (pl_table p ! i). mb_size (pl_table p ! i)) = 0"
    using assms(2) used_size_filter [OF fr] by simp
  then have "\<forall>i < pl_table_num p. mb_usage (pl_table p ! i) \<longrightarrow> mb_size (pl_table p ! i) = 0" by simp
  moreover have "i < pl_table_num p" "mb_usage (pl_table p ! i)"
    using live unfolding pool_live_def by linarith+
  ultimately show False using pool_invD(1) [OF assms(1) live] by simp
qed

lemma first_alloc_result:
  assumes inv: "pool_inv p" and none: "used_size (pl_table p) = 0" and sz: "0 < sz" "sz \<le> pl_memory_size p"
    and p': "p' = p\<lparr>pl_table := (pl_table p)[1 := (pl_table p ! 1)
          \<lparr>mb_ptr := mb_ptr (pl_table p ! 0), mb_size := sz, mb_usage := True\<rparr>]\<rparr>"
  shows "alloc_result p sz (Some 1) p'"
proof -
  note dead = no_live_if_unused [OF inv none]
  have fr: "pool_frame p" using inv by (simp add: pool_inv_def)
  have n: "3 \<le> pl_table_num p" "length (pl_table p) = pl_table_num p" and p0: "mb_ptr (pl_table p ! 0) = 0"
    using fr by (simp_all add: pool_frame_def)
  have live: "pool_live p' i \<longleftrightarrow> i = 1" for i
    using dead [of i] n by (auto simp: p' pool_live_def nth_list_update)
  have at1: "mb_size (pl_table p' ! 1) = sz" "mb_ptr (pl_table p' ! 1) = 0"
    using n p0 by (simp_all add: p')
  have "pool_frame p'" using fr n by (auto simp: p' pool_frame_def nth_list_update)
  then have "pool_inv p'" using live at1 sz by (simp add: pool_inv_def p')
  then show ?thesis using dead live at1 by (simp add: alloc_result_def pool_keeps_def p')
qed

lemma pool_keeps_free_slot:
  assumes "\<And>k. mb_usage (pl_table p' ! k) = mb_usage (pl_table p ! k)" "pl_table_num p' = pl_table_num p"
  shows "free_slot p' = free_slot p"
  using assms by (simp add: free_slot_def)

lemma alloc_result_trans:
  assumes "pool_keeps p q" "\<And>k. pool_live q k \<longleftrightarrow> pool_live p k" "alloc_result q sz r p'"
  shows "alloc_result p sz r p'"
  using assms by (auto simp: alloc_result_def split: option.splits intro: pool_keeps_trans)

definition alloc_fits :: "pool \<Rightarrow> nat \<Rightarrow> bool" where
  "alloc_fits p sz \<longleftrightarrow> sz \<le> pl_max_block_size p \<and> used_size (pl_table p) + sz \<le> pl_memory_size p \<and>
     free_slot p \<noteq> None"

lemma free_slot_exists_if_unused:
  assumes "pool_inv p" "used_size (pl_table p) = 0"
  shows "free_slot p \<noteq> None"
proof -
  have "3 \<le> pl_table_num p" using assms(1) by (simp add: pool_inv_def pool_frame_def)
  then show ?thesis
    using no_live_if_unused [OF assms, of 1] unfolding free_slot_None pool_live_def by auto
qed

lemma alloc_compacted:
  assumes inv: "pool_inv p" and ord: "addr_order p us" and sz: "0 < sz"
    and j: "j < length us - 1" and enough: "sz \<le> (\<Sum>i<Suc j. gap (pl_table p) us i)"
  shows "\<exists>q r p'. compress us j p = Some q \<and> place_after (us ! j) sz q = (r, p') \<and>
    alloc_result p sz r p' \<and> r = free_slot p"
proof -
  obtain q where q: "compress us j p = Some q" "pool_inv q" "addr_order q us" "pool_keeps p q"
    "\<And>k. pool_live q k \<longleftrightarrow> pool_live p k" "\<And>k. mb_usage (pl_table q ! k) = mb_usage (pl_table p ! k)"
    "\<And>m. j < m \<Longrightarrow> m < length us \<Longrightarrow> pl_table q ! (us ! m) = pl_table p ! (us ! m)"
    "block_end (pl_table q) (us ! j) = (\<Sum>m<Suc j. mb_size (pl_table p ! (us ! m)))"
    using compress_ok [OF inv ord j] by blast
  have j': "Suc j < length us" using j by linarith
  have "mb_ptr (pl_table q ! (us ! Suc j)) =
      (\<Sum>i<Suc j. gap (pl_table p) us i) + (\<Sum>i<Suc j. mb_size (pl_table p ! (us ! i)))"
    using sum_gaps [OF inv ord j'] q(7) [of "Suc j"] j' by simp
  then have "sz \<le> gap (pl_table q) us j" using enough q(8) by (simp add: gap_def)
  from place_after_result [OF q(2,3) j' this sz]
  obtain r p' where "place_after (us ! j) sz q = (r, p')" "r = free_slot q" "alloc_result q sz r p'" .
  moreover have "free_slot q = free_slot p"
    using q(4,6) by (intro pool_keeps_free_slot) (simp_all add: pool_keeps_def)
  ultimately show ?thesis using q(1) alloc_result_trans [OF q(4,5)] by simp
qed

lemma alloc_memory_result:
  assumes inv: "pool_inv p" and sz: "0 < sz"
  shows "\<exists>r p'. alloc_memory sz p = Some (r, p') \<and> alloc_result p sz r p' \<and> (r \<noteq> None \<longleftrightarrow> alloc_fits p sz)"
proof -
  have num: "\<not> pl_table_num p > 255" using inv by (simp add: pool_inv_def pool_frame_def)
  have none: "alloc_result p sz None p" using inv by (simp add: alloc_result_def)
  consider (big) "sz > pl_max_block_size p \<or> sz > pl_memory_size p"
    | (full) "sz \<le> pl_max_block_size p" "sz \<le> pl_memory_size p"
        "pl_memory_size p < used_size (pl_table p) + sz"
    | (first) "sz \<le> pl_max_block_size p" "sz \<le> pl_memory_size p" "used_size (pl_table p) = 0"
    | (scan) "sz \<le> pl_max_block_size p" "used_size (pl_table p) + sz \<le> pl_memory_size p"
        "used_size (pl_table p) \<noteq> 0" by linarith
  then show ?thesis
  proof cases
    case big
    then have "alloc_memory sz p = Some (None, p)" "\<not> alloc_fits p sz"
      by (auto simp: alloc_memory_def alloc_fits_def)
    then show ?thesis using none by simp
  next
    case full
    then have "alloc_memory sz p = Some (None, p)" "\<not> alloc_fits p sz"
      using num by (auto simp: alloc_memory_def alloc_fits_def)
    then show ?thesis using none by simp
  next
    case first
    then have "alloc_fits p sz" using free_slot_exists_if_unused [OF inv] by (simp add: alloc_fits_def)
    then show ?thesis
      using first num first_alloc_result [OF inv first(3) sz first(2) refl] by (simp add: alloc_memory_def)
  next
    case scan
    let ?t = "pl_table p"
    define us where "us = bubble_sort ?t (used_index ?t)"
    define s where "s = scan_blocks ?t us sz"
    have ord: "addr_order p us" using addr_order_bubble_sort [OF inv] by (simp add: us_def)
    have sc: "scan_inv ?t us sz (length us - 1) s" using scan_blocks_inv [OF inv ord] by (simp add: s_def)
    have fits: "free_slot p \<noteq> None \<longleftrightarrow> alloc_fits p sz" using scan by (simp add: alloc_fits_def)
    have alloc: "alloc_memory sz p =
       (if sc_area0 s = NO_AREA \<and> sc_area1 s = NO_AREA then do {
             p' \<leftarrow> compress us (sc_j s) p; Some (place_after (us ! sc_j s) sz p') }
           else Some (place_after (sc_area0 s) sz p))"
      using scan num by (simp add: alloc_memory_def us_def s_def Let_def)
    show ?thesis
    proof (cases "\<exists>k<length us - 1. sz \<le> gap ?t us k")
      case True
      then obtain k where k: "k < length us - 1" "sz \<le> gap ?t us k" "sc_area0 s = us ! k" "sc_area1 s = gap ?t us k"
        using sc by (auto simp: scan_inv_def)
      then have k': "Suc k < length us" by linarith
      have "pl_memory_size p < NO_AREA" using inv by (simp add: pool_inv_def pool_frame_def NO_AREA_def)
      then have "sc_area1 s \<noteq> NO_AREA" using left_size_gap(2) [OF inv ord k'] k(4) by simp
      moreover obtain r p' where "place_after (us ! k) sz p = (r, p')" "r = free_slot p" "alloc_result p sz r p'"
        using place_after_result [OF inv ord k' k(2) sz] by blast
      ultimately show ?thesis using alloc k(3) fits by simp
    next
      case False
      then have area: "sc_area0 s = NO_AREA" "sc_area1 s = NO_AREA" using sc by (simp_all add: scan_inv_def)
      have len: "2 \<le> length us" using ord by (simp add: addr_order_def)
      have "sz \<le> (\<Sum>i<length us - 1. gap ?t us i)" using total_gaps [OF inv ord] scan by simp
      moreover have "Suc (length us - 2) = length us - 1" using len by linarith
      ultimately have "\<exists>k<length us - 1. sz \<le> (\<Sum>i<Suc k. gap ?t us i)"
        using len by (intro exI [of _ "length us - 2"]) simp
      then have "sc_found s" using sc by (simp add: scan_inv_def)
      then have j: "sc_j s < length us - 1" "sz \<le> (\<Sum>i<Suc (sc_j s). gap ?t us i)"
        using sc by (auto simp: scan_inv_def)
      from alloc_compacted [OF inv ord sz this] obtain q r p' where
        "compress us (sc_j s) p = Some q" "place_after (us ! sc_j s) sz q = (r, p')"
        "alloc_result p sz r p'" "r = free_slot p" by blast
      then show ?thesis using alloc area fits by simp
    qed
  qed
qed

subsection \<open>Initialisation, release and access through a block\<close>

lemma pool_init_inv:
  assumes "3 \<le> num" "num \<le> 255" "msize < 2 ^ 16" "length mem = msize"
  shows "pool_inv (pool_init raw mem max_block msize num)" "\<not> pool_live (pool_init raw mem max_block msize num) i"
proof -
  let ?p = "pool_init raw mem max_block msize num"
  have dead: "\<not> pool_live ?p i" for i by (auto simp: pool_live_def pool_init_def)
  have "pool_frame ?p" using assms by (auto simp: pool_frame_def pool_init_def)
  then show "pool_inv ?p" using dead by (simp add: pool_inv_def)
  show "\<not> pool_live ?p i" by (rule dead)
qed

lemma pool_init_used:
  assumes "3 \<le> num" "num \<le> 255" "msize < 2 ^ 16" "length mem = msize"
  shows "used_size (pl_table (pool_init raw mem max_block msize num)) = 0"
proof -
  let ?p = "pool_init raw mem max_block msize num"
  have "pool_frame ?p" using pool_init_inv(1) [OF assms] by (simp add: pool_inv_def)
  then have "used_size (pl_table ?p) =
      (\<Sum>i | i < pl_table_num ?p \<and> mb_usage (pl_table ?p ! i). mb_size (pl_table ?p ! i))"
    by (rule used_size_filter)
  also have "\<dots> = 0"
    by (rule sum.neutral) (auto simp: pool_init_def)
  finally show ?thesis .
qed

lemma pool_init_alloc:
  assumes "3 \<le> num" "num \<le> 255" "msize < 2 ^ 16" "length mem = msize" "n \<le> max_block" "n \<le> msize"
  obtains p' where "alloc_memory n (pool_init raw mem max_block msize num) = Some (Some 1, p')"
    "pl_max_block_size p' = max_block"
proof -
  let ?p = "pool_init raw mem max_block msize num"
  have "pl_table_num ?p = num" "pl_memory_size ?p = msize" "pl_max_block_size ?p = max_block"
    by (simp_all add: pool_init_def)
  then show ?thesis
    using that assms pool_init_used [OF assms(1-4), of raw max_block] by (simp add: alloc_memory_def)
qed

lemma free_memory_spec:
  assumes inv: "pool_inv p" and b: "b < pl_table_num p"
  obtains p' where "free_memory (Some b) p = Some p'" "pool_inv p'"
    "\<And>i. pool_live p' i \<longleftrightarrow> pool_live p i \<and> i \<noteq> b" "pl_memory p' = pl_memory p"
    "\<And>i. mb_ptr (pl_table p' ! i) = mb_ptr (pl_table p ! i)"
    "\<And>i. mb_size (pl_table p' ! i) = mb_size (pl_table p ! i)"
    "pl_table_num p' = pl_table_num p" "pl_memory_size p' = pl_memory_size p"
    "pl_max_block_size p' = pl_max_block_size p"
proof -
  have fr: "pool_frame p" using inv by (simp add: pool_inv_def)
  have len: "length (pl_table p) = pl_table_num p" and idx: "mb_index (pl_table p ! b) = b"
    using fr b by (simp_all add: pool_frame_def)
  show ?thesis
  proof (cases "b = 0 \<or> b = pl_table_num p - 1")
    case True
    then have "free_memory (Some b) p = Some p" "\<not> pool_live p b"
      using b len idx by (auto simp: free_memory_def pool_live_def)
    then show ?thesis using that [of p] inv by blast
  next
    case False
    define q where "q = p\<lparr>pl_table := (pl_table p)[b := (pl_table p ! b)\<lparr>mb_usage := False\<rparr>]\<rparr>"
    have free: "free_memory (Some b) p = Some q"
      using False b len idx by (auto simp: free_memory_def q_def)
    have live: "pool_live q i \<longleftrightarrow> pool_live p i \<and> i \<noteq> b" for i
      using len b by (auto simp: q_def pool_live_def nth_list_update)
    have same: "mb_ptr (pl_table q ! i) = mb_ptr (pl_table p ! i)"
      "mb_size (pl_table q ! i) = mb_size (pl_table p ! i)" for i
      using len b by (cases "i = b"; simp add: q_def)+
    have sizes: "pl_table_num q = pl_table_num p" "pl_memory_size q = pl_memory_size p"
      "pl_max_block_size q = pl_max_block_size p" "pl_memory q = pl_memory p"
      by (simp_all add: q_def)
    have "pool_frame q" using fr False len b by (auto simp: q_def pool_frame_def nth_list_update)
    moreover have "blocks_apart (pl_table q ! i) (pl_table q ! j) = blocks_apart (pl_table p ! i) (pl_table p ! j)"
      for i j by (simp add: blocks_apart_def same)
    ultimately have "pool_inv q"
      using inv by (simp add: pool_inv_def live same sizes)
    then show ?thesis using that [OF free _ live sizes(4) same sizes(1-3)] by blast
  qed
qed

text \<open>\<open>memcpy\<close> through \<open>block->memory_ptr + off\<close>, in both directions.\<close>

definition block_write :: "nat \<Rightarrow> nat \<Rightarrow> bytes \<Rightarrow> pool \<Rightarrow> pool option" where
  "block_write b off bs p = do {
     m \<leftarrow> at_opt (pl_table p) b;
     mem \<leftarrow> mem_write (pl_memory p) (mb_ptr m + off) bs;
     Some (p\<lparr>pl_memory := mem\<rparr>) }"

definition block_read :: "nat \<Rightarrow> nat \<Rightarrow> nat \<Rightarrow> pool \<Rightarrow> bytes option" where
  "block_read b off n p = do {
     m \<leftarrow> at_opt (pl_table p) b;
     mem_read (pl_memory p) (mb_ptr m + off) n }"

lemma length_block_bytes:
  assumes "pool_inv p" "pool_live p b"
  shows "length (block_bytes p b) = mb_size (pl_table p ! b)"
  using pool_invD(2) [OF assms] assms(1)
  by (simp add: block_bytes_def block_end_def pool_inv_def pool_frame_def)

lemma block_write_spec:
  assumes inv: "pool_inv p" and live: "pool_live p b" and fits: "off + length bs \<le> mb_size (pl_table p ! b)"
  obtains p' where "block_write b off bs p = Some p'" "pool_inv p'" "pl_table p' = pl_table p"
    "\<And>i. pool_live p' i \<longleftrightarrow> pool_live p i" "block_bytes p' b = splice (block_bytes p b) off bs"
    "\<And>i. pool_live p i \<Longrightarrow> i \<noteq> b \<Longrightarrow> block_bytes p' i = block_bytes p i"
    "pl_table_num p' = pl_table_num p" "pl_memory_size p' = pl_memory_size p"
    "pl_max_block_size p' = pl_max_block_size p"
proof -
  let ?a = "mb_ptr (pl_table p ! b)" and ?n = "mb_size (pl_table p ! b)"
  have len: "length (pl_memory p) = pl_memory_size p" "length (pl_table p) = pl_table_num p"
    using inv by (simp_all add: pool_inv_def pool_frame_def)
  have b: "b < length (pl_table p)" using live len unfolding pool_live_def by linarith
  have in_mem: "?a + ?n \<le> pl_memory_size p" using pool_invD(2) [OF inv live] by (simp add: block_end_def)
  define q where "q = p\<lparr>pl_memory := splice (pl_memory p) (?a + off) bs\<rparr>"
  have w: "block_write b off bs p = Some q"
    using b fits in_mem len by (simp add: block_write_def mem_write_def q_def)
  have same: "pl_table q = pl_table p" "pl_table_num q = pl_table_num p" "pl_memory_size q = pl_memory_size p"
    "pl_max_block_size q = pl_max_block_size p" by (simp_all add: q_def)
  have live': "pool_live q i \<longleftrightarrow> pool_live p i" for i by (simp add: pool_live_def same)
  have "length (pl_memory q) = length (pl_memory p)" using fits in_mem len by (simp add: q_def)
  then have inv': "pool_inv q" using inv by (simp add: pool_inv_def pool_frame_def live' same)
  have at_b: "block_bytes q b = splice (block_bytes p b) off bs"
  proof (rule nth_equalityI)
    show "length (block_bytes q b) = length (splice (block_bytes p b) off bs)"
      using length_block_bytes [OF inv live] length_block_bytes [OF inv'] live live' same fits by simp
    fix i
    assume "i < length (block_bytes q b)"
    then have "i < ?n" using length_block_bytes [OF inv'] live live' same by simp
    then show "block_bytes q b ! i = splice (block_bytes p b) off bs ! i"
      using fits in_mem len by (auto simp: block_bytes_def q_def nth_slice nth_splice add.commute)
  qed
  have other: "block_bytes q i = block_bytes p i" if i: "pool_live p i" "i \<noteq> b" for i
  proof -
    have "blocks_apart (pl_table p ! i) (pl_table p ! b)" using inv live i by (simp add: pool_inv_def)
    then show ?thesis
      using fits in_mem len pool_invD(2) [OF inv i(1)]
      by (auto simp: block_bytes_def q_def blocks_apart_def block_end_def intro!: slice_splice_other)
  qed
  show ?thesis using that [OF w inv' same(1) live' at_b other same(2-4)] by blast
qed

lemma block_read_spec:
  assumes inv: "pool_inv p" and live: "pool_live p b" and fits: "off + n \<le> mb_size (pl_table p ! b)"
  shows "block_read b off n p = Some (slice (block_bytes p b) off n)"
proof -
  have len: "length (pl_memory p) = pl_memory_size p" "length (pl_table p) = pl_table_num p"
    using inv by (simp_all add: pool_inv_def pool_frame_def)
  have "b < length (pl_table p)" using live len unfolding pool_live_def by linarith
  moreover have in_mem: "mb_ptr (pl_table p ! b) + mb_size (pl_table p ! b) \<le> pl_memory_size p"
    using pool_invD(2) [OF inv live] by (simp add: block_end_def)
  moreover have "slice (pl_memory p) (mb_ptr (pl_table p ! b) + off) n = slice (block_bytes p b) off n"
    using fits in_mem len length_block_bytes [OF inv live]
    by (intro nth_equalityI) (auto simp: block_bytes_def nth_slice add.assoc)
  ultimately show ?thesis using fits len by (simp add: block_read_def mem_read_def)
qed

subsection \<open>The interface the clients rely on\<close>

datatype block_op = BAlloc nat | BFree nat | BWrite nat nat bytes

fun store_step :: "(nat \<Rightarrow> 's \<Rightarrow> (nat option \<times> 's) option) \<Rightarrow> (nat \<Rightarrow> 's \<Rightarrow> 's option) \<Rightarrow>
    (nat \<Rightarrow> nat \<Rightarrow> bytes \<Rightarrow> 's \<Rightarrow> 's option) \<Rightarrow> block_op \<Rightarrow> 's \<Rightarrow> 's option" where
  "store_step al re wr (BAlloc n) s = map_option snd (al n s)"
| "store_step al re wr (BFree b) s = re b s"
| "store_step al re wr (BWrite b off bs) s = wr b off bs s"

fun store_run :: "('a \<Rightarrow> 's \<Rightarrow> 's option) \<Rightarrow> 'a list \<Rightarrow> 's \<Rightarrow> 's option" where
  "store_run st [] s = Some s"
| "store_run st (a # as) s = (case st a s of None \<Rightarrow> None | Some s' \<Rightarrow> store_run st as s')"

text \<open>What a client has to respect: it frees and writes its own blocks only, inside their size.\<close>

fun op_legal :: "('s \<Rightarrow> nat \<Rightarrow> bool) \<Rightarrow> ('s \<Rightarrow> nat \<Rightarrow> nat) \<Rightarrow> block_op \<Rightarrow> 's \<Rightarrow> bool" where
  "op_legal live sz (BAlloc n) s = (0 < n)"
| "op_legal live sz (BFree b) s = live s b"
| "op_legal live sz (BWrite b off bs) s = (live s b \<and> off + length bs \<le> sz s b)"

fun run_legal :: "('a \<Rightarrow> 's \<Rightarrow> bool) \<Rightarrow> ('a \<Rightarrow> 's \<Rightarrow> 's option) \<Rightarrow> 'a list \<Rightarrow> 's \<Rightarrow> bool" where
  "run_legal ok st [] s = True"
| "run_legal ok st (a # as) s =
     (ok a s \<and> (case st a s of None \<Rightarrow> True | Some s' \<Rightarrow> run_legal ok st as s'))"

fun op_touches :: "nat \<Rightarrow> block_op \<Rightarrow> bool" where
  "op_touches b (BAlloc n) = False"
| "op_touches b (BFree c) = (c = b)"
| "op_touches b (BWrite c off bs) = (c = b)"

locale block_store =
  fixes al :: "nat \<Rightarrow> 's \<Rightarrow> (nat option \<times> 's) option"
    and re :: "nat \<Rightarrow> 's \<Rightarrow> 's option"
    and wr :: "nat \<Rightarrow> nat \<Rightarrow> bytes \<Rightarrow> 's \<Rightarrow> 's option"
    and good :: "'s \<Rightarrow> bool"
    and live :: "'s \<Rightarrow> nat \<Rightarrow> bool"
    and blen :: "'s \<Rightarrow> nat \<Rightarrow> nat"
    and content :: "'s \<Rightarrow> nat \<Rightarrow> bytes"
  assumes alloc_law: "good s \<Longrightarrow> 0 < n \<Longrightarrow> \<exists>r s'. al n s = Some (r, s') \<and> good s' \<and>
      (\<forall>i. live s' i \<longleftrightarrow> live s i \<or> r = Some i) \<and> (\<forall>i. live s i \<longrightarrow> content s' i = content s i) \<and>
      (\<forall>b. r = Some b \<longrightarrow> \<not> live s b \<and> blen s' b = n)"
    and release_law: "good s \<Longrightarrow> live s b \<Longrightarrow> \<exists>s'. re b s = Some s' \<and> good s' \<and>
      (\<forall>i. live s' i \<longleftrightarrow> live s i \<and> i \<noteq> b) \<and> (\<forall>i. live s i \<longrightarrow> i \<noteq> b \<longrightarrow> content s' i = content s i)"
    and write_law: "good s \<Longrightarrow> live s b \<Longrightarrow> off + length bs \<le> blen s b \<Longrightarrow> \<exists>s'. wr b off bs s = Some s' \<and>
      good s' \<and> (\<forall>i. live s' i \<longleftrightarrow> live s i) \<and> content s' b = splice (content s b) off bs \<and>
      (\<forall>i. live s i \<longrightarrow> i \<noteq> b \<longrightarrow> content s' i = content s i)"
begin

abbreviation step :: "block_op \<Rightarrow> 's \<Rightarrow> 's option" where "step \<equiv> store_step al re wr"

lemma step_ok:
  assumes "good s" "op_legal live blen a s"
  shows "\<exists>s'. step a s = Some s' \<and> good s' \<and>
    (\<forall>b. live s b \<longrightarrow> \<not> op_touches b a \<longrightarrow> live s' b \<and> content s' b = content s b)"
proof (cases a)
  case (BAlloc n)
  then show ?thesis using alloc_law [of s n] assms by fastforce
next
  case (BFree b)
  then show ?thesis using release_law [of s b] assms by fastforce
next
  case (BWrite b off bs)
  then show ?thesis using write_law [of s b off bs] assms by fastforce
qed

lemma run_keeps:
  assumes "good s" "run_legal (op_legal live blen) step ops s" "live s b" "\<forall>a\<in>set ops. \<not> op_touches b a"
  shows "\<exists>s'. store_run step ops s = Some s' \<and> good s' \<and> live s' b \<and> content s' b = content s b"
  using assms
proof (induction ops arbitrary: s)
  case (Cons a ops)
  then obtain s1 where s1: "step a s = Some s1" "good s1"
    "\<forall>b. live s b \<longrightarrow> \<not> op_touches b a \<longrightarrow> live s1 b \<and> content s1 b = content s b"
    using step_ok [of s a] by auto
  then have "run_legal (op_legal live blen) step ops s1" "live s1 b" "content s1 b = content s b"
    using Cons.prems by auto
  with Cons.IH [OF s1(2)] Cons.prems(4) s1(1) show ?case by auto
qed simp

end

abbreviation pool_step :: "block_op \<Rightarrow> pool \<Rightarrow> pool option" where
  "pool_step \<equiv> store_step alloc_memory (\<lambda>b. free_memory (Some b)) block_write"

abbreviation block_len :: "pool \<Rightarrow> nat \<Rightarrow> nat" where
  "block_len p b \<equiv> mb_size (pl_table p ! b)"

lemma pool_live_bound: "pool_live p b \<Longrightarrow> b < pl_table_num p"
  unfolding pool_live_def by linarith

interpretation pool_store: block_store alloc_memory "\<lambda>b. free_memory (Some b)" block_write
  pool_inv pool_live block_len block_bytes
proof (unfold_locales, goal_cases)
  case (1 s n)
  then obtain r s' where r: "alloc_memory n s = Some (r, s')" "alloc_result s n r s'"
    using alloc_memory_result by blast
  then show ?case
    by (cases r) (auto simp: alloc_result_def pool_keeps_def)
next
  case (2 s b)
  then obtain s' where "free_memory (Some b) s = Some s'" "pool_inv s'" "pl_memory s' = pl_memory s"
    "\<And>i. pool_live s' i \<longleftrightarrow> pool_live s i \<and> i \<noteq> b" 
    "\<And>i. mb_ptr (pl_table s' ! i) = mb_ptr (pl_table s ! i)"
    "\<And>i. mb_size (pl_table s' ! i) = mb_size (pl_table s ! i)"
    using free_memory_spec [OF _ pool_live_bound] by metis
  then show ?case by (simp add: block_bytes_def)
next
  case (3 s b off bs)
  then show ?case using block_write_spec [of s b off bs] by metis
qed

subsection \<open>Properties\<close>

text \<open>C6. In a consistent pool \<open>AllocMemory\<close> never faults and succeeds exactly if the request is
  within the block limit, the free bytes suffice in total and a table entry is free. It keeps the
  pool consistent and the size and contents of every block in use, also when it has to move them;
  on success the returned entry was free and now is a block of the requested size that overlaps no
  other (part of \<open>pool_inv\<close>); on failure no block is added or lost.\<close>

theorem alloc_memory_correct:
  assumes "pool_inv p" "0 < n"
  shows "\<exists>r p'. alloc_memory n p = Some (r, p') \<and> pool_inv p' \<and>
    (r \<noteq> None \<longleftrightarrow> n \<le> pl_max_block_size p \<and> used_size (pl_table p) + n \<le> pl_memory_size p \<and>
       (\<exists>i. 0 < i \<and> i < pl_table_num p - 1 \<and> \<not> mb_usage (pl_table p ! i))) \<and>
    (\<forall>i. pool_live p i \<longrightarrow> mb_size (pl_table p' ! i) = mb_size (pl_table p ! i) \<and>
       block_bytes p' i = block_bytes p i) \<and>
    (case r of
       None \<Rightarrow> \<forall>i. pool_live p' i \<longleftrightarrow> pool_live p i
     | Some b \<Rightarrow> \<not> pool_live p b \<and> mb_size (pl_table p' ! b) = n \<and>
         (\<forall>i. pool_live p' i \<longleftrightarrow> pool_live p i \<or> i = b))"
proof -
  obtain r p' where "alloc_memory n p = Some (r, p')" "alloc_result p n r p'" "r \<noteq> None \<longleftrightarrow> alloc_fits p n"
    using alloc_memory_result [OF assms] by blast
  moreover have "free_slot p \<noteq> None \<longleftrightarrow> (\<exists>i. 0 < i \<and> i < pl_table_num p - 1 \<and> \<not> mb_usage (pl_table p ! i))"
    unfolding free_slot_None by blast
  ultimately show ?thesis
    by (intro exI [of _ r] exI [of _ p']) (simp add: alloc_result_def alloc_fits_def pool_keeps_def)
qed

text \<open>A pool with a block in use at 2..3 and one at 6: of its five free bytes no three are
  contiguous, so a request for three makes it move the second block.\<close>

definition fragmented_pool :: pool where
  "fragmented_pool =
     \<lparr>pl_table_num = 5, pl_memory_size = 8, pl_max_block_size = 8,
      pl_table = [\<lparr>mb_usage = True, mb_index = 0, mb_size = 0, mb_ptr = 0\<rparr>,
        \<lparr>mb_usage = True, mb_index = 1, mb_size = 2, mb_ptr = 2\<rparr>,
        \<lparr>mb_usage = False, mb_index = 2, mb_size = 9, mb_ptr = 9\<rparr>,
        \<lparr>mb_usage = True, mb_index = 3, mb_size = 1, mb_ptr = 6\<rparr>,
        \<lparr>mb_usage = True, mb_index = 4, mb_size = 0, mb_ptr = 8\<rparr>],
      pl_memory = [0, 0, 11, 12, 0, 0, 13, 0]\<rparr>"

lemma pool_live_in_table: "pool_live p i \<Longrightarrow> i \<in> set [1..<pl_table_num p - 1]"
  by (simp add: pool_live_def)

lemma all_upt_expand: "(\<forall>i < n. P i) \<longleftrightarrow> (\<forall>i \<in> set [0..<n]. P i)"
  by auto

lemma fragmented_pool_inv: "pool_inv fragmented_pool"
proof -
  have live: "pool_live fragmented_pool i \<longleftrightarrow> i = 1 \<or> i = 3" for i
    using pool_live_in_table [of fragmented_pool i]
    by (auto simp: fragmented_pool_def pool_live_def upt_rec)
  have "pool_frame fragmented_pool"
    by (simp add: pool_frame_def all_upt_expand fragmented_pool_def upt_rec)
  then show ?thesis
    unfolding pool_inv_def live by (auto simp: fragmented_pool_def blocks_apart_def)
qed

lemma alloc_in_fragmented_pool:
  "alloc_memory 3 fragmented_pool = Some (Some 2, fragmented_pool
     \<lparr>pl_memory := [11, 12, 11, 12, 0, 0, 13, 0],
      pl_table := [\<lparr>mb_usage = True, mb_index = 0, mb_size = 0, mb_ptr = 0\<rparr>,
        \<lparr>mb_usage = True, mb_index = 1, mb_size = 2, mb_ptr = 0\<rparr>,
        \<lparr>mb_usage = True, mb_index = 2, mb_size = 3, mb_ptr = 2\<rparr>,
        \<lparr>mb_usage = True, mb_index = 3, mb_size = 1, mb_ptr = 6\<rparr>,
        \<lparr>mb_usage = True, mb_index = 4, mb_size = 0, mb_ptr = 8\<rparr>]\<rparr>)"
proof -
  let ?t = "pl_table fragmented_pool" and ?us = "[0, 1, 3, 4]"
  have used: "used_size ?t = 3" "bubble_sort ?t (used_index ?t) = ?us" by code_simp+
  have gaps: "left_size ?t ?us 0 = 2" "left_size ?t ?us 1 = 2" "left_size ?t ?us (Suc (Suc 0)) = 1"
    by (simp_all add: left_size_def fragmented_pool_def sub32_def)
  have "[0..<length ?us - 1] = [0, 1, 2]" by (simp add: upt_rec)
  then have "scan_blocks ?t ?us 3 = \<lparr>sc_area0 = NO_AREA, sc_area1 = NO_AREA, sc_accumulated = 5,
      sc_j = 1, sc_found = True\<rparr>"
    using gaps by (simp add: scan_blocks_def scan_step_def)
  moreover have "(case compress ?us 1 fragmented_pool of None \<Rightarrow> None
      | Some q \<Rightarrow> Some (place_after (?us ! 1) 3 q)) = Some (Some 2, fragmented_pool
     \<lparr>pl_memory := [11, 12, 11, 12, 0, 0, 13, 0],
      pl_table := [\<lparr>mb_usage = True, mb_index = 0, mb_size = 0, mb_ptr = 0\<rparr>,
        \<lparr>mb_usage = True, mb_index = 1, mb_size = 2, mb_ptr = 0\<rparr>,
        \<lparr>mb_usage = True, mb_index = 2, mb_size = 3, mb_ptr = 2\<rparr>,
        \<lparr>mb_usage = True, mb_index = 3, mb_size = 1, mb_ptr = 6\<rparr>,
        \<lparr>mb_usage = True, mb_index = 4, mb_size = 0, mb_ptr = 8\<rparr>]\<rparr>)"
    by code_simp
  moreover have "pl_table_num fragmented_pool = 5" "pl_memory_size fragmented_pool = 8"
    "pl_max_block_size fragmented_pool = 8" by (simp_all add: fragmented_pool_def)
  ultimately show ?thesis
    by (auto simp: alloc_memory_def used Let_def bind_eq_Some_conv split: option.splits)
qed

theorem alloc_memory_correct_witness:
  "\<exists>p'. alloc_memory 3 fragmented_pool = Some (Some 2, p') \<and> pool_inv p' \<and> block_bytes p' 3 = [13] \<and>
    pool_live p' 2"
proof -
  have "pool_live fragmented_pool 3" "block_bytes fragmented_pool 3 = [13]" by code_simp+
  then show ?thesis
    using alloc_memory_correct [OF fragmented_pool_inv, of 3] alloc_in_fragmented_pool by fastforce
qed

text \<open>C7. The pool as its clients use it: along every sequence of allocations, releases and writes
  in which the client only frees and writes blocks it holds, inside their size, no operation faults,
  the pool stays consistent, and a block that the sequence neither frees nor writes keeps its
  contents, however often compaction moves it.\<close>

theorem pool_blocks_survive:
  assumes "pool_inv p" "run_legal (op_legal pool_live (\<lambda>p b. mb_size (pl_table p ! b)))
      (store_step alloc_memory (\<lambda>b. free_memory (Some b)) block_write) ops p"
    "pool_live p b" "\<forall>a\<in>set ops. \<not> op_touches b a"
  shows "\<exists>p'. store_run (store_step alloc_memory (\<lambda>b. free_memory (Some b)) block_write) ops p = Some p' \<and>
    pool_inv p' \<and> pool_live p' b \<and> block_bytes p' b = block_bytes p b"
  using pool_store.run_keeps [OF assms] .

theorem pool_blocks_survive_witness:
  "\<exists>p'. store_run (store_step alloc_memory (\<lambda>b. free_memory (Some b)) block_write)
      [BAlloc 3, BWrite 2 0 [1, 2, 3], BFree 1] fragmented_pool = Some p' \<and> block_bytes p' 3 = [13]"
proof -
  have "run_legal (op_legal pool_live (\<lambda>p b. mb_size (pl_table p ! b)))
      (store_step alloc_memory (\<lambda>b. free_memory (Some b)) block_write)
      [BAlloc 3, BWrite 2 0 [1, 2, 3], BFree 1] fragmented_pool"
    by (simp add: alloc_in_fragmented_pool) code_simp
  moreover have "pool_live fragmented_pool 3" "block_bytes fragmented_pool 3 = [13]" by code_simp+
  ultimately show ?thesis
    using pool_blocks_survive [OF fragmented_pool_inv,
        of "[BAlloc 3, BWrite 2 0 [1, 2, 3], BFree 1]" 3] by auto
qed

end
