(* ===== verification/ProtocolState.thy ===== *)
theory ProtocolState
  imports Packet CircularBuffer MemoryPool
begin

text \<open>
  The state of the class \<open>Protocol\<close> (\<open>protocol/protocol.h\<close>) and its session management
  (\<open>SetupSession\<close>, \<open>AllocCMDSession\<close>, \<open>FreeCMDSession\<close>, \<open>AllocACKSession\<close>, \<open>FreeACKSession\<close>).

  A \<open>CMDSession *\<close> is an index into the command session table, an \<open>ACKSession *\<close> a pair of
  indices into the two-dimensional ack session table, a \<open>MemoryBlock *\<close> an index into the
  pool's table. \<open>pr_sent\<close> records what was handed to the serial device, in order.
\<close>

subsection \<open>State\<close>

record proto =
  pr_pool :: pool
  pr_seq_num :: u16
  pr_poll_tick :: int
  pr_cmd_table :: "cmd_session list"
  pr_ack_table :: "ack_session list list"
  pr_recv_buff :: bytes
  pr_read_pos :: nat
  pr_read_len :: nat
  pr_large_data :: bool
  pr_reuse_buffer :: bool
  pr_stream :: recv_stream
  pr_container :: recv_container
  pr_buffer_map :: "(u8 \<times> u8) \<Rightarrow> recv_container ring option"
  pr_sent :: "bytes list"

definition cmd_session_at :: "proto \<Rightarrow> nat \<Rightarrow> cmd_session" where
  "cmd_session_at p i = pr_cmd_table p ! i"

definition set_cmd_session :: "nat \<Rightarrow> cmd_session \<Rightarrow> proto \<Rightarrow> proto" where
  "set_cmd_session i s p = p\<lparr>pr_cmd_table := (pr_cmd_table p)[i := s]\<rparr>"

definition ack_session_at :: "proto \<Rightarrow> nat \<Rightarrow> nat \<Rightarrow> ack_session option" where
  "ack_session_at p r k = do { row \<leftarrow> at_opt (pr_ack_table p) r; at_opt row k }"

definition set_ack_session :: "nat \<Rightarrow> nat \<Rightarrow> ack_session \<Rightarrow> proto \<Rightarrow> proto option" where
  "set_ack_session r k s p = do {
     row \<leftarrow> at_opt (pr_ack_table p) r;
     row' \<leftarrow> set_opt row k s;
     Some (p\<lparr>pr_ack_table := (pr_ack_table p)[r := row']\<rparr>) }"

subsection \<open>Session management\<close>

text \<open>\<open>SetupSession\<close> leaves every other field of a command session as it is.\<close>

definition setup_session :: "proto \<Rightarrow> proto" where
  "setup_session p = p\<lparr>
     pr_cmd_table := map (\<lambda>i. (pr_cmd_table p ! i)
       \<lparr>cs_session_id := of_nat i, cs_usage_flag := False, cs_memory_block := None\<rparr>) [0..<SESSION_TABLE_NUM],
     pr_ack_table := map (\<lambda>i. map (\<lambda>j. \<lparr>as_session_id = of_nat (j + 1),
       as_session_status = ACK_SESSION_IDLE, as_memory_block = None\<rparr>) [0..<SESSION_TABLE_NUM - 1])
         [0..<RECEIVER_NUM]\<rparr>"

text \<open>The entry the search of \<open>AllocCMDSession\<close> stops at; \<open>None\<close> if the session is busy or all
  automatic sessions are.\<close>

definition pick_cmd_session :: "cmd_session_mode \<Rightarrow> proto \<Rightarrow> nat option" where
  "pick_cmd_session m p =
     (let free = (\<lambda>i. \<not> cs_usage_flag (cmd_session_at p i)) in
      case m of
        CMD_SESSION_AUTO \<Rightarrow> find free [2..<SESSION_TABLE_NUM]
      | _ \<Rightarrow> if free (cmd_session_mode_value m) then Some (cmd_session_mode_value m) else None)"

definition alloc_cmd_session :: "cmd_session_mode \<Rightarrow> u16 \<Rightarrow> proto \<Rightarrow> (nat option \<times> proto) option" where
  "alloc_cmd_session m sz p =
     (case pick_cmd_session m p of
        None \<Rightarrow> Some (None, p)
      | Some i \<Rightarrow> do {
          (r, pool') \<leftarrow> alloc_memory (unat sz) (pr_pool p);
          let p1 = p\<lparr>pr_pool := pool'\<rparr>;
          Some (case r of
              None \<Rightarrow> (None, set_cmd_session i ((cmd_session_at p i)\<lparr>cs_usage_flag := False\<rparr>) p1)
            | Some b \<Rightarrow> (Some i, set_cmd_session i
                ((cmd_session_at p i)\<lparr>cs_usage_flag := True, cs_memory_block := Some b\<rparr>) p1))
        })"

definition free_cmd_session :: "nat \<Rightarrow> proto \<Rightarrow> proto option" where
  "free_cmd_session i p =
     (let s = cmd_session_at p i in
      if cs_usage_flag s then do {
        pool' \<leftarrow> free_memory (cs_memory_block s) (pr_pool p);
        Some (set_cmd_session i (s\<lparr>cs_usage_flag := False\<rparr>) (p\<lparr>pr_pool := pool'\<rparr>))
      } else Some p)"

definition free_ack_session :: "nat \<Rightarrow> nat \<Rightarrow> proto \<Rightarrow> proto option" where
  "free_ack_session r k p = do {
     s \<leftarrow> ack_session_at p r k;
     pool' \<leftarrow> free_memory (as_memory_block s) (pr_pool p);
     Some (p\<lparr>pr_pool := pool'\<rparr>) }"

text \<open>The result is the second index of the session in the row of the receiver.\<close>

definition alloc_ack_session :: "u8 \<Rightarrow> u16 \<Rightarrow> u16 \<Rightarrow> proto \<Rightarrow> (nat option \<times> proto) option" where
  "alloc_ack_session receiver session_id sz p =
     (if session_id > 0 \<and> session_id < 32 then
        (let r = unat receiver; k = unat session_id - 1 in do {
          s \<leftarrow> ack_session_at p r k;
          p1 \<leftarrow> (if as_memory_block s \<noteq> None then free_ack_session r k p else Some p);
          (b, pool') \<leftarrow> alloc_memory (unat sz) (pr_pool p1);
          let p2 = p1\<lparr>pr_pool := pool'\<rparr>;
          case b of
            None \<Rightarrow> Some (None, p2)
          | Some _ \<Rightarrow> do {
              p3 \<leftarrow> set_ack_session r k (s\<lparr>as_memory_block := b\<rparr>) p2;
              Some (Some k, p3) }
        })
      else Some (None, p))"

subsection \<open>Initialisation\<close>

text \<open>\<open>Init\<close> on a constructed object whose uninitialised fields are those of \<open>p\<close>; the arguments
  are what \<open>new\<close> returns. The two threads it starts are the loops of the other theories.\<close>

definition protocol_init :: "memory_block list \<Rightarrow> bytes \<Rightarrow> bytes \<Rightarrow> bytes \<Rightarrow> recv_container \<Rightarrow> proto \<Rightarrow> proto" where
  "protocol_init raw_table raw_memory raw_buff raw_stream container p =
     setup_session (p\<lparr>pr_seq_num := 0, pr_poll_tick := 10, pr_large_data := True, pr_reuse_buffer := True,
       pr_pool := pool_init raw_table raw_memory MAX_PACK_SIZE BUFFER_SIZE SESSION_TABLE_NUM,
       pr_recv_buff := raw_buff,
       pr_stream := \<lparr>rs_reuse_index = 0, rs_reuse_count = 0, rs_recv_index = 0, rs_recv_buff = raw_stream\<rparr>,
       pr_container := container,
       pr_buffer_map := (\<lambda>_. None)\<rparr>)"

subsection \<open>Ownership of the memory blocks\<close>

datatype owner = OCmd nat | OAck nat nat

definition owned :: "proto \<Rightarrow> owner \<Rightarrow> nat option" where
  "owned p ow = (case ow of
     OCmd i \<Rightarrow> if i < SESSION_TABLE_NUM \<and> cs_usage_flag (cmd_session_at p i)
       then cs_memory_block (cmd_session_at p i) else None
   | OAck r k \<Rightarrow> (case ack_session_at p r k of None \<Rightarrow> None | Some s \<Rightarrow> as_memory_block s))"

definition tables_shaped :: "proto \<Rightarrow> bool" where
  "tables_shaped p \<longleftrightarrow>
     length (pr_cmd_table p) = SESSION_TABLE_NUM \<and>
     (\<forall>i < SESSION_TABLE_NUM. cs_session_id (cmd_session_at p i) = of_nat i) \<and>
     length (pr_ack_table p) = RECEIVER_NUM \<and>
     (\<forall>row \<in> set (pr_ack_table p). length row = SESSION_TABLE_NUM - 1) \<and>
     (\<forall>r k s. ack_session_at p r k = Some s \<longrightarrow> as_session_id s = of_nat (k + 1))"

text \<open>Every session in use holds a block of the pool, and no two sessions hold the same one.\<close>

definition sessions_inv :: "proto \<Rightarrow> bool" where
  "sessions_inv p \<longleftrightarrow> pool_inv (pr_pool p) \<and> tables_shaped p \<and>
     pl_table_num (pr_pool p) = SESSION_TABLE_NUM \<and> pl_memory_size (pr_pool p) = BUFFER_SIZE \<and>
     pl_max_block_size (pr_pool p) = MAX_PACK_SIZE \<and>
     (\<forall>i < SESSION_TABLE_NUM. cs_usage_flag (cmd_session_at p i) \<longrightarrow>
        cs_memory_block (cmd_session_at p i) \<noteq> None) \<and>
     (\<forall>ow b. owned p ow = Some b \<longrightarrow> pool_live (pr_pool p) b) \<and>
     (\<forall>ow ow' b. owned p ow = Some b \<longrightarrow> owned p ow' = Some b \<longrightarrow> ow = ow')"

lemma cmd_session_at_update [simp]:
  "i < length (pr_cmd_table p) \<Longrightarrow> cmd_session_at (set_cmd_session i s p) j =
    (if j = i then s else cmd_session_at p j)"
  by (simp add: cmd_session_at_def set_cmd_session_def)

lemma set_cmd_session_simps [simp]:
  "pr_pool (set_cmd_session i s p) = pr_pool p" "pr_seq_num (set_cmd_session i s p) = pr_seq_num p"
  "pr_ack_table (set_cmd_session i s p) = pr_ack_table p" "pr_sent (set_cmd_session i s p) = pr_sent p"
  "pr_stream (set_cmd_session i s p) = pr_stream p" "pr_container (set_cmd_session i s p) = pr_container p"
  "pr_poll_tick (set_cmd_session i s p) = pr_poll_tick p"
  "pr_buffer_map (set_cmd_session i s p) = pr_buffer_map p"
  "pr_recv_buff (set_cmd_session i s p) = pr_recv_buff p" "pr_read_pos (set_cmd_session i s p) = pr_read_pos p"
  "pr_read_len (set_cmd_session i s p) = pr_read_len p" "pr_large_data (set_cmd_session i s p) = pr_large_data p"
  "pr_reuse_buffer (set_cmd_session i s p) = pr_reuse_buffer p"
  "length (pr_cmd_table (set_cmd_session i s p)) = length (pr_cmd_table p)"
  by (simp_all add: set_cmd_session_def)

lemma ack_session_at_cong: "pr_ack_table p = pr_ack_table q \<Longrightarrow> ack_session_at p = ack_session_at q"
  by (simp add: fun_eq_iff ack_session_at_def)

lemma cmd_session_at_cong: "pr_cmd_table p = pr_cmd_table q \<Longrightarrow> cmd_session_at p = cmd_session_at q"
  by (simp add: fun_eq_iff cmd_session_at_def)

lemma owned_cong:
  "pr_cmd_table p = pr_cmd_table q \<Longrightarrow> pr_ack_table p = pr_ack_table q \<Longrightarrow> owned p = owned q"
  using cmd_session_at_cong [of p q] ack_session_at_cong [of p q]
  by (intro ext) (simp add: owned_def split: owner.splits)

lemma tables_shaped_cong:
  "pr_cmd_table p = pr_cmd_table q \<Longrightarrow> pr_ack_table p = pr_ack_table q \<Longrightarrow> tables_shaped p = tables_shaped q"
  using cmd_session_at_cong [of p q] ack_session_at_cong [of p q] by (simp add: tables_shaped_def)

lemma sessions_inv_cong:
  assumes "pr_cmd_table p = pr_cmd_table q" "pr_ack_table p = pr_ack_table q" "pr_pool p = pr_pool q"
  shows "sessions_inv p = sessions_inv q"
  using assms cmd_session_at_cong [OF assms(1)] owned_cong [OF assms(1,2)] tables_shaped_cong [OF assms(1,2)]
  by (simp add: sessions_inv_def)

text \<open>The pool may change under the sessions as long as it keeps the blocks in use.\<close>

lemma sessions_inv_pool:
  assumes "sessions_inv p" "pool_inv q" "pool_keeps (pr_pool p) q"
  shows "sessions_inv (p\<lparr>pr_pool := q\<rparr>)"
proof -
  let ?p = "p\<lparr>pr_pool := q\<rparr>"
  have "owned ?p = owned p" "tables_shaped ?p = tables_shaped p" "cmd_session_at ?p = cmd_session_at p"
    by (rule owned_cong tables_shaped_cong cmd_session_at_cong; simp)+
  then show ?thesis using assms by (simp add: sessions_inv_def pool_keeps_def)
qed

lemma sessions_invD:
  assumes "sessions_inv p"
  shows "pool_inv (pr_pool p)" "length (pr_cmd_table p) = SESSION_TABLE_NUM" "tables_shaped p"
    "\<And>ow b. owned p ow = Some b \<Longrightarrow> pool_live (pr_pool p) b"
    "\<And>ow ow' b. owned p ow = Some b \<Longrightarrow> owned p ow' = Some b \<Longrightarrow> ow = ow'"
    "\<And>i. i < SESSION_TABLE_NUM \<Longrightarrow> cs_session_id (cmd_session_at p i) = of_nat i"
  using assms unfolding sessions_inv_def tables_shaped_def by blast+

lemma sessions_inv_block:
  assumes "sessions_inv p" "i < SESSION_TABLE_NUM" "cs_usage_flag (cmd_session_at p i)"
  obtains b where "cs_memory_block (cmd_session_at p i) = Some b" "owned p (OCmd i) = Some b"
    "pool_live (pr_pool p) b"
proof -
  obtain b where b: "cs_memory_block (cmd_session_at p i) = Some b"
    using assms by (auto simp: sessions_inv_def)
  then have "owned p (OCmd i) = Some b" using assms by (simp add: owned_def)
  then show ?thesis using that b sessions_invD(4) [OF assms(1)] by blast
qed

lemma tables_shaped_set_cmd:
  assumes "tables_shaped p" "i < SESSION_TABLE_NUM" "cs_session_id s = of_nat i"
  shows "tables_shaped (set_cmd_session i s p)"
  using assms ack_session_at_cong [of "set_cmd_session i s p" p] by (simp add: tables_shaped_def)

lemma owned_set_cmd:
  assumes "i < length (pr_cmd_table p)" "i < SESSION_TABLE_NUM"
  shows "owned (set_cmd_session i s p) ow =
    (if ow = OCmd i then (if cs_usage_flag s then cs_memory_block s else None) else owned p ow)"
  using assms ack_session_at_cong [of "set_cmd_session i s p" p]
  by (auto simp: owned_def split: owner.splits)

lemma pick_cmd_session_free:
  assumes "pick_cmd_session m p = Some i"
  shows "i < SESSION_TABLE_NUM" "\<not> cs_usage_flag (cmd_session_at p i)"
  using assms
  by (auto simp: pick_cmd_session_def Let_def SESSION_TABLE_NUM_def find_Some_iff
      split: cmd_session_mode.splits if_splits)

lemma alloc_cmd_session_cases:
  assumes inv: "sessions_inv p" and sz: "0 < sz"
  obtains (busy) q where "alloc_cmd_session m sz p = Some (None, p\<lparr>pr_pool := q\<rparr>)"
      "sessions_inv (p\<lparr>pr_pool := q\<rparr>)" "pool_keeps (pr_pool p) q" "\<And>i. pool_live q i \<longleftrightarrow> pool_live (pr_pool p) i"
      "pick_cmd_session m p = None \<or> \<not> alloc_fits (pr_pool p) (unat sz)"
  | (session) i b q where "pick_cmd_session m p = Some i" "alloc_fits (pr_pool p) (unat sz)"
      "alloc_cmd_session m sz p = Some (Some i, set_cmd_session i
        ((cmd_session_at p i)\<lparr>cs_usage_flag := True, cs_memory_block := Some b\<rparr>) (p\<lparr>pr_pool := q\<rparr>))"
      "alloc_result (pr_pool p) (unat sz) (Some b) q" "i < SESSION_TABLE_NUM"
      "\<not> cs_usage_flag (cmd_session_at p i)"
proof (cases "pick_cmd_session m p")
  case None
  then show ?thesis using busy [of "pr_pool p"] inv by (simp add: alloc_cmd_session_def)
next
  case (Some i)
  note i = pick_cmd_session_free [OF Some]
  have "0 < unat sz" using sz by (simp add: unat_gt_0 word_gt_0)
  then obtain r q where r: "alloc_memory (unat sz) (pr_pool p) = Some (r, q)"
    "alloc_result (pr_pool p) (unat sz) r q" "r \<noteq> None \<longleftrightarrow> alloc_fits (pr_pool p) (unat sz)"
    using alloc_memory_result [OF sessions_invD(1) [OF inv]] by blast
  show ?thesis
  proof (cases r)
    case None
    have "(cmd_session_at p i)\<lparr>cs_usage_flag := False\<rparr> = cmd_session_at p i" using i by simp
    then have "set_cmd_session i ((cmd_session_at p i)\<lparr>cs_usage_flag := False\<rparr>) (p\<lparr>pr_pool := q\<rparr>) = p\<lparr>pr_pool := q\<rparr>"
      by (simp add: set_cmd_session_def cmd_session_at_def)
    then have "alloc_cmd_session m sz p = Some (None, p\<lparr>pr_pool := q\<rparr>)"
      using Some r None by (simp add: alloc_cmd_session_def Let_def)
    moreover have "pool_inv q" "pool_keeps (pr_pool p) q" "\<And>i. pool_live q i \<longleftrightarrow> pool_live (pr_pool p) i"
      using r None by (auto simp: alloc_result_def)
    moreover have "\<not> alloc_fits (pr_pool p) (unat sz)" using r(3) None by blast
    ultimately show ?thesis using busy [of q] sessions_inv_pool [OF inv] by blast
  next
    case (Some b)
    then have "alloc_cmd_session m sz p = Some (Some i, set_cmd_session i
        ((cmd_session_at p i)\<lparr>cs_usage_flag := True, cs_memory_block := Some b\<rparr>) (p\<lparr>pr_pool := q\<rparr>))"
      using \<open>pick_cmd_session m p = Some i\<close> r by (simp add: alloc_cmd_session_def Let_def)
    then show ?thesis using session [of i b q] \<open>pick_cmd_session m p = Some i\<close> r Some i by blast
  qed
qed

lemma sessions_inv_take_block:
  assumes inv: "sessions_inv p" and res: "alloc_result (pr_pool p) n (Some b) q"
    and i: "i < SESSION_TABLE_NUM" and id: "cs_session_id s = of_nat i"
    and s: "cs_memory_block s = Some b"
  shows "sessions_inv (set_cmd_session i s (p\<lparr>pr_pool := q\<rparr>))" (is "sessions_inv ?p")
proof -
  let ?p1 = "p\<lparr>pr_pool := q\<rparr>"
  have q: "pool_inv q" "pool_keeps (pr_pool p) q" "\<not> pool_live (pr_pool p) b" "pool_live q b"
    using res by (auto simp: alloc_result_def)
  have inv1: "sessions_inv ?p1" using sessions_inv_pool [OF inv q(1,2)] .
  have len: "length (pr_cmd_table ?p1) = SESSION_TABLE_NUM" using sessions_invD(2) [OF inv1] .
  have fresh: "owned ?p1 ow \<noteq> Some b" for ow
    using sessions_invD(4) [OF inv, of ow b] q(3) owned_cong [of ?p1 p] by auto
  have own: "owned ?p ow = (if ow = OCmd i then (if cs_usage_flag s then Some b else None) else owned ?p1 ow)" for ow
    using owned_set_cmd [of i ?p1] i len s by simp
  show ?thesis
    unfolding sessions_inv_def
  proof (intro conjI allI impI)
    show "tables_shaped ?p" using tables_shaped_set_cmd [of ?p1 i s] sessions_invD(3) [OF inv1] i id by simp
  next
    fix ow c
    assume "owned ?p ow = Some c"
    then show "pool_live (pr_pool ?p) c"
      using own q(4) sessions_invD(4) [OF inv1] by (auto split: if_splits)
  next
    fix ow ow' c
    assume "owned ?p ow = Some c" "owned ?p ow' = Some c"
    then show "ow = ow'"
      using own fresh sessions_invD(5) [OF inv1] by (auto split: if_splits)
  qed (use inv1 s len i in \<open>auto simp: sessions_inv_def\<close>)
qed

lemma sessions_inv_release:
  assumes inv: "sessions_inv p" and i: "i < SESSION_TABLE_NUM" and used: "cs_usage_flag (cmd_session_at p i)"
    and s: "cs_session_id s = of_nat i" "\<not> cs_usage_flag s"
    and q: "pool_inv q" "\<And>k. pool_live q k \<longleftrightarrow> pool_live (pr_pool p) k \<and> Some k \<noteq> cs_memory_block (cmd_session_at p i)"
      "pl_table_num q = pl_table_num (pr_pool p)" "pl_memory_size q = pl_memory_size (pr_pool p)"
      "pl_max_block_size q = pl_max_block_size (pr_pool p)"
  shows "sessions_inv (set_cmd_session i s (p\<lparr>pr_pool := q\<rparr>))" (is "sessions_inv ?p")
proof -
  let ?p1 = "p\<lparr>pr_pool := q\<rparr>"
  have len: "length (pr_cmd_table ?p1) = SESSION_TABLE_NUM" using sessions_invD(2) [OF inv] by simp
  have own1: "owned ?p1 = owned p" by (rule owned_cong) simp_all
  have own: "owned ?p ow = (if ow = OCmd i then None else owned p ow)" for ow
    using owned_set_cmd [of i ?p1] i len s own1 by simp
  have mine: "owned p (OCmd i) = cs_memory_block (cmd_session_at p i)" using i used by (simp add: owned_def)
  show ?thesis
    unfolding sessions_inv_def
  proof (intro conjI allI impI)
    have "tables_shaped ?p1" using sessions_invD(3) [OF inv] tables_shaped_cong [of ?p1 p] by simp
    then show "tables_shaped ?p" using tables_shaped_set_cmd [of ?p1 i s] i s by simp
  next
    fix ow c
    assume c: "owned ?p ow = Some c"
    then have "ow \<noteq> OCmd i" "owned p ow = Some c" using own by (auto split: if_splits)
    moreover from this have "Some c \<noteq> cs_memory_block (cmd_session_at p i)"
      using sessions_invD(5) [OF inv, of ow c "OCmd i"] mine by auto
    ultimately show "pool_live (pr_pool ?p) c" using q(2) sessions_invD(4) [OF inv] by simp
  next
    fix ow ow' c
    assume "owned ?p ow = Some c" "owned ?p ow' = Some c"
    then show "ow = ow'" using own sessions_invD(5) [OF inv] by (auto split: if_splits)
  next
    fix k
    assume k: "k < SESSION_TABLE_NUM" "cs_usage_flag (cmd_session_at ?p k)"
    have "cmd_session_at ?p k = (if k = i then s else cmd_session_at p k)"
      using i len cmd_session_at_cong [of ?p1 p] by simp
    then show "cs_memory_block (cmd_session_at ?p k) \<noteq> None"
      using k s inv by (auto simp: sessions_inv_def split: if_splits)
  qed (use inv q in \<open>auto simp: sessions_inv_def\<close>)
qed

lemma free_cmd_session_spec:
  assumes inv: "sessions_inv p" and i: "i < SESSION_TABLE_NUM"
  obtains q where "free_cmd_session i p =
      Some (set_cmd_session i ((cmd_session_at p i)\<lparr>cs_usage_flag := False\<rparr>) (p\<lparr>pr_pool := q\<rparr>))"
    "sessions_inv (set_cmd_session i ((cmd_session_at p i)\<lparr>cs_usage_flag := False\<rparr>) (p\<lparr>pr_pool := q\<rparr>))"
    "pl_memory q = pl_memory (pr_pool p)"
    "\<And>k. pool_live (pr_pool p) k \<Longrightarrow> \<not> (cs_usage_flag (cmd_session_at p i) \<and> cs_memory_block (cmd_session_at p i) = Some k)
       \<Longrightarrow> pool_live q k \<and> block_bytes q k = block_bytes (pr_pool p) k"
    "\<And>k. pool_live q k \<Longrightarrow> pool_live (pr_pool p) k"
    "\<And>k. mb_ptr (pl_table q ! k) = mb_ptr (pl_table (pr_pool p) ! k)"
    "\<And>k. mb_size (pl_table q ! k) = mb_size (pl_table (pr_pool p) ! k)"
proof (cases "cs_usage_flag (cmd_session_at p i)")
  case False
  then have "(cmd_session_at p i)\<lparr>cs_usage_flag := False\<rparr> = cmd_session_at p i" by simp
  then have "set_cmd_session i ((cmd_session_at p i)\<lparr>cs_usage_flag := False\<rparr>) (p\<lparr>pr_pool := pr_pool p\<rparr>) = p"
    by (simp add: set_cmd_session_def cmd_session_at_def)
  then show ?thesis using that [of "pr_pool p"] inv False by (simp add: free_cmd_session_def)
next
  case True
  then obtain b where b: "cs_memory_block (cmd_session_at p i) = Some b" "pool_live (pr_pool p) b"
    using sessions_inv_block [OF inv i] by blast
  obtain q where q: "free_memory (Some b) (pr_pool p) = Some q" "pool_inv q"
    "\<And>k. pool_live q k \<longleftrightarrow> pool_live (pr_pool p) k \<and> k \<noteq> b" "pl_memory q = pl_memory (pr_pool p)"
    "\<And>k. mb_ptr (pl_table q ! k) = mb_ptr (pl_table (pr_pool p) ! k)"
    "\<And>k. mb_size (pl_table q ! k) = mb_size (pl_table (pr_pool p) ! k)"
    "pl_table_num q = pl_table_num (pr_pool p)" "pl_memory_size q = pl_memory_size (pr_pool p)"
    "pl_max_block_size q = pl_max_block_size (pr_pool p)"
    using free_memory_spec [OF sessions_invD(1) [OF inv] pool_live_bound [OF b(2)]] by metis
  have "free_cmd_session i p =
      Some (set_cmd_session i ((cmd_session_at p i)\<lparr>cs_usage_flag := False\<rparr>) (p\<lparr>pr_pool := q\<rparr>))"
    using True b q by (simp add: free_cmd_session_def Let_def)
  moreover have "sessions_inv (set_cmd_session i ((cmd_session_at p i)\<lparr>cs_usage_flag := False\<rparr>) (p\<lparr>pr_pool := q\<rparr>))"
    using q b sessions_invD(6) [OF inv i]
    by (intro sessions_inv_release [OF inv i True]) auto
  ultimately show ?thesis using that [of q] q b True by (auto simp: block_bytes_def)
qed


subsection \<open>Ack sessions\<close>

lemma ack_session_at_in_range:
  assumes "tables_shaped p"
  shows "(\<exists>s. ack_session_at p r k = Some s) \<longleftrightarrow> r < RECEIVER_NUM \<and> k < SESSION_TABLE_NUM - 1"
  using assms by (auto simp: ack_session_at_def tables_shaped_def bind_eq_Some_conv)

lemma set_ack_session_spec:
  assumes shaped: "tables_shaped p" and r: "r < RECEIVER_NUM" "k < SESSION_TABLE_NUM - 1"
    and id: "as_session_id s = of_nat (k + 1)"
  obtains p' where "set_ack_session r k s p = Some p'" "tables_shaped p'"
    "\<And>r' k'. ack_session_at p' r' k' = (if r' = r \<and> k' = k then Some s else ack_session_at p r' k')"
    "p' = p\<lparr>pr_ack_table := pr_ack_table p'\<rparr>"
proof -
  let ?row = "pr_ack_table p ! r"
  define p' where "p' = p\<lparr>pr_ack_table := (pr_ack_table p)[r := ?row[k := s]]\<rparr>"
  have len: "length (pr_ack_table p) = RECEIVER_NUM" using shaped by (simp add: tables_shaped_def)
  have row: "length ?row = SESSION_TABLE_NUM - 1"
    using shaped len r nth_mem [of r "pr_ack_table p"] by (simp add: tables_shaped_def)
  have set: "set_ack_session r k s p = Some p'" using len row r by (simp add: set_ack_session_def p'_def)
  have at: "ack_session_at p' r' k' = (if r' = r \<and> k' = k then Some s else ack_session_at p r' k')" for r' k'
    using len row r by (auto simp: ack_session_at_def p'_def at_opt_def nth_list_update)
  have "cmd_session_at p' = cmd_session_at p" by (rule cmd_session_at_cong) (simp add: p'_def)
  moreover have "\<forall>row \<in> set (pr_ack_table p'). length row = SESSION_TABLE_NUM - 1"
    using shaped row by (auto simp: p'_def tables_shaped_def dest!: subsetD [OF set_update_subset_insert])
  ultimately have "tables_shaped p'"
    using shaped len at id by (auto simp: tables_shaped_def p'_def split: if_splits)
  then show ?thesis using that [OF set _ at] by (simp add: p'_def)
qed

lemma set_ack_session_frame:
  assumes "set_ack_session r k s p = Some p'"
  shows "p' = p\<lparr>pr_ack_table := pr_ack_table p'\<rparr>"
    "\<exists>s0. ack_session_at p r k = Some s0"
    "ack_session_at p' r' k' = (if r' = r \<and> k' = k then Some s else ack_session_at p r' k')"
  using assms by (auto simp: set_ack_session_def ack_session_at_def bind_eq_Some_conv at_opt_def nth_list_update
      split: if_splits)

lemma sessions_inv_set_ack:
  assumes inv: "sessions_inv p" and set: "set_ack_session r k s p = Some p'"
    and id: "as_session_id s = of_nat (k + 1)"
    and b: "\<And>b. as_memory_block s = Some b \<Longrightarrow> pool_live (pr_pool p) b \<and>
       (\<forall>ow. owned p ow = Some b \<longrightarrow> ow = OAck r k)"
  shows "sessions_inv p'"
proof -
  have shaped: "tables_shaped p" using sessions_invD(3) [OF inv] .
  have rk: "r < RECEIVER_NUM" "k < SESSION_TABLE_NUM - 1"
    using ack_session_at_in_range [OF shaped] set_ack_session_frame(2) [OF set] by auto
  obtain p1 where p1: "set_ack_session r k s p = Some p1" "tables_shaped p1"
    "\<And>r' k'. ack_session_at p1 r' k' = (if r' = r \<and> k' = k then Some s else ack_session_at p r' k')"
    "p1 = p\<lparr>pr_ack_table := pr_ack_table p1\<rparr>"
    by (rule set_ack_session_spec [OF shaped rk id]) (rule that)
  have eq: "p1 = p'" using p1(1) set by simp
  have same: "pr_cmd_table p1 = pr_cmd_table p" "pr_pool p1 = pr_pool p"
    using arg_cong [OF p1(4), of pr_cmd_table] arg_cong [OF p1(4), of pr_pool] by simp_all
  have cmd: "cmd_session_at p1 = cmd_session_at p" by (rule cmd_session_at_cong) (rule same)
  have own: "owned p1 ow = (if ow = OAck r k then as_memory_block s else owned p ow)" for ow
    by (auto simp: owned_def p1(3) cmd split: owner.splits)
  show ?thesis
    unfolding sessions_inv_def eq [symmetric]
  proof (intro conjI allI impI)
    fix ow c
    assume "owned p1 ow = Some c"
    then show "pool_live (pr_pool p1) c"
      using own b sessions_invD(4) [OF inv] by (auto simp: same split: if_splits)
  next
    fix ow ow' c
    assume "owned p1 ow = Some c" "owned p1 ow' = Some c"
    then have h: "(if ow = OAck r k then as_memory_block s else owned p ow) = Some c"
      "(if ow' = OAck r k then as_memory_block s else owned p ow') = Some c" by (simp_all add: own)
    have only: "as_memory_block s = Some c \<Longrightarrow> owned p x = Some c \<Longrightarrow> x = OAck r k" for x using b by blast
    show "ow = ow'"
    proof (cases "ow = OAck r k")
      case True
      then show ?thesis using h only [of ow'] by (cases "ow' = OAck r k") simp_all
    next
      case False
      then have "owned p ow = Some c" using h(1) by simp
      then show ?thesis using False h(2) only [of ow] sessions_invD(5) [OF inv, of ow c ow']
        by (cases "ow' = OAck r k") simp_all
    qed
  qed (use inv p1(2) cmd in \<open>auto simp: sessions_inv_def same\<close>)
qed

text \<open>What a successful allocation of an ack session does: the session's old block is given back,
  a new one taken, and every other session keeps its block and its contents.\<close>

lemma alloc_ack_session_success:
  assumes inv: "sessions_inv p" and sz: "0 < sz" and res: "alloc_ack_session rc sid sz p = Some (Some k, p')"
  obtains b where "sessions_inv p'" "k = unat sid - 1" "0 < sid" "sid < 32" "unat rc < RECEIVER_NUM"
    "owned p' (OAck (unat rc) k) = Some b" "mb_size (pl_table (pr_pool p') ! b) = unat sz"
    "\<And>ow. ow \<noteq> OAck (unat rc) k \<Longrightarrow> owned p' ow = owned p ow"
    "\<And>ow c. ow \<noteq> OAck (unat rc) k \<Longrightarrow> owned p ow = Some c \<Longrightarrow> 
       block_bytes (pr_pool p') c = block_bytes (pr_pool p) c"
    "\<exists>q t. p' = p\<lparr>pr_pool := q, pr_ack_table := t\<rparr>"
    "\<And>s. ack_session_at p (unat rc) k = Some s \<Longrightarrow> 
       ack_session_at p' (unat rc) k = Some (s\<lparr>as_memory_block := Some b\<rparr>)"
proof -
  let ?r = "unat rc" and ?k = "unat sid - Suc 0"
  from res have sid: "0 < sid" "sid < 32"
    by (auto simp: alloc_ack_session_def split: if_splits)
  note unf = alloc_ack_session_def Let_def sid
  obtain s where s: "ack_session_at p ?r ?k = Some s"
    using res by (cases "ack_session_at p ?r ?k") (simp_all add: unf)
  let ?m = "if as_memory_block s \<noteq> None then free_ack_session ?r ?k p else Some p"
  obtain p1 where p1: "?m = Some p1"
    using res s by (cases ?m) (simp_all add: unf del: not_None_eq)
  obtain r q where rq: "alloc_memory (unat sz) (pr_pool p1) = Some (r, q)"
    using res s p1 by (cases "alloc_memory (unat sz) (pr_pool p1)") (auto simp add: unf simp del: not_None_eq)
  obtain b where b: "r = Some b"
    using res s p1 rq by (cases r) (simp_all add: unf del: not_None_eq)
  note q = rq [unfolded b]
  obtain p3 where p3: "set_ack_session ?r ?k (s\<lparr>as_memory_block := Some b\<rparr>) (p1\<lparr>pr_pool := q\<rparr>) = Some p3"
    using res s p1 q
    by (cases "set_ack_session ?r ?k (s\<lparr>as_memory_block := Some b\<rparr>) (p1\<lparr>pr_pool := q\<rparr>)")
      (simp_all add: unf del: not_None_eq)
  have k: "k = ?k" "p' = p3"
    using res s p1 q p3 by (simp_all add: unf del: not_None_eq)
  have shaped: "tables_shaped p" using sessions_invD(3) [OF inv] .
  have rk: "?r < RECEIVER_NUM" "?k < SESSION_TABLE_NUM - 1"
    using ack_session_at_in_range [OF shaped] s by auto
  have id: "as_session_id s = of_nat (?k + 1)" using shaped s unfolding tables_shaped_def by blast
  have mine: "owned p (OAck ?r ?k) = as_memory_block s" using s by (simp add: owned_def)
  \<comment> \<open>After the release the session holds nothing; \<open>p0\<close> is \<open>p1\<close> with the stale pointer cleared.\<close>
  obtain q1 where q1: "p1 = p\<lparr>pr_pool := q1\<rparr>" "pool_inv q1"
    "\<And>i. pool_live q1 i \<longleftrightarrow> pool_live (pr_pool p) i \<and> Some i \<noteq> as_memory_block s"
    "pl_table_num q1 = pl_table_num (pr_pool p)" "pl_memory_size q1 = pl_memory_size (pr_pool p)"
    "pl_max_block_size q1 = pl_max_block_size (pr_pool p)"
    "\<And>i. block_bytes q1 i = block_bytes (pr_pool p) i"
  proof (cases "as_memory_block s")
    case None
    then show ?thesis using that [of "pr_pool p"] p1 sessions_invD(1) [OF inv] by simp
  next
    case (Some c)
    then have "pool_live (pr_pool p) c" using mine sessions_invD(4) [OF inv] by simp
    then obtain q where "free_memory (Some c) (pr_pool p) = Some q" "pool_inv q"
      "\<And>i. pool_live q i \<longleftrightarrow> pool_live (pr_pool p) i \<and> i \<noteq> c" "pl_memory q = pl_memory (pr_pool p)"
      "\<And>i. mb_ptr (pl_table q ! i) = mb_ptr (pl_table (pr_pool p) ! i)"
      "\<And>i. mb_size (pl_table q ! i) = mb_size (pl_table (pr_pool p) ! i)"
      "pl_table_num q = pl_table_num (pr_pool p)" "pl_memory_size q = pl_memory_size (pr_pool p)"
      "pl_max_block_size q = pl_max_block_size (pr_pool p)"
      using free_memory_spec [OF sessions_invD(1) [OF inv] pool_live_bound] by metis
    then show ?thesis using that [of q] p1 Some s by (simp add: free_ack_session_def block_bytes_def)
  qed
  have "0 < unat sz" using sz by (simp add: unat_gt_0 word_gt_0)
  then have ar: "alloc_result q1 (unat sz) (Some b) q"
    using alloc_memory_result [OF q1(2), of "unat sz"] q q1(1) by auto
  have keeps: "pool_inv q" "pool_live q b" "\<not> pool_live q1 b" "mb_size (pl_table q ! b) = unat sz"
    "\<And>i. pool_live q1 i \<Longrightarrow> pool_live q i \<and> block_bytes q i = block_bytes q1 i"
    "pl_table_num q = pl_table_num q1" "pl_memory_size q = pl_memory_size q1"
    "pl_max_block_size q = pl_max_block_size q1"
    using ar by (auto simp: alloc_result_def pool_keeps_def)
  let ?p2 = "p1\<lparr>pr_pool := q\<rparr>"
  have shaped2: "tables_shaped ?p2" using shaped tables_shaped_cong [of ?p2 p] q1(1) by simp
  have id': "as_session_id (s\<lparr>as_memory_block := Some b\<rparr>) = of_nat (?k + 1)" using id by simp
  obtain p4 where p4: "set_ack_session ?r ?k (s\<lparr>as_memory_block := Some b\<rparr>) ?p2 = Some p4" "tables_shaped p4"
    "\<And>r' k'. ack_session_at p4 r' k' = (if r' = ?r \<and> k' = ?k then Some (s\<lparr>as_memory_block := Some b\<rparr>)
        else ack_session_at ?p2 r' k')" "p4 = ?p2\<lparr>pr_ack_table := pr_ack_table p4\<rparr>"
    by (rule set_ack_session_spec [OF shaped2 rk id']) (rule that)
  have p': "p' = p4" using p4(1) p3 k by simp
  have p'_eq: "p' = p\<lparr>pr_pool := q, pr_ack_table := pr_ack_table p'\<rparr>"
    unfolding p' by (subst p4(4)) (simp add: q1(1))
  have pool: "pr_pool p' = q" and cmdt: "pr_cmd_table p' = pr_cmd_table p"
    using arg_cong [OF p'_eq, of pr_pool] arg_cong [OF p'_eq, of pr_cmd_table] by simp_all
  have at2: "ack_session_at ?p2 = ack_session_at p" by (rule ack_session_at_cong) (simp add: q1(1))
  have cmd: "cmd_session_at p' = cmd_session_at p" by (rule cmd_session_at_cong) (rule cmdt)
  have own: "owned p' ow = (if ow = OAck ?r ?k then Some b else owned p ow)" for ow
    using p4(3) by (auto simp: owned_def p' at2 cmd [unfolded p'] split: owner.splits)
  have kept: "c \<noteq> b \<and> pool_live q c \<and> block_bytes q c = block_bytes (pr_pool p) c"
    if "ow \<noteq> OAck ?r ?k" "owned p ow = Some c" for ow c
  proof -
    have "pool_live (pr_pool p) c" using sessions_invD(4) [OF inv that(2)] .
    moreover have "Some c \<noteq> as_memory_block s" using sessions_invD(5) [OF inv that(2)] mine that(1) by metis
    ultimately have "pool_live q1 c" using q1(3) by simp
    then show ?thesis using keeps(3,5) q1(7) by metis
  qed
  have "sessions_inv p'"
    unfolding sessions_inv_def pool
  proof (intro conjI allI impI)
    fix ow c
    assume "owned p' ow = Some c"
    then show "pool_live q c" using own kept keeps(2) by (auto split: if_splits)
  next
    fix ow ow' c
    assume "owned p' ow = Some c" "owned p' ow' = Some c"
    then show "ow = ow'" using own kept sessions_invD(5) [OF inv] by (auto split: if_splits)
  qed (use keeps q1(4-6) inv p4(2) p' cmd in \<open>auto simp: sessions_inv_def\<close>)
  show ?thesis
  proof (rule that [of b])
    show "\<exists>q t. p' = p\<lparr>pr_pool := q, pr_ack_table := t\<rparr>" using p'_eq by (intro exI)
    show "sessions_inv p'" by fact
  qed (use k(1) sid rk(1) own keeps(4) kept pool p4(3) p' s in auto)
qed

subsection \<open>The initial state\<close>

lemma find_None_upt [simp]: "find P [] = None" by simp

lemma ack_rows_of_setup:
  "ack_session_at (setup_session p) r k =
    (if r < RECEIVER_NUM \<and> k < SESSION_TABLE_NUM - 1
     then Some \<lparr>as_session_id = of_nat (k + 1), as_session_status = ACK_SESSION_IDLE, as_memory_block = None\<rparr>
     else None)"
  by (auto simp: ack_session_at_def setup_session_def at_opt_def)

lemma cmd_session_of_setup:
  "i < SESSION_TABLE_NUM \<Longrightarrow> cmd_session_at (setup_session p) i = (pr_cmd_table p ! i)
     \<lparr>cs_session_id := of_nat i, cs_usage_flag := False, cs_memory_block := None\<rparr>"
  by (simp add: cmd_session_at_def setup_session_def)

lemma setup_session_pool: "pr_pool (setup_session p) = pr_pool p"
  by (simp add: setup_session_def)

lemma sessions_inv_setup:
  assumes "pool_inv (pr_pool p)" "pl_table_num (pr_pool p) = SESSION_TABLE_NUM"
    "pl_memory_size (pr_pool p) = BUFFER_SIZE" "pl_max_block_size (pr_pool p) = MAX_PACK_SIZE"
  shows "sessions_inv (setup_session p)" "owned (setup_session p) ow = None"
proof -
  have own: "owned (setup_session p) ow = None" for ow
    by (auto simp: owned_def cmd_session_of_setup ack_rows_of_setup split: owner.splits)
  have "tables_shaped (setup_session p)"
    using cmd_session_of_setup [of _ p] ack_rows_of_setup [of p]
    by (auto simp: tables_shaped_def setup_session_def split: if_splits)
  then show "sessions_inv (setup_session p)"
    using assms own by (auto simp: sessions_inv_def setup_session_pool cmd_session_of_setup)
  show "owned (setup_session p) ow = None" by (rule own)
qed

lemma protocol_init_sessions:
  assumes "length raw_memory = BUFFER_SIZE"
  shows "sessions_inv (protocol_init raw_table raw_memory raw_buff raw_stream container p)"
    "owned (protocol_init raw_table raw_memory raw_buff raw_stream container p) ow = None"
  unfolding protocol_init_def
  by (rule sessions_inv_setup; use assms in \<open>simp add: pool_init_inv protocol_consts\<close>;
      simp add: pool_init_def protocol_consts)+

text \<open>A concrete initial state, for the examples.\<close>

definition some_container :: recv_container where
  "some_container =
     \<lparr>rc_command_info = \<lparr>ci_cmd_set = 0, ci_cmd_id = 0, ci_need_ack = False, ci_sender = 0, ci_receiver = 0,
        ci_length = 0\<rparr>,
      rc_message_header = \<lparr>mh_seq_num = 0, mh_session_id = 0, mh_is_ack = False\<rparr>,
      rc_raw_data = replicate MESSAGE_DATA_SIZE 0\<rparr>"

definition raw_proto :: proto where
  "raw_proto =
     \<lparr>pr_pool = pool_init [] [] 0 0 0, pr_seq_num = 0, pr_poll_tick = 10,
      pr_cmd_table = replicate SESSION_TABLE_NUM \<lparr>cs_session_id = 0, cs_usage_flag = False,
        cs_memory_block = None, cs_cmd_set = 0, cs_cmd_id = 0, cs_sent = 0, cs_retry_time = 0,
        cs_ack_timeout = 0, cs_pre_time_stamp = 0, cs_pre_seq_num = 0\<rparr>,
      pr_ack_table = [], pr_recv_buff = [], pr_read_pos = 0, pr_read_len = 0, pr_large_data = True,
      pr_reuse_buffer = True,
      pr_stream = \<lparr>rs_reuse_index = 0, rs_reuse_count = 0, rs_recv_index = 0, rs_recv_buff = []\<rparr>,
      pr_container = some_container, pr_buffer_map = (\<lambda>_. None), pr_sent = []\<rparr>"

definition idle_proto :: proto where
  "idle_proto = protocol_init
     (replicate SESSION_TABLE_NUM \<lparr>mb_usage = False, mb_index = 0, mb_size = 0, mb_ptr = 0\<rparr>)
     (replicate BUFFER_SIZE 0) (replicate BUFFER_SIZE 0) (replicate MAX_PACK_SIZE 0) some_container raw_proto"

lemma idle_proto_sessions: "sessions_inv idle_proto" "owned idle_proto ow = None"
  using protocol_init_sessions [of "replicate BUFFER_SIZE 0"] by (simp_all add: idle_proto_def)

lemma idle_proto_ack:
  "ack_session_at idle_proto r k =
    (if r < RECEIVER_NUM \<and> k < SESSION_TABLE_NUM - 1
     then Some \<lparr>as_session_id = of_nat (k + 1), as_session_status = ACK_SESSION_IDLE, as_memory_block = None\<rparr>
     else None)"
  by (simp add: idle_proto_def protocol_init_def ack_rows_of_setup)

lemma idle_proto_pool:
  "pr_pool idle_proto = pool_init (replicate SESSION_TABLE_NUM \<lparr>mb_usage = False, mb_index = 0, mb_size = 0, mb_ptr = 0\<rparr>)
     (replicate BUFFER_SIZE 0) MAX_PACK_SIZE BUFFER_SIZE SESSION_TABLE_NUM"
  by (simp add: idle_proto_def protocol_init_def setup_session_pool)

lemma idle_proto_alloc:
  assumes "n \<le> MAX_PACK_SIZE"
  shows "\<exists>q. alloc_memory n (pr_pool idle_proto) = Some (Some 1, q) \<and> pl_max_block_size q = MAX_PACK_SIZE"
proof -
  have "3 \<le> SESSION_TABLE_NUM" "SESSION_TABLE_NUM \<le> 255" "BUFFER_SIZE < 2 ^ 16"
    "length (replicate BUFFER_SIZE 0 :: bytes) = BUFFER_SIZE" "n \<le> BUFFER_SIZE"
    using assms by (simp_all add: protocol_consts)
  from pool_init_alloc [OF this(1-4) assms this(5)] show ?thesis unfolding idle_proto_pool by metis
qed

subsection \<open>Properties\<close>

text \<open>When \<open>AllocACKSession\<close> fails for lack of memory it has already released the session's
  old block but keeps the pointer to it: the session then names a block that is free, so the next
  allocation may hand it to somebody else, and the ownership invariant is lost.\<close>

theorem failed_ack_allocation_leaves_dangling_block:
  assumes inv: "sessions_inv p" and s: "ack_session_at p (unat rc) (unat sid - 1) = Some s"
    "as_memory_block s = Some b" and sz: "0 < sz"
    and res: "alloc_ack_session rc sid sz p = Some (None, p')" and sid: "0 < sid" "sid < 32"
  shows "ack_session_at p' (unat rc) (unat sid - 1) = Some s \<and> \<not> pool_live (pr_pool p') b \<and> \<not> sessions_inv p'"
proof -
  let ?r = "unat rc" and ?k = "unat sid - Suc 0"
  have "owned p (OAck ?r ?k) = Some b" using s by (simp add: owned_def)
  then have live: "pool_live (pr_pool p) b" using sessions_invD(4) [OF inv] by simp
  obtain q where q: "free_memory (Some b) (pr_pool p) = Some q" "pool_inv q"
    "\<And>i. pool_live q i \<longleftrightarrow> pool_live (pr_pool p) i \<and> i \<noteq> b"
    using free_memory_spec [OF sessions_invD(1) [OF inv] pool_live_bound [OF live]] by metis
  have "0 < unat sz" using sz by (simp add: unat_gt_0 word_gt_0)
  then obtain r q' where q': "alloc_memory (unat sz) q = Some (r, q')" "alloc_result q (unat sz) r q'"
    using alloc_memory_result [OF q(2)] by blast
  have free: "free_ack_session ?r ?k p = Some (p\<lparr>pr_pool := q\<rparr>)"
    using s q by (simp add: free_ack_session_def)
  have alloc: "alloc_ack_session rc sid sz p = (case r of
        None \<Rightarrow> Some (None, p\<lparr>pr_pool := q'\<rparr>)
      | Some c \<Rightarrow> do { p3 \<leftarrow> set_ack_session ?r ?k (s\<lparr>as_memory_block := r\<rparr>) (p\<lparr>pr_pool := q'\<rparr>); Some (Some ?k, p3) })"
    using s free q' sid by (simp add: alloc_ack_session_def Let_def split: option.splits)
  have r: "r = None" "p' = p\<lparr>pr_pool := q'\<rparr>"
    using res alloc by (auto split: option.splits simp: bind_eq_Some_conv)
  have at: "ack_session_at p' ?r ?k = Some s" using s ack_session_at_cong [of p' p] r by simp
  have dead: "\<not> pool_live (pr_pool p') b" using q' q(3) r by (simp add: alloc_result_def)
  have "owned p' (OAck ?r ?k) = Some b" using at s by (simp add: owned_def)
  then have "\<not> sessions_inv p'" using dead sessions_invD(4) by blast
  then show ?thesis using at dead by simp
qed

text \<open>The witness: session 2 of receiver 0 first acknowledges with 100 bytes, then is asked to with
  5000, more than a block can have.\<close>

theorem failed_ack_allocation_leaves_dangling_block_witness:
  "\<exists>p b p'. alloc_ack_session 0 2 100 idle_proto = Some (Some 1, p) \<and>
     alloc_ack_session 0 2 5000 p = Some (None, p') \<and>
     owned p' (OAck 0 1) = Some b \<and> \<not> pool_live (pr_pool p') b"
proof -
  obtain q where q: "alloc_memory 100 (pr_pool idle_proto) = Some (Some 1, q)"
    "pl_max_block_size q = MAX_PACK_SIZE"
    using idle_proto_alloc [of 100] by (auto simp: protocol_consts)
  let ?s = "\<lparr>as_session_id = of_nat (1 + 1), as_session_status = ACK_SESSION_IDLE, as_memory_block = None\<rparr>"
  have s: "ack_session_at idle_proto 0 1 = Some ?s" by (simp add: idle_proto_ack protocol_consts)
  have shaped: "tables_shaped (idle_proto\<lparr>pr_pool := q\<rparr>)"
    using sessions_invD(3) [OF idle_proto_sessions(1)] tables_shaped_cong [of "idle_proto\<lparr>pr_pool := q\<rparr>" idle_proto]
    by simp
  have rk: "0 < RECEIVER_NUM" "1 < SESSION_TABLE_NUM - 1"
    "as_session_id (?s\<lparr>as_memory_block := Some 1\<rparr>) = of_nat (1 + 1)" by (simp_all add: protocol_consts)
  obtain p where p: "set_ack_session 0 1 (?s\<lparr>as_memory_block := Some 1\<rparr>) (idle_proto\<lparr>pr_pool := q\<rparr>) = Some p"
    using set_ack_session_spec [OF shaped rk] by blast
  then have ok: "alloc_ack_session 0 2 100 idle_proto = Some (Some 1, p)"
    using s q by (simp add: alloc_ack_session_def Let_def)
  have pos: "0 < (100 :: u16)" by simp
  obtain b where "sessions_inv p" "owned p (OAck (unat (0 :: u8)) 1) = Some b"
    by (rule alloc_ack_session_success [OF idle_proto_sessions(1) pos ok]) (rule that)
  then have b: "sessions_inv p" "owned p (OAck 0 1) = Some b" by simp_all
  obtain s1 where s1: "ack_session_at p 0 1 = Some s1" "as_memory_block s1 = Some b"
    using b by (auto simp: owned_def split: option.splits)
  have max: "pl_max_block_size (pr_pool p) = MAX_PACK_SIZE" using b by (simp add: sessions_inv_def)
  have live: "pool_live (pr_pool p) b" using sessions_invD(4) [OF b] .
  obtain q1 where q1: "free_memory (Some b) (pr_pool p) = Some q1"
    "pl_max_block_size q1 = pl_max_block_size (pr_pool p)"
    using free_memory_spec [OF sessions_invD(1) [OF b(1)] pool_live_bound [OF live]] by metis
  have "alloc_memory 5000 q1 = Some (None, q1)"
    using q1(2) max by (simp add: alloc_memory_def protocol_consts)
  then obtain p' where p': "alloc_ack_session 0 2 5000 p = Some (None, p')"
    using s1 q1(1) by (simp add: alloc_ack_session_def Let_def free_ack_session_def)
  show ?thesis
    using failed_ack_allocation_leaves_dangling_block [of p 0 2 s1 b 5000 p'] b(1) s1 p' ok
    by (intro exI [of _ p] exI [of _ b] exI [of _ p']) (simp add: owned_def)
qed
end
