(* ===== verification/ProtocolSend.thy ===== *)
theory ProtocolSend
  imports ProtocolState
begin

text \<open>
  The send pipeline of \<open>protocol/protocol.cpp\<close>: \<open>SendCMD\<close> in its three session modes,
  \<open>SendACK\<close>, the interface functions \<open>SendResponse\<close>, \<open>SendRequest\<close> and \<open>SendMessage\<close>,
  \<open>DeviceSend\<close>, and the retransmission loop \<open>AutoRepeatSendCheck\<close>.

  \<open>dev\<close> stands for the serial device: the number of bytes its \<open>Write\<close> reports for a buffer.
\<close>

subsection \<open>Sending a packet\<close>

definition device_send :: "(bytes \<Rightarrow> int) \<Rightarrow> nat \<Rightarrow> proto \<Rightarrow> (bool \<times> proto) option" where
  "device_send dev ptr p = do {
     h \<leftarrow> mem_read (pl_memory (pr_pool p)) ptr HEADER_LEN;
     let len = unat (h_length (header_of h));
     bs \<leftarrow> mem_read (pl_memory (pr_pool p)) ptr len;
     let ans = dev bs;
     Some (0 < ans \<and> ans = int len, p\<lparr>pr_sent := pr_sent p @ [bs]\<rparr>) }"

definition block_address :: "proto \<Rightarrow> nat option \<Rightarrow> nat option" where
  "block_address p block = do { b \<leftarrow> block; m \<leftarrow> at_opt (pl_table (pr_pool p)) b; Some (mb_ptr m) }"

definition write_block :: "nat option \<Rightarrow> nat \<Rightarrow> bytes \<Rightarrow> proto \<Rightarrow> proto option" where
  "write_block block off bs p = do {
     b \<leftarrow> block;
     q \<leftarrow> block_write b off bs (pr_pool p);
     Some (p\<lparr>pr_pool := q\<rparr>) }"

definition read_block :: "nat option \<Rightarrow> nat \<Rightarrow> nat \<Rightarrow> proto \<Rightarrow> bytes option" where
  "read_block block off n p = do { b \<leftarrow> block; block_read b off n (pr_pool p) }"

text \<open>The header fields as the code sets them one by one, then the CRC over the first ten bytes.\<close>

definition packed_header :: "u16 \<Rightarrow> u8 \<Rightarrow> 1 word \<Rightarrow> u8 \<Rightarrow> u16 \<Rightarrow> header" where
  "packed_header pack_length session_id is_ack receiver seq_num =
     (let h = \<lparr>h_sof = SOF, h_length = ucast pack_length, h_version = ucast VERSION,
                h_session_id = ucast session_id, h_is_ack = is_ack, h_reserved0 = 0,
                h_sender = DEVICE, h_receiver = receiver, h_reserved1 = 0,
                h_seq_num = seq_num, h_crc = 0\<rparr>
      in h\<lparr>h_crc := crc16_calc (take (HEADER_LEN - CRC_HEAD_LEN) (header_bytes h))\<rparr>)"

text \<open>Appending the CRC-32 of everything before it: the last four bytes of \<open>pack_length\<close>.\<close>

definition write_tail_crc :: "nat option \<Rightarrow> u16 \<Rightarrow> proto \<Rightarrow> proto option" where
  "write_tail_crc block pack_length p =
     (if unat pack_length < CRC_DATA_LEN then None
      else do {
        bs \<leftarrow> read_block block 0 (unat pack_length - CRC_DATA_LEN) p;
        write_block block (unat pack_length - CRC_DATA_LEN) (le_bytes 4 (crc32_calc bs)) p })"

text \<open>Header, command prefix, data and tail CRC of a command packet.\<close>

definition pack_command :: "nat \<Rightarrow> u8 \<Rightarrow> u8 \<Rightarrow> u8 \<Rightarrow> bytes \<Rightarrow> u16 \<Rightarrow> u16 \<Rightarrow> proto \<Rightarrow> proto option" where
  "pack_command i cmd_set cmd_id receiver mem data_length pack_length p =
     (let s = cmd_session_at p i; block = cs_memory_block s in do {
        p1 \<leftarrow> write_block block 0
          (header_bytes (packed_header pack_length (cs_session_id s) 0 receiver (pr_seq_num p))) p;
        p2 \<leftarrow> write_block block HEADER_LEN [cmd_id, cmd_set] p1;
        data \<leftarrow> mem_read mem 0 (unat data_length);
        p3 \<leftarrow> write_block block (HEADER_LEN + CMD_SET_PREFIX_LEN) data p2;
        write_tail_crc block pack_length p3 })"

definition filled_message_header :: "nat \<Rightarrow> proto \<Rightarrow> message_header option \<Rightarrow> message_header option" where
  "filled_message_header i p = map_option (\<lambda>h. h\<lparr>mh_is_ack := False, mh_seq_num := pr_seq_num p,
     mh_session_id := cs_session_id (cmd_session_at p i)\<rparr>)"

definition send_session :: "(bytes \<Rightarrow> int) \<Rightarrow> nat \<Rightarrow> proto \<Rightarrow> (bool \<times> proto) option" where
  "send_session dev i p = do {
     ptr \<leftarrow> block_address p (cs_memory_block (cmd_session_at p i));
     device_send dev ptr p }"

text \<open>Sessions 1 and up must not repeat the sequence number they used last.\<close>

definition bump_seq_num :: "nat \<Rightarrow> proto \<Rightarrow> proto" where
  "bump_seq_num i p =
     (if ucast (pr_seq_num p) = cs_pre_seq_num (cmd_session_at p i)
      then p\<lparr>pr_seq_num := pr_seq_num p + 1\<rparr> else p)"

text \<open>The session fields set before an acknowledged command is sent; \<open>now\<close> is the clock.\<close>

definition arm_session :: "nat \<Rightarrow> u8 \<Rightarrow> u8 \<Rightarrow> int \<Rightarrow> int \<Rightarrow> u16 \<Rightarrow> proto \<Rightarrow> proto" where
  "arm_session i cmd_set cmd_id ack_timeout now retry p =
     (set_cmd_session i ((cmd_session_at p i)\<lparr>cs_cmd_id := cmd_id, cs_cmd_set := cmd_set,
        cs_pre_seq_num := ucast (pr_seq_num p),
        cs_ack_timeout := (if ack_timeout > pr_poll_tick p then ack_timeout else pr_poll_tick p),
        cs_pre_time_stamp := now, cs_sent := 1, cs_retry_time := retry\<rparr>) p)
       \<lparr>pr_seq_num := pr_seq_num p + 1\<rparr>"

definition send_cmd_session_0 :: "(bytes \<Rightarrow> int) \<Rightarrow> u8 \<Rightarrow> u8 \<Rightarrow> u8 \<Rightarrow> bytes \<Rightarrow> u16 \<Rightarrow> u16 \<Rightarrow> message_header option \<Rightarrow>
    proto \<Rightarrow> (bool \<times> message_header option \<times> proto) option" where
  "send_cmd_session_0 dev cmd_set cmd_id receiver mem data_length pack_length mh p = do {
     (r, p1) \<leftarrow> alloc_cmd_session CMD_SESSION_0 pack_length p;
     case r of
       None \<Rightarrow> Some (False, mh, p1)
     | Some i \<Rightarrow> do {
         p2 \<leftarrow> pack_command i cmd_set cmd_id receiver mem data_length pack_length p1;
         (_, p3) \<leftarrow> send_session dev i p2;
         p4 \<leftarrow> free_cmd_session i (p3\<lparr>pr_seq_num := pr_seq_num p3 + 1\<rparr>);
         Some (True, filled_message_header i p1 mh, p4) } }"

text \<open>The cases \<open>CMD_SESSION_1\<close> and \<open>CMD_SESSION_AUTO\<close> differ in the mode and the retry count.\<close>

definition send_cmd_acked :: "(bytes \<Rightarrow> int) \<Rightarrow> cmd_session_mode \<Rightarrow> u16 \<Rightarrow> u8 \<Rightarrow> u8 \<Rightarrow> u8 \<Rightarrow> bytes \<Rightarrow> u16 \<Rightarrow> u16 \<Rightarrow>
    message_header option \<Rightarrow> int \<Rightarrow> int \<Rightarrow> proto \<Rightarrow> (bool \<times> message_header option \<times> proto) option" where
  "send_cmd_acked dev mode retry cmd_set cmd_id receiver mem data_length pack_length mh ack_timeout now p = do {
     (r, p1) \<leftarrow> alloc_cmd_session mode pack_length p;
     case r of
       None \<Rightarrow> Some (False, mh, p1)
     | Some i \<Rightarrow> do {
         let p2 = bump_seq_num i p1;
         p3 \<leftarrow> pack_command i cmd_set cmd_id receiver mem data_length pack_length p2;
         let p4 = arm_session i cmd_set cmd_id ack_timeout now retry p3;
         (_, p5) \<leftarrow> send_session dev i p4;
         Some (True, filled_message_header i p2 mh, p5) } }"

definition send_cmd_session_1 :: "(bytes \<Rightarrow> int) \<Rightarrow> u8 \<Rightarrow> u8 \<Rightarrow> u8 \<Rightarrow> bytes \<Rightarrow> u16 \<Rightarrow> u16 \<Rightarrow> message_header option \<Rightarrow>
    int \<Rightarrow> int \<Rightarrow> proto \<Rightarrow> (bool \<times> message_header option \<times> proto) option" where
  "send_cmd_session_1 dev = send_cmd_acked dev CMD_SESSION_1 1"

definition send_cmd_session_auto :: "(bytes \<Rightarrow> int) \<Rightarrow> int \<Rightarrow> u8 \<Rightarrow> u8 \<Rightarrow> u8 \<Rightarrow> bytes \<Rightarrow> u16 \<Rightarrow> u16 \<Rightarrow>
    message_header option \<Rightarrow> int \<Rightarrow> int \<Rightarrow> proto \<Rightarrow> (bool \<times> message_header option \<times> proto) option" where
  "send_cmd_session_auto dev retry_time = send_cmd_acked dev CMD_SESSION_AUTO (of_int retry_time)"

text \<open>\<open>data\<close> is the memory behind \<open>data_ptr\<close>, \<open>None\<close> for \<open>nullptr\<close>.\<close>

definition send_cmd :: "(bytes \<Rightarrow> int) \<Rightarrow> u8 \<Rightarrow> u8 \<Rightarrow> u8 \<Rightarrow> bytes option \<Rightarrow> u16 \<Rightarrow> cmd_session_mode \<Rightarrow>
    message_header option \<Rightarrow> int \<Rightarrow> int \<Rightarrow> int \<Rightarrow> proto \<Rightarrow> (bool \<times> message_header option \<times> proto) option" where
  "send_cmd dev cmd_set cmd_id receiver data_ptr data_length mode mh ack_timeout retry_time now p =
     (case data_ptr of
        None \<Rightarrow> Some (False, mh, p)
      | Some mem \<Rightarrow>
          if data_length = 0 then Some (False, mh, p)
          else let pack_length = of_nat (HEADER_LEN + CMD_SET_PREFIX_LEN) + data_length + of_nat CRC_DATA_LEN in
            (case mode of
              CMD_SESSION_0 \<Rightarrow> send_cmd_session_0 dev cmd_set cmd_id receiver mem data_length pack_length mh p
            | CMD_SESSION_1 \<Rightarrow> send_cmd_session_1 dev cmd_set cmd_id receiver mem data_length pack_length mh ack_timeout now p
            | CMD_SESSION_AUTO \<Rightarrow>
                send_cmd_session_auto dev retry_time cmd_set cmd_id receiver mem data_length pack_length mh ack_timeout now p))"

definition send_ack :: "(bytes \<Rightarrow> int) \<Rightarrow> u8 \<Rightarrow> u16 \<Rightarrow> u8 \<Rightarrow> bytes option \<Rightarrow> u16 \<Rightarrow> proto \<Rightarrow> (bool \<times> proto) option" where
  "send_ack dev session_id seq_num receiver ack_ptr ack_length p =
     (let payload = (if ack_length = 0 then None else ack_ptr);
          pack_length = (if payload = None then of_nat HEADER_LEN
                         else of_nat HEADER_LEN + ack_length + of_nat CRC_DATA_LEN)
      in if session_id = 0 \<or> session_id > 31 then Some (False, p)
      else do {
        (r, p1) \<leftarrow> alloc_ack_session receiver (ucast session_id) pack_length p;
        case r of
          None \<Rightarrow> Some (False, p1)
        | Some k \<Rightarrow> do {
            s \<leftarrow> ack_session_at p1 (unat receiver) k;
            let block = as_memory_block s;
            p2 \<leftarrow> write_block block 0
              (header_bytes (packed_header pack_length (as_session_id s) 1 receiver seq_num)) p1;
            p4 \<leftarrow> (case payload of
                None \<Rightarrow> Some p2
              | Some mem \<Rightarrow> do {
                  data \<leftarrow> mem_read mem 0 (unat ack_length);
                  p3 \<leftarrow> write_block block HEADER_LEN data p2;
                  write_tail_crc block pack_length p3 });
            ptr \<leftarrow> block_address p4 block;
            (_, p5) \<leftarrow> device_send dev ptr p4;
            p6 \<leftarrow> set_ack_session (unat receiver) (unat session_id - 1)
              (s\<lparr>as_session_status := ACK_SESSION_USING\<rparr>) p5;
            Some (True, p6) } })"

subsection \<open>Interface of the dispatch layer\<close>

definition send_response :: "(bytes \<Rightarrow> int) \<Rightarrow> command_info \<Rightarrow> message_header \<Rightarrow> bytes option \<Rightarrow> proto \<Rightarrow> (bool \<times> proto) option" where
  "send_response dev ci mh data p =
     send_ack dev (mh_session_id mh) (mh_seq_num mh) (ci_receiver ci) data (ci_length ci) p"

definition send_request :: "(bytes \<Rightarrow> int) \<Rightarrow> command_info \<Rightarrow> message_header \<Rightarrow> bytes option \<Rightarrow> int \<Rightarrow> proto \<Rightarrow>
    (bool \<times> message_header option \<times> proto) option" where
  "send_request dev ci mh data now p =
     send_cmd dev (ci_cmd_set ci) (ci_cmd_id ci) (ci_receiver ci) data (ci_length ci)
       CMD_SESSION_AUTO (Some mh) 50 5 now p"

definition send_message :: "(bytes \<Rightarrow> int) \<Rightarrow> command_info \<Rightarrow> bytes option \<Rightarrow> int \<Rightarrow> proto \<Rightarrow>
    (bool \<times> message_header option \<times> proto) option" where
  "send_message dev ci data now p =
     send_cmd dev (ci_cmd_set ci) (ci_cmd_id ci) (ci_receiver ci) data (ci_length ci)
       CMD_SESSION_0 None 50 5 now p"

subsection \<open>Retransmission\<close>

text \<open>\<open>duration_cast<milliseconds>\<close> of a duration in nanoseconds truncates towards zero.\<close>

definition to_milliseconds :: "int \<Rightarrow> int" where
  "to_milliseconds d = (if d \<ge> 0 then d div 1000000 else - ((- d) div 1000000))"

definition repeat_check_session :: "(bytes \<Rightarrow> int) \<Rightarrow> (nat \<Rightarrow> int) \<Rightarrow> nat \<Rightarrow> proto \<Rightarrow> proto option" where
  "repeat_check_session dev clock i p =
     (let s = cmd_session_at p i; now = clock i in
      if cs_usage_flag s \<and> to_milliseconds (now - cs_pre_time_stamp s) > cs_ack_timeout s then
        if cs_retry_time s > 0 then
          if cs_sent s \<ge> cs_retry_time s then free_cmd_session i p
          else do {
            (_, p1) \<leftarrow> send_session dev i p;
            Some (set_cmd_session i (s\<lparr>cs_pre_time_stamp := now, cs_sent := cs_sent s + 1\<rparr>) p1) }
        else do {
          (_, p1) \<leftarrow> send_session dev i p;
          Some (set_cmd_session i (s\<lparr>cs_pre_time_stamp := now\<rparr>) p1) }
      else Some p)"

text \<open>One round of the polling loop; \<open>clock i\<close> is the time read for session \<open>i\<close>.\<close>

primrec repeat_check_from :: "(bytes \<Rightarrow> int) \<Rightarrow> (nat \<Rightarrow> int) \<Rightarrow> nat list \<Rightarrow> proto \<Rightarrow> proto option" where
  "repeat_check_from dev clock [] p = Some p"
| "repeat_check_from dev clock (i # is) p = do {
     p' \<leftarrow> repeat_check_session dev clock i p;
     repeat_check_from dev clock is p' }"

definition auto_repeat_send_check :: "(bytes \<Rightarrow> int) \<Rightarrow> (nat \<Rightarrow> int) \<Rightarrow> proto \<Rightarrow> proto option" where
  "auto_repeat_send_check dev clock = repeat_check_from dev clock [1..<SESSION_TABLE_NUM]"


subsection \<open>Building a packet in a block\<close>

text \<open>The command packet as a value.\<close>

definition command_body :: "u8 \<Rightarrow> u16 \<Rightarrow> u8 \<Rightarrow> u8 \<Rightarrow> u8 \<Rightarrow> bytes \<Rightarrow> bytes" where
  "command_body sid seq cmd_set cmd_id receiver data =
     header_bytes (packed_header (of_nat (18 + length data)) sid 0 receiver seq) @ [cmd_id, cmd_set] @ data"

definition with_tail_crc :: "bytes \<Rightarrow> bytes" where
  "with_tail_crc body = body @ le_bytes 4 (crc32_calc body)"

definition command_frame :: "u8 \<Rightarrow> u16 \<Rightarrow> u8 \<Rightarrow> u8 \<Rightarrow> u8 \<Rightarrow> bytes \<Rightarrow> bytes" where
  "command_frame sid seq cmd_set cmd_id receiver data =
     with_tail_crc (command_body sid seq cmd_set cmd_id receiver data)"

lemma length_command_frame [simp]: "length (command_frame sid seq cs ci r data) = 18 + length data"
  by (simp add: command_frame_def with_tail_crc_def command_body_def)

definition block_starts :: "pool \<Rightarrow> nat \<Rightarrow> bytes \<Rightarrow> bool" where
  "block_starts q b pre \<longleftrightarrow> pool_live q b \<and> length pre \<le> mb_size (pl_table q ! b) \<and>
     take (length pre) (block_bytes q b) = pre"

text \<open>The frame condition of writing into block \<open>b\<close>.\<close>

definition pool_writes :: "nat \<Rightarrow> pool \<Rightarrow> pool \<Rightarrow> bool" where
  "pool_writes b q q' \<longleftrightarrow> pool_inv q' \<and> pl_table q' = pl_table q \<and> pl_table_num q' = pl_table_num q \<and>
     pl_memory_size q' = pl_memory_size q \<and> pl_max_block_size q' = pl_max_block_size q \<and>
     (\<forall>i. pool_live q' i \<longleftrightarrow> pool_live q i) \<and>
     (\<forall>i. pool_live q i \<longrightarrow> i \<noteq> b \<longrightarrow> block_bytes q' i = block_bytes q i)"

lemma pool_writes_trans: "pool_writes b q q1 \<Longrightarrow> pool_writes b q1 q2 \<Longrightarrow> pool_writes b q q2"
  by (simp add: pool_writes_def)

lemma pool_writes_refl: "pool_inv q \<Longrightarrow> pool_writes b q q"
  by (simp add: pool_writes_def)

lemma take_splice_append:
  assumes "take off m = pre" "length pre = off" "off + length bs \<le> length m"
  shows "take (off + length bs) (splice m off bs) = pre @ bs"
  using assms by (simp add: splice_def min_def)

lemma write_block_extends:
  assumes inv: "pool_inv (pr_pool p)" and pre: "block_starts (pr_pool p) b pre" and off: "off = length pre"
    and fits: "off + length bs \<le> mb_size (pl_table (pr_pool p) ! b)"
  obtains q where "write_block (Some b) off bs p = Some (p\<lparr>pr_pool := q\<rparr>)"
    "block_starts q b (pre @ bs)" "pool_writes b (pr_pool p) q"
proof -
  have live: "pool_live (pr_pool p) b" using pre by (simp add: block_starts_def)
  obtain q where q: "block_write b off bs (pr_pool p) = Some q" "pool_inv q" "pl_table q = pl_table (pr_pool p)"
    "\<And>i. pool_live q i \<longleftrightarrow> pool_live (pr_pool p) i"
    "block_bytes q b = splice (block_bytes (pr_pool p) b) off bs"
    "\<And>i. pool_live (pr_pool p) i \<Longrightarrow> i \<noteq> b \<Longrightarrow> block_bytes q i = block_bytes (pr_pool p) i"
    "pl_table_num q = pl_table_num (pr_pool p)" "pl_memory_size q = pl_memory_size (pr_pool p)"
    "pl_max_block_size q = pl_max_block_size (pr_pool p)"
    using block_write_spec [OF inv live fits] by metis
  have "take (off + length bs) (block_bytes q b) = pre @ bs"
    unfolding q(5) using pre off fits length_block_bytes [OF inv live]
    by (intro take_splice_append) (simp_all add: block_starts_def)
  then have "block_starts q b (pre @ bs)" using live fits off q by (simp add: block_starts_def)
  moreover have "pool_writes b (pr_pool p) q" using q by (simp add: pool_writes_def)
  ultimately show ?thesis using that [of q] q(1) by (simp add: write_block_def)
qed

lemma write_tail_crc_extends:
  assumes inv: "pool_inv (pr_pool p)" and pre: "block_starts (pr_pool p) b body"
    and n: "unat pack_length = length body + 4" "unat pack_length \<le> mb_size (pl_table (pr_pool p) ! b)"
  obtains q where "write_tail_crc (Some b) pack_length p = Some (p\<lparr>pr_pool := q\<rparr>)"
    "block_starts q b (with_tail_crc body)" "pool_writes b (pr_pool p) q"
proof -
  have live: "pool_live (pr_pool p) b" using pre by (simp add: block_starts_def)
  have len: "unat pack_length - CRC_DATA_LEN = length body" using n by (simp add: protocol_consts)
  have "slice (block_bytes (pr_pool p) b) 0 (length body) = body"
    using pre by (simp add: block_starts_def slice_from_0)
  then have rd: "read_block (Some b) 0 (unat pack_length - CRC_DATA_LEN) p = Some body"
    using block_read_spec [OF inv live, of 0 "length body"] n len by (simp add: read_block_def)
  have fits: "unat pack_length - CRC_DATA_LEN + length (le_bytes 4 (crc32_calc body)) \<le> mb_size (pl_table (pr_pool p) ! b)"
    using n len by simp
  obtain q where "write_block (Some b) (unat pack_length - CRC_DATA_LEN) (le_bytes 4 (crc32_calc body)) p =
      Some (p\<lparr>pr_pool := q\<rparr>)" "block_starts q b (body @ le_bytes 4 (crc32_calc body))"
    "pool_writes b (pr_pool p) q"
    by (rule write_block_extends [OF inv pre len fits]) (rule that)
  then show ?thesis using that [of q] rd n by (simp add: write_tail_crc_def with_tail_crc_def protocol_consts)
qed

lemma cmd_session_at_pool [simp]: "cmd_session_at (p\<lparr>pr_pool := q\<rparr>) = cmd_session_at p"
  by (rule cmd_session_at_cong) simp

lemma pack_command_spec:
  assumes inv: "pool_inv (pr_pool p)" and live: "pool_live (pr_pool p) b"
    and b: "cs_memory_block (cmd_session_at p i) = Some b"
    and mem: "n \<le> length mem" "n = unat data_length" and n: "18 + n < 2 ^ 16"
    and size: "mb_size (pl_table (pr_pool p) ! b) = 18 + n" and pl: "pack_length = of_nat (18 + n)"
  obtains q where "pack_command i cs ci rc mem data_length pack_length p = Some (p\<lparr>pr_pool := q\<rparr>)"
    "block_bytes q b = command_frame (cs_session_id (cmd_session_at p i)) (pr_seq_num p) cs ci rc (take n mem)"
    "pool_writes b (pr_pool p) q"
proof -
  let ?sid = "cs_session_id (cmd_session_at p i)"
  let ?h = "header_bytes (packed_header pack_length ?sid 0 rc (pr_seq_num p))" and ?d = "take n mem"
  let ?body = "command_body ?sid (pr_seq_num p) cs ci rc ?d"
  have d: "length ?d = n" using mem by simp
  have body: "?h @ [ci, cs] @ ?d = ?body" using d pl by (simp add: command_body_def)
  have s0: "block_starts (pr_pool p) b []" using live by (simp add: block_starts_def)
  have f1: "0 + length ?h \<le> mb_size (pl_table (pr_pool p) ! b)" using size by simp
  obtain q1 where q1: "write_block (Some b) 0 ?h p = Some (p\<lparr>pr_pool := q1\<rparr>)" "block_starts q1 b ([] @ ?h)"
    "pool_writes b (pr_pool p) q1"
    by (rule write_block_extends [OF inv s0 _ f1]) (simp, rule that)
  let ?p1 = "p\<lparr>pr_pool := q1\<rparr>"
  have i1: "pool_inv (pr_pool ?p1)" and t1: "pl_table q1 = pl_table (pr_pool p)" using q1 by (simp_all add: pool_writes_def)
  have s1: "block_starts (pr_pool ?p1) b ?h" using q1 by simp
  have f2: "HEADER_LEN + length [ci, cs] \<le> mb_size (pl_table (pr_pool ?p1) ! b)"
    using size t1 by (simp add: protocol_consts)
  obtain q2 where q2: "write_block (Some b) HEADER_LEN [ci, cs] ?p1 = Some (?p1\<lparr>pr_pool := q2\<rparr>)"
    "block_starts q2 b (?h @ [ci, cs])" "pool_writes b (pr_pool ?p1) q2"
    by (rule write_block_extends [OF i1 s1 _ f2]) (simp add: protocol_consts, rule that)
  let ?p2 = "?p1\<lparr>pr_pool := q2\<rparr>"
  have i2: "pool_inv (pr_pool ?p2)" and t2: "pl_table q2 = pl_table (pr_pool p)"
    using q2 t1 by (simp_all add: pool_writes_def)
  have s2: "block_starts (pr_pool ?p2) b (?h @ [ci, cs])" using q2 by simp
  have f3: "HEADER_LEN + CMD_SET_PREFIX_LEN + length ?d \<le> mb_size (pl_table (pr_pool ?p2) ! b)"
    using size t2 d by (simp add: protocol_consts)
  obtain q3 where q3: "write_block (Some b) (HEADER_LEN + CMD_SET_PREFIX_LEN) ?d ?p2 = Some (?p2\<lparr>pr_pool := q3\<rparr>)"
    "block_starts q3 b ((?h @ [ci, cs]) @ ?d)" "pool_writes b (pr_pool ?p2) q3"
    by (rule write_block_extends [OF i2 s2 _ f3]) (simp add: protocol_consts, rule that)
  let ?p3 = "?p2\<lparr>pr_pool := q3\<rparr>"
  have i3: "pool_inv (pr_pool ?p3)" and t3: "pl_table q3 = pl_table (pr_pool p)"
    using q3 t2 by (simp_all add: pool_writes_def)
  have s3: "block_starts (pr_pool ?p3) b ?body" using q3 body by simp
  have pln: "unat pack_length = 18 + n" unfolding pl by (rule unat_of_nat_small) (use n in simp)
  then have n3: "unat pack_length = length ?body + 4" "unat pack_length \<le> mb_size (pl_table (pr_pool ?p3) ! b)"
    using d size t3 by (simp_all add: command_body_def)
  obtain q4 where q4: "write_tail_crc (Some b) pack_length ?p3 = Some (?p3\<lparr>pr_pool := q4\<rparr>)"
    "block_starts q4 b (with_tail_crc ?body)" "pool_writes b (pr_pool ?p3) q4"
    by (rule write_tail_crc_extends [OF i3 s3 n3]) (rule that)
  have "pack_command i cs ci rc mem data_length pack_length p = Some (p\<lparr>pr_pool := q4\<rparr>)"
    using q1(1) q2(1) q3(1) q4(1) b mem by (simp add: pack_command_def mem_read_def slice_from_0)
  moreover have w: "pool_writes b (pr_pool p) q4"
    using q1(3) q2(3) q3(3) q4(3) by (auto intro: pool_writes_trans)
  moreover have "block_bytes q4 b = with_tail_crc ?body"
  proof -
    have "pool_live q4 b" "pool_inv q4" using w live by (simp_all add: pool_writes_def)
    then have "length (block_bytes q4 b) = 18 + n" using length_block_bytes w size by (simp add: pool_writes_def)
    moreover have "length (with_tail_crc ?body) = 18 + n" using d by (simp add: with_tail_crc_def command_body_def)
    ultimately show ?thesis using q4(2) by (simp add: block_starts_def)
  qed
  ultimately show ?thesis using that [of q4] by (simp add: command_frame_def)
qed

subsection \<open>What is transmitted\<close>

lemma packed_header_simps [simp]:
  "h_sof (packed_header pl sid a r s) = SOF" "h_length (packed_header pl sid a r s) = ucast pl"
  "h_version (packed_header pl sid a r s) = 0" "h_session_id (packed_header pl sid a r s) = ucast sid"
  "h_is_ack (packed_header pl sid a r s) = a" "h_reserved0 (packed_header pl sid a r s) = 0"
  "h_sender (packed_header pl sid a r s) = DEVICE" "h_receiver (packed_header pl sid a r s) = r"
  "h_reserved1 (packed_header pl sid a r s) = 0" "h_seq_num (packed_header pl sid a r s) = s"
  by (simp_all add: packed_header_def Let_def VERSION_def)

text \<open>\<open>DeviceSend\<close> hands over as many bytes as the 10-bit length field says.\<close>

lemma device_send_block:
  assumes inv: "pool_inv (pr_pool p)" and live: "pool_live (pr_pool p) b"
    and content: "block_bytes (pr_pool p) b = f" and f: "header_of f = packed_header (of_nat (length f)) sid a r s"
    and len: "12 \<le> length f" "length f < 2 ^ 16"
    and ptr: "ptr = mb_ptr (pl_table (pr_pool p) ! b)"
  shows "\<exists>ok. device_send dev ptr p = Some (ok, p\<lparr>pr_sent := pr_sent p @ [take (length f mod 1024) f]\<rparr>)"
proof -
  let ?m = "pl_memory (pr_pool p)"
  have size: "mb_size (pl_table (pr_pool p) ! b) = length f"
    using length_block_bytes [OF inv live] content by simp
  have in_mem: "ptr + length f \<le> length ?m"
    using pool_invD(2) [OF inv live] inv size ptr by (simp add: block_end_def pool_inv_def pool_frame_def)
  have sl: "slice ?m ptr k = take k f" if "k \<le> length f" for k
  proof -
    have "f = take (length f) (drop ptr ?m)" using content size ptr by (simp add: block_bytes_def slice_def)
    then have "take k f = take k (take (length f) (drop ptr ?m))" by simp
    then show ?thesis using that by (simp add: slice_def min_def)
  qed
  have "mem_read ?m ptr HEADER_LEN = Some (take HEADER_LEN f)"
    using in_mem len sl [of HEADER_LEN] by (simp add: mem_read_def protocol_consts)
  moreover have "header_of (take HEADER_LEN f) = header_of f" by (rule header_of_take) (simp add: protocol_consts)
  moreover have l: "unat (h_length (header_of f)) = length f mod 1024"
    using len f by (simp add: unat_ucast_mod unat_of_nat_small)
  moreover have "length f mod 1024 \<le> length f" by simp
  then have "mem_read ?m ptr (length f mod 1024) = Some (take (length f mod 1024) f)"
    using in_mem sl [of "length f mod 1024"] by (simp add: mem_read_def)
  ultimately show ?thesis by (simp add: device_send_def Let_def)
qed

lemma header_of_command_frame:
  "header_of (command_frame sid seq cs ci r data) = packed_header (of_nat (18 + length data)) sid 0 r seq"
proof -
  have "command_frame sid seq cs ci r data = header_bytes (packed_header (of_nat (18 + length data)) sid 0 r seq) @
     ([ci, cs] @ data @ le_bytes 4 (crc32_calc (command_body sid seq cs ci r data)))"
    by (simp add: command_frame_def with_tail_crc_def command_body_def)
  then show ?thesis by (simp only: header_of_append length_header_bytes order_refl header_of_bytes)
qed

lemma sessions_inv_writes:
  assumes inv: "sessions_inv p" and w: "pool_writes b (pr_pool p) q"
  shows "sessions_inv (p\<lparr>pr_pool := q\<rparr>)"
proof -
  have "owned (p\<lparr>pr_pool := q\<rparr>) = owned p" "tables_shaped (p\<lparr>pr_pool := q\<rparr>) = tables_shaped p"
    by (rule owned_cong tables_shaped_cong; simp)+
  then show ?thesis using inv w by (simp add: sessions_inv_def pool_writes_def)
qed

text \<open>What every sending operation leaves to the sessions it does not use.\<close>

definition others_kept :: "owner \<Rightarrow> proto \<Rightarrow> proto \<Rightarrow> bool" where
  "others_kept me p p' \<longleftrightarrow> (\<forall>ow b. ow \<noteq> me \<longrightarrow> owned p ow = Some b \<longrightarrow>
     owned p' ow = Some b \<and> block_bytes (pr_pool p') b = block_bytes (pr_pool p) b)"

lemma others_keptI:
  assumes "\<And>ow b. ow \<noteq> me \<Longrightarrow> owned p ow = Some b \<Longrightarrow>
     owned p' ow = Some b \<and> block_bytes (pr_pool p') b = block_bytes (pr_pool p) b"
  shows "others_kept me p p'"
  using assms by (simp add: others_kept_def)

lemma others_kept_trans: "others_kept me p q \<Longrightarrow> others_kept me q r \<Longrightarrow> others_kept me p r"
  by (simp add: others_kept_def)

lemma others_kept_writes:
  assumes inv: "sessions_inv p" and me: "owned p me = Some b" and w: "pool_writes b (pr_pool p) q"
  shows "others_kept me p (p\<lparr>pr_pool := q\<rparr>)"
proof (rule others_keptI)
  fix ow c
  assume ow: "ow \<noteq> me" "owned p ow = Some c"
  then have "c \<noteq> b" using sessions_invD(5) [OF inv ow(2), of me] me by auto
  then show "owned (p\<lparr>pr_pool := q\<rparr>) ow = Some c \<and>
      block_bytes (pr_pool (p\<lparr>pr_pool := q\<rparr>)) c = block_bytes (pr_pool p) c"
    using ow sessions_invD(4) [OF inv ow(2)] w owned_cong [of "p\<lparr>pr_pool := q\<rparr>" p] by (simp add: pool_writes_def)
qed

text \<open>Taking a session and its block.\<close>

lemma taken_session:
  assumes inv: "sessions_inv p" and res: "alloc_result (pr_pool p) n (Some b) q" and i: "i < SESSION_TABLE_NUM"
    and free: "\<not> cs_usage_flag (cmd_session_at p i)"
    and p1: "p1 = set_cmd_session i ((cmd_session_at p i)\<lparr>cs_usage_flag := True, cs_memory_block := Some b\<rparr>)
        (p\<lparr>pr_pool := q\<rparr>)"
  shows "sessions_inv p1" "owned p1 (OCmd i) = Some b" "mb_size (pl_table (pr_pool p1) ! b) = n"
    "cs_session_id (cmd_session_at p1 i) = of_nat i" "cs_memory_block (cmd_session_at p1 i) = Some b"
    "others_kept (OCmd i) p p1" "owned p (OCmd i) = None"
    "\<And>ow. ow \<noteq> OCmd i \<Longrightarrow> owned p1 ow = owned p ow"
proof -
  let ?s = "(cmd_session_at p i)\<lparr>cs_usage_flag := True, cs_memory_block := Some b\<rparr>"
  have len: "i < length (pr_cmd_table (p\<lparr>pr_pool := q\<rparr>))" using sessions_invD(2) [OF inv] i by simp
  have id: "cs_session_id ?s = of_nat i" using sessions_invD(6) [OF inv i] by simp
  show inv1: "sessions_inv p1" unfolding p1 by (rule sessions_inv_take_block [OF inv res i id]) simp
  have q1: "owned (p\<lparr>pr_pool := q\<rparr>) = owned p" by (rule owned_cong) simp_all
  have own: "owned p1 ow = (if ow = OCmd i then Some b else owned p ow)" for ow
    unfolding p1 by (subst owned_set_cmd [OF len i]) (simp add: q1)
  then show "owned p1 (OCmd i) = Some b" "\<And>ow. ow \<noteq> OCmd i \<Longrightarrow> owned p1 ow = owned p ow" by simp_all
  show "owned p (OCmd i) = None" using free by (simp add: owned_def)
  show "mb_size (pl_table (pr_pool p1) ! b) = n" using res by (simp add: p1 alloc_result_def)
  show "cs_session_id (cmd_session_at p1 i) = of_nat i" "cs_memory_block (cmd_session_at p1 i) = Some b"
    using len id by (simp_all add: p1)
  have keeps: "pool_live (pr_pool p) c \<Longrightarrow> block_bytes q c = block_bytes (pr_pool p) c" for c
    using res by (simp add: alloc_result_def pool_keeps_def)
  show "others_kept (OCmd i) p p1"
    using own keeps sessions_invD(4) [OF inv] by (intro others_keptI) (simp add: p1)
qed

definition command_fits :: "proto \<Rightarrow> nat \<Rightarrow> bool" where
  "command_fits p n \<longleftrightarrow> 0 < n \<and> alloc_fits (pr_pool p) (18 + n)"

lemma command_fits_bound:
  assumes "sessions_inv p" "command_fits p n"
  shows "18 + n \<le> 4096"
  using assms by (simp add: command_fits_def alloc_fits_def sessions_inv_def protocol_consts)

lemma pack_length_eq:
  "18 + unat (w :: u16) < 2 ^ 16 \<Longrightarrow>
     of_nat (HEADER_LEN + CMD_SET_PREFIX_LEN) + w + of_nat CRC_DATA_LEN = (of_nat (18 + unat w) :: u16)"
  by (simp add: protocol_consts)

lemma mb_ptr_block_address:
  assumes "sessions_inv p" "owned p ow = Some b"
  shows "block_address p (Some b) = Some (mb_ptr (pl_table (pr_pool p) ! b))"
proof -
  have "b < pl_table_num (pr_pool p)" using sessions_invD(4) [OF assms] by (rule pool_live_bound)
  then show ?thesis using sessions_invD(1) [OF assms(1)] by (simp add: block_address_def pool_inv_def pool_frame_def)
qed

lemma others_kept_cong:
  assumes "others_kept me p q" "pr_cmd_table q' = pr_cmd_table q" "pr_ack_table q' = pr_ack_table q"
    "pr_pool q' = pr_pool q"
  shows "others_kept me p q'"
  using assms owned_cong [of q' q] by (simp add: others_kept_def)

lemma packed_session:
  assumes inv: "sessions_inv p" and res: "alloc_result (pr_pool p) (18 + n) (Some b) q" and i: "i < SESSION_TABLE_NUM"
    and free: "\<not> cs_usage_flag (cmd_session_at p i)" and bound: "18 + n \<le> 4096"
    and p1: "p1 = (set_cmd_session i ((cmd_session_at p i)\<lparr>cs_usage_flag := True, cs_memory_block := Some b\<rparr>)
        (p\<lparr>pr_pool := q\<rparr>))\<lparr>pr_seq_num := sq\<rparr>"
    and mem: "n \<le> length mem" "n = unat data_length" and pl: "pl = of_nat (18 + n)"
  obtains q' where "pack_command i cs ci rc mem data_length pl p1 = Some (p1\<lparr>pr_pool := q'\<rparr>)"
    "block_bytes q' b = command_frame (of_nat i) sq cs ci rc (take n mem)"
    "sessions_inv (p1\<lparr>pr_pool := q'\<rparr>)" "owned (p1\<lparr>pr_pool := q'\<rparr>) (OCmd i) = Some b"
    "others_kept (OCmd i) p (p1\<lparr>pr_pool := q'\<rparr>)"
    "\<And>ow. ow \<noteq> OCmd i \<Longrightarrow> owned (p1\<lparr>pr_pool := q'\<rparr>) ow = owned p ow"
proof -
  let ?p0 = "set_cmd_session i ((cmd_session_at p i)\<lparr>cs_usage_flag := True, cs_memory_block := Some b\<rparr>)
        (p\<lparr>pr_pool := q\<rparr>)"
  note t = taken_session [OF inv res i free refl]
  have same: "owned p1 = owned ?p0" "cmd_session_at p1 = cmd_session_at ?p0" "sessions_inv p1 = sessions_inv ?p0"
    "pr_pool p1 = pr_pool ?p0"
    unfolding p1 by (rule owned_cong cmd_session_at_cong sessions_inv_cong; simp)+ simp
  have inv1: "sessions_inv p1" and own1: "owned p1 (OCmd i) = Some b" using t same by simp_all
  have live: "pool_live (pr_pool p1) b" using sessions_invD(4) [OF inv1 own1] .
  have blk: "cs_memory_block (cmd_session_at p1 i) = Some b" "cs_session_id (cmd_session_at p1 i) = of_nat i"
    using t(4,5) same by simp_all
  have size: "mb_size (pl_table (pr_pool p1) ! b) = 18 + n" using t(3) same by simp
  have small: "18 + n < 2 ^ 16" using bound by simp
  obtain q' where q': "pack_command i cs ci rc mem data_length pl p1 = Some (p1\<lparr>pr_pool := q'\<rparr>)"
    "block_bytes q' b = command_frame (cs_session_id (cmd_session_at p1 i)) (pr_seq_num p1) cs ci rc (take n mem)"
    "pool_writes b (pr_pool p1) q'"
    by (rule pack_command_spec [OF sessions_invD(1) [OF inv1] live blk(1) mem small size pl]) (rule that)
  have seq: "pr_seq_num p1 = sq" by (simp add: p1)
  have inv2: "sessions_inv (p1\<lparr>pr_pool := q'\<rparr>)" by (rule sessions_inv_writes [OF inv1 q'(3)])
  have own2: "owned (p1\<lparr>pr_pool := q'\<rparr>) = owned p1" by (rule owned_cong) simp_all
  have "others_kept (OCmd i) p p1" by (rule others_kept_cong [OF t(6)]) (simp_all add: p1)
  then have "others_kept (OCmd i) p (p1\<lparr>pr_pool := q'\<rparr>)"
    using others_kept_writes [OF inv1 own1 q'(3)] by (rule others_kept_trans)
  then show ?thesis
    using that [of q'] q' blk seq inv2 own1 own2 t(8) same by simp
qed

lemma send_session_ok:
  assumes inv: "sessions_inv p" and own: "owned p (OCmd i) = Some b"
    and blk: "cs_memory_block (cmd_session_at p i) = Some b"
    and content: "block_bytes (pr_pool p) b = f" and f: "header_of f = packed_header (of_nat (length f)) sid a r s"
    and len: "12 \<le> length f" "length f < 2 ^ 16"
  shows "\<exists>ok. send_session dev i p = Some (ok, p\<lparr>pr_sent := pr_sent p @ [take (length f mod 1024) f]\<rparr>)"
  using device_send_block [OF sessions_invD(1) [OF inv] sessions_invD(4) [OF inv own] content f len refl, of dev]
    mb_ptr_block_address [OF inv own] blk by (simp add: send_session_def)

lemma cmd_session_at_simps [simp]:
  "cmd_session_at (p\<lparr>pr_seq_num := sq\<rparr>) = cmd_session_at p" "cmd_session_at (p\<lparr>pr_sent := out\<rparr>) = cmd_session_at p"
  by (rule cmd_session_at_cong; simp)+

lemma owned_simps [simp]:
  "owned (p\<lparr>pr_seq_num := sq\<rparr>) = owned p" "owned (p\<lparr>pr_sent := out\<rparr>) = owned p" "owned (p\<lparr>pr_pool := q\<rparr>) = owned p"
  by (rule owned_cong; simp)+

lemma sessions_inv_simps [simp]:
  "sessions_inv (p\<lparr>pr_seq_num := sq\<rparr>) = sessions_inv p" "sessions_inv (p\<lparr>pr_sent := out\<rparr>) = sessions_inv p"
  by (rule sessions_inv_cong; simp)+

lemma free_session_others:
  assumes inv: "sessions_inv p" and i: "i < SESSION_TABLE_NUM"
  obtains p' where "free_cmd_session i p = Some p'" "sessions_inv p'" "others_kept (OCmd i) p p'"
    "owned p' (OCmd i) = None" "\<And>ow. ow \<noteq> OCmd i \<Longrightarrow> owned p' ow = owned p ow"
    "pr_sent p' = pr_sent p" "pr_seq_num p' = pr_seq_num p"
    "cmd_session_at p' j = (if j = i then (cmd_session_at p i)\<lparr>cs_usage_flag := False\<rparr> else cmd_session_at p j)"
    "pr_ack_table p' = pr_ack_table p" "pr_stream p' = pr_stream p" "pr_container p' = pr_container p"
proof -
  let ?s = "(cmd_session_at p i)\<lparr>cs_usage_flag := False\<rparr>"
  obtain q where q: "free_cmd_session i p = Some (set_cmd_session i ?s (p\<lparr>pr_pool := q\<rparr>))"
    "sessions_inv (set_cmd_session i ?s (p\<lparr>pr_pool := q\<rparr>))"
    "\<And>k. pool_live (pr_pool p) k \<Longrightarrow> \<not> (cs_usage_flag (cmd_session_at p i) \<and> cs_memory_block (cmd_session_at p i) = Some k)
       \<Longrightarrow> pool_live q k \<and> block_bytes q k = block_bytes (pr_pool p) k"
    by (rule free_cmd_session_spec [OF inv i]) (rule that)
  let ?p = "set_cmd_session i ?s (p\<lparr>pr_pool := q\<rparr>)"
  have len: "i < length (pr_cmd_table (p\<lparr>pr_pool := q\<rparr>))" using sessions_invD(2) [OF inv] i by simp
  have own: "owned ?p ow = (if ow = OCmd i then None else owned p ow)" for ow
    by (subst owned_set_cmd [OF len i]) simp
  have "others_kept (OCmd i) p ?p"
  proof (rule others_keptI)
    fix ow c
    assume ow: "ow \<noteq> OCmd i" "owned p ow = Some c"
    have "\<not> (cs_usage_flag (cmd_session_at p i) \<and> cs_memory_block (cmd_session_at p i) = Some c)"
      using sessions_invD(5) [OF inv ow(2), of "OCmd i"] ow(1) i by (auto simp: owned_def)
    then show "owned ?p ow = Some c \<and> block_bytes (pr_pool ?p) c = block_bytes (pr_pool p) c"
      using q(3) sessions_invD(4) [OF inv ow(2)] own ow by simp
  qed
  then show ?thesis using that [of ?p] q(1,2) own len by simp
qed

lemma send_session_0_ok:
  assumes inv: "sessions_inv p" and fits: "command_fits p n" and mem: "n \<le> length mem" "n = unat data_length"
    and free: "\<not> cs_usage_flag (cmd_session_at p 0)"
  obtains p' where "send_cmd dev cs ci rc (Some mem) data_length CMD_SESSION_0 mh timeout retry now p =
      Some (True, map_option (\<lambda>h. h\<lparr>mh_is_ack := False, mh_seq_num := pr_seq_num p, mh_session_id := 0\<rparr>) mh, p')"
    "sessions_inv p'" "others_kept (OCmd 0) p p'" "\<And>ow. owned p' ow = owned p ow"
    "pr_sent p' = pr_sent p @ [take ((18 + n) mod 1024) (command_frame 0 (pr_seq_num p) cs ci rc (take n mem))]"
    "pr_seq_num p' = pr_seq_num p + 1"
proof -
  let ?f = "command_frame 0 (pr_seq_num p) cs ci rc (take n mem)"
  have bound: "18 + n \<le> 4096" by (rule command_fits_bound [OF inv fits])
  have i0: "0 < SESSION_TABLE_NUM" by (simp add: protocol_consts)
  define pl :: u16 where "pl = of_nat (18 + n)"
  have pl_nat: "unat pl = 18 + n" unfolding pl_def by (rule unat_of_nat_small) (use bound in simp)
  then have "0 < pl" by (simp add: word_less_nat_alt)
  have pick: "pick_cmd_session CMD_SESSION_0 p = Some 0" using free by (simp add: pick_cmd_session_def)
  obtain b q where alloc: "alloc_cmd_session CMD_SESSION_0 pl p = Some (Some 0, set_cmd_session 0
        ((cmd_session_at p 0)\<lparr>cs_usage_flag := True, cs_memory_block := Some b\<rparr>) (p\<lparr>pr_pool := q\<rparr>))"
      "alloc_result (pr_pool p) (18 + n) (Some b) q"
    using alloc_cmd_session_cases [OF inv \<open>0 < pl\<close>, of CMD_SESSION_0] pick fits pl_nat
    by (simp add: command_fits_def) metis
  let ?p1 = "set_cmd_session 0 ((cmd_session_at p 0)\<lparr>cs_usage_flag := True, cs_memory_block := Some b\<rparr>) (p\<lparr>pr_pool := q\<rparr>)"
  have p1: "?p1 = ?p1\<lparr>pr_seq_num := pr_seq_num p\<rparr>" by simp
  obtain q' where q': "pack_command 0 cs ci rc mem data_length pl ?p1 = Some (?p1\<lparr>pr_pool := q'\<rparr>)"
    "block_bytes q' b = command_frame (of_nat 0) (pr_seq_num p) cs ci rc (take n mem)"
    "sessions_inv (?p1\<lparr>pr_pool := q'\<rparr>)" "owned (?p1\<lparr>pr_pool := q'\<rparr>) (OCmd 0) = Some b"
    "others_kept (OCmd 0) p (?p1\<lparr>pr_pool := q'\<rparr>)"
    "\<And>ow. ow \<noteq> OCmd 0 \<Longrightarrow> owned (?p1\<lparr>pr_pool := q'\<rparr>) ow = owned p ow"
    by (rule packed_session [OF inv alloc(2) i0 free bound p1 mem pl_def]) (rule that)
  let ?p2 = "?p1\<lparr>pr_pool := q'\<rparr>"
  have len: "0 < length (pr_cmd_table (p\<lparr>pr_pool := q\<rparr>))" using sessions_invD(2) [OF inv] i0 by simp
  have blk: "cs_memory_block (cmd_session_at ?p2 0) = Some b" "cs_session_id (cmd_session_at ?p1 0) = 0"
    using len sessions_invD(6) [OF inv i0] by simp_all
  have flen: "length ?f = 18 + n" using mem by simp
  obtain ok where sent: "send_session dev 0 ?p2 = Some (ok, ?p2\<lparr>pr_sent := pr_sent ?p2 @ [take ((18 + n) mod 1024) ?f]\<rparr>)"
    using send_session_ok [OF q'(3,4) blk(1), of ?f 0 0 rc "pr_seq_num p" dev] q'(2) bound flen mem
    by (auto simp: header_of_command_frame)
  let ?p3 = "?p2\<lparr>pr_sent := pr_sent ?p2 @ [take ((18 + n) mod 1024) ?f]\<rparr>"
  let ?p4 = "?p3\<lparr>pr_seq_num := pr_seq_num ?p3 + 1\<rparr>"
  have inv4: "sessions_inv ?p4" using q'(3) by simp
  obtain p' where p': "free_cmd_session 0 ?p4 = Some p'" "sessions_inv p'" "others_kept (OCmd 0) ?p4 p'"
    "owned p' (OCmd 0) = None" "\<And>ow. ow \<noteq> OCmd 0 \<Longrightarrow> owned p' ow = owned ?p4 ow"
    "pr_sent p' = pr_sent ?p4" "pr_seq_num p' = pr_seq_num ?p4"
    by (rule free_session_others [OF inv4 i0]) (rule that)
  have nz: "data_length \<noteq> 0" using fits mem by (auto simp: command_fits_def)
  have pl_eq: "of_nat (HEADER_LEN + CMD_SET_PREFIX_LEN) + data_length + of_nat CRC_DATA_LEN = pl"
    unfolding pl_def mem(2) by (rule pack_length_eq) (use bound mem in simp)
  have "others_kept (OCmd 0) p ?p4" by (rule others_kept_cong [OF q'(5)]) simp_all
  then have "others_kept (OCmd 0) p p'" using p'(3) by (rule others_kept_trans)
  moreover have "owned p' ow = owned p ow" for ow
    using p'(4,5) q'(6) free by (cases "ow = OCmd 0") (simp_all add: owned_def)
  moreover have "send_cmd dev cs ci rc (Some mem) data_length CMD_SESSION_0 mh timeout retry now p =
      Some (True, filled_message_header 0 ?p1 mh, p')"
    using nz alloc(1) q'(1) sent p'(1) by (simp add: send_cmd_def send_cmd_session_0_def Let_def pl_eq [simplified])
  ultimately show ?thesis
    using that [of p'] p' blk(2) by (simp add: filled_message_header_def)
qed

text \<open>Changing a session without touching its identity, its use or its block.\<close>

lemma sessions_inv_touch:
  assumes inv: "sessions_inv p" and i: "i < SESSION_TABLE_NUM"
    and s: "cs_session_id s = of_nat i" "cs_usage_flag s = cs_usage_flag (cmd_session_at p i)"
      "cs_memory_block s = cs_memory_block (cmd_session_at p i)"
  shows "sessions_inv (set_cmd_session i s p)" "owned (set_cmd_session i s p) = owned p"
proof -
  have len: "i < length (pr_cmd_table p)" using sessions_invD(2) [OF inv] i by simp
  show own: "owned (set_cmd_session i s p) = owned p"
  proof
    fix ow
    show "owned (set_cmd_session i s p) ow = owned p ow"
      by (subst owned_set_cmd [OF len i]) (use s i in \<open>simp add: owned_def\<close>)
  qed
  have "tables_shaped (set_cmd_session i s p)" by (rule tables_shaped_set_cmd [OF sessions_invD(3) [OF inv] i s(1)])
  then show "sessions_inv (set_cmd_session i s p)"
    using inv own s len by (simp add: sessions_inv_def)
qed

definition next_seq :: "proto \<Rightarrow> nat \<Rightarrow> u16" where
  "next_seq p i = (if ucast (pr_seq_num p) = cs_pre_seq_num (cmd_session_at p i)
     then pr_seq_num p + 1 else pr_seq_num p)"

lemma next_seq_fresh: "ucast (next_seq p i) \<noteq> cs_pre_seq_num (cmd_session_at p i)"
proof -
  have "ucast (a + 1 :: u16) \<noteq> (ucast a :: u32)" for a
  proof
    assume eq: "ucast (a + 1 :: u16) = (ucast a :: u32)"
    have "a + 1 = a"
    proof (rule bit_word_eqI)
      fix n
      assume "n < LENGTH(16)"
      then show "bit (a + 1) n = bit a n" using arg_cong [OF eq, of "\<lambda>w. bit w n"] by (simp add: bit_ucast_iff)
    qed
    then show False by simp
  qed
  then show ?thesis by (metis next_seq_def)
qed

definition armed :: "cmd_session \<Rightarrow> nat \<Rightarrow> u16 \<Rightarrow> u8 \<Rightarrow> u8 \<Rightarrow> int \<Rightarrow> int \<Rightarrow> u16 \<Rightarrow> cmd_session" where
  "armed s b sq cs ci timeout now retry = s\<lparr>cs_usage_flag := True, cs_memory_block := Some b,
     cs_cmd_id := ci, cs_cmd_set := cs, cs_pre_seq_num := ucast sq, cs_ack_timeout := timeout,
     cs_pre_time_stamp := now, cs_sent := 1, cs_retry_time := retry\<rparr>"

lemma send_acked_ok:
  assumes inv: "sessions_inv p" and fits: "command_fits p n" and mem: "n \<le> length mem" "n = unat data_length"
    and pick: "pick_cmd_session m p = Some i" and pl: "pl = of_nat (18 + n)"
  defines "sq \<equiv> next_seq p i"
  obtains p' b where "send_cmd_acked dev m retry cs ci rc mem data_length pl mh timeout now p =
      Some (True, map_option (\<lambda>h. h\<lparr>mh_is_ack := False, mh_seq_num := sq, mh_session_id := of_nat i\<rparr>) mh, p')"
    "sessions_inv p'" "others_kept (OCmd i) p p'" "\<And>ow. ow \<noteq> OCmd i \<Longrightarrow> owned p' ow = owned p ow"
    "owned p' (OCmd i) = Some b" "block_bytes (pr_pool p') b = command_frame (of_nat i) sq cs ci rc (take n mem)"
    "pr_sent p' = pr_sent p @ [take ((18 + n) mod 1024) (command_frame (of_nat i) sq cs ci rc (take n mem))]"
    "pr_seq_num p' = sq + 1"
    "cmd_session_at p' i = armed (cmd_session_at p i) b sq cs ci (max timeout (pr_poll_tick p)) now retry"
    "\<And>j. j \<noteq> i \<Longrightarrow> cmd_session_at p' j = cmd_session_at p j"
proof -
  let ?f = "command_frame (of_nat i) sq cs ci rc (take n mem)"
  have bound: "18 + n \<le> 4096" by (rule command_fits_bound [OF inv fits])
  note i = pick_cmd_session_free [OF pick]
  have pl_nat: "unat pl = 18 + n" unfolding pl by (rule unat_of_nat_small) (use bound in simp)
  then have "0 < pl" by (simp add: word_less_nat_alt)
  obtain b q where alloc: "alloc_cmd_session m pl p = Some (Some i, set_cmd_session i
        ((cmd_session_at p i)\<lparr>cs_usage_flag := True, cs_memory_block := Some b\<rparr>) (p\<lparr>pr_pool := q\<rparr>))"
      "alloc_result (pr_pool p) (18 + n) (Some b) q"
    using alloc_cmd_session_cases [OF inv \<open>0 < pl\<close>, of m] pick fits pl_nat
    by (simp add: command_fits_def) metis
  let ?p0 = "set_cmd_session i ((cmd_session_at p i)\<lparr>cs_usage_flag := True, cs_memory_block := Some b\<rparr>) (p\<lparr>pr_pool := q\<rparr>)"
  let ?p1 = "?p0\<lparr>pr_seq_num := sq\<rparr>"
  have len: "i < length (pr_cmd_table (p\<lparr>pr_pool := q\<rparr>))" using sessions_invD(2) [OF inv] i by simp
  have bump: "bump_seq_num i ?p0 = ?p1" using len by (simp add: bump_seq_num_def sq_def next_seq_def)
  obtain q' where q': "pack_command i cs ci rc mem data_length pl ?p1 = Some (?p1\<lparr>pr_pool := q'\<rparr>)"
    "block_bytes q' b = ?f" "sessions_inv (?p1\<lparr>pr_pool := q'\<rparr>)" "owned (?p1\<lparr>pr_pool := q'\<rparr>) (OCmd i) = Some b"
    "others_kept (OCmd i) p (?p1\<lparr>pr_pool := q'\<rparr>)"
    "\<And>ow. ow \<noteq> OCmd i \<Longrightarrow> owned (?p1\<lparr>pr_pool := q'\<rparr>) ow = owned p ow"
    by (rule packed_session [OF inv alloc(2) i bound refl mem pl]) (rule that)
  let ?p2 = "?p1\<lparr>pr_pool := q'\<rparr>"
  let ?s = "armed (cmd_session_at p i) b sq cs ci (max timeout (pr_poll_tick p)) now retry"
  let ?p3 = "(set_cmd_session i ?s ?p2)\<lparr>pr_seq_num := sq + 1\<rparr>"
  have arm: "arm_session i cs ci timeout now retry ?p2 = ?p3"
    using len by (simp add: arm_session_def armed_def max_def)
  have len2: "i < length (pr_cmd_table ?p2)" using len by simp
  have own3: "owned ?p3 ow = owned ?p2 ow" for ow
    using q'(4) by (simp add: owned_set_cmd [OF len2 i(1)] armed_def)
  have "sessions_inv (set_cmd_session i ?s ?p2)"
    by (rule sessions_inv_touch [OF q'(3) i(1)])
      (use sessions_invD(6) [OF inv i(1)] len2 len in \<open>simp_all add: armed_def\<close>)
  then have inv3: "sessions_inv ?p3" by simp
  have others3: "others_kept (OCmd i) p ?p3" using q'(5) own3 by (simp add: others_kept_def)
  have blk: "cs_memory_block (cmd_session_at ?p3 i) = Some b" using len2 by (simp add: armed_def)
  have own3i: "owned ?p3 (OCmd i) = Some b" using own3 q'(4) by simp
  have flen: "length ?f = 18 + n" using mem by simp
  obtain ok where sent: "send_session dev i ?p3 = Some (ok, ?p3\<lparr>pr_sent := pr_sent ?p3 @ [take ((18 + n) mod 1024) ?f]\<rparr>)"
    using send_session_ok [OF inv3 own3i blk, of ?f "of_nat i" 0 rc sq dev] q'(2) bound flen mem
    by (auto simp: header_of_command_frame)
  let ?p4 = "?p3\<lparr>pr_sent := pr_sent ?p3 @ [take ((18 + n) mod 1024) ?f]\<rparr>"
  have fill: "filled_message_header i ?p1 mh =
      map_option (\<lambda>h. h\<lparr>mh_is_ack := False, mh_seq_num := sq, mh_session_id := of_nat i\<rparr>) mh"
    using len sessions_invD(6) [OF inv i(1)] by (simp add: filled_message_header_def)
  have res: "send_cmd_acked dev m retry cs ci rc mem data_length pl mh timeout now p =
      Some (True, map_option (\<lambda>h. h\<lparr>mh_is_ack := False, mh_seq_num := sq, mh_session_id := of_nat i\<rparr>) mh, ?p4)"
    using alloc(1) q'(1) sent by (simp add: send_cmd_acked_def Let_def bump arm fill)
  show ?thesis
  proof (rule that [of ?p4 b])
    show "send_cmd_acked dev m retry cs ci rc mem data_length pl mh timeout now p =
      Some (True, map_option (\<lambda>h. h\<lparr>mh_is_ack := False, mh_seq_num := sq, mh_session_id := of_nat i\<rparr>) mh, ?p4)"
      by (rule res)
    show "others_kept (OCmd i) p ?p4" by (rule others_kept_cong [OF others3]) simp_all
    show "owned ?p4 ow = owned p ow" if "ow \<noteq> OCmd i" for ow using own3 [of ow] q'(6) [OF that] by simp
    show "owned ?p4 (OCmd i) = Some b" using own3i by simp
  qed (use inv3 q'(2) len2 len in simp_all)
qed

lemma send_cmd_cases:
  assumes "data_length \<noteq> 0" "18 + unat data_length < 2 ^ 16"
  shows "send_cmd dev cs ci rc (Some mem) data_length CMD_SESSION_1 mh timeout retry now p =
      send_cmd_acked dev CMD_SESSION_1 1 cs ci rc mem data_length (of_nat (18 + unat data_length)) mh timeout now p"
    "send_cmd dev cs ci rc (Some mem) data_length CMD_SESSION_AUTO mh timeout retry now p =
      send_cmd_acked dev CMD_SESSION_AUTO (of_int retry) cs ci rc mem data_length (of_nat (18 + unat data_length))
        mh timeout now p"
proof -
  define pl :: u16 where "pl = of_nat (18 + unat data_length)"
  have "of_nat (HEADER_LEN + CMD_SET_PREFIX_LEN) + data_length + of_nat CRC_DATA_LEN = pl"
    unfolding pl_def by (rule pack_length_eq [OF assms(2)])
  from this [simplified] show "send_cmd dev cs ci rc (Some mem) data_length CMD_SESSION_1 mh timeout retry now p =
      send_cmd_acked dev CMD_SESSION_1 1 cs ci rc mem data_length (of_nat (18 + unat data_length)) mh timeout now p"
    "send_cmd dev cs ci rc (Some mem) data_length CMD_SESSION_AUTO mh timeout retry now p =
      send_cmd_acked dev CMD_SESSION_AUTO (of_int retry) cs ci rc mem data_length (of_nat (18 + unat data_length))
        mh timeout now p"
    unfolding pl_def [symmetric] using assms(1)
    by (simp_all add: send_cmd_def send_cmd_session_1_def send_cmd_session_auto_def Let_def)
qed

subsection \<open>Acknowledgements\<close>

text \<open>What the device gets of a packet: the length field keeps ten bits of its length.\<close>

definition transmitted :: "bytes \<Rightarrow> bytes" where
  "transmitted f = take (length f mod 1024) f"

definition ack_frame :: "u8 \<Rightarrow> u16 \<Rightarrow> u8 \<Rightarrow> bytes option \<Rightarrow> bytes" where
  "ack_frame sid seq receiver payload = (case payload of
     None \<Rightarrow> header_bytes (packed_header (of_nat 12) sid 1 receiver seq)
   | Some d \<Rightarrow> with_tail_crc (header_bytes (packed_header (of_nat (16 + length d)) sid 1 receiver seq) @ d))"

definition ack_payload :: "bytes option \<Rightarrow> u16 \<Rightarrow> bytes option" where
  "ack_payload ack n = (if n = 0 then None else map_option (take (unat n)) ack)"

definition ack_length_of :: "bytes option \<Rightarrow> nat" where
  "ack_length_of payload = (case payload of None \<Rightarrow> 12 | Some d \<Rightarrow> 16 + length d)"

lemma length_ack_frame [simp]: "length (ack_frame sid seq r payload) = ack_length_of payload"
  by (simp add: ack_frame_def ack_length_of_def with_tail_crc_def split: option.splits)

lemma header_of_ack_frame:
  "header_of (ack_frame sid seq r payload) = packed_header (of_nat (ack_length_of payload)) sid 1 r seq"
  by (cases payload) (simp_all only: ack_frame_def ack_length_of_def with_tail_crc_def option.case append.assoc
      header_of_append length_header_bytes order_refl header_of_bytes)

lemma alloc_ack_session_total:
  assumes inv: "sessions_inv p" and r: "unat rc < RECEIVER_NUM" and sz: "0 < sz"
  shows "\<exists>r p'. alloc_ack_session rc sid sz p = Some (r, p') \<and> (r = None \<longrightarrow> pr_sent p' = pr_sent p)"
proof (cases "0 < sid \<and> sid < 32")
  case False
  then show ?thesis by (auto simp: alloc_ack_session_def)
next
  case True
  let ?r = "unat rc" and ?k = "unat sid - Suc 0"
  have shaped: "tables_shaped p" using sessions_invD(3) [OF inv] .
  have "0 < unat sid" "unat sid < 32" using True by (simp_all add: word_less_nat_alt)
  then have k: "?k < SESSION_TABLE_NUM - 1" unfolding protocol_consts by linarith
  then obtain s where s: "ack_session_at p ?r ?k = Some s" using ack_session_at_in_range [OF shaped] r by blast
  have "\<exists>q. (if as_memory_block s \<noteq> None then free_ack_session ?r ?k p else Some p) = Some (p\<lparr>pr_pool := q\<rparr>) \<and> pool_inv q"
  proof (cases "as_memory_block s")
    case None
    then show ?thesis using sessions_invD(1) [OF inv] by (intro exI [of _ "pr_pool p"]) simp
  next
    case (Some c)
    then have "pool_live (pr_pool p) c" using s sessions_invD(4) [OF inv, of "OAck ?r ?k" c] by (simp add: owned_def)
    from free_memory_spec [OF sessions_invD(1) [OF inv] pool_live_bound [OF this]]
    obtain q where "free_memory (Some c) (pr_pool p) = Some q" "pool_inv q" by metis
    then show ?thesis using Some s by (intro exI [of _ q]) (simp add: free_ack_session_def)
  qed
  then obtain q where q: "(if as_memory_block s \<noteq> None then free_ack_session ?r ?k p else Some p) = Some (p\<lparr>pr_pool := q\<rparr>)"
    "pool_inv q" by blast
  have "0 < unat sz" using sz by (simp add: word_less_nat_alt)
  then obtain b q' where q': "alloc_memory (unat sz) q = Some (b, q')" using alloc_memory_result [OF q(2)] by blast
  show ?thesis
  proof (cases b)
    case None
    then show ?thesis using True s q q' by (simp add: alloc_ack_session_def Let_def del: not_None_eq)
  next
    case (Some c)
    have "tables_shaped (p\<lparr>pr_pool := q'\<rparr>)" using shaped tables_shaped_cong [of "p\<lparr>pr_pool := q'\<rparr>" p] by simp
    moreover have "as_session_id (s\<lparr>as_memory_block := Some c\<rparr>) = of_nat (?k + 1)"
      using shaped s by (simp add: tables_shaped_def)
    ultimately obtain p3 where "set_ack_session ?r ?k (s\<lparr>as_memory_block := Some c\<rparr>) (p\<lparr>pr_pool := q'\<rparr>) = Some p3"
      using set_ack_session_spec [OF _ r k] by metis
    then show ?thesis using True s q q' Some by (simp add: alloc_ack_session_def Let_def del: not_None_eq)
  qed
qed

lemma pack_ack:
  assumes inv: "pool_inv (pr_pool p)" and live: "pool_live (pr_pool p) b"
    and size: "mb_size (pl_table (pr_pool p) ! b) = ack_length_of (ack_payload ack n)"
    and small: "ack_length_of (ack_payload ack n) < 2 ^ 16"
    and pl: "pl = of_nat (ack_length_of (ack_payload ack n))"
    and mem: "\<And>m. ack = Some m \<Longrightarrow> unat n \<le> length m"
  obtains q where "do { p2 \<leftarrow> write_block (Some b) 0 (header_bytes (packed_header pl sid 1 rc sq)) p;
      (case (if n = 0 then None else ack) of
         None \<Rightarrow> Some p2
       | Some m \<Rightarrow> do {
           data \<leftarrow> mem_read m 0 (unat n);
           p3 \<leftarrow> write_block (Some b) HEADER_LEN data p2;
           write_tail_crc (Some b) pl p3 }) } = Some (p\<lparr>pr_pool := q\<rparr>)"
    "block_bytes q b = ack_frame sid sq rc (ack_payload ack n)" "pool_writes b (pr_pool p) q"
proof -
  let ?h = "header_bytes (packed_header pl sid 1 rc sq)"
  have s0: "block_starts (pr_pool p) b []" using live by (simp add: block_starts_def)
  have f1: "0 + length ?h \<le> mb_size (pl_table (pr_pool p) ! b)"
    using size by (simp add: ack_length_of_def split: option.splits)
  obtain q1 where q1: "write_block (Some b) 0 ?h p = Some (p\<lparr>pr_pool := q1\<rparr>)" "block_starts q1 b ([] @ ?h)"
    "pool_writes b (pr_pool p) q1"
    by (rule write_block_extends [OF inv s0 _ f1]) (simp, rule that)
  let ?p1 = "p\<lparr>pr_pool := q1\<rparr>"
  have i1: "pool_inv (pr_pool ?p1)" and t1: "pl_table q1 = pl_table (pr_pool p)" and l1: "pool_live q1 b"
    using q1 by (simp_all add: pool_writes_def block_starts_def)
  have full: "length (block_bytes q b) = ack_length_of (ack_payload ack n)" if "pool_writes b (pr_pool p) q" for q
    using that length_block_bytes [of q b] live size by (simp add: pool_writes_def)
  show ?thesis
  proof (cases "if n = 0 then None else ack")
    case None
    then have pay: "ack_payload ack n = None" by (auto simp: ack_payload_def split: if_splits)
    then have "block_bytes q1 b = ack_frame sid sq rc None"
      using q1(2) full [OF q1(3)] pl by (simp add: block_starts_def ack_length_of_def ack_frame_def)
    then show ?thesis using that [of q1] q1 None pay by simp
  next
    case (Some m)
    let ?d = "take (unat n) m"
    have ack: "ack = Some m" "n \<noteq> 0" using Some by (auto split: if_splits)
    then have pay: "ack_payload ack n = Some ?d" by (simp add: ack_payload_def)
    have d: "length ?d = unat n" using mem [OF ack(1)] by simp
    have s1: "block_starts (pr_pool ?p1) b ?h" using q1 by simp
    have f2: "HEADER_LEN + length ?d \<le> mb_size (pl_table (pr_pool ?p1) ! b)"
      using size t1 d pay by (simp add: protocol_consts ack_length_of_def)
    obtain q2 where q2: "write_block (Some b) HEADER_LEN ?d ?p1 = Some (?p1\<lparr>pr_pool := q2\<rparr>)"
      "block_starts q2 b (?h @ ?d)" "pool_writes b (pr_pool ?p1) q2"
      by (rule write_block_extends [OF i1 s1 _ f2]) (simp add: protocol_consts, rule that)
    let ?p2 = "?p1\<lparr>pr_pool := q2\<rparr>"
    have i2: "pool_inv (pr_pool ?p2)" and t2: "pl_table q2 = pl_table (pr_pool p)"
      using q2 t1 by (simp_all add: pool_writes_def)
    have s2: "block_starts (pr_pool ?p2) b (?h @ ?d)" using q2 by simp
    have "unat pl = 16 + unat n" using pl small pay d by (simp add: ack_length_of_def unat_of_nat_small del: of_nat_add)
    then have n3: "unat pl = length (?h @ ?d) + 4" "unat pl \<le> mb_size (pl_table (pr_pool ?p2) ! b)"
      using d size t2 pay by (simp_all add: ack_length_of_def)
    obtain q3 where q3: "write_tail_crc (Some b) pl ?p2 = Some (?p2\<lparr>pr_pool := q3\<rparr>)"
      "block_starts q3 b (with_tail_crc (?h @ ?d))" "pool_writes b (pr_pool ?p2) q3"
      by (rule write_tail_crc_extends [OF i2 s2 n3]) (rule that)
    have w: "pool_writes b (pr_pool p) q3" using q1(3) q2(3) q3(3) by (auto intro: pool_writes_trans)
    have fr: "ack_frame sid sq rc (Some ?d) = with_tail_crc (?h @ ?d)"
      using pl pay by (simp add: ack_frame_def ack_length_of_def del: of_nat_add)
    have "length (with_tail_crc (?h @ ?d)) = ack_length_of (Some ?d)"
      using fr length_ack_frame [of sid sq rc "Some ?d"] by simp
    then have "block_bytes q3 b = with_tail_crc (?h @ ?d)"
      using q3(2) full [OF w] pay by (simp add: block_starts_def)
    then show ?thesis
      using that [of q3] q1(1) q2(1) q3(1) w Some fr pay mem [OF ack(1)]
      by (simp add: mem_read_def slice_from_0)
  qed
qed

text \<open>The outcome of \<open>SendACK\<close>.\<close>

lemma send_ack_ok:
  fixes sid :: u8 and sq :: u16
  assumes inv: "sessions_inv p" and rc: "unat rc < RECEIVER_NUM"
    and small: "16 + unat n < 2 ^ 16" and mem: "\<And>m. ack = Some m \<Longrightarrow> unat n \<le> length m"
  defines "f \<equiv> ack_frame sid sq rc (ack_payload ack n)"
  shows "\<exists>ok p'. send_ack dev sid sq rc ack n p = Some (ok, p') \<and>
    (\<not> ok \<longrightarrow> pr_sent p' = pr_sent p) \<and>
    (ok \<longrightarrow> 0 < sid \<and> sid < 32 \<and> sessions_inv p' \<and> pr_sent p' = pr_sent p @ [transmitted f] \<and>
       others_kept (OAck (unat rc) (unat sid - 1)) p p' \<and>
       (\<exists>b. owned p' (OAck (unat rc) (unat sid - 1)) = Some b \<and> block_bytes (pr_pool p') b = f) \<and>
       (\<exists>s. ack_session_at p' (unat rc) (unat sid - 1) = Some s \<and> as_session_status s = ACK_SESSION_USING))"
proof (cases "sid = 0 \<or> sid > 31")
  case True
  then show ?thesis by (auto simp: send_ack_def Let_def)
next
  case False
  let ?pay = "ack_payload ack n" and ?r = "unat rc" and ?k = "unat sid - Suc 0"
  let ?pl = "if (if n = 0 then None else ack) = None then of_nat HEADER_LEN
      else of_nat HEADER_LEN + n + of_nat CRC_DATA_LEN :: u16"
  have bound: "ack_length_of ?pay < 2 ^ 16" "12 \<le> ack_length_of ?pay"
    using small mem by (auto simp: ack_length_of_def ack_payload_def split: option.splits)
  have pl: "?pl = of_nat (ack_length_of ?pay)"
    using mem by (auto simp: ack_length_of_def ack_payload_def protocol_consts split: option.splits)
  have plu: "unat ?pl = ack_length_of ?pay" unfolding pl by (rule unat_of_nat_small) (use bound in simp)
  have "0 < unat ?pl" unfolding plu using bound(2) by linarith
  then have pos: "0 < ?pl" by (simp only: word_less_nat_alt unat_0)
  obtain r p1 where alloc: "alloc_ack_session rc (ucast sid) ?pl p = Some (r, p1)" "r = None \<longrightarrow> pr_sent p1 = pr_sent p"
    using alloc_ack_session_total [OF inv rc pos] by blast
  show ?thesis
  proof (cases r)
    case None
    then show ?thesis using False alloc
      by (intro exI [of _ False] exI [of _ p1]) (simp add: send_ack_def Let_def)
  next
    case (Some k)
    note alloc1 = alloc(1) [unfolded Some]
    obtain b where b: "sessions_inv p1" "k = unat (ucast sid :: u16) - 1"
      "owned p1 (OAck ?r k) = Some b" "mb_size (pl_table (pr_pool p1) ! b) = unat ?pl"
      "\<And>ow. ow \<noteq> OAck ?r k \<Longrightarrow> owned p1 ow = owned p ow"
      "\<And>ow c. ow \<noteq> OAck ?r k \<Longrightarrow> owned p ow = Some c \<Longrightarrow> block_bytes (pr_pool p1) c = block_bytes (pr_pool p) c"
      "\<exists>q t. p1 = p\<lparr>pr_pool := q, pr_ack_table := t\<rparr>"
      by (rule alloc_ack_session_success [OF inv pos alloc1]) (rule that)
    have "unat sid < 65536" using unsigned_less [of sid, where 'a = nat] by simp
    then have k: "k = ?k" using b(2) by (simp add: unat_ucast_mod)
    have sent1: "pr_sent p1 = pr_sent p" using b(7) by auto
    obtain s where s: "ack_session_at p1 ?r ?k = Some s" "as_memory_block s = Some b"
      using b(3) k by (auto simp: owned_def split: option.splits)
    have sid_s: "as_session_id s = sid"
    proof -
      have "as_session_id s = of_nat (?k + 1)" using s(1) sessions_invD(3) [OF b(1)] by (simp add: tables_shaped_def)
      moreover have "0 < unat sid" using False by (simp add: unat_gt_0)
      ultimately show ?thesis by simp
    qed
    have live: "pool_live (pr_pool p1) b" using sessions_invD(4) [OF b(1,3)] .
    have size: "mb_size (pl_table (pr_pool p1) ! b) = ack_length_of ?pay" using b(4) plu by simp
    obtain q where q: "do { p2 \<leftarrow> write_block (Some b) 0 (header_bytes (packed_header ?pl sid 1 rc sq)) p1;
      (case (if n = 0 then None else ack) of
         None \<Rightarrow> Some p2
       | Some m \<Rightarrow> do {
           data \<leftarrow> mem_read m 0 (unat n);
           p3 \<leftarrow> write_block (Some b) HEADER_LEN data p2;
           write_tail_crc (Some b) ?pl p3 }) } = Some (p1\<lparr>pr_pool := q\<rparr>)"
      "block_bytes q b = ack_frame sid sq rc ?pay" "pool_writes b (pr_pool p1) q"
      by (rule pack_ack [OF sessions_invD(1) [OF b(1)] live size bound(1) pl mem]) (assumption, rule that)
    have qf: "block_bytes q b = f" using q(2) by (simp add: f_def)
    let ?p4 = "p1\<lparr>pr_pool := q\<rparr>"
    have inv4: "sessions_inv ?p4" by (rule sessions_inv_writes [OF b(1) q(3)])
    have own4: "owned ?p4 (OAck ?r ?k) = Some b" using b(3) k by simp
    have flen: "12 \<le> length f" "length f < 2 ^ 16" using bound by (simp_all add: f_def)
    obtain ok where snd: "device_send dev (mb_ptr (pl_table (pr_pool ?p4) ! b)) ?p4 =
        Some (ok, ?p4\<lparr>pr_sent := pr_sent ?p4 @ [transmitted f]\<rparr>)"
      using device_send_block [OF sessions_invD(1) [OF inv4] sessions_invD(4) [OF inv4 own4], of f sid 1 rc sq] qf flen
      by (auto simp: f_def header_of_ack_frame transmitted_def)
    let ?p5 = "?p4\<lparr>pr_sent := pr_sent ?p4 @ [transmitted f]\<rparr>"
    have addr: "block_address ?p4 (Some b) = Some (mb_ptr (pl_table (pr_pool ?p4) ! b))"
      by (rule mb_ptr_block_address [OF inv4 own4])
    have at5: "ack_session_at ?p5 = ack_session_at p1" by (rule ack_session_at_cong) simp
    have inv5: "sessions_inv ?p5" using inv4 by simp
    let ?s = "s\<lparr>as_session_status := ACK_SESSION_USING\<rparr>"
    have rk: "?r < RECEIVER_NUM" "?k < SESSION_TABLE_NUM - 1"
      using ack_session_at_in_range [OF sessions_invD(3) [OF b(1)]] s(1) by blast+
    have id: "as_session_id ?s = of_nat (?k + 1)" using s(1) sessions_invD(3) [OF b(1)] by (simp add: tables_shaped_def)
    obtain p6 where p6: "set_ack_session ?r ?k ?s ?p5 = Some p6"
      "\<And>r' k'. ack_session_at p6 r' k' = (if r' = ?r \<and> k' = ?k then Some ?s else ack_session_at ?p5 r' k')"
      by (rule set_ack_session_spec [OF sessions_invD(3) [OF inv5] rk id]) (rule that)
    have inv6: "sessions_inv p6"
    proof (rule sessions_inv_set_ack [OF inv5 p6(1) id])
      fix c
      assume "as_memory_block ?s = Some c"
      then have c: "c = b" using s by simp
      show "pool_live (pr_pool ?p5) c \<and> (\<forall>ow. owned ?p5 ow = Some c \<longrightarrow> ow = OAck ?r ?k)"
        using sessions_invD(4) [OF inv5, of "OAck ?r ?k" b] sessions_invD(5) [OF inv5, of _ b "OAck ?r ?k"] own4 c by simp
    qed
    obtain t where t: "p6 = ?p5\<lparr>pr_ack_table := t\<rparr>" using set_ack_session_frame(1) [OF p6(1)] by metis
    have cmd6: "cmd_session_at p6 = cmd_session_at p1" by (rule cmd_session_at_cong) (simp add: t)
    have own6: "owned p6 ow = owned p1 ow" for ow
      using s by (auto simp: owned_def p6(2) at5 [simplified] cmd6 split: owner.splits)
    have pool6: "pr_pool p6 = q" "pr_sent p6 = pr_sent p @ [transmitted f]" using t sent1 by simp_all
    have kept: "others_kept (OAck ?r ?k) p p6"
    proof (rule others_keptI)
      fix ow c
      assume ow: "ow \<noteq> OAck ?r ?k" "owned p ow = Some c"
      then have o1: "owned p1 ow = Some c" using b(5) k by simp
      then have "c \<noteq> b" using sessions_invD(5) [OF b(1) o1, of "OAck ?r k"] b(3) ow(1) k by auto
      then have "block_bytes q c = block_bytes (pr_pool p1) c"
        using q(3) sessions_invD(4) [OF b(1) o1] by (simp add: pool_writes_def)
      then show "owned p6 ow = Some c \<and> block_bytes (pr_pool p6) c = block_bytes (pr_pool p) c"
        using own6 o1 pool6 b(6) ow k by simp
    qed
    obtain p2 where p2: "write_block (Some b) 0 (header_bytes (packed_header ?pl sid 1 rc sq)) p1 = Some p2"
      "(case (if n = 0 then None else ack) of
         None \<Rightarrow> Some p2
       | Some m \<Rightarrow> do {
           data \<leftarrow> mem_read m 0 (unat n);
           p3 \<leftarrow> write_block (Some b) HEADER_LEN data p2;
           write_tail_crc (Some b) ?pl p3 }) = Some ?p4"
      using q(1) unfolding bind_eq_Some_conv by blast
    have res: "send_ack dev sid sq rc ack n p = Some (True, p6)"
      unfolding send_ack_def Let_def
      by (simp only: False if_False alloc1 bind.bind_lunit prod.case option.case k s sid_s p2 addr snd p6(1)
          One_nat_def)
    have "0 < sid" using False by (simp add: word_gt_0)
    moreover have "sid < 32" using False by (simp add: word_less_nat_alt)
    ultimately show ?thesis
      using res pool6 inv6 kept own6 [of "OAck ?r ?k"] b(3) k qf p6(2) [of ?r ?k]
      by (intro exI [of _ True] exI [of _ p6]) simp
  qed
qed

subsection \<open>Retransmission is bounded\<close>

definition packet_in :: "proto \<Rightarrow> nat \<Rightarrow> bool" where
  "packet_in p b \<longleftrightarrow> 12 \<le> length (block_bytes (pr_pool p) b) \<and>
     (\<exists>sid a r s. header_of (block_bytes (pr_pool p) b) = packed_header (of_nat (length (block_bytes (pr_pool p) b))) sid a r s)"

text \<open>Every command session in use has a complete packet in its block.\<close>

definition sends_inv :: "proto \<Rightarrow> bool" where
  "sends_inv p \<longleftrightarrow> sessions_inv p \<and> (\<forall>i b. owned p (OCmd i) = Some b \<longrightarrow> packet_in p b)"

lemma sends_inv_others:
  assumes p: "sends_inv p" and q: "sessions_inv q" and kept: "others_kept (OCmd i) p q"
    and own: "\<And>ow. ow \<noteq> OCmd i \<Longrightarrow> owned q ow = owned p ow"
    and mine: "\<And>b. owned q (OCmd i) = Some b \<Longrightarrow> packet_in q b"
  shows "sends_inv q"
  unfolding sends_inv_def
proof (intro conjI allI impI)
  fix j b
  assume b: "owned q (OCmd j) = Some b"
  show "packet_in q b"
  proof (cases "j = i")
    case False
    then have "owned p (OCmd j) = Some b" using own b by simp
    moreover from this have "block_bytes (pr_pool q) b = block_bytes (pr_pool p) b"
      using kept False by (auto simp: others_kept_def)
    ultimately show ?thesis using p by (auto simp: sends_inv_def packet_in_def)
  qed (use b mine in simp)
qed (rule q)

lemma block_bytes_small:
  assumes "sessions_inv p" "owned p ow = Some b"
  shows "length (block_bytes (pr_pool p) b) < 2 ^ 16"
proof -
  have "length (block_bytes (pr_pool p) b) = mb_size (pl_table (pr_pool p) ! b)"
    using length_block_bytes [OF sessions_invD(1) [OF assms(1)] sessions_invD(4) [OF assms]] .
  also have "\<dots> \<le> BUFFER_SIZE"
    using pool_invD(2) [OF sessions_invD(1) [OF assms(1)] sessions_invD(4) [OF assms]] assms(1)
    by (simp add: block_end_def sessions_inv_def)
  finally show ?thesis by (simp add: protocol_consts)
qed

lemma send_session_packet:
  assumes inv: "sends_inv p" and own: "owned p (OCmd i) = Some b"
  shows "\<exists>ok. send_session dev i p =
     Some (ok, p\<lparr>pr_sent := pr_sent p @ [transmitted (block_bytes (pr_pool p) b)]\<rparr>)"
proof -
  have s: "sessions_inv p" and pk: "packet_in p b" using inv own by (auto simp: sends_inv_def)
  obtain sid a r sq where h: "header_of (block_bytes (pr_pool p) b) =
      packed_header (of_nat (length (block_bytes (pr_pool p) b))) sid a r sq"
    "12 \<le> length (block_bytes (pr_pool p) b)" using pk by (auto simp: packet_in_def)
  have "cs_memory_block (cmd_session_at p i) = Some b" using own by (simp add: owned_def split: if_splits)
  from send_session_ok [OF s own this refl h block_bytes_small [OF s own]] show ?thesis
    by (simp add: transmitted_def)
qed

definition expired :: "int \<Rightarrow> cmd_session \<Rightarrow> bool" where
  "expired now s \<longleftrightarrow> to_milliseconds (now - cs_pre_time_stamp s) > cs_ack_timeout s"

lemma repeat_check_step:
  assumes inv: "sends_inv p" and i: "i < SESSION_TABLE_NUM" and own: "owned p (OCmd i) = Some b"
    and retry: "cs_retry_time (cmd_session_at p i) > 0"
  obtains (wait) "\<not> expired now (cmd_session_at p i)" "repeat_check_session dev (\<lambda>_. now) i p = Some p"
  | (give_up) p' where "expired now (cmd_session_at p i)"
      "cs_sent (cmd_session_at p i) \<ge> cs_retry_time (cmd_session_at p i)"
      "repeat_check_session dev (\<lambda>_. now) i p = Some p'" "sends_inv p'" "others_kept (OCmd i) p p'"
      "\<not> cs_usage_flag (cmd_session_at p' i)" "pr_sent p' = pr_sent p"
  | (resend) p' where "expired now (cmd_session_at p i)"
      "cs_sent (cmd_session_at p i) < cs_retry_time (cmd_session_at p i)"
      "repeat_check_session dev (\<lambda>_. now) i p = Some p'" "sends_inv p'" "others_kept (OCmd i) p p'"
      "owned p' (OCmd i) = Some b" "block_bytes (pr_pool p') b = block_bytes (pr_pool p) b"
      "pr_sent p' = pr_sent p @ [transmitted (block_bytes (pr_pool p) b)]"
      "cmd_session_at p' i = (cmd_session_at p i)\<lparr>cs_pre_time_stamp := now, cs_sent := cs_sent (cmd_session_at p i) + 1\<rparr>"
proof -
  let ?s = "cmd_session_at p i"
  have sinv: "sessions_inv p" using inv by (simp add: sends_inv_def)
  have used: "cs_usage_flag ?s" using own by (simp add: owned_def split: if_splits)
  show ?thesis
  proof (cases "expired now ?s")
    case False
    then show ?thesis using wait by (simp add: repeat_check_session_def expired_def)
  next
    case ex: True
    show ?thesis
    proof (cases "cs_sent ?s \<ge> cs_retry_time ?s")
      case True
      obtain p' where p': "free_cmd_session i p = Some p'" "sessions_inv p'" "others_kept (OCmd i) p p'"
        "owned p' (OCmd i) = None" "\<And>ow. ow \<noteq> OCmd i \<Longrightarrow> owned p' ow = owned p ow" "pr_sent p' = pr_sent p"
        "cmd_session_at p' i = (if i = i then ?s\<lparr>cs_usage_flag := False\<rparr> else cmd_session_at p i)"
        by (rule free_session_others [OF sinv i, where j = i]) (rule that)
      have "sends_inv p'" by (rule sends_inv_others [OF inv p'(2,3)]) (use p'(4,5) in auto)
      then show ?thesis
        using give_up [OF ex True] p' used ex True retry by (simp add: repeat_check_session_def expired_def Let_def)
    next
      case False
      obtain ok where snd: "send_session dev i p =
          Some (ok, p\<lparr>pr_sent := pr_sent p @ [transmitted (block_bytes (pr_pool p) b)]\<rparr>)"
        using send_session_packet [OF inv own] by blast
      let ?p1 = "p\<lparr>pr_sent := pr_sent p @ [transmitted (block_bytes (pr_pool p) b)]\<rparr>"
      let ?s' = "?s\<lparr>cs_pre_time_stamp := now, cs_sent := cs_sent ?s + 1\<rparr>"
      let ?p2 = "set_cmd_session i ?s' ?p1"
      have len: "i < length (pr_cmd_table ?p1)" using sessions_invD(2) [OF sinv] i by simp
      have inv1: "sessions_inv ?p1" using sinv by simp
      have inv2: "sessions_inv ?p2" and own2: "owned ?p2 = owned ?p1"
        by (rule sessions_inv_touch [OF inv1 i]; use sessions_invD(6) [OF sinv i] in simp)+
      have kept: "others_kept (OCmd i) p ?p2" using own2 by (simp add: others_kept_def)
      have "sends_inv ?p2"
        by (rule sends_inv_others [OF inv inv2 kept]) (use own2 own inv in \<open>simp_all add: sends_inv_def packet_in_def\<close>)
      then show ?thesis
        using resend [of ?p2] ex False used retry snd kept own2 own len
        by (simp add: repeat_check_session_def expired_def Let_def)
    qed
  qed
qed

text \<open>Successive rounds of the polling loop as one session sees them.\<close>

primrec poll_session :: "(bytes \<Rightarrow> int) \<Rightarrow> nat \<Rightarrow> int list \<Rightarrow> proto \<Rightarrow> proto option" where
  "poll_session dev i [] p = Some p"
| "poll_session dev i (t # ts) p = do { p' \<leftarrow> repeat_check_session dev (\<lambda>_. t) i p; poll_session dev i ts p' }"

lemma poll_session_unused:
  "\<not> cs_usage_flag (cmd_session_at p i) \<Longrightarrow> poll_session dev i ts p = Some p"
  by (induction ts) (simp_all add: repeat_check_session_def Let_def)

lemma u16_Suc: "(x :: u16) < y \<Longrightarrow> unat (x + 1) = Suc (unat x)"
  using unsigned_less [of y, where 'a = nat] by (simp add: word_less_nat_alt unat_word_ariths)

lemma poll_session_bounded:
  assumes "sends_inv p" "i < SESSION_TABLE_NUM" "owned p (OCmd i) = Some b"
    "cs_retry_time (cmd_session_at p i) > 0"
  shows "\<exists>p' k. poll_session dev i ts p = Some p' \<and> sends_inv p' \<and> others_kept (OCmd i) p p' \<and>
    pr_sent p' = pr_sent p @ replicate k (transmitted (block_bytes (pr_pool p) b)) \<and>
    k \<le> unat (cs_retry_time (cmd_session_at p i)) - unat (cs_sent (cmd_session_at p i))"
  using assms(1,3,4)
proof (induction ts arbitrary: p)
  case Nil
  then show ?case by (intro exI [of _ p] exI [of _ 0]) (simp add: others_kept_def)
next
  case (Cons t ts)
  show ?case
  proof (cases rule: repeat_check_step [OF Cons.prems(1) assms(2) Cons.prems(2,3), of t dev,
      case_names wait give_up resend])
    case wait
    then show ?thesis using Cons by simp
  next
    case (give_up p')
    then show ?thesis using poll_session_unused [OF give_up(6)] by (intro exI [of _ p'] exI [of _ 0]) simp
  next
    case (resend p')
    have "cs_retry_time (cmd_session_at p' i) > 0" using resend Cons.prems by simp
    from Cons.IH [OF resend(4,6) this] obtain p'' k where k: "poll_session dev i ts p' = Some p''" "sends_inv p''"
      "others_kept (OCmd i) p' p''" "pr_sent p'' = pr_sent p' @ replicate k (transmitted (block_bytes (pr_pool p') b))"
      "k \<le> unat (cs_retry_time (cmd_session_at p' i)) - unat (cs_sent (cmd_session_at p' i))" by blast
    have "unat (cs_sent (cmd_session_at p i) + 1) = Suc (unat (cs_sent (cmd_session_at p i)))"
      using u16_Suc resend(2) by blast
    moreover have "unat (cs_sent (cmd_session_at p i)) < unat (cs_retry_time (cmd_session_at p i))"
      using resend(2) by (simp add: word_less_nat_alt)
    ultimately show ?thesis
      using k resend others_kept_trans [OF resend(5) k(3)]
      by (intro exI [of _ p''] exI [of _ "Suc k"]) simp
  qed
qed

text \<open>If every round comes later than the timeout after the one before, the session is given up.\<close>

fun spaced :: "int \<Rightarrow> int \<Rightarrow> int list \<Rightarrow> bool" where
  "spaced timeout prev [] = True"
| "spaced timeout prev (t # ts) = (to_milliseconds (t - prev) > timeout \<and> spaced timeout t ts)"

lemma poll_session_gives_up:
  assumes "sends_inv p" "i < SESSION_TABLE_NUM" "owned p (OCmd i) = Some b"
    "cs_retry_time (cmd_session_at p i) > 0"
    "spaced (cs_ack_timeout (cmd_session_at p i)) (cs_pre_time_stamp (cmd_session_at p i)) ts"
    "unat (cs_retry_time (cmd_session_at p i)) - unat (cs_sent (cmd_session_at p i)) < length ts"
  shows "\<exists>p'. poll_session dev i ts p = Some p' \<and> \<not> cs_usage_flag (cmd_session_at p' i)"
  using assms(1,3-6)
proof (induction ts arbitrary: p)
  case (Cons t ts)
  have ex: "expired t (cmd_session_at p i)" using Cons.prems(4) by (simp add: expired_def)
  show ?case
  proof (cases rule: repeat_check_step [OF Cons.prems(1) assms(2) Cons.prems(2,3), of t dev,
      case_names wait give_up resend])
    case wait
    then show ?thesis using ex by simp
  next
    case (give_up p')
    then show ?thesis using poll_session_unused [OF give_up(6)] by simp
  next
    case (resend p')
    have "unat (cs_sent (cmd_session_at p i) + 1) = Suc (unat (cs_sent (cmd_session_at p i)))"
      using u16_Suc resend(2) by blast
    moreover have "unat (cs_sent (cmd_session_at p i)) < unat (cs_retry_time (cmd_session_at p i))"
      using resend(2) by (simp add: word_less_nat_alt)
    ultimately show ?thesis using Cons.IH [OF resend(4,6)] Cons.prems resend by simp
  qed
qed simp

subsection \<open>Properties\<close>

lemma idle_proto_fits:
  assumes "0 < n" "18 + n \<le> 4096"
  shows "command_fits idle_proto n"
proof -
  have "used_size (pl_table (pr_pool idle_proto)) = 0"
    unfolding idle_proto_pool by (rule pool_init_used) (simp_all add: protocol_consts)
  then have "alloc_fits (pr_pool idle_proto) (18 + n)"
    using free_slot_exists_if_unused [OF sessions_invD(1) [OF idle_proto_sessions(1)]] idle_proto_sessions(1) assms
    by (simp add: alloc_fits_def sessions_inv_def protocol_consts)
  then show ?thesis using assms by (simp add: command_fits_def)
qed

lemma idle_proto_unused: "i < SESSION_TABLE_NUM \<Longrightarrow> \<not> cs_usage_flag (cmd_session_at idle_proto i)"
  by (simp add: idle_proto_def protocol_init_def cmd_session_of_setup)

lemma packet_in_command_frame:
  "block_bytes (pr_pool p) b = command_frame sid sq cs ci rc d \<Longrightarrow> packet_in p b"
  by (auto simp: packet_in_def header_of_command_frame)

lemma armed_example:
  "\<exists>p b. sends_inv p \<and> owned p (OCmd 2) = Some b \<and> cs_retry_time (cmd_session_at p 2) = 5 \<and>
     cs_sent (cmd_session_at p 2) = 1 \<and> cs_pre_time_stamp (cmd_session_at p 2) = 0 \<and>
     cs_ack_timeout (cmd_session_at p 2) = 50"
proof -
  have "\<not> cs_usage_flag (cmd_session_at idle_proto 2)" by (rule idle_proto_unused) (simp add: protocol_consts)
  then have pick: "pick_cmd_session CMD_SESSION_AUTO idle_proto = Some 2"
    by (simp add: pick_cmd_session_def SESSION_TABLE_NUM_def upt_rec)
  have fits: "command_fits idle_proto 1" by (rule idle_proto_fits) simp_all
  have mem: "1 \<le> length [0 :: u8]" "1 = unat (1 :: u16)" by simp_all
  obtain p b where p: "sessions_inv p" "others_kept (OCmd 2) idle_proto p"
    "\<And>ow. ow \<noteq> OCmd 2 \<Longrightarrow> owned p ow = owned idle_proto ow" "owned p (OCmd 2) = Some b"
    "block_bytes (pr_pool p) b = command_frame (of_nat 2) (next_seq idle_proto 2) 0 0 0 (take 1 [0])"
    "cmd_session_at p 2 = armed (cmd_session_at idle_proto 2) b (next_seq idle_proto 2) 0 0
       (max 50 (pr_poll_tick idle_proto)) 0 5"
    by (rule send_acked_ok [OF idle_proto_sessions(1) fits mem pick refl]) (rule that)
  have "sends_inv idle_proto" using idle_proto_sessions by (simp add: sends_inv_def)
  then have "sends_inv p"
    by (rule sends_inv_others [OF _ p(1,2,3)]) (use p(4) packet_in_command_frame [OF p(5)] in auto)
  moreover have "pr_poll_tick idle_proto = 10" by (simp add: idle_proto_def protocol_init_def setup_session_def)
  ultimately show ?thesis using p(4,6) by (intro exI [of _ p] exI [of _ b]) (simp add: armed_def)
qed

lemma nothing_owned_by_free_session:
  "\<not> cs_usage_flag (cmd_session_at p i) \<Longrightarrow> owned p (OCmd i) = None"
  by (simp add: owned_def)

lemma send_message_ok:
  assumes "sessions_inv p" "command_fits p n" "n = unat (ci_length ci)" "n \<le> length mem"
    "\<not> cs_usage_flag (cmd_session_at p 0)" "n \<le> 1005"
  shows "\<exists>p'. send_message dev ci (Some mem) now p = Some (True, None, p') \<and> sessions_inv p' \<and>
    pr_sent p' = pr_sent p @
      [command_frame 0 (pr_seq_num p) (ci_cmd_set ci) (ci_cmd_id ci) (ci_receiver ci) (take n mem)] \<and>
    pr_seq_num p' = pr_seq_num p + 1 \<and> owned p' = owned p \<and>
    (\<forall>ow b. owned p ow = Some b \<longrightarrow> block_bytes (pr_pool p') b = block_bytes (pr_pool p) b)"
proof -
  let ?f = "command_frame 0 (pr_seq_num p) (ci_cmd_set ci) (ci_cmd_id ci) (ci_receiver ci) (take n mem)"
  obtain p' where p': "send_cmd dev (ci_cmd_set ci) (ci_cmd_id ci) (ci_receiver ci) (Some mem) (ci_length ci)
      CMD_SESSION_0 None 50 5 now p = Some (True, map_option (\<lambda>h. h\<lparr>mh_is_ack := False,
        mh_seq_num := pr_seq_num p, mh_session_id := 0\<rparr>) None, p')"
    "sessions_inv p'" "others_kept (OCmd 0) p p'" "\<And>ow. owned p' ow = owned p ow"
    "pr_sent p' = pr_sent p @ [take ((18 + n) mod 1024) ?f]" "pr_seq_num p' = pr_seq_num p + 1"
    by (rule send_session_0_ok [OF assms(1,2,4,3,5)]) (rule that)
  have "take ((18 + n) mod 1024) ?f = ?f" using assms(4,6) by simp
  moreover have "block_bytes (pr_pool p') b = block_bytes (pr_pool p) b" if "owned p ow = Some b" for ow b
    using that p'(3) nothing_owned_by_free_session [OF assms(5)]
    by (cases "ow = OCmd 0") (auto simp: others_kept_def)
  ultimately show ?thesis using p' by (auto simp: send_message_def fun_eq_iff)
qed

text \<open>C8. \<open>SendMessage\<close> with a message of at most 1005 bytes that fits into the pool, while session 0
  is free, hands exactly the complete packet (header with its CRC-16, command prefix, data, CRC-32)
  to the serial device, reports success, advances the sequence number, gives the block back and
  leaves every other session's block and its contents alone.\<close>

theorem send_message_transmits_packet:
  assumes "sessions_inv p" "command_fits p n" "n = unat (ci_length ci)" "n \<le> length mem"
    "\<not> cs_usage_flag (cmd_session_at p 0)" "n \<le> 1005"
  shows "\<exists>p'. send_message dev ci (Some mem) now p = Some (True, None, p') \<and> sessions_inv p' \<and>
    pr_sent p' = pr_sent p @
      [command_frame 0 (pr_seq_num p) (ci_cmd_set ci) (ci_cmd_id ci) (ci_receiver ci) (take n mem)] \<and>
    pr_seq_num p' = pr_seq_num p + 1 \<and> owned p' = owned p \<and>
    (\<forall>ow b. owned p ow = Some b \<longrightarrow> block_bytes (pr_pool p') b = block_bytes (pr_pool p) b)"
  by (rule send_message_ok [OF assms])

theorem send_message_transmits_packet_witness:
  "\<exists>p'. send_message (\<lambda>bs. int (length bs))
      \<lparr>ci_cmd_set = 3, ci_cmd_id = 4, ci_need_ack = False, ci_sender = 0, ci_receiver = 1, ci_length = 2\<rparr>
      (Some [0x11, 0x22]) 0 idle_proto = Some (True, None, p') \<and>
    pr_sent p' = pr_sent idle_proto @ [command_frame 0 (pr_seq_num idle_proto) 3 4 1 [0x11, 0x22]]"
proof -
  let ?ci = "\<lparr>ci_cmd_set = 3, ci_cmd_id = 4, ci_need_ack = False, ci_sender = 0, ci_receiver = 1, ci_length = 2\<rparr>"
  have "\<not> cs_usage_flag (cmd_session_at idle_proto 0)" by (rule idle_proto_unused) (simp add: protocol_consts)
  moreover have "command_fits idle_proto 2" by (rule idle_proto_fits) simp_all
  ultimately obtain p' where "send_message (\<lambda>bs. int (length bs)) ?ci (Some [0x11, 0x22]) 0 idle_proto = Some (True, None, p')"
    "pr_sent p' = pr_sent idle_proto @ [command_frame 0 (pr_seq_num idle_proto) (ci_cmd_set ?ci) (ci_cmd_id ?ci)
      (ci_receiver ?ci) (take 2 [0x11, 0x22])]"
    using send_message_transmits_packet [OF idle_proto_sessions(1), of 2 ?ci "[0x11, 0x22]"
        "\<lambda>bs. int (length bs)" 0] by fastforce
  then show ?thesis by (intro exI [of _ p']) simp
qed

text \<open>A longer message still makes \<open>SendMessage\<close> report success, but the ten bits of the length
  field keep only the packet length modulo 1024, so the device gets that prefix of the packet only.\<close>

theorem send_message_truncates_long_packet:
  assumes "sessions_inv p" "command_fits p n" "n = unat (ci_length ci)" "n \<le> length mem"
    "\<not> cs_usage_flag (cmd_session_at p 0)" "1005 < n"
  shows "\<exists>p' f. send_message dev ci (Some mem) now p = Some (True, None, p') \<and>
    f = command_frame 0 (pr_seq_num p) (ci_cmd_set ci) (ci_cmd_id ci) (ci_receiver ci) (take n mem) \<and>
    pr_sent p' = pr_sent p @ [take (length f mod 1024) f] \<and> length f mod 1024 < length f"
proof -
  let ?f = "command_frame 0 (pr_seq_num p) (ci_cmd_set ci) (ci_cmd_id ci) (ci_receiver ci) (take n mem)"
  obtain p' where p': "send_cmd dev (ci_cmd_set ci) (ci_cmd_id ci) (ci_receiver ci) (Some mem) (ci_length ci)
      CMD_SESSION_0 None 50 5 now p = Some (True, map_option (\<lambda>h. h\<lparr>mh_is_ack := False,
        mh_seq_num := pr_seq_num p, mh_session_id := 0\<rparr>) None, p')"
    "pr_sent p' = pr_sent p @ [take ((18 + n) mod 1024) ?f]"
    by (rule send_session_0_ok [OF assms(1,2,4,3,5)]) (rule that)
  have "length ?f = 18 + n" using assms(4) by simp
  moreover have "(18 + n) mod 1024 < 1024" by simp
  then have "(18 + n) mod 1024 < 18 + n" using assms(6) by linarith
  ultimately show ?thesis using p' by (intro exI [of _ p'] exI [of _ ?f]) (simp add: send_message_def)
qed

theorem send_message_truncates_long_packet_witness:
  "\<exists>p'. send_message (\<lambda>bs. int (length bs))
      \<lparr>ci_cmd_set = 3, ci_cmd_id = 4, ci_need_ack = False, ci_sender = 0, ci_receiver = 1, ci_length = 1006\<rparr>
      (Some (replicate 1006 0)) 0 idle_proto = Some (True, None, p') \<and> pr_sent p' = pr_sent idle_proto @ [[]]"
proof -
  let ?ci = "\<lparr>ci_cmd_set = 3, ci_cmd_id = 4, ci_need_ack = False, ci_sender = 0, ci_receiver = 1, ci_length = 1006\<rparr>"
  have "\<not> cs_usage_flag (cmd_session_at idle_proto 0)" by (rule idle_proto_unused) (simp add: protocol_consts)
  moreover have "command_fits idle_proto 1006" by (rule idle_proto_fits) simp_all
  ultimately obtain p' f where "send_message (\<lambda>bs. int (length bs)) ?ci (Some (replicate 1006 0)) 0 idle_proto =
      Some (True, None, p')" "f = command_frame 0 (pr_seq_num idle_proto) (ci_cmd_set ?ci) (ci_cmd_id ?ci)
      (ci_receiver ?ci) (take 1006 (replicate 1006 0))"
    "pr_sent p' = pr_sent idle_proto @ [take (length f mod 1024) f]"
    using send_message_truncates_long_packet [OF idle_proto_sessions(1), of 1006 ?ci
        "replicate 1006 0" "\<lambda>bs. int (length bs)" 0] by fastforce
  then show ?thesis by (intro exI [of _ p']) simp
qed

text \<open>C9. \<open>SendRequest\<close> takes the first free automatic session, stores the packet in its block, sends
  it and arms the retransmission: five attempts, 50 ms apart or the poll tick if that is longer, the
  message header filled in, under a sequence number that differs from the one the session used last.\<close>

theorem send_request_arms_session:
  assumes "sessions_inv p" "command_fits p n" "n = unat (ci_length ci)" "n \<le> length mem"
    "pick_cmd_session CMD_SESSION_AUTO p = Some i"
  shows "\<exists>p' b sq. send_request dev ci mh (Some mem) now p =
      Some (True, Some (mh\<lparr>mh_is_ack := False, mh_seq_num := sq, mh_session_id := of_nat i\<rparr>), p') \<and>
    sessions_inv p' \<and> others_kept (OCmd i) p p' \<and> owned p' (OCmd i) = Some b \<and>
    block_bytes (pr_pool p') b =
      command_frame (of_nat i) sq (ci_cmd_set ci) (ci_cmd_id ci) (ci_receiver ci) (take n mem) \<and>
    pr_sent p' = pr_sent p @ [transmitted (block_bytes (pr_pool p') b)] \<and>
    ucast sq \<noteq> cs_pre_seq_num (cmd_session_at p i) \<and> pr_seq_num p' = sq + 1 \<and>
    cs_sent (cmd_session_at p' i) = 1 \<and> cs_retry_time (cmd_session_at p' i) = 5 \<and>
    cs_pre_time_stamp (cmd_session_at p' i) = now \<and>
    cs_ack_timeout (cmd_session_at p' i) = max 50 (pr_poll_tick p)"
proof -
  let ?sq = "next_seq p i"
  have n: "n \<le> length mem" "n = unat (ci_length ci)" using assms by auto
  obtain p' b where p': "send_cmd_acked dev CMD_SESSION_AUTO (of_int 5) (ci_cmd_set ci) (ci_cmd_id ci) (ci_receiver ci) mem
      (ci_length ci) (of_nat (18 + n)) (Some mh) 50 now p = Some (True, map_option (\<lambda>h. h\<lparr>mh_is_ack := False,
        mh_seq_num := ?sq, mh_session_id := of_nat i\<rparr>) (Some mh), p')"
    "sessions_inv p'" "others_kept (OCmd i) p p'" "owned p' (OCmd i) = Some b"
    "block_bytes (pr_pool p') b =
      command_frame (of_nat i) ?sq (ci_cmd_set ci) (ci_cmd_id ci) (ci_receiver ci) (take n mem)"
    "pr_sent p' = pr_sent p @ [take ((18 + n) mod 1024)
      (command_frame (of_nat i) ?sq (ci_cmd_set ci) (ci_cmd_id ci) (ci_receiver ci) (take n mem))]"
    "pr_seq_num p' = ?sq + 1"
    "cmd_session_at p' i = armed (cmd_session_at p i) b ?sq (ci_cmd_set ci) (ci_cmd_id ci)
      (max 50 (pr_poll_tick p)) now (of_int 5)"
    by (rule send_acked_ok [OF assms(1,2) n assms(5) refl]) (rule that)
  have "ci_length ci \<noteq> 0" "18 + unat (ci_length ci) < 2 ^ 16"
    using assms(2,3) command_fits_bound [OF assms(1,2)] by (auto simp: command_fits_def)
  note eq = send_cmd_cases(2) [OF this]
  show ?thesis
    using p' n(1) next_seq_fresh [of p i]
    by (intro exI [of _ p'] exI [of _ b] exI [of _ ?sq])
      (simp add: send_request_def eq assms(3) [symmetric] armed_def transmitted_def del: of_nat_add)
qed

theorem send_request_arms_session_witness:
  "\<exists>p' b sq. send_request (\<lambda>bs. int (length bs))
      \<lparr>ci_cmd_set = 3, ci_cmd_id = 4, ci_need_ack = True, ci_sender = 0, ci_receiver = 1, ci_length = 2\<rparr>
      \<lparr>mh_seq_num = 0, mh_session_id = 0, mh_is_ack = False\<rparr> (Some [0x11, 0x22]) 7 idle_proto =
        Some (True, Some \<lparr>mh_seq_num = sq, mh_session_id = 2, mh_is_ack = False\<rparr>, p') \<and>
     owned p' (OCmd 2) = Some b \<and> block_bytes (pr_pool p') b = command_frame 2 sq 3 4 1 [0x11, 0x22]"
proof -
  let ?ci = "\<lparr>ci_cmd_set = 3, ci_cmd_id = 4, ci_need_ack = True, ci_sender = 0, ci_receiver = 1, ci_length = 2\<rparr>"
  let ?mh = "\<lparr>mh_seq_num = 0, mh_session_id = 0, mh_is_ack = False\<rparr>"
  have "\<not> cs_usage_flag (cmd_session_at idle_proto 2)" by (rule idle_proto_unused) (simp add: protocol_consts)
  then have "pick_cmd_session CMD_SESSION_AUTO idle_proto = Some 2"
    by (simp add: pick_cmd_session_def SESSION_TABLE_NUM_def upt_rec)
  moreover have "command_fits idle_proto 2" by (rule idle_proto_fits) simp_all
  ultimately obtain p' b sq where "send_request (\<lambda>bs. int (length bs)) ?ci ?mh (Some [0x11, 0x22]) 7 idle_proto =
      Some (True, Some (?mh\<lparr>mh_is_ack := False, mh_seq_num := sq, mh_session_id := of_nat 2\<rparr>), p')"
    "owned p' (OCmd 2) = Some b" "block_bytes (pr_pool p') b =
      command_frame (of_nat 2) sq (ci_cmd_set ?ci) (ci_cmd_id ?ci) (ci_receiver ?ci) (take 2 [0x11, 0x22])"
    using send_request_arms_session [OF idle_proto_sessions(1), of 2 ?ci "[0x11, 0x22]" 2
      "\<lambda>bs. int (length bs)" ?mh 7] by fastforce
  then show ?thesis by (intro exI [of _ p'] exI [of _ b] exI [of _ sq]) simp
qed

text \<open>C10. Retransmission is bounded and repeats the packet itself: whatever the times of the polling
  rounds, a session with a positive retry count transmits at most that many times in total, each time
  the bytes stored in its block, and touches no other session.\<close>

theorem retransmission_bounded:
  assumes "sends_inv p" "i < SESSION_TABLE_NUM" "owned p (OCmd i) = Some b"
    "cs_retry_time (cmd_session_at p i) > 0"
  shows "\<exists>p' k. poll_session dev i ts p = Some p' \<and> sends_inv p' \<and> others_kept (OCmd i) p p' \<and>
    pr_sent p' = pr_sent p @ replicate k (transmitted (block_bytes (pr_pool p) b)) \<and>
    k \<le> unat (cs_retry_time (cmd_session_at p i)) - unat (cs_sent (cmd_session_at p i))"
  by (rule poll_session_bounded [OF assms])

theorem retransmission_bounded_witness:
  "\<exists>p b p' k. owned p (OCmd 2) = Some b \<and> poll_session (\<lambda>bs. int (length bs)) 2 [60000000, 70000000] p = Some p' \<and>
     pr_sent p' = pr_sent p @ replicate k (transmitted (block_bytes (pr_pool p) b)) \<and> k \<le> 4"
proof -
  obtain p b where p: "sends_inv p" "owned p (OCmd 2) = Some b" "cs_retry_time (cmd_session_at p 2) = 5"
    "cs_sent (cmd_session_at p 2) = 1" using armed_example by blast
  have "2 < SESSION_TABLE_NUM" by (simp add: protocol_consts)
  moreover have "cs_retry_time (cmd_session_at p 2) > 0" using p(3) by simp
  ultimately show ?thesis
    using retransmission_bounded [OF p(1) _ p(2), of "\<lambda>bs. int (length bs)" "[60000000, 70000000]"] p(2-4) by fastforce
qed

text \<open>C11. An unacknowledged session does not stay forever: once the polling rounds that came later
  than the timeout after their predecessor outnumber the attempts left, its session is free again.\<close>

theorem retransmission_gives_up:
  assumes "sends_inv p" "i < SESSION_TABLE_NUM" "owned p (OCmd i) = Some b"
    "cs_retry_time (cmd_session_at p i) > 0"
    "spaced (cs_ack_timeout (cmd_session_at p i)) (cs_pre_time_stamp (cmd_session_at p i)) ts"
    "unat (cs_retry_time (cmd_session_at p i)) - unat (cs_sent (cmd_session_at p i)) < length ts"
  shows "\<exists>p'. poll_session dev i ts p = Some p' \<and> \<not> cs_usage_flag (cmd_session_at p' i)"
  by (rule poll_session_gives_up [OF assms])

theorem retransmission_gives_up_witness:
  "\<exists>p p'. cs_usage_flag (cmd_session_at p 2) \<and>
     poll_session (\<lambda>bs. int (length bs)) 2 [60000000, 120000000, 180000000, 240000000, 300000000] p = Some p' \<and>
     \<not> cs_usage_flag (cmd_session_at p' 2)"
proof -
  let ?ts = "[60000000, 120000000, 180000000, 240000000, 300000000] :: int list"
  obtain p b where p: "sends_inv p" "owned p (OCmd 2) = Some b" "cs_retry_time (cmd_session_at p 2) = 5"
    "cs_sent (cmd_session_at p 2) = 1" "cs_pre_time_stamp (cmd_session_at p 2) = 0"
    "cs_ack_timeout (cmd_session_at p 2) = 50" using armed_example by blast
  have "2 < SESSION_TABLE_NUM" by (simp add: protocol_consts)
  moreover have "cs_retry_time (cmd_session_at p 2) > 0" using p(3) by simp
  moreover have "spaced 50 0 ?ts" by (simp add: to_milliseconds_def)
  moreover have "cs_usage_flag (cmd_session_at p 2)" using p(2) by (simp add: owned_def split: if_splits)
  ultimately show ?thesis
    using retransmission_gives_up [OF p(1) _ p(2), of ?ts "\<lambda>bs. int (length bs)"] p(3-6) by fastforce
qed


end
