(* ===== verification/FrameParser.thy ===== *)
theory FrameParser
  imports Packet "HOL-Library.Sublist"
begin

text \<open>
  What the receive pipeline promises, on lists: an abstract packet parser with a window of bytes
  that may start a packet and a list of bytes still to be looked at. A window of twelve bytes is
  kept if it looks like a header and loses its first byte otherwise; a window as long as its header
  says is delivered if its CRC-32 is right, and otherwise loses its first byte while everything
  behind the header is looked at again. \<open>ProtocolRecv\<close> proves that the buffer manipulations of
  \<open>protocol.cpp\<close> implement this parser.
\<close>

subsection \<open>The parser\<close>

definition frame_length :: "bytes \<Rightarrow> nat" where
  "frame_length w = unat (h_length (header_of w))"

text \<open>The test of \<open>VerifyHeader\<close> on the first twelve bytes.\<close>

definition header_ok :: "bytes \<Rightarrow> bool" where
  "header_ok w \<longleftrightarrow>
     (let h = header_of w in
       h_sof h = SOF \<and> ucast (h_version h) = VERSION \<and> unat (h_length h) < MAX_PACK_SIZE \<and>
       h_reserved0 h = 0 \<and> h_reserved1 h = 0 \<and> (h_receiver h = DEVICE \<or> h_receiver h = 0xFF) \<and>
       crc_head_check (take HEADER_LEN w))"

datatype parsed = Keep bytes | Deliver bytes bytes | Rescan bytes bytes

definition last_bytes :: "nat \<Rightarrow> 'a list \<Rightarrow> 'a list" where
  "last_bytes n xs = drop (length xs - n) xs"

text \<open>One byte: the window it leaves, with the packet it completes or the bytes to look at again.\<close>

definition feed :: "bytes \<Rightarrow> u8 \<Rightarrow> parsed" where
  "feed w x =
     (let w' = (if length w < MAX_PACK_SIZE then w @ [x] else []) in
      if length w' < HEADER_LEN then Keep w'
      else if length w' = HEADER_LEN then
        if header_ok w' then
          if frame_length w' = HEADER_LEN then Deliver w' (last_bytes (HEADER_LEN - 1) w') else Keep w'
        else Keep (tl w')
      else if length w' = frame_length w' then
        if crc_tail_check w' then Deliver w' (last_bytes (HEADER_LEN - 1) w')
        else Rescan (tl (take HEADER_LEN w')) (drop HEADER_LEN w')
      else Keep w')"

lemma length_last_bytes [simp]: "length (last_bytes n xs) = min n (length xs)"
  by (simp add: last_bytes_def)

lemma suffix_last_bytes: "suffix (last_bytes n xs) xs"
  by (simp add: last_bytes_def suffix_drop)

text \<open>How a byte can be taken, with what is known of the window in each case.\<close>

lemma feed_cases:
  obtains (keep) w' where "feed w x = Keep w'" "suffix w' (w @ [x])"
  | (deliver) w' where "feed w x = Deliver (w @ [x]) w'" "suffix w' (w @ [x])" "length w' = 11"
      "length w + 1 = frame_length (w @ [x])" "12 \<le> length w + 1" "length w + 1 = 12 \<Longrightarrow> header_ok (w @ [x])"
      "length w + 1 \<noteq> 12 \<Longrightarrow> crc_tail_check (w @ [x])"
  | (rescan) w' ys where "feed w x = Rescan w' ys" "w' @ ys = tl (w @ [x])" "length w' = 11"
      "length w + 1 = frame_length (w @ [x])" "12 < length w + 1" "length ys = length w - 11"
proof (cases "length w < MAX_PACK_SIZE")
  case False
  then have "feed w x = Keep []" by (simp add: feed_def HEADER_LEN_def)
  then show ?thesis using keep by simp
next
  case True
  let ?w = "w @ [x]"
  consider "length ?w < HEADER_LEN" | "length ?w = HEADER_LEN" | "HEADER_LEN < length ?w" by linarith
  then show ?thesis
  proof cases
    case 1
    then have "feed w x = Keep ?w" using True by (simp add: feed_def Let_def)
    then show ?thesis using keep by simp
  next
    case 2
    show ?thesis
    proof (cases "header_ok ?w")
      case False
      then have "feed w x = Keep (tl ?w)" using True 2 by (simp add: feed_def Let_def)
      then show ?thesis using keep [of "tl ?w"] suffix_tl [of ?w] by blast
    next
      case ok: True
      show ?thesis
      proof (cases "frame_length ?w = HEADER_LEN")
        case len: True
        then have "feed w x = Deliver ?w (last_bytes (HEADER_LEN - 1) ?w)"
          using True 2 ok by (simp add: feed_def Let_def)
        then show ?thesis
          by (rule deliver) (use 2 len ok in \<open>simp_all add: HEADER_LEN_def suffix_last_bytes del: suffix_snoc\<close>)
      next
        case False
        then have "feed w x = Keep ?w" using True 2 ok by (simp add: feed_def Let_def)
        then show ?thesis using keep by simp
      qed
    qed
  next
    case 3
    show ?thesis
    proof (cases "length ?w = frame_length ?w")
      case False
      then have "feed w x = Keep ?w" using True 3 by (simp add: feed_def Let_def)
      then show ?thesis using keep by simp
    next
      case len: True
      show ?thesis
      proof (cases "crc_tail_check ?w")
        case ok: True
        then have "feed w x = Deliver ?w (last_bytes (HEADER_LEN - 1) ?w)"
          using True 3 len by (simp add: feed_def Let_def)
        then show ?thesis
          by (rule deliver) (use 3 len ok in \<open>simp_all add: HEADER_LEN_def suffix_last_bytes del: suffix_snoc\<close>)
      next
        case False
        then have "feed w x = Rescan (tl (take HEADER_LEN ?w)) (drop HEADER_LEN ?w)"
          using True 3 len by (simp add: feed_def Let_def)
        moreover have "tl (take HEADER_LEN ?w) @ drop HEADER_LEN ?w = tl ?w"
          using 3 by (metis append_take_drop_id length_greater_0_conv take_eq_Nil tl_append2
              HEADER_LEN_def list.size(3) not_less_zero zero_less_numeral)
        moreover have "length (tl (take HEADER_LEN ?w)) = 11" "length (drop HEADER_LEN ?w) = length w - 11"
          using 3 by (auto simp: HEADER_LEN_def min_def)
        ultimately show ?thesis using rescan 3 len by (simp add: HEADER_LEN_def)
      qed
    qed
  qed
qed

text \<open>
  The parser over the bytes still to be looked at; \<open>d\<close> handles a packet and says whether it
  produced a message, \<open>f\<close> is that answer for the last byte. Looking at a byte again costs one byte
  of the total, so the recursion ends.
\<close>

function (sequential) parse :: "(bytes \<Rightarrow> 's \<Rightarrow> (bool \<times> 's) option) \<Rightarrow> bool \<Rightarrow> bytes \<Rightarrow> bytes \<Rightarrow> 's \<Rightarrow>
    (bool \<times> bytes \<times> 's) option" where
  "parse d f w [] s = Some (f, w, s)"
| "parse d f w (x # xs) s = (case feed w x of
     Keep w' \<Rightarrow> parse d False w' xs s
   | Deliver fr w' \<Rightarrow> (case d fr s of None \<Rightarrow> None | Some (f', s') \<Rightarrow> parse d f' w' xs s')
   | Rescan w' ys \<Rightarrow> parse d False w' (ys @ xs) s)"
  by pat_completeness auto

termination
proof (relation "measures [\<lambda>(d, f, w, xs, s). length w + length xs, \<lambda>(d, f, w, xs, s). length xs]", goal_cases)
  case 1
  then show ?case by simp
next
  case (2 d f w x xs s w')
  then show ?case by (cases rule: feed_cases [of w x]) (auto dest: suffix_length_le)
next
  case (3 d f w x xs s fr w' y f' s')
  then show ?case by (cases rule: feed_cases [of w x]) (auto dest: suffix_length_le)
next
  case (4 d f w x xs s w' ys)
  then show ?case by (cases rule: feed_cases [of w x]) auto
qed


subsection \<open>Only valid packets are delivered\<close>

definition valid_frame :: "bytes \<Rightarrow> bool" where
  "valid_frame fr \<longleftrightarrow> header_ok fr \<and> length fr = frame_length fr \<and> 12 \<le> length fr \<and>
     (length fr \<noteq> 12 \<longrightarrow> crc_tail_check fr)"

text \<open>A window of twelve bytes or more has passed the header test.\<close>

definition window_ok :: "bytes \<Rightarrow> bool" where
  "window_ok w \<longleftrightarrow> (12 \<le> length w \<longrightarrow> header_ok w)"

lemma header_ok_append: "12 \<le> length w \<Longrightarrow> header_ok (w @ v) = header_ok w"
  by (simp add: header_ok_def HEADER_LEN_def)

lemma frame_length_append: "12 \<le> length w \<Longrightarrow> frame_length (w @ v) = frame_length w"
  by (simp add: frame_length_def)

lemma window_ok_short: "length w < 12 \<Longrightarrow> window_ok w"
  by (simp add: window_ok_def)

lemma feed_window_ok:
  assumes "window_ok w"
  shows "feed w x = Keep w' \<Longrightarrow> window_ok w'" "feed w x = Deliver fr w' \<Longrightarrow> window_ok w' \<and> valid_frame fr"
    "feed w x = Rescan w' ys \<Longrightarrow> window_ok w'"
proof -
  have ext: "window_ok (w @ [x])" if "length w \<noteq> 11" 
    using assms that by (cases "12 \<le> length w") (auto simp: window_ok_def header_ok_append)
  show "window_ok w'" if "feed w x = Keep w'"
    using that ext by (auto simp: feed_def Let_def HEADER_LEN_def window_ok_def split: if_splits)
  show "window_ok w' \<and> valid_frame fr" if d: "feed w x = Deliver fr w'"
  proof (cases rule: feed_cases [of w x, case_names keep deliver rescan])
    case (deliver v)
    then have "window_ok (w @ [x])"
      using ext by (cases "length w = 11") (auto simp: window_ok_def)
    then have "header_ok (w @ [x])" using deliver(5) by (simp add: window_ok_def)
    then show ?thesis using d deliver by (auto simp: valid_frame_def window_ok_def)
  qed (use d in simp_all)
  show "window_ok w'" if r: "feed w x = Rescan w' ys"
    by (cases rule: feed_cases [of w x, case_names keep deliver rescan]) (use r in \<open>auto simp: window_ok_def\<close>)
qed

text \<open>
  The contract of the packet handler, for the parser's clients: it accepts every valid packet that
  satisfies \<open>ok\<close> and keeps an invariant. The parser then returns on every input whose valid packets
  all are \<open>ok\<close>, hands over valid pieces of the input only, and keeps the invariant.
\<close>

locale frame_sink =
  fixes d :: "bytes \<Rightarrow> 's \<Rightarrow> (bool \<times> 's) option"
    and P :: "'s \<Rightarrow> bool"
    and ok :: "bytes \<Rightarrow> bool"
  assumes accept: "valid_frame fr \<Longrightarrow> ok fr \<Longrightarrow> P s \<Longrightarrow> \<exists>f s'. d fr s = Some (f, s') \<and> P s'"
begin

lemma parse_total:
  assumes "d' = d" "window_ok w" "P s" "\<And>fr. sublist fr (w @ xs) \<Longrightarrow> valid_frame fr \<Longrightarrow> ok fr"
  shows "\<exists>f' w' s'. parse d' f w xs s = Some (f', w', s') \<and> P s' \<and> window_ok w' \<and> suffix w' (w @ xs)"
  using assms
proof (induction d' f w xs s rule: parse.induct)
  case (1 d' f w s)
  then show ?case by simp
next
  case (2 d' f w x xs s)
  note IH = 2(1-3) and d' = 2(4) and wok = 2(5) and Ps = 2(6) and okf = 2(7)
  show ?case
  proof (cases rule: feed_cases [of w x, case_names keep deliver rescan])
    case (keep w')
    have suf: "suffix (w' @ xs) (w @ x # xs)" using keep(2) by (auto simp: suffix_def)
    have "\<exists>f'' w'' s''. parse d' False w' xs s = Some (f'', w'', s'') \<and> P s'' \<and> window_ok w'' \<and> suffix w'' (w' @ xs)"
    proof (rule IH(1) [OF keep(1) d'])
      show "window_ok w'" using feed_window_ok(1) [OF wok keep(1)] .
      show "ok fr" if "sublist fr (w' @ xs)" "valid_frame fr" for fr
        using okf [OF sublist_order.order.trans [OF that(1) suffix_imp_sublist [OF suf]] that(2)] .
    qed (rule Ps)
    then obtain f'' w'' s'' where r: "parse d' False w' xs s = Some (f'', w'', s'')" "P s''" "window_ok w''"
      "suffix w'' (w' @ xs)" by blast
    from r(4) suf have "suffix w'' (w @ x # xs)" by (rule suffix_order.trans)
    then show ?thesis using r keep(1) by simp
  next
    case (deliver w')
    have suf: "suffix (w' @ xs) (w @ x # xs)" using deliver(2) by (auto simp: suffix_def)
    have fr: "valid_frame (w @ [x])" "window_ok w'" using feed_window_ok(2) [OF wok deliver(1)] by simp_all
    have "sublist (w @ [x]) ((w @ [x]) @ xs)" by (rule sublist_append_rightI)
    then have sub: "sublist (w @ [x]) (w @ x # xs)" by simp
    from accept [OF fr(1) okf [OF sub fr(1)] Ps] d'
    obtain f' s' where d: "d' (w @ [x]) s = Some (f', s')" "P s'" by blast
    have "\<exists>f'' w'' s''. parse d' f' w' xs s' = Some (f'', w'', s'') \<and> P s'' \<and> window_ok w'' \<and> suffix w'' (w' @ xs)"
    proof (rule IH(2) [OF deliver(1) d(1) refl d'])
      show "ok fr" if "sublist fr (w' @ xs)" "valid_frame fr" for fr
        using okf [OF sublist_order.order.trans [OF that(1) suffix_imp_sublist [OF suf]] that(2)] .
    qed (use fr d in simp_all)
    then obtain f'' w'' s'' where r: "parse d' f' w' xs s' = Some (f'', w'', s'')" "P s''" "window_ok w''"
      "suffix w'' (w' @ xs)" by blast
    from r(4) suf have "suffix w'' (w @ x # xs)" by (rule suffix_order.trans)
    then show ?thesis using r deliver(1) d(1) by simp
  next
    case (rescan w' ys)
    have suf: "suffix (w' @ ys @ xs) (w @ x # xs)"
    proof -
      have "w @ x # xs = [hd (w @ [x])] @ tl (w @ [x]) @ xs" by (cases w) simp_all
      also have "\<dots> = [hd (w @ [x])] @ w' @ ys @ xs" unfolding rescan(2) [symmetric] by simp
      finally show ?thesis unfolding suffix_def by blast
    qed
    have "\<exists>f'' w'' s''. parse d' False w' (ys @ xs) s = Some (f'', w'', s'') \<and> P s'' \<and> window_ok w'' \<and>
        suffix w'' (w' @ ys @ xs)"
    proof (rule IH(3) [OF rescan(1) d'])
      show "window_ok w'" using feed_window_ok(3) [OF wok rescan(1)] .
      show "ok fr" if "sublist fr (w' @ ys @ xs)" "valid_frame fr" for fr
        using okf [OF sublist_order.order.trans [OF that(1) suffix_imp_sublist [OF suf]] that(2)] .
    qed (rule Ps)
    then obtain f'' w'' s'' where r: "parse d' False w' (ys @ xs) s = Some (f'', w'', s'')" "P s''" "window_ok w''"
      "suffix w'' (w' @ ys @ xs)" by blast
    from r(4) suf have "suffix w'' (w @ x # xs)" by (rule suffix_order.trans)
    then show ?thesis using r rescan(1) by simp
  qed
qed

end
subsection \<open>Complete packets are delivered\<close>

lemma feed_short:
  assumes "length w < 11"
  shows "feed w x = Keep (w @ [x])"
  using assms by (simp add: feed_def Let_def protocol_consts)

lemma feed_no_header:
  assumes "length w = 11" "\<not> header_ok (w @ [x])"
  shows "feed w x = Keep (tl (w @ [x]))"
  using assms by (simp add: feed_def Let_def protocol_consts)

lemma feed_inside:
  assumes "valid_frame fr" "12 \<le> k" "Suc k < length fr"
  shows "feed (take k fr) (fr ! k) = Keep (take (Suc k) fr)"
proof -
  have "frame_length (take (Suc k) fr) = frame_length fr"
    using assms frame_length_append [of "take (Suc k) fr" "drop (Suc k) fr"] by simp
  moreover have "length fr < MAX_PACK_SIZE"
    using assms(1) by (simp add: valid_frame_def header_ok_def frame_length_def Let_def)
  ultimately show ?thesis
    using assms by (simp add: feed_def Let_def HEADER_LEN_def valid_frame_def take_Suc_conv_app_nth [symmetric])
qed

text \<open>The bytes before the packet do not look like a header at any offset.\<close>

definition no_false_header :: "bytes \<Rightarrow> bytes \<Rightarrow> bool" where
  "no_false_header w fr \<longleftrightarrow> (\<forall>i < length w. \<not> header_ok (take 12 (drop i (w @ fr))))"

lemma no_false_header_Nil [simp]: "no_false_header [] fr"
  by (simp add: no_false_header_def)

lemma tl_window:
  assumes "11 \<le> length z"
  shows "tl (drop (length z - 11) z @ [x]) = last_bytes 11 (z @ [x])"
proof -
  have "drop (length z - 11) z @ [x] = drop (length z - 11) (z @ [x])" by simp
  moreover have "tl (drop n y) = drop (Suc n) y" for n and y :: "'a list" by (simp add: drop_Suc tl_drop)
  moreover have "Suc (length z - 11) = length (z @ [x]) - 11" using assms by simp
  ultimately show ?thesis by (simp only: last_bytes_def)
qed

text \<open>The window after \<open>k\<close> bytes of the packet: the last eleven bytes seen, until the header is complete.\<close>

definition window_after :: "bytes \<Rightarrow> bytes \<Rightarrow> nat \<Rightarrow> bytes" where
  "window_after w fr k = (if k \<le> 11 then last_bytes 11 (w @ take k fr) else take k fr)"

lemma window_after_0: "length w \<le> 11 \<Longrightarrow> window_after w fr 0 = w"
  by (simp add: window_after_def last_bytes_def)

lemma feed_approach:
  assumes w: "no_false_header w fr" and k: "k < 11" and fr: "12 \<le> length fr"
  shows "feed (window_after w fr k) (fr ! k) = Keep (window_after w fr (Suc k))"
proof -
  let ?z = "w @ take k fr" and ?x = "fr ! k"
  have kl: "k < length fr" "take (Suc k) fr = take k fr @ [?x]"
    using k fr by (simp_all add: take_Suc_conv_app_nth)
  have "feed (last_bytes 11 ?z) ?x = Keep (last_bytes 11 (?z @ [?x]))"
  proof (cases "length ?z < 11")
    case True
    then show ?thesis by (simp add: feed_short last_bytes_def)
  next
    case False
    let ?i = "length ?z - 11"
    have i: "?i < length w" using k False kl fr by simp
    have "take 12 (drop ?i (w @ fr)) = drop ?i ?z @ [?x]"
    proof -
      have "w @ fr = (?z @ [?x]) @ drop (Suc k) fr"
        by (metis append.assoc append_Cons append_Nil id_take_nth_drop kl(1))
      then have "drop ?i (w @ fr) = drop ?i ((?z @ [?x]) @ drop (Suc k) fr)" by (simp only:)
      also have "\<dots> = (drop ?i ?z @ [?x]) @ drop (Suc k) fr" by simp
      finally have "drop ?i (w @ fr) = (drop ?i ?z @ [?x]) @ drop (Suc k) fr" .
      moreover have "length (drop ?i ?z @ [?x]) = 12" using False by simp
      ultimately show ?thesis by (metis append_eq_conv_conj)
    qed
    then have "\<not> header_ok (drop ?i ?z @ [?x])" using w i by (metis no_false_header_def)
    then have "feed (drop ?i ?z) ?x = Keep (tl (drop ?i ?z @ [?x]))"
      using False by (intro feed_no_header) simp_all
    moreover have "tl (drop ?i ?z @ [?x]) = last_bytes 11 (?z @ [?x])"
      by (rule tl_window) (use False in linarith)
    ultimately show ?thesis by (simp add: last_bytes_def)
  qed
  then show ?thesis using k kl by (simp add: window_after_def)
qed

text \<open>A valid packet that follows bytes without a false header is delivered with its last byte and
  not before, and leaves its last eleven bytes in the window.\<close>

lemma feed_valid_frame:
  assumes fr: "valid_frame fr" and w: "no_false_header w fr" and k: "k < length fr"
  shows "feed (window_after w fr k) (fr ! k) =
    (if Suc k = length fr then Deliver fr (last_bytes 11 fr) else Keep (window_after w fr (Suc k)))"
proof -
  have n: "12 \<le> length fr" "length fr = frame_length fr" "header_ok fr" "length fr < MAX_PACK_SIZE"
    using fr by (simp_all add: valid_frame_def header_ok_def frame_length_def Let_def)
  have snoc: "take k fr @ [fr ! k] = take (Suc k) fr" using k by (simp add: take_Suc_conv_app_nth)
  consider "k < 11" | "k = 11" | "12 \<le> k" by linarith
  then show ?thesis
  proof cases
    case 1
    then show ?thesis using feed_approach [OF w 1 n(1)] n(1) by simp
  next
    case 2
    have h12: "header_ok (take 12 fr)" "frame_length (take 12 fr) = frame_length fr"
      using n(1,3) header_ok_append [of "take 12 fr" "drop 12 fr"] frame_length_append [of "take 12 fr" "drop 12 fr"]
      by simp_all
    have win: "window_after w fr 11 = take 11 fr" using n(1) by (simp add: window_after_def last_bytes_def)
    have t12: "take 11 fr @ [fr ! 11] = take 12 fr" using snoc 2 by simp
    show ?thesis
      using n h12 t12 win 2 by (simp add: feed_def Let_def protocol_consts window_after_def)
  next
    case 3
    have win: "window_after w fr k = take k fr" using 3 by (simp add: window_after_def)
    show ?thesis
    proof (cases "Suc k = length fr")
      case True
      then have "take k fr @ [fr ! k] = fr" using snoc by simp
      then show ?thesis using fr n 3 win True by (simp add: feed_def Let_def HEADER_LEN_def valid_frame_def)
    next
      case False
      then show ?thesis using feed_inside [OF fr 3] k 3 win by (simp add: window_after_def)
    qed
  qed
qed

lemma parse_valid_frame:
  assumes fr: "valid_frame fr" and w: "length w \<le> 11" "no_false_header w fr"
  shows "parse d f w (fr @ ys) s =
    (case d fr s of None \<Rightarrow> None | Some (f', s') \<Rightarrow> parse d f' (last_bytes 11 fr) ys s')"
proof -
  have "parse d f (window_after w fr k) (drop k fr @ ys) s =
      (case d fr s of None \<Rightarrow> None | Some (f', s') \<Rightarrow> parse d f' (last_bytes 11 fr) ys s')"
    if "k < length fr" for k
    using that
  proof (induction "length fr - k" arbitrary: k f)
    case (Suc m)
    have "drop k fr = fr ! k # drop (Suc k) fr" using Suc.prems by (simp add: Cons_nth_drop_Suc)
    moreover have "parse d False (window_after w fr (Suc k)) (drop (Suc k) fr @ ys) s =
      (case d fr s of None \<Rightarrow> None | Some (f', s') \<Rightarrow> parse d f' (last_bytes 11 fr) ys s')" if "Suc k \<noteq> length fr"
      using Suc.hyps(1) [of "Suc k" False] Suc.hyps(2) Suc.prems that by simp
    moreover have "drop (Suc k) fr = []" if "Suc k = length fr" using that by simp
    ultimately show ?case using feed_valid_frame [OF fr w(2) Suc.prems] by (cases "Suc k = length fr") simp_all
  qed simp
  moreover have "0 < length fr" using fr by (simp add: valid_frame_def)
  ultimately show ?thesis using window_after_0 [OF w(1)] by fastforce
qed

text \<open>A header whose length field says less than its own size is never completed: the parser takes
  everything that follows into its window and delivers nothing until the window overflows.\<close>

lemma parse_stalls:
  assumes "12 \<le> length w" "frame_length w < 12" "length w + length xs \<le> MAX_PACK_SIZE"
  shows "\<exists>f'. parse d f w xs s = Some (f', w @ xs, s)"
  using assms
proof (induction xs arbitrary: w f)
  case (Cons x xs)
  have "feed w x = Keep (w @ [x])"
    using Cons.prems frame_length_append [of w "[x]"] by (simp add: feed_def Let_def HEADER_LEN_def)
  moreover have "\<exists>f'. parse d False (w @ [x]) xs s = Some (f', (w @ [x]) @ xs, s)"
    by (rule Cons.IH) (use Cons.prems frame_length_append [of w "[x]"] in simp_all)
  ultimately show ?case by simp
qed simp

lemma parse_append:
  "parse d f w (xs @ ys) s =
    (case parse d f w xs s of None \<Rightarrow> None | Some (f', w', s') \<Rightarrow> parse d f' w' ys s')"
proof (induction d f w xs s rule: parse.induct)
  case (2 d f w x xs s)
  then show ?case by (cases "feed w x") (auto split: option.splits)
qed simp

end
