(* ===== verification/ProtocolRecv.thy ===== *)
theory ProtocolRecv
  imports ProtocolSend FrameParser
begin

text \<open>
  The receive pipeline of \<open>protocol/protocol.cpp\<close>: \<open>Receive\<close>, \<open>ByteHandler\<close>, \<open>StreamHandler\<close>,
  \<open>CheckStream\<close>, \<open>VerifyHeader\<close>, \<open>VerifyData\<close>, \<open>ContainerHandler\<close> and the stream management
  \<open>PrepareStream\<close>, \<open>ShiftStream\<close>, \<open>ReuseStream\<close>. It is proved to implement the parser of
  \<open>FrameParser\<close> with \<open>ContainerHandler\<close> as the packet handler.
\<close>

subsection \<open>Stream management\<close>

definition prepare_stream :: "recv_stream \<Rightarrow> recv_stream option" where
  "prepare_stream s =
     (let bytes_to_move = HEADER_LEN - 1; index_of_move = sub32 (rs_recv_index s) bytes_to_move in do {
       bs \<leftarrow> mem_read (rs_recv_buff s) index_of_move bytes_to_move;
       b1 \<leftarrow> mem_write (rs_recv_buff s) 0 bs;
       b2 \<leftarrow> mem_write b1 bytes_to_move (replicate index_of_move 0);
       Some (s\<lparr>rs_recv_buff := b2, rs_recv_index := bytes_to_move\<rparr>) })"

definition shift_stream :: "recv_stream \<Rightarrow> recv_stream option" where
  "shift_stream s =
     (if rs_recv_index s \<noteq> 0 then
        (let i = rs_recv_index s - 1; s1 = s\<lparr>rs_recv_index := i\<rparr> in
         if i \<noteq> 0 then do {
           bs \<leftarrow> mem_read (rs_recv_buff s1) 1 i;
           b \<leftarrow> mem_write (rs_recv_buff s1) 0 bs;
           Some (s1\<lparr>rs_recv_buff := b\<rparr>) }
         else Some s1)
      else Some s)"

text \<open>\<open>bytes_to_move\<close> and \<open>n_dest_index\<close> are 16 bits wide.\<close>

definition reuse_stream :: "recv_stream \<Rightarrow> recv_stream option" where
  "reuse_stream s =
     (let bytes_to_move = sub32 (rs_recv_index s) HEADER_LEN mod 2 ^ 16;
          n_dest_index = sub32 (rs_reuse_index s) bytes_to_move mod 2 ^ 16 in do {
       bs \<leftarrow> mem_read (rs_recv_buff s) HEADER_LEN bytes_to_move;
       b \<leftarrow> mem_write (rs_recv_buff s) n_dest_index bs;
       s1 \<leftarrow> shift_stream (s\<lparr>rs_recv_buff := b, rs_recv_index := HEADER_LEN\<rparr>);
       Some (s1\<lparr>rs_reuse_index := n_dest_index, rs_reuse_count := rs_reuse_count s1 + 1\<rparr>) })"

definition on_stream :: "(recv_stream \<Rightarrow> recv_stream option) \<Rightarrow> proto \<Rightarrow> proto option" where
  "on_stream f p = do { s \<leftarrow> f (pr_stream p); Some (p\<lparr>pr_stream := s\<rparr>) }"

subsection \<open>Handling a complete packet\<close>

text \<open>The fields of the container and its data. The length of the data is computed without a sign,
  so a packet shorter than its fixed parts asks \<open>memcpy\<close> for almost all of the address space.\<close>

definition fill_container :: "bool \<Rightarrow> u8 \<Rightarrow> u8 \<Rightarrow> bool \<Rightarrow> nat \<Rightarrow> header \<Rightarrow> bytes \<Rightarrow> proto \<Rightarrow> proto option" where
  "fill_container is_ack cmd_set cmd_id need_ack off h frame p =
     (let len = unat (h_length h); c = pr_container p in
      if len < off + CRC_DATA_LEN then None
      else do {
        data \<leftarrow> mem_read frame off (len - off - CRC_DATA_LEN);
        raw \<leftarrow> mem_write (rc_raw_data c) 0 data;
        Some (p\<lparr>pr_container :=
          \<lparr>rc_command_info = \<lparr>ci_cmd_set = cmd_set, ci_cmd_id = cmd_id, ci_need_ack = need_ack,
             ci_sender = h_sender h, ci_receiver = h_receiver h,
             ci_length = of_nat (len - off - CRC_DATA_LEN)\<rparr>,
           rc_message_header = \<lparr>mh_seq_num = h_seq_num h, mh_session_id = ucast (h_session_id h),
             mh_is_ack = is_ack\<rparr>,
           rc_raw_data = raw\<rparr>\<rparr>) })"

definition deliver_command :: "bool \<Rightarrow> header \<Rightarrow> bytes \<Rightarrow> proto \<Rightarrow> (bool \<times> proto) option" where
  "deliver_command need_ack h frame p = do {
     cmd_set \<leftarrow> at_opt frame (HEADER_LEN + 1);
     cmd_id \<leftarrow> at_opt frame HEADER_LEN;
     p1 \<leftarrow> fill_container False cmd_set cmd_id need_ack (HEADER_LEN + CMD_SET_PREFIX_LEN) h frame p;
     Some (True, p1) }"

text \<open>The header of the packet kept in a session's block.\<close>

definition stored_header :: "nat option \<Rightarrow> proto \<Rightarrow> header option" where
  "stored_header block p = do {
     ptr \<leftarrow> block_address p block;
     bs \<leftarrow> mem_read (pl_memory (pr_pool p)) ptr HEADER_LEN;
     Some (header_of bs) }"

definition handle_ack :: "header \<Rightarrow> bytes \<Rightarrow> proto \<Rightarrow> (bool \<times> proto) option" where
  "handle_ack h frame p =
     (let i = unat (h_session_id h); s = cmd_session_at p i in
      if i > 0 \<and> i < 32 \<and> cs_usage_flag s then do {
        sh \<leftarrow> stored_header (cs_memory_block s) p;
        if h_session_id sh = h_session_id h then do {
          p1 \<leftarrow> fill_container True (cs_cmd_set s) (cs_cmd_id s) True HEADER_LEN h frame p;
          p2 \<leftarrow> free_cmd_session i p1;
          Some (True, p2) }
        else Some (False, p) }
      else Some (False, p))"

definition handle_command :: "(bytes \<Rightarrow> int) \<Rightarrow> header \<Rightarrow> bytes \<Rightarrow> proto \<Rightarrow> (bool \<times> proto) option" where
  "handle_command dev h frame p =
     (let sid = unat (h_session_id h); r = unat (h_receiver h); k = sid - 1 in
      if sid = 0 then deliver_command False h frame p
      else if sid > 31 then Some (False, p)
      else do {
        s \<leftarrow> ack_session_at p r k;
        case as_session_status s of
          ACK_SESSION_IDLE \<Rightarrow> do {
            p1 \<leftarrow> (if sid > 1 then set_ack_session r k (s\<lparr>as_session_status := ACK_SESSION_PROCESS\<rparr>) p else Some p);
            deliver_command True h frame p1 }
        | ACK_SESSION_PROCESS \<Rightarrow> Some (False, p)
        | ACK_SESSION_USING \<Rightarrow> do {
            sh \<leftarrow> stored_header (as_memory_block s) p;
            if h_seq_num sh = h_seq_num h then do {
              ptr \<leftarrow> block_address p (as_memory_block s);
              (_, p1) \<leftarrow> device_send dev ptr p;
              Some (False, p1) }
            else do {
              p1 \<leftarrow> set_ack_session r k (s\<lparr>as_session_status := ACK_SESSION_PROCESS\<rparr>) p;
              deliver_command True h frame p1 } } })"

definition handle_frame :: "(bytes \<Rightarrow> int) \<Rightarrow> bytes \<Rightarrow> proto \<Rightarrow> (bool \<times> proto) option" where
  "handle_frame dev frame p =
     (let h = header_of frame in
      if h_is_ack h = 1 then handle_ack h frame p else handle_command dev h frame p)"

definition container_handler :: "(bytes \<Rightarrow> int) \<Rightarrow> proto \<Rightarrow> (bool \<times> proto) option" where
  "container_handler dev p = handle_frame dev (rs_recv_buff (pr_stream p)) p"

subsection \<open>The stages of the pipeline\<close>

definition verify_header :: "(bytes \<Rightarrow> int) \<Rightarrow> proto \<Rightarrow> (bool \<times> proto) option" where
  "verify_header dev p =
     (let frame = rs_recv_buff (pr_stream p) in
      if header_ok frame then
        (if frame_length frame = HEADER_LEN then do {
           (f, p1) \<leftarrow> container_handler dev p;
           p2 \<leftarrow> on_stream prepare_stream p1;
           Some (f, p2) }
         else Some (False, p))
      else do { p1 \<leftarrow> on_stream shift_stream p; Some (False, p1) })"

definition verify_data :: "(bytes \<Rightarrow> int) \<Rightarrow> proto \<Rightarrow> (bool \<times> proto) option" where
  "verify_data dev p =
     (let frame = rs_recv_buff (pr_stream p) in do {
       bs \<leftarrow> mem_read frame 0 (frame_length frame);
       if crc_tail_check bs then do {
         (f, p1) \<leftarrow> container_handler dev p;
         p2 \<leftarrow> on_stream prepare_stream p1;
         Some (f, p2) }
       else do { p1 \<leftarrow> on_stream reuse_stream p; Some (False, p1) } })"

definition check_stream :: "(bytes \<Rightarrow> int) \<Rightarrow> proto \<Rightarrow> (bool \<times> proto) option" where
  "check_stream dev p =
     (let s = pr_stream p in
      if rs_recv_index s < HEADER_LEN then Some (False, p)
      else if rs_recv_index s = HEADER_LEN then verify_header dev p
      else if rs_recv_index s = frame_length (rs_recv_buff s) then verify_data dev p
      else Some (False, p))"

definition push_byte :: "u8 \<Rightarrow> recv_stream \<Rightarrow> recv_stream option" where
  "push_byte byte s =
     (if rs_recv_index s < MAX_PACK_SIZE then do {
        b \<leftarrow> set_opt (rs_recv_buff s) (rs_recv_index s) byte;
        Some (s\<lparr>rs_recv_buff := b, rs_recv_index := rs_recv_index s + 1\<rparr>) }
      else do {
        b \<leftarrow> mem_write (rs_recv_buff s) 0 (replicate (rs_recv_index s) 0);
        Some (s\<lparr>rs_recv_buff := b, rs_recv_index := 0\<rparr>) })"

definition stream_handler :: "(bytes \<Rightarrow> int) \<Rightarrow> u8 \<Rightarrow> proto \<Rightarrow> (bool \<times> proto) option" where
  "stream_handler dev byte p = do { p1 \<leftarrow> on_stream (push_byte byte) p; check_stream dev p1 }"

text \<open>The loop of \<open>ByteHandler\<close> over the bytes moved to the end of the buffer; each turn
  overwrites \<open>is_frame\<close>.\<close>

partial_function (option) reuse_loop :: "(bytes \<Rightarrow> int) \<Rightarrow> bool \<Rightarrow> proto \<Rightarrow> (bool \<times> proto) option" where
  "reuse_loop dev f p =
     (let s = pr_stream p in
      if rs_reuse_index s < MAX_PACK_SIZE then do {
        byte \<leftarrow> at_opt (rs_recv_buff s) (rs_reuse_index s);
        (f', p') \<leftarrow> stream_handler dev byte (p\<lparr>pr_stream := s\<lparr>rs_reuse_index := rs_reuse_index s + 1\<rparr>\<rparr>);
        reuse_loop dev f' p' }
      else Some (f, p))"

definition byte_handler :: "(bytes \<Rightarrow> int) \<Rightarrow> u8 \<Rightarrow> proto \<Rightarrow> (bool \<times> proto) option" where
  "byte_handler dev byte p = do {
     let p0 = p\<lparr>pr_stream := (pr_stream p)\<lparr>rs_reuse_count := 0, rs_reuse_index := MAX_PACK_SIZE\<rparr>\<rparr>;
     (f, p1) \<leftarrow> stream_handler dev byte p0;
     if pr_reuse_buffer p1 \<and> rs_reuse_count (pr_stream p1) \<noteq> 0 then do {
       (f', p2) \<leftarrow> reuse_loop dev f p1;
       Some (f', p2\<lparr>pr_stream := (pr_stream p2)\<lparr>rs_reuse_count := 0\<rparr>\<rparr>) }
     else Some (f, p1) }"

text \<open>The bytes of the read buffer from \<open>recv_buff_read_pos_\<close> on, up to the first that completes a
  packet; the position is left on that byte, not behind it.\<close>

fun receive_bytes :: "(bytes \<Rightarrow> int) \<Rightarrow> nat \<Rightarrow> proto \<Rightarrow> (bool \<times> proto) option" where
  "receive_bytes dev 0 p = Some (False, p)"
| "receive_bytes dev (Suc n) p = do {
     byte \<leftarrow> at_opt (pr_recv_buff p) (pr_read_pos p);
     (f, p1) \<leftarrow> byte_handler dev byte p;
     if f then Some (True, p1)
     else receive_bytes dev n (p1\<lparr>pr_read_pos := pr_read_pos p1 + 1\<rparr>) }"

text \<open>\<open>reading\<close> is what \<open>Read\<close> of the serial device does when it is called: the number it returns and
  the bytes it stores at the start of the buffer. The number is stored in sixteen bits.\<close>

definition read_device :: "int \<times> bytes \<Rightarrow> proto \<Rightarrow> proto option" where
  "read_device reading p = do {
     b \<leftarrow> mem_write (pr_recv_buff p) 0 (snd reading);
     Some (p\<lparr>pr_recv_buff := b, pr_read_pos := 0, pr_read_len := nat (fst reading mod 2 ^ 16)\<rparr>) }"

definition receive :: "(bytes \<Rightarrow> int) \<Rightarrow> int \<times> bytes \<Rightarrow> proto \<Rightarrow> (recv_container option \<times> proto) option" where
  "receive dev reading p = do {
     p1 \<leftarrow> (if pr_read_pos p \<ge> pr_read_len p then read_device reading p else Some p);
     if pr_large_data p1 \<and> pr_read_len p1 = BUFFER_SIZE then do {
       bs \<leftarrow> mem_read (pr_recv_buff p1) 0 BUFFER_SIZE;
       b \<leftarrow> mem_write (rs_recv_buff (pr_stream p1)) (rs_recv_index (pr_stream p1)) bs;
       Some (None, p1\<lparr>pr_stream := (pr_stream p1)\<lparr>rs_recv_buff := b,
           rs_recv_index := rs_recv_index (pr_stream p1) + BUFFER_SIZE\<rparr>,
         pr_read_pos := BUFFER_SIZE\<rparr>) }
     else do {
       (f, p2) \<leftarrow> receive_bytes dev (pr_read_len p1 - pr_read_pos p1) p1;
       Some (if f then Some (pr_container p2) else None, p2) } }"

subsection \<open>The handler does not touch the stream\<close>

definition with_stream :: "recv_stream \<Rightarrow> (bool \<times> proto) option \<Rightarrow> (bool \<times> proto) option" where
  "with_stream s = map_option (\<lambda>(f, q). (f, q\<lparr>pr_stream := s\<rparr>))"

lemma with_stream_simps [simp]:
  "with_stream s None = None" "with_stream s (Some (f, q)) = Some (f, q\<lparr>pr_stream := s\<rparr>)"
  by (simp_all add: with_stream_def)

lemma session_stream [simp]:
  "cmd_session_at (p\<lparr>pr_stream := s\<rparr>) = cmd_session_at p" "ack_session_at (p\<lparr>pr_stream := s\<rparr>) = ack_session_at p"
  "block_address (p\<lparr>pr_stream := s\<rparr>) b = block_address p b" "stored_header b (p\<lparr>pr_stream := s\<rparr>) = stored_header b p"
  by (simp_all add: cmd_session_at_def ack_session_at_def fun_eq_iff block_address_def stored_header_def)

lemma set_cmd_session_stream: "set_cmd_session i c (p\<lparr>pr_stream := s\<rparr>) = (set_cmd_session i c p)\<lparr>pr_stream := s\<rparr>"
  by (simp add: set_cmd_session_def)

lemma set_ack_session_stream:
  "set_ack_session r k c (p\<lparr>pr_stream := s\<rparr>) = map_option (\<lambda>q. q\<lparr>pr_stream := s\<rparr>) (set_ack_session r k c p)"
  by (auto simp: set_ack_session_def split: bind_splits)

lemma fill_container_stream:
  "fill_container a cs ci n off h fr (p\<lparr>pr_stream := s\<rparr>) =
     map_option (\<lambda>q. q\<lparr>pr_stream := s\<rparr>) (fill_container a cs ci n off h fr p)"
  by (auto simp: fill_container_def Let_def split: bind_splits)

lemma deliver_command_stream:
  "deliver_command n h fr (p\<lparr>pr_stream := s\<rparr>) = with_stream s (deliver_command n h fr p)"
  by (auto simp: deliver_command_def fill_container_stream split: bind_splits)

lemma device_send_stream:
  "device_send dev ptr (p\<lparr>pr_stream := s\<rparr>) = with_stream s (device_send dev ptr p)"
  by (auto simp: device_send_def Let_def split: bind_splits)

lemma free_cmd_session_stream:
  "free_cmd_session i (p\<lparr>pr_stream := s\<rparr>) = map_option (\<lambda>q. q\<lparr>pr_stream := s\<rparr>) (free_cmd_session i p)"
  by (auto simp: free_cmd_session_def Let_def set_cmd_session_def split: bind_splits)

lemmas stream_frame = set_cmd_session_stream set_ack_session_stream fill_container_stream
  deliver_command_stream device_send_stream free_cmd_session_stream

lemma handle_ack_stream: "handle_ack h fr (p\<lparr>pr_stream := s\<rparr>) = with_stream s (handle_ack h fr p)"
  by (auto simp: handle_ack_def Let_def stream_frame split: bind_splits)

lemma handle_command_stream:
  "handle_command dev h fr (p\<lparr>pr_stream := s\<rparr>) = with_stream s (handle_command dev h fr p)"
  by (auto simp: handle_command_def Let_def stream_frame split: bind_splits ack_session_status.splits prod.splits)

lemma handle_frame_stream: "handle_frame dev fr (p\<lparr>pr_stream := s\<rparr>) = with_stream s (handle_frame dev fr p)"
  by (simp add: handle_frame_def Let_def handle_ack_stream handle_command_stream)

subsection \<open>The handler looks at the packet only\<close>

lemma mem_read_append: "off + n \<le> length m \<Longrightarrow> mem_read (m @ m') off n = mem_read m off n"
  by (simp add: mem_read_def slice_def)

lemma fill_container_append:
  assumes "unat (h_length h) \<le> length fr"
  shows "fill_container a cs ci n off h (fr @ rest) p = fill_container a cs ci n off h fr p"
  using assms mem_read_append [of off "unat (h_length h) - off - CRC_DATA_LEN" fr rest]
  by (simp add: fill_container_def Let_def)

lemma deliver_command_append:
  assumes "unat (h_length h) \<le> length fr"
  shows "deliver_command n h (fr @ rest) p = deliver_command n h fr p"
proof (cases "unat (h_length h) < 18")
  case True
  then have "fill_container False cs ci n 14 h fr' p = None" for cs ci fr'
    by (simp add: fill_container_def Let_def protocol_consts)
  then show ?thesis by (auto simp: deliver_command_def protocol_consts split: bind_splits)
next
  case False
  then have "at_opt (fr @ rest) i = at_opt fr i" if "i < 18" for i
    using that assms by (simp add: at_opt_def nth_append)
  then show ?thesis by (simp add: deliver_command_def fill_container_append [OF assms] protocol_consts)
qed

lemma handle_frame_append:
  assumes "12 \<le> length fr" "frame_length fr \<le> length fr"
  shows "handle_frame dev (fr @ rest) p = handle_frame dev fr p"
proof -
  have "unat (h_length (header_of fr)) \<le> length fr" using assms(2) by (simp add: frame_length_def)
  note app = fill_container_append [OF this] deliver_command_append [OF this]
  then have "deliver_command n (header_of fr) (fr @ rest) = deliver_command n (header_of fr) fr" for n by blast
  then show ?thesis using assms(1) app
    by (simp add: handle_frame_def handle_ack_def handle_command_def Let_def
        cong: ack_session_status.case_cong if_cong)
qed

subsection \<open>The buffer as window and pending bytes\<close>

text \<open>The stream holds the window \<open>w\<close> at the start of its buffer and the bytes \<open>xs\<close> still to be looked
  at again at its end, without overlap.\<close>

definition stream_rel :: "recv_stream \<Rightarrow> bytes \<Rightarrow> bytes \<Rightarrow> bool" where
  "stream_rel s w xs \<longleftrightarrow> length (rs_recv_buff s) = MAX_PACK_SIZE \<and>
     rs_recv_index s \<le> rs_reuse_index s \<and> rs_reuse_index s \<le> MAX_PACK_SIZE \<and>
     w = take (rs_recv_index s) (rs_recv_buff s) \<and> xs = drop (rs_reuse_index s) (rs_recv_buff s)"

lemma stream_relD:
  assumes "stream_rel s w xs"
  shows "length w = rs_recv_index s" "length (rs_recv_buff s) = 4096" "rs_recv_index s \<le> 4096"
    "rs_reuse_index s \<le> 4096" "length xs = 4096 - rs_reuse_index s"
  using assms by (auto simp: stream_rel_def protocol_consts)

lemma drop_splice_at: "off \<le> length m \<Longrightarrow> drop off (splice m off bs) = bs @ drop (off + length bs) m"
  by (simp add: splice_def)

lemma drop_splice_behind:
  assumes "off + length bs \<le> n" "off + length bs \<le> length m"
  shows "drop n (splice m off bs) = drop n m"
  using assms by (intro nth_equalityI) (simp_all add: nth_splice)

lemma push_byte_ok:
  assumes rel: "stream_rel s w xs" and room: "length w < MAX_PACK_SIZE \<Longrightarrow> length w < rs_reuse_index s"
  obtains s' where "push_byte x s = Some s'" "rs_reuse_count s' = rs_reuse_count s"
    "stream_rel s' (if length w < MAX_PACK_SIZE then w @ [x] else []) xs"
proof (cases "length w < MAX_PACK_SIZE")
  case True
  note D = stream_relD [OF rel]
  let ?b = "(rs_recv_buff s)[rs_recv_index s := x]"
  have i: "rs_recv_index s < rs_reuse_index s" using room True D by simp
  have "take (Suc (rs_recv_index s)) ?b = w @ [x]"
    using rel D True by (simp add: take_Suc_conv_app_nth stream_rel_def protocol_consts)
  moreover have "drop (rs_reuse_index s) ?b = xs" using rel i by (simp add: stream_rel_def)
  ultimately have "stream_rel (s\<lparr>rs_recv_buff := ?b, rs_recv_index := rs_recv_index s + 1\<rparr>) (w @ [x]) xs"
    using rel i by (simp add: stream_rel_def)
  then show ?thesis using that True D by (simp add: push_byte_def protocol_consts)
next
  case False
  note D = stream_relD [OF rel]
  have i: "rs_recv_index s = 4096" "rs_reuse_index s = 4096"
    using False D rel by (auto simp: stream_rel_def protocol_consts)
  then show ?thesis using that False D rel
    by (simp add: push_byte_def stream_rel_def mem_write_def protocol_consts splice_def)
qed

lemma prepare_stream_ok:
  assumes rel: "stream_rel s w xs" and long: "12 \<le> length w"
  obtains s' where "prepare_stream s = Some s'" "rs_reuse_count s' = rs_reuse_count s"
    "stream_rel s' (last_bytes 11 w) xs"
proof -
  note D = stream_relD [OF rel]
  let ?i = "rs_recv_index s" and ?b = "rs_recv_buff s"
  have sub: "sub32 ?i 11 = ?i - 11" by (rule sub32_le) (use D long in simp_all)
  let ?b1 = "splice ?b 0 (slice ?b (?i - 11) 11)"
  let ?b2 = "splice ?b1 11 (replicate (?i - 11) 0)"
  have l1: "length ?b1 = 4096" using D long by simp
  have "prepare_stream s = Some (s\<lparr>rs_recv_buff := ?b2, rs_recv_index := 11\<rparr>)"
    using D long l1 sub by (simp add: prepare_stream_def Let_def mem_read_def mem_write_def HEADER_LEN_def)
  moreover have "take 11 ?b2 = last_bytes 11 w"
  proof -
    have "take 11 ?b2 = take 11 ?b1" using l1 by (simp add: take_splice_le)
    also have "\<dots> = slice ?b (?i - 11) 11" using D long by (simp add: splice_def slice_def)
    also have "\<dots> = last_bytes 11 w"
      using D long rel by (simp add: last_bytes_def slice_def stream_rel_def drop_take)
    finally show ?thesis .
  qed
  moreover have "drop (rs_reuse_index s) ?b2 = xs"
  proof -
    have "drop (rs_reuse_index s) ?b2 = drop (rs_reuse_index s) ?b1"
      using D long l1 rel by (intro drop_splice_behind) (simp_all add: stream_rel_def)
    also have "\<dots> = drop (rs_reuse_index s) ?b"
      using D long rel by (intro drop_splice_behind) (simp_all add: stream_rel_def)
    finally show ?thesis using rel by (simp add: stream_rel_def)
  qed
  moreover have "length ?b2 = MAX_PACK_SIZE" using l1 D long by (simp add: protocol_consts)
  ultimately show ?thesis using that rel D long by (simp add: stream_rel_def)
qed

lemma shift_stream_ok:
  assumes rel: "stream_rel s w xs" and long: "w \<noteq> []"
  obtains s' where "shift_stream s = Some s'" "rs_reuse_count s' = rs_reuse_count s"
    "rs_reuse_index s' = rs_reuse_index s" "stream_rel s' (tl w) xs"
proof -
  note D = stream_relD [OF rel]
  let ?i = "rs_recv_index s" and ?b = "rs_recv_buff s"
  have i: "0 < ?i" using D(1) long by (cases w) auto
  have j: "?i - 1 \<le> rs_reuse_index s" "?i - 1 \<le> 4096" using rel D(3) by (auto simp: stream_rel_def)
  show ?thesis
  proof (cases "?i = 1")
    case True
    then have "tl w = []" using D by (cases w) auto
    then have "stream_rel (s\<lparr>rs_recv_index := 0\<rparr>) (tl w) xs" using rel by (simp add: stream_rel_def)
    then show ?thesis using that True by (simp add: shift_stream_def Let_def)
  next
    case False
    let ?b1 = "splice ?b 0 (slice ?b 1 (?i - 1))"
    have "shift_stream s = Some (s\<lparr>rs_recv_index := ?i - 1, rs_recv_buff := ?b1\<rparr>)"
      using D i False by (simp add: shift_stream_def Let_def mem_read_def mem_write_def)
    moreover have "take (?i - 1) ?b1 = tl w"
      using D i rel by (simp add: splice_def slice_def stream_rel_def take_tl drop_Suc)
    moreover have "drop (rs_reuse_index s) ?b1 = xs"
    proof -
      have "drop (rs_reuse_index s) ?b1 = drop (rs_reuse_index s) ?b"
        using D(2,3) i j by (intro drop_splice_behind) simp_all
      then show ?thesis using rel by (simp add: stream_rel_def)
    qed
    moreover have "length ?b1 = MAX_PACK_SIZE" using D i by (simp add: protocol_consts)
    moreover have "?i \<le> rs_reuse_index s" "rs_reuse_index s \<le> MAX_PACK_SIZE" using rel by (simp_all add: stream_rel_def)
    ultimately show ?thesis using that by (simp add: stream_rel_def)
  qed
qed

lemma reuse_stream_ok:
  assumes rel: "stream_rel s w xs" and long: "12 < length w"
  obtains s' where "reuse_stream s = Some s'" "rs_reuse_count s' = rs_reuse_count s + 1"
    "stream_rel s' (tl (take 12 w)) (drop 12 w @ xs)"
proof -
  note D = stream_relD [OF rel]
  let ?i = "rs_recv_index s" and ?j = "rs_reuse_index s" and ?b = "rs_recv_buff s"
  have ij: "?i \<le> ?j" using rel by (simp add: stream_rel_def)
  have s1: "sub32 ?i 12 mod 2 ^ 16 = ?i - 12" using D long by (simp add: sub32_le)
  let ?m = "?i - 12"
  let ?d = "?j - ?m"
  have s2: "sub32 ?j ?m mod 2 ^ 16 = ?d" using D long ij by (simp add: sub32_le)
  let ?b1 = "splice ?b ?d (slice ?b 12 ?m)"
  let ?s1 = "s\<lparr>rs_recv_buff := ?b1, rs_recv_index := 12, rs_reuse_index := ?d\<rparr>"
  have l1: "length ?b1 = 4096" using D long ij by simp
  have "take 12 ?b1 = take 12 w"
  proof -
    have "12 \<le> ?d" "?d \<le> length ?b" using D long ij by simp_all
    then show ?thesis using rel long D(1) by (simp add: take_splice_le stream_rel_def)
  qed
  moreover have "drop ?d ?b1 = drop 12 w @ xs"
  proof -
    have "drop ?d ?b1 = slice ?b 12 ?m @ drop (?d + length (slice ?b 12 ?m)) ?b"
      by (rule drop_splice_at) (use D long ij in simp)
    moreover have "?d + length (slice ?b 12 ?m) = ?j" using D long ij by simp
    moreover have "slice ?b 12 ?m = drop 12 w" using rel D(1) by (simp add: slice_def stream_rel_def drop_take)
    ultimately show ?thesis using rel by (simp add: stream_rel_def)
  qed
  then have rel1: "stream_rel ?s1 (take 12 w) (drop 12 w @ xs)"
  proof -
    have "12 \<le> ?d" "?d \<le> 4096" using ij D(1,4) long by simp_all
    then show ?thesis using l1 \<open>take 12 ?b1 = take 12 w\<close> \<open>drop ?d ?b1 = drop 12 w @ xs\<close>
      by (simp add: stream_rel_def protocol_consts)
  qed
  have "take 12 w \<noteq> []" using long by auto
  with rel1 obtain s2 where s2': "shift_stream ?s1 = Some s2" "rs_reuse_count s2 = rs_reuse_count ?s1"
    "rs_reuse_index s2 = rs_reuse_index ?s1" "stream_rel s2 (tl (take 12 w)) (drop 12 w @ xs)"
    by (rule shift_stream_ok) (rule that)
  have sh: "shift_stream (t\<lparr>rs_reuse_index := d\<rparr>) = map_option (\<lambda>u. u\<lparr>rs_reuse_index := d\<rparr>) (shift_stream t)" for t d
    by (auto simp: shift_stream_def Let_def split: bind_splits)
  from s2'(1) sh [of ?d "s\<lparr>rs_recv_buff := ?b1, rs_recv_index := 12\<rparr>"]
  obtain u where u: "shift_stream (s\<lparr>rs_recv_buff := ?b1, rs_recv_index := 12\<rparr>) = Some u"
    "s2 = u\<lparr>rs_reuse_index := ?d\<rparr>" by auto
  have "reuse_stream s = Some (u\<lparr>rs_reuse_index := ?d, rs_reuse_count := rs_reuse_count u + 1\<rparr>)"
    using u(1) s1 s2 D long ij by (simp add: reuse_stream_def Let_def mem_read_def mem_write_def HEADER_LEN_def)
  moreover have "stream_rel (u\<lparr>rs_reuse_index := ?d, rs_reuse_count := rs_reuse_count u + 1\<rparr>)
      (tl (take 12 w)) (drop 12 w @ xs)" using s2'(4) u(2) by (simp add: stream_rel_def)
  ultimately show ?thesis using that s2'(2) u(2) by simp
qed

subsection \<open>The pipeline implements the parser\<close>

lemma on_stream_with [simp]:
  "on_stream g (p\<lparr>pr_stream := s\<rparr>) = map_option (\<lambda>s'. p\<lparr>pr_stream := s'\<rparr>) (g s)"
  by (cases "g s") (simp_all add: on_stream_def)

text \<open>One byte through the pipeline, on the state \<open>p\<close> with stream \<open>s\<close>, against \<open>feed\<close>.\<close>

definition step_agrees :: "(bytes \<Rightarrow> int) \<Rightarrow> proto \<Rightarrow> nat \<Rightarrow> bytes \<Rightarrow> parsed \<Rightarrow> (bool \<times> proto) option \<Rightarrow> bool" where
  "step_agrees dev p n xs r c = (case r of
     Keep w \<Rightarrow> (\<exists>s. c = Some (False, p\<lparr>pr_stream := s\<rparr>) \<and> stream_rel s w xs \<and> rs_reuse_count s = n)
   | Deliver fr w \<Rightarrow> (case handle_frame dev fr p of None \<Rightarrow> c = None
       | Some (f, q) \<Rightarrow> \<exists>s. c = Some (f, q\<lparr>pr_stream := s\<rparr>) \<and> stream_rel s w xs \<and> rs_reuse_count s = n)
   | Rescan w ys \<Rightarrow> (\<exists>s. c = Some (False, p\<lparr>pr_stream := s\<rparr>) \<and> stream_rel s w (ys @ xs) \<and> rs_reuse_count s = n + 1))"

text \<open>The buffer behind the window does not matter once the window has a header.\<close>

lemma stream_window:
  assumes rel: "stream_rel s w xs" and long: "12 \<le> length w"
  shows "header_ok (rs_recv_buff s) = header_ok w" "frame_length (rs_recv_buff s) = frame_length w"
    "frame_length w = length w \<Longrightarrow> handle_frame dev (rs_recv_buff s) p = handle_frame dev w p"
    "frame_length w = length w \<Longrightarrow> mem_read (rs_recv_buff s) 0 (frame_length w) = Some w"
proof -
  have b: "rs_recv_buff s = w @ drop (rs_recv_index s) (rs_recv_buff s)" and w: "w = take (rs_recv_index s) (rs_recv_buff s)"
    using rel by (simp_all add: stream_rel_def)
  show "header_ok (rs_recv_buff s) = header_ok w" "frame_length (rs_recv_buff s) = frame_length w"
    by (subst b, simp add: header_ok_append frame_length_append long)+
  show "handle_frame dev (rs_recv_buff s) p = handle_frame dev w p" if "frame_length w = length w"
    by (subst b) (rule handle_frame_append [OF long], use that in simp)
  show "mem_read (rs_recv_buff s) 0 (frame_length w) = Some w" if "frame_length w = length w"
    using stream_relD [OF rel] w that by (simp add: mem_read_def slice_from_0)
qed

lemma delivered_agrees:
  assumes rel: "stream_rel s w xs" and long: "12 \<le> length w" "frame_length w = length w"
  shows "step_agrees dev p (rs_reuse_count s) xs (Deliver w (last_bytes 11 w))
    (do { (f, p1) \<leftarrow> container_handler dev (p\<lparr>pr_stream := s\<rparr>); p2 \<leftarrow> on_stream prepare_stream p1; Some (f, p2) })"
proof -
  obtain s' where s': "prepare_stream s = Some s'" "rs_reuse_count s' = rs_reuse_count s" 
    "stream_rel s' (last_bytes 11 w) xs" by (rule prepare_stream_ok [OF rel long(1)]) (rule that)
  have "container_handler dev (p\<lparr>pr_stream := s\<rparr>) = with_stream s (handle_frame dev w p)"
    by (simp add: container_handler_def handle_frame_stream stream_window(3) [OF rel long])
  then show ?thesis using s' by (cases "handle_frame dev w p") (auto simp: step_agrees_def split: prod.split)
qed

lemma stream_handler_agrees:
  assumes rel: "stream_rel s w xs" and room: "length w < MAX_PACK_SIZE \<Longrightarrow> length w < rs_reuse_index s"
  shows "step_agrees dev p (rs_reuse_count s) xs (feed w x) (stream_handler dev x (p\<lparr>pr_stream := s\<rparr>))"
proof -
  define v where "v = (if length w < MAX_PACK_SIZE then w @ [x] else [])"
  obtain s1 where s1: "push_byte x s = Some s1" "rs_reuse_count s1 = rs_reuse_count s" "stream_rel s1 v xs"
    by (rule push_byte_ok [OF rel room]) (assumption, rule that, simp_all add: v_def)
  let ?p1 = "p\<lparr>pr_stream := s1\<rparr>"
  have handler: "stream_handler dev x (p\<lparr>pr_stream := s\<rparr>) = check_stream dev ?p1"
    using s1 by (simp add: stream_handler_def)
  have i: "rs_recv_index s1 = length v" using stream_relD [OF s1(3)] by simp
  have keep: "step_agrees dev p (rs_reuse_count s) xs (Keep v) (Some (False, ?p1))"
    using s1 by (auto simp: step_agrees_def)
  consider "length v < 12" | "length v = 12" | "12 < length v" by linarith
  then show ?thesis
  proof cases
    case 1
    then have "feed w x = Keep v" "check_stream dev ?p1 = Some (False, ?p1)"
      using i by (simp_all add: feed_def v_def [symmetric] check_stream_def HEADER_LEN_def)
    then show ?thesis using handler keep by simp
  next
    case 2
    have "12 \<le> length v" using 2 by simp
    note win = stream_window [OF s1(3) this]
    have chk: "check_stream dev ?p1 = verify_header dev ?p1"
      using i 2 by (simp add: check_stream_def HEADER_LEN_def)
    consider "\<not> header_ok v" | "header_ok v" "frame_length v = 12" | "header_ok v" "frame_length v \<noteq> 12" by blast
    then show ?thesis
    proof cases
      case a: 1
      have "v \<noteq> []" using 2 by auto
      from shift_stream_ok [OF s1(3) this] obtain s2 where "shift_stream s1 = Some s2"
        "rs_reuse_count s2 = rs_reuse_count s1" "stream_rel s2 (tl v) xs" by metis
      moreover have "feed w x = Keep (tl v)"
        using a 2 by (simp add: feed_def v_def [symmetric] HEADER_LEN_def)
      ultimately show ?thesis using a win(1) s1(2) handler chk
        by (auto simp: verify_header_def Let_def step_agrees_def)
    next
      case b: 2
      then have "verify_header dev ?p1 = do { (f, p1) \<leftarrow> container_handler dev ?p1; p2 \<leftarrow> on_stream prepare_stream p1; Some (f, p2) }"
        using win by (simp add: verify_header_def Let_def HEADER_LEN_def)
      moreover have "feed w x = Deliver v (last_bytes 11 v)"
        using b 2 by (simp add: feed_def v_def [symmetric] HEADER_LEN_def)
      ultimately show ?thesis using delivered_agrees [OF s1(3), of dev p] handler chk b 2 s1(2) by simp
    next
      case c: 3
      then have "feed w x = Keep v" "verify_header dev ?p1 = Some (False, ?p1)"
        using 2 win by (simp_all add: feed_def v_def [symmetric] verify_header_def Let_def HEADER_LEN_def)
      then show ?thesis using handler keep chk by simp
    qed
  next
    case 3
    note win = stream_window [OF s1(3) less_imp_le [OF 3]]
    show ?thesis
    proof (cases "length v = frame_length v")
      case False
      then have "feed w x = Keep v" "check_stream dev ?p1 = Some (False, ?p1)"
        using 3 i win by (simp_all add: feed_def v_def [symmetric] check_stream_def HEADER_LEN_def)
      then show ?thesis using handler keep by simp
    next
      case len: True
      have chk: "check_stream dev ?p1 = verify_data dev ?p1"
        using i 3 len win by (simp add: check_stream_def HEADER_LEN_def)
      show ?thesis
      proof (cases "crc_tail_check v")
        case True
        then have "verify_data dev ?p1 = do { (f, p1) \<leftarrow> container_handler dev ?p1; p2 \<leftarrow> on_stream prepare_stream p1; Some (f, p2) }"
          using win len by (simp add: verify_data_def Let_def)
        moreover have "feed w x = Deliver v (last_bytes 11 v)"
          using True 3 len by (simp add: feed_def v_def [symmetric] HEADER_LEN_def)
        moreover have "12 \<le> length v" "frame_length v = length v" using 3 len by simp_all
        ultimately show ?thesis using delivered_agrees [OF s1(3), of dev p] handler chk s1(2) by simp
      next
        case False
        obtain s2 where "reuse_stream s1 = Some s2" "rs_reuse_count s2 = rs_reuse_count s1 + 1"
          "stream_rel s2 (tl (take 12 v)) (drop 12 v @ xs)" by (rule reuse_stream_ok [OF s1(3) 3]) (rule that)
        moreover have "feed w x = Rescan (tl (take 12 v)) (drop 12 v)"
          using False 3 len by (simp add: feed_def v_def [symmetric] HEADER_LEN_def)
        moreover have "mem_read (rs_recv_buff s1) 0 (frame_length (rs_recv_buff s1)) = Some v"
          using win(2,4) len by simp
        ultimately show ?thesis using False handler chk s1(2)
          by (auto simp: verify_data_def Let_def step_agrees_def)
      qed
    qed
  qed
qed

text \<open>The whole loop against \<open>parse\<close>.\<close>

definition run_agrees :: "(bool \<times> bytes \<times> proto) option \<Rightarrow> (bool \<times> proto) option \<Rightarrow> bool" where
  "run_agrees a c = (case a of None \<Rightarrow> c = None
     | Some (f, w, q) \<Rightarrow> \<exists>s. c = Some (f, q\<lparr>pr_stream := s\<rparr>) \<and> stream_rel s w [])"

lemma reuse_loop_agrees:
  assumes "d = handle_frame dev" "stream_rel s w xs"
  shows "run_agrees (parse d f w xs p) (reuse_loop dev f (p\<lparr>pr_stream := s\<rparr>))"
  using assms
proof (induction d f w xs p arbitrary: s rule: parse.induct)
  case (1 d f w p)
  then have "rs_reuse_index s = MAX_PACK_SIZE" by (simp add: stream_rel_def)
  then show ?case using 1 by (subst reuse_loop.simps) (auto simp: run_agrees_def)
next
  case (2 d f w x xs p)
  note IH = 2(1-3) and d = 2(4) and rel = 2(5)
  let ?s1 = "s\<lparr>rs_reuse_index := rs_reuse_index s + 1\<rparr>"
  note D = stream_relD [OF rel]
  have j: "rs_reuse_index s < MAX_PACK_SIZE" using D by (simp add: protocol_consts)
  have "x # xs = rs_recv_buff s ! rs_reuse_index s # drop (Suc (rs_reuse_index s)) (rs_recv_buff s)"
    using rel j D(2) by (simp add: stream_rel_def Cons_nth_drop_Suc)
  then have at: "at_opt (rs_recv_buff s) (rs_reuse_index s) = Some x"
    and rest: "drop (rs_reuse_index s + 1) (rs_recv_buff s) = xs"
    using j D(2) by (simp_all add: protocol_consts)
  have rel1: "stream_rel ?s1 w xs" using rel rest j by (simp add: stream_rel_def)
  have room: "length w < rs_reuse_index ?s1" using rel D by (simp add: stream_rel_def)
  have loop: "reuse_loop dev f (p\<lparr>pr_stream := s\<rparr>) =
    do { (f', p') \<leftarrow> stream_handler dev x (p\<lparr>pr_stream := ?s1\<rparr>); reuse_loop dev f' p' }"
    using j at by (subst reuse_loop.simps) simp
  note step = stream_handler_agrees [OF rel1 room, of dev p x]
  show ?case
  proof (cases "feed w x")
    case (Keep w')
    with step obtain s' where "stream_handler dev x (p\<lparr>pr_stream := ?s1\<rparr>) = Some (False, p\<lparr>pr_stream := s'\<rparr>)"
      "stream_rel s' w' xs" by (auto simp: step_agrees_def)
    then show ?thesis using IH(1) [OF Keep d, of s'] Keep loop by simp
  next
    case (Deliver fr w')
    show ?thesis
    proof (cases "handle_frame dev fr p")
      case None
      then show ?thesis using Deliver step loop d by (simp add: step_agrees_def run_agrees_def)
    next
      case (Some r)
      obtain f' q where r: "r = (f', q)" by (cases r)
      with Some Deliver step obtain s' where "stream_handler dev x (p\<lparr>pr_stream := ?s1\<rparr>) = Some (f', q\<lparr>pr_stream := s'\<rparr>)"
        "stream_rel s' w' xs" by (auto simp: step_agrees_def)
      then show ?thesis using IH(2) [OF Deliver _ refl d, of f' q s'] Deliver Some r loop d by simp
    qed
  next
    case (Rescan w' ys)
    with step obtain s' where "stream_handler dev x (p\<lparr>pr_stream := ?s1\<rparr>) = Some (False, p\<lparr>pr_stream := s'\<rparr>)"
      "stream_rel s' w' (ys @ xs)" by (auto simp: step_agrees_def)
    then show ?thesis using IH(3) [OF Rescan d, of s'] Rescan loop by simp
  qed
qed

text \<open>\<open>ByteHandler\<close> on a stream whose buffer is in bounds.\<close>

definition stream_ready :: "recv_stream \<Rightarrow> bool" where
  "stream_ready s \<longleftrightarrow> length (rs_recv_buff s) = MAX_PACK_SIZE \<and> rs_recv_index s \<le> MAX_PACK_SIZE"

definition window_of :: "recv_stream \<Rightarrow> bytes" where
  "window_of s = take (rs_recv_index s) (rs_recv_buff s)"

lemma stream_rel_ready: "stream_rel s w [] \<Longrightarrow> stream_ready s \<and> window_of s = w"
  by (simp add: stream_rel_def stream_ready_def window_of_def)

definition run_result :: "(bool \<times> bytes \<times> proto) option \<Rightarrow> (bool \<times> proto) option \<Rightarrow> bool" where
  "run_result a c = (case a of None \<Rightarrow> c = None
     | Some (f, w, q) \<Rightarrow> \<exists>s. c = Some (f, q\<lparr>pr_stream := s\<rparr>) \<and> stream_ready s \<and> window_of s = w)"

text \<open>The part of the state the packet handler never changes.\<close>

definition recv_config :: "proto \<Rightarrow> bool \<times> bytes \<times> nat \<times> nat \<times> bool \<times> (u8 \<times> u8 \<Rightarrow> recv_container ring option)" where
  "recv_config p = (pr_reuse_buffer p, pr_recv_buff p, pr_read_pos p, pr_read_len p, pr_large_data p, pr_buffer_map p)"

lemma recv_config_simps [simp]:
  "recv_config (p\<lparr>pr_stream := s\<rparr>) = recv_config p" "recv_config (p\<lparr>pr_container := c\<rparr>) = recv_config p"
  "recv_config (p\<lparr>pr_sent := out\<rparr>) = recv_config p" "recv_config (set_cmd_session i cs p) = recv_config p"
  "recv_config (p\<lparr>pr_pool := q\<rparr>) = recv_config p" "recv_config (p\<lparr>pr_ack_table := t\<rparr>) = recv_config p"
  by (simp_all add: recv_config_def)

lemma step_config:
  "fill_container a cs ci n off h fr p = Some q \<Longrightarrow> recv_config q = recv_config p"
  "free_cmd_session i p = Some q \<Longrightarrow> recv_config q = recv_config p"
  "set_ack_session r k c p = Some q \<Longrightarrow> recv_config q = recv_config p"
  "device_send dev ptr p = Some (ok, q) \<Longrightarrow> recv_config q = recv_config p"
  by (auto simp: fill_container_def free_cmd_session_def set_ack_session_def device_send_def Let_def
      bind_eq_Some_conv split: if_splits)

lemma deliver_config: "deliver_command n h fr p = Some (f, q) \<Longrightarrow> recv_config q = recv_config p"
  by (auto simp: deliver_command_def bind_eq_Some_conv dest: step_config(1))

lemma handle_frame_config:
  assumes "handle_frame dev fr p = Some (f, q)"
  shows "recv_config q = recv_config p"
proof (cases "h_is_ack (header_of fr) = 1")
  case True
  then have "handle_ack (header_of fr) fr p = Some (f, q)" using assms by (simp add: handle_frame_def Let_def)
  then show ?thesis
    by (auto simp: handle_ack_def Let_def bind_eq_Some_conv dest!: step_config(1,2) split: if_splits)
next
  case False
  then have "handle_command dev (header_of fr) fr p = Some (f, q)" using assms by (simp add: handle_frame_def Let_def)
  then show ?thesis
    by (auto simp: handle_command_def Let_def bind_eq_Some_conv dest!: step_config(3,4) deliver_config
        split: if_splits ack_session_status.splits)
qed

lemma byte_handler_agrees:
  assumes ready: "stream_ready (pr_stream p)" and reuse: "pr_reuse_buffer p"
  shows "run_result (parse (handle_frame dev) False (window_of (pr_stream p)) [x] p) (byte_handler dev x p)"
proof -
  let ?w = "window_of (pr_stream p)"
  let ?s = "(pr_stream p)\<lparr>rs_reuse_count := 0, rs_reuse_index := MAX_PACK_SIZE\<rparr>"
  have rel: "stream_rel ?s ?w []" using ready by (simp add: stream_rel_def stream_ready_def window_of_def)
  have room: "length ?w < MAX_PACK_SIZE \<Longrightarrow> length ?w < rs_reuse_index ?s" by simp
  note step = stream_handler_agrees [OF rel room, of dev p x, simplified]
  show ?thesis
  proof (cases "feed ?w x")
    case (Keep w')
    with step obtain s' where "stream_handler dev x (p\<lparr>pr_stream := ?s\<rparr>) = Some (False, p\<lparr>pr_stream := s'\<rparr>)"
      "stream_rel s' w' []" "rs_reuse_count s' = 0" by (auto simp: step_agrees_def)
    then show ?thesis using Keep stream_rel_ready [of s' w'] by (auto simp: byte_handler_def run_result_def)
  next
    case (Deliver fr w')
    show ?thesis
    proof (cases "handle_frame dev fr p")
      case None
      then show ?thesis using step Deliver by (auto simp: byte_handler_def run_result_def step_agrees_def)
    next
      case (Some r)
      obtain f q where r: "r = (f, q)" by (cases r)
      with step Deliver Some obtain s' where "stream_handler dev x (p\<lparr>pr_stream := ?s\<rparr>) = Some (f, q\<lparr>pr_stream := s'\<rparr>)"
        "stream_rel s' w' []" "rs_reuse_count s' = 0" by (auto simp: step_agrees_def)
      then show ?thesis using Deliver Some r stream_rel_ready [of s' w'] by (auto simp: byte_handler_def run_result_def)
    qed
  next
    case (Rescan w' ys)
    with step obtain s' where s': "stream_handler dev x (p\<lparr>pr_stream := ?s\<rparr>) = Some (False, p\<lparr>pr_stream := s'\<rparr>)"
      "stream_rel s' w' ys" "rs_reuse_count s' = 1" by (auto simp: step_agrees_def)
    have loop: "run_agrees (parse (handle_frame dev) False w' ys p) (reuse_loop dev False (p\<lparr>pr_stream := s'\<rparr>))"
      by (rule reuse_loop_agrees [OF refl s'(2)])
    have b: "byte_handler dev x p = do { (f', p2) \<leftarrow> reuse_loop dev False (p\<lparr>pr_stream := s'\<rparr>);
         Some (f', p2\<lparr>pr_stream := (pr_stream p2)\<lparr>rs_reuse_count := 0\<rparr>\<rparr>) }"
      using s' reuse by (simp add: byte_handler_def)
    have rdy: "stream_ready (t\<lparr>rs_reuse_count := 0\<rparr>) = stream_ready t" "window_of (t\<lparr>rs_reuse_count := 0\<rparr>) = window_of t" for t
      by (simp_all add: stream_ready_def window_of_def)
    show ?thesis
    proof (cases "parse (handle_frame dev) False w' ys p")
      case None
      then show ?thesis using loop b Rescan by (simp add: run_agrees_def run_result_def)
    next
      case (Some r)
      obtain f v q where r: "r = (f, v, q)" by (cases r)
      with Some loop obtain s'' where "reuse_loop dev False (p\<lparr>pr_stream := s'\<rparr>) = Some (f, q\<lparr>pr_stream := s''\<rparr>)"
        "stream_rel s'' v []" by (auto simp: run_agrees_def)
      then show ?thesis using b Rescan Some r stream_rel_ready [of s'' v] rdy [of s'']
        by (auto simp: run_result_def)
    qed
  qed
qed

end
