(* ===== verification/ProtocolDelivery.thy ===== *)
theory ProtocolDelivery
  imports ProtocolRecv
begin

text \<open>
  What the receive pipeline guarantees: the contract of \<open>ContainerHandler\<close> as an interpretation of
  the parser's \<open>frame_sink\<close>, and from it that the pipeline never faults on packets of sufficient
  length, hands over valid packets only, and delivers a command that was sent.
\<close>

subsection \<open>The packet handler keeps the sessions consistent\<close>

text \<open>Acknowledgements that were sent are kept as packets, for duplicates of their command.\<close>

definition recv_inv :: "proto \<Rightarrow> bool" where
  "recv_inv p \<longleftrightarrow> sends_inv p \<and>
     (\<forall>r k s. ack_session_at p r k = Some s \<longrightarrow> as_session_status s = ACK_SESSION_USING \<longrightarrow>
        (\<exists>b. as_memory_block s = Some b \<and> packet_in p b)) \<and>
     length (rc_raw_data (pr_container p)) = MESSAGE_DATA_SIZE"

text \<open>Packets the handler has no excuse for: long enough for their fixed parts, and addressed to an
  ack session that exists.\<close>

definition frame_ok :: "bytes \<Rightarrow> bool" where
  "frame_ok fr \<longleftrightarrow>
     (let h = header_of fr in
      if h_is_ack h = 1 then 16 \<le> length fr
      else 18 \<le> length fr \<and> (h_session_id h = 0 \<or> h_receiver h = DEVICE))"

lemma sends_inv_cong:
  assumes "pr_cmd_table p = pr_cmd_table q" "pr_ack_table p = pr_ack_table q" "pr_pool p = pr_pool q"
  shows "sends_inv p = sends_inv q"
  using sessions_inv_cong [OF assms] owned_cong [OF assms(1,2)] assms(3)
  by (simp add: sends_inv_def packet_in_def)

lemma recv_inv_cong:
  assumes "pr_cmd_table p = pr_cmd_table q" "pr_ack_table p = pr_ack_table q" "pr_pool p = pr_pool q"
    "length (rc_raw_data (pr_container p)) = length (rc_raw_data (pr_container q))"
  shows "recv_inv p = recv_inv q"
  using sends_inv_cong [OF assms(1-3)] ack_session_at_cong [OF assms(2)] assms(3,4)
  by (simp add: recv_inv_def packet_in_def)

definition payload_of :: "nat \<Rightarrow> bytes \<Rightarrow> bytes" where
  "payload_of off fr = slice fr off (length fr - off - 4)"

text \<open>The container a packet leaves behind.\<close>

definition container_of :: "bool \<Rightarrow> u8 \<Rightarrow> u8 \<Rightarrow> bool \<Rightarrow> nat \<Rightarrow> bytes \<Rightarrow> bytes \<Rightarrow> recv_container" where
  "container_of is_ack cmd_set cmd_id need_ack off fr raw =
     (let h = header_of fr in
      \<lparr>rc_command_info = \<lparr>ci_cmd_set = cmd_set, ci_cmd_id = cmd_id, ci_need_ack = need_ack,
         ci_sender = h_sender h, ci_receiver = h_receiver h, ci_length = of_nat (length fr - off - 4)\<rparr>,
       rc_message_header = \<lparr>mh_seq_num = h_seq_num h, mh_session_id = ucast (h_session_id h),
         mh_is_ack = is_ack\<rparr>,
       rc_raw_data = splice raw 0 (payload_of off fr)\<rparr>)"

lemma frame_length_less: "frame_length fr < 1024"
  using unsigned_less [of "h_length (header_of fr)", where 'a = nat] by (simp add: frame_length_def)

lemma fill_container_ok:
  assumes len: "length fr = frame_length fr" "off + 4 \<le> length fr"
    and raw: "length (rc_raw_data (pr_container p)) = MESSAGE_DATA_SIZE"
  shows "fill_container a cs ci n off (header_of fr) fr p =
      Some (p\<lparr>pr_container := container_of a cs ci n off fr (rc_raw_data (pr_container p))\<rparr>)"
    "length (rc_raw_data (container_of a cs ci n off fr (rc_raw_data (pr_container p)))) = MESSAGE_DATA_SIZE"
proof -
  have small: "length fr < 1024" using frame_length_less [of fr] len by simp
  have pay: "length (payload_of off fr) \<le> 1024" using small len by (simp add: payload_of_def)
  then show "length (rc_raw_data (container_of a cs ci n off fr (rc_raw_data (pr_container p)))) = MESSAGE_DATA_SIZE"
    using raw by (simp add: container_of_def Let_def MESSAGE_DATA_SIZE_def)
  show "fill_container a cs ci n off (header_of fr) fr p =
      Some (p\<lparr>pr_container := container_of a cs ci n off fr (rc_raw_data (pr_container p))\<rparr>)"
    using len pay raw
    by (simp add: fill_container_def container_of_def frame_length_def [symmetric] payload_of_def Let_def
        mem_read_def mem_write_def MESSAGE_DATA_SIZE_def CRC_DATA_LEN_def)
qed

lemma deliver_command_ok:
  assumes len: "length fr = frame_length fr" "18 \<le> length fr"
    and raw: "length (rc_raw_data (pr_container p)) = MESSAGE_DATA_SIZE"
  shows "deliver_command n (header_of fr) fr p =
    Some (True, p\<lparr>pr_container := container_of False (fr ! 13) (fr ! 12) n 14 fr (rc_raw_data (pr_container p))\<rparr>)"
  using len fill_container_ok(1) [OF len(1) _ raw, of 14]
  by (simp add: deliver_command_def protocol_consts)

lemma recv_inv_container:
  assumes "recv_inv p" "length (rc_raw_data c) = MESSAGE_DATA_SIZE"
  shows "recv_inv (p\<lparr>pr_container := c\<rparr>)"
  using assms recv_inv_cong [of "p\<lparr>pr_container := c\<rparr>" p] by (simp add: recv_inv_def)

lemma deliver_command_inv:
  assumes inv: "recv_inv p" and len: "length fr = frame_length fr" "18 \<le> length fr"
  shows "\<exists>q. deliver_command n (header_of fr) fr p = Some (True, q) \<and> recv_inv q"
proof -
  have raw: "length (rc_raw_data (pr_container p)) = MESSAGE_DATA_SIZE" using inv by (simp add: recv_inv_def)
  show ?thesis
    using deliver_command_ok [OF len raw] recv_inv_container [OF inv] fill_container_ok(2) [OF len(1) _ raw, of 14] len
    by simp
qed

lemma stored_header_ok:
  assumes inv: "sessions_inv p" and own: "owned p ow = Some b" and pkt: "packet_in p b"
  shows "stored_header (Some b) p = Some (header_of (block_bytes (pr_pool p) b))"
proof -
  let ?q = "pr_pool p"
  have live: "pool_live ?q b" "pool_inv ?q" using sessions_invD(1,4) [OF inv] own by simp_all
  have size: "length (block_bytes ?q b) = mb_size (pl_table ?q ! b)" "12 \<le> length (block_bytes ?q b)"
    using length_block_bytes live pkt by (simp_all add: packet_in_def)
  have "mb_ptr (pl_table ?q ! b) + mb_size (pl_table ?q ! b) \<le> length (pl_memory ?q)"
    using pool_invD(2) [OF live(2,1)] live by (simp add: block_end_def pool_inv_def pool_frame_def)
  then have "mem_read (pl_memory ?q) (mb_ptr (pl_table ?q ! b)) HEADER_LEN = Some (take 12 (block_bytes ?q b))"
    using size by (simp add: mem_read_def block_bytes_def slice_def HEADER_LEN_def min_def)
  then show ?thesis
    using mb_ptr_block_address [OF inv own] by (simp add: stored_header_def header_of_take)
qed

lemma resend_ok:
  assumes inv: "sessions_inv p" and own: "owned p ow = Some b" and pkt: "packet_in p b"
  shows "\<exists>ok. do { ptr \<leftarrow> block_address p (Some b); device_send dev ptr p } =
     Some (ok, p\<lparr>pr_sent := pr_sent p @ [transmitted (block_bytes (pr_pool p) b)]\<rparr>)"
proof -
  obtain sid a r s where h: "header_of (block_bytes (pr_pool p) b) =
      packed_header (of_nat (length (block_bytes (pr_pool p) b))) sid a r s"
    and len: "12 \<le> length (block_bytes (pr_pool p) b)" using pkt by (auto simp: packet_in_def)
  show ?thesis
    using device_send_block [OF sessions_invD(1,4) [OF inv] refl h len block_bytes_small [OF inv own] refl, of ow dev] own
      mb_ptr_block_address [OF inv own]
    by (simp add: transmitted_def)
qed
lemma recv_inv_ack_packet:
  assumes "recv_inv p" "ack_session_at p r k = Some s" "as_session_status s = ACK_SESSION_USING"
  obtains b where "as_memory_block s = Some b" "packet_in p b" "owned p (OAck r k) = Some b"
proof -
  obtain b where "as_memory_block s = Some b" "packet_in p b" using assms unfolding recv_inv_def by blast
  then show ?thesis using that assms(2) by (simp add: owned_def)
qed

text \<open>Changing the status of an ack session, but not to \<open>USING\<close>.\<close>

lemma set_status_ok:
  assumes inv: "recv_inv p" and s: "ack_session_at p r k = Some s" and st: "st \<noteq> ACK_SESSION_USING"
  shows "\<exists>p'. set_ack_session r k (s\<lparr>as_session_status := st\<rparr>) p = Some p' \<and> recv_inv p' \<and>
    owned p' = owned p \<and> pr_container p' = pr_container p \<and> pr_sent p' = pr_sent p"
proof -
  let ?s = "s\<lparr>as_session_status := st\<rparr>"
  have sinv: "sessions_inv p" using inv by (simp add: recv_inv_def sends_inv_def)
  note shaped = sessions_invD(3) [OF sinv]
  have rk: "r < RECEIVER_NUM" "k < SESSION_TABLE_NUM - 1" using ack_session_at_in_range [OF shaped, of r k] s by auto
  have id: "as_session_id ?s = of_nat (k + 1)" using shaped s by (simp add: tables_shaped_def)
  obtain p' where p': "set_ack_session r k ?s p = Some p'"
    and at: "\<And>r' k'. ack_session_at p' r' k' = (if r' = r \<and> k' = k then Some ?s else ack_session_at p r' k')"
    and fr: "p' = p\<lparr>pr_ack_table := pr_ack_table p'\<rparr>"
    by (rule set_ack_session_spec [OF shaped rk id]) (rule that)
  have same: "pr_cmd_table p' = pr_cmd_table p" "pr_pool p' = pr_pool p" "pr_container p' = pr_container p"
    "pr_sent p' = pr_sent p" by (subst fr, simp)+
  have own: "owned p' = owned p"
  proof
    fix ow
    show "owned p' ow = owned p ow"
      using cmd_session_at_cong [OF same(1)] at s by (cases ow) (auto simp: owned_def)
  qed
  have own_rk: "owned p (OAck r k) = Some b" if "as_memory_block s = Some b" for b
    using that s by (simp add: owned_def)
  have blk: "pool_live (pr_pool p) b \<and> (\<forall>ow. owned p ow = Some b \<longrightarrow> ow = OAck r k)" if "as_memory_block ?s = Some b" for b
  proof -
    have o: "owned p (OAck r k) = Some b" using own_rk that by simp
    then show ?thesis using sessions_invD(4) [OF sinv o] sessions_invD(5) [OF sinv _ o] by blast
  qed
  have "sessions_inv p'" by (rule sessions_inv_set_ack [OF sinv p' id blk])
  then have "sends_inv p'" using inv own same(2) by (simp add: recv_inv_def sends_inv_def packet_in_def)
  then have "recv_inv p'"
    using inv at st same unfolding recv_inv_def by (auto simp: packet_in_def)
  then show ?thesis using p' own same by blast
qed

lemma handle_command_ok:
  assumes inv: "recv_inv p" and len: "length fr = frame_length fr" "18 \<le> length fr"
    and rc: "h_session_id (header_of fr) = 0 \<or> h_receiver (header_of fr) = DEVICE"
  shows "\<exists>f q. handle_command dev (header_of fr) fr p = Some (f, q) \<and> recv_inv q"
proof (cases "unat (h_session_id (header_of fr)) = 0")
  case True
  then show ?thesis using deliver_command_inv [OF inv len, of False] by (auto simp: handle_command_def Let_def)
next
  case False
  let ?sid = "unat (h_session_id (header_of fr))" and ?r = "unat (h_receiver (header_of fr))"
  have sinv: "sessions_inv p" using inv by (simp add: recv_inv_def sends_inv_def)
  have sid: "\<not> 31 < ?sid" using unsigned_less [of "h_session_id (header_of fr)", where 'a = nat] by simp
  have "h_receiver (header_of fr) = 0" using rc False by (auto simp: DEVICE_def)
  then have r: "?r = 0" by simp
  have "?r < RECEIVER_NUM" "?sid - 1 < SESSION_TABLE_NUM - 1" using r sid False by (auto simp: protocol_consts)
  then obtain s where s: "ack_session_at p ?r (?sid - 1) = Some s"
    using ack_session_at_in_range [OF sessions_invD(3) [OF sinv]] by blast
  obtain p' where p': "set_ack_session ?r (?sid - 1) (s\<lparr>as_session_status := ACK_SESSION_PROCESS\<rparr>) p = Some p'" "recv_inv p'"
    using set_status_ok [OF inv s, of ACK_SESSION_PROCESS] by auto
  note deliver = deliver_command_inv [OF p'(2) len, of True] deliver_command_inv [OF inv len, of True]
  show ?thesis
  proof (cases "as_session_status s")
    case ACK_SESSION_IDLE
    then show ?thesis using False sid s p' deliver by (auto simp: handle_command_def Let_def)
  next
    case ACK_SESSION_PROCESS
    then show ?thesis using False sid s inv by (auto simp: handle_command_def Let_def)
  next
    case ACK_SESSION_USING
    obtain b where b: "as_memory_block s = Some b" "packet_in p b" "owned p (OAck ?r (?sid - 1)) = Some b"
      by (rule recv_inv_ack_packet [OF inv s ACK_SESSION_USING]) (rule that)
    obtain ptr ok where ptr: "block_address p (Some b) = Some ptr" "device_send dev ptr p =
        Some (ok, p\<lparr>pr_sent := pr_sent p @ [transmitted (block_bytes (pr_pool p) b)]\<rparr>)"
      using resend_ok [OF sinv b(3,2), of dev] by (auto simp: bind_eq_Some_conv)
    have "recv_inv (p\<lparr>pr_sent := pr_sent p @ [transmitted (block_bytes (pr_pool p) b)]\<rparr>)"
      using inv recv_inv_cong [of "p\<lparr>pr_sent := pr_sent p @ [transmitted (block_bytes (pr_pool p) b)]\<rparr>" p] by simp
    then show ?thesis
      using ACK_SESSION_USING False sid s p' deliver ptr b(1) stored_header_ok [OF sinv b(3,2)]
      by (auto simp: handle_command_def Let_def)
  qed
qed

lemma handle_ack_ok:
  assumes inv: "recv_inv p" and len: "length fr = frame_length fr" "16 \<le> length fr"
  shows "\<exists>f q. handle_ack (header_of fr) fr p = Some (f, q) \<and> recv_inv q"
proof -
  let ?i = "unat (h_session_id (header_of fr))"
  let ?c = "cmd_session_at p ?i"
  have sinv: "sessions_inv p" and snd: "sends_inv p" and raw: "length (rc_raw_data (pr_container p)) = MESSAGE_DATA_SIZE"
    using inv by (simp_all add: recv_inv_def sends_inv_def)
  have i: "?i < SESSION_TABLE_NUM"
    using unsigned_less [of "h_session_id (header_of fr)", where 'a = nat] by (simp add: protocol_consts)
  show ?thesis
  proof (cases "0 < ?i \<and> ?i < 32 \<and> cs_usage_flag ?c")
    case False
    then show ?thesis using inv by (auto simp: handle_ack_def Let_def)
  next
    case True
    obtain b where b: "cs_memory_block ?c = Some b" "owned p (OCmd ?i) = Some b"
      by (rule sessions_inv_block [OF sinv i]) (use True in simp, rule that)
    have pkt: "packet_in p b" using snd b by (simp add: sends_inv_def)
    note sh = stored_header_ok [OF sinv b(2) pkt]
    let ?cont = "container_of True (cs_cmd_set ?c) (cs_cmd_id ?c) True 12 fr (rc_raw_data (pr_container p))"
    let ?p1 = "p\<lparr>pr_container := ?cont\<rparr>"
    have inv1: "recv_inv ?p1" using recv_inv_container [OF inv] fill_container_ok(2) [OF len(1) _ raw] len(2) by simp
    then have sinv1: "sessions_inv ?p1" "sends_inv ?p1" by (simp_all add: recv_inv_def sends_inv_def)
    obtain p2 where p2: "free_cmd_session ?i ?p1 = Some p2" "sessions_inv p2" "others_kept (OCmd ?i) ?p1 p2"
        "owned p2 (OCmd ?i) = None" "\<And>ow. ow \<noteq> OCmd ?i \<Longrightarrow> owned p2 ow = owned ?p1 ow"
        "pr_ack_table p2 = pr_ack_table ?p1" "pr_container p2 = pr_container ?p1"
      by (rule free_session_others [OF sinv1(1) i]) (rule that)
    have "sends_inv p2" by (rule sends_inv_others [OF sinv1(2) p2(2,3,5)]) (use p2(4) in auto)
    moreover have "\<exists>b. as_memory_block s = Some b \<and> packet_in p2 b"
      if s: "ack_session_at p2 r k = Some s" "as_session_status s = ACK_SESSION_USING" for r k s
    proof -
      have "ack_session_at ?p1 r k = Some s" using s(1) ack_session_at_cong [OF p2(6)] by simp
      then obtain c where c: "as_memory_block s = Some c" "packet_in ?p1 c" "owned ?p1 (OAck r k) = Some c"
        by (rule recv_inv_ack_packet [OF inv1 _ s(2)]) (rule that)
      have "block_bytes (pr_pool p2) c = block_bytes (pr_pool ?p1) c"
        using p2(3) c(3) unfolding others_kept_def by blast
      then show ?thesis using c by (simp add: packet_in_def)
    qed
    moreover have "length (rc_raw_data (pr_container p2)) = MESSAGE_DATA_SIZE"
      using p2(7) inv1 by (simp add: recv_inv_def)
    ultimately have "recv_inv p2" by (simp add: recv_inv_def)
    moreover have "fill_container True (cs_cmd_set ?c) (cs_cmd_id ?c) True HEADER_LEN (header_of fr) fr p = Some ?p1"
      using fill_container_ok(1) [OF len(1) _ raw] len(2) by (simp add: HEADER_LEN_def)
    ultimately show ?thesis using True b sh p2(1) inv by (auto simp: handle_ack_def Let_def)
  qed
qed

lemma handle_frame_ok:
  assumes "valid_frame fr" "frame_ok fr" "recv_inv p"
  shows "\<exists>f q. handle_frame dev fr p = Some (f, q) \<and> recv_inv q"
  using assms handle_ack_ok [OF assms(3)] handle_command_ok [OF assms(3)]
  by (simp add: handle_frame_def Let_def valid_frame_def frame_ok_def split: if_splits)

text \<open>\<open>ContainerHandler\<close> honours the contract of the parser's packet handler.\<close>

interpretation handler: frame_sink "handle_frame dev" recv_inv frame_ok for dev
  by unfold_locales (rule handle_frame_ok)

subsection \<open>What the send pipeline builds is a valid packet\<close>

lemma le_bytes_halves:
  "le_bytes 4 (ucast (a :: u16) OR push_bit 16 (ucast (b :: u16)) :: u32) = le_bytes 2 a @ le_bytes 2 b"
proof (rule nth_equalityI)
  have big: "\<not> bit a (16 + n)" "\<not> bit a (24 + n)" for n
    using bit_imp_le_length [of a "16 + n"] bit_imp_le_length [of a "24 + n"] by auto
  fix i
  assume "i < length (le_bytes 4 (ucast a OR push_bit 16 (ucast b) :: u32))"
  then consider "i = 0" | "i = 1" | "i = 2" | "i = 3" by (simp, linarith)
  then show "le_bytes 4 (ucast a OR push_bit 16 (ucast b) :: u32) ! i = (le_bytes 2 a @ le_bytes 2 b) ! i"
    by cases (auto simp: big nth_le_bytes nth_append field_bit_simps intro!: bit_word_eqI)
qed simp

lemma header_bytes_crc: "header_bytes (h\<lparr>h_crc := c\<rparr>) = take 10 (header_bytes h) @ le_bytes 2 c"
  by (simp add: header_bytes_def header_word0_def header_word1_def header_word2_def le_bytes_halves)

lemma packed_header_check: "crc_head_check (header_bytes (packed_header pl sid a r s))"
proof -
  have "HEADER_LEN - CRC_HEAD_LEN = 10" by (simp add: protocol_consts)
  then obtain h where "header_bytes (packed_header pl sid a r s) =
      take 10 (header_bytes h) @ le_bytes 2 (crc16_calc (take 10 (header_bytes h)))"
    unfolding packed_header_def Let_def header_bytes_crc by metis
  moreover have "le_word (le_bytes 2 c) = c" for c :: u16 by (rule le_word_le_bytes) simp
  ultimately show ?thesis by (simp add: crc_head_check_iff)
qed

lemma unat_length_field: "n < 1024 \<Longrightarrow> unat (ucast (of_nat n :: u16) :: 10 word) = n"
  by (simp add: unat_ucast_mod unat_of_nat_small)

text \<open>Any packet with a packed header in front and the tail checksum behind.\<close>

lemma valid_frame_packed:
  assumes h: "take 12 fr = header_bytes (packed_header (of_nat (length fr)) sid a r s)"
    and body: "fr = with_tail_crc body" and len: "12 \<le> length body" "length fr < 1024"
    and rc: "r = DEVICE \<or> r = 0xFF"
  shows "valid_frame fr"
proof -
  have "header_of (take 12 fr) = packed_header (of_nat (length fr)) sid a r s" by (simp only: h header_of_bytes)
  then have hd: "header_of fr = packed_header (of_nat (length fr)) sid a r s" by (simp add: header_of_take)
  have fl: "frame_length fr = length fr" using len unat_length_field [of "length fr"] by (simp add: frame_length_def hd)
  have "unat (h_length (header_of fr)) < MAX_PACK_SIZE" using fl len(2) by (simp add: frame_length_def MAX_PACK_SIZE_def)
  then have "header_ok fr"
    using rc packed_header_check h by (simp add: header_ok_def Let_def hd HEADER_LEN_def VERSION_def)
  moreover have "crc_tail_check fr"
  proof -
    have "le_word (le_bytes 4 c) = c" for c :: u32 by (rule le_word_le_bytes) simp
    then show ?thesis by (simp add: body with_tail_crc_def crc_tail_check_iff)
  qed
  ultimately show ?thesis using fl len body by (simp add: valid_frame_def with_tail_crc_def)
qed

lemma valid_command_frame:
  assumes "length data \<le> 1005" "r = DEVICE \<or> r = 0xFF"
  shows "valid_frame (command_frame sid seq cs ci r data)"
proof (rule valid_frame_packed [where body = "command_body sid seq cs ci r data"])
  show "take 12 (command_frame sid seq cs ci r data) =
      header_bytes (packed_header (of_nat (length (command_frame sid seq cs ci r data))) sid 0 r seq)"
    by (simp add: command_frame_def with_tail_crc_def command_body_def)
qed (use assms in \<open>simp_all add: command_frame_def command_body_def with_tail_crc_def\<close>)

text \<open>What a command packet leaves in the container.\<close>

lemma command_frame_parts:
  "command_frame sid seq cs ci r data ! 12 = ci" "command_frame sid seq cs ci r data ! 13 = cs"
  "payload_of 14 (command_frame sid seq cs ci r data) = data"
  by (simp_all add: command_frame_def with_tail_crc_def command_body_def payload_of_def slice_def nth_append)

subsection \<open>Reading a buffer\<close>

lemma byte_handler_keep:
  assumes "stream_ready (pr_stream p)" "pr_reuse_buffer p" "feed (window_of (pr_stream p)) x = Keep w'"
  shows "\<exists>s. byte_handler dev x p = Some (False, p\<lparr>pr_stream := s\<rparr>) \<and> stream_ready s \<and> window_of s = w'"
  using byte_handler_agrees [OF assms(1,2), of dev x] assms(3) by (simp add: run_result_def)

lemma byte_handler_deliver:
  assumes "stream_ready (pr_stream p)" "pr_reuse_buffer p" "feed (window_of (pr_stream p)) x = Deliver fr w'"
    and "handle_frame dev fr p = Some (f, q)"
  shows "\<exists>s. byte_handler dev x p = Some (f, q\<lparr>pr_stream := s\<rparr>) \<and> stream_ready s \<and> window_of s = w'"
  using byte_handler_agrees [OF assms(1,2), of dev x] assms(3,4) by (simp add: run_result_def)

lemma receive_bytes_keep:
  assumes "stream_ready (pr_stream p)" "pr_reuse_buffer p" "window_of (pr_stream p) = win 0"
    and "pr_read_pos p + k \<le> length (pr_recv_buff p)"
    and "\<And>i. i < k \<Longrightarrow> feed (win i) (pr_recv_buff p ! (pr_read_pos p + i)) = Keep (win (Suc i))"
  shows "\<exists>s. receive_bytes dev (k + m) p =
      receive_bytes dev m (p\<lparr>pr_stream := s, pr_read_pos := pr_read_pos p + k\<rparr>) \<and> stream_ready s \<and> window_of s = win k"
  using assms
proof (induction k arbitrary: p win)
  case 0
  then show ?case by (intro exI [of _ "pr_stream p"]) simp
next
  case (Suc k)
  let ?x = "pr_recv_buff p ! pr_read_pos p"
  have "feed (window_of (pr_stream p)) ?x = Keep (win 1)" using Suc.prems(3) Suc.prems(5) [of 0] by simp
  then obtain s where s: "byte_handler dev ?x p = Some (False, p\<lparr>pr_stream := s\<rparr>)" "stream_ready s" "window_of s = win 1"
    using byte_handler_keep [OF Suc.prems(1,2)] by blast
  let ?p1 = "p\<lparr>pr_stream := s, pr_read_pos := pr_read_pos p + 1\<rparr>"
  have "\<exists>s'. receive_bytes dev (k + m) ?p1 =
      receive_bytes dev m (?p1\<lparr>pr_stream := s', pr_read_pos := pr_read_pos ?p1 + k\<rparr>) \<and> stream_ready s' \<and>
      window_of s' = win (Suc k)"
  proof (rule Suc.IH [where win = "\<lambda>i. win (Suc i)"])
    show "feed (win (Suc i)) (pr_recv_buff ?p1 ! (pr_read_pos ?p1 + i)) = Keep (win (Suc (Suc i)))" if "i < k" for i
      using Suc.prems(5) [of "Suc i"] that by simp
  qed (use Suc.prems s in simp_all)
  moreover have "receive_bytes dev (Suc k + m) p = receive_bytes dev (k + m) ?p1"
    using s Suc.prems(4) by simp
  ultimately show ?case by auto
qed
subsection \<open>The pipeline returns\<close>

definition pipeline_inv :: "proto \<Rightarrow> bool" where
  "pipeline_inv p \<longleftrightarrow> recv_inv p \<and> stream_ready (pr_stream p) \<and> window_ok (window_of (pr_stream p)) \<and>
     pr_reuse_buffer p \<and> length (pr_recv_buff p) = BUFFER_SIZE \<and> pr_read_len p < BUFFER_SIZE"

lemma pipeline_invD:
  assumes "pipeline_inv p"
  shows "recv_inv p" "stream_ready (pr_stream p)" "window_ok (window_of (pr_stream p))" "pr_reuse_buffer p"
    "length (pr_recv_buff p) = BUFFER_SIZE" "pr_read_len p < BUFFER_SIZE"
  using assms by (simp_all add: pipeline_inv_def)

lemma parse_config:
  "parse d f w xs p = Some (f', w', q) \<Longrightarrow> d = handle_frame dev \<Longrightarrow> recv_config q = recv_config p"
proof (induction d f w xs p rule: parse.induct)
  case (2 d f w x xs p)
  show ?case
  proof (cases "feed w x")
    case (Deliver fr v)
    with 2(4) obtain f1 q1 where h: "d fr p = Some (f1, q1)" "parse d f1 v xs q1 = Some (f', w', q)"
      by (auto split: option.splits)
    then have "recv_config q = recv_config q1" using 2(2) [OF Deliver h(1) refl] 2(5) by simp
    then show ?thesis using handle_frame_config h(1) 2(5) by simp
  qed (use 2 in auto)
qed simp

lemma byte_handler_total:
  assumes inv: "pipeline_inv p"
    and ok: "\<And>fr. sublist fr (window_of (pr_stream p) @ [x]) \<Longrightarrow> valid_frame fr \<Longrightarrow> frame_ok fr"
  shows "\<exists>f q. byte_handler dev x p = Some (f, q) \<and> pipeline_inv q \<and>
    suffix (window_of (pr_stream q)) (window_of (pr_stream p) @ [x]) \<and> recv_config q = recv_config p"
proof -
  note I = pipeline_invD [OF inv]
  let ?w = "window_of (pr_stream p)"
  obtain f w' q where r: "parse (handle_frame dev) False ?w [x] p = Some (f, w', q)" "recv_inv q" "window_ok w'"
    "suffix w' (?w @ [x])"
    using handler.parse_total [OF refl I(3,1), where dev = dev and f = False and xs = "[x]"] ok by blast
  have cfg: "recv_config q = recv_config p" using parse_config [OF r(1) refl] .
  obtain s where s: "byte_handler dev x p = Some (f, q\<lparr>pr_stream := s\<rparr>)" "stream_ready s" "window_of s = w'"
    using byte_handler_agrees [OF I(2,4), of dev x] r(1) by (auto simp: run_result_def)
  have "recv_inv (q\<lparr>pr_stream := s\<rparr>)" using r(2) recv_inv_cong [of "q\<lparr>pr_stream := s\<rparr>" q] by simp
  then have "pipeline_inv (q\<lparr>pr_stream := s\<rparr>)"
    using I s r(3) cfg by (simp add: pipeline_inv_def recv_config_def)
  then show ?thesis using s r(4) cfg by auto
qed

lemma pipeline_inv_pos: "pipeline_inv (p\<lparr>pr_read_pos := k\<rparr>) = pipeline_inv p"
  using recv_inv_cong [of "p\<lparr>pr_read_pos := k\<rparr>" p] by (simp add: pipeline_inv_def)

lemma receive_bytes_total:
  assumes "pipeline_inv p" "pr_read_pos p + n \<le> BUFFER_SIZE"
    and "\<And>fr. sublist fr (window_of (pr_stream p) @ slice (pr_recv_buff p) (pr_read_pos p) n) \<Longrightarrow> valid_frame fr \<Longrightarrow> frame_ok fr"
  shows "\<exists>f q. receive_bytes dev n p = Some (f, q) \<and> pipeline_inv q \<and> pr_buffer_map q = pr_buffer_map p"
  using assms
proof (induction n arbitrary: p)
  case 0
  then show ?case by (intro exI [of _ False] exI [of _ p]) simp
next
  case (Suc n)
  note I = pipeline_invD [OF Suc.prems(1)]
  let ?w = "window_of (pr_stream p)" and ?x = "pr_recv_buff p ! pr_read_pos p"
  have pos: "pr_read_pos p < length (pr_recv_buff p)" using Suc.prems(2) I(5) by simp
  have sl: "slice (pr_recv_buff p) (pr_read_pos p) (Suc n) = ?x # slice (pr_recv_buff p) (Suc (pr_read_pos p)) n"
    using slice_Suc [OF pos] .
  have "frame_ok fr" if "sublist fr (?w @ [?x])" "valid_frame fr" for fr
  proof (rule Suc.prems(3) [OF _ that(2)])
    have "sublist (?w @ [?x]) ((?w @ [?x]) @ slice (pr_recv_buff p) (Suc (pr_read_pos p)) n)"
      by (rule sublist_append_rightI)
    then show "sublist fr (?w @ slice (pr_recv_buff p) (pr_read_pos p) (Suc n))"
      using sublist_order.order.trans [OF that(1)] sl by simp
  qed
  then obtain f q where q: "byte_handler dev ?x p = Some (f, q)" "pipeline_inv q" "suffix (window_of (pr_stream q)) (?w @ [?x])"
    "recv_config q = recv_config p" using byte_handler_total [OF Suc.prems(1), of ?x dev] by auto
  show ?case
  proof (cases f)
    case True
    then show ?thesis using q(1,2,4) pos by (intro exI [of _ True] exI [of _ q]) (simp add: recv_config_def)
  next
    case False
    let ?q = "q\<lparr>pr_read_pos := pr_read_pos q + 1\<rparr>"
    have c: "pr_recv_buff q = pr_recv_buff p" "pr_read_pos q = pr_read_pos p" "pr_buffer_map q = pr_buffer_map p"
      using q(4) by (simp_all add: recv_config_def)
    have "\<exists>f' q'. receive_bytes dev n ?q = Some (f', q') \<and> pipeline_inv q' \<and> pr_buffer_map q' = pr_buffer_map ?q"
    proof (rule Suc.IH)
      show "frame_ok fr" if fr: "sublist fr (window_of (pr_stream ?q) @ slice (pr_recv_buff ?q) (pr_read_pos ?q) n)"
          "valid_frame fr" for fr
      proof (rule Suc.prems(3) [OF _ fr(2)])
        have "suffix (window_of (pr_stream q) @ slice (pr_recv_buff p) (Suc (pr_read_pos p)) n)
            (?w @ slice (pr_recv_buff p) (pr_read_pos p) (Suc n))"
          using q(3) sl by (auto simp: suffix_def)
        then show "sublist fr (?w @ slice (pr_recv_buff p) (pr_read_pos p) (Suc n))"
          using fr(1) c(1,2) sublist_order.order.trans suffix_imp_sublist by fastforce
      qed
    qed (use q(2) c Suc.prems(2) in \<open>simp_all add: pipeline_inv_pos\<close>)
    then show ?thesis using q(1) False pos c(3) by simp
  qed
qed

text \<open>The bytes a call of \<open>Receive\<close> looks at.\<close>

definition unread :: "int \<times> bytes \<Rightarrow> proto \<Rightarrow> bytes" where
  "unread reading p = (if pr_read_pos p \<ge> pr_read_len p then snd reading
     else slice (pr_recv_buff p) (pr_read_pos p) (pr_read_len p - pr_read_pos p))"

lemma read_device_ok:
  assumes "length (pr_recv_buff p) = BUFFER_SIZE" "length bs \<le> BUFFER_SIZE"
  shows "read_device (int (length bs), bs) p = Some (p\<lparr>pr_recv_buff := splice (pr_recv_buff p) 0 bs,
    pr_read_pos := 0, pr_read_len := length bs\<rparr>)"
proof -
  have "nat (int (length bs) mod 2 ^ 16) = length bs" using assms(2) by (simp add: protocol_consts)
  then show ?thesis using assms by (simp add: read_device_def mem_write_def)
qed

lemma receive_ok:
  assumes inv: "pipeline_inv p" and reading: "n = int (length bs)" "length bs < BUFFER_SIZE"
    and ok: "\<And>fr. sublist fr (window_of (pr_stream p) @ unread (n, bs) p) \<Longrightarrow> valid_frame fr \<Longrightarrow> frame_ok fr"
  shows "\<exists>c q. receive dev (n, bs) p = Some (c, q) \<and> pipeline_inv q \<and> pr_buffer_map q = pr_buffer_map p \<and>
    (c = None \<or> c = Some (pr_container q))"
proof -
  note I = pipeline_invD [OF inv]
  obtain p1 where p1: "(if pr_read_pos p \<ge> pr_read_len p then read_device (n, bs) p else Some p) = Some p1"
    "pipeline_inv p1" "unread (n, bs) p = slice (pr_recv_buff p1) (pr_read_pos p1) (pr_read_len p1 - pr_read_pos p1)"
    "pr_stream p1 = pr_stream p"
    "pr_buffer_map p1 = pr_buffer_map p"
  proof (cases "pr_read_pos p \<ge> pr_read_len p")
    case True
    let ?p1 = "p\<lparr>pr_recv_buff := splice (pr_recv_buff p) 0 bs, pr_read_pos := 0, pr_read_len := length bs\<rparr>"
    have "read_device (n, bs) p = Some ?p1" using read_device_ok [of p bs] I(5) reading by simp
    moreover have "recv_inv ?p1" using I(1) recv_inv_cong [of ?p1 p] by simp
    then have "pipeline_inv ?p1" using I reading by (simp add: pipeline_inv_def)
    moreover have "slice (splice (pr_recv_buff p) 0 bs) 0 (length bs) = bs"
      using I(5) reading by (intro slice_splice_same) simp_all
    ultimately show ?thesis using that [of ?p1] True by (simp add: unread_def)
  next
    case False
    then show ?thesis using that [of p] inv by (simp add: unread_def)
  qed
  have "pr_read_pos p1 + (pr_read_len p1 - pr_read_pos p1) \<le> BUFFER_SIZE \<or> pr_read_len p1 - pr_read_pos p1 = 0"
    using pipeline_invD(6) [OF p1(2)] by linarith
  then have "\<exists>f q. receive_bytes dev (pr_read_len p1 - pr_read_pos p1) p1 = Some (f, q) \<and> pipeline_inv q \<and>
      pr_buffer_map q = pr_buffer_map p1"
  proof
    assume le: "pr_read_pos p1 + (pr_read_len p1 - pr_read_pos p1) \<le> BUFFER_SIZE"
    show ?thesis by (rule receive_bytes_total [OF p1(2) le]) (use ok p1(3,4) in simp)
  qed (intro exI [of _ False] exI [of _ p1], use p1(2) in simp)
  then show ?thesis using p1(1,5) pipeline_invD(6) [OF p1(2)] by (auto simp: receive_def)
qed

subsection \<open>A packet that was sent arrives\<close>

text \<open>A valid packet in one reading, after bytes without a false header, is handed to the handler
  with its last byte.\<close>

lemma receive_valid_frame:
  assumes inv: "pipeline_inv q" and buffer: "pr_read_len q \<le> pr_read_pos q"
    and w: "length (window_of (pr_stream q)) \<le> 11" "no_false_header (window_of (pr_stream q)) fr"
    and fr: "valid_frame fr" and handled: "\<And>q1. recv_inv q1 \<Longrightarrow> pr_container q1 = pr_container q \<Longrightarrow> 
      pr_sent q1 = pr_sent q \<Longrightarrow> \<exists>c. handle_frame dev fr q1 = Some (True, q1\<lparr>pr_container := c\<rparr>) \<and> P c"
  shows "\<exists>c q'. receive dev (int (length fr), fr) q = Some (Some c, q') \<and> P c \<and> pr_sent q' = pr_sent q \<and> pr_buffer_map q' = pr_buffer_map q"
proof -
  note I = pipeline_invD [OF inv]
  let ?w = "window_of (pr_stream q)"
  let ?k = "length fr - 1"
  have len: "12 \<le> length fr" "length fr < 1024"
    using fr frame_length_less [of fr] by (simp_all add: valid_frame_def)
  let ?q1 = "q\<lparr>pr_recv_buff := splice (pr_recv_buff q) 0 fr, pr_read_pos := 0, pr_read_len := length fr\<rparr>"
  have rd: "read_device (int (length fr), fr) q = Some ?q1"
    using read_device_ok [OF I(5), of fr] len by (simp add: protocol_consts)
  have at: "splice (pr_recv_buff q) 0 fr ! i = fr ! i" if "i < length fr" for i
    using that I(5) len by (simp add: nth_splice protocol_consts)
  have bl: "length (splice (pr_recv_buff q) 0 fr) = BUFFER_SIZE" using I(5) len by (simp add: protocol_consts)
  have "\<exists>s. receive_bytes dev (?k + 1) ?q1 =
      receive_bytes dev 1 (?q1\<lparr>pr_stream := s, pr_read_pos := pr_read_pos ?q1 + ?k\<rparr>) \<and> stream_ready s \<and>
      window_of s = window_after ?w fr ?k"
  proof (rule receive_bytes_keep)
    show "feed (window_after ?w fr i) (pr_recv_buff ?q1 ! (pr_read_pos ?q1 + i)) = Keep (window_after ?w fr (Suc i))"
      if "i < ?k" for i
      using feed_valid_frame [OF fr w(2), of i] that at [of i] by simp
  qed (use I bl len in \<open>simp_all add: window_after_0 [OF w(1)] protocol_consts\<close>)
  moreover have kn: "Suc ?k = length fr" using len by simp
  ultimately obtain s where s: "receive_bytes dev (length fr) ?q1 =
      receive_bytes dev 1 (?q1\<lparr>pr_stream := s, pr_read_pos := ?k\<rparr>)" "stream_ready s" "window_of s = window_after ?w fr ?k"
    using kn by (auto simp del: receive_bytes.simps)
  let ?q2 = "?q1\<lparr>pr_stream := s, pr_read_pos := ?k\<rparr>"
  have inv2: "recv_inv ?q2" using I(1) recv_inv_cong [of ?q2 q] by simp
  obtain c where c: "handle_frame dev fr ?q2 = Some (True, ?q2\<lparr>pr_container := c\<rparr>)" "P c"
    using handled [OF inv2] by auto
  have "feed (window_of (pr_stream ?q2)) (fr ! ?k) = Deliver fr (last_bytes 11 fr)"
    using feed_valid_frame [OF fr w(2), of ?k] s(3) len by simp
  then obtain s' where "byte_handler dev (fr ! ?k) ?q2 = Some (True, ?q2\<lparr>pr_container := c, pr_stream := s'\<rparr>)"
    using byte_handler_deliver [OF _ _ _ c(1), of "fr ! ?k" "last_bytes 11 fr"] s(2) I(4) by auto
  then have "receive_bytes dev (length fr) ?q1 = Some (True, ?q2\<lparr>pr_container := c, pr_stream := s'\<rparr>)"
    using s(1) at [of ?k] bl len by (simp add: protocol_consts)
  then show ?thesis using rd buffer len c(2) by (simp add: receive_def protocol_consts)
qed
subsection \<open>Example states\<close>

lemma idle_proto_stream:
  "pr_stream idle_proto = \<lparr>rs_reuse_index = 0, rs_reuse_count = 0, rs_recv_index = 0, rs_recv_buff = replicate MAX_PACK_SIZE 0\<rparr>"
  "pr_reuse_buffer idle_proto" "pr_recv_buff idle_proto = replicate BUFFER_SIZE 0" "pr_read_pos idle_proto = 0"
  "pr_read_len idle_proto = 0" "pr_container idle_proto = some_container"
  by (simp_all add: idle_proto_def protocol_init_def setup_session_def raw_proto_def)

lemma idle_proto_pipeline: "pipeline_inv idle_proto"
proof -
  have "sends_inv idle_proto" using idle_proto_sessions by (simp add: sends_inv_def)
  then have "recv_inv idle_proto"
    by (auto simp: recv_inv_def idle_proto_ack idle_proto_stream some_container_def split: if_splits)
  then show ?thesis
    by (simp add: pipeline_inv_def idle_proto_stream stream_ready_def window_of_def window_ok_def protocol_consts)
qed

subsection \<open>Properties\<close>

text \<open>C13. \<open>ByteHandler\<close> implements the abstract parser: on any buffer within its bounds, the moves of
  \<open>PrepareStream\<close>, \<open>ShiftStream\<close> and \<open>ReuseStream\<close> and the loop over the reused bytes compute, for
  every byte, exactly the result, the window and the packets handed to \<open>ContainerHandler\<close> that the
  parser on lists computes, and they fault only if the handler does.\<close>

theorem byte_handler_implements_parser:
  assumes "stream_ready (pr_stream p)" "pr_reuse_buffer p"
  shows "case parse (handle_frame dev) False (window_of (pr_stream p)) [x] p of
      None \<Rightarrow> byte_handler dev x p = None
    | Some (f, w, q) \<Rightarrow> \<exists>s. byte_handler dev x p = Some (f, q\<lparr>pr_stream := s\<rparr>) \<and> stream_ready s \<and> window_of s = w"
  using byte_handler_agrees [OF assms, of dev x] by (simp only: run_result_def)

theorem byte_handler_implements_parser_witness:
  "\<exists>s. byte_handler (\<lambda>_. 0) 0xAA idle_proto = Some (False, idle_proto\<lparr>pr_stream := s\<rparr>) \<and> window_of s = [0xAA]"
proof -
  have "stream_ready (pr_stream idle_proto)" "pr_reuse_buffer idle_proto" "window_of (pr_stream idle_proto) = []"
    by (simp_all add: idle_proto_stream stream_ready_def window_of_def)
  then show ?thesis
    using byte_handler_implements_parser [of idle_proto "\<lambda>_. 0" "0xAA"] by (auto simp: feed_short)
qed



lemma message_received:
  assumes "sessions_inv p" "command_fits p n" "n = unat (ci_length ci)" "n \<le> length mem"
    "\<not> cs_usage_flag (cmd_session_at p 0)" "n \<le> 1005" "ci_receiver ci = DEVICE \<or> ci_receiver ci = 0xFF"
    "pipeline_inv q" "pr_read_len q \<le> pr_read_pos q" "length (window_of (pr_stream q)) \<le> 11"
    "no_false_header (window_of (pr_stream q))
       (command_frame 0 (pr_seq_num p) (ci_cmd_set ci) (ci_cmd_id ci) (ci_receiver ci) (take n mem))"
  shows "\<exists>p' f c q'. send_message dev ci (Some mem) now p = Some (True, None, p') \<and> pr_sent p' = pr_sent p @ [f] \<and>
    receive dev' (int (length f), f) q = Some (Some c, q') \<and>
    rc_command_info c = ci\<lparr>ci_need_ack := False, ci_sender := DEVICE\<rparr> \<and>
    take n (rc_raw_data c) = take n mem \<and> pr_sent q' = pr_sent q \<and>
    \<not> mh_is_ack (rc_message_header c) \<and> length (rc_raw_data c) = MESSAGE_DATA_SIZE \<and> pr_buffer_map q' = pr_buffer_map q"
proof -
  let ?f = "command_frame 0 (pr_seq_num p) (ci_cmd_set ci) (ci_cmd_id ci) (ci_receiver ci) (take n mem)"
  obtain p' where p': "send_message dev ci (Some mem) now p = Some (True, None, p')" "pr_sent p' = pr_sent p @ [?f]"
    using send_message_ok [OF assms(1-6)] by blast
  have d: "length (take n mem) \<le> 1005" "length (take n mem) = n" using assms(4,6) by simp_all
  have fr: "valid_frame ?f" by (rule valid_command_frame [OF d(1) assms(7)])
  then have len: "length ?f = frame_length ?f" "18 \<le> length ?f" by (simp_all add: valid_frame_def)
  let ?ok = "\<lambda>c. rc_command_info c = ci\<lparr>ci_need_ack := False, ci_sender := DEVICE\<rparr> \<and> take n (rc_raw_data c) = take n mem
    \<and> \<not> mh_is_ack (rc_message_header c) \<and> length (rc_raw_data c) = MESSAGE_DATA_SIZE"
  have "\<exists>c. handle_frame dev' ?f q1 = Some (True, q1\<lparr>pr_container := c\<rparr>) \<and> ?ok c" if q1: "recv_inv q1" for q1
  proof -
    let ?raw = "rc_raw_data (pr_container q1)"
    let ?c = "container_of False (ci_cmd_set ci) (ci_cmd_id ci) False 14 ?f ?raw"
    have raw: "length ?raw = MESSAGE_DATA_SIZE" using q1 by (simp add: recv_inv_def)
    have h: "header_of ?f = packed_header (of_nat (18 + n)) 0 0 (ci_receiver ci) (pr_seq_num p)"
      using header_of_command_frame d(2) by simp
    have "handle_frame dev' ?f q1 = deliver_command False (header_of ?f) ?f q1"
      by (simp add: handle_frame_def handle_command_def h Let_def)
    then have "handle_frame dev' ?f q1 = Some (True, q1\<lparr>pr_container := ?c\<rparr>)"
      using deliver_command_ok [OF len raw, of False] by (simp add: command_frame_parts)
    moreover have "rc_command_info ?c = ci\<lparr>ci_need_ack := False, ci_sender := DEVICE\<rparr>"
      unfolding container_of_def Let_def h using assms(3) d(2) by simp
    moreover have "take n (rc_raw_data ?c) = take n mem"
      using d(2) raw assms(4) by (simp add: container_of_def Let_def command_frame_parts splice_def)
    moreover have "\<not> mh_is_ack (rc_message_header ?c)" "length (rc_raw_data ?c) = MESSAGE_DATA_SIZE"
      using raw d(2) assms(6) by (simp_all add: container_of_def Let_def MESSAGE_DATA_SIZE_def command_frame_parts)
    ultimately show ?thesis by blast
  qed
  then have "\<exists>c q'. receive dev' (int (length ?f), ?f) q = Some (Some c, q') \<and> ?ok c \<and> pr_sent q' = pr_sent q \<and> pr_buffer_map q' = pr_buffer_map q"
    by (intro receive_valid_frame [OF assms(8-11) fr]) blast
  then show ?thesis using p' by blast
qed

text \<open>C15. A message that \<open>SendMessage\<close> of one side transmits to the other side's address is returned
  by the other side's \<open>Receive\<close>, with the same command set and id, the sender's address, the same
  length and the same data, whatever harmless bytes came before it.\<close>

theorem sent_message_is_received:
  assumes "sessions_inv p" "command_fits p n" "n = unat (ci_length ci)" "n \<le> length mem"
    "\<not> cs_usage_flag (cmd_session_at p 0)" "n \<le> 1005" "ci_receiver ci = DEVICE \<or> ci_receiver ci = 0xFF"
    "pipeline_inv q" "pr_read_len q \<le> pr_read_pos q" "length (window_of (pr_stream q)) \<le> 11"
    "no_false_header (window_of (pr_stream q))
       (command_frame 0 (pr_seq_num p) (ci_cmd_set ci) (ci_cmd_id ci) (ci_receiver ci) (take n mem))"
  shows "\<exists>p' f c q'. send_message dev ci (Some mem) now p = Some (True, None, p') \<and> pr_sent p' = pr_sent p @ [f] \<and>
    receive dev' (int (length f), f) q = Some (Some c, q') \<and>
    rc_command_info c = ci\<lparr>ci_need_ack := False, ci_sender := DEVICE\<rparr> \<and>
    take n (rc_raw_data c) = take n mem \<and> pr_sent q' = pr_sent q"
  using message_received [OF assms] by blast

theorem sent_message_is_received_witness:
  "\<exists>p' f c q'. send_message (\<lambda>_. 0)
      \<lparr>ci_cmd_set = 3, ci_cmd_id = 4, ci_need_ack = True, ci_sender = 7, ci_receiver = 0, ci_length = 2\<rparr>
      (Some [0x11, 0x22]) 0 idle_proto = Some (True, None, p') \<and> pr_sent p' = pr_sent idle_proto @ [f] \<and>
    receive (\<lambda>_. 0) (int (length f), f) idle_proto = Some (Some c, q') \<and>
    rc_command_info c =
      \<lparr>ci_cmd_set = 3, ci_cmd_id = 4, ci_need_ack = False, ci_sender = 0, ci_receiver = 0, ci_length = 2\<rparr> \<and>
    take 2 (rc_raw_data c) = [0x11, 0x22]"
proof -
  let ?ci = "\<lparr>ci_cmd_set = 3, ci_cmd_id = 4, ci_need_ack = True, ci_sender = 7, ci_receiver = 0, ci_length = 2\<rparr>"
  have free: "\<not> cs_usage_flag (cmd_session_at idle_proto 0)" by (rule idle_proto_unused) (simp add: protocol_consts)
  have fits: "command_fits idle_proto 2" by (rule idle_proto_fits) simp_all
  have w: "window_of (pr_stream idle_proto) = []" by (simp add: idle_proto_stream window_of_def)
  have pos: "pr_read_len idle_proto = 0" "pr_read_pos idle_proto = 0" by (simp_all add: idle_proto_stream)
  show ?thesis
    using sent_message_is_received [OF idle_proto_sessions(1) fits _ _ free _ _ idle_proto_pipeline,
        of ?ci "[0x11, 0x22]" "\<lambda>_. 0" 0 "\<lambda>_. 0"]
    by (auto simp: w pos DEVICE_def)
qed
end
