(* ===== verification/ProtocolPool.thy ===== *)
theory ProtocolPool
  imports ProtocolDelivery
begin

text \<open>
  The two ends of the message buffers of \<open>protocol/protocol.cpp\<close>: \<open>ReceivePool\<close>, whose loop stores
  every received message in the ring of its command, and \<open>Take\<close>, with which the dispatch layer
  fetches them. Each turn of the loop and each call of \<open>Take\<close> is one step, as the mutex makes it.
\<close>

subsection \<open>Storing messages\<close>

definition command_key :: "command_info \<Rightarrow> u8 \<times> u8" where
  "command_key ci = (ci_cmd_set ci, ci_cmd_id ci)"

text \<open>\<open>fresh i\<close> is what the new array of a ring holds at index \<open>i\<close>.\<close>

definition store_message :: "(nat \<Rightarrow> recv_container) \<Rightarrow> recv_container \<Rightarrow> proto \<Rightarrow> proto option" where
  "store_message fresh c p =
     (let key = command_key (rc_command_info c);
          r = (case pr_buffer_map p key of None \<Rightarrow> ring_new (map fresh [0..<100]) | Some r \<Rightarrow> r) in do {
        r' \<leftarrow> ring_push c r;
        Some (p\<lparr>pr_buffer_map := (pr_buffer_map p)(key \<mapsto> r')\<rparr>) })"

definition receive_pool_step :: "(bytes \<Rightarrow> int) \<Rightarrow> (nat \<Rightarrow> recv_container) \<Rightarrow> int \<times> bytes \<Rightarrow> proto \<Rightarrow> proto option" where
  "receive_pool_step dev fresh reading p = do {
     (r, p1) \<leftarrow> receive dev reading p;
     case r of None \<Rightarrow> Some p1 | Some c \<Rightarrow> store_message fresh c p1 }"

subsection \<open>Fetching messages\<close>

text \<open>No mismatch between the request and the message found for it. For an acknowledgement sender and
  receiver change places.\<close>

definition message_matches :: "command_info \<Rightarrow> recv_container \<Rightarrow> bool" where
  "message_matches ci c =
     (let i = rc_command_info c in
      ci_need_ack i = ci_need_ack ci \<and>
      (if mh_is_ack (rc_message_header c)
       then ci_receiver i = ci_sender ci \<and> ci_sender i = ci_receiver ci
       else ci_receiver i = ci_receiver ci \<and> ci_sender i = ci_sender ci) \<and>
      ci_length i = ci_length ci)"

text \<open>The header is copied with the size of a pointer, \<open>psize\<close>, to an object with \<open>room\<close> bytes. The
  result is what \<open>Take\<close> stores, \<open>None\<close> where it returns \<open>false\<close>.\<close>

definition take_message :: "nat \<Rightarrow> nat \<Rightarrow> command_info \<Rightarrow> proto \<Rightarrow> ((message_header \<times> bytes) option \<times> proto) option" where
  "take_message psize room ci p =
     (case pr_buffer_map p (command_key ci) of
        None \<Rightarrow> Some (None, p)
      | Some r \<Rightarrow> do {
          (x, r1) \<leftarrow> ring_pop r;
          case x of
            None \<Rightarrow> Some (None, p\<lparr>pr_buffer_map := (pr_buffer_map p)(command_key ci \<mapsto> r1)\<rparr>)
          | Some c \<Rightarrow>
              if \<not> message_matches ci c then do {
                r2 \<leftarrow> ring_push c r1;
                Some (None, p\<lparr>pr_buffer_map := (pr_buffer_map p)(command_key ci \<mapsto> r2)\<rparr>) }
              else if psize > room then None
              else do {
                data \<leftarrow> mem_read (rc_raw_data c) 0 (unat (ci_length ci));
                Some (Some (rc_message_header c, data),
                  p\<lparr>pr_buffer_map := (pr_buffer_map p)(command_key ci \<mapsto> r1)\<rparr>) } })"

subsection \<open>The buffers as queues per command\<close>

definition buffers_inv :: "proto \<Rightarrow> bool" where
  "buffers_inv p \<longleftrightarrow> (\<forall>key r. pr_buffer_map p key = Some r \<longrightarrow> ring_inv r \<and> ring_capacity r = 100 \<and>
     (\<forall>c \<in> set (ring_list r). command_key (rc_command_info c) = key \<and>
        length (rc_raw_data c) = MESSAGE_DATA_SIZE))"

definition messages :: "proto \<Rightarrow> u8 \<times> u8 \<Rightarrow> recv_container list" where
  "messages p key = (case pr_buffer_map p key of None \<Rightarrow> [] | Some r \<Rightarrow> ring_list r)"

lemma buffers_invD:
  assumes "buffers_inv p" "pr_buffer_map p key = Some r"
  shows "ring_inv r" "ring_capacity r = 100" "messages p key = ring_list r"
    "\<And>c. c \<in> set (ring_list r) \<Longrightarrow> command_key (rc_command_info c) = key \<and> length (rc_raw_data c) = MESSAGE_DATA_SIZE"
proof -
  have "ring_inv r \<and> ring_capacity r = 100 \<and> (\<forall>c \<in> set (ring_list r). command_key (rc_command_info c) = key \<and>
      length (rc_raw_data c) = MESSAGE_DATA_SIZE)"
    using assms unfolding buffers_inv_def by blast
  then show "ring_inv r" "ring_capacity r = 100"
    "\<And>c. c \<in> set (ring_list r) \<Longrightarrow> command_key (rc_command_info c) = key \<and> length (rc_raw_data c) = MESSAGE_DATA_SIZE"
    by blast+
  show "messages p key = ring_list r" using assms(2) by (simp add: messages_def)
qed

lemma buffers_inv_update:
  assumes "buffers_inv p" "ring_inv r" "ring_capacity r = 100"
    and "\<And>c. c \<in> set (ring_list r) \<Longrightarrow> command_key (rc_command_info c) = key \<and> length (rc_raw_data c) = MESSAGE_DATA_SIZE"
  shows "buffers_inv (p\<lparr>pr_buffer_map := (pr_buffer_map p)(key \<mapsto> r)\<rparr>)"
    "messages (p\<lparr>pr_buffer_map := (pr_buffer_map p)(key \<mapsto> r)\<rparr>) = (messages p)(key := ring_list r)"
  using assms by (auto simp: buffers_inv_def messages_def fun_eq_iff)

text \<open>Appending to a queue of a hundred: the oldest message is dropped when it is full.\<close>

definition append_bounded :: "'a list \<Rightarrow> 'a \<Rightarrow> 'a list" where
  "append_bounded xs x = (if length xs = 100 then tl xs else xs) @ [x]"

lemma ring_new_capacity: "ring_capacity (ring_new raw) = length raw"
  by (simp add: ring_capacity_def ring_new_def)

lemma store_message_ok:
  assumes inv: "buffers_inv p" and raw: "length (rc_raw_data c) = MESSAGE_DATA_SIZE"
  defines "key \<equiv> command_key (rc_command_info c)"
  shows "\<exists>p'. store_message fresh c p = Some p' \<and> buffers_inv p' \<and>
    messages p' = (messages p)(key := append_bounded (messages p key) c) \<and>
    p' = p\<lparr>pr_buffer_map := pr_buffer_map p'\<rparr>"
proof -
  define r where "r = (case pr_buffer_map p key of None \<Rightarrow> ring_new (map fresh [0..<100]) | Some r \<Rightarrow> r)"
  have r: "ring_inv r" "ring_capacity r = 100" "ring_list r = messages p key"
    "\<And>d. d \<in> set (ring_list r) \<Longrightarrow> command_key (rc_command_info d) = key \<and> length (rc_raw_data d) = MESSAGE_DATA_SIZE"
    using buffers_invD [OF inv, of key] ring_new_inv [of "map fresh [0..<100]"]
      ring_new_list [of "map fresh [0..<100]"] ring_new_capacity [of "map fresh [0..<100]"]
    by (cases "pr_buffer_map p key"; simp add: r_def messages_def)+
  obtain r' where r': "ring_push c r = Some r'" "ring_inv r'" "ring_capacity r' = 100"
    "ring_list r' = append_bounded (messages p key) c"
    using ring.push_spec [OF r(1), of c] r(2,3) by (auto simp: append_bounded_def)
  have "set (ring_list r') \<subseteq> insert c (set (ring_list r))"
    by (cases "ring_list r") (auto simp: r'(4) r(3) [symmetric] append_bounded_def)
  then have ok: "command_key (rc_command_info d) = key \<and> length (rc_raw_data d) = MESSAGE_DATA_SIZE"
    if "d \<in> set (ring_list r')" for d using that r(4) raw by (auto simp: key_def)
  have "store_message fresh c p = Some (p\<lparr>pr_buffer_map := (pr_buffer_map p)(key \<mapsto> r')\<rparr>)"
    using r'(1) by (simp add: store_message_def r_def key_def Let_def)
  then show ?thesis using buffers_inv_update [OF inv r'(2,3) ok] r'(4) by simp
qed

text \<open>What \<open>Take\<close> does to the queue of its command: nothing, a rotation that keeps a message nobody
  asked for, or the removal of the message it returns.\<close>

lemma take_message_cases:
  assumes inv: "buffers_inv p"
  obtains (empty) "messages p (command_key ci) = []" "\<exists>p'. take_message psize room ci p = Some (None, p') \<and>
      buffers_inv p' \<and> messages p' = messages p"
  | (rotate) c cs where "messages p (command_key ci) = c # cs" "\<not> message_matches ci c"
      "\<exists>p'. take_message psize room ci p = Some (None, p') \<and> buffers_inv p' \<and>
        messages p' = (messages p)(command_key ci := cs @ [c])"
  | (overflow) c cs where "messages p (command_key ci) = c # cs" "message_matches ci c" "room < psize"
      "take_message psize room ci p = None"
  | (found) c cs where "messages p (command_key ci) = c # cs" "message_matches ci c" "psize \<le> room" "unat (ci_length ci) \<le> MESSAGE_DATA_SIZE"
      "\<exists>p'. take_message psize room ci p = Some (Some (rc_message_header c, take (unat (ci_length ci)) (rc_raw_data c)), p') \<and>
        buffers_inv p' \<and> messages p' = (messages p)(command_key ci := cs)"
  | (too_long) c cs where "messages p (command_key ci) = c # cs" "message_matches ci c" "psize \<le> room" "MESSAGE_DATA_SIZE < unat (ci_length ci)"
      "take_message psize room ci p = None"
proof (cases "pr_buffer_map p (command_key ci)")
  case None
  then show ?thesis using empty inv by (simp add: messages_def take_message_def)
next
  case (Some r)
  let ?key = "command_key ci"
  note R = buffers_invD [OF inv Some]
  show ?thesis
  proof (cases "ring_list r")
    case Nil
    then have "ring_pop r = Some (None, r)" using ring.pop_empty [OF R(1)] by simp
    then show ?thesis using empty Nil R Some inv by (auto simp: take_message_def fun_upd_idem)
  next
    case (Cons c cs)
    obtain r1 where r1: "ring_pop r = Some (Some c, r1)" "ring_inv r1" "ring_capacity r1 = 100" "ring_list r1 = cs"
      using ring.pop_item [OF R(1) Cons] R(2) by auto
    note old = buffers_inv_update [OF inv r1(2,3)]
    have c: "length (rc_raw_data c) = MESSAGE_DATA_SIZE" using R(4) Cons by simp
    have inv1: "buffers_inv (p\<lparr>pr_buffer_map := (pr_buffer_map p)(?key \<mapsto> r1)\<rparr>)"
      "messages (p\<lparr>pr_buffer_map := (pr_buffer_map p)(?key \<mapsto> r1)\<rparr>) = (messages p)(?key := cs)"
      using old [of ?key] R(4) Cons r1(4) by simp_all
    consider "\<not> message_matches ci c" | "message_matches ci c" "room < psize" | "message_matches ci c" "psize \<le> room" "unat (ci_length ci) \<le> MESSAGE_DATA_SIZE"
      | "message_matches ci c" "psize \<le> room" "MESSAGE_DATA_SIZE < unat (ci_length ci)" by linarith
    then show ?thesis
    proof cases
      case 1
      obtain r2 where r2: "ring_push c r1 = Some r2" "ring_inv r2" "ring_capacity r2 = 100" "ring_list r2 = cs @ [c]"
        using ring.pop_push_rotates [OF R(1) Cons] r1(1) R(2) by auto
      have ok: "command_key (rc_command_info d) = ?key \<and> length (rc_raw_data d) = MESSAGE_DATA_SIZE"
        if "d \<in> set (ring_list r2)" for d using that R(4) Cons r2(4) by auto
      show ?thesis using rotate [of c cs] Cons R(3) 1 r1(1) r2(1) Some buffers_inv_update [OF inv r2(2,3) ok] r2(4)
        by (simp add: take_message_def)
    next
      case 2
      then show ?thesis using overflow [of c cs] Cons R(3) r1(1) Some by (simp add: take_message_def)
    next
      case 3
      then show ?thesis using found [of c cs] Cons R(3) r1(1) Some inv1 c
        by (simp add: take_message_def mem_read_def slice_from_0)
    next
      case 4
      then show ?thesis using too_long [of c cs] Cons R(3) r1(1) Some c
        by (simp add: take_message_def mem_read_def)
    qed
  qed
qed

subsection \<open>Properties\<close>

text \<open>C16. \<open>Take\<close> serves a request from the queue of its command, oldest message first: an empty queue
  gives nothing; a message that does not match in need of acknowledgement, addresses or length goes
  to the back of the queue, so none is lost; a matching one is removed and returned with as many data
  bytes as the request says. On a 64-bit machine the header, four bytes of it, is copied with the size
  of a pointer, so a caller who provides less than eight bytes gets its memory overwritten.\<close>

theorem take_serves_request:
  assumes "buffers_inv p" "unat (ci_length ci) \<le> MESSAGE_DATA_SIZE"
  shows "case messages p (command_key ci) of
      [] \<Rightarrow> \<exists>q. take_message 8 room ci p = Some (None, q) \<and> buffers_inv q \<and> messages q = messages p
    | c # cs \<Rightarrow>
        if \<not> message_matches ci c then
          \<exists>q. take_message 8 room ci p = Some (None, q) \<and> buffers_inv q \<and>
            messages q = (messages p)(command_key ci := cs @ [c])
        else if room < 8 then take_message 8 room ci p = None
        else \<exists>q. take_message 8 room ci p =
              Some (Some (rc_message_header c, take (unat (ci_length ci)) (rc_raw_data c)), q) \<and>
            buffers_inv q \<and> messages q = (messages p)(command_key ci := cs)"
  by (cases rule: take_message_cases [OF assms(1), where ci = ci and room = room and psize = 8, case_names empty rotate overflow found too_long])
    (use assms(2) in auto)

theorem take_serves_request_witness:
  "\<exists>p ci. messages p (command_key ci) = [some_container] \<and> ci_length ci = 0 \<and> take_message 8 4 ci p = None \<and>
     (\<exists>q. take_message 8 8 ci p = Some (Some (rc_message_header some_container, []), q) \<and> messages q (command_key ci) = [])"
proof -
  let ?ci = "rc_command_info some_container"
  have raw: "length (rc_raw_data some_container) = MESSAGE_DATA_SIZE" by (simp add: some_container_def)
  have inv: "buffers_inv idle_proto" and none: "messages idle_proto key = []" for key
    by (simp_all add: buffers_inv_def messages_def idle_proto_def protocol_init_def setup_session_def)
  obtain p where p: "buffers_inv p" "messages p (command_key ?ci) = [some_container]"
    using store_message_ok [OF inv raw, of "\<lambda>_. some_container"] none by (auto simp: append_bounded_def)
  have m: "message_matches ?ci some_container" "ci_length ?ci = 0" by (simp_all add: message_matches_def some_container_def)
  show ?thesis
    using take_serves_request [OF p(1), of ?ci 4] take_serves_request [OF p(1), of ?ci 8] p(2) m
    by (intro exI [of _ p] exI [of _ ?ci]) auto
qed
end
