(* ===== verification/ProtocolSystem.thy ===== *)
theory ProtocolSystem
  imports ProtocolPool
begin

text \<open>
  The protocol layer as a running system: its operations as steps of one state, the invariants they
  all keep, and what follows for every reachable state. The steps are those the mutexes make atomic:
  a call of the dispatch layer, a turn of the receive loop, a turn of the retransmission loop.
\<close>

subsection \<open>What the send pipeline leaves alone\<close>

definition cmd_side :: "proto \<Rightarrow> _" where
  "cmd_side p = (recv_config p, pr_stream p, pr_container p, pr_ack_table p)"

lemma cmd_side_simps [simp]:
  "cmd_side (p\<lparr>pr_pool := q\<rparr>) = cmd_side p" "cmd_side (p\<lparr>pr_sent := out\<rparr>) = cmd_side p"
  "cmd_side (p\<lparr>pr_seq_num := n\<rparr>) = cmd_side p" "cmd_side (set_cmd_session i s p) = cmd_side p"
  by (simp_all add: cmd_side_def recv_config_def)

lemma cmd_side_steps:
  "alloc_cmd_session m sz p = Some (r, q) \<Longrightarrow> cmd_side q = cmd_side p"
  "free_cmd_session i p = Some q \<Longrightarrow> cmd_side q = cmd_side p"
  "device_send dev ptr p = Some (ok, q) \<Longrightarrow> cmd_side q = cmd_side p"
  "write_block b off bs p = Some q \<Longrightarrow> cmd_side q = cmd_side p"
  "cmd_side (bump_seq_num i p) = cmd_side p" "cmd_side (arm_session i cs ci t now retry p) = cmd_side p"
  by (auto simp: alloc_cmd_session_def free_cmd_session_def device_send_def write_block_def bump_seq_num_def
      arm_session_def Let_def bind_eq_Some_conv split: option.splits if_splits)

lemma pack_command_side: "pack_command i cs ci rc mem n pl p = Some q \<Longrightarrow> cmd_side q = cmd_side p"
  by (auto simp: pack_command_def write_tail_crc_def Let_def bind_eq_Some_conv dest!: cmd_side_steps(4) split: if_splits)

lemma send_session_side: "send_session dev i p = Some (ok, q) \<Longrightarrow> cmd_side q = cmd_side p"
  by (auto simp: send_session_def bind_eq_Some_conv dest: cmd_side_steps(3))

lemma send_session_0_side:
  assumes "send_cmd_session_0 dev cs ci rc mem n pl mh p = Some (r, mh', q)"
  shows "cmd_side q = cmd_side p"
  using assms
  by (auto simp: send_cmd_session_0_def bind_eq_Some_conv split: option.splits
      dest!: cmd_side_steps(1,2) pack_command_side send_session_side)

lemma send_acked_side:
  assumes "send_cmd_acked dev m retry cs ci rc mem n pl mh timeout now p = Some (r, mh', q)"
  shows "cmd_side q = cmd_side p"
  using assms
  by (auto simp: send_cmd_acked_def Let_def bind_eq_Some_conv cmd_side_steps(5,6) split: option.splits
      dest!: cmd_side_steps(1) pack_command_side send_session_side)

lemma send_cmd_side:
  assumes "send_cmd dev cs ci rc data n m mh timeout retry now p = Some (r, mh', q)"
  shows "cmd_side q = cmd_side p"
  using assms
  by (auto simp: send_cmd_def Let_def send_cmd_session_1_def send_cmd_session_auto_def
      split: option.splits if_splits cmd_session_mode.splits dest: send_session_0_side send_acked_side)

subsection \<open>The send pipeline keeps the invariants\<close>

lemma recv_inv_transfer:
  assumes inv: "recv_inv p" and q: "sessions_inv q" "cmd_side q = cmd_side p"
    and cmds: "\<And>i b. owned q (OCmd i) = Some b \<Longrightarrow> packet_in q b"
    and acks: "\<And>r k b. owned p (OAck r k) = Some b \<Longrightarrow> block_bytes (pr_pool q) b = block_bytes (pr_pool p) b"
  shows "recv_inv q"
proof -
  have same: "pr_ack_table q = pr_ack_table p" "pr_container q = pr_container p" using q(2) by (simp_all add: cmd_side_def)
  have "sends_inv q" using q(1) cmds by (simp add: sends_inv_def)
  moreover have "\<exists>b. as_memory_block s = Some b \<and> packet_in q b"
    if s: "ack_session_at q r k = Some s" "as_session_status s = ACK_SESSION_USING" for r k s
  proof -
    have "ack_session_at p r k = Some s" using s(1) ack_session_at_cong [OF same(1)] by simp
    then obtain b where "as_memory_block s = Some b" "packet_in p b" "owned p (OAck r k) = Some b"
      by (rule recv_inv_ack_packet [OF inv _ s(2)]) (rule that)
    then show ?thesis using acks by (simp add: packet_in_def)
  qed
  ultimately show ?thesis using inv same by (simp add: recv_inv_def)
qed

lemma recv_inv_others:
  assumes inv: "recv_inv p" and q: "sessions_inv q" "cmd_side q = cmd_side p" "others_kept (OCmd i) p q"
    and own: "\<And>ow. ow \<noteq> OCmd i \<Longrightarrow> owned q ow = owned p ow" and mine: "\<And>b. owned q (OCmd i) = Some b \<Longrightarrow> packet_in q b"
  shows "recv_inv q"
proof (rule recv_inv_transfer [OF inv q(1,2)])
  have "sends_inv p" using inv by (simp add: recv_inv_def)
  then have "sends_inv q" by (rule sends_inv_others [OF _ q(1,3) own mine])
  then show "packet_in q b" if "owned q (OCmd j) = Some b" for j b using that by (simp add: sends_inv_def)
  show "block_bytes (pr_pool q) b = block_bytes (pr_pool p) b" if "owned p (OAck r k) = Some b" for r k b
    using that q(3) unfolding others_kept_def by blast
qed

lemma recv_inv_pool:
  assumes inv: "recv_inv p" and q: "sessions_inv (p\<lparr>pr_pool := q\<rparr>)" "pool_keeps (pr_pool p) q"
  shows "recv_inv (p\<lparr>pr_pool := q\<rparr>)"
proof -
  have sinv: "sends_inv p" "sessions_inv p" using inv by (simp_all add: recv_inv_def sends_inv_def)
  have same: "block_bytes q b = block_bytes (pr_pool p) b" if "owned p ow = Some b" for ow b
    using sessions_invD(4) [OF sinv(2) that] q(2) by (simp add: pool_keeps_def)
  show ?thesis
    by (rule recv_inv_transfer [OF inv q(1)]) (use sinv(1) same in \<open>auto simp: sends_inv_def packet_in_def\<close>)
qed

lemma send_cmd_total:
  assumes inv: "recv_inv p" and mem: "unat n \<le> length mem" "18 + unat n < 2 ^ 16"
  shows "\<exists>r mh' q. send_cmd dev cs ci rc (Some mem) n m mh timeout retry now p = Some (r, mh', q) \<and> recv_inv q"
proof (cases "n = 0")
  case True
  then have "send_cmd dev cs ci rc (Some mem) n m mh timeout retry now p = Some (False, mh, p)" by (simp add: send_cmd_def)
  then show ?thesis using inv by blast
next
  case False
  have sinv: "sessions_inv p" using inv by (simp add: recv_inv_def sends_inv_def)
  let ?n = "unat n" and ?pl = "of_nat (18 + unat n) :: u16"
  have pl: "unat ?pl = 18 + ?n" by (rule unat_of_nat_small) (use mem in simp)
  then have pos: "0 < ?pl" by (simp add: word_less_nat_alt del: of_nat_add)
  have n: "0 < ?n" using False by (simp add: unat_gt_0)
  have ple: "of_nat (HEADER_LEN + CMD_SET_PREFIX_LEN) + n + of_nat CRC_DATA_LEN = ?pl" by (rule pack_length_eq [OF mem(2)])
  have cases: "send_cmd dev cs ci rc (Some mem) n m mh timeout retry now p =
      (case m of CMD_SESSION_0 \<Rightarrow> send_cmd_session_0 dev cs ci rc mem n ?pl mh p
       | CMD_SESSION_1 \<Rightarrow> send_cmd_acked dev CMD_SESSION_1 1 cs ci rc mem n ?pl mh timeout now p
       | CMD_SESSION_AUTO \<Rightarrow> send_cmd_acked dev CMD_SESSION_AUTO (of_int retry) cs ci rc mem n ?pl mh timeout now p)"
    using False ple by (cases m) (simp_all add: send_cmd_def Let_def send_cmd_session_1_def send_cmd_session_auto_def del: of_nat_add)
  have ok: "recv_inv q \<Longrightarrow> ?thesis"
    if "send_cmd dev cs ci rc (Some mem) n m mh timeout retry now p = Some (r, mh', q)" for r mh' q using that by blast
  show ?thesis
  proof (cases rule: alloc_cmd_session_cases [OF sinv pos, of m, case_names busy session])
    case (busy q)
    have "send_cmd dev cs ci rc (Some mem) n m mh timeout retry now p = Some (False, mh, p\<lparr>pr_pool := q\<rparr>)"
      unfolding cases using busy(1) by (cases m) (simp_all add: send_cmd_session_0_def send_cmd_acked_def)
    then show ?thesis using recv_inv_pool [OF inv busy(2,3)] ok by blast
  next
    case (session i b q)
    have fits: "command_fits p ?n" using session(2) n pl by (simp add: command_fits_def)
    have acked: ?thesis if "m \<noteq> CMD_SESSION_0"
    proof -
      let ?retry = "if m = CMD_SESSION_1 then 1 else of_int retry :: u16"
      obtain p' b where p': "send_cmd_acked dev m ?retry cs ci rc mem n ?pl mh timeout now p =
          Some (True, map_option (\<lambda>h. h\<lparr>mh_is_ack := False, mh_seq_num := next_seq p i, mh_session_id := of_nat i\<rparr>) mh, p')"
        "sessions_inv p'" "others_kept (OCmd i) p p'" "\<And>ow. ow \<noteq> OCmd i \<Longrightarrow> owned p' ow = owned p ow"
        "owned p' (OCmd i) = Some b" "block_bytes (pr_pool p') b = command_frame (of_nat i) (next_seq p i) cs ci rc (take ?n mem)"
        by (rule send_acked_ok [OF sinv fits mem(1) refl session(1) refl]) (rule that)
      have "recv_inv p'"
        by (rule recv_inv_others [OF inv p'(2) send_acked_side [OF p'(1)] p'(3,4)])
          (use p'(5) packet_in_command_frame [OF p'(6)] in auto)
      moreover have "send_cmd dev cs ci rc (Some mem) n m mh timeout retry now p =
          send_cmd_acked dev m ?retry cs ci rc mem n ?pl mh timeout now p"
        unfolding cases using that by (cases m) simp_all
      ultimately show ?thesis using p'(1) ok by simp
    qed
    show ?thesis
    proof (cases m)
      case CMD_SESSION_0
      then have "i = 0" using session(1) by (simp add: pick_cmd_session_def Let_def split: if_splits)
      then have free: "\<not> cs_usage_flag (cmd_session_at p 0)" using session(6) by simp
      obtain p' where p': "send_cmd dev cs ci rc (Some mem) n CMD_SESSION_0 mh timeout retry now p =
          Some (True, map_option (\<lambda>h. h\<lparr>mh_is_ack := False, mh_seq_num := pr_seq_num p, mh_session_id := 0\<rparr>) mh, p')"
        "sessions_inv p'" "others_kept (OCmd 0) p p'" "\<And>ow. owned p' ow = owned p ow"
        by (rule send_session_0_ok [OF sinv fits mem(1) refl free]) (rule that)
      have "recv_inv p'"
        by (rule recv_inv_others [OF inv p'(2) send_cmd_side [OF p'(1)] p'(3,4)])
          (use p'(4) nothing_owned_by_free_session [OF free] in auto)
      then show ?thesis using p'(1) CMD_SESSION_0 by blast
    qed (use acked in auto)
  qed
qed

subsection \<open>Acknowledgements keep the invariants\<close>

definition ack_side :: "proto \<Rightarrow> _" where
  "ack_side p = (recv_config p, pr_stream p, pr_container p, pr_cmd_table p)"

lemma ack_side_simps [simp]:
  "ack_side (p\<lparr>pr_pool := q\<rparr>) = ack_side p" "ack_side (p\<lparr>pr_sent := out\<rparr>) = ack_side p"
  "ack_side (p\<lparr>pr_ack_table := t\<rparr>) = ack_side p"
  by (simp_all add: ack_side_def)

lemma set_ack_side: "set_ack_session r k s p = Some q \<Longrightarrow> ack_side q = ack_side p"
  by (auto simp: set_ack_session_def bind_eq_Some_conv)

text \<open>Operations of the ack session of one receiver: everything else stays.\<close>

definition ack_frame_kept :: "nat \<Rightarrow> nat \<Rightarrow> proto \<Rightarrow> proto \<Rightarrow> bool" where
  "ack_frame_kept r k p q \<longleftrightarrow> ack_side q = ack_side p \<and>
     (\<forall>r' k'. (r', k') \<noteq> (r, k) \<longrightarrow> ack_session_at q r' k' = ack_session_at p r' k')"

lemma ack_frame_kept_trans: "ack_frame_kept r k p q \<Longrightarrow> ack_frame_kept r k q q' \<Longrightarrow> ack_frame_kept r k p q'"
  by (simp add: ack_frame_kept_def)

lemma ack_frame_kept_pool:
  "ack_frame_kept r k p (p\<lparr>pr_pool := q\<rparr>)" "ack_frame_kept r k p (p\<lparr>pr_sent := out\<rparr>)" "ack_frame_kept r k p p"
  by (simp_all add: ack_frame_kept_def ack_session_at_def fun_eq_iff)

lemma ack_frame_kept_set: "set_ack_session r k s p = Some q \<Longrightarrow> ack_frame_kept r k p q"
  using set_ack_side set_ack_session_frame(3) by (fastforce simp: ack_frame_kept_def)

lemma ack_frame_kept_write: "write_block b off bs p = Some q \<Longrightarrow> ack_frame_kept r k p q"
  by (auto simp: write_block_def bind_eq_Some_conv ack_frame_kept_pool)

lemma alloc_ack_kept:
  assumes "alloc_ack_session rc sid sz p = Some (res, q)"
  shows "ack_frame_kept (unat rc) (unat sid - 1) p q"
proof (cases "sid > 0 \<and> sid < 32")
  case True
  let ?r = "unat rc" and ?k = "unat sid - Suc 0"
  from assms True obtain s p1 b q0 where s: "ack_session_at p ?r ?k = Some s"
    and p1: "(if as_memory_block s \<noteq> None then free_ack_session ?r ?k p else Some p) = Some p1"
    and q: "(case b of None \<Rightarrow> Some (None, p1\<lparr>pr_pool := q0\<rparr>)
        | Some _ \<Rightarrow> set_ack_session ?r ?k (s\<lparr>as_memory_block := b\<rparr>) (p1\<lparr>pr_pool := q0\<rparr>) \<bind> (\<lambda>p3. Some (Some ?k, p3))) = Some (res, q)"
    by (auto simp: alloc_ack_session_def Let_def bind_eq_Some_conv split: prod.splits)
  have k1: "ack_frame_kept ?r ?k p p1"
    using p1 by (auto simp: free_ack_session_def bind_eq_Some_conv ack_frame_kept_pool split: if_splits)
  have "ack_frame_kept ?r ?k p1 q"
    using q ack_frame_kept_trans [OF ack_frame_kept_pool(1) ack_frame_kept_set]
    by (cases b) (auto simp: bind_eq_Some_conv ack_frame_kept_pool)
  with k1 have "ack_frame_kept ?r ?k p q" by (rule ack_frame_kept_trans)
  then show ?thesis by simp
next
  case False
  then have "q = p" using assms by (auto simp: alloc_ack_session_def split: if_splits)
  then show ?thesis by (simp add: ack_frame_kept_pool)
qed

lemma send_ack_kept:
  assumes "send_ack dev sid sq rc data n p = Some (ok, q)"
  shows "ack_frame_kept (unat rc) (unat sid - 1) p q"
proof (cases "sid = 0 \<or> sid > 31")
  case True
  then have "q = p" using assms by (auto simp: send_ack_def Let_def)
  then show ?thesis by (simp add: ack_frame_kept_pool)
next
  case False
  let ?K = "ack_frame_kept (unat rc) (unat sid - 1)"
  have sid: "unat (ucast sid :: u16) - 1 = unat sid - 1"
    using unsigned_less [of sid, where 'a = nat] by (simp add: unat_ucast_mod)
  from assms False obtain pl r p1 where a: "alloc_ack_session rc (ucast sid) pl p = Some (r, p1)"
    and rest: "(case r of None \<Rightarrow> Some (False, p1)
       | Some k \<Rightarrow> do {
            s \<leftarrow> ack_session_at p1 (unat rc) k;
            p2 \<leftarrow> write_block (as_memory_block s) 0 (header_bytes (packed_header pl (as_session_id s) 1 rc sq)) p1;
            p4 \<leftarrow> (case (if n = 0 then None else data) of
                None \<Rightarrow> Some p2
              | Some mem \<Rightarrow> do {
                  d \<leftarrow> mem_read mem 0 (unat n);
                  p3 \<leftarrow> write_block (as_memory_block s) HEADER_LEN d p2;
                  write_tail_crc (as_memory_block s) pl p3 });
            ptr \<leftarrow> block_address p4 (as_memory_block s);
            (_, p5) \<leftarrow> device_send dev ptr p4;
            p6 \<leftarrow> set_ack_session (unat rc) (unat sid - 1) (s\<lparr>as_session_status := ACK_SESSION_USING\<rparr>) p5;
            Some (True, p6) }) = Some (ok, q)"
    unfolding send_ack_def Let_def by (auto simp: bind_eq_Some_conv split: prod.splits if_splits)
  have k1: "?K p p1" using alloc_ack_kept [OF a] sid by simp
  show ?thesis
  proof (cases r)
    case None
    then show ?thesis using k1 rest by simp
  next
    case (Some k)
    from rest [unfolded Some option.case] obtain s p2 p4 ptr out p5 where
      p2: "write_block (as_memory_block s) 0 (header_bytes (packed_header pl (as_session_id s) 1 rc sq)) p1 = Some p2"
      and p4: "(case (if n = 0 then None else data) of
                None \<Rightarrow> Some p2
              | Some mem \<Rightarrow> do {
                  d \<leftarrow> mem_read mem 0 (unat n);
                  p3 \<leftarrow> write_block (as_memory_block s) HEADER_LEN d p2;
                  write_tail_crc (as_memory_block s) pl p3 }) = Some p4"
      and p5: "device_send dev ptr p4 = Some (out, p5)"
      and p6: "set_ack_session (unat rc) (unat sid - 1) (s\<lparr>as_session_status := ACK_SESSION_USING\<rparr>) p5 = Some q"
      by (auto simp: bind_eq_Some_conv split: prod.splits)
    have "?K p2 p4"
      using p4 ack_frame_kept_trans [OF ack_frame_kept_write ack_frame_kept_write]
      by (auto simp: bind_eq_Some_conv write_tail_crc_def ack_frame_kept_pool split: option.splits if_splits)
    moreover have "?K p4 p5" using p5 by (auto simp: device_send_def Let_def bind_eq_Some_conv ack_frame_kept_pool)
    ultimately show ?thesis
      using k1 ack_frame_kept_write [OF p2] ack_frame_kept_set [OF p6] ack_frame_kept_trans by blast
  qed
qed

lemma send_ack_inv:
  assumes inv: "recv_inv p" and rc: "unat rc < RECEIVER_NUM"
    and small: "16 + unat n < 2 ^ 16" and mem: "\<And>m. data = Some m \<Longrightarrow> unat n \<le> length m"
    and res: "send_ack dev sid sq rc data n p = Some (True, q)"
  shows "recv_inv q"
proof -
  have sinv: "sessions_inv p" "sends_inv p" and raw: "length (rc_raw_data (pr_container p)) = MESSAGE_DATA_SIZE"
    using inv by (simp_all add: recv_inv_def sends_inv_def)
  let ?r = "unat rc" and ?k = "unat sid - 1" and ?f = "ack_frame sid sq rc (ack_payload data n)"
  obtain b where q: "sessions_inv q" "others_kept (OAck ?r ?k) p q" "owned q (OAck ?r ?k) = Some b"
    "block_bytes (pr_pool q) b = ?f"
    using send_ack_ok [OF sinv(1) rc small, where ack = data and dev = dev and sid = sid and sq = sq, OF mem] res by auto
  have len: "12 \<le> length ?f" by (simp add: ack_length_of_def split: option.splits)
  have pkt: "packet_in q b"
    unfolding packet_in_def q(4) header_of_ack_frame length_ack_frame using len by auto
  have kept: "ack_side q = ack_side p" "\<And>r' k'. (r', k') \<noteq> (?r, ?k) \<Longrightarrow> ack_session_at q r' k' = ack_session_at p r' k'"
    using send_ack_kept [OF res] by (simp_all add: ack_frame_kept_def)
  have cmd: "owned q (OCmd i) = owned p (OCmd i)" for i
    using kept(1) cmd_session_at_cong [of q p] by (simp add: owned_def ack_side_def)
  have same: "packet_in q c" if "owned p ow = Some c" "ow \<noteq> OAck ?r ?k" "packet_in p c" for ow c
    using that q(2) by (auto simp: packet_in_def others_kept_def)
  have "sends_inv q" using sinv(2) q(1) cmd same by (fastforce simp: sends_inv_def)
  moreover have "\<exists>c. as_memory_block s = Some c \<and> packet_in q c"
    if s: "ack_session_at q r' k' = Some s" "as_session_status s = ACK_SESSION_USING" for r' k' s
  proof (cases "(r', k') = (?r, ?k)")
    case True
    then show ?thesis using s(1) q(3) pkt by (auto simp: owned_def)
  next
    case False
    then have "ack_session_at p r' k' = Some s" using kept(2) s(1) by simp
    then obtain c where "as_memory_block s = Some c" "packet_in p c" "owned p (OAck r' k') = Some c"
      by (rule recv_inv_ack_packet [OF inv _ s(2)]) (rule that)
    then show ?thesis using same [of "OAck r' k'"] False by auto
  qed
  ultimately show ?thesis using raw kept(1) by (simp add: recv_inv_def ack_side_def)
qed

subsection \<open>Retransmission keeps the invariants\<close>

lemma repeat_check_session_total:
  assumes inv: "recv_inv p" and i: "i < SESSION_TABLE_NUM"
  shows "\<exists>q. repeat_check_session dev clock i p = Some q \<and> recv_inv q \<and> cmd_side q = cmd_side p"
proof -
  let ?s = "cmd_session_at p i" and ?now = "clock i"
  have sinv: "sessions_inv p" "sends_inv p" using inv by (simp_all add: recv_inv_def sends_inv_def)
  show ?thesis
  proof (cases "cs_usage_flag ?s \<and> to_milliseconds (?now - cs_pre_time_stamp ?s) > cs_ack_timeout ?s")
    case False
    then show ?thesis using inv by (auto simp: repeat_check_session_def Let_def)
  next
    case due: True
    obtain b where b: "cs_memory_block ?s = Some b" "owned p (OCmd i) = Some b"
      by (rule sessions_inv_block [OF sinv(1) i]) (use due in simp, rule that)
    obtain ok where snd: "send_session dev i p =
        Some (ok, p\<lparr>pr_sent := pr_sent p @ [transmitted (block_bytes (pr_pool p) b)]\<rparr>)"
      using send_session_packet [OF sinv(2) b(2), of dev] by blast
    let ?p1 = "p\<lparr>pr_sent := pr_sent p @ [transmitted (block_bytes (pr_pool p) b)]\<rparr>"
    have touched: "recv_inv (set_cmd_session i s ?p1) \<and> cmd_side (set_cmd_session i s ?p1) = cmd_side p"
      if s: "cs_session_id s = cs_session_id ?s" "cs_usage_flag s = cs_usage_flag ?s" "cs_memory_block s = cs_memory_block ?s" for s
    proof -
      have id: "cs_session_id s = of_nat i" using s(1) sessions_invD(6) [OF sinv(1) i] by simp
      have sinv1: "sessions_inv ?p1" using sinv(1) by simp
      note t = sessions_inv_touch [OF sinv1 i id, unfolded cmd_session_at_simps, OF s(2,3)]
      have "recv_inv (set_cmd_session i s ?p1)"
        by (rule recv_inv_transfer [OF inv t(1)]) (use sinv(2) t(2) in \<open>auto simp: sends_inv_def packet_in_def\<close>)
      then show ?thesis by simp
    qed
    show ?thesis
    proof (cases "cs_retry_time ?s > 0 \<and> cs_sent ?s \<ge> cs_retry_time ?s")
      case True
      obtain q where q: "free_cmd_session i p = Some q" "sessions_inv q" "others_kept (OCmd i) p q"
        "owned q (OCmd i) = None" "\<And>ow. ow \<noteq> OCmd i \<Longrightarrow> owned q ow = owned p ow"
        by (rule free_session_others [OF sinv(1) i]) (rule that)
      have "recv_inv q"
        by (rule recv_inv_others [OF inv q(2) cmd_side_steps(2) [OF q(1)] q(3,5)]) (use q(4) in auto)
      then show ?thesis using due True q(1) cmd_side_steps(2) [OF q(1)] by (simp add: repeat_check_session_def Let_def)
    next
      case False
      then show ?thesis
        using due snd touched [of "?s\<lparr>cs_pre_time_stamp := ?now, cs_sent := cs_sent ?s + 1\<rparr>"]
          touched [of "?s\<lparr>cs_pre_time_stamp := ?now\<rparr>"]
        by (auto simp: repeat_check_session_def Let_def)
    qed
  qed
qed

lemma auto_repeat_total:
  assumes "recv_inv p"
  shows "\<exists>q. auto_repeat_send_check dev clock p = Some q \<and> recv_inv q \<and> cmd_side q = cmd_side p"
proof -
  have "\<exists>q. repeat_check_from dev clock is p = Some q \<and> recv_inv q \<and> cmd_side q = cmd_side p"
    if "set is \<subseteq> {..<SESSION_TABLE_NUM}" for "is"
    using assms that
  proof (induction "is" arbitrary: p)
    case (Cons i "is")
    obtain q where q: "repeat_check_session dev clock i p = Some q" "recv_inv q" "cmd_side q = cmd_side p"
      using repeat_check_session_total [OF Cons.prems(1), of i dev clock] Cons.prems(2) by auto
    then show ?case using Cons.IH [OF q(2)] Cons.prems(2) by auto
  qed simp
  then show ?thesis by (simp add: auto_repeat_send_check_def subset_eq)
qed

subsection \<open>The system\<close>

definition system_inv :: "proto \<Rightarrow> bool" where
  "system_inv p \<longleftrightarrow> pipeline_inv p \<and> buffers_inv p"

text \<open>What a caller must provide: data as long as it says, and not so long that the packet length
  wraps around.\<close>

definition call_ok :: "command_info \<Rightarrow> bytes \<Rightarrow> bool" where
  "call_ok ci mem \<longleftrightarrow> unat (ci_length ci) \<le> length mem \<and> 18 + unat (ci_length ci) < 2 ^ 16"

text \<open>What the device must provide: less than a full buffer, without an undersized packet.\<close>

definition reading_ok :: "int \<times> bytes \<Rightarrow> proto \<Rightarrow> bool" where
  "reading_ok reading p \<longleftrightarrow> fst reading = int (length (snd reading)) \<and> length (snd reading) < BUFFER_SIZE \<and>
     (\<forall>fr. sublist fr (window_of (pr_stream p) @ unread reading p) \<longrightarrow> valid_frame fr \<longrightarrow> frame_ok fr)"

inductive protocol_step :: "proto \<Rightarrow> proto \<Rightarrow> bool" where
  message: "send_message dev ci (Some mem) now p = Some (r, mh, q) \<Longrightarrow> call_ok ci mem \<Longrightarrow> protocol_step p q"
| request: "send_request dev ci mh (Some mem) now p = Some (r, mh', q) \<Longrightarrow> call_ok ci mem \<Longrightarrow> protocol_step p q"
| response: "send_response dev ci mh (Some mem) p = Some (True, q) \<Longrightarrow> call_ok ci mem \<Longrightarrow>
    unat (ci_receiver ci) < RECEIVER_NUM \<Longrightarrow> protocol_step p q"
| poll: "auto_repeat_send_check dev clock p = Some q \<Longrightarrow> protocol_step p q"
| receive: "receive_pool_step dev fresh reading p = Some q \<Longrightarrow> reading_ok reading p \<Longrightarrow> protocol_step p q"
| fetch: "take_message psize room ci p = Some (r, q) \<Longrightarrow> psize \<le> room \<Longrightarrow> protocol_step p q"

lemma pipeline_inv_sides:
  assumes "pipeline_inv p" "recv_inv q" "cmd_side q = cmd_side p \<or> ack_side q = ack_side p"
  shows "pipeline_inv q" "pr_buffer_map q = pr_buffer_map p"
  using assms by (auto simp: pipeline_inv_def cmd_side_def ack_side_def recv_config_def)

lemma system_inv_sides:
  assumes "system_inv p" "recv_inv q" "cmd_side q = cmd_side p \<or> ack_side q = ack_side p"
  shows "system_inv q"
  using assms pipeline_inv_sides [of p q] by (simp add: system_inv_def buffers_inv_def)

lemma system_invD: "system_inv p \<Longrightarrow> recv_inv p" "system_inv p \<Longrightarrow> pipeline_inv p" "system_inv p \<Longrightarrow> buffers_inv p"
  by (simp_all add: system_inv_def pipeline_inv_def)

lemma system_send:
  assumes "system_inv p" "call_ok ci mem"
  shows "\<exists>r mh q. send_message dev ci (Some mem) now p = Some (r, mh, q) \<and> system_inv q"
    "\<exists>r mh' q. send_request dev ci mh (Some mem) now p = Some (r, mh', q) \<and> system_inv q"
proof -
  have len: "unat (ci_length ci) \<le> length mem" "18 + unat (ci_length ci) < 2 ^ 16" using assms(2) by (simp_all add: call_ok_def)
  have "\<exists>r mh' q. send_cmd dev cs cid rc (Some mem) (ci_length ci) m mh timeout retry now p = Some (r, mh', q) \<and> system_inv q"
    for cs cid rc m mh timeout retry
    using send_cmd_total [OF system_invD(1) [OF assms(1)] len] send_cmd_side system_inv_sides [OF assms(1)] by meson
  then show "\<exists>r mh q. send_message dev ci (Some mem) now p = Some (r, mh, q) \<and> system_inv q"
    "\<exists>r mh' q. send_request dev ci mh (Some mem) now p = Some (r, mh', q) \<and> system_inv q"
    by (simp_all add: send_message_def send_request_def)
qed

lemma system_response:
  assumes "system_inv p" "call_ok ci mem" "unat (ci_receiver ci) < RECEIVER_NUM"
    "send_response dev ci mh (Some mem) p = Some (True, q)"
  shows "system_inv q"
proof -
  have res: "send_ack dev (mh_session_id mh) (mh_seq_num mh) (ci_receiver ci) (Some mem) (ci_length ci) p = Some (True, q)"
    using assms(4) by (simp add: send_response_def)
  have len: "unat (ci_length ci) \<le> length mem" "16 + unat (ci_length ci) < 2 ^ 16" using assms(2) by (simp_all add: call_ok_def)
  have mem: "unat (ci_length ci) \<le> length m" if "Some mem = Some m" for m using that len by simp
  have "recv_inv q" by (rule send_ack_inv [OF system_invD(1) [OF assms(1)] assms(3) len(2) mem res])
  moreover have "ack_side q = ack_side p" using send_ack_kept [OF res] by (simp add: ack_frame_kept_def)
  ultimately show ?thesis using system_inv_sides [OF assms(1)] by blast
qed

lemma system_receive:
  assumes inv: "system_inv p" and ok: "reading_ok reading p"
  shows "\<exists>q. receive_pool_step dev fresh reading p = Some q \<and> system_inv q"
proof -
  obtain n bs where r: "reading = (n, bs)" by (cases reading)
  have rd: "n = int (length bs)" "length bs < BUFFER_SIZE"
    "\<And>fr. sublist fr (window_of (pr_stream p) @ unread (n, bs) p) \<Longrightarrow> valid_frame fr \<Longrightarrow> frame_ok fr"
    using ok by (simp_all add: reading_ok_def r)
  obtain c q where q: "receive dev (n, bs) p = Some (c, q)" "pipeline_inv q" "pr_buffer_map q = pr_buffer_map p"
    "c = None \<or> c = Some (pr_container q)"
    using receive_ok [OF system_invD(2) [OF inv] rd] by blast
  have inv_q: "system_inv q" using q(2,3) system_invD(3) [OF inv] by (simp add: system_inv_def buffers_inv_def)
  show ?thesis
  proof (cases c)
    case None
    then show ?thesis using q(1) inv_q r by (simp add: receive_pool_step_def)
  next
    case (Some d)
    have raw: "length (rc_raw_data d) = MESSAGE_DATA_SIZE"
      using Some q(4) system_invD(1) [OF inv_q] by (simp add: recv_inv_def)
    obtain q' where q': "store_message fresh d q = Some q'" "buffers_inv q'" "q' = q\<lparr>pr_buffer_map := pr_buffer_map q'\<rparr>"
      using store_message_ok [OF system_invD(3) [OF inv_q] raw] by blast
    have same: "pr_cmd_table q' = pr_cmd_table q" "pr_ack_table q' = pr_ack_table q" "pr_pool q' = pr_pool q"
      "pr_container q' = pr_container q" "pr_stream q' = pr_stream q" "pr_reuse_buffer q' = pr_reuse_buffer q"
      "pr_recv_buff q' = pr_recv_buff q" "pr_read_len q' = pr_read_len q" by (subst q'(3), simp)+
    have "pipeline_inv q'"
      using q(2) same recv_inv_cong [of q' q] by (simp add: pipeline_inv_def)
    then show ?thesis using q(1) Some r q'(1,2) by (simp add: receive_pool_step_def system_inv_def)
  qed
qed

lemma take_message_frame:
  assumes "take_message psize room ci p = Some (r, q)"
  shows "\<exists>m. q = p\<lparr>pr_buffer_map := m\<rparr>"
proof -
  have "q = p \<or> (\<exists>m. q = p\<lparr>pr_buffer_map := m\<rparr>)"
    using assms by (auto simp: take_message_def bind_eq_Some_conv split: option.splits if_splits)
  moreover have "p = p\<lparr>pr_buffer_map := pr_buffer_map p\<rparr>" by simp
  ultimately show ?thesis by metis
qed

lemma system_fetch:
  assumes inv: "system_inv p" and room: "psize \<le> room" and res: "take_message psize room ci p = Some (r, q)"
  shows "system_inv q"
proof -
  obtain m where m: "q = p\<lparr>pr_buffer_map := m\<rparr>" using take_message_frame [OF res] by blast
  have "buffers_inv q"
    using res by (cases rule: take_message_cases [OF system_invD(3) [OF inv], where ci = ci and room = room and psize = psize, case_names a b c d e]) auto
  moreover have "pipeline_inv q" using system_invD(2) [OF inv] recv_inv_cong [of q p] by (simp add: pipeline_inv_def m)
  ultimately show ?thesis by (simp add: system_inv_def)
qed

lemma system_step: "protocol_step p q \<Longrightarrow> system_inv p \<Longrightarrow> system_inv q"
proof (induction rule: protocol_step.induct)
  case (message dev ci mem now p r mh q)
  then show ?case using system_send(1) [of p ci mem dev now] by auto
next
  case (request dev ci mh mem now p r mh' q)
  then show ?case using system_send(2) [of p ci mem dev mh now] by auto
next
  case (poll dev clock p q)
  then show ?case using auto_repeat_total [OF system_invD(1), of p dev clock] system_inv_sides [of p q] by auto
next
  case (receive dev fresh reading p q)
  then show ?case using system_receive [of p reading dev fresh] by auto
qed (use system_response system_fetch in blast)+

lemma system_reachable: "protocol_step\<^sup>*\<^sup>* p q \<Longrightarrow> system_inv p \<Longrightarrow> system_inv q"
  by (induction rule: rtranclp_induct) (auto intro: system_step)

lemma idle_proto_system: "system_inv idle_proto"
  using idle_proto_pipeline
  by (simp add: system_inv_def buffers_inv_def idle_proto_def protocol_init_def setup_session_def)

subsection \<open>Example states\<close>

text \<open>A command waiting for its acknowledgement in session 2.\<close>

lemma waiting_example:
  "\<exists>p b. recv_inv p \<and> owned p (OCmd 2) = Some b \<and> h_session_id (header_of (block_bytes (pr_pool p) b)) = 2"
proof -
  have inv: "recv_inv idle_proto" using idle_proto_system by (rule system_invD)
  have sinv: "sessions_inv idle_proto" using inv by (simp add: recv_inv_def sends_inv_def)
  have "\<not> cs_usage_flag (cmd_session_at idle_proto 2)" by (rule idle_proto_unused) (simp add: protocol_consts)
  then have pick: "pick_cmd_session CMD_SESSION_AUTO idle_proto = Some 2"
    by (simp add: pick_cmd_session_def SESSION_TABLE_NUM_def upt_rec)
  have fits: "command_fits idle_proto 1" by (rule idle_proto_fits) simp_all
  have mem: "1 \<le> length [0x11 :: u8]" "1 = unat (1 :: u16)" by simp_all
  obtain p b where p: "send_cmd_acked (\<lambda>_. 0) CMD_SESSION_AUTO 5 3 4 1 [0x11] 1 (of_nat (18 + 1)) None 50 0 idle_proto =
      Some (True, map_option (\<lambda>h. h\<lparr>mh_is_ack := False, mh_seq_num := next_seq idle_proto 2, mh_session_id := of_nat 2\<rparr>) None, p)"
    "sessions_inv p" "others_kept (OCmd 2) idle_proto p"
    "\<And>ow. ow \<noteq> OCmd 2 \<Longrightarrow> owned p ow = owned idle_proto ow" "owned p (OCmd 2) = Some b"
    "block_bytes (pr_pool p) b = command_frame (of_nat 2) (next_seq idle_proto 2) 3 4 1 (take 1 [0x11])"
    by (rule send_acked_ok [OF sinv fits mem pick refl]) (rule that)
  have "recv_inv p"
    by (rule recv_inv_others [OF inv p(2) send_acked_side [OF p(1)] p(3,4)])
      (use p(5) packet_in_command_frame [OF p(6)] in auto)
  moreover have "h_session_id (header_of (block_bytes (pr_pool p) b)) = 2"
    by (simp add: p(6) header_of_command_frame)
  ultimately show ?thesis using p(5) by blast
qed

text \<open>An acknowledgement of two bytes kept in session 2 of the local address.\<close>

lemma acked_example:
  "\<exists>p s b. recv_inv p \<and> ack_session_at p 0 1 = Some s \<and> as_session_status s = ACK_SESSION_USING \<and>
     as_memory_block s = Some b \<and> block_bytes (pr_pool p) b = ack_frame 2 9 0 (Some [0x11, 0x22])"
proof -
  have inv: "recv_inv idle_proto" using idle_proto_system by (rule system_invD)
  have sinv: "sessions_inv idle_proto" using inv by (simp add: recv_inv_def sends_inv_def)
  have mem: "unat (2 :: u16) \<le> length m" if "Some [0x11, 0x22 :: u8] = Some m" for m using that by auto
  have rc: "unat (0 :: u8) < RECEIVER_NUM" "16 + unat (2 :: u16) < 2 ^ 16" by (simp_all add: protocol_consts)
  obtain ok p where p: "send_ack (\<lambda>_. 0) 2 9 0 (Some [0x11, 0x22]) 2 idle_proto = Some (ok, p)"
    "ok \<Longrightarrow> \<exists>b. owned p (OAck 0 1) = Some b \<and> block_bytes (pr_pool p) b = ack_frame 2 9 0 (Some [0x11, 0x22])"
    "ok \<Longrightarrow> \<exists>s. ack_session_at p 0 1 = Some s \<and> as_session_status s = ACK_SESSION_USING"
    using send_ack_ok [OF sinv rc, where ack = "Some [0x11, 0x22]" and dev = "\<lambda>_. 0" and sid = 2 and sq = 9, OF mem]
    by (auto simp: ack_payload_def)
  have ok: ok
  proof -
    obtain q where q: "alloc_memory 18 (pr_pool idle_proto) = Some (Some 1, q)"
      using idle_proto_alloc [of 18] by (auto simp: protocol_consts)
    have s: "ack_session_at idle_proto 0 1 = Some \<lparr>as_session_id = of_nat (1 + 1),
        as_session_status = ACK_SESSION_IDLE, as_memory_block = None\<rparr>" by (simp add: idle_proto_ack protocol_consts)
    show ?thesis
      using p(1) q s
      by (auto simp: send_ack_def Let_def alloc_ack_session_def bind_eq_Some_conv protocol_consts split: prod.splits)
  qed
  have "recv_inv p"
    by (rule send_ack_inv [OF inv rc mem]) (use p(1) ok in auto)
  then show ?thesis using p(2,3) ok by (auto simp: owned_def)
qed

subsection \<open>Properties\<close>



text \<open>C18. A duplicate of a command that was already answered is not handed to the application again:
  if the kept acknowledgement has the command's sequence number, it is transmitted once more,
  unchanged, and nothing else happens.\<close>

theorem duplicate_command_resends_ack:
  assumes "recv_inv p" "h_is_ack (header_of fr) \<noteq> 1" "h_session_id (header_of fr) \<noteq> 0"
    "ack_session_at p (unat (h_receiver (header_of fr))) (unat (h_session_id (header_of fr)) - 1) = Some s"
    "as_session_status s = ACK_SESSION_USING" "as_memory_block s = Some b"
    "h_seq_num (header_of (block_bytes (pr_pool p) b)) = h_seq_num (header_of fr)"
  shows "handle_frame dev fr p =
    Some (False, p\<lparr>pr_sent := pr_sent p @ [transmitted (block_bytes (pr_pool p) b)]\<rparr>)"
proof -
  have sinv: "sessions_inv p" using assms(1) by (simp add: recv_inv_def sends_inv_def)
  obtain c where "as_memory_block s = Some c" "packet_in p c"
    "owned p (OAck (unat (h_receiver (header_of fr))) (unat (h_session_id (header_of fr)) - 1)) = Some c"
    by (rule recv_inv_ack_packet [OF assms(1,4,5)]) (rule that)
  then have pkt: "packet_in p b" 
    and own: "owned p (OAck (unat (h_receiver (header_of fr))) (unat (h_session_id (header_of fr)) - 1)) = Some b"
    using assms(6) by simp_all
  obtain ptr ok where "block_address p (Some b) = Some ptr" "device_send dev ptr p =
      Some (ok, p\<lparr>pr_sent := pr_sent p @ [transmitted (block_bytes (pr_pool p) b)]\<rparr>)"
    using resend_ok [OF sinv own pkt, of dev] by (auto simp: bind_eq_Some_conv)
  moreover have "\<not> 31 < unat (h_session_id (header_of fr))"
    using unsigned_less [of "h_session_id (header_of fr)", where 'a = nat] by simp
  moreover have "unat (h_session_id (header_of fr)) \<noteq> 0" using assms(3) by (simp add: unat_eq_0)
  ultimately show ?thesis
    using assms(2-7) stored_header_ok [OF sinv own pkt] by (simp add: handle_frame_def handle_command_def Let_def)
qed

theorem duplicate_command_resends_ack_witness:
  "\<exists>p. handle_frame (\<lambda>_. 0) (command_frame 2 9 3 4 0 [7]) p =
     Some (False, p\<lparr>pr_sent := pr_sent p @ [ack_frame 2 9 0 (Some [0x11, 0x22])]\<rparr>)"
proof -
  obtain p s b where p: "recv_inv p" "ack_session_at p 0 1 = Some s" "as_session_status s = ACK_SESSION_USING"
    "as_memory_block s = Some b" "block_bytes (pr_pool p) b = ack_frame 2 9 0 (Some [0x11, 0x22])"
    using acked_example by blast
  have "transmitted (ack_frame 2 9 0 (Some [0x11, 0x22])) = ack_frame 2 9 0 (Some [0x11, 0x22])"
    by (simp add: transmitted_def ack_length_of_def)
  then show ?thesis
    using duplicate_command_resends_ack [OF p(1) _ _ _ p(3,4), of "command_frame 2 9 3 4 0 [7]" "\<lambda>_. 0"] p(2,5)
    by (auto simp: header_of_command_frame header_of_ack_frame)
qed

text \<open>C19. An acknowledgement without data, which \<open>SendACK\<close> itself builds, brings the receiver down:
  it passes every check, and the handler, which subtracts the tail CRC it does not have, asks
  \<open>memcpy\<close> for a negative number of bytes.\<close>

theorem header_only_ack_faults:
  assumes "recv_inv p" "0 < i" "i < SESSION_TABLE_NUM" "owned p (OCmd i) = Some b"
    "h_session_id (header_of (block_bytes (pr_pool p) b)) = of_nat i"
  shows "valid_frame (ack_frame (of_nat i) sq DEVICE None) \<and>
    handle_frame dev (ack_frame (of_nat i) sq DEVICE None) p = None"
proof
  let ?f = "ack_frame (of_nat i) sq DEVICE None"
  let ?h = "packed_header (of_nat 12) (of_nat i) 1 DEVICE sq"
  have f: "?f = header_bytes ?h" by (simp add: ack_frame_def)
  have h: "header_of ?f = ?h" by (simp only: f header_of_bytes)
  have fl: "frame_length ?f = 12" unfolding frame_length_def h by (simp add: unat_length_field)
  have chk: "crc_head_check ?f" unfolding f by (rule packed_header_check)
  have "take HEADER_LEN ?f = ?f" by (simp add: ack_length_of_def HEADER_LEN_def)
  then have "header_ok ?f"
    unfolding header_ok_def Let_def h using chk fl [unfolded frame_length_def h] by (simp add: VERSION_def MAX_PACK_SIZE_def)
  then show "valid_frame ?f" using fl by (simp add: valid_frame_def ack_length_of_def)
  have sinv: "sessions_inv p" "sends_inv p" using assms(1) by (simp_all add: recv_inv_def sends_inv_def)
  have used: "cs_usage_flag (cmd_session_at p i)" "cs_memory_block (cmd_session_at p i) = Some b"
    using assms(4) by (auto simp: owned_def split: if_splits)
  have pkt: "packet_in p b" using sinv(2) assms(4) by (simp add: sends_inv_def)
  have i32: "i < 32" using assms(3) by (simp add: protocol_consts)
  have u: "unat (of_nat i :: 5 word) = i" "unat (of_nat i :: u8) = i"
    by (rule unat_of_nat_small, use i32 in simp)+
  then have "ucast (of_nat i :: u8) = (of_nat i :: 5 word)"
    by (intro word_unat_eq_iff [THEN iffD2]) (use i32 in \<open>simp add: unat_ucast_mod\<close>)
  then have sid: "h_session_id ?h = of_nat i" "unat (of_nat i :: 5 word) = i" using u by simp_all
  have "fill_container True cs ci True HEADER_LEN ?h ?f p = None" for cs ci
    by (simp add: fill_container_def Let_def unat_length_field protocol_consts)
  then show "handle_frame dev ?f p = None"
    using sid used assms(2,5) i32 stored_header_ok [OF sinv(1) assms(4) pkt]
    by (simp add: handle_frame_def h handle_ack_def Let_def)
qed

theorem header_only_ack_faults_witness:
  "\<exists>p. recv_inv p \<and> handle_frame (\<lambda>_. 0) (ack_frame 2 9 DEVICE None) p = None"
proof -
  obtain p b where "recv_inv p" "owned p (OCmd 2) = Some b" "h_session_id (header_of (block_bytes (pr_pool p) b)) = 2"
    using waiting_example by blast
  then show ?thesis using header_only_ack_faults [of p 2 b 9 "\<lambda>_. 0"] by (auto simp: protocol_consts)
qed

text \<open>C20. One header with a valid checksum whose length field says less than twelve bytes blocks the
  receiver: it is neither delivered nor skipped, and everything that follows, valid packets
  included, disappears behind it until the buffer of 4096 bytes overflows.\<close>

theorem undersized_header_blocks_receiver:
  assumes "pipeline_inv p" "pr_read_len p \<le> pr_read_pos p" "12 \<le> length (window_of (pr_stream p))"
    "frame_length (window_of (pr_stream p)) < 12" "length (window_of (pr_stream p)) + length bs \<le> MAX_PACK_SIZE"
  shows "\<exists>q. receive dev (int (length bs), bs) p = Some (None, q) \<and>
    window_of (pr_stream q) = window_of (pr_stream p) @ bs \<and> pr_sent q = pr_sent p"
proof -
  note I = pipeline_invD [OF assms(1)]
  let ?w = "window_of (pr_stream p)" and ?n = "length bs"
  let ?p1 = "p\<lparr>pr_recv_buff := splice (pr_recv_buff p) 0 bs, pr_read_pos := 0, pr_read_len := ?n\<rparr>"
  have n: "?n < BUFFER_SIZE" using assms(3,5) by (simp add: protocol_consts)
  have rd: "read_device (int ?n, bs) p = Some ?p1" using read_device_ok [OF I(5)] n by simp
  have bl: "length (splice (pr_recv_buff p) 0 bs) = BUFFER_SIZE" using I(5) n by (simp add: protocol_consts)
  have feed: "feed (?w @ take i bs) x = Keep (?w @ take i bs @ [x])" if "i < ?n" for i x
  proof -
    have "frame_length ((?w @ take i bs) @ [x]) = frame_length ?w"
      using frame_length_append [OF assms(3), of "take i bs @ [x]"] by simp
    then show ?thesis using that assms(3-5) by (simp add: feed_def Let_def HEADER_LEN_def)
  qed
  have "\<exists>s. receive_bytes dev (?n + 0) ?p1 =
      receive_bytes dev 0 (?p1\<lparr>pr_stream := s, pr_read_pos := pr_read_pos ?p1 + ?n\<rparr>) \<and> stream_ready s \<and>
      window_of s = ?w @ take ?n bs"
  proof (rule receive_bytes_keep)
    show "feed (?w @ take i bs) (pr_recv_buff ?p1 ! (pr_read_pos ?p1 + i)) = Keep (?w @ take (Suc i) bs)" if "i < ?n" for i
      using feed [OF that] that I(5) n by (simp add: nth_splice take_Suc_conv_app_nth protocol_consts)
  qed (use I bl n in simp_all)
  then obtain s where "receive_bytes dev ?n ?p1 = Some (False, ?p1\<lparr>pr_stream := s, pr_read_pos := ?n\<rparr>)"
    "window_of s = ?w @ bs" by auto
  then show ?thesis using rd n assms(2) by (simp add: receive_def)
qed

theorem undersized_header_blocks_receiver_witness:
  "\<exists>p q. pipeline_inv p \<and> receive (\<lambda>_. 0) (3, [1, 2, 3]) p = Some (None, q) \<and>
     window_of (pr_stream q) = header_bytes (packed_header 4 0 0 0 0) @ [1, 2, 3]"
proof -
  let ?h = "header_bytes (packed_header 4 0 0 0 0)"
  let ?s = "\<lparr>rs_reuse_index = 0, rs_reuse_count = 0, rs_recv_index = 12,
    rs_recv_buff = ?h @ replicate (MAX_PACK_SIZE - 12) 0\<rparr>"
  let ?p = "idle_proto\<lparr>pr_stream := ?s\<rparr>"
  have w: "window_of ?s = ?h" by (simp add: window_of_def)
  have hd: "header_of ?h = packed_header 4 0 0 0 0" by (rule header_of_bytes)
  have fl: "frame_length ?h = 4" by (simp add: frame_length_def hd)
  have "header_ok ?h"
    using packed_header_check fl by (simp add: header_ok_def Let_def hd frame_length_def protocol_consts)
  then have "window_ok ?h" by (simp add: window_ok_def)
  moreover have "recv_inv ?p" using system_invD(1) [OF idle_proto_system] recv_inv_cong [of ?p idle_proto] by simp
  ultimately have "pipeline_inv ?p"
    using pipeline_invD [OF idle_proto_pipeline] w
    by (simp add: pipeline_inv_def stream_ready_def protocol_consts)
  then show ?thesis
    using undersized_header_blocks_receiver [of ?p "[1, 2, 3]" "\<lambda>_. 0"] w fl
    by (fastforce simp: idle_proto_stream protocol_consts)
qed
end
