(* ===== verification/Dispatch.thy ===== *)
theory Dispatch
  imports ProtocolSystem
begin

text \<open>
  The dispatch layer of \<open>roborts_sdk/dispatch\<close>: typed publishers, subscriptions, clients and services
  over the protocol layer, the \<open>Executor\<close> that serves them and the \<open>Handle\<close> that owns them.

  A command or acknowledgement type is the number of bytes of its objects. The callbacks of the
  application are parameters: they may do anything to the running system, calls of the
  handle included. A promise and its future are an entry of a table of values.
\<close>

subsection \<open>Endpoints\<close>

record endpoint =
  ep_info :: command_info
  ep_cmd_size :: nat
  ep_ack_size :: nat

definition subscription_base :: "u8 \<Rightarrow> u8 \<Rightarrow> u8 \<Rightarrow> u8 \<Rightarrow> command_info" where
  "subscription_base cmd_set cmd_id sender receiver =
     \<lparr>ci_cmd_set = cmd_set, ci_cmd_id = cmd_id, ci_need_ack = False, ci_sender = sender, ci_receiver = receiver, ci_length = 0\<rparr>"

definition publisher_base :: "u8 \<Rightarrow> u8 \<Rightarrow> u8 \<Rightarrow> u8 \<Rightarrow> command_info" where
  "publisher_base cmd_set cmd_id sender receiver =
     \<lparr>ci_cmd_set = cmd_set, ci_cmd_id = cmd_id, ci_need_ack = False, ci_sender = sender, ci_receiver = receiver, ci_length = 0\<rparr>"

definition client_base :: "u8 \<Rightarrow> u8 \<Rightarrow> u8 \<Rightarrow> u8 \<Rightarrow> command_info" where
  "client_base cmd_set cmd_id sender receiver =
     \<lparr>ci_cmd_set = cmd_set, ci_cmd_id = cmd_id, ci_need_ack = True, ci_sender = sender, ci_receiver = receiver, ci_length = 0\<rparr>"

definition service_base :: "u8 \<Rightarrow> u8 \<Rightarrow> u8 \<Rightarrow> u8 \<Rightarrow> command_info" where
  "service_base cmd_set cmd_id sender receiver =
     \<lparr>ci_cmd_set = cmd_set, ci_cmd_id = cmd_id, ci_need_ack = True, ci_sender = sender, ci_receiver = receiver, ci_length = 0\<rparr>"

definition new_subscription :: "u8 \<Rightarrow> u8 \<Rightarrow> u8 \<Rightarrow> u8 \<Rightarrow> nat \<Rightarrow> endpoint" where
  "new_subscription cmd_set cmd_id sender receiver cmd_size =
     \<lparr>ep_info = (subscription_base cmd_set cmd_id sender receiver)\<lparr>ci_length := of_nat cmd_size\<rparr>, ep_cmd_size = cmd_size, ep_ack_size = 0\<rparr>"

definition new_publisher :: "u8 \<Rightarrow> u8 \<Rightarrow> u8 \<Rightarrow> u8 \<Rightarrow> nat \<Rightarrow> endpoint" where
  "new_publisher cmd_set cmd_id sender receiver cmd_size =
     \<lparr>ep_info = (publisher_base cmd_set cmd_id sender receiver)\<lparr>ci_length := of_nat cmd_size\<rparr>, ep_cmd_size = cmd_size, ep_ack_size = 0\<rparr>"

text \<open>A client sends commands but takes the size of the acknowledgement, a service the other way round.\<close>

definition new_client :: "u8 \<Rightarrow> u8 \<Rightarrow> u8 \<Rightarrow> u8 \<Rightarrow> nat \<Rightarrow> nat \<Rightarrow> endpoint" where
  "new_client cmd_set cmd_id sender receiver cmd_size ack_size =
     \<lparr>ep_info = (client_base cmd_set cmd_id sender receiver)\<lparr>ci_length := of_nat ack_size\<rparr>, ep_cmd_size = cmd_size, ep_ack_size = ack_size\<rparr>"

definition new_service :: "u8 \<Rightarrow> u8 \<Rightarrow> u8 \<Rightarrow> u8 \<Rightarrow> nat \<Rightarrow> nat \<Rightarrow> endpoint" where
  "new_service cmd_set cmd_id sender receiver cmd_size ack_size =
     \<lparr>ep_info = (service_base cmd_set cmd_id sender receiver)\<lparr>ci_length := of_nat cmd_size\<rparr>, ep_cmd_size = cmd_size, ep_ack_size = ack_size\<rparr>"

record handle =
  hd_subscriptions :: "endpoint list"
  hd_publishers :: "endpoint list"
  hd_services :: "endpoint list"
  hd_clients :: "endpoint list"

definition create_subscriber :: "u8 \<Rightarrow> u8 \<Rightarrow> u8 \<Rightarrow> u8 \<Rightarrow> nat \<Rightarrow> handle \<Rightarrow> endpoint \<times> handle" where
  "create_subscriber cmd_set cmd_id sender receiver cmd_size h =
     (let s = new_subscription cmd_set cmd_id sender receiver cmd_size in (s, h\<lparr>hd_subscriptions := hd_subscriptions h @ [s]\<rparr>))"

definition create_publisher :: "u8 \<Rightarrow> u8 \<Rightarrow> u8 \<Rightarrow> u8 \<Rightarrow> nat \<Rightarrow> handle \<Rightarrow> endpoint \<times> handle" where
  "create_publisher cmd_set cmd_id sender receiver cmd_size h =
     (let s = new_publisher cmd_set cmd_id sender receiver cmd_size in (s, h\<lparr>hd_publishers := hd_publishers h @ [s]\<rparr>))"

definition create_server :: "u8 \<Rightarrow> u8 \<Rightarrow> u8 \<Rightarrow> u8 \<Rightarrow> nat \<Rightarrow> nat \<Rightarrow> handle \<Rightarrow> endpoint \<times> handle" where
  "create_server cmd_set cmd_id sender receiver cmd_size ack_size h =
     (let s = new_service cmd_set cmd_id sender receiver cmd_size ack_size in (s, h\<lparr>hd_services := hd_services h @ [s]\<rparr>))"

definition create_client :: "u8 \<Rightarrow> u8 \<Rightarrow> u8 \<Rightarrow> u8 \<Rightarrow> nat \<Rightarrow> nat \<Rightarrow> handle \<Rightarrow> endpoint \<times> handle" where
  "create_client cmd_set cmd_id sender receiver cmd_size ack_size h =
     (let s = new_client cmd_set cmd_id sender receiver cmd_size ack_size in (s, h\<lparr>hd_clients := hd_clients h @ [s]\<rparr>))"

subsection \<open>The running system\<close>

text \<open>\<open>rt_pending k\<close> is the map \<open>pending_requests_\<close> of client number \<open>k\<close>, from session ids to a
  promise and a callback.\<close>

record 'a runtime =
  rt_proto :: proto
  rt_pending :: "nat \<Rightarrow> u8 \<Rightarrow> (nat \<times> nat) option"
  rt_futures :: "nat \<Rightarrow> bytes option"
  rt_next :: nat
  rt_app :: 'a

text \<open>The callbacks of a subscription and of a service know their endpoint by its number; a request brings its own.\<close>

record 'a callbacks =
  on_message :: "nat \<Rightarrow> bytes \<Rightarrow> 'a runtime \<Rightarrow> 'a runtime option"
  on_request :: "nat \<Rightarrow> bytes \<Rightarrow> bytes \<Rightarrow> 'a runtime \<Rightarrow> (bytes \<times> 'a runtime) option"
  on_response :: "nat \<Rightarrow> bytes \<Rightarrow> 'a runtime \<Rightarrow> 'a runtime option"

text \<open>Copying the bytes of a message into an object.\<close>

definition fill_object :: "bytes \<Rightarrow> bytes \<Rightarrow> bytes option" where
  "fill_object obj data = (if length data \<le> length obj then Some (data @ drop (length data) obj) else None)"

definition publish :: "(bytes \<Rightarrow> int) \<Rightarrow> endpoint \<Rightarrow> bytes \<Rightarrow> int \<Rightarrow> 'a runtime \<Rightarrow> 'a runtime option" where
  "publish dev ep msg now rt = do {
     (ret, mh, q) \<leftarrow> send_message dev (ep_info ep) (Some msg) now (rt_proto rt);
     Some (rt\<lparr>rt_proto := q\<rparr>) }"

text \<open>\<open>make_shared<MessageHeader>()\<close> is filled with zeros. A failed request is registered like any other.\<close>

definition async_send_request :: "(bytes \<Rightarrow> int) \<Rightarrow> nat \<Rightarrow> endpoint \<Rightarrow> bytes \<Rightarrow> nat \<Rightarrow> int \<Rightarrow> 'a runtime \<Rightarrow> (nat \<times> 'a runtime) option" where
  "async_send_request dev k ep request cb now rt = do {
     (ret, mh, q) \<leftarrow> send_request dev (ep_info ep) \<lparr>mh_seq_num = 0, mh_session_id = 0, mh_is_ack = False\<rparr> (Some request) now (rt_proto rt);
     h \<leftarrow> mh;
     let promise = rt_next rt;
     Some (promise, rt\<lparr>rt_proto := q, rt_next := Suc promise, rt_futures := (rt_futures rt)(promise := None),
       rt_pending := (rt_pending rt)(k := (rt_pending rt k)(mh_session_id h \<mapsto> (promise, cb)))\<rparr>) }"

definition handle_response :: "'a callbacks \<Rightarrow> nat \<Rightarrow> message_header \<Rightarrow> bytes \<Rightarrow> 'a runtime \<Rightarrow> 'a runtime option" where
  "handle_response cb k mh response rt =
     (case rt_pending rt k (mh_session_id mh) of
        None \<Rightarrow> Some rt
      | Some (promise, callback) \<Rightarrow>
          let rt1 = rt\<lparr>rt_pending := (rt_pending rt)(k := (rt_pending rt k)(mh_session_id mh := None)),
                rt_futures := (rt_futures rt)(promise \<mapsto> response)\<rparr> in
          on_response cb callback response rt1)"

definition service_send_response :: "(bytes \<Rightarrow> int) \<Rightarrow> endpoint \<Rightarrow> message_header \<Rightarrow> bytes \<Rightarrow> 'a runtime \<Rightarrow> 'a runtime option" where
  "service_send_response dev ep mh response rt = do {
     (ret, q) \<leftarrow> send_response dev (ep_info ep) mh (Some response) (rt_proto rt);
     Some (rt\<lparr>rt_proto := q\<rparr>) }"

text \<open>\<open>fresh n\<close> is what a new object of \<open>n\<close> bytes holds.\<close>

definition handle_request :: "(bytes \<Rightarrow> int) \<Rightarrow> (nat \<Rightarrow> bytes) \<Rightarrow> 'a callbacks \<Rightarrow> nat \<Rightarrow> endpoint \<Rightarrow> message_header \<Rightarrow> bytes \<Rightarrow>
    'a runtime \<Rightarrow> 'a runtime option" where
  "handle_request dev fresh cb k ep mh request rt = do {
     (response, rt1) \<leftarrow> on_request cb k request (fresh (ep_ack_size ep)) rt;
     service_send_response dev ep mh response rt1 }"

definition execute_subscription :: "nat \<Rightarrow> nat \<Rightarrow> (nat \<Rightarrow> bytes) \<Rightarrow> 'a callbacks \<Rightarrow> nat \<Rightarrow> endpoint \<Rightarrow> 'a runtime \<Rightarrow> 'a runtime option" where
  "execute_subscription psize room fresh cb k ep rt = do {
     (r, q) \<leftarrow> take_message psize room (ep_info ep) (rt_proto rt);
     case r of
       None \<Rightarrow> Some (rt\<lparr>rt_proto := q\<rparr>)
     | Some (mh, data) \<Rightarrow> do {
         message \<leftarrow> fill_object (fresh (ep_cmd_size ep)) data;
         on_message cb k message (rt\<lparr>rt_proto := q\<rparr>) } }"

definition execute_service :: "(bytes \<Rightarrow> int) \<Rightarrow> nat \<Rightarrow> nat \<Rightarrow> (nat \<Rightarrow> bytes) \<Rightarrow> 'a callbacks \<Rightarrow> nat \<Rightarrow> endpoint \<Rightarrow> 'a runtime \<Rightarrow> 'a runtime option" where
  "execute_service dev psize room fresh cb k ep rt = do {
     (r, q) \<leftarrow> take_message psize room (ep_info ep) (rt_proto rt);
     case r of
       None \<Rightarrow> Some (rt\<lparr>rt_proto := q\<rparr>)
     | Some (mh, data) \<Rightarrow> do {
         request \<leftarrow> fill_object (replicate (ep_cmd_size ep) 0) data;
         handle_request dev fresh cb k ep mh request (rt\<lparr>rt_proto := q\<rparr>) } }"

definition execute_client :: "nat \<Rightarrow> nat \<Rightarrow> 'a callbacks \<Rightarrow> nat \<Rightarrow> endpoint \<Rightarrow> 'a runtime \<Rightarrow> 'a runtime option" where
  "execute_client psize room cb k ep rt = do {
     (r, q) \<leftarrow> take_message psize room (ep_info ep) (rt_proto rt);
     case r of
       None \<Rightarrow> Some (rt\<lparr>rt_proto := q\<rparr>)
     | Some (mh, data) \<Rightarrow> do {
         response \<leftarrow> fill_object (replicate (ep_ack_size ep) 0) data;
         handle_response cb k mh response (rt\<lparr>rt_proto := q\<rparr>) } }"

text \<open>One round over all endpoints.\<close>

primrec execute_each :: "(nat \<Rightarrow> endpoint \<Rightarrow> 'a runtime \<Rightarrow> 'a runtime option) \<Rightarrow> nat \<Rightarrow> endpoint list \<Rightarrow> 'a runtime \<Rightarrow> 'a runtime option" where
  "execute_each f k [] rt = Some rt"
| "execute_each f k (ep # eps) rt = do { rt1 \<leftarrow> f k ep rt; execute_each f (Suc k) eps rt1 }"

definition spin :: "(bytes \<Rightarrow> int) \<Rightarrow> nat \<Rightarrow> nat \<Rightarrow> (nat \<Rightarrow> bytes) \<Rightarrow> 'a callbacks \<Rightarrow> handle \<Rightarrow> 'a runtime \<Rightarrow> 'a runtime option" where
  "spin dev psize room fresh cb h rt = do {
     rt1 \<leftarrow> execute_each (execute_subscription psize room fresh cb) 0 (hd_subscriptions h) rt;
     rt2 \<leftarrow> execute_each (execute_client psize room cb) 0 (hd_clients h) rt1;
     execute_each (execute_service dev psize room fresh cb) 0 (hd_services h) rt2 }"

subsection \<open>Properties\<close>

lemma size16: "n < 2 ^ 16 \<Longrightarrow> unat (of_nat n :: u16) = n"
  by (rule unat_of_nat_small) simp

lemma fill_object_same: "length data = length obj \<Longrightarrow> fill_object obj data = Some data"
  by (simp add: fill_object_def)

lemma execute_subscription_found:
  assumes "take_message psize room (ep_info ep) (rt_proto rt) = Some (Some (mh, data), q)" "length data = ep_cmd_size ep"
    "length (fresh (ep_cmd_size ep)) = ep_cmd_size ep"
  shows "execute_subscription psize room fresh cb k ep rt = on_message cb k data (rt\<lparr>rt_proto := q\<rparr>)"
  using assms by (simp add: execute_subscription_def fill_object_same)

text \<open>A response resolves the future of the request its session id belongs to, once.\<close>

lemma handle_response_resolves:
  assumes "rt_pending rt k (mh_session_id mh) = Some (promise, callback)"
  obtains rt1 where "handle_response cb k mh response rt = on_response cb callback response rt1"
    "rt_futures rt1 promise = Some response" "rt_pending rt1 k (mh_session_id mh) = None" "rt_proto rt1 = rt_proto rt"
    "handle_response cb k mh response' rt1 = Some rt1"
  by (rule that [of "rt\<lparr>rt_pending := (rt_pending rt)(k := (rt_pending rt k)(mh_session_id mh := None)),
      rt_futures := (rt_futures rt)(promise \<mapsto> response)\<rparr>"]) (simp_all add: assms handle_response_def)


definition idle_runtime :: "bytes runtime" where
  "idle_runtime = \<lparr>rt_proto = idle_proto, rt_pending = (\<lambda>k i. None), rt_futures = (\<lambda>i. None), rt_next = 0, rt_app = []\<rparr>"

definition keep_message :: "bytes callbacks" where
  "keep_message = \<lparr>on_message = (\<lambda>k m rt. Some (rt\<lparr>rt_app := m\<rparr>)), on_request = (\<lambda>k m r rt. Some (r, rt)), on_response = (\<lambda>c m rt. Some rt)\<rparr>"


text \<open>A client describes its commands with the size of the acknowledgement. A request for which a session and memory are
  free is sent with that many bytes: fewer than the command has when the acknowledgement is smaller, so the end of the command
  is lost, and a read past the request object when it is larger.\<close>

theorem client_sends_wrong_size:
  assumes "sessions_inv (rt_proto rt)" "command_fits (rt_proto rt) ack_size" "ack_size \<le> 1005" "length request = cmd_size"
    "pick_cmd_session CMD_SESSION_AUTO (rt_proto rt) = Some i"
  shows "if cmd_size < ack_size
    then async_send_request dev k (new_client cmd_set cmd_id sender receiver cmd_size ack_size) request cb now rt = None
    else \<exists>rt'. async_send_request dev k (new_client cmd_set cmd_id sender receiver cmd_size ack_size) request cb now rt = Some (rt_next rt, rt')
      \<and> pr_sent (rt_proto rt') = pr_sent (rt_proto rt)
          @ [command_frame (of_nat i) (next_seq (rt_proto rt) i) cmd_set cmd_id receiver (take ack_size request)]
      \<and> rt_pending rt' k (of_nat i) = Some (rt_next rt, cb) \<and> rt_futures rt' (rt_next rt) = None"
proof -
  let ?ep = "new_client cmd_set cmd_id sender receiver cmd_size ack_size"
  let ?p = "rt_proto rt"
  let ?pl = "of_nat (HEADER_LEN + CMD_SET_PREFIX_LEN) + ci_length (ep_info ?ep) + of_nat CRC_DATA_LEN :: u16"
  have len: "unat (ci_length (ep_info ?ep)) = ack_size" using assms(3) by (simp add: new_client_def size16)
  have pos: "0 < ack_size" using assms(2) by (simp add: command_fits_def)
  have nz: "ci_length (ep_info ?ep) \<noteq> 0" using len pos by auto
  have pl: "?pl = of_nat (18 + ack_size)" by (simp add: new_client_def protocol_consts)
  have pl_nat: "unat ?pl = 18 + ack_size" unfolding pl by (rule size16) (use assms(3) in simp)
  have info: "ci_receiver (ep_info ?ep) = receiver" "ci_cmd_set (ep_info ?ep) = cmd_set" "ci_cmd_id (ep_info ?ep) = cmd_id"
    by (simp_all add: new_client_def client_base_def)
  define n pl where "n = ci_length (ep_info ?ep)" and "pl = ?pl"
  have req: "send_request dev (ep_info ?ep) mh (Some request) now ?p =
      send_cmd_acked dev CMD_SESSION_AUTO 5 cmd_set cmd_id receiver request n pl (Some mh) 50 now ?p" for mh
    using nz by (simp add: send_request_def send_cmd_def send_cmd_session_auto_def info Let_def n_def pl_def)
  have n: "unat n = ack_size" by (simp add: n_def len)
  note pl' = pl [folded pl_def] and pl_nat' = pl_nat [folded pl_def]
  show ?thesis
  proof (cases "cmd_size < ack_size")
    case True
    have "0 < pl" using pl_nat' pos by (simp add: word_less_nat_alt)
    obtain j b q where a: "alloc_cmd_session CMD_SESSION_AUTO pl ?p = Some (Some j, set_cmd_session j
        ((cmd_session_at ?p j)\<lparr>cs_usage_flag := True, cs_memory_block := Some b\<rparr>) (?p\<lparr>pr_pool := q\<rparr>))"
      using alloc_cmd_session_cases [OF assms(1) \<open>0 < pl\<close>, of CMD_SESSION_AUTO] assms(2,5) pl_nat'
      by (simp add: command_fits_def) metis
    have "mem_read request 0 ack_size = None" using True assms(4) by (simp add: mem_read_def)
    then have pack: "pack_command j cmd_set cmd_id receiver request n pl p1 = None" for p1
      by (simp add: pack_command_def Let_def n)
    have "send_request dev (ep_info ?ep) mh (Some request) now ?p = None" for mh
      unfolding req send_cmd_acked_def a by (simp add: pack)
    then show ?thesis using True by (simp add: async_send_request_def)
  next
    case False
    then have mem: "ack_size \<le> length request" using assms(4) by simp
    let ?mh = "\<lparr>mh_seq_num = 0, mh_session_id = 0, mh_is_ack = False\<rparr>"
    let ?f = "command_frame (of_nat i) (next_seq ?p i) cmd_set cmd_id receiver (take ack_size request)"
    obtain p' where p': "send_cmd_acked dev CMD_SESSION_AUTO 5 cmd_set cmd_id receiver request n pl (Some ?mh) 50 now ?p =
        Some (True, map_option (\<lambda>h. h\<lparr>mh_is_ack := False, mh_seq_num := next_seq ?p i, mh_session_id := of_nat i\<rparr>) (Some ?mh), p')"
      "pr_sent p' = pr_sent ?p @ [take ((18 + ack_size) mod 1024) ?f]"
      by (rule send_acked_ok [OF assms(1,2) mem n [symmetric] assms(5) pl', where mh = "Some ?mh" and timeout = 50 and retry = 5]) (rule that)
    have "take ((18 + ack_size) mod 1024) ?f = ?f" using assms(3) mem by simp
    then show ?thesis using False p' req [of ?mh] by (simp add: async_send_request_def Let_def)
  qed
qed

theorem client_sends_wrong_size_witness:
  "async_send_request (\<lambda>_. 0) 0 (new_client 3 4 7 0 2 3) [0x11, 0x22] 5 0 idle_runtime = None
   \<and> (\<exists>rt'. async_send_request (\<lambda>_. 0) 0 (new_client 3 4 7 0 2 1) [0x11, 0x22] 5 0 idle_runtime = Some (0, rt')
        \<and> rt_pending rt' 0 2 = Some (0, 5) \<and> pr_sent (rt_proto rt') = pr_sent idle_proto @ [command_frame 2 (next_seq idle_proto 2) 3 4 0 [0x11]])"
proof -
  have idle: "rt_proto idle_runtime = idle_proto" "rt_next idle_runtime = 0" by (simp_all add: idle_runtime_def)
  have pick: "pick_cmd_session CMD_SESSION_AUTO idle_proto = Some 2"
    using idle_proto_unused [of 2] by (simp add: pick_cmd_session_def protocol_consts upt_rec)
  have fits: "command_fits idle_proto 3" "command_fits idle_proto 1" by (rule idle_proto_fits; simp)+
  note th = client_sends_wrong_size [where rt = idle_runtime and dev = "\<lambda>_. 0" and k = 0 and request = "[0x11, 0x22]" and cmd_size = 2 and i = 2
      and cmd_set = 3 and cmd_id = 4 and sender = 7 and receiver = 0 and cb = 5 and now = 0, unfolded idle, OF idle_proto_sessions(1) _ _ _ pick]
  show ?thesis using th [OF fits(1)] th [OF fits(2)] by (auto simp: idle)
qed

end
