(* ===== verification/CostMap.thy ===== *)
theory CostMap
  imports Complex_Main Prelude "HOL-Library.Multiset"
begin

text \<open>
  The grid of \<open>roborts_costmap\<close>: the class \<open>Costmap2D\<close> of \<open>costmap_2d.h\<close> and \<open>costmap_2d.cpp\<close>.

  Unsigned 32-bit values are naturals with \<open>wrap32\<close> written out where the code computes with them.
  A \<open>double\<close> is a real number: rounding is not modelled, the conversion to \<open>int\<close> is, and a value it
  cannot represent is a fault, as is a division by zero. The array is \<open>None\<close> for a null pointer.
\<close>

subsection \<open>Machine arithmetic\<close>

text \<open>\<open>(int) x\<close>: truncation towards zero.\<close>

definition trunc_real :: "real \<Rightarrow> int" where
  "trunc_real x = (if x \<ge> 0 then \<lfloor>x\<rfloor> else \<lceil>x\<rceil>)"

definition to_int :: "real \<Rightarrow> int option" where
  "to_int x = (if - (2 ^ 31) - 1 < x \<and> x < 2 ^ 31 then Some (trunc_real x) else None)"

text \<open>A sum or difference of two \<open>int\<close>s that does not fit is undefined.\<close>

definition int_result :: "int \<Rightarrow> int option" where
  "int_result i = (if - (2 ^ 31) \<le> i \<and> i < 2 ^ 31 then Some i else None)"

text \<open>The conversion of an \<open>int\<close> to \<open>unsigned int\<close>.\<close>

definition to_unsigned :: "int \<Rightarrow> nat" where
  "to_unsigned i = nat (i mod 2 ^ 32)"

text \<open>The value an \<open>int\<close> gets from an unsigned result.\<close>

definition wrap_int :: "int \<Rightarrow> int" where
  "wrap_int i = (i + 2 ^ 31) mod 2 ^ 32 - 2 ^ 31"

lemma wrap_int_small [simp]: "- (2 ^ 31) \<le> i \<Longrightarrow> i < 2 ^ 31 \<Longrightarrow> wrap_int i = i"
  by (simp add: wrap_int_def)

definition quotient :: "real \<Rightarrow> real \<Rightarrow> real option" where
  "quotient x y = (if y = 0 then None else Some (x / y))"

text \<open>A map as it arrives in a message, \<open>nav_msgs::msg::OccupancyGrid\<close>.\<close>

record occupancy_grid =
  og_width :: nat
  og_height :: nat
  og_resolution :: real
  og_origin_x :: real
  og_origin_y :: real
  og_frame :: string
  og_data :: "int list"

subsection \<open>The map\<close>

record costmap =
  cm_size_x :: nat
  cm_size_y :: nat
  cm_resolution :: real
  cm_origin_x :: real
  cm_origin_y :: real
  cm_cells :: "u8 list option"
  cm_default :: u8

definition cm_cell_count :: "costmap \<Rightarrow> nat" where
  "cm_cell_count m = wrap32 (cm_size_x m * cm_size_y m)"

definition get_index :: "costmap \<Rightarrow> nat \<Rightarrow> nat \<Rightarrow> nat" where
  "get_index m mx my = wrap32 (wrap32 (my * cm_size_x m) + mx)"

definition index_to_cells :: "costmap \<Rightarrow> nat \<Rightarrow> (nat \<times> nat) option" where
  "index_to_cells m i =
     (if cm_size_x m = 0 then None
      else let my = i div cm_size_x m in Some (i - my * cm_size_x m, my))"

definition delete_maps :: "costmap \<Rightarrow> costmap" where
  "delete_maps m = m\<lparr>cm_cells := None\<rparr>"

text \<open>\<open>raw i\<close> is what the new array holds at index \<open>i\<close>.\<close>

definition init_maps :: "(nat \<Rightarrow> u8) \<Rightarrow> nat \<Rightarrow> nat \<Rightarrow> costmap \<Rightarrow> costmap" where
  "init_maps raw size_x size_y m = m\<lparr>cm_cells := Some (map raw [0..<wrap32 (size_x * size_y)])\<rparr>"

definition write_cells :: "nat \<Rightarrow> u8 list \<Rightarrow> costmap \<Rightarrow> costmap option" where
  "write_cells off bs m = do {
     cells \<leftarrow> cm_cells m;
     cells' \<leftarrow> mem_write cells off bs;
     Some (m\<lparr>cm_cells := Some cells'\<rparr>) }"

definition reset_maps :: "costmap \<Rightarrow> costmap option" where
  "reset_maps m = write_cells 0 (replicate (cm_cell_count m) (cm_default m)) m"

definition costmap_new :: "(nat \<Rightarrow> u8) \<Rightarrow> nat \<Rightarrow> nat \<Rightarrow> real \<Rightarrow> real \<Rightarrow> real \<Rightarrow> u8 \<Rightarrow> costmap option" where
  "costmap_new raw size_x size_y resolution origin_x origin_y default_value =
     reset_maps (init_maps raw size_x size_y
       \<lparr>cm_size_x = size_x, cm_size_y = size_y, cm_resolution = resolution, cm_origin_x = origin_x,
        cm_origin_y = origin_y, cm_cells = None, cm_default = default_value\<rparr>)"

definition resize_map :: "(nat \<Rightarrow> u8) \<Rightarrow> nat \<Rightarrow> nat \<Rightarrow> real \<Rightarrow> real \<Rightarrow> real \<Rightarrow> costmap \<Rightarrow> costmap option" where
  "resize_map raw size_x size_y resolution origin_x origin_y m =
     reset_maps (init_maps raw size_x size_y
       (m\<lparr>cm_size_x := size_x, cm_size_y := size_y, cm_resolution := resolution,
          cm_origin_x := origin_x, cm_origin_y := origin_y\<rparr>))"

text \<open>The loop over the rows \<open>y\<close>, \<open>y + size_x\<close>, ... below \<open>limit\<close>; it does not end for a map of
  width 0, and the counter wraps around.\<close>

partial_function (option) reset_rows :: "nat \<Rightarrow> nat \<Rightarrow> nat \<Rightarrow> costmap \<Rightarrow> costmap option" where
  "reset_rows y limit len m =
     (if y < limit then do {
        m' \<leftarrow> write_cells y (replicate len (cm_default m)) m;
        reset_rows (wrap32 (y + cm_size_x m)) limit len m' }
      else Some m)"

definition reset_part_map :: "nat \<Rightarrow> nat \<Rightarrow> nat \<Rightarrow> nat \<Rightarrow> costmap \<Rightarrow> costmap option" where
  "reset_part_map x0 y0 xn yn m =
     reset_rows (wrap32 (wrap32 (y0 * cm_size_x m) + x0)) (wrap32 (wrap32 (yn * cm_size_x m) + x0)) (sub32 xn x0) m"

text \<open>\<open>CopyMapRegion\<close>: rows of \<open>width\<close> cells from one array to another; a copy of no cells
  touches neither array, wherever the pointers point.\<close>

definition copy_cells :: "u8 list \<Rightarrow> nat \<Rightarrow> nat \<Rightarrow> nat \<Rightarrow> u8 list \<Rightarrow> u8 list option" where
  "copy_cells src src_ptr dst_ptr width dst =
     (if width = 0 then Some dst
      else do { row \<leftarrow> mem_read src src_ptr width; mem_write dst dst_ptr row })"

primrec copy_rows :: "u8 list \<Rightarrow> nat \<Rightarrow> nat \<Rightarrow> nat \<Rightarrow> nat \<Rightarrow> nat \<Rightarrow> nat \<Rightarrow> u8 list \<Rightarrow> u8 list option" where
  "copy_rows src src_ptr src_size_x dst_ptr dst_size_x width 0 dst = Some dst"
| "copy_rows src src_ptr src_size_x dst_ptr dst_size_x width (Suc n) dst = do {
     dst' \<leftarrow> copy_cells src src_ptr dst_ptr width dst;
     copy_rows src (src_ptr + src_size_x) src_size_x (dst_ptr + dst_size_x) dst_size_x width n dst' }"

definition copy_map_region :: "u8 list \<Rightarrow> u8 list \<Rightarrow> nat \<Rightarrow> nat \<Rightarrow> nat \<Rightarrow> nat \<Rightarrow> nat \<Rightarrow> nat \<Rightarrow> nat \<Rightarrow> nat \<Rightarrow> u8 list option" where
  "copy_map_region src dst src_size_x dst_size_x src_x src_y dst_x dst_y width height =
     copy_rows src (wrap32 (src_x + wrap32 (src_y * src_size_x))) src_size_x
       (wrap32 (dst_x + wrap32 (dst_y * dst_size_x))) dst_size_x width height dst"

definition get_cost :: "costmap \<Rightarrow> nat \<Rightarrow> nat \<Rightarrow> u8 option" where
  "get_cost m mx my = do { cells \<leftarrow> cm_cells m; at_opt cells (get_index m mx my) }"

definition set_cost :: "nat \<Rightarrow> nat \<Rightarrow> u8 \<Rightarrow> costmap \<Rightarrow> costmap option" where
  "set_cost mx my cost m = do {
     cells \<leftarrow> cm_cells m;
     cells' \<leftarrow> set_opt cells (get_index m mx my) cost;
     Some (m\<lparr>cm_cells := Some cells'\<rparr>) }"

subsection \<open>Coordinates\<close>

definition map_to_world :: "costmap \<Rightarrow> nat \<Rightarrow> nat \<Rightarrow> real \<times> real" where
  "map_to_world m mx my = (cm_origin_x m + (real mx + 1 / 2) * cm_resolution m,
     cm_origin_y m + (real my + 1 / 2) * cm_resolution m)"

definition to_cell :: "costmap \<Rightarrow> real \<Rightarrow> int option" where
  "to_cell m d = do { q \<leftarrow> quotient d (cm_resolution m); to_int q }"

text \<open>The result is \<open>None\<close> where the code returns \<open>false\<close>.\<close>

definition world_to_map :: "costmap \<Rightarrow> real \<Rightarrow> real \<Rightarrow> (nat \<times> nat) option option" where
  "world_to_map m wx wy =
     (if wx < cm_origin_x m \<or> wy < cm_origin_y m then Some None
      else do {
        cx \<leftarrow> to_cell m (wx - cm_origin_x m);
        cy \<leftarrow> to_cell m (wy - cm_origin_y m);
        let mx = to_unsigned cx;
        let my = to_unsigned cy;
        Some (if mx < cm_size_x m \<and> my < cm_size_y m then Some (mx, my) else None) })"

definition world_to_map_no_boundary :: "costmap \<Rightarrow> real \<Rightarrow> real \<Rightarrow> (int \<times> int) option" where
  "world_to_map_no_boundary m wx wy = do {
     cx \<leftarrow> to_cell m (wx - cm_origin_x m);
     cy \<leftarrow> to_cell m (wy - cm_origin_y m);
     Some (cx, cy) }"

text \<open>One coordinate of \<open>World2MapWithBoundary\<close>; \<open>size - 1\<close> is computed without a sign.\<close>

definition bounded_cell :: "costmap \<Rightarrow> real \<Rightarrow> nat \<Rightarrow> real \<Rightarrow> int option" where
  "bounded_cell m origin cells w =
     (if w < origin then Some 0
      else if w > cm_resolution m * real cells + origin then Some (int (sub32 cells 1))
      else to_cell m (w - origin))"

definition world_to_map_with_boundary :: "costmap \<Rightarrow> real \<Rightarrow> real \<Rightarrow> (int \<times> int) option" where
  "world_to_map_with_boundary m wx wy = do {
     cx \<leftarrow> bounded_cell m (cm_origin_x m) (cm_size_x m) wx;
     cy \<leftarrow> bounded_cell m (cm_origin_y m) (cm_size_y m) wy;
     Some (cx, cy) }"

definition world_to_cell :: "costmap \<Rightarrow> real \<Rightarrow> nat option" where
  "world_to_cell m d = do {
     q \<leftarrow> quotient d (cm_resolution m);
     let c = max 0 \<lceil>q\<rceil>;
     if c < 2 ^ 32 then Some (nat c) else None }"

definition size_x_world :: "costmap \<Rightarrow> real" where
  "size_x_world m = (real (sub32 (cm_size_x m) 1) + 1 / 2) * cm_resolution m"

definition size_y_world :: "costmap \<Rightarrow> real" where
  "size_y_world m = (real (sub32 (cm_size_y m) 1) + 1 / 2) * cm_resolution m"

subsection \<open>Copying\<close>

text \<open>The old array is gone before the corners are checked.\<close>

definition copy_window :: "(nat \<Rightarrow> u8) \<Rightarrow> costmap \<Rightarrow> real \<Rightarrow> real \<Rightarrow> real \<Rightarrow> real \<Rightarrow> costmap \<Rightarrow> (bool \<times> costmap) option" where
  "copy_window raw src ox oy sx sy m = do {
     let m1 = delete_maps m;
     ll \<leftarrow> world_to_map src ox oy;
     case ll of None \<Rightarrow> Some (False, m1) | Some (llx, lly) \<Rightarrow> do {
       ur \<leftarrow> world_to_map src (ox + sx) (oy + sy);
       case ur of None \<Rightarrow> Some (False, m1) | Some (urx, ury) \<Rightarrow> do {
         let w = sub32 urx llx;
         let h = sub32 ury lly;
         let m2 = init_maps raw w h (m1\<lparr>cm_size_x := w, cm_size_y := h, cm_resolution := cm_resolution src,
               cm_origin_x := ox, cm_origin_y := oy\<rparr>);
         from_cells \<leftarrow> cm_cells src;
         to_cells \<leftarrow> cm_cells m2;
         cells \<leftarrow> copy_map_region from_cells to_cells (cm_size_x src) w llx lly 0 0 w h;
         Some (True, m2\<lparr>cm_cells := Some cells\<rparr>) } } }"

text \<open>The assignment operator leaves the default value of the target as it is.\<close>

definition assign_map :: "(nat \<Rightarrow> u8) \<Rightarrow> costmap \<Rightarrow> costmap \<Rightarrow> costmap option" where
  "assign_map raw src m = do {
     let m1 = init_maps raw (cm_size_x src) (cm_size_y src)
       (m\<lparr>cm_size_x := cm_size_x src, cm_size_y := cm_size_y src, cm_resolution := cm_resolution src,
          cm_origin_x := cm_origin_x src, cm_origin_y := cm_origin_y src\<rparr>);
     cells \<leftarrow> cm_cells src;
     bs \<leftarrow> mem_read cells 0 (cm_cell_count m1);
     write_cells 0 bs m1 }"

text \<open>\<open>UpdateOrigin\<close>: the part of the map that stays visible is saved, the map cleared, and the part
  put back at its new place.\<close>

definition clamp_cell :: "int \<Rightarrow> nat \<Rightarrow> int" where
  "clamp_cell c cells = min (max c 0) (int cells)"

definition update_origin :: "(nat \<Rightarrow> u8) \<Rightarrow> real \<Rightarrow> real \<Rightarrow> costmap \<Rightarrow> costmap option" where
  "update_origin raw nx ny m = do {
     cell_ox \<leftarrow> to_cell m (nx - cm_origin_x m);
     cell_oy \<leftarrow> to_cell m (ny - cm_origin_y m);
     let llx = clamp_cell cell_ox (cm_size_x m);
     let lly = clamp_cell cell_oy (cm_size_y m);
     right \<leftarrow> int_result (cell_ox + int (cm_size_x m));
     top \<leftarrow> int_result (cell_oy + int (cm_size_y m));
     let urx = clamp_cell right (cm_size_x m);
     let ury = clamp_cell top (cm_size_y m);
     let w = to_unsigned (urx - llx);
     let h = to_unsigned (ury - lly);
     let local_map = map raw [0..<wrap32 (w * h)];
     cells \<leftarrow> cm_cells m;
     saved \<leftarrow> copy_map_region cells local_map (cm_size_x m) w (to_unsigned llx) (to_unsigned lly) 0 0 w h;
     m1 \<leftarrow> reset_maps m;
     let m2 = m1\<lparr>cm_origin_x := cm_origin_x m + real_of_int cell_ox * cm_resolution m,
                  cm_origin_y := cm_origin_y m + real_of_int cell_oy * cm_resolution m\<rparr>;
     start_x \<leftarrow> int_result (llx - cell_ox);
     start_y \<leftarrow> int_result (lly - cell_oy);
     cells1 \<leftarrow> cm_cells m2;
     cells2 \<leftarrow> copy_map_region saved cells1 w (cm_size_x m) 0 0 (to_unsigned start_x) (to_unsigned start_y) w h;
     Some (m2\<lparr>cm_cells := Some cells2\<rparr>) }"

subsection \<open>Lines and polygons\<close>

text \<open>\<open>int d = a - b\<close> for unsigned \<open>a\<close> and \<open>b\<close>.\<close>

definition signed_difference :: "nat \<Rightarrow> nat \<Rightarrow> int" where
  "signed_difference a b = (let d = sub32 a b in if d < 2 ^ 31 then int d else int d - 2 ^ 32)"

definition sign_of :: "int \<Rightarrow> int" where
  "sign_of x = (if x > 0 then 1 else -1)"

definition advance :: "nat \<Rightarrow> int \<Rightarrow> nat" where
  "advance offset d = to_unsigned (int offset + d)"

text \<open>\<open>Bresenham\<close>: the offsets the action is applied to, \<open>n\<close> steps and the last one.\<close>

primrec bresenham :: "nat \<Rightarrow> nat \<Rightarrow> int \<Rightarrow> int \<Rightarrow> nat \<Rightarrow> nat \<Rightarrow> nat \<Rightarrow> nat list" where
  "bresenham abs_da abs_db offset_a offset_b 0 err offset = [offset]"
| "bresenham abs_da abs_db offset_a offset_b (Suc n) err offset =
     (let offset' = advance offset offset_a; err' = wrap32 (err + abs_db) in
      offset # (if err' \<ge> abs_da
        then bresenham abs_da abs_db offset_a offset_b n (sub32 err' abs_da) (advance offset' offset_b)
        else bresenham abs_da abs_db offset_a offset_b n err' offset'))"

definition raytrace_line :: "nat \<Rightarrow> nat \<Rightarrow> nat \<Rightarrow> nat \<Rightarrow> nat \<Rightarrow> nat \<Rightarrow> nat list" where
  "raytrace_line size_x x0 y0 x1 y1 max_length =
     (let dx = signed_difference x1 x0; dy = signed_difference y1 y0;
          abs_dx = nat \<bar>dx\<bar>; abs_dy = nat \<bar>dy\<bar>;
          offset_dx = sign_of dx; offset_dy = sign_of dy * int size_x;
          offset = wrap32 (wrap32 (y0 * size_x) + x0);
          dist = sqrt (real_of_int (dx * dx + dy * dy));
          scale = (if dist = 0 then 1 else min 1 (real max_length / dist))
      in if abs_dx \<ge> abs_dy
         then bresenham abs_dx abs_dy offset_dx offset_dy
           (min (nat \<lfloor>scale * real abs_dx\<rfloor>) abs_dx) (abs_dx div 2) offset
         else bresenham abs_dy abs_dx offset_dy offset_dx
           (min (nat \<lfloor>scale * real abs_dy\<rfloor>) abs_dy) (abs_dy div 2) offset)"

definition UINT_MAX :: nat where "UINT_MAX = 2 ^ 32 - 1"

type_synonym location = "nat \<times> nat"

text \<open>The cells of one edge, as \<open>PolygonOutlineCells\<close> collects them.\<close>

definition edge_cells :: "costmap \<Rightarrow> location \<Rightarrow> location \<Rightarrow> location list option" where
  "edge_cells m a b = those (map (index_to_cells m)
     (raytrace_line (cm_size_x m) (fst a) (snd a) (fst b) (snd b) UINT_MAX))"

fun open_edges :: "costmap \<Rightarrow> location list \<Rightarrow> location list option" where
  "open_edges m (a # b # ps) = do {
     xs \<leftarrow> edge_cells m a b;
     ys \<leftarrow> open_edges m (b # ps);
     Some (xs @ ys) }"
| "open_edges m [a] = Some []"
| "open_edges m [] = None"

text \<open>For an empty polygon \<open>polygon.size() - 1\<close> wraps around and the first access is out of range.\<close>

definition get_convex_edge :: "costmap \<Rightarrow> location list \<Rightarrow> location list option" where
  "get_convex_edge m polygon = do {
     xs \<leftarrow> open_edges m polygon;
     ys \<leftarrow> edge_cells m (last polygon) (hd polygon);
     Some (xs @ ys) }"

text \<open>The loop that sorts the outline by \<open>x\<close>: swap neighbours that are out of order and step back.\<close>

definition swap_next :: "location list \<Rightarrow> nat \<Rightarrow> location list" where
  "swap_next cs i = cs[i := cs ! Suc i, Suc i := cs ! i]"

text \<open>It ends because each swap moves a larger \<open>x\<close> to a larger index.\<close>

definition x_weight :: "location list \<Rightarrow> nat" where
  "x_weight cs = (\<Sum>k < length cs. k * fst (cs ! k))"

definition x_weight_bound :: "location list \<Rightarrow> nat" where
  "x_weight_bound cs = length cs * (\<Sum>k < length cs. fst (cs ! k))"

lemma length_swap_next [simp]: "length (swap_next cs i) = length cs"
  by (simp add: swap_next_def)

lemma sum_swap_next:
  fixes f :: "nat \<Rightarrow> location \<Rightarrow> nat"
  assumes "Suc i < length cs"
  shows "(\<Sum>k < length cs. f k (swap_next cs i ! k)) + f i (cs ! i) + f (Suc i) (cs ! Suc i) =
    (\<Sum>k < length cs. f k (cs ! k)) + f i (cs ! Suc i) + f (Suc i) (cs ! i)"
proof -
  let ?A = "{..<length cs} - {i, Suc i}"
  have fin: "finite ?A" by simp
  have split: "(\<Sum>k < length cs. g k) = g i + g (Suc i) + (\<Sum>k \<in> ?A. g k)" for g :: "nat \<Rightarrow> nat"
  proof -
    have "{..<length cs} = insert i (insert (Suc i) ?A)" using assms by auto
    then have "(\<Sum>k < length cs. g k) = (\<Sum>k \<in> insert i (insert (Suc i) ?A). g k)" by simp
    then show ?thesis by simp
  qed
  have "(\<Sum>k \<in> ?A. f k (swap_next cs i ! k)) = (\<Sum>k \<in> ?A. f k (cs ! k))"
    by (rule sum.cong) (auto simp: swap_next_def nth_list_update)
  then show ?thesis using assms by (simp add: split swap_next_def nth_list_update)
qed

lemma x_weight_le: "x_weight cs \<le> x_weight_bound cs"
  unfolding x_weight_def x_weight_bound_def sum_distrib_left
  by (rule sum_mono) (simp add: mult_le_mono1)

lemma x_weight_swap:
  assumes i: "Suc i < length cs" and gt: "fst (cs ! Suc i) < fst (cs ! i)"
  shows "x_weight cs < x_weight (swap_next cs i)" "x_weight_bound (swap_next cs i) = x_weight_bound cs"
proof -
  show "x_weight cs < x_weight (swap_next cs i)"
    using sum_swap_next [OF i, of "\<lambda>k c. k * fst c"] gt by (simp add: x_weight_def)
  show "x_weight_bound (swap_next cs i) = x_weight_bound cs"
    using sum_swap_next [OF i, of "\<lambda>k c. fst c"] by (simp add: x_weight_bound_def)
qed

function sort_outline :: "location list \<Rightarrow> nat \<Rightarrow> location list" where
  "sort_outline cs i =
     (if Suc i < length cs then
        if fst (cs ! i) > fst (cs ! Suc i) then sort_outline (swap_next cs i) (i - 1)
        else sort_outline cs (Suc i)
      else cs)"
  by pat_completeness auto

termination
proof (relation "measure (\<lambda>(cs, i). 2 * (x_weight_bound cs - x_weight cs) + (length cs - i))", goal_cases)
  case (2 cs i)
  note w = x_weight_swap [OF 2(1,2)] x_weight_le [of cs] x_weight_le [of "swap_next cs i"]
  then have "2 * (x_weight_bound cs - x_weight (swap_next cs i)) + 2 \<le> 2 * (x_weight_bound cs - x_weight cs)"
    by linarith
  then have "2 * (x_weight_bound cs - x_weight (swap_next cs i)) + (length cs - (i - 1))
      < 2 * (x_weight_bound cs - x_weight cs) + (length cs - i)"
    using 2(1) by linarith
  then show ?case by (simp only: in_measure case_prod_conv length_swap_next w(2))
qed auto

text \<open>The cells of column \<open>x\<close> from index \<open>i\<close> on widen the span from the lowest to the highest.\<close>

function column_span :: "location list \<Rightarrow> nat \<Rightarrow> nat \<Rightarrow> location \<Rightarrow> location \<Rightarrow> nat \<times> location \<times> location" where
  "column_span cs x i lo hi =
     (if i < length cs \<and> fst (cs ! i) = x then
        if snd (cs ! i) < snd lo then column_span cs x (Suc i) (cs ! i) hi
        else if snd (cs ! i) > snd hi then column_span cs x (Suc i) lo (cs ! i)
        else column_span cs x (Suc i) lo hi
      else (i, lo, hi))"
  by pat_completeness auto

termination by (relation "measure (\<lambda>(cs, x, i, lo, hi). length cs - i)") auto

text \<open>The columns \<open>xs\<close> are filled one by one; the cells found are appended to the list that is read.\<close>

fun fill_columns :: "nat list \<Rightarrow> nat \<Rightarrow> location list \<Rightarrow> location list" where
  "fill_columns [] i cs = cs"
| "fill_columns (x # xs) i cs =
     (if i \<ge> length cs - 1 then cs
      else let (lo, hi) = (if snd (cs ! i) < snd (cs ! Suc i) then (cs ! i, cs ! Suc i) else (cs ! Suc i, cs ! i));
               (i', lo', hi') = column_span cs x (i + 2) lo hi
           in fill_columns xs i' (cs @ map (\<lambda>y. (x, y)) [snd lo'..<snd hi']))"

definition fill_convex_cells :: "costmap \<Rightarrow> location list \<Rightarrow> location list option" where
  "fill_convex_cells m polygon =
     (if length polygon < 3 then Some []
      else do {
        edge \<leftarrow> get_convex_edge m polygon;
        let cs = sort_outline edge 0;
        Some (fill_columns [fst (cs ! 0)..<Suc (fst (cs ! (length cs - 1)))] 0 cs) })"

primrec mark_cells :: "location list \<Rightarrow> u8 \<Rightarrow> costmap \<Rightarrow> costmap option" where
  "mark_cells [] v m = Some m"
| "mark_cells (c # cs) v m = do { m' \<leftarrow> set_cost (fst c) (snd c) v m; mark_cells cs v m' }"

primrec map_polygon :: "costmap \<Rightarrow> (real \<times> real) list \<Rightarrow> location list option option" where
  "map_polygon m [] = Some (Some [])"
| "map_polygon m (p # ps) = do {
     r \<leftarrow> world_to_map m (fst p) (snd p);
     case r of None \<Rightarrow> Some None
     | Some l \<Rightarrow> do { rs \<leftarrow> map_polygon m ps; Some (map_option ((#) l) rs) } }"

definition set_convex_region_cost :: "(real \<times> real) list \<Rightarrow> u8 \<Rightarrow> costmap \<Rightarrow> (bool \<times> costmap) option" where
  "set_convex_region_cost polygon v m = do {
     r \<leftarrow> map_polygon m polygon;
     case r of None \<Rightarrow> Some (False, m)
     | Some locations \<Rightarrow> do {
         cells \<leftarrow> fill_convex_cells m locations;
         m' \<leftarrow> mark_cells cells v m;
         Some (True, m') } }"

subsection \<open>Reading and writing cells\<close>

definition map_ok :: "costmap \<Rightarrow> bool" where
  "map_ok m \<longleftrightarrow> 0 < cm_resolution m \<and> cm_size_x m * cm_size_y m < 2 ^ 31 \<and>
     (\<exists>cells. cm_cells m = Some cells \<and> length cells = cm_size_x m * cm_size_y m)"

definition in_map :: "costmap \<Rightarrow> nat \<Rightarrow> nat \<Rightarrow> bool" where
  "in_map m x y \<longleftrightarrow> x < cm_size_x m \<and> y < cm_size_y m"

lemma grid_index_less: "x < (w :: nat) \<Longrightarrow> y < h \<Longrightarrow> y * w + x < w * h"
proof -
  assume "x < w" "y < h"
  then have "y * w + x < Suc y * w" by simp
  also have "\<dots> \<le> h * w" using \<open>y < h\<close> by (intro mult_le_mono1) simp
  finally show ?thesis by (simp add: mult.commute)
qed

lemma get_index_in_map:
  assumes "map_ok m" "in_map m x y"
  shows "get_index m x y = y * cm_size_x m + x" "get_index m x y < cm_size_x m * cm_size_y m"
proof -
  have "y * cm_size_x m + x < cm_size_x m * cm_size_y m" using assms grid_index_less by (simp add: in_map_def)
  moreover have "cm_size_x m * cm_size_y m < 2 ^ 32" using assms(1) by (simp add: map_ok_def)
  ultimately show "get_index m x y = y * cm_size_x m + x" "get_index m x y < cm_size_x m * cm_size_y m"
    by (simp_all add: get_index_def)
qed

lemma get_index_inj:
  assumes "map_ok m" "in_map m x y" "in_map m x' y'" "get_index m x y = get_index m x' y'"
  shows "x = x' \<and> y = y'"
proof -
  have eq: "y * cm_size_x m + x = y' * cm_size_x m + x'" using assms get_index_in_map by simp
  have lt: "x < cm_size_x m" "x' < cm_size_x m" using assms by (simp_all add: in_map_def)
  have "y = (y * cm_size_x m + x) div cm_size_x m" using lt by simp
  also have "\<dots> = y'" using lt by (simp add: eq)
  finally show ?thesis using eq by simp
qed

lemma index_to_cells_get_index:
  assumes "map_ok m" "in_map m x y"
  shows "index_to_cells m (get_index m x y) = Some (x, y)"
  using get_index_in_map [OF assms] assms(2) by (simp add: index_to_cells_def in_map_def Let_def)

text \<open>The cost of a cell as a function of its coordinates.\<close>

definition cost_at :: "costmap \<Rightarrow> nat \<Rightarrow> nat \<Rightarrow> u8" where
  "cost_at m x y = the (cm_cells m) ! (y * cm_size_x m + x)"

lemma get_cost_ok: "map_ok m \<Longrightarrow> in_map m x y \<Longrightarrow> get_cost m x y = Some (cost_at m x y)"
  using get_index_in_map [of m x y] by (auto simp: get_cost_def cost_at_def map_ok_def)

lemma set_cost_ok:
  assumes "map_ok m" "in_map m x y"
  obtains m' where "set_cost x y v m = Some m'" "map_ok m'" "cm_size_x m' = cm_size_x m" "cm_size_y m' = cm_size_y m"
    "\<And>x' y'. in_map m x' y' \<Longrightarrow> cost_at m' x' y' = (if x' = x \<and> y' = y then v else cost_at m x' y')"
    "m' = m\<lparr>cm_cells := cm_cells m'\<rparr>"
proof -
  obtain cells where cells: "cm_cells m = Some cells" "length cells = cm_size_x m * cm_size_y m"
    using assms(1) by (auto simp: map_ok_def)
  note idx = get_index_in_map [OF assms]
  let ?m = "m\<lparr>cm_cells := Some (cells[get_index m x y := v])\<rparr>"
  have "set_cost x y v m = Some ?m" using cells idx by (simp add: set_cost_def)
  moreover have "cost_at ?m x' y' = (if x' = x \<and> y' = y then v else cost_at m x' y')" if "in_map m x' y'" for x' y'
    using get_index_in_map [OF assms(1) that] get_index_inj [OF assms(1) that assms(2)] idx cells
    by (auto simp: cost_at_def nth_list_update)
  moreover have "map_ok ?m" using assms(1) cells by (simp add: map_ok_def)
  ultimately show ?thesis using that [of ?m] by simp
qed

subsection \<open>World coordinates\<close>

lemma to_int_nonneg: "0 \<le> q \<Longrightarrow> to_int q = (if q < 2 ^ 31 then Some \<lfloor>q\<rfloor> else None)"
  by (simp add: to_int_def trunc_real_def)

lemma to_cell_iff:
  assumes "0 < cm_resolution m" "0 \<le> d" "c < 2 ^ 31"
  shows "to_cell m d = Some (int c) \<longleftrightarrow> real c * cm_resolution m \<le> d \<and> d < (real c + 1) * cm_resolution m"
proof -
  let ?q = "d / cm_resolution m"
  have q: "0 \<le> ?q" using assms by simp
  have "to_cell m d = Some (int c) \<longleftrightarrow> ?q < 2 ^ 31 \<and> \<lfloor>?q\<rfloor> = int c"
    using assms(1) to_int_nonneg [OF q] by (simp add: to_cell_def quotient_def)
  also have "\<dots> \<longleftrightarrow> \<lfloor>?q\<rfloor> = int c"
  proof -
    have "?q < 2 ^ 31" if "\<lfloor>?q\<rfloor> = int c"
    proof -
      have "?q < real c + 1" using that floor_correct [of ?q] by linarith
      then show ?thesis using assms(3) by simp
    qed
    then show ?thesis by blast
  qed
  also have "\<dots> \<longleftrightarrow> real c \<le> ?q \<and> ?q < real c + 1"
    by (simp add: floor_eq_iff)
  also have "\<dots> \<longleftrightarrow> real c * cm_resolution m \<le> d \<and> d < (real c + 1) * cm_resolution m"
    using assms(1) by (simp add: pos_le_divide_eq pos_divide_less_eq)
  finally show ?thesis .
qed

lemma to_cell_nonneg:
  assumes "0 < cm_resolution m" "0 \<le> d" "to_cell m d = Some c"
  shows "c = int (to_unsigned c)" "to_unsigned c < 2 ^ 31"
proof -
  have q: "0 \<le> d / cm_resolution m" using assms by simp
  then have "d / cm_resolution m < 2 ^ 31" "c = \<lfloor>d / cm_resolution m\<rfloor>"
    using assms(1,3) to_int_nonneg [OF q] by (simp_all add: to_cell_def quotient_def split: if_splits)
  then have "0 \<le> c \<and> c < 2 ^ 31" using q by (simp only: floor_less_iff zero_le_floor) simp
  then show "c = int (to_unsigned c)" "to_unsigned c < 2 ^ 31"
    by (simp_all add: to_unsigned_def nat_less_iff)
qed

lemma in_map_small: "map_ok m \<Longrightarrow> in_map m x y \<Longrightarrow> cm_size_x m < 2 ^ 31 \<and> cm_size_y m < 2 ^ 31"
proof -
  assume ok: "map_ok m" and inside: "in_map m x y"
  have "cm_size_x m * 1 \<le> cm_size_x m * cm_size_y m" "1 * cm_size_y m \<le> cm_size_x m * cm_size_y m"
    using inside by (intro mult_le_mono; simp add: in_map_def)+
  then show ?thesis using ok unfolding map_ok_def by linarith
qed

lemma world_to_map_cases:
  assumes "world_to_map m wx wy = Some (Some (x, y))"
  obtains cx cy where "0 \<le> wx - cm_origin_x m" "0 \<le> wy - cm_origin_y m"
    "to_cell m (wx - cm_origin_x m) = Some cx" "to_cell m (wy - cm_origin_y m) = Some cy"
    "in_map m x y" "to_unsigned cx = x" "to_unsigned cy = y"
proof -
  have ge: "\<not> (wx < cm_origin_x m \<or> wy < cm_origin_y m)"
    using assms by (simp add: world_to_map_def split: if_splits)
  note r = assms [unfolded world_to_map_def if_not_P [OF ge]]
  obtain cx cy where "to_cell m (wx - cm_origin_x m) = Some cx" "to_cell m (wy - cm_origin_y m) = Some cy"
    "(if to_unsigned cx < cm_size_x m \<and> to_unsigned cy < cm_size_y m
      then Some (to_unsigned cx, to_unsigned cy) else None) = Some (x, y)"
    using r by (auto simp: bind_eq_Some_conv Let_def)
  then show ?thesis using ge that [of cx cy] by (simp add: in_map_def split: if_splits)
qed

lemma world_to_map_iff:
  assumes "map_ok m"
  shows "world_to_map m wx wy = Some (Some (x, y)) \<longleftrightarrow> in_map m x y
    \<and> cm_origin_x m + real x * cm_resolution m \<le> wx \<and> wx < cm_origin_x m + (real x + 1) * cm_resolution m
    \<and> cm_origin_y m + real y * cm_resolution m \<le> wy \<and> wy < cm_origin_y m + (real y + 1) * cm_resolution m"
proof
  have res: "0 < cm_resolution m" using assms by (simp add: map_ok_def)
  note cell = to_cell_iff [OF res]
  {
    assume r: "world_to_map m wx wy = Some (Some (x, y))"
    then obtain cx cy where ge: "0 \<le> wx - cm_origin_x m" "0 \<le> wy - cm_origin_y m"
      and c: "to_cell m (wx - cm_origin_x m) = Some cx" "to_cell m (wy - cm_origin_y m) = Some cy"
      and xy: "in_map m x y" "to_unsigned cx = x" "to_unsigned cy = y"
      by (rule world_to_map_cases)
    have "cx = int x" "x < 2 ^ 31"
      using to_cell_nonneg [OF res ge(1) c(1)] xy by simp_all
    moreover have "cy = int y" "y < 2 ^ 31"
      using to_cell_nonneg [OF res ge(2) c(2)] xy by simp_all
    ultimately have "real x * cm_resolution m \<le> wx - cm_origin_x m \<and> wx - cm_origin_x m < (real x + 1) * cm_resolution m"
      and "real y * cm_resolution m \<le> wy - cm_origin_y m \<and> wy - cm_origin_y m < (real y + 1) * cm_resolution m"
      using c cell [OF ge(1), of x] cell [OF ge(2), of y] by blast+
    then show "in_map m x y
      \<and> cm_origin_x m + real x * cm_resolution m \<le> wx \<and> wx < cm_origin_x m + (real x + 1) * cm_resolution m
      \<and> cm_origin_y m + real y * cm_resolution m \<le> wy \<and> wy < cm_origin_y m + (real y + 1) * cm_resolution m"
      using xy(1) by (intro conjI) linarith+
  }
  {
    assume h: "in_map m x y
      \<and> cm_origin_x m + real x * cm_resolution m \<le> wx \<and> wx < cm_origin_x m + (real x + 1) * cm_resolution m
      \<and> cm_origin_y m + real y * cm_resolution m \<le> wy \<and> wy < cm_origin_y m + (real y + 1) * cm_resolution m"
    then have small: "x < 2 ^ 31" "y < 2 ^ 31" using in_map_small [OF assms] by (force simp: in_map_def)+
    have "0 \<le> real x * cm_resolution m" "0 \<le> real y * cm_resolution m" using res by simp_all
    then have ge: "0 \<le> wx - cm_origin_x m" "0 \<le> wy - cm_origin_y m" using h by linarith+
    have "to_cell m (wx - cm_origin_x m) = Some (int x)" "to_cell m (wy - cm_origin_y m) = Some (int y)"
      using h cell [OF ge(1) small(1)] cell [OF ge(2) small(2)] by linarith+
    moreover have "to_unsigned (int x) = x" "to_unsigned (int y) = y"
      using small by (simp_all add: to_unsigned_def)
    ultimately show "world_to_map m wx wy = Some (Some (x, y))"
      using h ge by (simp add: world_to_map_def in_map_def)
  }
qed

text \<open>C21. World2Map succeeds exactly for the points inside the map, and the cell it returns is the one whose square contains the point.\<close>

theorem world_to_map_correct:
  assumes "map_ok m"
  shows "world_to_map m wx wy = Some (Some (x, y)) \<longleftrightarrow> in_map m x y
    \<and> cm_origin_x m + real x * cm_resolution m \<le> wx \<and> wx < cm_origin_x m + (real x + 1) * cm_resolution m
    \<and> cm_origin_y m + real y * cm_resolution m \<le> wy \<and> wy < cm_origin_y m + (real y + 1) * cm_resolution m"
  using assms by (rule world_to_map_iff)

definition small_map :: costmap where
  "small_map = \<lparr>cm_size_x = 3, cm_size_y = 2, cm_resolution = 1 / 2, cm_origin_x = -1, cm_origin_y = 0,
     cm_cells = Some [1, 2, 3, 4, 5, 6], cm_default = 255\<rparr>"

lemma small_map_ok: "map_ok small_map"
  by (simp add: map_ok_def small_map_def)

theorem world_to_map_correct_witness: "world_to_map small_map 0 (3 / 4) = Some (Some (2, 1))"
  using world_to_map_correct [OF small_map_ok, of 0 "3 / 4" 2 1]
  by (simp add: small_map_def in_map_def)

subsection \<open>Moving the window\<close>

lemma copy_rows_region:
  fixes sw dw w n sx sy dx dy :: nat
  assumes "sx + w \<le> sw" "dx + w \<le> dw" "(sy + n) * sw \<le> length src" "(dy + n) * dw \<le> length dst"
  shows "\<exists>dst'. copy_rows src (sy * sw + sx) sw (dy * dw + dx) dw w n dst = Some dst' \<and> length dst' = length dst \<and>
    (\<forall>x y. x < dw \<and> y * dw + x < length dst \<longrightarrow> dst' ! (y * dw + x) =
       (if dx \<le> x \<and> x < dx + w \<and> dy \<le> y \<and> y < dy + n
        then src ! ((sy + y - dy) * sw + (sx + x - dx)) else dst ! (y * dw + x)))"
  using assms
proof (induction n arbitrary: sy dy dst)
  case 0
  then show ?case by (auto simp: not_less)
next
  case (Suc n)
  have src_fits: "sy * sw + sx + w \<le> length src"
  proof -
    have "sy * sw + sx + w \<le> Suc sy * sw" using Suc.prems(1) by simp
    also have "\<dots> \<le> (sy + Suc n) * sw" by (rule mult_le_mono1) simp
    finally show ?thesis using Suc.prems(3) by linarith
  qed
  have dst_fits: "dy * dw + dx + w \<le> length dst"
  proof -
    have "dy * dw + dx + w \<le> Suc dy * dw" using Suc.prems(2) by simp
    also have "\<dots> \<le> (dy + Suc n) * dw" by (rule mult_le_mono1) simp
    finally show ?thesis using Suc.prems(4) by linarith
  qed
  let ?row = "slice src (sy * sw + sx) w"
  let ?d1 = "if w = 0 then dst else splice dst (dy * dw + dx) ?row"
  have step: "copy_cells src (sy * sw + sx) (dy * dw + dx) w dst = Some ?d1"
    using src_fits dst_fits by (simp add: copy_cells_def mem_read_def mem_write_def)
  have len: "length ?d1 = length dst" using src_fits dst_fits by simp
  have row: "?d1 ! (y * dw + x) = (if dx \<le> x \<and> x < dx + w \<and> y = dy
      then src ! (sy * sw + (sx + x - dx)) else dst ! (y * dw + x))"
    if "x < dw" "y * dw + x < length dst" for x y
  proof (cases "w = 0")
    case False
    have at: "dy * dw + dx \<le> y * dw + x \<and> y * dw + x < dy * dw + dx + w \<longleftrightarrow> dx \<le> x \<and> x < dx + w \<and> y = dy"
    proof (cases "y = dy")
      case True then show ?thesis by auto
    next
      case False
      then consider "Suc y \<le> dy" | "Suc dy \<le> y" by linarith
      then show ?thesis
      proof cases
        case 1
        then have "Suc y * dw \<le> dy * dw" by (rule mult_le_mono1)
        then show ?thesis using that \<open>y \<noteq> dy\<close> by simp
      next
        case 2
        then have "Suc dy * dw \<le> y * dw" by (rule mult_le_mono1)
        then show ?thesis using Suc.prems(2) \<open>y \<noteq> dy\<close> by simp
      qed
    qed
    have "splice dst (dy * dw + dx) ?row ! (y * dw + x) =
        (if dx \<le> x \<and> x < dx + w \<and> y = dy then ?row ! (y * dw + x - (dy * dw + dx)) else dst ! (y * dw + x))"
      using src_fits dst_fits that at by (auto simp: nth_splice)
    then show ?thesis using False src_fits by (auto simp: nth_slice ac_simps)
  qed auto
  have next_ptr: "sy * sw + sx + sw = Suc sy * sw + sx" "dy * dw + dx + dw = Suc dy * dw + dx" by simp_all
  obtain d2 where d2: "copy_rows src (Suc sy * sw + sx) sw (Suc dy * dw + dx) dw w n ?d1 = Some d2"
    "length d2 = length dst"
    "\<And>x y. x < dw \<Longrightarrow> y * dw + x < length dst \<Longrightarrow> d2 ! (y * dw + x) =
       (if dx \<le> x \<and> x < dx + w \<and> Suc dy \<le> y \<and> y < Suc dy + n
        then src ! ((Suc sy + y - Suc dy) * sw + (sx + x - dx)) else ?d1 ! (y * dw + x))"
    using Suc.IH [of "Suc sy" "Suc dy" ?d1] Suc.prems len by auto
  have "copy_rows src (sy * sw + sx) sw (dy * dw + dx) dw w (Suc n) dst = Some d2"
    using d2(1) step next_ptr by (simp only: copy_rows.simps bind.bind_lunit)
  moreover have "d2 ! (y * dw + x) =
       (if dx \<le> x \<and> x < dx + w \<and> dy \<le> y \<and> y < dy + Suc n
        then src ! ((sy + y - dy) * sw + (sx + x - dx)) else dst ! (y * dw + x))"
    if "x < dw" "y * dw + x < length dst" for x y
    using d2(3) [OF that] row [OF that] by (auto simp: not_le less_Suc_eq_le)
  ultimately show ?case using d2(2) by blast
qed

lemma copy_rows_empty: "w = 0 \<or> n = 0 \<Longrightarrow> copy_rows src sp sw dp dw w n dst = Some dst"
  by (induction n arbitrary: sp dp) (auto simp: copy_cells_def)

lemma reset_maps_ok:
  assumes "map_ok m"
  shows "reset_maps m = Some (m\<lparr>cm_cells := Some (replicate (cm_size_x m * cm_size_y m) (cm_default m))\<rparr>)"
  using assms by (auto simp: reset_maps_def write_cells_def cm_cell_count_def map_ok_def mem_write_def splice_def)

text \<open>The cells of the old window that the new one still shows, in one dimension.\<close>

lemma visible_part:
  fixes c :: int and s :: nat
  defines "l \<equiv> clamp_cell c s" and "u \<equiv> clamp_cell (c + int s) s"
  shows "0 \<le> l" "l \<le> u" "u \<le> int s"
    and "l < u \<Longrightarrow> 0 \<le> l - c" "l < u \<Longrightarrow> l - c + (u - l) \<le> int s"
    and "0 \<le> x \<Longrightarrow> x < int s \<Longrightarrow> l < u \<and> l - c \<le> x \<and> x < l - c + (u - l) \<longleftrightarrow> 0 \<le> x + c \<and> x + c < int s"
  by (auto simp: l_def u_def clamp_cell_def)

lemma to_unsigned_small: "0 \<le> i \<Longrightarrow> i < 2 ^ 32 \<Longrightarrow> to_unsigned i = nat i"
  by (simp add: to_unsigned_def)

lemma copy_map_region_ok:
  assumes "0 < w" "0 < h" "sx + w \<le> sw" "dx + w \<le> dw" "sw * sh < 2 ^ 31" "dw * dh < 2 ^ 31"
    and "length src = sw * sh" "length dst = dw * dh" "sy + h \<le> sh" "dy + h \<le> dh"
  shows "\<exists>dst'. copy_map_region src dst sw dw sx sy dx dy w h = Some dst' \<and> length dst' = length dst \<and>
    (\<forall>x y. x < dw \<and> y < dh \<longrightarrow> dst' ! (y * dw + x) =
       (if dx \<le> x \<and> x < dx + w \<and> dy \<le> y \<and> y < dy + h
        then src ! ((sy + y - dy) * sw + (sx + x - dx)) else dst ! (y * dw + x)))"
proof -
  have "sy * sw + sx < sw * sh" "dy * dw + dx < dw * dh" using assms by (simp_all add: grid_index_less)
  then have ptr: "wrap32 (sx + wrap32 (sy * sw)) = sy * sw + sx" "wrap32 (dx + wrap32 (dy * dw)) = dy * dw + dx"
    using assms(5,6) by (simp_all add: wrap32_def)
  have "(sy + h) * sw \<le> length src" "(dy + h) * dw \<le> length dst"
    using assms by (simp_all add: mult.commute mult_le_mono)
  then obtain dst' where "copy_rows src (sy * sw + sx) sw (dy * dw + dx) dw w h dst = Some dst'" "length dst' = length dst"
    "\<forall>x y. x < dw \<and> y * dw + x < length dst \<longrightarrow> dst' ! (y * dw + x) =
       (if dx \<le> x \<and> x < dx + w \<and> dy \<le> y \<and> y < dy + h
        then src ! ((sy + y - dy) * sw + (sx + x - dx)) else dst ! (y * dw + x))"
    using copy_rows_region [OF assms(3,4)] by blast
  then show ?thesis using ptr grid_index_less assms(8) by (simp add: copy_map_region_def)
qed

text \<open>What \<open>UpdateOrigin\<close> leaves in the array, as one pass over the two copies.\<close>

lemma move_window_cells:
  fixes cx cy :: int
  assumes len: "length cells = sx * sy" and fits: "sx * sy < 2 ^ 31" "sx < 2 ^ 31" "sy < 2 ^ 31"
  defines "lx \<equiv> clamp_cell cx sx" and "ly \<equiv> clamp_cell cy sy"
  defines "w \<equiv> to_unsigned (clamp_cell (cx + int sx) sx - lx)" and "h \<equiv> to_unsigned (clamp_cell (cy + int sy) sy - ly)"
  shows "\<exists>saved cells'. copy_map_region cells (map raw [0..<wrap32 (w * h)]) sx w (to_unsigned lx) (to_unsigned ly) 0 0 w h = Some saved
    \<and> copy_map_region saved (replicate (sx * sy) d) w sx 0 0 (to_unsigned (lx - cx)) (to_unsigned (ly - cy)) w h = Some cells'
    \<and> length cells' = sx * sy
    \<and> (\<forall>x y. x < sx \<and> y < sy \<longrightarrow> cells' ! (y * sx + x) =
        (if 0 \<le> int x + cx \<and> int x + cx < int sx \<and> 0 \<le> int y + cy \<and> int y + cy < int sy
         then cells ! (nat (int y + cy) * sx + nat (int x + cx)) else d))"
proof -
  define ux uy where "ux = clamp_cell (cx + int sx) sx" and "uy = clamp_cell (cy + int sy) sy"
  note px = visible_part [where c = cx and s = sx, folded lx_def ux_def]
  note py = visible_part [where c = cy and s = sy, folded ly_def uy_def]
  have wh: "w = nat (ux - lx)" "h = nat (uy - ly)"
    using px(1-3) py(1-3) fits by (simp_all add: w_def h_def ux_def [symmetric] uy_def [symmetric] to_unsigned_small)
  have l: "to_unsigned lx = nat lx" "to_unsigned ly = nat ly" using px(1-3) py(1-3) fits by (simp_all add: to_unsigned_small)
  show ?thesis
  proof (cases "w = 0 \<or> h = 0")
    case True
    then have none: "\<not> (lx < ux \<and> ly < uy)" using wh by auto
    have "\<not> (0 \<le> int x + cx \<and> int x + cx < int sx \<and> 0 \<le> int y + cy \<and> int y + cy < int sy)"
      if "x < sx" "y < sy" for x y
      using px(6) [of "int x"] py(6) [of "int y"] none that by auto
    moreover have "(replicate (sx * sy) d) ! (y * sx + x) = d" if "x < sx" "y < sy" for x y
      using grid_index_less [OF that] by simp
    ultimately show ?thesis using True by (auto simp: copy_map_region_def copy_rows_empty)
  next
    case False
    then have lt: "lx < ux" "ly < uy" using wh by auto
    define dx dy where "dx = nat (lx - cx)" and "dy = nat (ly - cy)"
    have d: "to_unsigned (lx - cx) = dx" "to_unsigned (ly - cy) = dy"
      using px(4,5) py(4,5) lt fits by (simp_all add: to_unsigned_small dx_def dy_def)
    have fit_x: "nat lx + w \<le> sx" "dx + w \<le> sx" using px lt by (simp_all add: wh dx_def)
    have fit_y: "nat ly + h \<le> sy" "dy + h \<le> sy" using py lt by (simp_all add: wh dy_def)
    have "w * h \<le> sx * sy" using fit_x fit_y by (intro mult_le_mono) simp_all
    then have small: "w * h < 2 ^ 31" "wrap32 (w * h) = w * h" using fits(1) by (simp_all add: wrap32_def)
    obtain saved where saved: "copy_map_region cells (map raw [0..<wrap32 (w * h)]) sx w (nat lx) (nat ly) 0 0 w h = Some saved"
      "length saved = w * h" "\<And>x y. x < w \<Longrightarrow> y < h \<Longrightarrow> saved ! (y * w + x) = cells ! ((nat ly + y) * sx + (nat lx + x))"
      using copy_map_region_ok [of w h "nat lx" sx 0 w sy h cells "map raw [0..<wrap32 (w * h)]" "nat ly" 0]
        False fit_x fit_y fits small len by auto
    obtain cells' where cells': "copy_map_region saved (replicate (sx * sy) d) w sx 0 0 dx dy w h = Some cells'"
      "length cells' = sx * sy" "\<And>x y. x < sx \<Longrightarrow> y < sy \<Longrightarrow> cells' ! (y * sx + x) =
         (if dx \<le> x \<and> x < dx + w \<and> dy \<le> y \<and> y < dy + h
          then saved ! ((y - dy) * w + (x - dx)) else replicate (sx * sy) d ! (y * sx + x))"
      using copy_map_region_ok [of w h 0 w dx sx h sy saved "replicate (sx * sy) d" 0 dy]
        False fit_x fit_y fits small saved(2) by auto
    have "cells' ! (y * sx + x) =
        (if 0 \<le> int x + cx \<and> int x + cx < int sx \<and> 0 \<le> int y + cy \<and> int y + cy < int sy
         then cells ! (nat (int y + cy) * sx + nat (int x + cx)) else d)" if xy: "x < sx" "y < sy" for x y
    proof -
      have in_x: "dx \<le> x \<and> x < dx + w \<longleftrightarrow> 0 \<le> int x + cx \<and> int x + cx < int sx"
        using px(6) [of "int x"] px(4) lt xy by (auto simp: dx_def wh)
      have in_y: "dy \<le> y \<and> y < dy + h \<longleftrightarrow> 0 \<le> int y + cy \<and> int y + cy < int sy"
        using py(6) [of "int y"] py(4) lt xy by (auto simp: dy_def wh)
      have "nat lx + (x - dx) = nat (int x + cx)" if "dx \<le> x" using that px(1,4) lt by (simp add: dx_def)
      moreover have "nat ly + (y - dy) = nat (int y + cy)" if "dy \<le> y" using that py(1,4) lt by (simp add: dy_def)
      ultimately show ?thesis
        using cells'(3) [OF xy] in_x in_y saved(3) [of "x - dx" "y - dy"] grid_index_less [OF xy] by auto
    qed
    then show ?thesis using saved(1) cells'(1,2) l d by auto
  qed
qed

lemma update_origin_ok:
  assumes ok: "map_ok m" and sizes: "cm_size_x m < 2 ^ 31" "cm_size_y m < 2 ^ 31"
    and cells: "to_cell m (nx - cm_origin_x m) = Some cx" "to_cell m (ny - cm_origin_y m) = Some cy"
    and far: "\<bar>cx\<bar> + int (cm_size_x m) < 2 ^ 31" "\<bar>cy\<bar> + int (cm_size_y m) < 2 ^ 31"
  shows "\<exists>m'. update_origin raw nx ny m = Some m' \<and> map_ok m'
    \<and> cm_size_x m' = cm_size_x m \<and> cm_size_y m' = cm_size_y m \<and> cm_resolution m' = cm_resolution m
    \<and> cm_origin_x m' = cm_origin_x m + real_of_int cx * cm_resolution m
    \<and> cm_origin_y m' = cm_origin_y m + real_of_int cy * cm_resolution m
    \<and> (\<forall>x y. in_map m x y \<longrightarrow> cost_at m' x y =
        (if 0 \<le> int x + cx \<and> int x + cx < int (cm_size_x m) \<and> 0 \<le> int y + cy \<and> int y + cy < int (cm_size_y m)
         then cost_at m (nat (int x + cx)) (nat (int y + cy)) else cm_default m))"
proof -
  obtain old where old: "cm_cells m = Some old" "length old = cm_size_x m * cm_size_y m"
    and small: "cm_size_x m * cm_size_y m < 2 ^ 31" using ok by (auto simp: map_ok_def)
  let ?lx = "clamp_cell cx (cm_size_x m)" and ?ly = "clamp_cell cy (cm_size_y m)"
  have ints: "int_result (cx + int (cm_size_x m)) = Some (cx + int (cm_size_x m))"
    "int_result (cy + int (cm_size_y m)) = Some (cy + int (cm_size_y m))"
    "int_result (?lx - cx) = Some (?lx - cx)" "int_result (?ly - cy) = Some (?ly - cy)"
    using far by (auto simp: int_result_def clamp_cell_def)
  from move_window_cells [OF old(2) small sizes, where cx = cx and cy = cy and raw = raw and d = "cm_default m"] obtain saved new where
    copies: "copy_map_region old (map raw [0..<wrap32 (to_unsigned (clamp_cell (cx + int (cm_size_x m)) (cm_size_x m) - ?lx) *
        to_unsigned (clamp_cell (cy + int (cm_size_y m)) (cm_size_y m) - ?ly))]) (cm_size_x m)
        (to_unsigned (clamp_cell (cx + int (cm_size_x m)) (cm_size_x m) - ?lx)) (to_unsigned ?lx) (to_unsigned ?ly) 0 0
        (to_unsigned (clamp_cell (cx + int (cm_size_x m)) (cm_size_x m) - ?lx))
        (to_unsigned (clamp_cell (cy + int (cm_size_y m)) (cm_size_y m) - ?ly)) = Some saved"
      "copy_map_region saved (replicate (cm_size_x m * cm_size_y m) (cm_default m))
        (to_unsigned (clamp_cell (cx + int (cm_size_x m)) (cm_size_x m) - ?lx)) (cm_size_x m) 0 0
        (to_unsigned (?lx - cx)) (to_unsigned (?ly - cy))
        (to_unsigned (clamp_cell (cx + int (cm_size_x m)) (cm_size_x m) - ?lx))
        (to_unsigned (clamp_cell (cy + int (cm_size_y m)) (cm_size_y m) - ?ly)) = Some new"
    and new: "length new = cm_size_x m * cm_size_y m"
      "\<And>x y. x < cm_size_x m \<Longrightarrow> y < cm_size_y m \<Longrightarrow> new ! (y * cm_size_x m + x) =
        (if 0 \<le> int x + cx \<and> int x + cx < int (cm_size_x m) \<and> 0 \<le> int y + cy \<and> int y + cy < int (cm_size_y m)
         then old ! (nat (int y + cy) * cm_size_x m + nat (int x + cx)) else cm_default m)"
    by blast
  let ?m' = "m\<lparr>cm_cells := Some new, cm_origin_x := cm_origin_x m + real_of_int cx * cm_resolution m,
      cm_origin_y := cm_origin_y m + real_of_int cy * cm_resolution m\<rparr>"
  have "update_origin raw nx ny m = Some ?m'"
    unfolding update_origin_def cells Let_def bind.bind_lunit ints old(1) copies(1) reset_maps_ok [OF ok]
    by (simp add: ints copies(2))
  moreover have "map_ok ?m'" using ok new(1) by (simp add: map_ok_def)
  ultimately show ?thesis using new(2) old(1) by (intro exI [of _ ?m']) (simp add: cost_at_def in_map_def)
qed

text \<open>C22. UpdateOrigin never faults while the shifted coordinates fit an int; every cell that was visible before keeps its cost at its new place, and every other cell has the default cost, whatever the temporary array held.\<close>

theorem update_origin_keeps_visible:
  assumes ok: "map_ok m" and sizes: "cm_size_x m < 2 ^ 31" "cm_size_y m < 2 ^ 31"
    and cells: "to_cell m (nx - cm_origin_x m) = Some cx" "to_cell m (ny - cm_origin_y m) = Some cy"
    and far: "\<bar>cx\<bar> + int (cm_size_x m) < 2 ^ 31" "\<bar>cy\<bar> + int (cm_size_y m) < 2 ^ 31"
  shows "\<exists>m'. update_origin raw nx ny m = Some m' \<and> map_ok m'
    \<and> cm_size_x m' = cm_size_x m \<and> cm_size_y m' = cm_size_y m \<and> cm_resolution m' = cm_resolution m
    \<and> cm_origin_x m' = cm_origin_x m + real_of_int cx * cm_resolution m
    \<and> cm_origin_y m' = cm_origin_y m + real_of_int cy * cm_resolution m
    \<and> (\<forall>x y. in_map m x y \<longrightarrow> cost_at m' x y =
        (if 0 \<le> int x + cx \<and> int x + cx < int (cm_size_x m) \<and> 0 \<le> int y + cy \<and> int y + cy < int (cm_size_y m)
         then cost_at m (nat (int x + cx)) (nat (int y + cy)) else cm_default m))"
  using assms by (rule update_origin_ok)

theorem update_origin_keeps_visible_witness:
  "\<exists>m'. update_origin (\<lambda>_. 9) (- 1 / 2) 0 small_map = Some m' \<and> cost_at m' 1 1 = 6 \<and> cost_at m' 2 1 = 255"
proof -
  have cell: "to_cell small_map (- 1 / 2 - cm_origin_x small_map) = Some 1" "to_cell small_map (0 - cm_origin_y small_map) = Some 0"
    by (simp_all add: to_cell_def quotient_def to_int_def trunc_real_def small_map_def)
  have hyps: "cm_size_x small_map < 2 ^ 31" "cm_size_y small_map < 2 ^ 31"
    "\<bar>1\<bar> + int (cm_size_x small_map) < 2 ^ 31" "\<bar>0\<bar> + int (cm_size_y small_map) < 2 ^ 31"
    by (simp_all add: small_map_def)
  have "in_map small_map 1 1" "in_map small_map 2 1" by (simp_all add: in_map_def small_map_def)
  moreover have "cost_at small_map 2 1 = 6" by (simp add: cost_at_def small_map_def)
  moreover from update_origin_keeps_visible [OF small_map_ok hyps(1,2) cell hyps(3,4), of "\<lambda>_. 9"] obtain m' where
    "update_origin (\<lambda>_. 9) (- 1 / 2) 0 small_map = Some m'"
    "\<forall>x y. in_map small_map x y \<longrightarrow> cost_at m' x y =
        (if 0 \<le> int x + 1 \<and> int x + 1 < int (cm_size_x small_map) \<and> 0 \<le> int y + 0 \<and> int y + 0 < int (cm_size_y small_map)
         then cost_at small_map (nat (int x + 1)) (nat (int y + 0)) else cm_default small_map)"
    by (elim exE conjE) (rule that)
  ultimately show ?thesis by (auto simp: small_map_def)
qed

subsection \<open>Lines\<close>

text \<open>How far the line has moved on its minor axis after \<open>k\<close> steps on the major one.\<close>

definition minor :: "nat \<Rightarrow> nat \<Rightarrow> nat \<Rightarrow> nat" where
  "minor da db k = (da div 2 + k * db) div da"

lemma minor_end: "0 < da \<Longrightarrow> minor da db da = db"
  by (simp add: minor_def)

lemma minor_0 [simp]: "minor da db 0 = 0"
  by (cases "da = 0") (simp_all add: minor_def)

lemma minor_mono: "k \<le> k' \<Longrightarrow> minor da db k \<le> minor da db k'"
  by (simp add: minor_def div_le_mono)

lemma minor_le: "k \<le> da \<Longrightarrow> minor da db k \<le> db"
  using minor_mono [of k da da db] minor_end [of da db] by (cases "da = 0") auto

lemma minor_Suc: "db \<le> da \<Longrightarrow> minor da db (Suc k) \<le> Suc (minor da db k)"
proof (cases "da = 0")
  case False
  assume "db \<le> da"
  then have "minor da db (Suc k) \<le> (da div 2 + k * db + da) div da"
    unfolding minor_def by (intro div_le_mono) simp
  also have "\<dots> = Suc (minor da db k)" using False by (simp add: minor_def)
  finally show ?thesis .
qed (simp add: minor_def)

lemma to_unsigned_add [simp]: "to_unsigned (int (to_unsigned i) + j) = to_unsigned (i + j)"
  by (simp add: to_unsigned_def mod_add_left_eq)

lemma length_bresenham [simp]: "length (bresenham da db oa ob n err off) = Suc n"
  by (induction n arbitrary: err off) (simp_all add: Let_def)

text \<open>The error term is the remainder of the division whose quotient is the minor coordinate.\<close>

lemma bresenham_nth:
  assumes "0 < da" "da < 2 ^ 31" "db \<le> da" "err < da" "k \<le> n" "off = to_unsigned i"
  shows "bresenham da db oa ob n err off ! k = to_unsigned (i + int k * oa + int ((err + k * db) div da) * ob)"
  using assms(4-)
proof (induction n arbitrary: err off k i)
  case 0
  then show ?case using assms(1) by simp
next
  case (Suc n)
  have sum: "err + db < 2 ^ 32" using assms(2,3) Suc.prems(1) by simp
  show ?case
  proof (cases k)
    case 0
    then show ?thesis using Suc.prems by (simp add: Let_def)
  next
    case k: (Suc j)
    show ?thesis
    proof (cases "err + db \<ge> da")
      case True
      have less: "err + db - da < da" using assms(3) Suc.prems(1) True by linarith
      have "sub32 (err + db) da = err + db - da" using True sum by (simp add: sub32_le)
      then have "bresenham da db oa ob (Suc n) err off ! k =
          bresenham da db oa ob n (err + db - da) (to_unsigned (i + oa + ob)) ! j"
        using True sum by (simp add: k Let_def Suc.prems(3) advance_def)
      also have "\<dots> = to_unsigned (i + oa + ob + int j * oa + int ((err + db - da + j * db) div da) * ob)"
        using Suc.IH [OF less, of j "to_unsigned (i + oa + ob)" "i + oa + ob"] Suc.prems(2) k by simp
      moreover have "(err + k * db) div da = Suc ((err + db - da + j * db) div da)"
      proof -
        have "err + k * db = (err + db - da + j * db) + da" using True by (simp add: k)
        then show ?thesis using assms(1) by (simp only: div_add_self2)
      qed
      ultimately show ?thesis by (simp add: k algebra_simps)
    next
      case False
      then have less: "err + db < da" by simp
      have "bresenham da db oa ob (Suc n) err off ! k = bresenham da db oa ob n (err + db) (to_unsigned (i + oa)) ! j"
        using False sum by (simp add: k Let_def Suc.prems(3) advance_def)
      also have "\<dots> = to_unsigned (i + oa + int j * oa + int ((err + db + j * db) div da) * ob)"
        using Suc.IH [OF less, of j "to_unsigned (i + oa)" "i + oa"] Suc.prems(2) k by simp
      finally show ?thesis by (simp add: k algebra_simps)
    qed
  qed
qed

lemma bresenham_minor:
  assumes "0 < da" "da < 2 ^ 31" "db \<le> da" "k \<le> n"
  shows "bresenham da db oa ob n (da div 2) (to_unsigned i) ! k =
    to_unsigned (i + int k * oa + int (minor da db k) * ob)"
  unfolding minor_def using assms by (intro bresenham_nth) simp_all

text \<open>The \<open>k\<close>-th cell of the line from \<open>a\<close> to \<open>b\<close>.\<close>

definition toward :: "nat \<Rightarrow> nat \<Rightarrow> nat \<Rightarrow> nat" where
  "toward a b j = (if a < b then a + j else a - j)"

definition distance :: "nat \<Rightarrow> nat \<Rightarrow> nat" where
  "distance a b = (if a < b then b - a else a - b)"

definition line_length :: "location \<Rightarrow> location \<Rightarrow> nat" where
  "line_length a b = max (distance (fst a) (fst b)) (distance (snd a) (snd b))"

definition line_point :: "location \<Rightarrow> location \<Rightarrow> nat \<Rightarrow> location" where
  "line_point a b k =
     (let dx = distance (fst a) (fst b); dy = distance (snd a) (snd b) in
      if dx \<ge> dy then (toward (fst a) (fst b) k, toward (snd a) (snd b) (minor dx dy k))
      else (toward (fst a) (fst b) (minor dy dx k), toward (snd a) (snd b) k))"

lemma toward_end [simp]: "toward a b (distance a b) = b" and toward_0 [simp]: "toward a b 0 = a"
  by (auto simp: toward_def distance_def)

lemma toward_distance: "j = distance a b \<Longrightarrow> toward a b j = b"
  by simp

lemma toward_between: "j \<le> distance a b \<Longrightarrow> min a b \<le> toward a b j \<and> toward a b j \<le> max a b"
  by (auto simp: toward_def distance_def min_def max_def split: if_splits)

lemma int_toward: "j \<le> distance a b \<Longrightarrow> int (toward a b j) = int a + sign_of (int b - int a) * int j"
  by (auto simp: toward_def distance_def sign_of_def split: if_splits)

lemma line_point_start [simp]: "line_point a b 0 = a"
  by (simp add: line_point_def Let_def)

lemma line_point_end: "line_point a b (line_length a b) = b"
proof -
  have "distance u v = 0 \<Longrightarrow> u = v" for u v by (auto simp: distance_def split: if_splits)
  then show ?thesis
    by (cases "line_length a b = 0")
      (auto simp: line_point_def line_length_def Let_def max_def minor_end prod_eq_iff toward_distance split: if_splits)
qed

lemma line_point_between:
  assumes "k \<le> line_length a b"
  shows "min (fst a) (fst b) \<le> fst (line_point a b k)" "fst (line_point a b k) \<le> max (fst a) (fst b)"
    "min (snd a) (snd b) \<le> snd (line_point a b k)" "snd (line_point a b k) \<le> max (snd a) (snd b)"
  using assms
    toward_between [of k "fst a" "fst b"] toward_between [of k "snd a" "snd b"]
    toward_between [of "minor (distance (fst a) (fst b)) (distance (snd a) (snd b)) k" "snd a" "snd b"]
    toward_between [of "minor (distance (snd a) (snd b)) (distance (fst a) (fst b)) k" "fst a" "fst b"]
    minor_le [of k "distance (fst a) (fst b)" "distance (snd a) (snd b)"]
    minor_le [of k "distance (snd a) (snd b)" "distance (fst a) (fst b)"]
  by (auto simp: line_point_def line_length_def Let_def)

lemma distance_diff: "int (distance a b) = \<bar>int b - int a\<bar>"
  by (simp add: distance_def)

lemma signed_difference_small:
  assumes "a < 2 ^ 31" "b < 2 ^ 31"
  shows "signed_difference a b = int a - int b"
proof (cases "b \<le> a")
  case True
  then show ?thesis using assms sub32_le [of b a] by (simp add: signed_difference_def Let_def)
next
  case False
  then show ?thesis using assms sub32_wraps [of a b] by (simp add: signed_difference_def Let_def)
qed

lemma raytrace_scale:
  fixes n :: nat and dx dy :: int
  assumes "len = sqrt (real_of_int (dx * dx + dy * dy))" "\<bar>dx\<bar> < 2 ^ 31" "\<bar>dy\<bar> < 2 ^ 31"
  shows "(if len = 0 then 1 else min 1 (real UINT_MAX / len)) = 1"
proof -
  have "\<bar>dx\<bar> * \<bar>dx\<bar> \<le> (2 ^ 31 - 1) * (2 ^ 31 - 1)" "\<bar>dy\<bar> * \<bar>dy\<bar> \<le> (2 ^ 31 - 1) * (2 ^ 31 - 1)"
    using assms(2,3) by (intro mult_mono; simp)+
  then have "dx * dx + dy * dy \<le> (2 ^ 32 - 2) ^ 2" by simp
  then have "real_of_int (dx * dx + dy * dy) \<le> real_of_int ((2 ^ 32 - 2) ^ 2)" by (simp only: of_int_le_iff)
  then have "real_of_int (dx * dx + dy * dy) \<le> (2 ^ 32 - 2) ^ 2" by simp
  then have "len \<le> 2 ^ 32 - 2" unfolding assms(1) by (rule real_le_lsqrt [rotated]) simp
  moreover have "0 \<le> len" unfolding assms(1) by (simp add: power2_eq_square)
  ultimately show ?thesis by (simp add: UINT_MAX_def min_def le_divide_eq)
qed

text \<open>The offsets \<open>RaytraceLine\<close> visits are the indices of the points of the line.\<close>

lemma line_point_in_map:
  assumes "in_map m (fst a) (snd a)" "in_map m (fst b) (snd b)" "k \<le> line_length a b"
  shows "in_map m (fst (line_point a b k)) (snd (line_point a b k))"
  using line_point_between [OF assms(3)] assms(1,2) by (auto simp: in_map_def max_def split: if_splits)

lemma raytrace_line_points:
  assumes ok: "map_ok m" and a: "in_map m (fst a) (snd a)" and b: "in_map m (fst b) (snd b)"
  shows "raytrace_line (cm_size_x m) (fst a) (snd a) (fst b) (snd b) UINT_MAX =
    map (\<lambda>k. get_index m (fst (line_point a b k)) (snd (line_point a b k))) [0..<Suc (line_length a b)]"
proof -
  define dx dy where "dx = int (fst b) - int (fst a)" and "dy = int (snd b) - int (snd a)"
  define A B where "A = distance (fst a) (fst b)" and "B = distance (snd a) (snd b)"
  define W where "W = cm_size_x m"
  have sizes: "cm_size_x m < 2 ^ 31" "cm_size_y m < 2 ^ 31" using in_map_small [OF ok a] by simp_all
  have small: "fst a < 2 ^ 31" "fst b < 2 ^ 31" "snd a < 2 ^ 31" "snd b < 2 ^ 31"
    using a b sizes by (auto simp: in_map_def)
  have AB: "nat \<bar>dx\<bar> = A" "nat \<bar>dy\<bar> = B" "A < 2 ^ 31" "B < 2 ^ 31"
    using small by (auto simp: dx_def dy_def A_def B_def distance_def)
  have d: "signed_difference (fst b) (fst a) = dx" "signed_difference (snd b) (snd a) = dy"
    using small by (simp_all add: signed_difference_small dx_def dy_def)
  have scale: "(if sqrt (real_of_int (dx * dx + dy * dy)) = 0 then 1
      else min 1 (real UINT_MAX / sqrt (real_of_int (dx * dx + dy * dy)))) = 1"
    by (rule raytrace_scale [OF refl]) (use small in \<open>auto simp: dx_def dy_def\<close>)
  have start: "wrap32 (wrap32 (snd a * W) + fst a) = to_unsigned (int (snd a * W + fst a))"
    by (simp add: wrap32_def to_unsigned_def mod_add_left_eq nat_mod_distrib flip: of_nat_add of_nat_mult)
  have idx: "get_index m (fst (line_point a b k)) (snd (line_point a b k)) =
      to_unsigned (int (snd (line_point a b k)) * int W + int (fst (line_point a b k)))" if "k \<le> line_length a b" for k
    using get_index_in_map [OF ok line_point_in_map [OF a b that]] ok
    by (simp add: W_def map_ok_def to_unsigned_def nat_mod_distrib flip: of_nat_add of_nat_mult)
  have ray: "raytrace_line W (fst a) (snd a) (fst b) (snd b) UINT_MAX =
     (if A \<ge> B then bresenham A B (sign_of dx) (sign_of dy * int W) A (A div 2) (to_unsigned (int (snd a * W + fst a)))
      else bresenham B A (sign_of dy * int W) (sign_of dx) B (B div 2) (to_unsigned (int (snd a * W + fst a))))"
    unfolding raytrace_line_def d Let_def scale AB start by simp
  show ?thesis
  proof (rule nth_equalityI, goal_cases)
    case 1
    show ?case by (auto simp: ray [unfolded W_def] line_length_def A_def B_def)
  next
    case (2 k)
    then have k: "k \<le> line_length a b"
      by (auto simp: ray [unfolded W_def] line_length_def A_def [symmetric] B_def [symmetric] split: if_splits)
    have pos: "raytrace_line W (fst a) (snd a) (fst b) (snd b) UINT_MAX ! k =
        to_unsigned (int (snd (line_point a b k)) * int W + int (fst (line_point a b k)))"
    proof (cases "A \<ge> B")
      case True
      then have kA: "k \<le> A" using k by (simp add: line_length_def A_def B_def)
      show ?thesis
      proof (cases "A = 0")
        case True
        then show ?thesis using kA \<open>A \<ge> B\<close> by (simp add: ray ac_simps)
      next
        case False
        then show ?thesis
          using bresenham_minor [OF _ AB(3) True kA, of "sign_of dx" "sign_of dy * int W" "int (snd a * W + fst a)"]
            kA True int_toward [of k "fst a" "fst b"] int_toward [of "minor A B k" "snd a" "snd b"] minor_le [OF kA, of B]
          by (simp add: ray line_point_def Let_def A_def [symmetric] B_def [symmetric]
              dx_def dy_def algebra_simps)
      qed
    next
      case False
      then have kB: "k \<le> B" and BA: "A \<le> B" using k by (simp_all add: line_length_def A_def B_def)
      show ?thesis
        using bresenham_minor [OF _ AB(4) BA kB, of "sign_of dy * int W" "sign_of dx" "int (snd a * W + fst a)"]
          kB False int_toward [of k "snd a" "snd b"] int_toward [of "minor B A k" "fst a" "fst b"] minor_le [OF kB, of A]
        by (simp add: ray line_point_def Let_def A_def [symmetric] B_def [symmetric]
            dx_def dy_def algebra_simps)
    qed
    then show ?case using idx [OF k] k by (simp add: W_def del: upt_Suc)
  qed
qed

lemma edge_cells_points:
  assumes ok: "map_ok m" and a: "in_map m (fst a) (snd a)" and b: "in_map m (fst b) (snd b)"
  shows "edge_cells m a b = Some (map (line_point a b) [0..<Suc (line_length a b)])"
proof -
  have "map (\<lambda>k. index_to_cells m (get_index m (fst (line_point a b k)) (snd (line_point a b k)))) [0..<Suc (line_length a b)]
      = map (\<lambda>k. Some (line_point a b k)) [0..<Suc (line_length a b)]"
    by (rule map_cong [OF refl])
      (auto simp: index_to_cells_get_index [OF ok line_point_in_map [OF a b]] less_Suc_eq_le simp del: upt_Suc)
  moreover have those: "those (map (\<lambda>k. Some (f k)) ks) = Some (map f ks)" for f :: "nat \<Rightarrow> location" and ks
    by (induction ks) simp_all
  ultimately show ?thesis
    unfolding edge_cells_def raytrace_line_points [OF assms] map_map comp_def by (simp only: those)
qed

lemma toward_step:
  "j \<le> j' \<Longrightarrow> j' \<le> Suc j \<Longrightarrow> j' \<le> distance a b \<Longrightarrow> distance (toward a b j) (toward a b j') \<le> 1"
  by (auto simp: toward_def distance_def split: if_splits)

lemma line_point_step:
  assumes "Suc k \<le> line_length a b"
  shows "distance (fst (line_point a b k)) (fst (line_point a b (Suc k))) \<le> 1"
    "distance (snd (line_point a b k)) (snd (line_point a b (Suc k))) \<le> 1"
proof -
  let ?A = "distance (fst a) (fst b)" and ?B = "distance (snd a) (snd b)"
  have "distance (fst (line_point a b k)) (fst (line_point a b (Suc k))) \<le> 1
    \<and> distance (snd (line_point a b k)) (snd (line_point a b (Suc k))) \<le> 1"
  proof (cases "?A \<ge> ?B")
    case True
    then have "Suc k \<le> ?A" using assms by (simp add: line_length_def)
    then show ?thesis
      using True toward_step [of k "Suc k" "fst a" "fst b"]
        toward_step [OF minor_mono [of k "Suc k" ?A ?B] minor_Suc [OF True] minor_le]
      by (simp add: line_point_def Let_def)
  next
    case False
    then have "Suc k \<le> ?B" "?A \<le> ?B" using assms by (simp_all add: line_length_def)
    then show ?thesis
      using False toward_step [of k "Suc k" "snd a" "snd b"]
        toward_step [OF minor_mono [of k "Suc k" ?B ?A] minor_Suc minor_le]
      by (simp add: line_point_def Let_def)
  qed
  then show "distance (fst (line_point a b k)) (fst (line_point a b (Suc k))) \<le> 1"
    "distance (snd (line_point a b k)) (snd (line_point a b (Suc k))) \<le> 1" by blast+
qed

text \<open>C23. RaytraceLine between two cells of the map visits a line of neighbouring cells that starts at the first, ends at the second, has as many cells as the larger of the two coordinate differences plus one, and never leaves the map.\<close>

theorem edge_is_connected_line:
  assumes "map_ok m" "in_map m (fst a) (snd a)" "in_map m (fst b) (snd b)"
  shows "\<exists>cells. edge_cells m a b = Some cells \<and> hd cells = a \<and> last cells = b
    \<and> length cells = Suc (line_length a b)
    \<and> (\<forall>k. Suc k < length cells \<longrightarrow> distance (fst (cells ! k)) (fst (cells ! Suc k)) \<le> 1
        \<and> distance (snd (cells ! k)) (snd (cells ! Suc k)) \<le> 1)
    \<and> (\<forall>c \<in> set cells. in_map m (fst c) (snd c))"
proof (intro exI conjI)
  let ?cells = "map (line_point a b) [0..<Suc (line_length a b)]"
  show "edge_cells m a b = Some ?cells" by (rule edge_cells_points [OF assms])
  show "hd ?cells = a" by (simp add: upt_conv_Cons del: upt_Suc)
  show "last ?cells = b" by (simp add: line_point_end)
  show "length ?cells = Suc (line_length a b)" by simp
  show "\<forall>k. Suc k < length ?cells \<longrightarrow> distance (fst (?cells ! k)) (fst (?cells ! Suc k)) \<le> 1
        \<and> distance (snd (?cells ! k)) (snd (?cells ! Suc k)) \<le> 1"
    using line_point_step [of _ a b] by (simp add: less_Suc_eq_le del: upt_Suc)
  show "\<forall>c \<in> set ?cells. in_map m (fst c) (snd c)"
    using line_point_in_map [OF assms(2,3)] by (auto simp: less_Suc_eq_le simp del: upt_Suc)
qed

theorem edge_is_connected_line_witness:
  "\<exists>cells. edge_cells small_map (0, 0) (2, 1) = Some cells \<and> length cells = 3 \<and> hd cells = (0, 0) \<and> last cells = (2, 1)"
proof -
  have "in_map small_map (fst (0, 0)) (snd (0, 0))" "in_map small_map (fst (2, 1)) (snd (2, 1))"
    by (simp_all add: in_map_def small_map_def)
  from edge_is_connected_line [OF small_map_ok this] show ?thesis
    by (auto simp: line_length_def distance_def)
qed

subsection \<open>Polygons\<close>

text \<open>The outline is sorted by column, by exchanges only.\<close>

lemma mset_swap_next: "Suc i < length cs \<Longrightarrow> mset (swap_next cs i) = mset cs"
  unfolding swap_next_def by (rule mset_swap) simp_all

declare sort_outline.simps [simp del] column_span.simps [simp del]

lemma mset_sort_outline [simp]: "mset (sort_outline cs i) = mset cs"
  by (induction cs i rule: sort_outline.induct) (subst sort_outline.simps, simp add: mset_swap_next)

lemma set_sort_outline [simp]: "set (sort_outline cs i) = set cs"
  by (rule mset_eq_setD) simp

lemma length_sort_outline [simp]: "length (sort_outline cs i) = length cs"
  by (rule mset_eq_length) simp

lemma sorted_sort_outline:
  "sorted (map fst (take (Suc i) cs)) \<Longrightarrow> sorted (map fst (sort_outline cs i))"
proof (induction cs i rule: sort_outline.induct)
  case (1 cs i)
  consider "length cs \<le> Suc i" | "Suc i < length cs" "fst (cs ! Suc i) < fst (cs ! i)"
    | "Suc i < length cs" "fst (cs ! i) \<le> fst (cs ! Suc i)" by linarith
  then show ?case
  proof cases
    case 1
    then show ?thesis using "1.prems" by (simp add: sort_outline.simps [of cs i])
  next
    case 2
    have "sorted (map fst (take (Suc (i - 1)) (swap_next cs i)))"
    proof (cases i)
      case 0
      then show ?thesis by (cases "swap_next cs i") simp_all
    next
      case (Suc j)
      then have "take (Suc (i - 1)) (swap_next cs i) = take i cs" by (simp add: swap_next_def)
      moreover have "take i cs = take i (take (Suc i) cs)" by simp
      ultimately show ?thesis using "1.prems" by (metis sorted_wrt_take take_map)
    qed
    then show ?thesis using "1.IH"(1) 2 by (simp add: sort_outline.simps [of cs i])
  next
    case 3
    have "take (Suc (Suc i)) cs = take (Suc i) cs @ [cs ! Suc i]" using 3(1) by (rule take_Suc_conv_app_nth)
    moreover have "\<forall>c \<in> set (take (Suc i) cs). fst c \<le> fst (cs ! i)"
    proof
      have split: "take (Suc i) cs = take i cs @ [cs ! i]" using 3(1) by (simp add: take_Suc_conv_app_nth)
      fix c assume "c \<in> set (take (Suc i) cs)"
      then show "fst c \<le> fst (cs ! i)" using "1.prems" unfolding split by (auto simp: sorted_append)
    qed
    ultimately have "sorted (map fst (take (Suc (Suc i)) cs))"
      using "1.prems" 3(2) by (auto simp: sorted_append intro: order_trans)
    then show ?thesis using "1.IH"(2) 3 by (simp add: sort_outline.simps [of cs i])
  qed
qed

lemma sort_outline_sorted: "sorted (map fst (sort_outline cs 0))"
  by (rule sorted_sort_outline) (cases cs; simp)


text \<open>Filling appends cells of the columns and rows the outline already reaches.\<close>

definition in_box :: "location \<Rightarrow> location \<Rightarrow> location \<Rightarrow> bool" where
  "in_box lo hi p \<longleftrightarrow> fst lo \<le> fst p \<and> fst p \<le> fst hi \<and> snd lo \<le> snd p \<and> snd p \<le> snd hi"

lemma column_span_in:
  "column_span cs x i lo hi = (i', lo', hi') \<Longrightarrow> lo' \<in> insert lo (set cs) \<and> hi' \<in> insert hi (set cs)"
proof (induction cs x i lo hi rule: column_span.induct)
  case (1 cs x i lo hi)
  show ?case
  proof (cases "i < length cs \<and> fst (cs ! i) = x")
    case True
    then have "cs ! i \<in> set cs" by simp
    then show ?thesis using 1 True by (auto simp: column_span.simps [of cs x i] split: if_splits)
  next
    case False
    then show ?thesis using "1.prems" by (simp add: column_span.simps [of cs x i] if_not_P [OF False])
  qed
qed

lemma fill_columns_in_box:
  assumes "\<forall>c \<in> set cs. in_box lo hi c" "\<forall>x \<in> set xs. fst lo \<le> x \<and> x \<le> fst hi"
  shows "set cs \<subseteq> set (fill_columns xs i cs) \<and> (\<forall>c \<in> set (fill_columns xs i cs). in_box lo hi c)"
  using assms
proof (induction xs i cs rule: fill_columns.induct)
  case (2 x xs i cs)
  show ?case
  proof (cases "i \<ge> length cs - 1")
    case True
    then show ?thesis using 2 by simp
  next
    case False
    define l h where "l = (if snd (cs ! i) < snd (cs ! Suc i) then cs ! i else cs ! Suc i)"
      and "h = (if snd (cs ! i) < snd (cs ! Suc i) then cs ! Suc i else cs ! i)"
    have pair: "(if snd (cs ! i) < snd (cs ! Suc i) then (cs ! i, cs ! Suc i) else (cs ! Suc i, cs ! i)) = (l, h)"
      by (simp add: l_def h_def)
    obtain i' l' h' where span: "column_span cs x (i + 2) l h = (i', l', h')" by (cases "column_span cs x (i + 2) l h")
    let ?cs' = "cs @ map (\<lambda>y. (x, y)) [snd l'..<snd h']"
    have "l \<in> set cs" "h \<in> set cs" using False by (auto simp: l_def h_def)
    then have "l' \<in> set cs" "h' \<in> set cs" using column_span_in [OF span] by auto
    then have "\<forall>c \<in> set ?cs'. in_box lo hi c" using 2(2,3) by (fastforce simp: in_box_def)
    then show ?thesis
      using "2.IH" [OF False pair [symmetric] refl span [symmetric] refl refl] 2(3) False pair span by auto
  qed
qed simp

lemma edge_cells_in_box:
  assumes "map_ok m" "in_map m (fst a) (snd a)" "in_map m (fst b) (snd b)" "in_box lo hi a" "in_box lo hi b"
  obtains cs where "edge_cells m a b = Some cs" "a \<in> set cs" "\<forall>c \<in> set cs. in_map m (fst c) (snd c) \<and> in_box lo hi c"
proof (rule that [OF edge_cells_points [OF assms(1-3)]])
  have "line_point a b 0 \<in> set (map (line_point a b) [0..<Suc (line_length a b)])"
    unfolding set_map by (rule imageI) auto
  then show "a \<in> set (map (line_point a b) [0..<Suc (line_length a b)])" by (simp only: line_point_start)
  have "in_map m (fst (line_point a b k)) (snd (line_point a b k)) \<and> in_box lo hi (line_point a b k)"
    if "k \<le> line_length a b" for k
    using line_point_in_map [OF assms(2,3) that] line_point_between [OF that] assms(4,5)
    by (auto simp: in_box_def)
  then show "\<forall>c \<in> set (map (line_point a b) [0..<Suc (line_length a b)]). in_map m (fst c) (snd c) \<and> in_box lo hi c"
    by (simp add: less_Suc_eq_le del: upt_Suc)
qed

lemma open_edges_ok:
  assumes ok: "map_ok m" and pts: "\<forall>p \<in> set ps. in_map m (fst p) (snd p) \<and> in_box lo hi p" "ps \<noteq> []"
  shows "\<exists>cs. open_edges m ps = Some cs \<and> set (butlast ps) \<subseteq> set cs
    \<and> (\<forall>c \<in> set cs. in_map m (fst c) (snd c) \<and> in_box lo hi c)"
  using pts
proof (induction ps rule: induct_list012)
  case (3 a b ps)
  then obtain ys where ys: "open_edges m (b # ps) = Some ys" "set (butlast (b # ps)) \<subseteq> set ys"
    "\<forall>c \<in> set ys. in_map m (fst c) (snd c) \<and> in_box lo hi c" by auto
  obtain xs where xs: "edge_cells m a b = Some xs" "a \<in> set xs" "\<forall>c \<in> set xs. in_map m (fst c) (snd c) \<and> in_box lo hi c"
    using edge_cells_in_box [OF ok, of a b lo hi] "3.prems" by auto
  have "open_edges m (a # b # ps) = Some (xs @ ys)" using xs(1) ys(1) by simp
  moreover have "set (butlast (a # b # ps)) \<subseteq> set (xs @ ys)" using xs(2) ys(2) by auto
  moreover have "\<forall>c \<in> set (xs @ ys). in_map m (fst c) (snd c) \<and> in_box lo hi c" using xs(3) ys(3) by auto
  ultimately show ?case by blast
qed simp_all

lemma get_convex_edge_ok:
  assumes ok: "map_ok m" and pts: "\<forall>p \<in> set ps. in_map m (fst p) (snd p) \<and> in_box lo hi p" "ps \<noteq> []"
  obtains cs where "get_convex_edge m ps = Some cs" "set ps \<subseteq> set cs"
    "\<forall>c \<in> set cs. in_map m (fst c) (snd c) \<and> in_box lo hi c"
proof -
  obtain xs where xs: "open_edges m ps = Some xs" "set (butlast ps) \<subseteq> set xs"
    "\<forall>c \<in> set xs. in_map m (fst c) (snd c) \<and> in_box lo hi c" using open_edges_ok [OF assms] by blast
  have "last ps \<in> set ps" "hd ps \<in> set ps" using pts(2) by simp_all
  then obtain ys where ys: "edge_cells m (last ps) (hd ps) = Some ys" "last ps \<in> set ys"
    "\<forall>c \<in> set ys. in_map m (fst c) (snd c) \<and> in_box lo hi c"
    using edge_cells_in_box [OF ok, of "last ps" "hd ps" lo hi] pts(1) by blast
  have "set ps = insert (last ps) (set (butlast ps))"
    using append_butlast_last_id [OF pts(2)] by (metis insert_is_Un list.set(1,2) set_append sup_commute)
  then have "set ps \<subseteq> set (xs @ ys)" using xs(2) ys(2) by auto
  then show ?thesis using that [of "xs @ ys"] xs ys by (auto simp: get_convex_edge_def)
qed

lemma fill_convex_cells_ok:
  assumes ok: "map_ok m" and pts: "\<forall>p \<in> set ps. in_map m (fst p) (snd p) \<and> in_box lo hi p" "3 \<le> length ps"
    and hi: "in_map m (fst hi) (snd hi)"
  obtains cs where "fill_convex_cells m ps = Some cs" "set ps \<subseteq> set cs"
    "\<forall>c \<in> set cs. in_map m (fst c) (snd c) \<and> in_box lo hi c"
proof -
  have "ps \<noteq> []" using pts(2) by auto
  then obtain edge where edge: "get_convex_edge m ps = Some edge" "set ps \<subseteq> set edge"
    "\<forall>c \<in> set edge. in_map m (fst c) (snd c) \<and> in_box lo hi c"
    using get_convex_edge_ok [OF ok pts(1)] by blast
  let ?s = "sort_outline edge 0"
  have ne: "edge \<noteq> []" using edge(2) \<open>ps \<noteq> []\<close> by auto
  have "?s ! 0 \<in> set ?s" "?s ! (length ?s - 1) \<in> set ?s" using ne by (intro nth_mem; simp)+
  then have "\<forall>x \<in> set [fst (?s ! 0)..<Suc (fst (?s ! (length ?s - 1)))]. fst lo \<le> x \<and> x \<le> fst hi"
    using edge(3) by (auto simp: in_box_def simp del: upt_Suc length_sort_outline)
  moreover have "\<forall>c \<in> set ?s. in_box lo hi c" using edge(3) by simp
  ultimately have filled: "set ?s \<subseteq> set (fill_columns [fst (?s ! 0)..<Suc (fst (?s ! (length ?s - 1)))] 0 ?s)"
    "\<forall>c \<in> set (fill_columns [fst (?s ! 0)..<Suc (fst (?s ! (length ?s - 1)))] 0 ?s). in_box lo hi c"
    using fill_columns_in_box by blast+
  have "in_map m (fst c) (snd c)" if "in_box lo hi c" for c
    using that hi by (auto simp: in_box_def in_map_def)
  moreover have "fill_convex_cells m ps = Some (fill_columns [fst (?s ! 0)..<Suc (fst (?s ! (length ?s - 1)))] 0 ?s)"
    using edge(1) pts(2) by (simp add: fill_convex_cells_def Let_def del: upt_Suc length_sort_outline)
  ultimately show ?thesis using that edge(2) filled by (simp del: upt_Suc)
qed

lemma mark_cells_ok:
  assumes "map_ok m" "\<forall>c \<in> set cs. in_map m (fst c) (snd c)"
  shows "\<exists>m'. mark_cells cs v m = Some m' \<and> map_ok m' \<and> m' = m\<lparr>cm_cells := cm_cells m'\<rparr>
    \<and> (\<forall>x y. in_map m x y \<longrightarrow> cost_at m' x y = (if (x, y) \<in> set cs then v else cost_at m x y))"
  using assms
proof (induction cs arbitrary: m)
  case Nil
  then show ?case by simp
next
  case (Cons c cs)
  obtain m1 where m1: "set_cost (fst c) (snd c) v m = Some m1" "map_ok m1"
    "\<And>x' y'. in_map m x' y' \<Longrightarrow> cost_at m1 x' y' = (if x' = fst c \<and> y' = snd c then v else cost_at m x' y')"
    "m1 = m\<lparr>cm_cells := cm_cells m1\<rparr>"
    by (rule set_cost_ok [OF Cons.prems(1), of "fst c" "snd c" v]) (use Cons.prems(2) that in auto)
  have same: "in_map m1 x y = in_map m x y" for x y by (subst m1(4)) (simp add: in_map_def)
  obtain m2 where m2: "mark_cells cs v m1 = Some m2" "map_ok m2" "m2 = m1\<lparr>cm_cells := cm_cells m2\<rparr>"
    "\<forall>x y. in_map m1 x y \<longrightarrow> cost_at m2 x y = (if (x, y) \<in> set cs then v else cost_at m1 x y)"
    using Cons.IH [OF m1(2)] Cons.prems(2) same by auto
  have "m2 = m\<lparr>cm_cells := cm_cells m2\<rparr>" using m1(4) m2(3) by (metis costmap.update_convs(6) costmap.surjective)
  moreover have "mark_cells (c # cs) v m = Some m2" using m1(1) m2(1) by simp
  moreover have "\<forall>x y. in_map m x y \<longrightarrow> cost_at m2 x y = (if (x, y) \<in> set (c # cs) then v else cost_at m x y)"
    using m1(3) m2(4) same by (auto simp: prod_eq_iff)
  ultimately show ?case using m2(2) by blast
qed

lemma map_polygon_in_map:
  "map_polygon m ps = Some (Some ls) \<Longrightarrow> length ls = length ps \<and> (\<forall>l \<in> set ls. in_map m (fst l) (snd l))"
proof (induction ps arbitrary: ls)
  case (Cons p ps)
  then obtain l rs where l: "world_to_map m (fst p) (snd p) = Some (Some l)" "map_polygon m ps = Some (Some rs)" "ls = l # rs"
    by (auto simp: bind_eq_Some_conv split: option.splits)
  moreover have "in_map m (fst l) (snd l)"
    by (rule world_to_map_cases [of m "fst p" "snd p" "fst l" "snd l"]) (simp_all add: l(1))
  ultimately show ?case using Cons.IH by auto
qed simp

lemma convex_region_ok:
  assumes ok: "map_ok m" and inside: "map_polygon m polygon = Some (Some ls)" and three: "3 \<le> length polygon"
    and box: "\<forall>l \<in> set ls. in_box lo hi l" "in_map m (fst hi) (snd hi)"
  shows "\<exists>m'. set_convex_region_cost polygon v m = Some (True, m') \<and> map_ok m'
    \<and> (\<forall>l \<in> set ls. cost_at m' (fst l) (snd l) = v)
    \<and> (\<forall>x y. in_map m x y \<longrightarrow> cost_at m' x y = cost_at m x y \<or> cost_at m' x y = v \<and> in_box lo hi (x, y))"
proof -
  have ls: "length ls = length polygon" "\<forall>l \<in> set ls. in_map m (fst l) (snd l) \<and> in_box lo hi l"
    using map_polygon_in_map [OF inside] box(1) by auto
  then obtain cs where cs: "fill_convex_cells m ls = Some cs" "set ls \<subseteq> set cs"
    "\<forall>c \<in> set cs. in_map m (fst c) (snd c) \<and> in_box lo hi c"
    using fill_convex_cells_ok [OF ok _ _ box(2), of ls lo] three by auto
  obtain m' where m': "mark_cells cs v m = Some m'" "map_ok m'"
    "\<forall>x y. in_map m x y \<longrightarrow> cost_at m' x y = (if (x, y) \<in> set cs then v else cost_at m x y)"
    using mark_cells_ok [OF ok] cs(3) by blast
  have "set_convex_region_cost polygon v m = Some (True, m')"
    using inside cs(1) m'(1) by (simp add: set_convex_region_cost_def)
  moreover have "\<forall>l \<in> set ls. cost_at m' (fst l) (snd l) = v"
    using m'(3) ls(2) cs(2) by auto
  moreover have "\<forall>x y. in_map m x y \<longrightarrow> cost_at m' x y = cost_at m x y \<or> cost_at m' x y = v \<and> in_box lo hi (x, y)"
    using m'(3) cs(3) by auto
  ultimately show ?thesis using m'(2) by blast
qed



end
