(* ===== verification/ErrorCode.thy ===== *)
theory ErrorCode
  imports Prelude
begin

text \<open>
  The error codes and the result class \<open>ErrorInfo\<close> of \<open>roborts_common/include/state/error_code.h\<close>
  that the planners return.
\<close>

datatype error_code =
    OK | Error
  | CAMERA_ERROR | IMAGE_READ_ERROR | STOP_DETECTION
  | LIDAR_ERROR
  | MAPPING_ERROR
  | MAP_ERROR
  | LOCALIZATION_INIT_ERROR
  | DETECTION_INIT_ERROR
  | DECISION_ERROR
  | GP_INITILIZATION_ERROR | GP_GET_POSE_ERROR | GP_POSE_TRANSFORM_ERROR | GP_GOAL_INVALID_ERROR
  | GP_PATH_SEARCH_ERROR | GP_MOVE_COST_ERROR | GP_MAX_RETRIES_FAILURE | GP_TIME_OUT_ERROR
  | LP_PLANNING_ERROR | LP_INITILIZATION_ERROR | LP_ALGORITHM_INITILIZATION_ERROR
  | LP_ALGORITHM_TRAJECTORY_ERROR | LP_ALGORITHM_GOAL_REACHED | LP_MAX_ERROR_FAILURE
  | LP_PLANTRANSFORM_ERROR | LP_OPTIMAL_ERROR | LP_VELOCITY_ERROR | LP_OSCILLATION_ERROR

fun code_value :: "error_code \<Rightarrow> nat" where
  "code_value OK = 0"
| "code_value Error = 1"
| "code_value CAMERA_ERROR = 10000"
| "code_value IMAGE_READ_ERROR = 10001"
| "code_value STOP_DETECTION = 10002"
| "code_value LIDAR_ERROR = 10100"
| "code_value MAPPING_ERROR = 11000"
| "code_value MAP_ERROR = 12000"
| "code_value LOCALIZATION_INIT_ERROR = 12100"
| "code_value DETECTION_INIT_ERROR = 12200"
| "code_value DECISION_ERROR = 13000"
| "code_value GP_INITILIZATION_ERROR = 14000"
| "code_value GP_GET_POSE_ERROR = 14001"
| "code_value GP_POSE_TRANSFORM_ERROR = 14002"
| "code_value GP_GOAL_INVALID_ERROR = 14003"
| "code_value GP_PATH_SEARCH_ERROR = 14004"
| "code_value GP_MOVE_COST_ERROR = 14005"
| "code_value GP_MAX_RETRIES_FAILURE = 14006"
| "code_value GP_TIME_OUT_ERROR = 14007"
| "code_value LP_PLANNING_ERROR = 14100"
| "code_value LP_INITILIZATION_ERROR = 14101"
| "code_value LP_ALGORITHM_INITILIZATION_ERROR = 14102"
| "code_value LP_ALGORITHM_TRAJECTORY_ERROR = 14103"
| "code_value LP_ALGORITHM_GOAL_REACHED = 14104"
| "code_value LP_MAX_ERROR_FAILURE = 14105"
| "code_value LP_PLANTRANSFORM_ERROR = 14106"
| "code_value LP_OPTIMAL_ERROR = 14107"
| "code_value LP_VELOCITY_ERROR = 14108"
| "code_value LP_OSCILLATION_ERROR = 14109"

lemma code_value_inj: "code_value a = code_value b \<Longrightarrow> a = b"
  by (cases a; cases b; simp)

record error_info =
  ei_code :: error_code
  ei_msg :: string

definition error_ok :: error_info where
  "error_ok = \<lparr>ei_code = OK, ei_msg = []\<rparr>"

definition error_info_new :: "error_code \<Rightarrow> string \<Rightarrow> error_info" where
  "error_info_new c msg = \<lparr>ei_code = c, ei_msg = msg\<rparr>"

text \<open>Two results are equal if their codes are; the message does not count.\<close>

definition same_error :: "error_info \<Rightarrow> error_info \<Rightarrow> bool" where
  "same_error a b \<longleftrightarrow> code_value (ei_code a) = code_value (ei_code b)"

definition is_ok :: "error_info \<Rightarrow> bool" where
  "is_ok e \<longleftrightarrow> ei_code e = OK"

lemma is_ok_simps [simp]: "is_ok error_ok" "is_ok (error_info_new c msg) \<longleftrightarrow> c = OK"
  by (simp_all add: is_ok_def error_ok_def error_info_new_def)

lemma same_error_ok: "same_error e error_ok \<longleftrightarrow> is_ok e"
  using code_value_inj [of "ei_code e" OK] by (auto simp: same_error_def is_ok_def error_ok_def)

end
