(* ===== verification/AStar.thy ===== *)
theory AStar
  imports CostMap ErrorCode
begin

text \<open>
  The global planner of \<open>a_star_planner.cpp\<close>: the A* search on the grid map.

  The open list is a \<open>std::priority_queue\<close> ordered by the stored f-scores. Which of several
  elements with the smallest score it returns is left open by the standard, so the choice is the
  parameter \<open>pick\<close>; the locale \<open>open_list\<close> states what the queue promises. A key is never changed
  while its cell is in the queue. The \<open>float\<close> heuristic factor is a real number; an \<open>int\<close> that
  overflows and an \<open>at\<close> out of range are faults.
\<close>

subsection \<open>The grid\<close>

text \<open>\<open>GetNineNeighbors\<close> for a map of width \<open>w\<close> and height \<open>h\<close>.\<close>

definition get_nine_neighbors :: "nat \<Rightarrow> nat \<Rightarrow> int \<Rightarrow> int list" where
  "get_nine_neighbors w h c =
     (if c - int w \<ge> 0 then [c - int w] else []) @
     (if c - int w - 1 \<ge> 0 \<and> (c - int w - 1 + 1) mod int w \<noteq> 0 then [c - int w - 1] else []) @
     (if c - 1 \<ge> 0 \<and> (c - 1 + 1) mod int w \<noteq> 0 then [c - 1] else []) @
     (if c + int w - 1 < int (w * h) \<and> (c + int w - 1 + 1) mod int w \<noteq> 0 then [c + int w - 1] else []) @
     (if c + int w < int (w * h) then [c + int w] else []) @
     (if c + int w + 1 < int (w * h) \<and> (c + int w + 1) mod int w \<noteq> 0 then [c + int w + 1] else []) @
     (if c + 1 < int (w * h) \<and> (c + 1) mod int w \<noteq> 0 then [c + 1] else []) @
     (if c - int w + 1 \<ge> 0 \<and> (c - int w + 1) mod int w \<noteq> 0 then [c - int w + 1] else [])"

text \<open>\<open>None\<close>: \<open>GP_MOVE_COST_ERROR\<close>, and the output parameter is not written.\<close>

definition get_move_cost :: "nat \<Rightarrow> int \<Rightarrow> int \<Rightarrow> int option" where
  "get_move_cost w c nb =
     (if \<bar>nb - c\<bar> = 1 \<or> \<bar>nb - c\<bar> = int w then Some 10
      else if \<bar>nb - c\<bar> = int w + 1 \<or> \<bar>nb - c\<bar> = int w - 1 then Some 14
      else None)"

definition get_manhattan_distance :: "real \<Rightarrow> nat \<Rightarrow> nat \<Rightarrow> nat \<Rightarrow> int option" where
  "get_manhattan_distance factor w i j =
     (if w = 0 then None
      else to_int (factor * 10 * real_of_int (\<bar>int (i div w) - int (j div w)\<bar> + \<bar>int (i mod w) - int (j mod w)\<bar>)))"

subsection \<open>The search\<close>

datatype search_state = NOT_HANDLED | OPEN | CLOSED

record planner =
  heuristic_factor :: real
  inaccessible_cost :: nat
  goal_search_tolerance :: nat

definition INT_MAX :: nat where "INT_MAX = 2 ^ 31 - 1"

text \<open>The score vectors, the parents, the states and the open list; \<open>sr_move\<close> is the local variable
  \<open>move_cost\<close>, which keeps its value when \<open>GetMoveCost\<close> fails.\<close>

record search =
  sr_g :: "int list"
  sr_f :: "int list"
  sr_parent :: "nat list"
  sr_state :: "search_state list"
  sr_open :: "nat list"
  sr_move :: int

definition relax :: "planner \<Rightarrow> nat \<Rightarrow> nat \<Rightarrow> nat \<Rightarrow> nat \<Rightarrow> int \<Rightarrow> search \<Rightarrow> search option" where
  "relax p w c goal i g_new s = do {
     g' \<leftarrow> set_opt (sr_g s) i g_new;
     parent' \<leftarrow> set_opt (sr_parent s) i c;
     let s1 = s\<lparr>sr_g := g', sr_parent := parent'\<rparr>;
     st \<leftarrow> at_opt (sr_state s) i;
     if st = NOT_HANDLED then do {
       d \<leftarrow> get_manhattan_distance (heuristic_factor p) w i goal;
       score \<leftarrow> int_result (g_new + d);
       f' \<leftarrow> set_opt (sr_f s) i score;
       state' \<leftarrow> set_opt (sr_state s) i OPEN;
       Some (s1\<lparr>sr_f := f', sr_state := state', sr_open := sr_open s @ [i]\<rparr>) }
     else Some s1 }"

definition visit_neighbor ::
  "planner \<Rightarrow> nat \<Rightarrow> nat \<Rightarrow> u8 list \<Rightarrow> nat \<Rightarrow> nat \<Rightarrow> int \<Rightarrow> search \<Rightarrow> search option" where
  "visit_neighbor p w h cells c goal nb s =
     (if nb < 0 \<or> nb \<ge> int (w * h) then Some s
      else do {
        cost \<leftarrow> at_opt cells (nat nb);
        st \<leftarrow> at_opt (sr_state s) (nat nb);
        if unat cost \<ge> inaccessible_cost p \<or> st = CLOSED then Some s
        else do {
          let move = (case get_move_cost w (int c) nb of None \<Rightarrow> sr_move s | Some v \<Rightarrow> v);
          g_c \<leftarrow> at_opt (sr_g s) c;
          g_nb \<leftarrow> at_opt (sr_g s) (nat nb);
          g_new \<leftarrow> int_result (g_c + move + int (unat cost));
          let s1 = s\<lparr>sr_move := move\<rparr>;
          if g_nb > g_new then relax p w c goal (nat nb) g_new s1 else Some s1 } })"

primrec visit_neighbors ::
  "planner \<Rightarrow> nat \<Rightarrow> nat \<Rightarrow> u8 list \<Rightarrow> nat \<Rightarrow> nat \<Rightarrow> int list \<Rightarrow> search \<Rightarrow> search option" where
  "visit_neighbors p w h cells c goal [] s = Some s"
| "visit_neighbors p w h cells c goal (nb # nbs) s = do {
     s' \<leftarrow> visit_neighbor p w h cells c goal nb s;
     visit_neighbors p w h cells c goal nbs s' }"

definition pop_open :: "((nat \<Rightarrow> int) \<Rightarrow> nat list \<Rightarrow> nat) \<Rightarrow> search \<Rightarrow> (nat \<times> search) option" where
  "pop_open pick s = do {
     let c = pick (\<lambda>i. sr_f s ! i) (sr_open s);
     state' \<leftarrow> set_opt (sr_state s) c CLOSED;
     Some (c, s\<lparr>sr_open := remove1 c (sr_open s), sr_state := state'\<rparr>) }"

text \<open>The main loop; the result is the last cell taken from the queue.\<close>

partial_function (option) search_loop ::
  "((nat \<Rightarrow> int) \<Rightarrow> nat list \<Rightarrow> nat) \<Rightarrow> planner \<Rightarrow> nat \<Rightarrow> nat \<Rightarrow> u8 list \<Rightarrow> nat \<Rightarrow> nat \<Rightarrow> search \<Rightarrow> (nat \<times> search) option" where
  "search_loop pick p w h cells goal c s =
     (if sr_open s = [] then Some (c, s)
      else do {
        popped \<leftarrow> pop_open pick s;
        if fst popped = goal then Some popped
        else do {
          s' \<leftarrow> visit_neighbors p w h cells (fst popped) goal (get_nine_neighbors w h (int (fst popped))) (snd popped);
          search_loop pick p w h cells goal (fst popped) s' } })"

text \<open>From the goal back along the parents.\<close>

partial_function (option) trace_back :: "nat list \<Rightarrow> nat \<Rightarrow> nat \<Rightarrow> nat list option" where
  "trace_back parent start i =
     (if i = start then Some [i]
      else do {
        j \<leftarrow> at_opt parent i;
        is \<leftarrow> trace_back parent start j;
        Some (i # is) })"

text \<open>The fields of a \<open>PoseStamped\<close> the planner reads or writes.\<close>

record pose =
  frame_id :: string
  pos_x :: real
  pos_y :: real
  pos_z :: real
  orientation :: "real \<times> real \<times> real \<times> real"

definition cell_pose :: "costmap \<Rightarrow> nat \<Rightarrow> pose option" where
  "cell_pose m i = do {
     l \<leftarrow> index_to_cells m i;
     let q = map_to_world m (fst l) (snd l);
     Some \<lparr>frame_id = ''map'', pos_x = fst q, pos_y = snd q, pos_z = 0, orientation = (0, 0, 0, 1)\<rparr> }"

definition search_start :: "nat \<Rightarrow> nat \<Rightarrow> search option" where
  "search_start n start = do {
     g \<leftarrow> set_opt (replicate n (int INT_MAX)) start 0;
     Some \<lparr>sr_g = g, sr_f = replicate n (int INT_MAX), sr_parent = replicate n INT_MAX,
       sr_state = replicate n NOT_HANDLED, sr_open = [start], sr_move = 0\<rparr> }"

text \<open>The cells of the path from \<open>start\<close> to \<open>goal\<close>; \<open>Some None\<close> when the search fails.\<close>

definition search_cells ::
  "((nat \<Rightarrow> int) \<Rightarrow> nat list \<Rightarrow> nat) \<Rightarrow> planner \<Rightarrow> costmap \<Rightarrow> nat \<Rightarrow> nat \<Rightarrow> nat list option option" where
  "search_cells pick p m start goal = do {
     let w = cm_size_x m;
     let h = cm_size_y m;
     cells \<leftarrow> cm_cells m;
     s0 \<leftarrow> search_start (cm_cell_count m) start;
     r \<leftarrow> search_loop pick p w h cells goal 0 s0;
     if fst r \<noteq> goal then Some None
     else do { is \<leftarrow> trace_back (sr_parent (snd r)) start (fst r); Some (Some (rev is)) } }"

definition search_path ::
  "((nat \<Rightarrow> int) \<Rightarrow> nat list \<Rightarrow> nat) \<Rightarrow> planner \<Rightarrow> costmap \<Rightarrow> nat \<Rightarrow> nat \<Rightarrow> pose list \<Rightarrow> (error_info \<times> pose list) option" where
  "search_path pick p m start goal path = do {
     r \<leftarrow> search_cells pick p m start goal;
     case r of
       None \<Rightarrow> Some (error_info_new GP_PATH_SEARCH_ERROR ''Valid global path not found.'', path)
     | Some is \<Rightarrow> do { poses \<leftarrow> those (map (cell_pose m) is); Some (error_info_new OK [], poses) } }"

subsection \<open>Choosing the goal\<close>

text \<open>The values of a counter from \<open>lo\<close> to \<open>hi\<close> inclusive; with \<open>hi\<close> the largest value the loop
  does not end.\<close>

definition counted :: "nat \<Rightarrow> nat \<Rightarrow> nat list option" where
  "counted lo hi = (if hi = UINT_MAX then None else Some [lo..<Suc hi])"

definition cell_distance :: "location \<Rightarrow> location \<Rightarrow> nat" where
  "cell_distance a b = wrap32 (nat \<bar>signed_difference (fst a) (fst b)\<bar> + nat \<bar>signed_difference (snd a) (snd b)\<bar>)"

text \<open>One candidate; the accumulator is the best one so far with its distance.\<close>

definition try_goal :: "planner \<Rightarrow> costmap \<Rightarrow> location \<Rightarrow> location \<Rightarrow> (nat \<times> location option) \<Rightarrow> (nat \<times> location option) option" where
  "try_goal p m goal cand best = do {
     cost \<leftarrow> get_cost m (fst cand) (snd cand);
     let d = cell_distance goal cand;
     Some (if unat cost < inaccessible_cost p \<and> d < fst best then (d, Some cand) else best) }"

primrec try_goals :: "planner \<Rightarrow> costmap \<Rightarrow> location \<Rightarrow> location list \<Rightarrow> (nat \<times> location option) \<Rightarrow> (nat \<times> location option) option" where
  "try_goals p m goal [] best = Some best"
| "try_goals p m goal (c # cs) best = do { best' \<leftarrow> try_goal p m goal c best; try_goals p m goal cs best' }"

definition search_goal :: "planner \<Rightarrow> costmap \<Rightarrow> location \<Rightarrow> location option option" where
  "search_goal p m goal = do {
     let t = goal_search_tolerance p;
     ys \<leftarrow> counted (sub32 (snd goal) t) (wrap32 (snd goal + t));
     xs \<leftarrow> if ys = [] then Some [] else counted (sub32 (fst goal) t) (wrap32 (fst goal + t));
     best \<leftarrow> try_goals p m goal (concat (map (\<lambda>y. map (\<lambda>x. (x, y)) xs) ys)) (UINT_MAX, None);
     Some (snd best) }"

definition choose_goal :: "planner \<Rightarrow> costmap \<Rightarrow> location \<Rightarrow> location option option" where
  "choose_goal p m goal = do {
     cost \<leftarrow> get_cost m (fst goal) (snd goal);
     if unat cost < inaccessible_cost p then Some (Some goal) else search_goal p m goal }"

definition finish_path :: "pose \<Rightarrow> pose list \<Rightarrow> pose list" where
  "finish_path goal path = (if path = [] then [] else
     butlast path @ [(last path)\<lparr>orientation := orientation goal, pos_z := pos_z goal\<rparr>])"

definition plan ::
  "((nat \<Rightarrow> int) \<Rightarrow> nat list \<Rightarrow> nat) \<Rightarrow> planner \<Rightarrow> pose \<Rightarrow> pose \<Rightarrow> pose list \<Rightarrow> costmap \<Rightarrow> (error_info \<times> pose list \<times> costmap) option" where
  "plan pick p start goal path m = do {
     s \<leftarrow> world_to_map m (pos_x start) (pos_y start);
     case s of None \<Rightarrow> Some (error_info_new GP_POSE_TRANSFORM_ERROR
         ''Start pose can't be transformed to costmap frame.'', path, m)
     | Some s \<Rightarrow> do {
       g \<leftarrow> world_to_map m (pos_x goal) (pos_y goal);
       case g of None \<Rightarrow> Some (error_info_new GP_POSE_TRANSFORM_ERROR
           ''Goal pose can't be transformed to costmap frame.'', path, m)
       | Some g \<Rightarrow> do {
         valid \<leftarrow> choose_goal p m g;
         case valid of None \<Rightarrow> Some (error_info_new GP_GOAL_INVALID_ERROR [], [], m)
         | Some v \<Rightarrow> do {
           let start_index = get_index m (fst s) (snd s);
           let goal_index = get_index m (fst v) (snd v);
           m1 \<leftarrow> set_cost (fst s) (snd s) 0 m;
           if start_index = goal_index then Some (error_ok, [start, goal], m1)
           else do {
             r \<leftarrow> search_path pick p m1 start_index goal_index path;
             Some (fst r, if is_ok (fst r) then finish_path goal (snd r) else snd r, m1) } } } } }"


subsection \<open>Neighbours\<close>

lemma row_less_iff: "0 \<le> (x :: int) \<Longrightarrow> x < w \<Longrightarrow> z * w + x < h * w \<longleftrightarrow> z < h"
proof
  assume x: "0 \<le> x" "x < w" and less: "z * w + x < h * w"
  then have "z * w < h * w" by linarith
  then show "z < h" using x by (simp add: mult_less_cancel_right)
next
  assume x: "0 \<le> x" "x < w" and "z < h"
  then have "(z + 1) * w \<le> h * w" by (intro mult_right_mono) simp_all
  then show "z * w + x < h * w" using x by (simp add: distrib_right)
qed

lemma row_nonneg_iff: "0 \<le> (x :: int) \<Longrightarrow> x < w \<Longrightarrow> 0 \<le> z * w + x \<longleftrightarrow> 0 \<le> z"
  using row_less_iff [of x w z 0] by linarith

lemma row_mod: "0 \<le> (x :: int) \<Longrightarrow> x < w \<Longrightarrow> (z * w + x) mod w = x"
  by simp

definition directions :: "(int \<times> int) list" where
  "directions = [(0, -1), (-1, -1), (-1, 0), (-1, 1), (0, 1), (1, 1), (1, 0), (1, -1)]"

lemma neighbors_as_directions:
  assumes "x < w" "y < h"
  shows "get_nine_neighbors w h (int (y * w + x)) =
    map (\<lambda>(dx, dy). (int y + dy) * int w + (int x + dx))
      (filter (\<lambda>(dx, dy). 0 \<le> int x + dx \<and> int x + dx < int w \<and> 0 \<le> int y + dy \<and> int y + dy < int h) directions)"
proof -
  define X Y W H where "X = int x" and "Y = int y" and "W = int w" and "H = int h"
  have X: "0 \<le> X" "X < W" and Y: "0 \<le> Y" "Y < H" using assms by (simp_all add: X_def Y_def W_def H_def)
  define c where "c = Y * W + X"
  have up: "c - W \<ge> 0 \<longleftrightarrow> 1 \<le> Y"
    using row_nonneg_iff [OF X, of "Y - 1"] by (simp add: c_def algebra_simps)
  have left: "c mod W \<noteq> 0 \<longleftrightarrow> 1 \<le> X" using row_mod [OF X, of Y] X by (auto simp: c_def)
  have left': "(c - W) mod W = c mod W" "(c + W) mod W = c mod W" by simp_all
  have right: "(c + 1) mod W \<noteq> 0 \<longleftrightarrow> X + 1 < W"
  proof (cases "X + 1 < W")
    case True
    then show ?thesis using row_mod [of "X + 1" W Y] X by (simp add: c_def algebra_simps)
  next
    case False
    then have "c + 1 = (Y + 1) * W" using X by (simp add: c_def algebra_simps)
    then show ?thesis using False by simp
  qed
  have right': "(c - W + 1) mod W = (c + 1) mod W" "(c + W + 1) mod W = (c + 1) mod W"
    using minus_mod_self2 [of "c + 1" W] mod_add_self2 [of "c + 1" W]
    by (simp_all only: diff_add_eq add.commute [of W 1] add.assoc)
  have up_left: "c - W - 1 \<ge> 0 \<longleftrightarrow> 1 \<le> Y" if "1 \<le> X"
    using row_nonneg_iff [of "X - 1" W "Y - 1"] X that by (simp add: c_def algebra_simps)
  have to_left: "c - 1 \<ge> 0" if "1 \<le> X"
    using row_nonneg_iff [of "X - 1" W Y] X Y that by (simp add: c_def algebra_simps)
  have down_left: "c + W - 1 < H * W \<longleftrightarrow> Y + 1 < H" if "1 \<le> X"
    using row_less_iff [of "X - 1" W "Y + 1" H] X that by (simp add: c_def algebra_simps)
  have down: "c + W < H * W \<longleftrightarrow> Y + 1 < H"
    using row_less_iff [OF X, of "Y + 1" H] by (simp add: c_def algebra_simps)
  have down_right: "c + W + 1 < H * W \<longleftrightarrow> Y + 1 < H" if "X + 1 < W"
    using row_less_iff [of "X + 1" W "Y + 1" H] X that by (simp add: c_def algebra_simps)
  have to_right: "c + 1 < H * W" if "X + 1 < W"
    using row_less_iff [of "X + 1" W Y H] X Y that by (simp add: c_def algebra_simps)
  have up_right: "c - W + 1 \<ge> 0 \<longleftrightarrow> 1 \<le> Y" if "X + 1 < W"
    using row_nonneg_iff [of "X + 1" W "Y - 1"] X that by (simp add: c_def algebra_simps)
  have guards: "c - W - 1 \<ge> 0 \<and> (c - W - 1 + 1) mod W \<noteq> 0 \<longleftrightarrow> 1 \<le> Y \<and> 1 \<le> X"
    "c - 1 \<ge> 0 \<and> (c - 1 + 1) mod W \<noteq> 0 \<longleftrightarrow> 1 \<le> X"
    "c + W - 1 < H * W \<and> (c + W - 1 + 1) mod W \<noteq> 0 \<longleftrightarrow> Y + 1 < H \<and> 1 \<le> X"
    "c + W + 1 < H * W \<and> (c + W + 1) mod W \<noteq> 0 \<longleftrightarrow> Y + 1 < H \<and> X + 1 < W"
    "c + 1 < H * W \<and> (c + 1) mod W \<noteq> 0 \<longleftrightarrow> X + 1 < W"
    "c - W + 1 \<ge> 0 \<and> (c - W + 1) mod W \<noteq> 0 \<longleftrightarrow> 1 \<le> Y \<and> X + 1 < W"
    using left left' right right' up_left to_left down_left down_right to_right up_right by auto
  have N: "int (w * h) = H * W" by (simp add: H_def W_def mult.commute)
  have "get_nine_neighbors w h c =
     (if 1 \<le> Y then [c - W] else []) @ (if 1 \<le> Y \<and> 1 \<le> X then [c - W - 1] else []) @
     (if 1 \<le> X then [c - 1] else []) @ (if Y + 1 < H \<and> 1 \<le> X then [c + W - 1] else []) @
     (if Y + 1 < H then [c + W] else []) @ (if Y + 1 < H \<and> X + 1 < W then [c + W + 1] else []) @
     (if X + 1 < W then [c + 1] else []) @ (if 1 \<le> Y \<and> X + 1 < W then [c - W + 1] else [])"
    unfolding get_nine_neighbors_def N W_def [symmetric] guards up down ..
  also have "\<dots> = map (\<lambda>(dx, dy). (Y + dy) * W + (X + dx))
      (filter (\<lambda>(dx, dy). 0 \<le> X + dx \<and> X + dx < W \<and> 0 \<le> Y + dy \<and> Y + dy < H) directions)"
    using X Y by (simp add: directions_def c_def algebra_simps)
  finally show ?thesis by (simp add: c_def X_def Y_def W_def H_def)
qed


text \<open>Two cells of the grid that touch.\<close>

definition adjacent :: "location \<Rightarrow> location \<Rightarrow> bool" where
  "adjacent a b \<longleftrightarrow> a \<noteq> b \<and> distance (fst a) (fst b) \<le> 1 \<and> distance (snd a) (snd b) \<le> 1"

lemma adjacent_iff_direction:
  "adjacent (x, y) (x', y') \<longleftrightarrow> (int x' - int x, int y' - int y) \<in> set directions"
  by (auto simp: adjacent_def distance_def directions_def)

lemma row_unique:
  assumes "0 \<le> (x :: int)" "x < w" "0 \<le> x'" "x' < w" "z * w + x = z' * w + x'"
  shows "x = x' \<and> z = z'"
proof -
  have "x = x'" using row_mod [OF assms(1,2), of z] row_mod [OF assms(3,4), of z'] assms(5) by simp
  then show ?thesis using assms by simp
qed

lemma set_nine_neighbors:
  assumes "x < w" "y < h"
  shows "set (get_nine_neighbors w h (int (y * w + x))) =
    {int (y' * w + x') | x' y'. x' < w \<and> y' < h \<and> adjacent (x, y) (x', y')}" (is "?L = ?R")
proof
  let ?in = "\<lambda>(dx, dy). 0 \<le> int x + dx \<and> int x + dx < int w \<and> 0 \<le> int y + dy \<and> int y + dy < int h"
  let ?cell = "\<lambda>(dx, dy). (int y + dy) * int w + (int x + dx)"
  note eq = neighbors_as_directions [OF assms]
  show "?L \<subseteq> ?R"
  proof
    fix i assume "i \<in> ?L"
    then obtain dx dy where d: "(dx, dy) \<in> set directions" "?in (dx, dy)" "i = ?cell (dx, dy)"
      unfolding eq by auto
    then have "i = int (nat (int y + dy) * w + nat (int x + dx))" "nat (int x + dx) < w" "nat (int y + dy) < h"
      by (simp_all add: nat_less_iff)
    moreover have "adjacent (x, y) (nat (int x + dx), nat (int y + dy))"
      using d by (simp add: adjacent_iff_direction)
    ultimately show "i \<in> ?R" by blast
  qed
  show "?R \<subseteq> ?L"
  proof
    fix i assume "i \<in> ?R"
    then obtain x' y' where i: "i = int (y' * w + x')" "x' < w" "y' < h" "(int x' - int x, int y' - int y) \<in> set directions"
      by (auto simp: adjacent_iff_direction)
    then have "(int x' - int x, int y' - int y) \<in> set (filter ?in directions)" by simp
    then have "?cell (int x' - int x, int y' - int y) \<in> ?L" unfolding eq set_map by (rule imageI)
    then show "i \<in> ?L" using i(1) by simp
  qed
qed

lemma distinct_nine_neighbors:
  assumes "x < w" "y < h"
  shows "distinct (get_nine_neighbors w h (int (y * w + x)))"
proof -
  let ?in = "\<lambda>(dx, dy). 0 \<le> int x + dx \<and> int x + dx < int w \<and> 0 \<le> int y + dy \<and> int y + dy < int h"
  let ?cell = "\<lambda>(dx, dy). (int y + dy) * int w + (int x + dx)"
  have "inj_on ?cell (set (filter ?in directions))"
  proof (rule inj_onI)
    fix a b assume ab: "a \<in> set (filter ?in directions)" "b \<in> set (filter ?in directions)" and same: "?cell a = ?cell b"
    obtain dx dy dx' dy' where [simp]: "a = (dx, dy)" "b = (dx', dy')" by (cases a; cases b) blast
    have "int x + dx = int x + dx' \<and> int y + dy = int y + dy'"
      by (rule row_unique) (use ab same in simp_all)
    then show "a = b" by simp
  qed
  then show ?thesis unfolding neighbors_as_directions [OF assms] by (simp add: distinct_map directions_def)
qed

text \<open>GetNineNeighbors returns, without repetition, exactly the indices of the cells of the map that touch the given cell on a side or at a corner.\<close>

theorem nine_neighbors_are_the_adjacent_cells:
  assumes "x < w" "y < h"
  shows "distinct (get_nine_neighbors w h (int (y * w + x)))
    \<and> set (get_nine_neighbors w h (int (y * w + x))) =
      {int (y' * w + x') | x' y'. x' < w \<and> y' < h \<and> adjacent (x, y) (x', y')}"
  using set_nine_neighbors [OF assms] distinct_nine_neighbors [OF assms] by blast

theorem nine_neighbors_are_the_adjacent_cells_witness:
  "distinct (get_nine_neighbors 2 2 1) \<and> set (get_nine_neighbors 2 2 1) = {0, 2, 3}"
proof -
  let ?S = "{int (y' * 2 + x') | x' y'. x' < 2 \<and> y' < 2 \<and> adjacent (1, 0) (x', y')}"
  have "?S \<subseteq> {0, 2, 3}"
    by (auto simp: adjacent_def distance_def less_Suc_eq numeral_2_eq_2)
  moreover have "0 \<in> ?S" "2 \<in> ?S" "3 \<in> ?S"
    by (rule CollectI, rule exI [of _ 0], rule exI [of _ 0], simp add: adjacent_def distance_def)
      (rule CollectI, rule exI [of _ 0], rule exI [of _ 1], simp add: adjacent_def distance_def,
       rule CollectI, rule exI [of _ 1], rule exI [of _ 1], simp add: adjacent_def distance_def)
  ultimately have "?S = {0, 2, 3}" by (intro equalityI) (simp_all only: insert_subset empty_subsetI simp_thms)
  then show ?thesis using nine_neighbors_are_the_adjacent_cells [of 1 2 0 2] by simp
qed


subsection \<open>The invariant of the search\<close>

text \<open>A move the search may make: to a neighbouring cell that is not blocked.\<close>

definition grid_step :: "planner \<Rightarrow> nat \<Rightarrow> nat \<Rightarrow> u8 list \<Rightarrow> nat \<Rightarrow> nat \<Rightarrow> bool" where
  "grid_step p w h cells a b \<longleftrightarrow> a < w * h \<and> b < w * h \<and>
     adjacent (a mod w, a div w) (b mod w, b div w) \<and> unat (cells ! b) < inaccessible_cost p"

text \<open>Parameters for which neither the scores nor the heuristic leave the range of \<open>int\<close>; 269 is the
  largest cost of a step.\<close>

definition search_params :: "planner \<Rightarrow> nat \<Rightarrow> nat \<Rightarrow> u8 list \<Rightarrow> bool" where
  "search_params p w h cells \<longleftrightarrow> length cells = w * h \<and> 269 * (w * h) < 2 ^ 30 \<and>
     0 \<le> heuristic_factor p \<and> heuristic_factor p * 10 * real (w + h) \<le> 2 ^ 30"

definition closed_cells :: "search \<Rightarrow> nat set" where
  "closed_cells s = {i. i < length (sr_state s) \<and> sr_state s ! i = CLOSED}"

definition handled :: "search \<Rightarrow> nat set" where
  "handled s = {i. i < length (sr_state s) \<and> sr_state s ! i \<noteq> NOT_HANDLED}"

text \<open>The parent of a cell is closed, one step away and has a smaller score.\<close>

definition linked :: "planner \<Rightarrow> nat \<Rightarrow> nat \<Rightarrow> u8 list \<Rightarrow> search \<Rightarrow> nat \<Rightarrow> bool" where
  "linked p w h cells s i \<longleftrightarrow> sr_parent s ! i \<in> closed_cells s \<and> grid_step p w h cells (sr_parent s ! i) i
     \<and> sr_g s ! (sr_parent s ! i) < sr_g s ! i"

definition sizes_ok :: "nat \<Rightarrow> search \<Rightarrow> bool" where
  "sizes_ok n s \<longleftrightarrow> length (sr_g s) = n \<and> length (sr_f s) = n \<and> length (sr_parent s) = n \<and> length (sr_state s) = n"

definition search_inv :: "planner \<Rightarrow> nat \<Rightarrow> nat \<Rightarrow> u8 list \<Rightarrow> nat \<Rightarrow> search \<Rightarrow> bool" where
  "search_inv p w h cells start s \<longleftrightarrow> sizes_ok (w * h) s
     \<and> distinct (sr_open s) \<and> set (sr_open s) = handled s - closed_cells s
     \<and> start \<in> closed_cells s \<and> sr_g s ! start = 0
     \<and> (\<forall>i < w * h. i \<notin> handled s \<longrightarrow> sr_g s ! i = int INT_MAX)
     \<and> (\<forall>i \<in> handled s. 0 \<le> sr_g s ! i \<and> sr_g s ! i \<le> 269 * int (card (closed_cells s)))
     \<and> (\<forall>i \<in> handled s - {start}. linked p w h cells s i)"

lemma closed_handled: "closed_cells s \<subseteq> handled s" and finite_handled [simp]: "finite (handled s)"
  and finite_closed [simp]: "finite (closed_cells s)"
  by (auto simp: closed_cells_def handled_def)

lemma closed_score_nonneg: "search_inv p w h cells start s \<Longrightarrow> c \<in> closed_cells s \<Longrightarrow> 0 \<le> sr_g s ! c"
  using closed_handled [of s] by (auto simp: search_inv_def)

lemma card_closed_le: "sizes_ok n s \<Longrightarrow> card (closed_cells s) \<le> n"
proof -
  assume "sizes_ok n s"
  then have "closed_cells s \<subseteq> {..<n}" by (auto simp: closed_cells_def sizes_ok_def)
  then show ?thesis using card_mono [of "{..<n}" "closed_cells s"] by simp
qed

text \<open>What the code's neighbour test means on the grid.\<close>

lemma neighbor_iff_adjacent:
  assumes "a < w * h" "b < w * h"
  shows "int b \<in> set (get_nine_neighbors w h (int a)) \<longleftrightarrow> adjacent (a mod w, a div w) (b mod w, b div w)"
proof -
  have w: "0 < w" using assms(1) by (cases w) auto
  have at: "a mod w < w" "a div w < h" "b mod w < w" "b div w < h"
    using assms w by (simp_all add: div_less_iff_less_mult mult.commute)
  have "set (get_nine_neighbors w h (int a)) =
      {int (y' * w + x') | x' y'. x' < w \<and> y' < h \<and> adjacent (a mod w, a div w) (x', y')}"
    using set_nine_neighbors [OF at(1,2)] by (simp only: div_mult_mod_eq)
  also have "int b \<in> \<dots> \<longleftrightarrow> adjacent (a mod w, a div w) (b mod w, b div w)" (is "?L \<longleftrightarrow> ?R")
  proof
    assume ?L
    then obtain x' y' where "b = y' * w + x'" "x' < w" "adjacent (a mod w, a div w) (x', y')"
      by (auto simp only: mem_Collect_eq of_nat_eq_iff)
    then show ?R by simp
  next
    assume ?R
    then have "int b = int (b div w * w + b mod w) \<and> b mod w < w \<and> b div w < h \<and> adjacent (a mod w, a div w) (b mod w, b div w)"
      using at by simp
    then show ?L by blast
  qed
  finally show ?thesis .
qed

lemma move_cost_of_neighbor:
  assumes "nb \<in> set (get_nine_neighbors w h c)"
  obtains v where "get_move_cost w c nb = Some v" "10 \<le> v" "v \<le> 14"
proof -
  have "\<bar>nb - c\<bar> = 1 \<or> \<bar>nb - c\<bar> = int w \<or> \<bar>nb - c\<bar> = int w + 1 \<or> \<bar>nb - c\<bar> = \<bar>int w - 1\<bar>"
    using assms by (auto simp: get_nine_neighbors_def split: if_splits)
  moreover have "\<bar>int w - 1\<bar> = int w - 1 \<or> \<bar>int w - 1\<bar> = 1" by (cases w) auto
  ultimately have either: "(\<bar>nb - c\<bar> = 1 \<or> \<bar>nb - c\<bar> = int w) \<or> (\<bar>nb - c\<bar> = int w + 1 \<or> \<bar>nb - c\<bar> = int w - 1)"
    by (elim disjE) simp_all
  show ?thesis
  proof (cases "\<bar>nb - c\<bar> = 1 \<or> \<bar>nb - c\<bar> = int w")
    case True
    then show ?thesis using that [of 10] by (simp add: get_move_cost_def)
  next
    case False
    then have "\<bar>nb - c\<bar> = int w + 1 \<or> \<bar>nb - c\<bar> = int w - 1" using either by blast
    then have "get_move_cost w c nb = Some 14" by (simp only: get_move_cost_def if_not_P [OF False] if_P)
    then show ?thesis using that [of 14] by simp
  qed
qed

lemma manhattan_in_range:
  assumes "search_params p w h cells" "i < w * h" "j < w * h"
  obtains d where "get_manhattan_distance (heuristic_factor p) w i j = Some d" "0 \<le> d" "d \<le> 2 ^ 30"
proof -
  have w: "0 < w" using assms(2) by (cases w) auto
  let ?D = "\<bar>int (i div w) - int (j div w)\<bar> + \<bar>int (i mod w) - int (j mod w)\<bar>"
  have "i div w < h" "j div w < h" "i mod w < w" "j mod w < w"
    using assms(2,3) w by (simp_all add: div_less_iff_less_mult mult.commute)
  moreover have "\<bar>int a - int b\<bar> \<le> int n" if "a < n" "b < n" for a b n using that by linarith
  ultimately have "\<bar>int (i div w) - int (j div w)\<bar> \<le> int h" "\<bar>int (i mod w) - int (j mod w)\<bar> \<le> int w" by blast+
  then have D: "0 \<le> ?D" "?D \<le> int (w + h)" by linarith+
  let ?v = "heuristic_factor p * 10 * real_of_int ?D"
  have "?v \<le> heuristic_factor p * 10 * real (w + h)"
    using D(2) assms(1) by (intro mult_left_mono) (simp_all add: search_params_def)
  then have v: "0 \<le> ?v" "?v \<le> 2 ^ 30" using assms(1) D(1) by (simp_all add: search_params_def)
  then have "get_manhattan_distance (heuristic_factor p) w i j = Some \<lfloor>?v\<rfloor>"
    using w by (simp add: get_manhattan_distance_def to_int_nonneg)
  moreover have "0 \<le> \<lfloor>?v\<rfloor>" "\<lfloor>?v\<rfloor> \<le> 2 ^ 30" using v by (simp_all add: floor_le_iff)
  ultimately show ?thesis using that by blast
qed

lemma search_inv_move [simp]:
  "closed_cells (s\<lparr>sr_move := v\<rparr>) = closed_cells s" "handled (s\<lparr>sr_move := v\<rparr>) = handled s"
  "search_inv p w h cells start (s\<lparr>sr_move := v\<rparr>) = search_inv p w h cells start s"
  by (simp_all add: closed_cells_def handled_def search_inv_def sizes_ok_def linked_def)

lemma score_bound:
  assumes "search_params p w h cells" "search_inv p w h cells start s"
  shows "269 * int (card (closed_cells s)) < 2 ^ 30"
proof -
  have "269 * card (closed_cells s) < 2 ^ 30"
    using card_closed_le [of "w * h" s] assms by (simp add: search_inv_def search_params_def)
  then have "int (269 * card (closed_cells s)) < int (2 ^ 30)" by (simp only: of_nat_less_iff)
  then show ?thesis by simp
qed

text \<open>Lowering the score of an open or new cell.\<close>

lemma relax_ok:
  assumes params: "search_params p w h cells" and inv: "search_inv p w h cells start s"
    and c: "c \<in> closed_cells s" and i: "i \<notin> closed_cells s" and step: "grid_step p w h cells c i" and goal: "goal < w * h"
    and v: "sr_g s ! c < v" "v \<le> 269 * int (card (closed_cells s))"
  obtains s' where "relax p w c goal i v s = Some s'" "search_inv p w h cells start s'" "closed_cells s' = closed_cells s"
    "handled s' = insert i (handled s)" "sr_g s' ! c = sr_g s ! c"
proof -
  let ?n = "w * h"
  have sizes: "length (sr_g s) = ?n" "length (sr_f s) = ?n" "length (sr_parent s) = ?n" "length (sr_state s) = ?n"
    using inv by (simp_all add: search_inv_def sizes_ok_def)
  have i_n: "i < ?n" using step by (simp add: grid_step_def)
  have ic: "i \<noteq> c" "i \<noteq> start" using c i inv by (auto simp: search_inv_def)
  have low: "0 \<le> sr_g s ! c" by (rule closed_score_nonneg [OF inv c])
  have "269 * int (card (closed_cells s)) < 2 ^ 30" by (rule score_bound [OF params inv])
  then have v30: "v < 2 ^ 30" using v(2) by linarith
  let ?s1 = "s\<lparr>sr_g := (sr_g s)[i := v], sr_parent := (sr_parent s)[i := c]\<rparr>"
  show ?thesis
  proof (cases "sr_state s ! i = NOT_HANDLED")
    case False
    then have h: "i \<in> handled s" "closed_cells ?s1 = closed_cells s" "handled ?s1 = handled s"
      using i_n sizes by (auto simp: handled_def closed_cells_def)
    have "linked p w h cells ?s1 j" if "j \<in> handled s - {start}" for j
    proof (cases "j = i")
      case True
      then show ?thesis using c step v(1) i_n sizes ic h by (simp add: linked_def)
    next
      case False
      then have "linked p w h cells s j" "sr_parent s ! j \<noteq> i"
        using inv that i by (auto simp: search_inv_def linked_def)
      then show ?thesis using False h by (simp add: linked_def)
    qed
    then have "search_inv p w h cells start ?s1"
      using inv h i_n ic v low sizes by (auto simp: search_inv_def sizes_ok_def nth_list_update)
    moreover have "relax p w c goal i v s = Some ?s1" using i_n sizes False by (simp add: relax_def)
    ultimately show ?thesis using that [of ?s1] h ic by (simp add: insert_absorb)
  next
    case True
    obtain d where d: "get_manhattan_distance (heuristic_factor p) w i goal = Some d" "0 \<le> d" "d \<le> 2 ^ 30"
      using manhattan_in_range [OF params i_n goal] by blast
    then have "int_result (v + d) = Some (v + d)" using v30 v(1) low by (simp add: int_result_def)
    let ?s2 = "?s1\<lparr>sr_f := (sr_f s)[i := v + d], sr_state := (sr_state s)[i := OPEN], sr_open := sr_open s @ [i]\<rparr>"
    have relax: "relax p w c goal i v s = Some ?s2"
      using i_n sizes True d(1) \<open>int_result (v + d) = Some (v + d)\<close> by (simp add: relax_def)
    have h: "i \<notin> handled s" "closed_cells ?s2 = closed_cells s" "handled ?s2 = insert i (handled s)"
      using i_n sizes True by (auto simp: handled_def closed_cells_def nth_list_update)
    have "linked p w h cells ?s2 j" if "j \<in> insert i (handled s) - {start}" for j
    proof (cases "j = i")
      case True
      then show ?thesis using c step v(1) i_n sizes ic h by (simp add: linked_def)
    next
      case False
      then have "linked p w h cells s j" "sr_parent s ! j \<noteq> i"
        using inv that i by (auto simp: search_inv_def linked_def)
      then show ?thesis using False h by (simp add: linked_def)
    qed
    moreover have "distinct (sr_open s @ [i])" "set (sr_open s @ [i]) = insert i (handled s) - closed_cells s"
      using inv h(1) i by (auto simp: search_inv_def)
    ultimately have "search_inv p w h cells start ?s2"
      using inv h i_n ic v low sizes by (auto simp: search_inv_def sizes_ok_def nth_list_update)
    then show ?thesis using that [of ?s2] relax h ic by simp
  qed
qed

lemma visit_neighbor_ok:
  assumes params: "search_params p w h cells" and inv: "search_inv p w h cells start s"
    and c: "c \<in> closed_cells s" and goal: "goal < w * h" and bound: "sr_g s ! c + 269 \<le> 269 * int (card (closed_cells s))"
    and nb: "nb \<in> set (get_nine_neighbors w h (int c))"
  obtains s' where "visit_neighbor p w h cells c goal nb s = Some s'" "search_inv p w h cells start s'"
    "closed_cells s' = closed_cells s" "handled s \<subseteq> handled s'" "sr_g s' ! c = sr_g s ! c"
    "\<And>b. int b = nb \<Longrightarrow> grid_step p w h cells c b \<Longrightarrow> b \<in> handled s'"
proof (cases "nb < 0 \<or> nb \<ge> int (w * h)")
  case True
  then show ?thesis using that [of s] inv by (auto simp: visit_neighbor_def grid_step_def simp del: of_nat_mult)
next
  case False
  define i where "i = nat nb"
  have i: "i < w * h" "nb = int i" using False by (simp_all add: i_def nat_less_iff)
  have len: "length cells = w * h" using params by (simp add: search_params_def)
  have sizes: "length (sr_g s) = w * h" "length (sr_state s) = w * h"
    using inv by (simp_all add: search_inv_def sizes_ok_def)
  have c_n: "c < w * h" using c sizes by (auto simp: closed_cells_def)
  let ?cost = "unat (cells ! i)"
  show ?thesis
  proof (cases "?cost \<ge> inaccessible_cost p \<or> sr_state s ! i = CLOSED")
    case True
    then have "visit_neighbor p w h cells c goal nb s = Some s"
      using False i sizes len by (auto simp: visit_neighbor_def)
    then show ?thesis using that [of s] inv True i sizes by (auto simp: grid_step_def handled_def)
  next
    case open_cell: False
    then have i_open: "i \<notin> closed_cells s" by (auto simp: closed_cells_def)
    have step: "grid_step p w h cells c i"
      using neighbor_iff_adjacent [OF c_n i(1)] nb i open_cell c_n by (simp add: grid_step_def)
    obtain move where move: "get_move_cost w (int c) nb = Some move" "10 \<le> move" "move \<le> 14"
      using move_cost_of_neighbor [OF nb] by blast
    let ?v = "sr_g s ! c + move + int ?cost"
    have "?cost < 2 ^ LENGTH(8)" by (rule unsigned_less)
    then have "?cost \<le> 255" by simp
    then have cost: "int ?cost \<le> 255" by linarith
    have low: "0 \<le> sr_g s ! c" by (rule closed_score_nonneg [OF inv c])
    have v: "sr_g s ! c < ?v" "?v \<le> 269 * int (card (closed_cells s))" using move cost bound by linarith+
    have "269 * int (card (closed_cells s)) < 2 ^ 30" by (rule score_bound [OF params inv])
    then have v31: "?v < 2 ^ 30" using v(2) by linarith
    then have fits: "int_result ?v = Some ?v" using low v(1) by (simp add: int_result_def)
    let ?s1 = "s\<lparr>sr_move := move\<rparr>"
    have visit: "visit_neighbor p w h cells c goal nb s =
        (if sr_g s ! i > ?v then relax p w c goal i ?v ?s1 else Some ?s1)"
      using False open_cell i sizes len c_n move(1) fits by (simp add: visit_neighbor_def)
    show ?thesis
    proof (cases "sr_g s ! i > ?v")
      case True
      obtain s' where s': "relax p w c goal i ?v ?s1 = Some s'" "search_inv p w h cells start s'"
        "closed_cells s' = closed_cells s" "handled s' = insert i (handled s)" "sr_g s' ! c = sr_g s ! c"
        using relax_ok [OF params, of start ?s1 c i goal ?v] inv c i_open step goal v by auto
      then show ?thesis using that [of s'] visit True i by auto
    next
      case no: False
      have "i \<in> handled s"
      proof (rule ccontr)
        assume "i \<notin> handled s"
        then have "sr_g s ! i = int INT_MAX" using inv i(1) by (auto simp: search_inv_def)
        then show False using no v31 by (simp add: INT_MAX_def)
      qed
      then show ?thesis using that [of ?s1] visit no inv i by auto
    qed
  qed
qed

lemma visit_neighbors_ok:
  assumes "search_params p w h cells" "search_inv p w h cells start s" "c \<in> closed_cells s" "goal < w * h"
    "sr_g s ! c + 269 \<le> 269 * int (card (closed_cells s))" "set nbs \<subseteq> set (get_nine_neighbors w h (int c))"
  shows "\<exists>s'. visit_neighbors p w h cells c goal nbs s = Some s' \<and> search_inv p w h cells start s'
    \<and> closed_cells s' = closed_cells s \<and> handled s \<subseteq> handled s'
    \<and> (\<forall>b. int b \<in> set nbs \<and> grid_step p w h cells c b \<longrightarrow> b \<in> handled s')"
  using assms
proof (induction nbs arbitrary: s)
  case (Cons nb nbs)
  obtain s1 where s1: "visit_neighbor p w h cells c goal nb s = Some s1" "search_inv p w h cells start s1"
    "closed_cells s1 = closed_cells s" "handled s \<subseteq> handled s1" "sr_g s1 ! c = sr_g s ! c"
    "\<And>b. int b = nb \<Longrightarrow> grid_step p w h cells c b \<Longrightarrow> b \<in> handled s1"
    using visit_neighbor_ok [OF Cons.prems(1-5), of nb] Cons.prems(6) by auto
  obtain s2 where s2: "visit_neighbors p w h cells c goal nbs s1 = Some s2" "search_inv p w h cells start s2"
    "closed_cells s2 = closed_cells s1" "handled s1 \<subseteq> handled s2"
    "\<forall>b. int b \<in> set nbs \<and> grid_step p w h cells c b \<longrightarrow> b \<in> handled s2"
    using Cons.IH [OF Cons.prems(1) s1(2)] Cons.prems s1 by auto
  have "visit_neighbors p w h cells c goal (nb # nbs) s = Some s2" using s1(1) s2(1) by simp
  moreover have "\<forall>b. int b \<in> set (nb # nbs) \<and> grid_step p w h cells c b \<longrightarrow> b \<in> handled s2"
    using s1(6) s2(4,5) by auto
  ultimately show ?case using s1(3,4) s2(2-4) by (intro exI [of _ s2]) auto
qed simp


subsection \<open>The queue\<close>

text \<open>What the search relies on from the priority queue.\<close>

locale open_list =
  fixes pick :: "(nat \<Rightarrow> int) \<Rightarrow> nat list \<Rightarrow> nat"
  assumes pick_member: "os \<noteq> [] \<Longrightarrow> pick f os \<in> set os"
    and pick_least: "j \<in> set os \<Longrightarrow> f (pick f os) \<le> f j"

text \<open>One such queue: the first of the smallest.\<close>

fun first_least :: "(nat \<Rightarrow> int) \<Rightarrow> nat list \<Rightarrow> nat" where
  "first_least f [] = 0"
| "first_least f [i] = i"
| "first_least f (i # j # js) = (let k = first_least f (j # js) in if f i \<le> f k then i else k)"

interpretation first: open_list first_least
proof
  show "os \<noteq> [] \<Longrightarrow> first_least f os \<in> set os" for os f
    by (induction f os rule: first_least.induct) (auto simp: Let_def)
  show "j \<in> set os \<Longrightarrow> f (first_least f os) \<le> f j" for j os f
    by (induction f os arbitrary: j rule: first_least.induct) (fastforce simp: Let_def)+
qed

text \<open>Every neighbour of an expanded cell that the search may enter has been seen.\<close>

definition expanded :: "planner \<Rightarrow> nat \<Rightarrow> nat \<Rightarrow> u8 list \<Rightarrow> nat set \<Rightarrow> search \<Rightarrow> bool" where
  "expanded p w h cells cs s \<longleftrightarrow> (\<forall>c \<in> cs. \<forall>b. grid_step p w h cells c b \<longrightarrow> b \<in> handled s)"

lemma expanded_mono: "expanded p w h cells cs s \<Longrightarrow> handled s \<subseteq> handled s' \<Longrightarrow> expanded p w h cells cs s'"
  by (auto simp: expanded_def)

context open_list
begin

lemma pop_open_ok:
  assumes inv: "search_inv p w h cells start s" and ne: "sr_open s \<noteq> []"
  obtains c s' where "pop_open pick s = Some (c, s')" "search_inv p w h cells start s'"
    "c \<notin> closed_cells s" "closed_cells s' = insert c (closed_cells s)" "handled s' = handled s"
    "sr_g s' ! c + 269 \<le> 269 * int (card (closed_cells s'))"
    "\<forall>j \<in> set (sr_open s). sr_f s ! c \<le> sr_f s ! j"
proof -
  define c where "c = pick (\<lambda>i. sr_f s ! i) (sr_open s)"
  let ?s' = "s\<lparr>sr_open := remove1 c (sr_open s), sr_state := (sr_state s)[c := CLOSED]\<rparr>"
  have sizes: "length (sr_state s) = w * h" using inv by (simp add: search_inv_def sizes_ok_def)
  have "c \<in> set (sr_open s)" unfolding c_def by (rule pick_member [OF ne])
  then have c: "c \<in> handled s" "c \<notin> closed_cells s" using inv by (auto simp: search_inv_def)
  then have c_n: "c < w * h" using sizes by (simp add: handled_def)
  have cl: "closed_cells ?s' = insert c (closed_cells s)" and hd: "handled ?s' = handled s"
    using c c_n sizes by (auto simp: closed_cells_def handled_def nth_list_update)
  have card: "card (closed_cells ?s') = Suc (card (closed_cells s))" using c(2) cl by simp
  have "linked p w h cells ?s' j" if "j \<in> handled s - {start}" for j
    using inv that cl by (auto simp: search_inv_def linked_def)
  then have "search_inv p w h cells start ?s'"
    using inv cl hd card c by (simp add: search_inv_def sizes_ok_def) (auto intro: order_trans)
  moreover have "pop_open pick s = Some (c, ?s')" using c_n sizes by (simp add: pop_open_def c_def [symmetric] Let_def)
  moreover have "sr_g ?s' ! c + 269 \<le> 269 * int (card (closed_cells ?s'))"
    using inv c(1) unfolding card by (auto simp: search_inv_def)
  moreover have "\<forall>j \<in> set (sr_open s). sr_f s ! c \<le> sr_f s ! j"
    unfolding c_def by (blast intro: pick_least)
  ultimately show ?thesis using that c(2) cl hd by blast
qed

lemma search_loop_ok:
  assumes params: "search_params p w h cells" and goal: "goal < w * h"
    and inv: "search_inv p w h cells start s" and exp: "expanded p w h cells (closed_cells s) s"
    and not_yet: "goal \<notin> closed_cells s" "c \<noteq> goal"
  shows "\<exists>c' s'. search_loop pick p w h cells goal c s = Some (c', s') \<and> search_inv p w h cells start s' \<and>
    (c' = goal \<and> goal \<in> closed_cells s' \<or>
     c' \<noteq> goal \<and> goal \<notin> closed_cells s' \<and> sr_open s' = [] \<and> expanded p w h cells (closed_cells s') s')"
  using inv exp not_yet
proof (induction "w * h - card (closed_cells s)" arbitrary: s c rule: less_induct)
  case less
  show ?case
  proof (cases "sr_open s = []")
    case True
    then have "search_loop pick p w h cells goal c s = Some (c, s)" by (subst search_loop.simps) simp
    then show ?thesis using less.prems True by blast
  next
    case False
    obtain k s1 where pop: "pop_open pick s = Some (k, s1)" "search_inv p w h cells start s1"
      "k \<notin> closed_cells s" "closed_cells s1 = insert k (closed_cells s)" "handled s1 = handled s"
      "sr_g s1 ! k + 269 \<le> 269 * int (card (closed_cells s1))"
      by (rule pop_open_ok [OF less.prems(1) False]) (rule that)
    show ?thesis
    proof (cases "k = goal")
      case True
      then have "search_loop pick p w h cells goal c s = Some (k, s1)"
        using pop(1) False by (subst search_loop.simps) simp
      then show ?thesis using True pop(2,4) by blast
    next
      case ne: False
      obtain s2 where visit: "visit_neighbors p w h cells k goal (get_nine_neighbors w h (int k)) s1 = Some s2"
        "search_inv p w h cells start s2" "closed_cells s2 = closed_cells s1" "handled s1 \<subseteq> handled s2"
        "\<forall>b. int b \<in> set (get_nine_neighbors w h (int k)) \<and> grid_step p w h cells k b \<longrightarrow> b \<in> handled s2"
        using visit_neighbors_ok [OF params pop(2) _ goal pop(6) subset_refl] pop(4) by blast
      have "b \<in> handled s2" if "grid_step p w h cells k b" for b
        using visit(5) that neighbor_iff_adjacent [of k w h b] by (auto simp: grid_step_def)
      then have exp: "expanded p w h cells (closed_cells s2) s2"
        using expanded_mono [OF less.prems(2), of s2] visit(3,4) pop(4,5) by (auto simp: expanded_def)
      have "card (closed_cells s2) = Suc (card (closed_cells s))" using visit(3) pop(3,4) by simp
      moreover have "card (closed_cells s2) \<le> w * h" using visit(2) by (intro card_closed_le) (simp add: search_inv_def)
      ultimately have "w * h - card (closed_cells s2) < w * h - card (closed_cells s)" by linarith
      then have "\<exists>c' s'. search_loop pick p w h cells goal k s2 = Some (c', s') \<and> search_inv p w h cells start s' \<and>
        (c' = goal \<and> goal \<in> closed_cells s' \<or>
         c' \<noteq> goal \<and> goal \<notin> closed_cells s' \<and> sr_open s' = [] \<and> expanded p w h cells (closed_cells s') s')"
        using less.hyps visit(2,3) exp less.prems(3) pop(4) ne by (metis insert_iff)
      moreover have "search_loop pick p w h cells goal c s = search_loop pick p w h cells goal k s2"
        using False pop(1) ne visit(1) by (subst search_loop.simps) simp
      ultimately show ?thesis by simp
    qed
  qed
qed

lemma search_from_start:
  assumes params: "search_params p w h cells" and start: "start < w * h" and goal: "goal < w * h"
  shows "\<exists>s0 c' s'. search_start (w * h) start = Some s0 \<and> search_loop pick p w h cells goal 0 s0 = Some (c', s')
    \<and> search_inv p w h cells start s' \<and>
    (c' = goal \<and> goal \<in> closed_cells s' \<or>
     c' \<noteq> goal \<and> goal \<notin> closed_cells s' \<and> sr_open s' = [] \<and> expanded p w h cells (closed_cells s') s')"
proof -
  let ?n = "w * h"
  let ?s0 = "\<lparr>sr_g = (replicate ?n (int INT_MAX))[start := 0], sr_f = replicate ?n (int INT_MAX),
     sr_parent = replicate ?n INT_MAX, sr_state = replicate ?n NOT_HANDLED, sr_open = [start], sr_move = 0\<rparr>"
  define s1 where "s1 = ?s0\<lparr>sr_open := [], sr_state := (replicate ?n NOT_HANDLED)[start := CLOSED]\<rparr>"
  have fields: "sr_g s1 = (replicate ?n (int INT_MAX))[start := 0]" "sr_state s1 = (replicate ?n NOT_HANDLED)[start := CLOSED]"
    "sr_open s1 = []" "length (sr_f s1) = ?n" "length (sr_parent s1) = ?n" by (simp_all add: s1_def)
  have s0: "search_start ?n start = Some ?s0" using start by (simp add: search_start_def)
  have "pick (\<lambda>i. sr_f ?s0 ! i) [start] = start" using pick_member [of "[start]"] by simp
  then have pop: "pop_open pick ?s0 = Some (start, s1)" using start by (simp add: pop_open_def Let_def s1_def)
  have cl: "closed_cells s1 = {start}" "handled s1 = {start}"
    using start by (auto simp: closed_cells_def handled_def nth_list_update fields)
  have inv: "search_inv p w h cells start s1"
    using start by (simp add: search_inv_def cl sizes_ok_def fields)
  show ?thesis
  proof (cases "start = goal")
    case True
    have "search_loop pick p w h cells goal 0 ?s0 = Some (start, s1)"
      using True pop by (subst search_loop.simps) simp
    then show ?thesis using s0 inv True cl by blast
  next
    case False
    have bound: "sr_g s1 ! start + 269 \<le> 269 * int (card (closed_cells s1))" using start by (simp add: cl fields)
    have "start \<in> closed_cells s1" using cl by blast
    from visit_neighbors_ok [OF params inv this goal bound subset_refl] obtain s2 where
      visit: "visit_neighbors p w h cells start goal (get_nine_neighbors w h (int start)) s1 = Some s2"
      "search_inv p w h cells start s2" "closed_cells s2 = closed_cells s1"
      "\<forall>b. int b \<in> set (get_nine_neighbors w h (int start)) \<and> grid_step p w h cells start b \<longrightarrow> b \<in> handled s2"
      by blast
    have exp: "expanded p w h cells (closed_cells s2) s2"
      using visit(4) neighbor_iff_adjacent [OF start] unfolding visit(3) cl expanded_def by (auto simp: grid_step_def)
    have "goal \<notin> closed_cells s2" using visit(3) cl(1) False by simp
    from search_loop_ok [OF params goal visit(2) exp this False]
    have "\<exists>c' s'. search_loop pick p w h cells goal start s2 = Some (c', s') \<and> search_inv p w h cells start s' \<and>
      (c' = goal \<and> goal \<in> closed_cells s' \<or>
       c' \<noteq> goal \<and> goal \<notin> closed_cells s' \<and> sr_open s' = [] \<and> expanded p w h cells (closed_cells s') s')" .
    moreover have "search_loop pick p w h cells goal 0 ?s0 = search_loop pick p w h cells goal start s2"
      using False pop visit(1) by (subst search_loop.simps) simp
    ultimately show ?thesis using s0 by simp
  qed
qed

end

subsection \<open>The path\<close>

lemma trace_back_ok:
  assumes inv: "search_inv p w h cells start s"
  shows "i \<in> handled s \<Longrightarrow> \<exists>is. trace_back (sr_parent s) start i = Some is \<and> is \<noteq> [] \<and> hd is = i \<and> last is = start
    \<and> set is \<subseteq> handled s \<and> successively (\<lambda>a b. grid_step p w h cells b a) is"
proof (induction "nat (sr_g s ! i)" arbitrary: i rule: less_induct)
  case less
  show ?case
  proof (cases "i = start")
    case True
    then have "trace_back (sr_parent s) start i = Some [i]" by (subst trace_back.simps) simp
    then show ?thesis using True less.prems by simp
  next
    case False
    let ?j = "sr_parent s ! i"
    have link: "linked p w h cells s i" using inv less.prems False by (simp add: search_inv_def)
    then have j: "?j \<in> closed_cells s" "?j \<in> handled s" "sr_g s ! ?j < sr_g s ! i" "grid_step p w h cells ?j i"
      using closed_handled by (auto simp: linked_def)
    have "0 \<le> sr_g s ! ?j" by (rule closed_score_nonneg [OF inv j(1)])
    then have "nat (sr_g s ! ?j) < nat (sr_g s ! i)" using j(3) by simp
    from less.hyps [OF this j(2)] obtain "is" where
      "is": "trace_back (sr_parent s) start ?j = Some is" "is \<noteq> []" "hd is = ?j" "last is = start"
      "set is \<subseteq> handled s" "successively (\<lambda>a b. grid_step p w h cells b a) is" by blast
    have "i < length (sr_parent s)"
      using less.prems inv by (auto simp: handled_def search_inv_def sizes_ok_def)
    then have "trace_back (sr_parent s) start i = Some (i # is)"
      using False "is"(1) by (subst trace_back.simps) simp
    then show ?thesis using "is" j(4) less.prems by (auto simp: successively_Cons)
  qed
qed

text \<open>A route of the grid from one cell to another.\<close>

definition is_route :: "planner \<Rightarrow> nat \<Rightarrow> nat \<Rightarrow> u8 list \<Rightarrow> nat \<Rightarrow> nat \<Rightarrow> nat list \<Rightarrow> bool" where
  "is_route p w h cells a b is \<longleftrightarrow> is \<noteq> [] \<and> hd is = a \<and> last is = b \<and> set is \<subseteq> {..<w * h}
     \<and> successively (grid_step p w h cells) is"

lemma route_in_handled:
  assumes "expanded p w h cells (closed_cells s) s" "handled s \<subseteq> closed_cells s"
    and "successively (grid_step p w h cells) is" "is \<noteq> []" "hd is \<in> handled s"
  shows "last is \<in> handled s"
  using assms(3-5)
proof (induction "is")
  case (Cons a "is")
  show ?case
  proof (cases "is = []")
    case False
    then have "grid_step p w h cells a (hd is)" using Cons.prems(1) by (simp add: successively_Cons)
    then have "hd is \<in> handled s" using assms(1,2) Cons.prems(3) by (auto simp: expanded_def)
    then show ?thesis using Cons.IH Cons.prems(1) False by (simp add: successively_Cons)
  qed (use Cons.prems in simp)
qed simp

lemma cell_poses:
  assumes "map_ok m" "\<forall>i \<in> set is. i < cm_size_x m * cm_size_y m"
  shows "\<exists>poses. those (map (cell_pose m) is) = Some poses \<and> length poses = length is \<and>
    (\<forall>k < length is. (pos_x (poses ! k), pos_y (poses ! k)) = map_to_world m (is ! k mod cm_size_x m) (is ! k div cm_size_x m))"
  using assms(2)
proof (induction "is")
  case (Cons i "is")
  then obtain poses where poses: "those (map (cell_pose m) is) = Some poses" "length poses = length is"
    "\<forall>k < length is. (pos_x (poses ! k), pos_y (poses ! k)) = map_to_world m (is ! k mod cm_size_x m) (is ! k div cm_size_x m)"
    by auto
  have "cm_size_x m \<noteq> 0" using Cons.prems by (cases "cm_size_x m") auto
  then obtain q where q: "cell_pose m i = Some q"
    "(pos_x q, pos_y q) = map_to_world m (i mod cm_size_x m) (i div cm_size_x m)"
    by (simp add: cell_pose_def index_to_cells_def Let_def minus_div_mult_eq_mod)
  have "those (map (cell_pose m) (i # is)) = Some (q # poses)" using q(1) poses(1) by simp
  moreover have "\<forall>k < length (i # is). (pos_x ((q # poses) ! k), pos_y ((q # poses) ! k)) =
      map_to_world m ((i # is) ! k mod cm_size_x m) ((i # is) ! k div cm_size_x m)"
    using q(2) poses(3) by (auto simp: nth_Cons split: nat.splits)
  ultimately show ?case using poses(2) by (intro exI [of _ "q # poses"]) simp
qed simp

text \<open>C25. For every behaviour of the priority queue the search returns: with a path whose poses are the centres of the cells of a route from start to goal through cells that are not blocked, or, exactly when there is no such route, with GP_PATH_SEARCH_ERROR and the old path.\<close>

theorem search_path_correct:
  assumes queue: "open_list pick" and ok: "map_ok m" and cells: "cm_cells m = Some cells"
    and params: "search_params p (cm_size_x m) (cm_size_y m) cells"
    and start: "start < cm_size_x m * cm_size_y m" and goal: "goal < cm_size_x m * cm_size_y m"
  shows "\<exists>e path'. search_path pick p m start goal path = Some (e, path') \<and>
    (is_ok e \<and> (\<exists>is. is_route p (cm_size_x m) (cm_size_y m) cells start goal is \<and> length path' = length is \<and>
        (\<forall>k < length is. (pos_x (path' ! k), pos_y (path' ! k)) = map_to_world m (is ! k mod cm_size_x m) (is ! k div cm_size_x m)))
     \<or> ei_code e = GP_PATH_SEARCH_ERROR \<and> path' = path \<and>
        \<not> (\<exists>is. is_route p (cm_size_x m) (cm_size_y m) cells start goal is))"
proof -
  let ?w = "cm_size_x m" and ?h = "cm_size_y m"
  have count: "cm_cell_count m = ?w * ?h" using ok by (simp add: cm_cell_count_def map_ok_def)
  obtain s0 c s where run: "search_start (?w * ?h) start = Some s0" "search_loop pick p ?w ?h cells goal 0 s0 = Some (c, s)"
    and inv: "search_inv p ?w ?h cells start s"
    and outcome: "c = goal \<and> goal \<in> closed_cells s \<or>
      c \<noteq> goal \<and> goal \<notin> closed_cells s \<and> sr_open s = [] \<and> expanded p ?w ?h cells (closed_cells s) s"
    using open_list.search_from_start [OF queue params start goal] by blast
  have in_grid: "handled s \<subseteq> {..<?w * ?h}" using inv by (auto simp: handled_def search_inv_def sizes_ok_def)
  from outcome show ?thesis
  proof
    assume found: "c = goal \<and> goal \<in> closed_cells s"
    then obtain "is" where tr: "trace_back (sr_parent s) start goal = Some is" "is \<noteq> []" "hd is = goal" "last is = start"
      "set is \<subseteq> handled s" "successively (\<lambda>a b. grid_step p ?w ?h cells b a) is"
      using trace_back_ok [OF inv, of goal] closed_handled by blast
    have route: "is_route p ?w ?h cells start goal (rev is)"
      using tr in_grid by (auto simp: is_route_def hd_rev last_rev)
    then obtain poses where "those (map (cell_pose m) (rev is)) = Some poses" "length poses = length (rev is)"
      "\<forall>k < length (rev is). (pos_x (poses ! k), pos_y (poses ! k)) = map_to_world m (rev is ! k mod ?w) (rev is ! k div ?w)"
      using cell_poses [OF ok, of "rev is"] by (auto simp: is_route_def)
    moreover from this have "search_path pick p m start goal path = Some (error_info_new OK [], poses)"
      using run found tr(1) cells count by (simp add: search_path_def search_cells_def Let_def)
    ultimately show ?thesis using route by (intro exI [of _ "error_info_new OK []"] exI [of _ poses]) auto
  next
    assume failed: "c \<noteq> goal \<and> goal \<notin> closed_cells s \<and> sr_open s = [] \<and> expanded p ?w ?h cells (closed_cells s) s"
    have all_closed: "handled s \<subseteq> closed_cells s" using inv failed by (simp add: search_inv_def)
    have "start \<in> handled s" using inv closed_handled by (auto simp: search_inv_def)
    then have "\<not> is_route p ?w ?h cells start goal is" for "is"
      using route_in_handled [of p ?w ?h cells s "is"] failed all_closed by (auto simp: is_route_def)
    moreover have "search_path pick p m start goal path =
        Some (error_info_new GP_PATH_SEARCH_ERROR ''Valid global path not found.'', path)"
      using run failed cells count by (simp add: search_path_def search_cells_def Let_def)
    ultimately show ?thesis by (auto simp: error_info_new_def)
  qed
qed

definition example_planner :: planner where
  "example_planner = \<lparr>heuristic_factor = 1, inaccessible_cost = 253, goal_search_tolerance = 2\<rparr>"

theorem search_path_correct_witness:
  "\<exists>e path'. search_path first_least example_planner small_map 0 5 [] = Some (e, path') \<and> is_ok e \<and> path' \<noteq> []"
proof -
  have cells: "cm_cells small_map = Some [1, 2, 3, 4, 5, 6]" by (simp add: small_map_def)
  have params: "search_params example_planner (cm_size_x small_map) (cm_size_y small_map) [1, 2, 3, 4, 5, 6]"
    by (simp add: search_params_def small_map_def example_planner_def)
  have ends: "0 < cm_size_x small_map * cm_size_y small_map" "5 < cm_size_x small_map * cm_size_y small_map"
    by (simp_all add: small_map_def)
  have "is_route example_planner (cm_size_x small_map) (cm_size_y small_map) [1, 2, 3, 4, 5, 6] 0 5 [0, 4, 5]"
    by (simp add: is_route_def grid_step_def adjacent_def distance_def small_map_def example_planner_def)
  moreover obtain e path' where "search_path first_least example_planner small_map 0 5 [] = Some (e, path')"
    and "is_ok e \<and> (\<exists>is. is_route example_planner (cm_size_x small_map) (cm_size_y small_map) [1, 2, 3, 4, 5, 6] 0 5 is
        \<and> length path' = length is \<and> (\<forall>k < length is. (pos_x (path' ! k), pos_y (path' ! k)) =
          map_to_world small_map (is ! k mod cm_size_x small_map) (is ! k div cm_size_x small_map)))
      \<or> ei_code e = GP_PATH_SEARCH_ERROR \<and> path' = [] \<and>
        \<not> (\<exists>is. is_route example_planner (cm_size_x small_map) (cm_size_y small_map) [1, 2, 3, 4, 5, 6] 0 5 is)"
    using search_path_correct [OF first.open_list_axioms small_map_ok cells params ends, of "[]"] by (elim exE conjE) (rule that)
  moreover have "length path' = length is \<Longrightarrow> is_route p w h cs a b is \<Longrightarrow> path' \<noteq> []" for p w h cs a b "is"
    by (auto simp: is_route_def)
  ultimately show ?thesis by blast
qed

text \<open>When the goal cell is blocked and closer than the search tolerance to the lower or left border, the unsigned lower bound of the goal search wraps around, no cell is tried, and Plan reports an invalid goal with an empty path, however many free cells surround the goal.\<close>

theorem plan_rejects_goal_near_lower_border:
  assumes ok: "map_ok m" and start: "world_to_map m (pos_x start) (pos_y start) = Some (Some s)"
    and goal: "world_to_map m (pos_x goal) (pos_y goal) = Some (Some (gx, gy))" "in_map m gx gy"
    and blocked: "inaccessible_cost p \<le> unat (cost_at m gx gy)"
    and near: "gx < goal_search_tolerance p \<or> gy < goal_search_tolerance p" "goal_search_tolerance p < 2 ^ 31"
  shows "plan pick p start goal path m = Some (error_info_new GP_GOAL_INVALID_ERROR [], [], m)"
proof -
  let ?t = "goal_search_tolerance p"
  have small: "gx < 2 ^ 31" "gy < 2 ^ 31" using in_map_small [OF ok goal(2)] goal(2) by (auto simp: in_map_def)
  have range: "counted (sub32 g ?t) (wrap32 (g + ?t)) = Some (if g < ?t then [] else [g - ?t..<Suc (g + ?t)])"
    if "g < 2 ^ 31" for g
    using that near(2) sub32_le [of ?t g] sub32_wraps [of g ?t] by (auto simp: counted_def UINT_MAX_def simp del: upt_Suc)
  have none: "concat (map (\<lambda>y. []) ys) = ([] :: location list)" for ys :: "nat list" by (induction ys) simp_all
  have "search_goal p m (gx, gy) = Some None"
    using near(1) by (auto simp: none search_goal_def Let_def range [OF small(1)] range [OF small(2)] simp del: upt_Suc)
  then have "choose_goal p m (gx, gy) = Some None"
    using get_cost_ok [OF ok goal(2)] blocked by (simp add: choose_goal_def)
  then show ?thesis using start goal(1) by (simp add: plan_def)
qed

theorem plan_rejects_goal_near_lower_border_witness:
  "plan first_least (example_planner\<lparr>inaccessible_cost := 2\<rparr>)
     \<lparr>frame_id = ''map'', pos_x = -1, pos_y = 0, pos_z = 0, orientation = (0, 0, 0, 1)\<rparr>
     \<lparr>frame_id = ''map'', pos_x = -1 / 2, pos_y = 0, pos_z = 0, orientation = (0, 0, 0, 1)\<rparr> [] small_map =
   Some (error_info_new GP_GOAL_INVALID_ERROR [], [], small_map)"
  by (rule plan_rejects_goal_near_lower_border [OF small_map_ok, where s = "(0, 0)" and gx = 1 and gy = 0])
    (simp_all add: small_map_def world_to_map_def to_cell_def quotient_def to_int_def trunc_real_def to_unsigned_def
      in_map_def cost_at_def example_planner_def)

end
