(* ===== verification/CostLayer.thy ===== *)
theory CostLayer
  imports CostMap
begin

text \<open>
  What the layers of the cost map share: the cost values of \<open>map_common.h\<close>, the bounds that
  \<open>UpdateBounds\<close> passes from layer to layer, and the class \<open>CostmapLayer\<close> of \<open>costmap_layer.h\<close>
  and \<open>costmap_layer.cpp\<close>, a map of its own with four ways to write it into the master grid.
\<close>

subsection \<open>Costs and bounds\<close>

definition NO_INFORMATION :: u8 where "NO_INFORMATION = 255"
definition LETHAL_OBSTACLE :: u8 where "LETHAL_OBSTACLE = 254"
definition INSCRIBED_INFLATED_OBSTACLE :: u8 where "INSCRIBED_INFLATED_OBSTACLE = 253"
definition FREE_SPACE :: u8 where "FREE_SPACE = 0"

definition FLT_MAX :: real where "FLT_MAX = (2 - 1 / 2 ^ 23) * 2 ^ 127"

text \<open>The conversions of a \<open>double\<close> to \<open>unsigned\<close> and to \<open>unsigned char\<close>.\<close>

definition real_to_u32 :: "real \<Rightarrow> nat option" where
  "real_to_u32 x = (if -1 < x \<and> x < 2 ^ 32 then Some (nat (trunc_real x)) else None)"

definition real_to_u8 :: "real \<Rightarrow> u8 option" where
  "real_to_u8 x = (if -1 < x \<and> x < 2 ^ 8 then Some (word_of_int (trunc_real x)) else None)"

text \<open>The bounds that \<open>UpdateBounds\<close> passes on: minimal \<open>x\<close>, minimal \<open>y\<close>, maximal \<open>x\<close>, maximal \<open>y\<close>.\<close>

record bounds =
  min_x :: real
  min_y :: real
  max_x :: real
  max_y :: real

definition touch :: "real \<Rightarrow> real \<Rightarrow> bounds \<Rightarrow> bounds" where
  "touch x y b = \<lparr>min_x = min x (min_x b), min_y = min y (min_y b), max_x = max x (max_x b), max_y = max y (max_y b)\<rparr>"

definition no_extra_bounds :: bounds where
  "no_extra_bounds = \<lparr>min_x = 10 ^ 6, min_y = 10 ^ 6, max_x = - (10 ^ 6), max_y = - (10 ^ 6)\<rparr>"

subsection \<open>The layer\<close>

record cost_layer =
  cl_map :: costmap
  cl_current :: bool
  cl_enabled :: bool
  cl_has_extra :: bool
  cl_extra :: bounds

definition cost_layer_new :: "costmap \<Rightarrow> cost_layer" where
  "cost_layer_new m = \<lparr>cl_map = m, cl_current = False, cl_enabled = False, cl_has_extra = False, cl_extra = no_extra_bounds\<rparr>"

text \<open>\<open>MatchSize\<close>: the layer takes the size and place of the master grid.\<close>

definition match_size :: "(nat \<Rightarrow> u8) \<Rightarrow> costmap \<Rightarrow> cost_layer \<Rightarrow> cost_layer option" where
  "match_size raw master l = do {
     m \<leftarrow> resize_map raw (cm_size_x master) (cm_size_y master) (cm_resolution master)
       (cm_origin_x master) (cm_origin_y master) (cl_map l);
     Some (l\<lparr>cl_map := m\<rparr>) }"

definition add_extra_bounds :: "real \<Rightarrow> real \<Rightarrow> real \<Rightarrow> real \<Rightarrow> cost_layer \<Rightarrow> cost_layer" where
  "add_extra_bounds mx0 my0 mx1 my1 l =
     l\<lparr>cl_extra := \<lparr>min_x = min mx0 (min_x (cl_extra l)), min_y = min my0 (min_y (cl_extra l)),
         max_x = max mx1 (max_x (cl_extra l)), max_y = max my1 (max_y (cl_extra l))\<rparr>,
       cl_has_extra := True\<rparr>"

definition use_extra_bounds :: "bounds \<Rightarrow> cost_layer \<Rightarrow> bounds \<times> cost_layer" where
  "use_extra_bounds b l =
     (if \<not> cl_has_extra l then (b, l)
      else (\<lparr>min_x = min (min_x (cl_extra l)) (min_x b), min_y = min (min_y (cl_extra l)) (min_y b),
             max_x = max (max_x (cl_extra l)) (max_x b), max_y = max (max_y (cl_extra l)) (max_y b)\<rparr>,
            l\<lparr>cl_extra := no_extra_bounds, cl_has_extra := False\<rparr>))"

subsection \<open>Writing a layer into the master grid\<close>

text \<open>What one turn of the inner loop does to the master array, given the layer's cost of the cell.\<close>

definition put_max :: "u8 \<Rightarrow> nat \<Rightarrow> u8 list \<Rightarrow> u8 list option" where
  "put_max c it master =
     (if c = NO_INFORMATION then Some master
      else do {
        old_cost \<leftarrow> at_opt master it;
        if old_cost = NO_INFORMATION \<or> old_cost < c then set_opt master it c else Some master })"

definition put_all :: "u8 \<Rightarrow> nat \<Rightarrow> u8 list \<Rightarrow> u8 list option" where
  "put_all c it master = set_opt master it c"

definition put_valid :: "u8 \<Rightarrow> nat \<Rightarrow> u8 list \<Rightarrow> u8 list option" where
  "put_valid c it master = (if c \<noteq> NO_INFORMATION then set_opt master it c else Some master)"

definition put_add :: "u8 \<Rightarrow> nat \<Rightarrow> u8 list \<Rightarrow> u8 list option" where
  "put_add c it master =
     (if c = NO_INFORMATION then Some master
      else do {
        old_cost \<leftarrow> at_opt master it;
        if old_cost = NO_INFORMATION then set_opt master it c
        else let sum = uint old_cost + uint c
             in if sum \<ge> uint INSCRIBED_INFLATED_OBSTACLE
                then set_opt master it (INSCRIBED_INFLATED_OBSTACLE - 1)
                else set_opt master it (word_of_int sum) })"

text \<open>The inner loop over \<open>n\<close> cells from index \<open>it\<close>, and the loop over the rows; indices are unsigned.\<close>

primrec overwrite_row :: "(u8 \<Rightarrow> nat \<Rightarrow> u8 list \<Rightarrow> u8 list option) \<Rightarrow> u8 list \<Rightarrow> nat \<Rightarrow> nat \<Rightarrow> u8 list \<Rightarrow> u8 list option" where
  "overwrite_row put layer 0 it master = Some master"
| "overwrite_row put layer (Suc n) it master = do {
     c \<leftarrow> at_opt layer it;
     master' \<leftarrow> put c it master;
     overwrite_row put layer n (wrap32 (it + 1)) master' }"

primrec overwrite_rows :: "(u8 \<Rightarrow> nat \<Rightarrow> u8 list \<Rightarrow> u8 list option) \<Rightarrow> u8 list \<Rightarrow> nat \<Rightarrow> int \<Rightarrow> int \<Rightarrow> int list \<Rightarrow> u8 list \<Rightarrow> u8 list option" where
  "overwrite_rows put layer width min_i max_i [] master = Some master"
| "overwrite_rows put layer width min_i max_i (j # js) master = do {
     let it = to_unsigned (int (wrap32 (to_unsigned j * width)) + min_i);
     master' \<leftarrow> overwrite_row put layer (nat (max_i - min_i)) it master;
     overwrite_rows put layer width min_i max_i js master' }"

text \<open>A null array has no cell to read or write.\<close>

definition cells_of :: "costmap \<Rightarrow> u8 list" where
  "cells_of m = (case cm_cells m of None \<Rightarrow> [] | Some cells \<Rightarrow> cells)"

definition overwrite :: "(u8 \<Rightarrow> nat \<Rightarrow> u8 list \<Rightarrow> u8 list option) \<Rightarrow> cost_layer \<Rightarrow> int \<Rightarrow> int \<Rightarrow> int \<Rightarrow> int \<Rightarrow> costmap \<Rightarrow> costmap option" where
  "overwrite put l min_i min_j max_i max_j master = do {
     cells \<leftarrow> overwrite_rows put (cells_of (cl_map l)) (cm_size_x master) min_i max_i [min_j..max_j - 1] (cells_of master);
     Some (master\<lparr>cm_cells := map_option (\<lambda>_. cells) (cm_cells master)\<rparr>) }"

definition update_overwrite_by_max :: "cost_layer \<Rightarrow> int \<Rightarrow> int \<Rightarrow> int \<Rightarrow> int \<Rightarrow> costmap \<Rightarrow> costmap option" where
  "update_overwrite_by_max l min_i min_j max_i max_j master =
     (if \<not> cl_enabled l then Some master else overwrite put_max l min_i min_j max_i max_j master)"

definition update_overwrite_by_all :: "cost_layer \<Rightarrow> int \<Rightarrow> int \<Rightarrow> int \<Rightarrow> int \<Rightarrow> costmap \<Rightarrow> costmap option" where
  "update_overwrite_by_all l min_i min_j max_i max_j master =
     (if \<not> cl_current l then Some master else overwrite put_all l min_i min_j max_i max_j master)"

definition update_overwrite_by_valid :: "cost_layer \<Rightarrow> int \<Rightarrow> int \<Rightarrow> int \<Rightarrow> int \<Rightarrow> costmap \<Rightarrow> costmap option" where
  "update_overwrite_by_valid l min_i min_j max_i max_j master =
     (if \<not> cl_enabled l then Some master else overwrite put_valid l min_i min_j max_i max_j master)"

definition update_overwrite_by_add :: "cost_layer \<Rightarrow> int \<Rightarrow> int \<Rightarrow> int \<Rightarrow> int \<Rightarrow> costmap \<Rightarrow> costmap option" where
  "update_overwrite_by_add l min_i min_j max_i max_j master =
     (if \<not> cl_enabled l then Some master else overwrite put_add l min_i min_j max_i max_j master)"

subsection \<open>The merged costs\<close>

text \<open>A way of writing one cell that merges the layer's cost with the old cost of the master grid.\<close>

locale cell_writer =
  fixes put :: "u8 \<Rightarrow> nat \<Rightarrow> u8 list \<Rightarrow> u8 list option" and merge :: "u8 \<Rightarrow> u8 \<Rightarrow> u8"
  assumes put_ok: "it < length master \<Longrightarrow> put c it master = Some (master[it := merge c (master ! it)])"
begin

lemma overwrite_row_ok:
  assumes "it + n \<le> length master" "length layer = length master" "length master < 2 ^ 31"
  shows "\<exists>master'. overwrite_row put layer n it master = Some master' \<and> length master' = length master
    \<and> (\<forall>k < length master. master' ! k = (if it \<le> k \<and> k < it + n then merge (layer ! k) (master ! k) else master ! k))"
  using assms
proof (induction n arbitrary: it master)
  case (Suc n)
  let ?m = "master[it := merge (layer ! it) (master ! it)]"
  have "wrap32 (it + 1) = Suc it" using Suc.prems by simp
  moreover obtain m' where "overwrite_row put layer n (Suc it) ?m = Some m'" "length m' = length ?m"
    "\<forall>k < length ?m. m' ! k = (if Suc it \<le> k \<and> k < Suc it + n then merge (layer ! k) (?m ! k) else ?m ! k)"
    using Suc.IH [of "Suc it" ?m] Suc.prems by auto
  ultimately show ?case using Suc.prems
    by (auto simp: put_ok nth_list_update not_less_eq_eq dest!: le_antisym)
qed auto

lemma overwrite_row_at:
  assumes "0 \<le> min_i" "max_i \<le> int w" "0 \<le> j" "j < int h"
    and "length master = w * h" "length layer = w * h" "w * h < 2 ^ 31"
  shows "\<exists>master'. overwrite_row put layer (nat (max_i - min_i)) (to_unsigned (int (wrap32 (to_unsigned j * w)) + min_i)) master = Some master'
    \<and> length master' = w * h
    \<and> (\<forall>x y. x < w \<and> y < h \<longrightarrow> master' ! (y * w + x) =
        (if min_i \<le> int x \<and> int x < max_i \<and> int y = j
         then merge (layer ! (y * w + x)) (master ! (y * w + x)) else master ! (y * w + x)))"
proof (cases "min_i < max_i")
  case True
  define a n where "a = nat min_i" and "n = nat (max_i - min_i)"
  define r where "r = nat j"
  have eqs: "min_i = int a" "max_i = int (a + n)" "j = int r" "0 < n" and bound: "a + n \<le> w" "r < h"
    using True assms(1-4) by (simp_all add: a_def n_def r_def)
  have le: "r * w + (a + n) \<le> w * h"
  proof -
    have "r * w + (a + n) \<le> Suc r * w" using bound by simp
    also have "\<dots> \<le> h * w" using bound by (intro mult_le_mono1) simp
    finally show ?thesis by (simp add: mult.commute)
  qed
  have small: "r * w < 2 ^ 32" "r * w + a < 2 ^ 32" using le assms(7) by simp_all
  have "r < 2 ^ 32" if "0 < w"
    using le_less_trans [of r "r * w" "2 ^ 32"] that small(1) by simp
  then have unsigned_j: "to_unsigned j * w = r * w"
    by (cases "w = 0") (simp_all add: eqs to_unsigned_def)
  have "to_unsigned (int (wrap32 (to_unsigned j * w)) + min_i) = r * w + a"
    using small unfolding unsigned_j by (simp add: eqs to_unsigned_def flip: of_nat_mult of_nat_add)
  moreover have "r * w + a \<le> y * w + x \<and> y * w + x < r * w + a + n \<longleftrightarrow> a \<le> x \<and> x < a + n \<and> y = r"
    if "x < w" "y < h" for x y
  proof
    assume *: "r * w + a \<le> y * w + x \<and> y * w + x < r * w + a + n"
    have "y = r"
    proof (rule ccontr)
      assume "y \<noteq> r"
      then consider "Suc y \<le> r" | "Suc r \<le> y" by linarith
      then show False
      proof cases
        case 1
        then have "Suc y * w \<le> r * w" by (rule mult_le_mono1)
        then show ?thesis using * that bound by simp
      next
        case 2
        then have "Suc r * w \<le> y * w" by (rule mult_le_mono1)
        then show ?thesis using * that bound by simp
      qed
    qed
    then show "a \<le> x \<and> x < a + n \<and> y = r" using * by simp
  qed simp
  moreover have "y * w + x < w * h" if "x < w" "y < h" for x y using that by (rule grid_index_less)
  ultimately show ?thesis
    using overwrite_row_ok [of "r * w + a" n master layer] le assms(5-7) by (force simp: eqs)
next
  case False
  then show ?thesis using assms(5) by auto
qed

lemma overwrite_rows_ok:
  assumes "0 \<le> min_i" "max_i \<le> int w" "\<forall>j \<in> set js. 0 \<le> j \<and> j < int h" "distinct js"
    and "length master = w * h" "length layer = w * h" "w * h < 2 ^ 31"
  shows "\<exists>master'. overwrite_rows put layer w min_i max_i js master = Some master' \<and> length master' = w * h
    \<and> (\<forall>x y. x < w \<and> y < h \<longrightarrow> master' ! (y * w + x) =
        (if min_i \<le> int x \<and> int x < max_i \<and> int y \<in> set js
         then merge (layer ! (y * w + x)) (master ! (y * w + x)) else master ! (y * w + x)))"
  using assms(3-5)
proof (induction js arbitrary: master)
  case (Cons j js)
  obtain m1 where m1: "overwrite_row put layer (nat (max_i - min_i)) (to_unsigned (int (wrap32 (to_unsigned j * w)) + min_i)) master = Some m1"
    "length m1 = w * h"
    "\<forall>x y. x < w \<and> y < h \<longrightarrow> m1 ! (y * w + x) = (if min_i \<le> int x \<and> int x < max_i \<and> int y = j
         then merge (layer ! (y * w + x)) (master ! (y * w + x)) else master ! (y * w + x))"
    using overwrite_row_at [of min_i max_i w j h master layer] assms(1,2,6,7) Cons.prems by auto
  obtain m2 where m2: "overwrite_rows put layer w min_i max_i js m1 = Some m2" "length m2 = w * h"
    "\<forall>x y. x < w \<and> y < h \<longrightarrow> m2 ! (y * w + x) = (if min_i \<le> int x \<and> int x < max_i \<and> int y \<in> set js
         then merge (layer ! (y * w + x)) (m1 ! (y * w + x)) else m1 ! (y * w + x))"
    using Cons.IH [of m1] Cons.prems m1(2) by auto
  show ?case
  proof (intro exI [of _ m2] conjI allI impI)
    show "overwrite_rows put layer w min_i max_i (j # js) master = Some m2" using m1(1) m2(1) by simp
    fix x y assume *: "x < w \<and> y < h"
    show "m2 ! (y * w + x) = (if min_i \<le> int x \<and> int x < max_i \<and> int y \<in> set (j # js)
        then merge (layer ! (y * w + x)) (master ! (y * w + x)) else master ! (y * w + x))"
      using m1(3) m2(3) * Cons.prems(2) by auto
  qed (rule m2(2))
qed simp

text \<open>Inside the window every cell is merged, outside nothing changes.\<close>

lemma overwrite_ok:
  assumes "map_ok master" "map_ok (cl_map l)" "cm_size_x (cl_map l) = cm_size_x master" "cm_size_y (cl_map l) = cm_size_y master"
    and "0 \<le> min_i" "max_i \<le> int (cm_size_x master)" "0 \<le> min_j" "max_j \<le> int (cm_size_y master)"
  obtains master' where "overwrite put l min_i min_j max_i max_j master = Some master'" "map_ok master'"
    "master' = master\<lparr>cm_cells := cm_cells master'\<rparr>"
    "\<And>x y. in_map master x y \<Longrightarrow> cost_at master' x y =
      (if min_i \<le> int x \<and> int x < max_i \<and> min_j \<le> int y \<and> int y < max_j
       then merge (cost_at (cl_map l) x y) (cost_at master x y) else cost_at master x y)"
proof -
  obtain cells layer where cells: "cm_cells master = Some cells" "length cells = cm_size_x master * cm_size_y master"
    and layer: "cm_cells (cl_map l) = Some layer" "length layer = cm_size_x master * cm_size_y master"
    using assms(1-4) unfolding map_ok_def by (elim conjE exE) simp
  obtain m' where m': "overwrite_rows put layer (cm_size_x master) min_i max_i [min_j..max_j - 1] cells = Some m'"
    "length m' = cm_size_x master * cm_size_y master"
    "\<forall>x y. x < cm_size_x master \<and> y < cm_size_y master \<longrightarrow> m' ! (y * cm_size_x master + x) =
        (if min_i \<le> int x \<and> int x < max_i \<and> int y \<in> set [min_j..max_j - 1]
         then merge (layer ! (y * cm_size_x master + x)) (cells ! (y * cm_size_x master + x)) else cells ! (y * cm_size_x master + x))"
    using overwrite_rows_ok [of min_i max_i "cm_size_x master" "[min_j..max_j - 1]" "cm_size_y master" cells layer]
      assms(1,5-8) cells(2) layer(2) by (auto simp: map_ok_def)
  show ?thesis
  proof (rule that [of "master\<lparr>cm_cells := Some m'\<rparr>"])
    show "overwrite put l min_i min_j max_i max_j master = Some (master\<lparr>cm_cells := Some m'\<rparr>)"
      using m'(1) cells(1) layer(1) by (simp add: overwrite_def cells_of_def)
    show "map_ok (master\<lparr>cm_cells := Some m'\<rparr>)" using assms(1) m'(2) by (simp add: map_ok_def)
  qed (use m'(3) cells(1) layer(1) assms(3) in \<open>auto simp: cost_at_def in_map_def\<close>)
qed

end

definition merge_max :: "u8 \<Rightarrow> u8 \<Rightarrow> u8" where
  "merge_max c old = (if c = NO_INFORMATION then old else if old = NO_INFORMATION then c else max old c)"

definition merge_valid :: "u8 \<Rightarrow> u8 \<Rightarrow> u8" where
  "merge_valid c old = (if c = NO_INFORMATION then old else c)"

definition merge_add :: "u8 \<Rightarrow> u8 \<Rightarrow> u8" where
  "merge_add c old = (if c = NO_INFORMATION then old else if old = NO_INFORMATION then c
     else if uint old + uint c < 253 then old + c else 252)"

interpretation by_max: cell_writer put_max merge_max
  by unfold_locales (auto simp: put_max_def merge_max_def max_def)

interpretation by_all: cell_writer put_all "\<lambda>c old. c"
  by unfold_locales (simp add: put_all_def)

interpretation by_valid: cell_writer put_valid merge_valid
  by unfold_locales (simp add: put_valid_def merge_valid_def)

interpretation by_add: cell_writer put_add merge_add
  by unfold_locales (auto simp: put_add_def merge_add_def INSCRIBED_INFLATED_OBSTACLE_def min_def Let_def)

subsection \<open>The four methods\<close>

text \<open>The master grid after a layer was merged into the window.\<close>

definition window_merged :: "(u8 \<Rightarrow> u8 \<Rightarrow> u8) \<Rightarrow> cost_layer \<Rightarrow> int \<Rightarrow> int \<Rightarrow> int \<Rightarrow> int \<Rightarrow> costmap \<Rightarrow> costmap \<Rightarrow> bool" where
  "window_merged merge l min_i min_j max_i max_j master master' \<longleftrightarrow> map_ok master'
     \<and> master' = master\<lparr>cm_cells := cm_cells master'\<rparr>
     \<and> (\<forall>x y. in_map master x y \<longrightarrow> cost_at master' x y =
          (if min_i \<le> int x \<and> int x < max_i \<and> min_j \<le> int y \<and> int y < max_j
           then merge (cost_at (cl_map l) x y) (cost_at master x y) else cost_at master x y))"

definition layer_fits :: "cost_layer \<Rightarrow> costmap \<Rightarrow> bool" where
  "layer_fits l master \<longleftrightarrow> map_ok (cl_map l) \<and> cm_size_x (cl_map l) = cm_size_x master \<and> cm_size_y (cl_map l) = cm_size_y master"

definition window_ok :: "costmap \<Rightarrow> int \<Rightarrow> int \<Rightarrow> int \<Rightarrow> int \<Rightarrow> bool" where
  "window_ok master min_i min_j max_i max_j \<longleftrightarrow>
     0 \<le> min_i \<and> max_i \<le> int (cm_size_x master) \<and> 0 \<le> min_j \<and> max_j \<le> int (cm_size_y master)"

lemma window_mergedD:
  assumes "window_merged merge l min_i min_j max_i max_j master master'"
  shows "map_ok master'" "master' = master\<lparr>cm_cells := cm_cells master'\<rparr>"
    "cm_size_x master' = cm_size_x master" "cm_size_y master' = cm_size_y master"
    "in_map master x y \<Longrightarrow> cost_at master' x y =
      (if min_i \<le> int x \<and> int x < max_i \<and> min_j \<le> int y \<and> int y < max_j
       then merge (cost_at (cl_map l) x y) (cost_at master x y) else cost_at master x y)"
proof -
  show same: "master' = master\<lparr>cm_cells := cm_cells master'\<rparr>" using assms by (simp add: window_merged_def)
  show "map_ok master'" using assms by (simp add: window_merged_def)
  show "cm_size_x master' = cm_size_x master" "cm_size_y master' = cm_size_y master" by (subst same, simp)+
  show "in_map master x y \<Longrightarrow> cost_at master' x y =
      (if min_i \<le> int x \<and> int x < max_i \<and> min_j \<le> int y \<and> int y < max_j
       then merge (cost_at (cl_map l) x y) (cost_at master x y) else cost_at master x y)"
    using assms by (simp add: window_merged_def)
qed

lemma overwrite_merges:
  assumes "cell_writer put merge" "map_ok master" "layer_fits l master" "window_ok master min_i min_j max_i max_j"
  shows "\<exists>master'. overwrite put l min_i min_j max_i max_j master = Some master'
    \<and> window_merged merge l min_i min_j max_i max_j master master'"
  using cell_writer.overwrite_ok [OF assms(1,2), of l min_i max_i min_j max_j] assms(3,4)
  unfolding layer_fits_def window_ok_def window_merged_def by metis

lemmas overwrite_merges_by =
  overwrite_merges [OF by_max.cell_writer_axioms] overwrite_merges [OF by_all.cell_writer_axioms]
  overwrite_merges [OF by_valid.cell_writer_axioms] overwrite_merges [OF by_add.cell_writer_axioms]


definition strip :: "bool \<Rightarrow> u8 list \<Rightarrow> cost_layer" where
  "strip on cells = \<lparr>cl_map = \<lparr>cm_size_x = 2, cm_size_y = 1, cm_resolution = 1, cm_origin_x = 0, cm_origin_y = 0,
      cm_cells = Some cells, cm_default = 0\<rparr>, cl_current = on, cl_enabled = on, cl_has_extra = False, cl_extra = no_extra_bounds\<rparr>"

lemma strip_fits: "length a = 2 \<Longrightarrow> length b = 2 \<Longrightarrow> layer_fits (strip p a) (cl_map (strip q b))"
    "length b = 2 \<Longrightarrow> map_ok (cl_map (strip q b))"
  by (simp_all add: layer_fits_def strip_def map_ok_def)


subsection \<open>The order of the layers\<close>

lemma merge_max_commute: "merge_max a (merge_max b c) = merge_max b (merge_max a c)"
  by (auto simp: merge_max_def max_def NO_INFORMATION_def)

lemma map_eqI:
  assumes "map_ok m" "map_ok m'" "m' = m\<lparr>cm_cells := cm_cells m'\<rparr>"
    and "\<And>x y. in_map m x y \<Longrightarrow> cost_at m' x y = cost_at m x y"
  shows "m' = m"
proof -
  have sizes: "cm_size_x m' = cm_size_x m" "cm_size_y m' = cm_size_y m" by (subst assms(3), simp)+
  obtain cells cells' where cells: "cm_cells m = Some cells" "length cells = cm_size_x m * cm_size_y m"
    "cm_cells m' = Some cells'" "length cells' = cm_size_x m * cm_size_y m"
    using assms(1,2) sizes unfolding map_ok_def by (elim conjE exE) simp
  have "cells' = cells"
  proof (rule nth_equalityI)
    fix k assume k: "k < length cells'"
    let ?w = "cm_size_x m"
    have "0 < ?w" using k cells(4) by (cases ?w) simp_all
    then have "in_map m (k mod ?w) (k div ?w)"
      using k cells(4) by (simp add: in_map_def less_mult_imp_div_less mult.commute)
    from assms(4) [OF this] show "cells' ! k = cells ! k" by (simp add: cost_at_def sizes cells)
  qed (simp add: cells)
  then show ?thesis using assms(3) cells(1,3) by simp
qed

lemma layer_fits_same: "cm_size_x m' = cm_size_x m \<Longrightarrow> cm_size_y m' = cm_size_y m \<Longrightarrow> layer_fits l m' = layer_fits l m"
  by (simp add: layer_fits_def)

lemma window_ok_same: "cm_size_x m' = cm_size_x m \<Longrightarrow> cm_size_y m' = cm_size_y m \<Longrightarrow> window_ok m' a b c d = window_ok m a b c d"
  by (simp add: window_ok_def)

lemma overwrite_max_twice:
  assumes "map_ok master" "layer_fits a master" "layer_fits b master" "window_ok master i j i' j'"
  obtains m1 m2 where "overwrite put_max a i j i' j' master = Some m1" "overwrite put_max b i j i' j' m1 = Some m2"
    "map_ok m2" "m2 = master\<lparr>cm_cells := cm_cells m2\<rparr>"
    "\<And>x y. in_map master x y \<Longrightarrow> cost_at m2 x y =
      (if i \<le> int x \<and> int x < i' \<and> j \<le> int y \<and> int y < j'
       then merge_max (cost_at (cl_map b) x y) (merge_max (cost_at (cl_map a) x y) (cost_at master x y)) else cost_at master x y)"
proof -
  obtain m1 where m1: "overwrite put_max a i j i' j' master = Some m1" "window_merged merge_max a i j i' j' master m1"
    using overwrite_merges_by(1) [OF assms(1,2,4)] by blast
  note d = window_mergedD [OF m1(2)]
  obtain m2 where m2: "overwrite put_max b i j i' j' m1 = Some m2" "window_merged merge_max b i j i' j' m1 m2"
    using overwrite_merges_by(1) [OF d(1), of b i j i' j'] assms(3,4)
    by (auto simp: layer_fits_same [OF d(3,4)] window_ok_same [OF d(3,4)])
  note e = window_mergedD [OF m2(2)]
  show ?thesis
  proof (rule that [OF m1(1) m2(1) e(1)])
    have "m2 = (master\<lparr>cm_cells := cm_cells m1\<rparr>)\<lparr>cm_cells := cm_cells m2\<rparr>" using d(2) e(2) by simp
    then show "m2 = master\<lparr>cm_cells := cm_cells m2\<rparr>" by simp
    fix x y assume "in_map master x y"
    moreover from this have "in_map m1 x y" by (simp add: in_map_def d(3,4))
    ultimately show "cost_at m2 x y = (if i \<le> int x \<and> int x < i' \<and> j \<le> int y \<and> int y < j'
       then merge_max (cost_at (cl_map b) x y) (merge_max (cost_at (cl_map a) x y) (cost_at master x y)) else cost_at master x y)"
      by (simp add: d(5) e(5))
  qed
qed

text \<open>Layers that use the maximum can be merged in any order: writing two enabled layers into a window of the master grid gives the same grid either way.\<close>

theorem overwrite_by_max_order_irrelevant:
  assumes "map_ok master" "layer_fits a master" "layer_fits b master" "window_ok master i j i' j'" "cl_enabled a" "cl_enabled b"
  shows "\<exists>m. (do { m1 \<leftarrow> update_overwrite_by_max a i j i' j' master; update_overwrite_by_max b i j i' j' m1 }) = Some m
    \<and> (do { m1 \<leftarrow> update_overwrite_by_max b i j i' j' master; update_overwrite_by_max a i j i' j' m1 }) = Some m"
proof -
  obtain m1 m2 where m: "overwrite put_max a i j i' j' master = Some m1" "overwrite put_max b i j i' j' m1 = Some m2"
    "map_ok m2" "m2 = master\<lparr>cm_cells := cm_cells m2\<rparr>"
    "\<And>x y. in_map master x y \<Longrightarrow> cost_at m2 x y =
      (if i \<le> int x \<and> int x < i' \<and> j \<le> int y \<and> int y < j'
       then merge_max (cost_at (cl_map b) x y) (merge_max (cost_at (cl_map a) x y) (cost_at master x y)) else cost_at master x y)"
    using overwrite_max_twice [OF assms(1-4)] by blast
  obtain n1 n2 where n: "overwrite put_max b i j i' j' master = Some n1" "overwrite put_max a i j i' j' n1 = Some n2"
    "map_ok n2" "n2 = master\<lparr>cm_cells := cm_cells n2\<rparr>"
    "\<And>x y. in_map master x y \<Longrightarrow> cost_at n2 x y =
      (if i \<le> int x \<and> int x < i' \<and> j \<le> int y \<and> int y < j'
       then merge_max (cost_at (cl_map a) x y) (merge_max (cost_at (cl_map b) x y) (cost_at master x y)) else cost_at master x y)"
    using overwrite_max_twice [OF assms(1,3,2,4)] by blast
  have "m2 = n2"
  proof (rule map_eqI [OF n(3) m(3)])
    show "m2 = n2\<lparr>cm_cells := cm_cells m2\<rparr>" by (subst m(4), subst n(4)) simp
    fix x y assume "in_map n2 x y"
    then have "in_map master x y" by (subst (asm) n(4)) (simp add: in_map_def)
    then show "cost_at m2 x y = cost_at n2 x y" by (simp add: m(5) n(5) merge_max_commute)
  qed
  then show ?thesis using m(1,2) n(1,2) assms(5,6) by (simp add: update_overwrite_by_max_def)
qed

theorem overwrite_by_max_order_irrelevant_witness:
  "\<exists>m. (do { m1 \<leftarrow> update_overwrite_by_max (strip True [254, 255]) 0 0 2 1 (cl_map (strip True [0, 255]));
      update_overwrite_by_max (strip True [3, 9]) 0 0 2 1 m1 }) = Some m"
proof -
  have "map_ok (cl_map (strip True [0, 255]))" "layer_fits (strip True [254, 255]) (cl_map (strip True [0, 255]))"
    "layer_fits (strip True [3, 9]) (cl_map (strip True [0, 255]))"
    "window_ok (cl_map (strip True [0, 255])) 0 0 2 1" "cl_enabled (strip True [254, 255])" "cl_enabled (strip True [3, 9])"
    by (simp_all add: strip_fits) (simp_all add: window_ok_def strip_def)
  from overwrite_by_max_order_irrelevant [OF this] show ?thesis by auto
qed

end
