(* ===== verification/Footprint.thy ===== *)
theory Footprint
  imports Complex_Main Prelude
begin

text \<open>
  The geometry of the robot's footprint: \<open>costmap_math.h\<close>, \<open>costmap_math.cpp\<close> and
  \<open>footprint.cpp\<close>. Coordinates are real numbers, also where the code rounds them to \<open>float\<close>;
  a distance the code computes as not-a-number is \<open>None\<close>, which \<open>std::min\<close> and \<open>std::max\<close>
  with a number as first argument ignore.
\<close>

record point =
  pt_x :: real
  pt_y :: real
  pt_z :: real

subsection \<open>Distances and intersections\<close>

definition sign :: "real \<Rightarrow> real" where
  "sign x = (if x < 0 then -1 else 1)"

definition sign0 :: "real \<Rightarrow> real" where
  "sign0 x = (if x < 0 then -1 else if x > 0 then 1 else 0)"

definition distance_between :: "real \<Rightarrow> real \<Rightarrow> real \<Rightarrow> real \<Rightarrow> real" where
  "distance_between x0 y0 x1 y1 = sqrt ((x1 - x0) * (x1 - x0) + (y1 - y0) * (y1 - y0))"

definition distance_to_line :: "real \<Rightarrow> real \<Rightarrow> real \<Rightarrow> real \<Rightarrow> real \<Rightarrow> real \<Rightarrow> real option" where
  "distance_to_line pX pY x0 y0 x1 y1 =
     (let A = pX - x0; B = pY - y0; C = x1 - x0; D = y1 - y0;
          dot = A * C + B * D;
          len_sq = C * C + D * D
      in if len_sq = 0 then None
         else let param = dot / len_sq;
                  (xx, yy) = (if param < 0 then (x0, y0)
                    else if param > 1 then (x1, y1)
                    else (x0 + param * C, y0 + param * D))
              in Some (distance_between pX pY xx yy))"

text \<open>The ray test of \<open>Intersect\<close>: edge \<open>j\<close>--\<open>i\<close> flips the answer.\<close>

definition edge_crossed :: "real \<Rightarrow> real \<Rightarrow> point \<Rightarrow> point \<Rightarrow> bool" where
  "edge_crossed testx testy pj p_i =
     (let yi = pt_y p_i; yj = pt_y pj; xi = pt_x p_i; xj = pt_x pj
      in (yi > testy) \<noteq> (yj > testy) \<and> testx < (xj - xi) * (testy - yi) / (yj - yi) + xi)"

primrec crossings :: "real \<Rightarrow> real \<Rightarrow> point \<Rightarrow> point list \<Rightarrow> bool \<Rightarrow> bool" where
  "crossings testx testy j [] c = c"
| "crossings testx testy j (i # ps) c =
     crossings testx testy i ps (if edge_crossed testx testy j i then \<not> c else c)"

definition point_inside :: "point list \<Rightarrow> real \<Rightarrow> real \<Rightarrow> bool" where
  "point_inside polygon testx testy =
     (if polygon = [] then False else crossings testx testy (last polygon) polygon False)"

primrec intersects_helper :: "point list \<Rightarrow> point list \<Rightarrow> bool" where
  "intersects_helper [] polygon2 = False"
| "intersects_helper (p # ps) polygon2 =
     (if point_inside polygon2 (pt_x p) (pt_y p) then True else intersects_helper ps polygon2)"

definition polygons_intersect :: "point list \<Rightarrow> point list \<Rightarrow> bool" where
  "polygons_intersect polygon1 polygon2 = (intersects_helper polygon1 polygon2 \<or> intersects_helper polygon2 polygon1)"

subsection \<open>The footprint\<close>

definition DBL_MAX :: real where "DBL_MAX = (2 - 1 / 2 ^ 52) * 2 ^ 1023"

definition min_num :: "real \<Rightarrow> real option \<Rightarrow> real" where
  "min_num a b = (case b of None \<Rightarrow> a | Some b \<Rightarrow> min a b)"

definition max_num :: "real \<Rightarrow> real option \<Rightarrow> real" where
  "max_num a b = (case b of None \<Rightarrow> a | Some b \<Rightarrow> max a b)"

text \<open>The turn of the loop for the edge from \<open>p\<close> to \<open>q\<close>.\<close>

definition measure_edge :: "point \<Rightarrow> point \<Rightarrow> real \<times> real \<Rightarrow> real \<times> real" where
  "measure_edge p q d =
     (let vertex_dist = distance_between 0 0 (pt_x p) (pt_y p);
          edge_dist = distance_to_line 0 0 (pt_x p) (pt_y p) (pt_x q) (pt_y q)
      in (min (fst d) (min_num vertex_dist edge_dist), max (snd d) (max_num vertex_dist edge_dist)))"

fun measure_edges :: "point list \<Rightarrow> real \<times> real \<Rightarrow> real \<times> real" where
  "measure_edges (p # q # ps) d = measure_edges (q # ps) (measure_edge p q d)"
| "measure_edges _ d = d"

text \<open>The result is the pair of \<open>min_dist\<close> and \<open>max_dist\<close>.\<close>

definition calculate_min_and_max_distances :: "point list \<Rightarrow> real \<times> real" where
  "calculate_min_and_max_distances footprint =
     (if length footprint \<le> 2 then (DBL_MAX, 0)
      else measure_edge (last footprint) (hd footprint) (measure_edges footprint (DBL_MAX, 0)))"

text \<open>\<open>Point32\<close> has the fields of \<open>Point\<close> in single precision.\<close>

record point32 =
  p32_x :: real
  p32_y :: real
  p32_z :: real

definition to_point32 :: "point \<Rightarrow> point32" where
  "to_point32 pt = \<lparr>p32_x = pt_x pt, p32_y = pt_y pt, p32_z = pt_z pt\<rparr>"

definition to_point :: "point32 \<Rightarrow> point" where
  "to_point pt = \<lparr>pt_x = p32_x pt, pt_y = p32_y pt, pt_z = p32_z pt\<rparr>"

primrec to_polygon :: "point list \<Rightarrow> point32 list" where
  "to_polygon [] = []"
| "to_polygon (p # ps) = to_point32 p # to_polygon ps"

primrec to_point_vector :: "point32 list \<Rightarrow> point list" where
  "to_point_vector [] = []"
| "to_point_vector (p # ps) = to_point p # to_point_vector ps"

definition transform_point :: "real \<Rightarrow> real \<Rightarrow> real \<Rightarrow> point \<Rightarrow> point" where
  "transform_point x y theta p =
     \<lparr>pt_x = x + (pt_x p * cos theta - pt_y p * sin theta),
      pt_y = y + (pt_x p * sin theta + pt_y p * cos theta), pt_z = 0\<rparr>"

definition transform_footprint :: "real \<Rightarrow> real \<Rightarrow> real \<Rightarrow> point list \<Rightarrow> point list" where
  "transform_footprint x y theta footprint_spec = map (transform_point x y theta) footprint_spec"

definition transform_footprint_stamped :: "real \<Rightarrow> real \<Rightarrow> real \<Rightarrow> point list \<Rightarrow> point32 list" where
  "transform_footprint_stamped x y theta footprint_spec = map (\<lambda>p. to_point32 (transform_point x y theta p)) footprint_spec"

definition pad_point :: "real \<Rightarrow> point \<Rightarrow> point" where
  "pad_point padding pt = pt\<lparr>pt_x := pt_x pt + sign0 (pt_x pt) * padding, pt_y := pt_y pt + sign0 (pt_y pt) * padding\<rparr>"

definition pad_footprint :: "real \<Rightarrow> point list \<Rightarrow> point list" where
  "pad_footprint padding footprint = map (pad_point padding) footprint"

subsection \<open>The boundary\<close>

text \<open>The points of the edge from \<open>p\<close> to \<open>q\<close> and their distances from the robot's centre.\<close>

definition edge_point :: "point \<Rightarrow> point \<Rightarrow> real \<Rightarrow> real \<times> real" where
  "edge_point p q t = (pt_x p + t * (pt_x q - pt_x p), pt_y p + t * (pt_y q - pt_y p))"

definition edge_distance :: "point \<Rightarrow> point \<Rightarrow> real \<Rightarrow> real" where
  "edge_distance p q t = distance_between 0 0 (fst (edge_point p q t)) (snd (edge_point p q t))"

definition edge_distances :: "point \<Rightarrow> point \<Rightarrow> real set" where
  "edge_distances p q = edge_distance p q ` {0..1}"

fun boundary_distances :: "point list \<Rightarrow> real set" where
  "boundary_distances (p # q # ps) = edge_distances p q \<union> boundary_distances (q # ps)"
| "boundary_distances _ = {}"

definition polygon_distances :: "point list \<Rightarrow> real set" where
  "polygon_distances ps = boundary_distances ps \<union> edge_distances (last ps) (hd ps)"

lemma edge_distance_square: "edge_distance p q t =
    sqrt ((pt_x p + t * (pt_x q - pt_x p)) ^ 2 + (pt_y p + t * (pt_y q - pt_y p)) ^ 2)"
  by (simp add: edge_distance_def edge_point_def distance_between_def power2_eq_square)

lemma edge_distance_ends: "edge_distance p q 0 = distance_between 0 0 (pt_x p) (pt_y p)"
    "edge_distance p q 1 = distance_between 0 0 (pt_x q) (pt_y q)"
  by (simp_all add: edge_distance_def edge_point_def)

lemma edge_distance_le_iff: "edge_distance p q s \<le> edge_distance p q t \<longleftrightarrow>
    0 \<le> (t - s) * ((t + s) * ((pt_x q - pt_x p) ^ 2 + (pt_y q - pt_y p) ^ 2)
      + 2 * (pt_x p * (pt_x q - pt_x p) + pt_y p * (pt_y q - pt_y p)))"
  by (simp add: edge_distance_square) (simp add: power2_eq_square algebra_simps)

text \<open>\<open>Distance2Line\<close> returns the least distance of the edge.\<close>

lemma distance_to_line_least:
  assumes "distance_to_line 0 0 (pt_x p) (pt_y p) (pt_x q) (pt_y q) = Some d"
  shows "\<exists>s \<in> {0..1}. d = edge_distance p q s \<and> (\<forall>t \<in> {0..1}. edge_distance p q s \<le> edge_distance p q t)"
proof -
  define C D where "C = pt_x q - pt_x p" and "D = pt_y q - pt_y p"
  define len where "len = C * C + D * D"
  define param where "param = ((0 - pt_x p) * C + (0 - pt_y p) * D) / len"
  define s where "s = (if param < 0 then 0 else if param > 1 then 1 else param)"
  have "len \<noteq> 0" and d: "d = edge_distance p q s"
    using assms unfolding distance_to_line_def edge_distance_def edge_point_def Let_def C_def [symmetric] D_def [symmetric]
      len_def [symmetric] param_def [symmetric] s_def
    by (auto split: if_splits simp: C_def D_def)
  then have len: "0 < len" by (simp add: len_def less_le add_nonneg_eq_0_iff)
  have dot: "pt_x p * C + pt_y p * D = - (param * len)" using len by (simp add: param_def)
  have "edge_distance p q s \<le> edge_distance p q t" if t: "0 \<le> t" "t \<le> 1" for t
  proof -
    have "0 \<le> (t - s) * (t + s - 2 * param)"
    proof -
      consider "param < 0" "s = 0" | "param > 1" "s = 1" | "s = param"
        unfolding s_def by (cases "param < 0"; cases "1 < param") simp_all
      then show ?thesis
        using t by cases (auto intro: mult_nonneg_nonneg mult_nonpos_nonpos)
    qed
    then have "0 \<le> (t - s) * (t + s - 2 * param) * len" using len by simp
    also have "\<dots> = (t - s) * ((t + s) * (C ^ 2 + D ^ 2) + 2 * (pt_x p * C + pt_y p * D))"
      unfolding dot by (simp add: len_def power2_eq_square algebra_simps)
    finally show ?thesis by (simp add: edge_distance_le_iff C_def D_def)
  qed
  moreover have "s \<in> {0..1}" by (simp add: s_def)
  ultimately show ?thesis using d by auto
qed

lemma edge_distance_largest:
  assumes "0 \<le> t" "t \<le> 1"
  shows "edge_distance p q t \<le> max (edge_distance p q 0) (edge_distance p q 1)"
proof (rule ccontr)
  define K where "K = (pt_x q - pt_x p) ^ 2 + (pt_y q - pt_y p) ^ 2"
  define E where "E = 2 * (pt_x p * (pt_x q - pt_x p) + pt_y p * (pt_y q - pt_y p))"
  assume "\<not> ?thesis"
  then have "\<not> edge_distance p q t \<le> edge_distance p q 0" "\<not> edge_distance p q t \<le> edge_distance p q 1" by auto
  then have "(0 - t) * (t * K + E) < 0" "(1 - t) * ((1 + t) * K + E) < 0"
    by (simp_all add: edge_distance_le_iff K_def E_def)
  then have "0 < t * K + E" "(1 + t) * K + E < 0"
    using assms by (simp_all add: mult_less_0_iff zero_less_mult_iff)
  moreover have "t * K \<le> (1 + t) * K" by (simp add: K_def mult_right_mono)
  ultimately show False by linarith
qed

lemma distances_nonneg: "0 \<le> edge_distance p q t"
  by (simp add: edge_distance_square)

text \<open>One edge: the smaller distance is the least of the edge, the larger one that of its first vertex.\<close>

lemma measure_edge_ok:
  obtains m where "measure_edge p q d = (min (fst d) m, max (snd d) (edge_distance p q 0))"
    "m \<in> edge_distances p q" "\<forall>e \<in> edge_distances p q. m \<le> e"
proof (cases "distance_to_line 0 0 (pt_x p) (pt_y p) (pt_x q) (pt_y q)")
  case None
  then have "(pt_x q - pt_x p) * (pt_x q - pt_x p) + (pt_y q - pt_y p) * (pt_y q - pt_y p) = 0"
    by (auto simp: distance_to_line_def Let_def split: if_splits)
  then have "pt_x q = pt_x p \<and> pt_y q = pt_y p" by (simp add: add_nonneg_eq_0_iff)
  then have "edge_distances p q = {edge_distance p q 0}"
    using image_constant [of 0 "{0..1 :: real}" "edge_distance p q 0"]
    by (simp add: edge_distances_def edge_distance_def edge_point_def)
  then show ?thesis
    using None that [of "edge_distance p q 0"] by (simp add: measure_edge_def min_num_def max_num_def edge_distance_ends Let_def)
next
  case (Some dist)
  from distance_to_line_least [OF Some] obtain s where s: "s \<in> {0..1}" "dist = edge_distance p q s"
    "\<forall>t \<in> {0..1}. edge_distance p q s \<le> edge_distance p q t" by blast
  then have "dist \<le> edge_distance p q 0" by simp
  then have "measure_edge p q d = (min (fst d) dist, max (snd d) (edge_distance p q 0))"
    using Some by (simp add: measure_edge_def min_num_def max_num_def edge_distance_ends Let_def min_def max_def)
  then show ?thesis using that [of dist] s by (auto simp: edge_distances_def)
qed

lemma measure_edges_ok:
  "fst (measure_edges ps d) \<le> fst d \<and> snd d \<le> snd (measure_edges ps d)
   \<and> (\<forall>e \<in> boundary_distances ps. fst (measure_edges ps d) \<le> e)
   \<and> (\<forall>p \<in> set (butlast ps). distance_between 0 0 (pt_x p) (pt_y p) \<le> snd (measure_edges ps d))
   \<and> (fst (measure_edges ps d) = fst d \<or> fst (measure_edges ps d) \<in> boundary_distances ps)
   \<and> (snd (measure_edges ps d) = snd d \<or> snd (measure_edges ps d) \<in> boundary_distances ps)"
proof (induction ps d rule: measure_edges.induct)
  case (1 p q ps d)
  obtain m where m: "measure_edge p q d = (min (fst d) m, max (snd d) (edge_distance p q 0))"
    "m \<in> edge_distances p q" "\<forall>e \<in> edge_distances p q. m \<le> e" by (rule measure_edge_ok)
  have first: "edge_distance p q 0 \<in> edge_distances p q" by (simp add: edge_distances_def)
  note IH = 1 [unfolded m(1) fst_conv snd_conv]
  show ?case
    unfolding measure_edges.simps m(1) boundary_distances.simps
    using IH m(2,3) first edge_distance_ends(1) [of p q] by (force simp: min_def max_def split: if_splits)
qed simp_all

lemma boundary_bounded:
  assumes "\<forall>p \<in> set ps. distance_between 0 0 (pt_x p) (pt_y p) \<le> r" "e \<in> boundary_distances ps"
  shows "e \<le> r"
  using assms
proof (induction ps rule: boundary_distances.induct)
  case (1 p q ps)
  show ?case
  proof (cases "e \<in> boundary_distances (q # ps)")
    case False
    then obtain t where "0 \<le> t" "t \<le> 1" "e = edge_distance p q t" using "1.prems"(2) by (auto simp: edge_distances_def)
    then show ?thesis using edge_distance_largest [of t p q] "1.prems"(1) by (auto simp: edge_distance_ends)
  qed (use 1 in auto)
qed simp_all

text \<open>C28. For a footprint of at least three points within the range of a double, CalculateMinAndMaxDistances returns the least and the largest distance of the points of its outline from the centre of the robot: both are distances of outline points, and every outline point lies between them.\<close>

theorem footprint_radii_are_boundary_distances:
  assumes three: "3 \<le> length ps" and range: "\<forall>p \<in> set ps. distance_between 0 0 (pt_x p) (pt_y p) \<le> DBL_MAX"
    and r: "calculate_min_and_max_distances ps = (inscribed, circumscribed)"
  shows "inscribed \<in> polygon_distances ps \<and> circumscribed \<in> polygon_distances ps
    \<and> (\<forall>e \<in> polygon_distances ps. inscribed \<le> e \<and> e \<le> circumscribed)"
proof -
  let ?a = "last ps" and ?b = "hd ps"
  let ?norm = "\<lambda>p. distance_between 0 0 (pt_x p) (pt_y p)"
  have ne: "ps \<noteq> []" using three by auto
  obtain mn mx where e: "measure_edges ps (DBL_MAX, 0) = (mn, mx)" by (cases "measure_edges ps (DBL_MAX, 0)")
  have edges: "0 \<le> mx" "\<forall>e \<in> boundary_distances ps. mn \<le> e" "\<forall>p \<in> set (butlast ps). ?norm p \<le> mx"
    "mn = DBL_MAX \<or> mn \<in> boundary_distances ps" "mx = 0 \<or> mx \<in> boundary_distances ps"
    using measure_edges_ok [of ps "(DBL_MAX, 0)"] by (simp_all add: e)
  obtain m where m: "measure_edge ?a ?b (mn, mx) = (min mn m, max mx (?norm ?a))"
    "m \<in> edge_distances ?a ?b" "\<forall>e \<in> edge_distances ?a ?b. m \<le> e"
    by (rule measure_edge_ok [of ?a ?b "(mn, mx)"]) (use that in \<open>simp add: edge_distance_ends\<close>)
  have res: "inscribed = min mn m" "circumscribed = max mx (?norm ?a)"
    using r three by (simp_all add: calculate_min_and_max_distances_def e m(1))
  have last: "?norm ?a \<in> edge_distances ?a ?b" "0 \<le> ?norm ?a"
    using distances_nonneg [of ?a ?b 0] by (simp_all add: edge_distances_def edge_distance_ends(1) [symmetric, of ?a ?b])
  have "m \<le> DBL_MAX" using m(3) last(1) range ne by (meson last_in_set order_trans)
  then have "inscribed \<in> polygon_distances ps"
    using edges(4) m(2) by (auto simp: res polygon_distances_def min_def)
  moreover have "circumscribed \<in> polygon_distances ps"
    using edges(5) last by (auto simp: res polygon_distances_def max_def)
  moreover have vertex: "?norm p \<le> circumscribed" if "p \<in> set ps" for p
  proof (cases "p = ?a")
    case False
    then have "p \<in> set (butlast ps)" using that ne by (metis append_butlast_last_id rotate1.simps(2) set_ConsD set_rotate1)
    then show ?thesis using edges(3) by (auto simp: res max_def intro: order_trans)
  qed (simp add: res)
  moreover have "e \<le> circumscribed" if on_edge: "e \<in> edge_distances ?a ?b" for e
  proof -
    obtain t where "0 \<le> t" "t \<le> 1" "e = edge_distance ?a ?b t" using on_edge by (auto simp: edge_distances_def)
    then show ?thesis
      using edge_distance_largest [of t ?a ?b] vertex [of ?a] vertex [of ?b] ne by (simp add: edge_distance_ends)
  qed
  ultimately show ?thesis
    using edges(2) m(3) boundary_bounded [of ps circumscribed]
    by (auto simp: polygon_distances_def res(1) min_def intro: order_trans)
qed

definition triangle :: "point list" where
  "triangle = [\<lparr>pt_x = 0, pt_y = 1, pt_z = 0\<rparr>, \<lparr>pt_x = -1, pt_y = -1, pt_z = 0\<rparr>, \<lparr>pt_x = 1, pt_y = -1, pt_z = 0\<rparr>]"

theorem footprint_radii_are_boundary_distances_witness:
  "fst (calculate_min_and_max_distances triangle) \<le> sqrt 2 \<and> sqrt 2 \<le> snd (calculate_min_and_max_distances triangle)"
proof -
  have "sqrt 2 \<le> 2" by (rule real_le_lsqrt) simp_all
  moreover have "(2 :: real) \<le> DBL_MAX" by (simp add: DBL_MAX_def)
  ultimately have range: "\<forall>p \<in> set triangle. distance_between 0 0 (pt_x p) (pt_y p) \<le> DBL_MAX"
    by (simp add: triangle_def distance_between_def)
  have "sqrt 2 \<in> polygon_distances triangle"
    by (simp add: polygon_distances_def triangle_def) 
      (auto simp: edge_distances_def edge_distance_def edge_point_def distance_between_def image_iff intro!: bexI [of _ 1])
  moreover from footprint_radii_are_boundary_distances [OF _ range, of "fst (calculate_min_and_max_distances triangle)"
      "snd (calculate_min_and_max_distances triangle)"]
  have "\<forall>e \<in> polygon_distances triangle. fst (calculate_min_and_max_distances triangle) \<le> e
      \<and> e \<le> snd (calculate_min_and_max_distances triangle)" by (simp add: triangle_def)
  ultimately show ?thesis by blast
qed

end
