(* ===== verification/InflationLayer.thy ===== *)
theory InflationLayer
  imports CostLayer
begin

text \<open>
  The inflation layer of \<open>inflation_layer.cpp\<close>: the cost of lethal cells is spread over their
  surroundings by increasing distance.

  \<open>inflation_cells_\<close>, a \<open>std::map\<close> from distances to vectors that grows while it is traversed, is
  an association list sorted by distance; the traversal keeps its current key and position.
  The tables, null before they are computed, are lists of rows.
\<close>

subsection \<open>The layer\<close>

record cell_data =
  cd_index :: nat
  cd_x :: nat
  cd_y :: nat
  cd_src_x :: nat
  cd_src_y :: nat

record inflation =
  il_inflation_radius :: real
  il_inscribed_radius :: real
  il_weight :: real
  il_inflate_unknown :: bool
  il_cell_radius :: nat
  il_cached_radius :: nat
  il_resolution :: real
  il_seen :: "bool list option"
  il_seen_size :: int
  il_costs :: "u8 list list"
  il_distances :: "real list list"
  il_last :: bounds
  il_need_reinflation :: bool
  il_enabled :: bool
  il_current :: bool

definition hypot :: "nat \<Rightarrow> nat \<Rightarrow> real" where
  "hypot i j = sqrt (real (i * i + j * j))"

definition compute_cost :: "inflation \<Rightarrow> nat \<Rightarrow> u8 option" where
  "compute_cost l distance_cell =
     (if distance_cell = 0 then Some LETHAL_OBSTACLE
      else if real distance_cell * il_resolution l \<le> il_inscribed_radius l then Some INSCRIBED_INFLATED_OBSTACLE
      else let euclidean_distance = real distance_cell * il_resolution l;
               factor = exp (- 1 * il_weight l * (euclidean_distance - il_inscribed_radius l))
           in real_to_u8 ((253 - 1) * factor))"

text \<open>\<open>ComputeCost\<close> takes an \<open>unsigned\<close>, so the distance of the table is truncated.\<close>

definition cost_of_distance :: "inflation \<Rightarrow> real \<Rightarrow> u8 option" where
  "cost_of_distance l d = do { n \<leftarrow> real_to_u32 d; compute_cost l n }"

definition square_table :: "nat \<Rightarrow> (nat \<Rightarrow> nat \<Rightarrow> 'a option) \<Rightarrow> 'a list list option" where
  "square_table n f = those (map (\<lambda>i. those (map (f i) [0..<n])) [0..<n])"

definition table_at :: "'a list list \<Rightarrow> nat \<Rightarrow> nat \<Rightarrow> 'a option" where
  "table_at t i j = do { row \<leftarrow> at_opt t i; at_opt row j }"

definition compute_caches :: "inflation \<Rightarrow> inflation option" where
  "compute_caches l =
     (if il_cell_radius l = 0 then Some l
      else do {
        let n = il_cell_radius l + 2;
        distances \<leftarrow> if il_cell_radius l \<noteq> il_cached_radius l then square_table n (\<lambda>i j. Some (hypot i j))
          else Some (il_distances l);
        costs \<leftarrow> square_table n (\<lambda>i j. do { d \<leftarrow> table_at distances i j; cost_of_distance l d });
        Some (l\<lparr>il_distances := distances, il_cached_radius := il_cell_radius l, il_costs := costs\<rparr>) })"

definition set_inflation_parameters :: "costmap \<Rightarrow> real \<Rightarrow> real \<Rightarrow> inflation \<Rightarrow> inflation option" where
  "set_inflation_parameters m radius scaling l =
     (if il_weight l \<noteq> scaling \<or> il_inflation_radius l \<noteq> radius then do {
        r \<leftarrow> world_to_cell m radius;
        compute_caches (l\<lparr>il_inflation_radius := radius, il_cell_radius := r, il_weight := scaling,
          il_need_reinflation := True\<rparr>) }
      else Some l)"

text \<open>\<open>raw\<close> is what a new array of flags holds.\<close>

definition inflation_match_size :: "(nat \<Rightarrow> bool) \<Rightarrow> costmap \<Rightarrow> inflation \<Rightarrow> inflation option" where
  "inflation_match_size raw m l = do {
     r \<leftarrow> world_to_cell m (il_inflation_radius l);
     l1 \<leftarrow> compute_caches (l\<lparr>il_resolution := cm_resolution m, il_cell_radius := r\<rparr>);
     let n = wrap32 (cm_size_x m * cm_size_y m);
     Some (l1\<lparr>il_seen_size := wrap_int (int n), il_seen := Some (map raw [0..<n])\<rparr>) }"

definition inflation_initialize :: "(nat \<Rightarrow> bool) \<Rightarrow> costmap \<Rightarrow> real \<Rightarrow> real \<Rightarrow> inflation \<Rightarrow> inflation option" where
  "inflation_initialize raw m radius scaling l = do {
     l1 \<leftarrow> set_inflation_parameters m radius scaling (l\<lparr>il_current := True, il_seen := None, il_seen_size := 0, il_need_reinflation := False\<rparr>);
     inflation_match_size raw m (l1\<lparr>il_enabled := True, il_inflate_unknown := False, il_need_reinflation := True\<rparr>) }"

definition on_footprint_changed :: "costmap \<Rightarrow> real \<Rightarrow> inflation \<Rightarrow> inflation option" where
  "on_footprint_changed m inscribed l = do {
     r \<leftarrow> world_to_cell m (il_inflation_radius l);
     l1 \<leftarrow> compute_caches (l\<lparr>il_inscribed_radius := inscribed, il_cell_radius := r\<rparr>);
     Some (l1\<lparr>il_need_reinflation := True\<rparr>) }"

definition inflation_update_bounds :: "bounds \<Rightarrow> inflation \<Rightarrow> bounds \<times> inflation" where
  "inflation_update_bounds b l =
     (if il_need_reinflation l
      then (\<lparr>min_x = - FLT_MAX, min_y = - FLT_MAX, max_x = FLT_MAX, max_y = FLT_MAX\<rparr>,
            l\<lparr>il_last := b, il_need_reinflation := False\<rparr>)
      else let t = il_last l in
        (\<lparr>min_x = min (min_x t) (min_x b) - il_inflation_radius l,
          min_y = min (min_y t) (min_y b) - il_inflation_radius l,
          max_x = max (max_x t) (max_x b) + il_inflation_radius l,
          max_y = max (max_y t) (max_y b) + il_inflation_radius l\<rparr>, l\<lparr>il_last := b\<rparr>))"

text \<open>The constructor leaves four fields uninitialised.\<close>

definition inflation_new :: "real \<Rightarrow> real \<Rightarrow> int \<Rightarrow> bool \<Rightarrow> inflation" where
  "inflation_new inscribed resolution seen_size need_reinflation =
     \<lparr>il_inflation_radius = 0, il_inscribed_radius = inscribed, il_weight = 0, il_inflate_unknown = False, il_cell_radius = 0,
      il_cached_radius = 0, il_resolution = resolution, il_seen = None, il_seen_size = seen_size, il_costs = [], il_distances = [],
      il_last = \<lparr>min_x = - FLT_MAX, min_y = - FLT_MAX, max_x = FLT_MAX, max_y = FLT_MAX\<rparr>,
      il_need_reinflation = need_reinflation, il_enabled = False, il_current = False\<rparr>"

subsection \<open>Spreading the costs\<close>

type_synonym bins = "(real \<times> cell_data list) list"

text \<open>\<open>inflation_cells_[d].push_back(c)\<close>\<close>

primrec add_cell :: "real \<Rightarrow> cell_data \<Rightarrow> bins \<Rightarrow> bins" where
  "add_cell d c [] = [(d, [c])]"
| "add_cell d c (b # bs) =
     (if d = fst b then (d, snd b @ [c]) # bs
      else if d < fst b then (d, [c]) # b # bs
      else b # add_cell d c bs)"

definition bin_of :: "real \<Rightarrow> bins \<Rightarrow> cell_data list" where
  "bin_of k bs = (case map_of bs k of None \<Rightarrow> [] | Some cs \<Rightarrow> cs)"

definition cell_offset :: "nat \<Rightarrow> nat \<Rightarrow> nat" where
  "cell_offset a b = nat \<bar>int a - int b\<bar>"

definition enqueue :: "inflation \<Rightarrow> bool list \<Rightarrow> nat \<Rightarrow> nat \<Rightarrow> nat \<Rightarrow> nat \<Rightarrow> nat \<Rightarrow> bins \<Rightarrow> bins option" where
  "enqueue l seen index mx my sx sy bs = do {
     s \<leftarrow> at_opt seen index;
     if s then Some bs
     else do {
       d \<leftarrow> table_at (il_distances l) (cell_offset mx sx) (cell_offset my sy);
       if d > real (il_cell_radius l) then Some bs
       else Some (add_cell d \<lparr>cd_index = index, cd_x = mx, cd_y = my, cd_src_x = sx, cd_src_y = sy\<rparr> bs) } }"

text \<open>The new cost of a cell.\<close>

definition inflated :: "inflation \<Rightarrow> u8 \<Rightarrow> u8 \<Rightarrow> u8" where
  "inflated l old cost =
     (if old = NO_INFORMATION \<and> (if il_inflate_unknown l then cost > FREE_SPACE else cost \<ge> INSCRIBED_INFLATED_OBSTACLE)
      then cost else max old cost)"

record inflate_state =
  is_bins :: bins
  is_seen :: "bool list"
  is_cells :: "u8 list"

definition enqueue_neighbors :: "inflation \<Rightarrow> nat \<Rightarrow> nat \<Rightarrow> bool list \<Rightarrow> cell_data \<Rightarrow> bins \<Rightarrow> bins option" where
  "enqueue_neighbors l size_x size_y seen c bs = do {
     let i = cd_index c;
     let mx = cd_x c;
     let my = cd_y c;
     let sx = cd_src_x c;
     let sy = cd_src_y c;
     b1 \<leftarrow> if mx > 0 then enqueue l seen (sub32 i 1) (sub32 mx 1) my sx sy bs else Some bs;
     b2 \<leftarrow> if my > 0 then enqueue l seen (sub32 i size_x) mx (sub32 my 1) sx sy b1 else Some b1;
     b3 \<leftarrow> if mx < sub32 size_x 1 then enqueue l seen (wrap32 (i + 1)) (wrap32 (mx + 1)) my sx sy b2 else Some b2;
     if my < sub32 size_y 1 then enqueue l seen (wrap32 (i + size_x)) mx (wrap32 (my + 1)) sx sy b3 else Some b3 }"

definition process_cell :: "inflation \<Rightarrow> nat \<Rightarrow> nat \<Rightarrow> cell_data \<Rightarrow> inflate_state \<Rightarrow> inflate_state option" where
  "process_cell l size_x size_y c st = do {
     s \<leftarrow> at_opt (is_seen st) (cd_index c);
     if s then Some st
     else do {
       seen' \<leftarrow> set_opt (is_seen st) (cd_index c) True;
       cost \<leftarrow> table_at (il_costs l) (cell_offset (cd_x c) (cd_src_x c)) (cell_offset (cd_y c) (cd_src_y c));
       old \<leftarrow> at_opt (is_cells st) (cd_index c);
       cells' \<leftarrow> set_opt (is_cells st) (cd_index c) (inflated l old cost);
       bins' \<leftarrow> enqueue_neighbors l size_x size_y seen' c (is_bins st);
       Some \<lparr>is_bins = bins', is_seen = seen', is_cells = cells'\<rparr> } }"

text \<open>The traversal: bin \<open>key\<close>, position \<open>i\<close>; then the next larger key.\<close>

partial_function (option) inflate_from :: "inflation \<Rightarrow> nat \<Rightarrow> nat \<Rightarrow> real \<Rightarrow> nat \<Rightarrow> inflate_state \<Rightarrow> inflate_state option" where
  "inflate_from l size_x size_y key i st =
     (if i < length (bin_of key (is_bins st)) then do {
        st' \<leftarrow> process_cell l size_x size_y (bin_of key (is_bins st) ! i) st;
        inflate_from l size_x size_y key (Suc i) st' }
      else case filter (\<lambda>b. key < fst b) (is_bins st) of
        [] \<Rightarrow> Some st
      | b # bs \<Rightarrow> inflate_from l size_x size_y (fst b) 0 st)"

text \<open>The lethal cells of the window, row by row.\<close>

primrec lethal_row :: "costmap \<Rightarrow> u8 list \<Rightarrow> nat \<Rightarrow> nat list \<Rightarrow> cell_data list option" where
  "lethal_row m cells j [] = Some []"
| "lethal_row m cells j (i # is) = do {
     cost \<leftarrow> at_opt cells (get_index m i j);
     rest \<leftarrow> lethal_row m cells j is;
     Some (if cost = LETHAL_OBSTACLE
       then \<lparr>cd_index = get_index m i j, cd_x = i, cd_y = j, cd_src_x = i, cd_src_y = j\<rparr> # rest else rest) }"

primrec lethal_cells :: "costmap \<Rightarrow> u8 list \<Rightarrow> nat list \<Rightarrow> nat list \<Rightarrow> cell_data list option" where
  "lethal_cells m cells is [] = Some []"
| "lethal_cells m cells is (j # js) = do {
     row \<leftarrow> lethal_row m cells j is;
     rest \<leftarrow> lethal_cells m cells is js;
     Some (row @ rest) }"

definition inflation_update_costs ::
  "(nat \<Rightarrow> bool) \<Rightarrow> int \<Rightarrow> int \<Rightarrow> int \<Rightarrow> int \<Rightarrow> costmap \<Rightarrow> inflation \<Rightarrow> (costmap \<times> inflation) option" where
  "inflation_update_costs raw min_i min_j max_i max_j m l =
     (if \<not> il_enabled l \<or> il_cell_radius l = 0 then Some (m, l)
      else do {
        let size_x = cm_size_x m;
        let size_y = cm_size_y m;
        let n = wrap32 (size_x * size_y);
        cells \<leftarrow> cm_cells m;
        let flags = (case il_seen l of None \<Rightarrow> map raw [0..<n]
          | Some s \<Rightarrow> if wrap32 (to_unsigned (il_seen_size l)) \<noteq> n then map raw [0..<n] else s);
        seen \<leftarrow> mem_write flags 0 (replicate n False);
        let r = int (il_cell_radius l);
        let min_i' = max 0 (wrap_int (min_i - r));
        let min_j' = max 0 (wrap_int (min_j - r));
        let max_i' = min (wrap_int (int size_x)) (wrap_int (max_i + r));
        let max_j' = min (wrap_int (int size_y)) (wrap_int (max_j + r));
        obstacles \<leftarrow> lethal_cells m cells [nat min_i'..<nat max_i'] [nat min_j'..<nat max_j'];
        st \<leftarrow> inflate_from l size_x size_y 0 0 \<lparr>is_bins = [(0, obstacles)], is_seen = seen, is_cells = cells\<rparr>;
        Some (m\<lparr>cm_cells := Some (is_cells st)\<rparr>, l\<lparr>il_seen := Some (is_seen st), il_seen_size := wrap_int (int n)\<rparr>) })"

subsection \<open>The bins\<close>

definition bins_sorted :: "bins \<Rightarrow> bool" where
  "bins_sorted bs \<longleftrightarrow> sorted_wrt (<) (map fst bs)"

lemma bins_sorted_Cons [simp]:
  "bins_sorted (b # bs) \<longleftrightarrow> (\<forall>b' \<in> set bs. fst b < fst b') \<and> bins_sorted bs"
  by (simp add: bins_sorted_def)

lemma bins_sorted_Nil [simp]: "bins_sorted []"
  by (simp add: bins_sorted_def)

lemma bin_of_Nil [simp]: "bin_of k [] = []"
  and bin_of_Cons: "bin_of k (b # bs) = (if fst b = k then snd b else bin_of k bs)"
  by (cases b; simp add: bin_of_def)+

lemma bin_of_small: "\<forall>b \<in> set bs. k < fst b \<Longrightarrow> bin_of k bs = []"
  by (induction bs) (auto simp: bin_of_Cons)

lemma keys_add_cell: "fst ` set (add_cell d c bs) = insert d (fst ` set bs)"
  by (induction bs) auto

lemma bins_sorted_add_cell: "bins_sorted bs \<Longrightarrow> bins_sorted (add_cell d c bs)"
proof (induction bs)
  case (Cons b bs)
  have "fst b < fst b'" if "b' \<in> set (add_cell d c bs)" "fst b < d" for b'
  proof -
    have "fst b' \<in> insert d (fst ` set bs)" using that(1) keys_add_cell by blast
    then show ?thesis using Cons.prems that(2) by auto
  qed
  then show ?case using Cons by (auto simp: not_less)
qed simp

lemma bin_of_add_cell:
  "bins_sorted bs \<Longrightarrow> bin_of k (add_cell d c bs) = (if k = d then bin_of d bs @ [c] else bin_of k bs)"
proof (induction bs)
  case (Cons b bs)
  have "bin_of d bs = []" if "d < fst b"
    using that Cons.prems by (intro bin_of_small) (auto intro: order.strict_trans)
  then show ?case using Cons by (auto simp: bin_of_Cons)
qed (simp add: bin_of_Cons)

text \<open>What is left to do when the traversal is at position \<open>i\<close> of bin \<open>k\<close>: the cells of this bin from
  there on, and the later bins with their cells.\<close>

definition later_work :: "real \<Rightarrow> bins \<Rightarrow> nat" where
  "later_work k bs = (\<Sum>b \<leftarrow> bs. if k < fst b then Suc (length (snd b)) else 0)"

definition work :: "real \<Rightarrow> nat \<Rightarrow> bins \<Rightarrow> nat" where
  "work k i bs = (length (bin_of k bs) - i) + later_work k bs"

lemma later_work_add_cell: "later_work k (add_cell d c bs) \<le> later_work k bs + (if k < d then 2 else 0)"
  by (induction bs) (auto simp: later_work_def)

lemma work_add_cell: "bins_sorted bs \<Longrightarrow> work k i (add_cell d c bs) \<le> work k i bs + 2"
  using later_work_add_cell [of k d c bs] by (cases "k < d"; cases "k = d"; simp add: work_def bin_of_add_cell)

lemma later_work_next:
  assumes "bins_sorted bs" "filter (\<lambda>b. k < fst b) bs = b # bs'"
  shows "work (fst b) 0 bs < later_work k bs" "k < fst b" "\<And>d. k < d \<Longrightarrow> bin_of d bs \<noteq> [] \<Longrightarrow> fst b \<le> d"
proof -
  have b: "k < fst b" using filter_eq_ConsD [OF assms(2)] by blast
  show "k < fst b" by (rule b)
  have "work (fst b) 0 bs < later_work k bs \<and> (\<forall>d. k < d \<longrightarrow> bin_of d bs \<noteq> [] \<longrightarrow> fst b \<le> d)"
    using assms
  proof (induction bs)
    case (Cons a bs)
    show ?case
    proof (cases "k < fst a")
      case True
      then have [simp]: "b = a" using Cons.prems(2) by simp
      have eq: "(\<Sum>x \<leftarrow> bs. if fst a < fst x then Suc (length (snd x)) else 0) = (\<Sum>x \<leftarrow> bs. if k < fst x then Suc (length (snd x)) else 0)"
        using Cons.prems(1) True by (intro arg_cong [where f = sum_list] map_cong) auto
      have "fst a \<le> d" if "bin_of d (a # bs) \<noteq> []" "k < d" for d
        using that Cons.prems(1) bin_of_small [of "a # bs" d] by (fastforce simp: not_less)
      then show ?thesis using True eq by (simp add: work_def later_work_def bin_of_Cons)
    next
      case False
      then have IH: "work (fst b) 0 bs < later_work k bs" "\<forall>d. k < d \<longrightarrow> bin_of d bs \<noteq> [] \<longrightarrow> fst b \<le> d"
        using Cons by auto
      then show ?thesis using b False by (auto simp: work_def later_work_def bin_of_Cons)
    qed
  qed simp
  then show "work (fst b) 0 bs < later_work k bs" "\<And>d. k < d \<Longrightarrow> bin_of d bs \<noteq> [] \<Longrightarrow> fst b \<le> d" by blast+
qed

lemma no_later_bins: "filter (\<lambda>b. k < fst b) bs = [] \<Longrightarrow> k < d \<Longrightarrow> bin_of d bs = []"
  by (induction bs) (auto simp: bin_of_Cons split: if_splits)

text \<open>Bins only grow at their ends.\<close>

definition extends :: "bins \<Rightarrow> bins \<Rightarrow> bool" where
  "extends bs bs' \<longleftrightarrow> (\<forall>k. \<exists>cs. bin_of k bs' = bin_of k bs @ cs)"

definition gets :: "bins \<Rightarrow> bins \<Rightarrow> real \<Rightarrow> cell_data \<Rightarrow> bool" where
  "gets bs bs' d c \<longleftrightarrow> (\<exists>p \<ge> length (bin_of d bs). p < length (bin_of d bs') \<and> bin_of d bs' ! p = c)"

lemma extends_refl [simp]: "extends bs bs"
  by (simp add: extends_def)

lemma extends_trans: "extends a b \<Longrightarrow> extends b c \<Longrightarrow> extends a c"
  unfolding extends_def by (metis append.assoc)

lemma extends_length: "extends a b \<Longrightarrow> length (bin_of k a) \<le> length (bin_of k b)"
  unfolding extends_def by (metis le_add1 length_append)

lemma extends_nth: "extends a b \<Longrightarrow> p < length (bin_of k a) \<Longrightarrow> bin_of k b ! p = bin_of k a ! p"
  unfolding extends_def by (metis nth_append)

lemma gets_mono: "extends a b \<Longrightarrow> gets b c d e \<Longrightarrow> extends c c' \<Longrightarrow> gets a c' d e"
  unfolding gets_def by (metis extends_length extends_nth le_trans less_le_trans)

lemma extends_add_cell: "bins_sorted bs \<Longrightarrow> extends bs (add_cell d c bs)"
  by (simp add: extends_def bin_of_add_cell)

lemma gets_add_cell: "bins_sorted bs \<Longrightarrow> gets bs (add_cell d c bs) d c"
  by (auto simp: gets_def bin_of_add_cell)

subsection \<open>One cell\<close>

text \<open>The tables hold a distance and a cost for every pair of offsets up to one more than the radius.\<close>

definition kernel_ok :: "inflation \<Rightarrow> bool" where
  "kernel_ok l \<longleftrightarrow> (\<forall>i j. i \<le> il_cell_radius l + 1 \<and> j \<le> il_cell_radius l + 1 \<longrightarrow>
     table_at (il_distances l) i j = Some (hypot i j) \<and> table_at (il_costs l) i j \<noteq> None)"

definition cell_dist :: "location \<Rightarrow> location \<Rightarrow> real" where
  "cell_dist p q = hypot (cell_offset (fst p) (fst q)) (cell_offset (snd p) (snd q))"

definition kernel_cost :: "inflation \<Rightarrow> location \<Rightarrow> location \<Rightarrow> u8" where
  "kernel_cost l p q = the (table_at (il_costs l) (cell_offset (fst p) (fst q)) (cell_offset (snd p) (snd q)))"

definition cell_loc :: "cell_data \<Rightarrow> location" where "cell_loc c = (cd_x c, cd_y c)"
definition cell_src :: "cell_data \<Rightarrow> location" where "cell_src c = (cd_src_x c, cd_src_y c)"

definition cell_at :: "costmap \<Rightarrow> location \<Rightarrow> location \<Rightarrow> cell_data" where
  "cell_at m p q = \<lparr>cd_index = snd p * cm_size_x m + fst p, cd_x = fst p, cd_y = snd p, cd_src_x = fst q, cd_src_y = snd q\<rparr>"

lemma cell_at_simps [simp]: "cell_loc (cell_at m p q) = p" "cell_src (cell_at m p q) = q"
  "cd_index (cell_at m p q) = snd p * cm_size_x m + fst p" "cd_x (cell_at m p q) = fst p" "cd_y (cell_at m p q) = snd p"
  "cd_src_x (cell_at m p q) = fst q" "cd_src_y (cell_at m p q) = snd q"
  by (simp_all add: cell_at_def cell_loc_def cell_src_def)

text \<open>The four neighbours.\<close>

definition beside :: "location \<Rightarrow> location \<Rightarrow> bool" where
  "beside p q \<longleftrightarrow> (snd p = snd q \<and> (fst q = Suc (fst p) \<or> fst p = Suc (fst q))) \<or>
     (fst p = fst q \<and> (snd q = Suc (snd p) \<or> snd p = Suc (snd q)))"

lemma hypot_ge: "real i \<le> hypot i j" "real j \<le> hypot i j"
proof -
  have "sqrt (real (i * i)) \<le> hypot i j" "sqrt (real (j * j)) \<le> hypot i j"
    unfolding hypot_def by (rule real_sqrt_le_mono; simp)+
  then show "real i \<le> hypot i j" "real j \<le> hypot i j" by simp_all
qed

lemma cell_dist_0: "cell_dist p p = 0" and cell_dist_nonneg: "0 \<le> cell_dist p q"
  by (simp_all add: cell_dist_def hypot_def cell_offset_def)

lemma cell_dist_le_0:
  assumes "cell_dist p q \<le> 0"
  shows "p = q"
proof -
  have "real (cell_offset (fst p) (fst q)) \<le> 0" "real (cell_offset (snd p) (snd q)) \<le> 0"
    using hypot_ge [where i = "cell_offset (fst p) (fst q)" and j = "cell_offset (snd p) (snd q)"] assms
    unfolding cell_dist_def by linarith+
  then show ?thesis by (simp add: cell_offset_def prod_eq_iff)
qed

lemma offset_in_table:
  assumes "cell_dist p s \<le> real r"
  shows "cell_offset (fst p) (fst s) \<le> r" "cell_offset (snd p) (snd s) \<le> r"
  using hypot_ge [where i = "cell_offset (fst p) (fst s)" and j = "cell_offset (snd p) (snd s)"] assms
  by (simp_all add: cell_dist_def)

lemma offset_beside: "beside p q \<Longrightarrow> cell_offset (fst p) a \<le> r \<Longrightarrow> cell_offset (fst q) a \<le> r + 1"
  "beside p q \<Longrightarrow> cell_offset (snd p) a \<le> r \<Longrightarrow> cell_offset (snd q) a \<le> r + 1"
  by (auto simp: beside_def cell_offset_def)

text \<open>The entries the traversal may meet: cells of the map within the radius of an obstacle of \<open>obs\<close>,
  in the bin of their distance.\<close>

definition entry_ok :: "costmap \<Rightarrow> inflation \<Rightarrow> location set \<Rightarrow> real \<Rightarrow> cell_data \<Rightarrow> bool" where
  "entry_ok m l obs k c \<longleftrightarrow> (\<exists>p q. c = cell_at m p q \<and> in_map m (fst p) (snd p) \<and> q \<in> obs
     \<and> k = cell_dist p q \<and> k \<le> real (il_cell_radius l))"

definition bins_ok :: "costmap \<Rightarrow> inflation \<Rightarrow> location set \<Rightarrow> bins \<Rightarrow> bool" where
  "bins_ok m l obs bs \<longleftrightarrow> bins_sorted bs \<and> (\<forall>k. \<forall>c \<in> set (bin_of k bs). entry_ok m l obs k c)"

lemma bins_ok_add_cell:
  "bins_ok m l obs bs \<Longrightarrow> entry_ok m l obs d c \<Longrightarrow> bins_ok m l obs (add_cell d c bs)"
  by (auto simp: bins_ok_def bins_sorted_add_cell bin_of_add_cell split: if_splits)

definition seen_at :: "costmap \<Rightarrow> bool list \<Rightarrow> location \<Rightarrow> bool" where
  "seen_at m seen p \<longleftrightarrow> seen ! (snd p * cm_size_x m + fst p)"

text \<open>What visiting the neighbour \<open>q\<close> of a cell with obstacle \<open>s\<close> does to the bins.\<close>

definition visited :: "costmap \<Rightarrow> inflation \<Rightarrow> location set \<Rightarrow> bool list \<Rightarrow> location \<Rightarrow> location \<Rightarrow> bins \<Rightarrow> bins \<Rightarrow> bool" where
  "visited m l obs seen q s bs bs' \<longleftrightarrow> bins_ok m l obs bs' \<and> extends bs bs' \<and> (\<forall>k i. work k i bs' \<le> work k i bs + 2)
     \<and> (\<not> seen_at m seen q \<and> cell_dist q s \<le> real (il_cell_radius l) \<longrightarrow> gets bs bs' (cell_dist q s) (cell_at m q s))"

lemma enqueue_ok:
  assumes ok: "map_ok m" and kernel: "kernel_ok l" and bins: "bins_ok m l obs bs" and s: "s \<in> obs"
    and len: "length seen = cm_size_x m * cm_size_y m"
    and q: "in_map m (fst q) (snd q)" and near: "cell_offset (fst q) (fst s) \<le> il_cell_radius l + 1"
      "cell_offset (snd q) (snd s) \<le> il_cell_radius l + 1"
  obtains bs' where "enqueue l seen (snd q * cm_size_x m + fst q) (fst q) (snd q) (fst s) (snd s) bs = Some bs'"
    "visited m l obs seen q s bs bs'"
proof -
  let ?i = "snd q * cm_size_x m + fst q"
  have i: "?i < length seen" using q len by (simp add: in_map_def grid_index_less)
  have d: "table_at (il_distances l) (cell_offset (fst q) (fst s)) (cell_offset (snd q) (snd s)) = Some (cell_dist q s)"
    using kernel near by (simp add: kernel_ok_def cell_dist_def)
  show ?thesis
  proof (cases "seen ! ?i \<or> cell_dist q s > real (il_cell_radius l)")
    case True
    then show ?thesis using that [of bs] i d bins by (auto simp: enqueue_def visited_def seen_at_def)
  next
    case False
    let ?bs' = "add_cell (cell_dist q s) (cell_at m q s) bs"
    have "entry_ok m l obs (cell_dist q s) (cell_at m q s)" 
      unfolding entry_ok_def using q s False by (intro exI [of _ q] exI [of _ s]) simp
    moreover have "bins_sorted bs" using bins by (simp add: bins_ok_def)
    ultimately have "visited m l obs seen q s bs ?bs'"
      unfolding visited_def using bins
      by (intro conjI impI allI bins_ok_add_cell extends_add_cell gets_add_cell work_add_cell)
    moreover have "enqueue l seen ?i (fst q) (snd q) (fst s) (snd s) bs = Some ?bs'"
      using False i d by (simp add: enqueue_def cell_at_def)
    ultimately show ?thesis using that by blast
  qed
qed

lemma enqueue_neighbors_ok:
  assumes ok: "map_ok m" and kernel: "kernel_ok l" and bins: "bins_ok m l obs bs" and s: "s \<in> obs"
    and len: "length seen = cm_size_x m * cm_size_y m"
    and p: "in_map m (fst p) (snd p)" and near: "cell_dist p s \<le> real (il_cell_radius l)"
  shows "\<exists>bs'. enqueue_neighbors l (cm_size_x m) (cm_size_y m) seen (cell_at m p s) bs = Some bs'
    \<and> bins_ok m l obs bs' \<and> extends bs bs' \<and> (\<forall>k i. work k i bs' \<le> work k i bs + 8)
    \<and> (\<forall>q. beside p q \<and> in_map m (fst q) (snd q) \<and> \<not> seen_at m seen q \<and> cell_dist q s \<le> real (il_cell_radius l)
        \<longrightarrow> gets bs bs' (cell_dist q s) (cell_at m q s))"
proof -
  obtain x y where xy: "p = (x, y)" by (cases p)
  let ?w = "cm_size_x m" and ?h = "cm_size_y m"
  have sizes: "?w < 2 ^ 31" "?h < 2 ^ 31" using in_map_small [OF ok p] by simp_all
  have x: "x < ?w" "y < ?h" using p by (simp_all add: xy in_map_def)
  have idx: "y * ?w + x < ?w * ?h" using x by (rule grid_index_less)
  have small: "?w * ?h < 2 ^ 31" using ok by (simp add: map_ok_def)
  note off = offset_in_table [OF near]
  have visit: "\<exists>b'. enqueue l seen (snd q * ?w + fst q) (fst q) (snd q) (fst s) (snd s) b = Some b' \<and> visited m l obs seen q s b b'"
    if "beside p q" "in_map m (fst q) (snd q)" "bins_ok m l obs b" for q b
  proof -
    have "cell_offset (fst q) (fst s) \<le> il_cell_radius l + 1" "cell_offset (snd q) (snd s) \<le> il_cell_radius l + 1"
      by (rule offset_beside(1) [OF that(1) off(1)], rule offset_beside(2) [OF that(1) off(2)])
    from enqueue_ok [OF ok kernel that(3) s len that(2) this] show ?thesis by metis
  qed
  define step where "step c q b = (if c then enqueue l seen (snd q * ?w + fst q) (fst q) (snd q) (fst s) (snd s) b else Some b)"
    for c :: bool and q b
  have do_step: "\<exists>b'. step c q b = Some b' \<and> bins_ok m l obs b' \<and> extends b b' \<and> (\<forall>k i. work k i b' \<le> work k i b + 2)
      \<and> (c \<and> \<not> seen_at m seen q \<and> cell_dist q s \<le> real (il_cell_radius l) \<longrightarrow> gets b b' (cell_dist q s) (cell_at m q s))"
    if "c \<longrightarrow> beside p q \<and> in_map m (fst q) (snd q)" "bins_ok m l obs b" for c q b
  proof (cases c)
    case True
    then show ?thesis using visit [of q b] that by (auto simp: step_def visited_def)
  next
    case False
    then show ?thesis using that(2) by (simp add: step_def)
  qed
  have eq: "enqueue_neighbors l ?w ?h seen (cell_at m p s) bs = do {
      b1 \<leftarrow> step (x > 0) (x - 1, y) bs;
      b2 \<leftarrow> step (y > 0) (x, y - 1) b1;
      b3 \<leftarrow> step (x + 1 < ?w) (x + 1, y) b2;
      step (y + 1 < ?h) (x, y + 1) b3 }"
  proof -
    have i1: "x > 0 \<Longrightarrow> sub32 (y * ?w + x) 1 = y * ?w + (x - 1)" "x > 0 \<Longrightarrow> sub32 x 1 = x - 1"
      using idx small x sizes by (simp_all add: sub32_le)
    have i2: "y > 0 \<Longrightarrow> sub32 (y * ?w + x) ?w = (y - 1) * ?w + x" "y > 0 \<Longrightarrow> sub32 y 1 = y - 1"
    proof -
      assume "y > 0"
      then obtain z where z: "y = Suc z" by (cases y) auto
      then show "sub32 (y * ?w + x) ?w = (y - 1) * ?w + x" using idx small by (simp add: sub32_le)
      show "sub32 y 1 = y - 1" using \<open>y > 0\<close> x sizes by (simp add: sub32_le)
    qed
    have i3: "sub32 ?w 1 = ?w - 1" "sub32 ?h 1 = ?h - 1" using x sizes by (simp_all add: sub32_le)
    have i4: "x + 1 < ?w \<Longrightarrow> wrap32 (y * ?w + x + 1) = y * ?w + (x + 1)" "x + 1 < ?w \<Longrightarrow> wrap32 (x + 1) = x + 1"
      using idx small sizes by (simp_all add: wrap32_def)
    have i5: "y + 1 < ?h \<Longrightarrow> wrap32 (y * ?w + x + ?w) = (y + 1) * ?w + x" "y + 1 < ?h \<Longrightarrow> wrap32 (y + 1) = y + 1"
      using grid_index_less [of x ?w "y + 1" ?h] x small sizes by (simp_all add: wrap32_def)
    have c3: "x < ?w - 1 \<longleftrightarrow> x + 1 < ?w" "y < ?h - 1 \<longleftrightarrow> y + 1 < ?h" by auto
    show ?thesis
      unfolding enqueue_neighbors_def Let_def step_def i3 c3 xy cell_at_simps
      by (simp add: i1 i2 i4 i5 c3 cong: if_cong del: One_nat_def)
  qed
  have n1: "x > 0 \<longrightarrow> beside p (x - 1, y) \<and> in_map m (fst (x - 1, y)) (snd (x - 1, y))"
    using x by (auto simp: xy beside_def in_map_def)
  have n2: "y > 0 \<longrightarrow> beside p (x, y - 1) \<and> in_map m (fst (x, y - 1)) (snd (x, y - 1))"
    using x by (auto simp: xy beside_def in_map_def)
  have n3: "x + 1 < ?w \<longrightarrow> beside p (x + 1, y) \<and> in_map m (fst (x + 1, y)) (snd (x + 1, y))"
    using x by (auto simp: xy beside_def in_map_def)
  have n4: "y + 1 < ?h \<longrightarrow> beside p (x, y + 1) \<and> in_map m (fst (x, y + 1)) (snd (x, y + 1))"
    using x by (auto simp: xy beside_def in_map_def)
  obtain b1 where b1: "step (x > 0) (x - 1, y) bs = Some b1" "bins_ok m l obs b1" "extends bs b1"
    "\<forall>k i. work k i b1 \<le> work k i bs + 2" "x > 0 \<and> \<not> seen_at m seen (x - 1, y) \<and> cell_dist (x - 1, y) s \<le> real (il_cell_radius l)
      \<longrightarrow> gets bs b1 (cell_dist (x - 1, y) s) (cell_at m (x - 1, y) s)"
    using do_step [where c = "x > 0", OF n1 bins] by (elim exE conjE) (rule that)
  obtain b2 where b2: "step (y > 0) (x, y - 1) b1 = Some b2" "bins_ok m l obs b2" "extends b1 b2"
    "\<forall>k i. work k i b2 \<le> work k i b1 + 2" "y > 0 \<and> \<not> seen_at m seen (x, y - 1) \<and> cell_dist (x, y - 1) s \<le> real (il_cell_radius l)
      \<longrightarrow> gets b1 b2 (cell_dist (x, y - 1) s) (cell_at m (x, y - 1) s)"
    using do_step [where c = "y > 0", OF n2 b1(2)] by (elim exE conjE) (rule that)
  obtain b3 where b3: "step (x + 1 < ?w) (x + 1, y) b2 = Some b3" "bins_ok m l obs b3" "extends b2 b3"
    "\<forall>k i. work k i b3 \<le> work k i b2 + 2" "x + 1 < ?w \<and> \<not> seen_at m seen (x + 1, y) \<and> cell_dist (x + 1, y) s \<le> real (il_cell_radius l)
      \<longrightarrow> gets b2 b3 (cell_dist (x + 1, y) s) (cell_at m (x + 1, y) s)"
    using do_step [where c = "x + 1 < ?w", OF n3 b2(2)] by (elim exE conjE) (rule that)
  obtain b4 where b4: "step (y + 1 < ?h) (x, y + 1) b3 = Some b4" "bins_ok m l obs b4" "extends b3 b4"
    "\<forall>k i. work k i b4 \<le> work k i b3 + 2" "y + 1 < ?h \<and> \<not> seen_at m seen (x, y + 1) \<and> cell_dist (x, y + 1) s \<le> real (il_cell_radius l)
      \<longrightarrow> gets b3 b4 (cell_dist (x, y + 1) s) (cell_at m (x, y + 1) s)"
    using do_step [where c = "y + 1 < ?h", OF n4 b3(2)] by (elim exE conjE) (rule that)
  have ext: "extends b1 b4" "extends b2 b4" "extends bs b2" "extends bs b3" "extends bs b4"
    using b1(3) b2(3) b3(3) b4(3) by (meson extends_trans)+
  have "work k i b4 \<le> work k i bs + 8" for k i
  proof -
    have "work k i b1 \<le> work k i bs + 2" "work k i b2 \<le> work k i b1 + 2" "work k i b3 \<le> work k i b2 + 2"
      "work k i b4 \<le> work k i b3 + 2" using b1(4) b2(4) b3(4) b4(4) by blast+
    then show ?thesis by linarith
  qed
  moreover have "gets bs b4 (cell_dist q s) (cell_at m q s)"
    if q: "beside p q" "in_map m (fst q) (snd q)" "\<not> seen_at m seen q" "cell_dist q s \<le> real (il_cell_radius l)" for q
  proof -
    obtain qx qy where [simp]: "q = (qx, qy)" by (cases q)
    consider "q = (x - 1, y)" "x > 0" | "q = (x, y - 1)" "y > 0" | "q = (x + 1, y)" "x + 1 < ?w" | "q = (x, y + 1)" "y + 1 < ?h"
      using q(1,2) by (auto simp: beside_def in_map_def xy)
    then show ?thesis
    proof cases
      case 1 then show ?thesis using b1(5) q(3,4) gets_mono [OF extends_refl _ ext(1)] by blast
    next
      case 2 then show ?thesis using b2(5) q(3,4) gets_mono [OF b1(3) _ ext(2)] by blast
    next
      case 3 then show ?thesis using b3(5) q(3,4) gets_mono [OF ext(3) _ b4(3)] by blast
    next
      case 4 then show ?thesis using b4(5) q(3,4) gets_mono [OF ext(4) _ extends_refl] by blast
    qed
  qed
  ultimately show ?thesis using eq b1(1) b2(1) b3(1) b4(1,2) ext(5) by (intro exI [of _ b4]) simp
qed

subsection \<open>The traversal\<close>

text \<open>An entry that the traversal at position \<open>i\<close> of bin \<open>k\<close> will still meet.\<close>

definition pending :: "real \<Rightarrow> nat \<Rightarrow> bins \<Rightarrow> real \<Rightarrow> cell_data \<Rightarrow> bool" where
  "pending k i bs d c \<longleftrightarrow> (if d = k then \<exists>p \<ge> i. p < length (bin_of k bs) \<and> bin_of k bs ! p = c
     else k < d \<and> c \<in> set (bin_of d bs))"

lemma pending_step: "pending k i bs d c \<Longrightarrow> pending k (Suc i) bs d c \<or> (d = k \<and> c = bin_of k bs ! i)"
proof (cases "d = k")
  case True
  assume "pending k i bs d c"
  then obtain p where "i \<le> p" "p < length (bin_of k bs)" "bin_of k bs ! p = c" using True by (auto simp: pending_def)
  then show ?thesis using True by (cases "p = i") (auto simp: pending_def intro!: exI [of _ p])
qed (simp add: pending_def)

lemma pending_extends: "pending k i bs d c \<Longrightarrow> extends bs bs' \<Longrightarrow> pending k i bs' d c"
proof (cases "d = k")
  case True
  assume "pending k i bs d c" "extends bs bs'"
  then show ?thesis using True extends_nth [of bs bs'] extends_length [of bs bs' k]
    by (fastforce simp: pending_def)
next
  case False
  assume "pending k i bs d c" and ext: "extends bs bs'"
  moreover obtain cs where "bin_of d bs' = bin_of d bs @ cs" using ext unfolding extends_def by blast
  ultimately show ?thesis using False by (simp add: pending_def)
qed

lemma pending_gets:
  assumes "gets bs bs' d c" "k \<le> d" "i < length (bin_of k bs)"
  shows "pending k (Suc i) bs' d c"
proof -
  obtain p where p: "length (bin_of d bs) \<le> p" "p < length (bin_of d bs')" "bin_of d bs' ! p = c"
    using assms(1) by (auto simp: gets_def)
  then have "c \<in> set (bin_of d bs')" by auto
  then show ?thesis using p assms(2,3) by (cases "d = k") (auto simp: pending_def intro!: exI [of _ p])
qed

text \<open>\<open>f\<close> tells for every cell that has been processed from which obstacle it was reached.\<close>

definition reached :: "(location \<Rightarrow> location option) \<Rightarrow> location \<Rightarrow> real \<Rightarrow> bool" where
  "reached f q d \<longleftrightarrow> (\<exists>s. f q = Some s \<and> cell_dist q s \<le> d)"

definition new_cost :: "costmap \<Rightarrow> inflation \<Rightarrow> u8 list \<Rightarrow> (location \<Rightarrow> location option) \<Rightarrow> location \<Rightarrow> u8" where
  "new_cost m l cells f p = (let old = cells ! (snd p * cm_size_x m + fst p) in
     case f p of None \<Rightarrow> old | Some s \<Rightarrow> inflated l old (kernel_cost l p s))"

definition arrays_ok :: "costmap \<Rightarrow> inflation \<Rightarrow> u8 list \<Rightarrow> (location \<Rightarrow> location option) \<Rightarrow> inflate_state \<Rightarrow> bool" where
  "arrays_ok m l cells f st \<longleftrightarrow> length (is_seen st) = cm_size_x m * cm_size_y m
     \<and> length (is_cells st) = cm_size_x m * cm_size_y m
     \<and> (\<forall>p. in_map m (fst p) (snd p) \<longrightarrow> (seen_at m (is_seen st) p \<longleftrightarrow> f p \<noteq> None)
          \<and> is_cells st ! (snd p * cm_size_x m + fst p) = new_cost m l cells f p)"

definition sources_ok :: "costmap \<Rightarrow> inflation \<Rightarrow> location set \<Rightarrow> real \<Rightarrow> (location \<Rightarrow> location option) \<Rightarrow> bool" where
  "sources_ok m l obs k f \<longleftrightarrow> (\<forall>p s. f p = Some s \<longrightarrow> in_map m (fst p) (snd p) \<and> s \<in> obs
     \<and> cell_dist p s \<le> real (il_cell_radius l) \<and> cell_dist p s \<le> k)"

lemma arrays_okD:
  assumes "arrays_ok m l cells f st" "in_map m (fst p) (snd p)"
  shows "seen_at m (is_seen st) p \<longleftrightarrow> f p \<noteq> None"
    "is_cells st ! (snd p * cm_size_x m + fst p) = new_cost m l cells f p"
  using assms unfolding arrays_ok_def by blast+

lemma sources_okD:
  assumes "sources_ok m l obs k f" "f p = Some s"
  shows "in_map m (fst p) (snd p)" "s \<in> obs" "cell_dist p s \<le> real (il_cell_radius l)" "cell_dist p s \<le> k"
  using assms unfolding sources_ok_def by blast+

text \<open>What is still open is pending.\<close>

definition frontier_ok :: "costmap \<Rightarrow> inflation \<Rightarrow> location set \<Rightarrow> real \<Rightarrow> nat \<Rightarrow> bins \<Rightarrow> (location \<Rightarrow> location option) \<Rightarrow> bool" where
  "frontier_ok m l obs k i bs f \<longleftrightarrow>
     (\<forall>q \<in> obs. f q = Some q \<or> pending k i bs 0 (cell_at m q q)) \<and>
     (\<forall>p s q. f p = Some s \<and> beside p q \<and> in_map m (fst q) (snd q)
        \<and> cell_dist p s \<le> cell_dist q s \<and> cell_dist q s \<le> real (il_cell_radius l) \<longrightarrow>
        reached f q (cell_dist q s) \<or> pending k i bs (cell_dist q s) (cell_at m q s))"

lemma frontier_okD:
  assumes "frontier_ok m l obs k i bs f"
  shows "q \<in> obs \<Longrightarrow> f q = Some q \<or> pending k i bs 0 (cell_at m q q)"
    "f p = Some s \<Longrightarrow> beside p q' \<Longrightarrow> in_map m (fst q') (snd q') \<Longrightarrow> cell_dist p s \<le> cell_dist q' s \<Longrightarrow>
      cell_dist q' s \<le> real (il_cell_radius l) \<Longrightarrow>
      reached f q' (cell_dist q' s) \<or> pending k i bs (cell_dist q' s) (cell_at m q' s)"
  using assms unfolding frontier_ok_def by blast+

lemma unseen_update:
  "i < length xs \<Longrightarrow> \<not> xs ! i \<Longrightarrow> Suc (length (filter Not (xs[i := True]))) = length (filter Not xs)"
  by (induction xs arbitrary: i) (auto simp: nth_Cons split: nat.splits)

lemma cell_at_inj: "cell_at m p s = cell_at m p' s' \<Longrightarrow> p = p' \<and> s = s'"
  by (metis cell_at_simps(1,2))

definition total_work :: "real \<Rightarrow> nat \<Rightarrow> inflate_state \<Rightarrow> nat" where
  "total_work k i st = 9 * length (filter Not (is_seen st)) + work k i (is_bins st)"

lemma process_cell_ok:
  assumes ok: "map_ok m" and kernel: "kernel_ok l"
    and bins: "bins_ok m l obs (is_bins st)" and arrays: "arrays_ok m l cells f st"
    and sources: "sources_ok m l obs k f" and front: "frontier_ok m l obs k i (is_bins st) f"
    and i: "i < length (bin_of k (is_bins st))"
  shows "\<exists>st' f'. process_cell l (cm_size_x m) (cm_size_y m) (bin_of k (is_bins st) ! i) st = Some st'
    \<and> bins_ok m l obs (is_bins st') \<and> arrays_ok m l cells f' st' \<and> sources_ok m l obs k f'
    \<and> frontier_ok m l obs k (Suc i) (is_bins st') f' \<and> total_work k (Suc i) st' < total_work k i st"
proof -
  let ?e = "bin_of k (is_bins st) ! i"
  have "entry_ok m l obs k ?e" using bins i by (simp add: bins_ok_def)
  then obtain p s where e: "?e = cell_at m p s" "in_map m (fst p) (snd p)" "s \<in> obs" "k = cell_dist p s"
    "cell_dist p s \<le> real (il_cell_radius l)" by (auto simp: entry_ok_def)
  let ?i = "snd p * cm_size_x m + fst p"
  have idx: "?i < cm_size_x m * cm_size_y m" using e(2) by (simp add: in_map_def grid_index_less)
  have lens: "length (is_seen st) = cm_size_x m * cm_size_y m" "length (is_cells st) = cm_size_x m * cm_size_y m"
    using arrays by (simp_all add: arrays_ok_def)
  show ?thesis
  proof (cases "seen_at m (is_seen st) p")
    case True
    then obtain s' where s': "f p = Some s'" "cell_dist p s' \<le> k"
      using arrays_okD(1) [OF arrays e(2)] sources_okD(4) [OF sources] by blast
    have at: "?e = cell_at m q t \<Longrightarrow> q = p" for q t using e(1) cell_at_inj by metis
    have "frontier_ok m l obs k (Suc i) (is_bins st) f"
      unfolding frontier_ok_def
    proof (intro conjI ballI allI impI)
      fix q assume "q \<in> obs"
      then consider "f q = Some q" | "pending k i (is_bins st) 0 (cell_at m q q)" using front by (auto simp: frontier_ok_def)
      then show "f q = Some q \<or> pending k (Suc i) (is_bins st) 0 (cell_at m q q)"
      proof cases
        case 2
        then show ?thesis
        proof (cases rule: disjE [OF pending_step [OF 2]])
          case 2
          then have "q = p" "s' = p" using at [of q q] s'(2) cell_dist_le_0 [of p s'] by auto
          then show ?thesis using s'(1) by simp
        qed simp
      qed simp
    next
      fix p' t q assume "f p' = Some t \<and> beside p' q \<and> in_map m (fst q) (snd q)
        \<and> cell_dist p' t \<le> cell_dist q t \<and> cell_dist q t \<le> real (il_cell_radius l)"
      then consider "reached f q (cell_dist q t)" | "pending k i (is_bins st) (cell_dist q t) (cell_at m q t)"
        using front unfolding frontier_ok_def by blast
      then show "reached f q (cell_dist q t) \<or> pending k (Suc i) (is_bins st) (cell_dist q t) (cell_at m q t)"
      proof cases
        case 2
        then show ?thesis
        proof (cases rule: disjE [OF pending_step [OF 2]])
          case 2
          then have "q = p" "cell_dist q t = k" using at [of q t] by auto
          then show ?thesis using s' by (auto simp: reached_def)
        qed simp
      qed simp
    qed
    moreover have "process_cell l (cm_size_x m) (cm_size_y m) ?e st = Some st"
      using True idx lens by (simp add: process_cell_def e(1) seen_at_def)
    moreover have "total_work k (Suc i) st < total_work k i st" using i by (simp add: total_work_def work_def)
    ultimately show ?thesis using bins arrays sources by blast
  next
    case False
    let ?seen = "(is_seen st)[?i := True]"
    let ?f = "f(p \<mapsto> s)"
    have no: "f p = None" using False arrays_okD(1) [OF arrays e(2)] by blast
    have cost: "table_at (il_costs l) (cell_offset (fst p) (fst s)) (cell_offset (snd p) (snd s)) = Some (kernel_cost l p s)"
      using kernel offset_in_table [OF e(5)] by (auto simp: kernel_ok_def kernel_cost_def)
    obtain bs' where bs': "enqueue_neighbors l (cm_size_x m) (cm_size_y m) ?seen (cell_at m p s) (is_bins st) = Some bs'"
      "bins_ok m l obs bs'" "extends (is_bins st) bs'" "\<And>k i. work k i bs' \<le> work k i (is_bins st) + 8"
      "\<And>q. beside p q \<Longrightarrow> in_map m (fst q) (snd q) \<Longrightarrow> \<not> seen_at m ?seen q \<Longrightarrow> cell_dist q s \<le> real (il_cell_radius l)
        \<Longrightarrow> gets (is_bins st) bs' (cell_dist q s) (cell_at m q s)"
      using enqueue_neighbors_ok [OF ok kernel bins e(3) _ e(2,5), of ?seen] lens by auto
    let ?old = "is_cells st ! ?i"
    let ?st' = "\<lparr>is_bins = bs', is_seen = ?seen, is_cells = (is_cells st)[?i := inflated l ?old (kernel_cost l p s)]\<rparr>"
    have run: "process_cell l (cm_size_x m) (cm_size_y m) ?e st = Some ?st'"
      using False idx lens cost bs'(1) by (simp add: process_cell_def e(1) seen_at_def)
    have same: "snd q * cm_size_x m + fst q = ?i \<longleftrightarrow> q = p" if "in_map m (fst q) (snd q)" for q
      using get_index_inj [OF ok that e(2)] get_index_in_map(1) [OF ok that] get_index_in_map(1) [OF ok e(2)]
      by (auto simp: prod_eq_iff)
    have idx_q: "snd q * cm_size_x m + fst q < cm_size_x m * cm_size_y m" if "in_map m (fst q) (snd q)" for q
      using that by (simp add: in_map_def grid_index_less)
    have seen': "seen_at m ?seen q \<longleftrightarrow> q = p \<or> seen_at m (is_seen st) q" if "in_map m (fst q) (snd q)" for q
      using same [OF that] idx_q [OF that] lens by (auto simp: seen_at_def nth_list_update)
    have arrays': "arrays_ok m l cells ?f ?st'"
      unfolding arrays_ok_def
    proof (intro conjI allI impI)
      fix q assume q: "in_map m (fst q) (snd q)"
      show "seen_at m (is_seen ?st') q \<longleftrightarrow> ?f q \<noteq> None"
        using seen' [OF q] arrays_okD(1) [OF arrays q] by simp
      show "is_cells ?st' ! (snd q * cm_size_x m + fst q) = new_cost m l cells ?f q"
        using arrays_okD(2) [OF arrays q] arrays_okD(2) [OF arrays e(2)] same [OF q] idx_q [OF q] lens no
        by (cases "q = p") (simp_all add: new_cost_def Let_def)
    qed (use lens in simp_all)
    have sources': "sources_ok m l obs k ?f"
      unfolding sources_ok_def
    proof (intro allI impI)
      fix q t assume "?f q = Some t"
      then show "in_map m (fst q) (snd q) \<and> t \<in> obs \<and> cell_dist q t \<le> real (il_cell_radius l) \<and> cell_dist q t \<le> k"
        using sources_okD [OF sources, of q t] e(2-5) by (cases "q = p") simp_all
    qed
    have grow: "reached f q d \<Longrightarrow> reached ?f q d" for q d using no by (auto simp: reached_def)
    have later: "pending k (Suc i) bs' d c \<or> (d = k \<and> c = cell_at m p s)" if "pending k i (is_bins st) d c" for d c
      using pending_step [OF that] pending_extends [OF _ bs'(3)] e(1) by auto
    have "frontier_ok m l obs k (Suc i) bs' ?f"
      unfolding frontier_ok_def
    proof (intro conjI ballI allI impI)
      fix q assume "q \<in> obs"
      then consider "f q = Some q" | "pending k i (is_bins st) 0 (cell_at m q q)" using front by (auto simp: frontier_ok_def)
      then show "?f q = Some q \<or> pending k (Suc i) bs' 0 (cell_at m q q)"
      proof cases
        case 1 then show ?thesis using no by auto
      next
        case 2
        from later [OF 2] show ?thesis
        proof
          assume "0 = k \<and> cell_at m q q = cell_at m p s"
          then have "q = p" "s = q" using cell_at_inj by blast+
          then show ?thesis by simp
        qed simp
      qed
    next
      fix p' t q assume h: "?f p' = Some t \<and> beside p' q \<and> in_map m (fst q) (snd q)
        \<and> cell_dist p' t \<le> cell_dist q t \<and> cell_dist q t \<le> real (il_cell_radius l)"
      show "reached ?f q (cell_dist q t) \<or> pending k (Suc i) bs' (cell_dist q t) (cell_at m q t)"
      proof (cases "p' = p")
        case True
        then have t: "t = s" "beside p q" "k \<le> cell_dist q s" using h e(4) by auto
        show ?thesis
        proof (cases "seen_at m ?seen q")
          case True
          then have "?f q \<noteq> None" using arrays_okD(1) [OF arrays', of q] h by simp
          then obtain s' where "?f q = Some s'" by auto
          then have "reached ?f q (cell_dist q t)" using sources_okD(4) [OF sources', of q s'] t(1,3) by (auto simp: reached_def)
          then show ?thesis ..
        next
          case False
          then have "gets (is_bins st) bs' (cell_dist q s) (cell_at m q s)" using bs'(5) [OF t(2)] h t(1) by blast
          then show ?thesis using pending_gets [OF _ t(3) i] t(1) by blast
        qed
      next
        case False
        then have "reached f q (cell_dist q t) \<or> pending k i (is_bins st) (cell_dist q t) (cell_at m q t)"
          using frontier_okD(2) [OF front, of p' t q] h by simp
        then show ?thesis
        proof
          assume "pending k i (is_bins st) (cell_dist q t) (cell_at m q t)"
          from later [OF this] show ?thesis
          proof
            assume c: "cell_dist q t = k \<and> cell_at m q t = cell_at m p s"
            then have "q = p \<and> t = s" using cell_at_inj by blast
            then show ?thesis by (simp add: reached_def)
          qed simp
        qed (use grow in blast)
      qed
    qed
    moreover have "total_work k (Suc i) ?st' < total_work k i st"
    proof -
      have "Suc (length (filter Not ?seen)) = length (filter Not (is_seen st))"
        using False idx lens by (intro unseen_update) (simp_all add: seen_at_def)
      moreover have "work k (Suc i) bs' \<le> work k (Suc i) (is_bins st) + 8" by (rule bs'(4))
      moreover have "Suc (work k (Suc i) (is_bins st)) = work k i (is_bins st)" using i by (simp add: work_def)
      ultimately show ?thesis by (simp add: total_work_def)
    qed
    ultimately show ?thesis using run bs'(2) arrays' sources' by (intro exI [of _ ?st'] exI [of _ ?f]) simp
  qed
qed

text \<open>At the end nothing is pending.\<close>

definition spread_ok :: "costmap \<Rightarrow> inflation \<Rightarrow> location set \<Rightarrow> (location \<Rightarrow> location option) \<Rightarrow> bool" where
  "spread_ok m l obs f \<longleftrightarrow>
     (\<forall>p s. f p = Some s \<longrightarrow> in_map m (fst p) (snd p) \<and> s \<in> obs \<and> cell_dist p s \<le> real (il_cell_radius l)) \<and>
     (\<forall>q \<in> obs. f q = Some q) \<and>
     (\<forall>p s q. f p = Some s \<and> beside p q \<and> in_map m (fst q) (snd q)
        \<and> cell_dist p s \<le> cell_dist q s \<and> cell_dist q s \<le> real (il_cell_radius l) \<longrightarrow> reached f q (cell_dist q s))"

lemma inflate_from_ok:
  assumes ok: "map_ok m" and kernel: "kernel_ok l"
  shows "bins_ok m l obs (is_bins st) \<Longrightarrow> arrays_ok m l cells f st \<Longrightarrow> sources_ok m l obs k f \<Longrightarrow>
    frontier_ok m l obs k i (is_bins st) f \<Longrightarrow>
    \<exists>st' f'. inflate_from l (cm_size_x m) (cm_size_y m) k i st = Some st' \<and> arrays_ok m l cells f' st' \<and> spread_ok m l obs f'"
proof (induction "total_work k i st" arbitrary: k i st f rule: less_induct)
  case less
  show ?case
  proof (cases "i < length (bin_of k (is_bins st))")
    case True
    from process_cell_ok [OF ok kernel less.prems True] obtain st1 f1 where
      step: "process_cell l (cm_size_x m) (cm_size_y m) (bin_of k (is_bins st) ! i) st = Some st1"
      "bins_ok m l obs (is_bins st1)" "arrays_ok m l cells f1 st1" "sources_ok m l obs k f1"
      "frontier_ok m l obs k (Suc i) (is_bins st1) f1" "total_work k (Suc i) st1 < total_work k i st"
      by (elim exE conjE) (rule that)
    have "inflate_from l (cm_size_x m) (cm_size_y m) k i st = inflate_from l (cm_size_x m) (cm_size_y m) k (Suc i) st1"
      using True step(1) by (subst inflate_from.simps) simp
    then show ?thesis using less.hyps [OF step(6) step(2-5)] by simp
  next
    case no_more: False
    show ?thesis
    proof (cases "filter (\<lambda>b. k < fst b) (is_bins st)")
      case Nil
      have none: "\<not> pending k i (is_bins st) d c" for d c
        using no_more no_later_bins [OF Nil, of d] by (auto simp: pending_def)
      have "spread_ok m l obs f"
        unfolding spread_ok_def
      proof (intro conjI allI ballI impI)
        fix p s assume "f p = Some s"
        then show "in_map m (fst p) (snd p)" "s \<in> obs" "cell_dist p s \<le> real (il_cell_radius l)"
          using sources_okD [OF less.prems(3)] by blast+
      next
        fix q assume "q \<in> obs"
        then show "f q = Some q" using frontier_okD(1) [OF less.prems(4)] none by blast
      next
        fix p s q assume "f p = Some s \<and> beside p q \<and> in_map m (fst q) (snd q)
          \<and> cell_dist p s \<le> cell_dist q s \<and> cell_dist q s \<le> real (il_cell_radius l)"
        then show "reached f q (cell_dist q s)" using frontier_okD(2) [OF less.prems(4), of p s q] none by blast
      qed
      moreover have "inflate_from l (cm_size_x m) (cm_size_y m) k i st = Some st"
        using no_more Nil by (subst inflate_from.simps) simp
      ultimately show ?thesis using less.prems(2) by blast
    next
      case (Cons b bs)
      have sorted: "bins_sorted (is_bins st)" using less.prems(1) by (simp add: bins_ok_def)
      note later = later_work_next [OF sorted Cons]
      have work: "total_work (fst b) 0 st < total_work k i st"
        using later(1) no_more by (simp add: total_work_def work_def [of k])
      have sources: "sources_ok m l obs (fst b) f"
        using sources_okD [OF less.prems(3)] later(2) unfolding sources_ok_def by (meson less_imp_le order_trans)
      have move: "pending (fst b) 0 (is_bins st) d c" if "pending k i (is_bins st) d c" for d c
      proof -
        have c: "k < d" "c \<in> set (bin_of d (is_bins st))" using that no_more by (auto simp: pending_def split: if_splits)
        then have "bin_of d (is_bins st) \<noteq> []" by auto
        then have "fst b \<le> d" by (rule later(3) [OF c(1)])
        then show ?thesis using c(2) by (auto simp: pending_def in_set_conv_nth)
      qed
      have front: "frontier_ok m l obs (fst b) 0 (is_bins st) f"
        unfolding frontier_ok_def
      proof (intro conjI ballI allI impI)
        fix q assume "q \<in> obs"
        then show "f q = Some q \<or> pending (fst b) 0 (is_bins st) 0 (cell_at m q q)"
          using frontier_okD(1) [OF less.prems(4)] move by blast
      next
        fix p s q assume "f p = Some s \<and> beside p q \<and> in_map m (fst q) (snd q)
          \<and> cell_dist p s \<le> cell_dist q s \<and> cell_dist q s \<le> real (il_cell_radius l)"
        then show "reached f q (cell_dist q s) \<or> pending (fst b) 0 (is_bins st) (cell_dist q s) (cell_at m q s)"
          using frontier_okD(2) [OF less.prems(4), of p s q] move by blast
      qed
      have "inflate_from l (cm_size_x m) (cm_size_y m) k i st = inflate_from l (cm_size_x m) (cm_size_y m) (fst b) 0 st"
        using no_more Cons by (subst inflate_from.simps) simp
      then show ?thesis using less.hyps [OF work less.prems(1,2) sources front] by simp
    qed
  qed
qed

subsection \<open>The window\<close>

lemma lethal_row_ok:
  assumes "map_ok m" "length cells = cm_size_x m * cm_size_y m" "j < cm_size_y m" "\<forall>i \<in> set is. i < cm_size_x m"
  shows "\<exists>row. lethal_row m cells j is = Some row \<and>
    set row = {cell_at m (i, j) (i, j) | i. i \<in> set is \<and> cells ! (j * cm_size_x m + i) = LETHAL_OBSTACLE}"
  using assms(4)
proof (induction "is")
  case (Cons i "is")
  have "in_map m i j" using Cons.prems assms(3) by (simp add: in_map_def)
  then have idx: "get_index m i j = j * cm_size_x m + i" "get_index m i j < length cells"
    using get_index_in_map [OF assms(1)] assms(2) by simp_all
  obtain row where row: "lethal_row m cells j is = Some row"
    "set row = {cell_at m (i, j) (i, j) | i. i \<in> set is \<and> cells ! (j * cm_size_x m + i) = LETHAL_OBSTACLE}"
    using Cons by auto
  have entry: "\<lparr>cd_index = j * cm_size_x m + i, cd_x = i, cd_y = j, cd_src_x = i, cd_src_y = j\<rparr> = cell_at m (i, j) (i, j)"
    by (simp add: cell_at_def)
  have "lethal_row m cells j (i # is) =
      Some (if cells ! (j * cm_size_x m + i) = LETHAL_OBSTACLE then cell_at m (i, j) (i, j) # row else row)"
    using row(1) idx by (simp add: entry)
  then show ?case using row(2) by auto
qed simp

lemma lethal_cells_ok:
  assumes "map_ok m" "length cells = cm_size_x m * cm_size_y m" "\<forall>i \<in> set is. i < cm_size_x m" "\<forall>j \<in> set js. j < cm_size_y m"
  shows "\<exists>cs. lethal_cells m cells is js = Some cs \<and>
    set cs = {cell_at m (i, j) (i, j) | i j. i \<in> set is \<and> j \<in> set js \<and> cells ! (j * cm_size_x m + i) = LETHAL_OBSTACLE}"
  using assms(4)
proof (induction js)
  case (Cons j js)
  then obtain cs where cs: "lethal_cells m cells is js = Some cs"
    "set cs = {cell_at m (i, j) (i, j) | i j. i \<in> set is \<and> j \<in> set js \<and> cells ! (j * cm_size_x m + i) = LETHAL_OBSTACLE}"
    by auto
  obtain row where "lethal_row m cells j is = Some row"
    "set row = {cell_at m (i, j) (i, j) | i. i \<in> set is \<and> cells ! (j * cm_size_x m + i) = LETHAL_OBSTACLE}"
    using lethal_row_ok [OF assms(1,2), of j "is"] Cons.prems assms(3) by auto
  then show ?case using cs by auto
qed simp

text \<open>The recorded size of the array of flags is its size.\<close>

definition seen_ok :: "inflation \<Rightarrow> bool" where
  "seen_ok l \<longleftrightarrow> (\<forall>flags. il_seen l = Some flags \<longrightarrow> il_seen_size l = int (length flags) \<and> length flags < 2 ^ 31)"

text \<open>The lethal cells from which a window is inflated.\<close>

definition obstacles_near :: "costmap \<Rightarrow> nat \<Rightarrow> int \<Rightarrow> int \<Rightarrow> int \<Rightarrow> int \<Rightarrow> location set" where
  "obstacles_near m r min_i min_j max_i max_j = {p. in_map m (fst p) (snd p) \<and> cost_at m (fst p) (snd p) = LETHAL_OBSTACLE
     \<and> min_i - int r \<le> int (fst p) \<and> int (fst p) < max_i + int r
     \<and> min_j - int r \<le> int (snd p) \<and> int (snd p) < max_j + int r}"

lemma inflated_not_lower: "old \<noteq> NO_INFORMATION \<Longrightarrow> old \<le> inflated l old c"
  by (simp add: inflated_def)

lemma window_range:
  fixes lo hi :: int and r n :: nat
  assumes "\<bar>lo\<bar> < 2 ^ 30" "\<bar>hi\<bar> < 2 ^ 30" "r < 2 ^ 30" "n < 2 ^ 31"
  shows "set [nat (max 0 (wrap_int (lo - int r)))..<nat (min (wrap_int (int n)) (wrap_int (hi + int r)))] =
    {i. i < n \<and> lo - int r \<le> int i \<and> int i < hi + int r}"
  using assms by auto

lemma inflation_update_costs_ok:
  assumes ok: "map_ok m" and kernel: "kernel_ok l" and seen: "seen_ok l" and on: "il_enabled l" "0 < il_cell_radius l"
    and window: "\<bar>min_i\<bar> < 2 ^ 30" "\<bar>min_j\<bar> < 2 ^ 30" "\<bar>max_i\<bar> < 2 ^ 30" "\<bar>max_j\<bar> < 2 ^ 30" "il_cell_radius l < 2 ^ 30"
    and sizes: "cm_size_x m < 2 ^ 31" "cm_size_y m < 2 ^ 31"
  shows "\<exists>m' l' f. inflation_update_costs raw min_i min_j max_i max_j m l = Some (m', l') \<and> map_ok m' \<and> seen_ok l'
    \<and> m' = m\<lparr>cm_cells := cm_cells m'\<rparr> \<and> l' = l\<lparr>il_seen := il_seen l', il_seen_size := il_seen_size l'\<rparr>
    \<and> spread_ok m l (obstacles_near m (il_cell_radius l) min_i min_j max_i max_j) f
    \<and> (\<forall>p. in_map m (fst p) (snd p) \<longrightarrow> cost_at m' (fst p) (snd p) =
        (case f p of None \<Rightarrow> cost_at m (fst p) (snd p)
         | Some s \<Rightarrow> inflated l (cost_at m (fst p) (snd p)) (kernel_cost l p s)))"
proof -
  let ?w = "cm_size_x m" and ?h = "cm_size_y m" and ?r = "il_cell_radius l"
  obtain cells where cells: "cm_cells m = Some cells" "length cells = ?w * ?h" and small: "?w * ?h < 2 ^ 31"
    using ok by (auto simp: map_ok_def)
  define flags where "flags = (case il_seen l of None \<Rightarrow> map raw [0..<?w * ?h]
      | Some s \<Rightarrow> if wrap32 (to_unsigned (il_seen_size l)) \<noteq> ?w * ?h then map raw [0..<?w * ?h] else s)"
  have "length flags = ?w * ?h"
    using seen by (auto simp: flags_def seen_ok_def to_unsigned_def wrap32_def split: option.splits)
  then have clear: "mem_write flags 0 (replicate (?w * ?h) False) = Some (replicate (?w * ?h) False)"
    by (simp add: mem_write_def splice_def)
  let ?is = "[nat (max 0 (wrap_int (min_i - int ?r)))..<nat (min (wrap_int (int ?w)) (wrap_int (max_i + int ?r)))]"
  let ?js = "[nat (max 0 (wrap_int (min_j - int ?r)))..<nat (min (wrap_int (int ?h)) (wrap_int (max_j + int ?r)))]"
  note is_set = window_range [OF window(1,3,5) sizes(1)] and js_set = window_range [OF window(2,4,5) sizes(2)]
  obtain cs where cs: "lethal_cells m cells ?is ?js = Some cs" "set cs = {cell_at m (i, j) (i, j) | i j.
      i \<in> set ?is \<and> j \<in> set ?js \<and> cells ! (j * ?w + i) = LETHAL_OBSTACLE}"
    using lethal_cells_ok [OF ok cells(2), of ?is ?js] unfolding is_set js_set by auto
  let ?obs = "obstacles_near m ?r min_i min_j max_i max_j"
  have obs: "set cs = (\<lambda>p. cell_at m p p) ` ?obs"
  proof -
    have "?obs = {p. fst p \<in> set ?is \<and> snd p \<in> set ?js \<and> cells ! (snd p * ?w + fst p) = LETHAL_OBSTACLE}"
      unfolding is_set js_set obstacles_near_def by (auto simp: in_map_def cost_at_def cells(1))
    moreover have "{g (i, j) | i j. Q (i, j)} = g ` {p. Q p}" for g :: "location \<Rightarrow> cell_data" and Q
    proof
      show "g ` {p. Q p} \<subseteq> {g (i, j) | i j. Q (i, j)}"
      proof
        fix c assume "c \<in> g ` {p. Q p}"
        then obtain i j where "c = g (i, j)" "Q (i, j)" by auto
        then show "c \<in> {g (i, j) | i j. Q (i, j)}" by blast
      qed
    qed auto
    note this [of "\<lambda>p. cell_at m p p" "\<lambda>p. fst p \<in> set ?is \<and> snd p \<in> set ?js \<and> cells ! (snd p * ?w + fst p) = LETHAL_OBSTACLE"]
    ultimately show ?thesis using cs(2) by simp
  qed
  let ?st = "\<lparr>is_bins = [(0, cs)], is_seen = replicate (?w * ?h) False, is_cells = cells\<rparr>"
  have bin: "bin_of k [(0, cs)] = (if k = 0 then cs else [])" for k by (simp add: bin_of_Cons)
  have bins: "bins_ok m l ?obs (is_bins ?st)"
  proof -
    have "entry_ok m l ?obs 0 (cell_at m q q)" if "q \<in> ?obs" for q
      unfolding entry_ok_def using that by (intro exI [of _ q]) (simp add: cell_dist_0 obstacles_near_def)
    then show ?thesis by (auto simp: bins_ok_def bin obs)
  qed
  have arrays: "arrays_ok m l cells (\<lambda>_. None) ?st"
    using cells(2) grid_index_less by (auto simp: arrays_ok_def seen_at_def new_cost_def in_map_def)
  have "pending 0 0 [(0, cs)] 0 (cell_at m q q)" if "q \<in> ?obs" for q
  proof -
    have "cell_at m q q \<in> set cs" using that obs by blast
    then show ?thesis by (auto simp: pending_def bin in_set_conv_nth)
  qed
  then have front: "frontier_ok m l ?obs 0 0 (is_bins ?st) (\<lambda>_. None)" by (simp add: frontier_ok_def)
  have "sources_ok m l ?obs 0 (\<lambda>_. None)" by (simp add: sources_ok_def)
  from inflate_from_ok [OF ok kernel bins arrays this front] obtain st f where
    run: "inflate_from l ?w ?h 0 0 ?st = Some st" "arrays_ok m l cells f st" "spread_ok m l ?obs f" by blast
  let ?m' = "m\<lparr>cm_cells := Some (is_cells st)\<rparr>"
  let ?l' = "l\<lparr>il_seen := Some (is_seen st), il_seen_size := wrap_int (int (?w * ?h))\<rparr>"
  have lens: "length (is_cells st) = ?w * ?h" "length (is_seen st) = ?w * ?h" using run(2) by (simp_all add: arrays_ok_def)
  have size: "wrap_int (int (?w * ?h)) = int (?w * ?h)" using small by (intro wrap_int_small) (simp_all flip: of_nat_mult)
  have "inflation_update_costs raw min_i min_j max_i max_j m l = Some (?m', ?l')"
  proof -
    have n: "wrap32 (?w * ?h) = ?w * ?h" using small by (simp add: wrap32_def)
    show ?thesis
      unfolding inflation_update_costs_def Let_def n cells(1) bind.bind_lunit flags_def [symmetric] clear cs(1) run(1)
      using on by simp
  qed
  moreover have "map_ok ?m'" "seen_ok ?l'" using ok lens small size by (auto simp: map_ok_def seen_ok_def)
  moreover have "\<forall>p. in_map m (fst p) (snd p) \<longrightarrow> cost_at ?m' (fst p) (snd p) =
      (case f p of None \<Rightarrow> cost_at m (fst p) (snd p) | Some s \<Rightarrow> inflated l (cost_at m (fst p) (snd p)) (kernel_cost l p s))"
  proof (intro allI impI)
    fix p assume "in_map m (fst p) (snd p)"
    from arrays_okD(2) [OF run(2) this] show "cost_at ?m' (fst p) (snd p) = (case f p of None \<Rightarrow> cost_at m (fst p) (snd p)
        | Some s \<Rightarrow> inflated l (cost_at m (fst p) (snd p)) (kernel_cost l p s))"
      using cells(1) by (cases "f p") (simp_all add: cost_at_def new_cost_def Let_def)
  qed
  moreover have "?m' = m\<lparr>cm_cells := cm_cells ?m'\<rparr>" "?l' = l\<lparr>il_seen := il_seen ?l', il_seen_size := il_seen_size ?l'\<rparr>"
    by simp_all
  ultimately show ?thesis using run(3) by blast
qed

subsection \<open>The tables\<close>

lemma those_all:
  assumes "\<forall>x \<in> set xs. f x \<noteq> None"
  shows "\<exists>ys. those (map f xs) = Some ys \<and> length ys = length xs \<and> (\<forall>i < length xs. f (xs ! i) = Some (ys ! i))"
  using assms
proof (induction xs)
  case (Cons x xs)
  then obtain ys y where "those (map f xs) = Some ys" "length ys = length xs" "\<forall>i < length xs. f (xs ! i) = Some (ys ! i)"
    "f x = Some y" by auto
  then show ?case by (intro exI [of _ "y # ys"]) (auto simp: nth_Cons split: nat.splits)
qed simp

lemma square_table_ok:
  assumes "\<forall>i < n. \<forall>j < n. f i j \<noteq> None"
  shows "\<exists>t. square_table n f = Some t \<and> (\<forall>i < n. \<forall>j < n. table_at t i j = f i j)"
proof -
  have row: "\<exists>r. those (map (f i) [0..<n]) = Some r \<and> length r = n \<and> (\<forall>j < n. f i j = Some (r ! j))" if "i < n" for i
    using those_all [of "[0..<n]" "f i"] assms that by auto
  then have "\<forall>i \<in> set [0..<n]. those (map (f i) [0..<n]) \<noteq> None" by force
  from those_all [OF this] obtain t where t: "square_table n f = Some t" "length t = n"
    "\<And>i. i < n \<Longrightarrow> those (map (f i) [0..<n]) = Some (t ! i)" by (auto simp: square_table_def)
  have "table_at t i j = f i j" if "i < n" "j < n" for i j
    using row [OF that(1)] t(2) t(3) [OF that(1)] that by (auto simp: table_at_def)
  then show ?thesis using t(1) by blast
qed

lemma hypot_le: "hypot i j \<le> real i + real j"
proof -
  have "real (i * i + j * j) \<le> (real i + real j) ^ 2" by (simp add: power2_eq_square algebra_simps)
  then show ?thesis unfolding hypot_def by (intro real_le_lsqrt) simp_all
qed

lemma compute_cost_total:
  assumes "0 \<le> il_weight l"
  shows "compute_cost l d \<noteq> None"
proof -
  let ?x = "real d * il_resolution l - il_inscribed_radius l"
  have "real_to_u8 ((253 - 1) * exp (- 1 * il_weight l * ?x)) \<noteq> None" if "0 \<le> ?x"
  proof -
    define e where "e = exp (- 1 * il_weight l * ?x)"
    have "e \<le> 1" "0 \<le> e" using that assms by (simp_all add: e_def)
    then have "(253 - 1) * e < 2 ^ 8" "-1 < (253 - 1) * e" by simp_all
    then have "real_to_u8 ((253 - 1) * e) \<noteq> None" by (simp add: real_to_u8_def)
    then show ?thesis unfolding e_def .
  qed
  then show ?thesis by (auto simp: compute_cost_def Let_def)
qed

text \<open>Tables left over from an earlier computation fit their radius.\<close>

definition cached_ok :: "inflation \<Rightarrow> bool" where
  "cached_ok l \<longleftrightarrow> il_cached_radius l = 0 \<or> (\<forall>i j. i \<le> il_cached_radius l + 1 \<and> j \<le> il_cached_radius l + 1 \<longrightarrow>
     table_at (il_distances l) i j = Some (hypot i j))"

lemma compute_caches_ok:
  assumes weight: "0 \<le> il_weight l" and old: "cached_ok l" and r: "0 < il_cell_radius l" "il_cell_radius l < 2 ^ 30"
  shows "\<exists>l'. compute_caches l = Some l' \<and> kernel_ok l' \<and> cached_ok l'
    \<and> l' = l\<lparr>il_distances := il_distances l', il_cached_radius := il_cell_radius l, il_costs := il_costs l'\<rparr>"
proof -
  let ?n = "il_cell_radius l + 2"
  obtain ds where ds: "(if il_cell_radius l \<noteq> il_cached_radius l then square_table ?n (\<lambda>i j. Some (hypot i j))
      else Some (il_distances l)) = Some ds" "\<And>i j. i < ?n \<Longrightarrow> j < ?n \<Longrightarrow> table_at ds i j = Some (hypot i j)"
  proof (cases "il_cell_radius l = il_cached_radius l")
    case True
    then show ?thesis using old by (intro that [of "il_distances l"]) (use r(1) in \<open>auto simp: cached_ok_def\<close>)
  next
    case False
    then show ?thesis using square_table_ok [of ?n "\<lambda>i j. Some (hypot i j)"] that by auto
  qed
  let ?cost = "\<lambda>i j. do { d \<leftarrow> table_at ds i j; cost_of_distance l d }"
  have "?cost i j \<noteq> None" if "i < ?n" "j < ?n" for i j
  proof -
    have "real i + real j < 2 ^ 32" using that r(2) by simp
    then have "hypot i j < 2 ^ 32" using hypot_le [of i j] by linarith
    moreover have "-1 < hypot i j" using hypot_ge(1) [of i j] by simp
    ultimately show ?thesis
      using ds(2) [OF that] compute_cost_total [OF weight] by (simp add: cost_of_distance_def real_to_u32_def)
  qed
  then obtain cs where cs: "square_table ?n ?cost = Some cs" "\<forall>i < ?n. \<forall>j < ?n. table_at cs i j = ?cost i j"
    using square_table_ok [of ?n ?cost] by blast
  let ?l' = "l\<lparr>il_distances := ds, il_cached_radius := il_cell_radius l, il_costs := cs\<rparr>"
  have "compute_caches l = Some ?l'"
    unfolding compute_caches_def Let_def ds(1) bind.bind_lunit cs(1) using r(1) by simp
  moreover have "kernel_ok ?l'" using ds(2) cs(2) \<open>\<And>i j. i < ?n \<Longrightarrow> j < ?n \<Longrightarrow> ?cost i j \<noteq> None\<close>
    by (auto simp: kernel_ok_def less_Suc_eq_le)
  moreover have "cached_ok ?l'" using ds(2) by (auto simp: cached_ok_def less_Suc_eq_le)
  ultimately show ?thesis by (intro exI [of _ ?l']) simp
qed

lemma inflation_match_size_ok:
  assumes ok: "map_ok m" and weight: "0 \<le> il_weight l" and old: "cached_ok l"
    and r: "world_to_cell m (il_inflation_radius l) = Some r" "0 < r" "r < 2 ^ 30"
  shows "\<exists>l'. inflation_match_size raw m l = Some l' \<and> kernel_ok l' \<and> cached_ok l' \<and> seen_ok l'
    \<and> il_cell_radius l' = r \<and> il_enabled l' = il_enabled l \<and> il_inflate_unknown l' = il_inflate_unknown l"
proof -
  let ?l = "l\<lparr>il_resolution := cm_resolution m, il_cell_radius := r\<rparr>"
  obtain l1 where l1: "compute_caches ?l = Some l1" "kernel_ok l1" "cached_ok l1"
    "l1 = ?l\<lparr>il_distances := il_distances l1, il_cached_radius := il_cell_radius ?l, il_costs := il_costs l1\<rparr>"
    using compute_caches_ok [of ?l] weight old r by (auto simp: cached_ok_def)
  have f: "il_cell_radius l1 = r" "il_enabled l1 = il_enabled l" "il_inflate_unknown l1 = il_inflate_unknown l"
    by (subst l1(4), simp)+
  have small: "cm_size_x m * cm_size_y m < 2 ^ 31" using ok by (simp add: map_ok_def)
  then have size: "wrap32 (cm_size_x m * cm_size_y m) = cm_size_x m * cm_size_y m"
    "wrap_int (int (cm_size_x m * cm_size_y m)) = int (cm_size_x m * cm_size_y m)"
    by (simp add: wrap32_def, intro wrap_int_small) (simp_all flip: of_nat_mult)
  let ?l' = "l1\<lparr>il_seen_size := int (cm_size_x m * cm_size_y m), il_seen := Some (map raw [0..<cm_size_x m * cm_size_y m])\<rparr>"
  have "inflation_match_size raw m l = Some ?l'"
    unfolding inflation_match_size_def r(1) bind.bind_lunit l1(1) Let_def size ..
  moreover have "kernel_ok ?l'" "cached_ok ?l'" "seen_ok ?l'"
    using l1(2,3) small by (simp_all add: kernel_ok_def cached_ok_def seen_ok_def)
  ultimately show ?thesis using f by (intro exI [of _ ?l']) simp
qed

text \<open>C26. Once MatchSize has computed the tables, UpdateCosts never leaves its arrays and returns; the cells it inflates are those of a spreading front f: it starts at every lethal cell of the enlarged window, stays within the radius of the obstacle it comes from, reaches every neighbour that is farther from the obstacle but within the radius (from this obstacle or a nearer one), and each reached cell gets the maximum of its old cost and the cost of its distance (an unknown cell only if the cost is high enough). No known cost is lowered.\<close>

theorem inflation_spreads_obstacles:
  assumes ok: "map_ok m" and weight: "0 \<le> il_weight l" and old: "cached_ok l" and on: "il_enabled l"
    and r: "world_to_cell m (il_inflation_radius l) = Some r" "0 < r" "r < 2 ^ 30"
    and window: "\<bar>min_i\<bar> < 2 ^ 30" "\<bar>min_j\<bar> < 2 ^ 30" "\<bar>max_i\<bar> < 2 ^ 30" "\<bar>max_j\<bar> < 2 ^ 30"
    and sizes: "cm_size_x m < 2 ^ 31" "cm_size_y m < 2 ^ 31"
  shows "\<exists>l1 m' l2 f. inflation_match_size raw m l = Some l1
    \<and> inflation_update_costs raw' min_i min_j max_i max_j m l1 = Some (m', l2) \<and> map_ok m'
    \<and> spread_ok m l1 (obstacles_near m r min_i min_j max_i max_j) f
    \<and> (\<forall>p. in_map m (fst p) (snd p) \<longrightarrow> cost_at m' (fst p) (snd p) =
        (case f p of None \<Rightarrow> cost_at m (fst p) (snd p)
         | Some s \<Rightarrow> inflated l1 (cost_at m (fst p) (snd p)) (kernel_cost l1 p s)))
    \<and> (\<forall>p. in_map m (fst p) (snd p) \<and> cost_at m (fst p) (snd p) \<noteq> NO_INFORMATION \<longrightarrow>
        cost_at m (fst p) (snd p) \<le> cost_at m' (fst p) (snd p))"
proof -
  obtain l1 where l1: "inflation_match_size raw m l = Some l1" "kernel_ok l1" "seen_ok l1" "il_cell_radius l1 = r" "il_enabled l1"
    using inflation_match_size_ok [OF ok weight old r] on by blast
  from inflation_update_costs_ok [OF ok l1(2,3,5) _ window _ sizes, of raw'] obtain m' l2 f where
    u: "inflation_update_costs raw' min_i min_j max_i max_j m l1 = Some (m', l2)" "map_ok m'"
    "spread_ok m l1 (obstacles_near m r min_i min_j max_i max_j) f"
    "\<forall>p. in_map m (fst p) (snd p) \<longrightarrow> cost_at m' (fst p) (snd p) =
        (case f p of None \<Rightarrow> cost_at m (fst p) (snd p)
         | Some s \<Rightarrow> inflated l1 (cost_at m (fst p) (snd p)) (kernel_cost l1 p s))"
    using r(2,3) unfolding l1(4) by blast
  have "cost_at m (fst p) (snd p) \<le> cost_at m' (fst p) (snd p)"
    if "in_map m (fst p) (snd p)" "cost_at m (fst p) (snd p) \<noteq> NO_INFORMATION" for p
    using u(4) that inflated_not_lower by (cases "f p") auto
  then show ?thesis using l1(1) u by blast
qed

definition fresh_inflation :: inflation where
  "fresh_inflation = \<lparr>il_inflation_radius = 1, il_inscribed_radius = 10, il_weight = 1, il_inflate_unknown = False,
     il_cell_radius = 0, il_cached_radius = 0, il_resolution = 1, il_seen = None, il_seen_size = 0, il_costs = [],
     il_distances = [], il_last = \<lparr>min_x = 0, min_y = 0, max_x = 0, max_y = 0\<rparr>, il_need_reinflation = True, il_enabled = True, il_current = True\<rparr>"

definition wall_map :: costmap where
  "wall_map = \<lparr>cm_size_x = 3, cm_size_y = 1, cm_resolution = 1, cm_origin_x = 0, cm_origin_y = 0,
     cm_cells = Some [254, 0, 0], cm_default = 0\<rparr>"

theorem inflation_spreads_obstacles_witness:
  "\<exists>l1 m' l2. inflation_match_size (\<lambda>_. True) wall_map fresh_inflation = Some l1
    \<and> inflation_update_costs (\<lambda>_. True) 0 0 3 1 wall_map l1 = Some (m', l2) \<and> 254 \<le> cost_at m' 0 0"
proof -
  have hyps: "map_ok wall_map" "0 \<le> il_weight fresh_inflation" "cached_ok fresh_inflation" "il_enabled fresh_inflation"
    "world_to_cell wall_map (il_inflation_radius fresh_inflation) = Some 1"
    "cm_size_x wall_map < 2 ^ 31" "cm_size_y wall_map < 2 ^ 31"
    by (simp_all add: map_ok_def wall_map_def fresh_inflation_def cached_ok_def world_to_cell_def quotient_def)
  have corner: "in_map wall_map (fst (0, 0)) (snd (0, 0))" "cost_at wall_map 0 0 = 254"
    by (simp_all add: in_map_def cost_at_def wall_map_def)
  have small: "0 < (1::nat)" "(1::nat) < 2 ^ 30" "\<bar>0 :: int\<bar> < 2 ^ 30" "\<bar>3 :: int\<bar> < 2 ^ 30" "\<bar>1 :: int\<bar> < 2 ^ 30"
    by simp_all
  note spread = inflation_spreads_obstacles [OF hyps(1-5) small(1,2) small(3,3,4,5) hyps(6,7),
    of "\<lambda>_. True" "\<lambda>_. True"]
  obtain l1 m' l2 where u: "inflation_match_size (\<lambda>_. True) wall_map fresh_inflation = Some l1"
    "inflation_update_costs (\<lambda>_. True) 0 0 3 1 wall_map l1 = Some (m', l2)"
    "\<forall>p. in_map wall_map (fst p) (snd p) \<and> cost_at wall_map (fst p) (snd p) \<noteq> NO_INFORMATION \<longrightarrow>
      cost_at wall_map (fst p) (snd p) \<le> cost_at m' (fst p) (snd p)"
    using spread by (elim exE conjE) (rule that)
  have "cost_at wall_map 0 0 \<le> cost_at m' 0 0"
    using spec [OF u(3), of "(0, 0)"] corner by (simp add: NO_INFORMATION_def)
  then show ?thesis using u(1,2) corner(2) by auto
qed

end
