(* ===== verification/ObstacleLayer.thy ===== *)
theory ObstacleLayer
  imports CostLayer Footprint
begin

text \<open>
  The obstacle layer: the observation buffer of \<open>observation_buffer.cpp\<close>, which keeps the recent
  point clouds of a sensor, and \<open>obstacle_layer.cpp\<close>, which clears the cells along the rays of the
  clearing observations and marks the cells of the points of the marking ones.

  Times are nanoseconds. The transforms of \<open>tf2\<close> and the laser projection are parameters. The
  three vectors of shared pointers to buffers are one list of buffers and two lists of its indices.
\<close>

subsection \<open>Observations\<close>

record cloud =
  cloud_frame :: string
  cloud_stamp :: nat
  cloud_points :: "point list"

record observation =
  ob_origin :: point
  ob_cloud :: cloud
  ob_obstacle_range :: real
  ob_raytrace_range :: real

record observation_buffer =
  bf_keep_time :: int
  bf_update_rate :: int
  bf_last_updated :: int
  bf_global_frame :: string
  bf_sensor_frame :: string
  bf_observations :: "observation list"
  bf_obstacle_range :: real
  bf_raytrace_range :: real

text \<open>\<open>pclStampToBuiltin\<close> and the construction of a time, which throws for a negative one.\<close>

definition pcl_stamp_to_builtin :: "nat \<Rightarrow> int \<times> nat" where
  "pcl_stamp_to_builtin stamp_usec =
     (wrap_int (int (stamp_usec div 1000000)), wrap32 (stamp_usec mod 1000000 * 1000))"

definition stamp_time :: "nat \<Rightarrow> int option" where
  "stamp_time stamp =
     (let (sec, nanosec) = pcl_stamp_to_builtin stamp; t = sec * 10 ^ 9 + int nanosec
      in if t < 0 then None else Some t)"

definition seconds_to_ns :: "real \<Rightarrow> int" where
  "seconds_to_ns s = trunc_real (s * 10 ^ 9)"

definition observation_buffer_new :: "real \<Rightarrow> real \<Rightarrow> real \<Rightarrow> real \<Rightarrow> string \<Rightarrow> string \<Rightarrow> int \<Rightarrow> observation_buffer" where
  "observation_buffer_new keep_time update_rate obstacle_range raytrace_range global_frame sensor_frame now =
     \<lparr>bf_keep_time = seconds_to_ns keep_time, bf_update_rate = seconds_to_ns update_rate, bf_last_updated = now,
      bf_global_frame = global_frame, bf_sensor_frame = sensor_frame, bf_observations = [],
      bf_obstacle_range = obstacle_range, bf_raytrace_range = raytrace_range\<rparr>"

text \<open>\<open>lookup\<close> finds the transform between two frames, \<open>apply_point\<close> and \<open>apply_cloud\<close> apply it.\<close>

definition set_global_frame ::
  "(string \<Rightarrow> string \<Rightarrow> 'tf option) \<Rightarrow> ('tf \<Rightarrow> point \<Rightarrow> point) \<Rightarrow> ('tf \<Rightarrow> point list \<Rightarrow> point list) \<Rightarrow>
   string \<Rightarrow> observation_buffer \<Rightarrow> bool \<times> observation_buffer" where
  "set_global_frame lookup apply_point apply_cloud new_global_frame b =
     (case lookup new_global_frame (bf_global_frame b) of
        None \<Rightarrow> (False, b)
      | Some tf \<Rightarrow> (True, b\<lparr>bf_observations :=
          map (\<lambda>obs. obs\<lparr>ob_origin := apply_point tf (ob_origin obs),
                         ob_cloud := \<lparr>cloud_frame = new_global_frame, cloud_stamp = cloud_stamp (ob_cloud obs),
                           cloud_points = apply_cloud tf (cloud_points (ob_cloud obs))\<rparr>\<rparr>) (bf_observations b),
          bf_global_frame := new_global_frame\<rparr>))"

primrec keep_fresh :: "int \<Rightarrow> int \<Rightarrow> observation list \<Rightarrow> observation list option" where
  "keep_fresh last_updated keep_time [] = Some []"
| "keep_fresh last_updated keep_time (obs # rest) = do {
     t \<leftarrow> stamp_time (cloud_stamp (ob_cloud obs));
     if last_updated - t > keep_time then Some []
     else do { rest' \<leftarrow> keep_fresh last_updated keep_time rest; Some (obs # rest') } }"

definition purge_stale_observations :: "observation_buffer \<Rightarrow> observation_buffer option" where
  "purge_stale_observations b =
     (if bf_observations b = [] then Some b
      else if bf_keep_time b = 0 then Some (b\<lparr>bf_observations := take 1 (bf_observations b)\<rparr>)
      else do {
        obs \<leftarrow> keep_fresh (bf_last_updated b) (bf_keep_time b) (bf_observations b);
        Some (b\<lparr>bf_observations := obs\<rparr>) })"

text \<open>\<open>BufferCloud\<close>: \<open>tf_origin\<close> gives the place of the origin of a frame at a time in another frame,
  \<open>tf_cloud\<close> a cloud seen from another frame; both can fail, and then nothing is stored.\<close>

definition buffer_cloud ::
  "(string \<Rightarrow> int \<Rightarrow> string \<Rightarrow> point option) \<Rightarrow> (string \<Rightarrow> string \<Rightarrow> int \<Rightarrow> cloud \<Rightarrow> cloud option) \<Rightarrow>
   int \<Rightarrow> cloud \<Rightarrow> observation_buffer \<Rightarrow> observation_buffer option" where
  "buffer_cloud tf_origin tf_cloud now cloud_in b = do {
     let origin_frame = (if bf_sensor_frame b = [] then cloud_frame cloud_in else bf_sensor_frame b);
     cloud_time \<leftarrow> stamp_time (cloud_stamp cloud_in);
     case tf_origin origin_frame cloud_time (bf_global_frame b) of None \<Rightarrow> Some b
     | Some origin \<Rightarrow>
       (case tf_cloud (bf_global_frame b) origin_frame cloud_time (cloud_in\<lparr>cloud_frame := origin_frame\<rparr>) of None \<Rightarrow> Some b
        | Some global_cloud \<Rightarrow>
            let front = \<lparr>ob_origin = origin, ob_cloud = global_cloud,
                  ob_obstacle_range = bf_obstacle_range b, ob_raytrace_range = bf_raytrace_range b\<rparr>
            in purge_stale_observations (b\<lparr>bf_observations := front # bf_observations b, bf_last_updated := now\<rparr>)) }"

definition get_observations :: "observation_buffer \<Rightarrow> (observation list \<times> observation_buffer) option" where
  "get_observations b = do { b' \<leftarrow> purge_stale_observations b; Some (bf_observations b', b') }"

definition buffer_is_current :: "int \<Rightarrow> observation_buffer \<Rightarrow> bool" where
  "buffer_is_current now b =
     (if bf_update_rate b = 0 then True
      else let age = real_of_int (now - bf_last_updated b) / 10 ^ 9
           in age \<le> real_of_int (bf_update_rate b) / 10 ^ 9)"

definition reset_last_updated :: "int \<Rightarrow> observation_buffer \<Rightarrow> observation_buffer" where
  "reset_last_updated now b = b\<lparr>bf_last_updated := now\<rparr>"

subsection \<open>The layer\<close>

record obstacle_layer =
  ol_layer :: cost_layer
  ol_rolling :: bool
  ol_footprint_clearing :: bool
  ol_combination :: int
  ol_max_height :: real
  ol_transformed :: "point list"
  ol_buffers :: "observation_buffer list"
  ol_marking :: "nat list"
  ol_clearing :: "nat list"
  ol_static_marking :: "observation list"
  ol_static_clearing :: "observation list"
  ol_reset_time :: int

record obstacle_config =
  oc_keep_time :: real
  oc_update_rate :: real
  oc_max_height :: real
  oc_obstacle_range :: real
  oc_raytrace_range :: real
  oc_footprint_clearing :: bool
  oc_clearing :: bool
  oc_marking :: bool
  oc_sensor_frame :: string

definition obstacle_initialize ::
  "(nat \<Rightarrow> u8) \<Rightarrow> int \<Rightarrow> int \<Rightarrow> costmap \<Rightarrow> bool \<Rightarrow> string \<Rightarrow> obstacle_config \<Rightarrow> obstacle_layer \<Rightarrow> obstacle_layer option" where
  "obstacle_initialize raw system_now now master rolling global_frame cfg l = do {
     let default_value = (if cm_default master = NO_INFORMATION then NO_INFORMATION else FREE_SPACE);
     layer \<leftarrow> match_size raw master ((ol_layer l)\<lparr>cl_map := (cl_map (ol_layer l))\<lparr>cm_default := default_value\<rparr>, cl_current := True\<rparr>);
     let buffer = observation_buffer_new (oc_keep_time cfg) (oc_update_rate cfg) (oc_obstacle_range cfg)
           (oc_raytrace_range cfg) global_frame (oc_sensor_frame cfg) now;
     let n = length (ol_buffers l);
     Some (l\<lparr>ol_layer := layer\<lparr>cl_enabled := True\<rparr>, ol_rolling := rolling,
       ol_footprint_clearing := oc_footprint_clearing cfg, ol_max_height := oc_max_height cfg,
       ol_buffers := ol_buffers l @ [buffer],
       ol_marking := (if oc_marking cfg then ol_marking l @ [n] else ol_marking l),
       ol_clearing := (if oc_clearing cfg then ol_clearing l @ [n] else ol_clearing l),
       ol_reset_time := system_now\<rparr>) }"

text \<open>A range of a laser scan; \<open>project\<close> is the projection of a scan to a cloud and its conversion.\<close>

datatype scan_range = Finite real | Plus_infinity | Minus_infinity | Not_a_number

record laser_scan =
  ls_ranges :: "scan_range list"
  ls_range_max :: real

definition valid_range :: "real \<Rightarrow> scan_range \<Rightarrow> scan_range" where
  "valid_range range_max r = (if r = Plus_infinity then Finite (range_max - 1 / 10000) else r)"

definition store_cloud where
  "store_cloud tf_origin tf_cloud now cl i l = do {
     b \<leftarrow> at_opt (ol_buffers l) i;
     b' \<leftarrow> (case cl of None \<Rightarrow> Some b | Some c \<Rightarrow> buffer_cloud tf_origin tf_cloud now c b);
     Some (l\<lparr>ol_buffers := (ol_buffers l)[i := b']\<rparr>) }"

definition laser_scan_callback where
  "laser_scan_callback project tf_origin tf_cloud now message i l =
     store_cloud tf_origin tf_cloud now (project message) i l"

definition laser_scan_valid_info_callback where
  "laser_scan_valid_info_callback project tf_origin tf_cloud now raw_message i l =
     (let message = raw_message\<lparr>ls_ranges := map (valid_range (ls_range_max raw_message)) (ls_ranges raw_message)\<rparr>
      in store_cloud tf_origin tf_cloud now (project message) i l)"

text \<open>\<open>GetMarkingObservations\<close> and \<open>GetClearingObservations\<close>: the buffers are asked one after the other.\<close>

primrec observations_of :: "int \<Rightarrow> nat list \<Rightarrow> bool \<Rightarrow> observation_buffer list \<Rightarrow> (observation list \<times> bool \<times> observation_buffer list) option" where
  "observations_of now [] current bs = Some ([], current, bs)"
| "observations_of now (i # is) current bs = do {
     b \<leftarrow> at_opt bs i;
     (obs, b') \<leftarrow> get_observations b;
     (rest, current', bs') \<leftarrow> observations_of now is (buffer_is_current now b' \<and> current) (bs[i := b']);
     Some (obs @ rest, current', bs') }"

definition get_marking_observations :: "int \<Rightarrow> obstacle_layer \<Rightarrow> (observation list \<times> bool \<times> obstacle_layer) option" where
  "get_marking_observations now l = do {
     (obs, current, bs) \<leftarrow> observations_of now (ol_marking l) True (ol_buffers l);
     Some (obs @ ol_static_marking l, current, l\<lparr>ol_buffers := bs\<rparr>) }"

definition get_clearing_observations :: "int \<Rightarrow> obstacle_layer \<Rightarrow> (observation list \<times> bool \<times> obstacle_layer) option" where
  "get_clearing_observations now l = do {
     (obs, current, bs) \<leftarrow> observations_of now (ol_clearing l) True (ol_buffers l);
     Some (obs @ ol_static_clearing l, current, l\<lparr>ol_buffers := bs\<rparr>) }"

subsection \<open>Clearing along the rays\<close>

definition update_raytrace_bounds :: "real \<Rightarrow> real \<Rightarrow> real \<Rightarrow> real \<Rightarrow> real \<Rightarrow> bounds \<Rightarrow> bounds" where
  "update_raytrace_bounds ox oy wx wy max_range b =
     (let dx = wx - ox; dy = wy - oy;
          full_distance = distance_between 0 0 dx dy;
          scale = (if full_distance = 0 then 1 else min 1 (max_range / full_distance))
      in touch (ox + dx * scale) (oy + dy * scale) b)"

text \<open>The end of a ray is moved into the map: first past its lower, then past its upper edges.\<close>

definition clip_ray :: "costmap \<Rightarrow> real \<Rightarrow> real \<Rightarrow> real \<Rightarrow> real \<Rightarrow> real \<times> real" where
  "clip_ray m ox oy px py =
     (let origin_x = cm_origin_x m; origin_y = cm_origin_y m;
          map_end_x = origin_x + real (cm_size_x m) * cm_resolution m;
          map_end_y = origin_y + real (cm_size_y m) * cm_resolution m;
          a = px - ox; b = py - oy;
          w0 = (px, py);
          w1 = (if fst w0 < origin_x then let t = (origin_x - ox) / a in (origin_x, oy + b * t) else w0);
          w2 = (if snd w1 < origin_y then let t = (origin_y - oy) / b in (ox + a * t, origin_y) else w1);
          w3 = (if fst w2 > map_end_x then let t = (map_end_x - ox) / a in (map_end_x - 1 / 1000, oy + b * t) else w2)
      in if snd w3 > map_end_y then let t = (map_end_y - oy) / b in (ox + a * t, map_end_y - 1 / 1000) else w3)"

primrec mark_offsets :: "u8 \<Rightarrow> nat list \<Rightarrow> u8 list \<Rightarrow> u8 list option" where
  "mark_offsets v [] cells = Some cells"
| "mark_offsets v (i # is) cells = do { cells' \<leftarrow> set_opt cells i v; mark_offsets v is cells' }"

definition clear_ray :: "observation \<Rightarrow> location \<Rightarrow> point \<Rightarrow> costmap \<times> bounds \<Rightarrow> (costmap \<times> bounds) option" where
  "clear_ray obs start p mb = do {
     let (m, b) = mb;
     let ox = pt_x (ob_origin obs);
     let oy = pt_y (ob_origin obs);
     let (wx, wy) = clip_ray m ox oy (pt_x p) (pt_y p);
     r \<leftarrow> world_to_map m wx wy;
     case r of None \<Rightarrow> Some (m, b)
     | Some (x1, y1) \<Rightarrow> do {
         cell_raytrace_range \<leftarrow> world_to_cell m (ob_raytrace_range obs);
         cells \<leftarrow> mark_offsets FREE_SPACE (raytrace_line (cm_size_x m) (fst start) (snd start) x1 y1 cell_raytrace_range) (cells_of m);
         Some (m\<lparr>cm_cells := Some cells\<rparr>, update_raytrace_bounds ox oy wx wy (ob_raytrace_range obs) b) } }"

primrec clear_rays :: "observation \<Rightarrow> location \<Rightarrow> point list \<Rightarrow> costmap \<times> bounds \<Rightarrow> (costmap \<times> bounds) option" where
  "clear_rays obs start [] mb = Some mb"
| "clear_rays obs start (p # ps) mb = do { mb' \<leftarrow> clear_ray obs start p mb; clear_rays obs start ps mb' }"

definition raytrace_freespace :: "observation \<Rightarrow> costmap \<times> bounds \<Rightarrow> (costmap \<times> bounds) option" where
  "raytrace_freespace obs mb = do {
     let (m, b) = mb;
     let ox = pt_x (ob_origin obs);
     let oy = pt_y (ob_origin obs);
     r \<leftarrow> world_to_map m ox oy;
     case r of None \<Rightarrow> Some (m, b)
     | Some start \<Rightarrow> clear_rays obs start (cloud_points (ob_cloud obs)) (m, touch ox oy b) }"

primrec raytrace_observations :: "observation list \<Rightarrow> costmap \<times> bounds \<Rightarrow> (costmap \<times> bounds) option" where
  "raytrace_observations [] mb = Some mb"
| "raytrace_observations (obs # rest) mb = do { mb' \<leftarrow> raytrace_freespace obs mb; raytrace_observations rest mb' }"

subsection \<open>Marking obstacles\<close>

definition point_accepted :: "real \<Rightarrow> observation \<Rightarrow> point \<Rightarrow> bool" where
  "point_accepted max_height obs p =
     (let px = pt_x p; py = pt_y p; pz = pt_z p; org = ob_origin obs;
          sq_dist = (px - pt_x org) * (px - pt_x org) + (py - pt_y org) * (py - pt_y org) + (pz - pt_z org) * (pz - pt_z org)
      in \<not> pz > max_height \<and> \<not> sq_dist \<ge> ob_obstacle_range obs * ob_obstacle_range obs)"

definition mark_point :: "real \<Rightarrow> observation \<Rightarrow> point \<Rightarrow> costmap \<times> bounds \<Rightarrow> (costmap \<times> bounds) option" where
  "mark_point max_height obs p mb = do {
     let (m, b) = mb;
     if \<not> point_accepted max_height obs p then Some (m, b)
     else do {
       r \<leftarrow> world_to_map m (pt_x p) (pt_y p);
       case r of None \<Rightarrow> Some (m, b)
       | Some (mx, my) \<Rightarrow> do {
           m' \<leftarrow> set_cost mx my LETHAL_OBSTACLE m;
           Some (m', touch (pt_x p) (pt_y p) b) } } }"

primrec mark_points :: "real \<Rightarrow> observation \<Rightarrow> point list \<Rightarrow> costmap \<times> bounds \<Rightarrow> (costmap \<times> bounds) option" where
  "mark_points max_height obs [] mb = Some mb"
| "mark_points max_height obs (p # ps) mb = do { mb' \<leftarrow> mark_point max_height obs p mb; mark_points max_height obs ps mb' }"

primrec mark_observations :: "real \<Rightarrow> observation list \<Rightarrow> costmap \<times> bounds \<Rightarrow> (costmap \<times> bounds) option" where
  "mark_observations max_height [] mb = Some mb"
| "mark_observations max_height (obs # rest) mb = do {
     mb' \<leftarrow> mark_points max_height obs (cloud_points (ob_cloud obs)) mb;
     mark_observations max_height rest mb' }"

subsection \<open>The operations of the layer\<close>

primrec touch_all :: "point list \<Rightarrow> bounds \<Rightarrow> bounds" where
  "touch_all [] b = b"
| "touch_all (p # ps) b = touch_all ps (touch (pt_x p) (pt_y p) b)"

definition update_footprint :: "point list \<Rightarrow> real \<Rightarrow> real \<Rightarrow> real \<Rightarrow> bounds \<Rightarrow> obstacle_layer \<Rightarrow> bounds \<times> obstacle_layer" where
  "update_footprint footprint robot_x robot_y robot_yaw b l =
     (if \<not> ol_footprint_clearing l then (b, l)
      else let t = transform_footprint robot_x robot_y robot_yaw footprint
           in (touch_all t b, l\<lparr>ol_transformed := t\<rparr>))"

text \<open>A rolling map follows the robot, a fixed one is cleared every few seconds of the system clock.\<close>

definition prepare_map :: "(nat \<Rightarrow> u8) \<Rightarrow> int \<Rightarrow> real \<Rightarrow> real \<Rightarrow> obstacle_layer \<Rightarrow> obstacle_layer option" where
  "prepare_map raw system_now robot_x robot_y l = (let m = cl_map (ol_layer l) in
     if ol_rolling l then do {
       m' \<leftarrow> update_origin raw (robot_x - size_x_world m / 2) (robot_y - size_y_world m / 2) m;
       Some (l\<lparr>ol_layer := (ol_layer l)\<lparr>cl_map := m'\<rparr>\<rparr>) }
     else if trunc_real (real_of_int (system_now - ol_reset_time l) / 10 ^ 9) > 2 then do {
       m' \<leftarrow> reset_maps m;
       Some (l\<lparr>ol_layer := (ol_layer l)\<lparr>cl_map := m'\<rparr>, ol_reset_time := system_now\<rparr>) }
     else Some l)"

text \<open>The clearing observations are only asked for when the marking buffers are current.\<close>

definition obstacle_update_bounds ::
  "(nat \<Rightarrow> u8) \<Rightarrow> int \<Rightarrow> int \<Rightarrow> point list \<Rightarrow> real \<Rightarrow> real \<Rightarrow> real \<Rightarrow> bounds \<Rightarrow> obstacle_layer \<Rightarrow> (bounds \<times> obstacle_layer) option" where
  "obstacle_update_bounds raw system_now now footprint robot_x robot_y robot_yaw b l = do {
     l1 \<leftarrow> prepare_map raw system_now robot_x robot_y l;
     if \<not> cl_enabled (ol_layer l1) then Some (b, l1)
     else do {
       let (b1, layer) = use_extra_bounds b (ol_layer l1);
       (observations, marking_current, l2) \<leftarrow> get_marking_observations now (l1\<lparr>ol_layer := layer\<rparr>);
       (clearing, current, l3) \<leftarrow> if marking_current then get_clearing_observations now l2 else Some ([], False, l2);
       (m1, b2) \<leftarrow> raytrace_observations clearing (cl_map layer, b1);
       (m2, b3) \<leftarrow> mark_observations (ol_max_height l3) observations (m1, b2);
       Some (update_footprint footprint robot_x robot_y robot_yaw b3
         (l3\<lparr>ol_layer := layer\<lparr>cl_map := m2, cl_current := current\<rparr>\<rparr>)) } }"

definition obstacle_update_costs :: "int \<Rightarrow> int \<Rightarrow> int \<Rightarrow> int \<Rightarrow> costmap \<Rightarrow> obstacle_layer \<Rightarrow> (costmap \<times> obstacle_layer) option" where
  "obstacle_update_costs min_i min_j max_i max_j master l =
     (if \<not> cl_enabled (ol_layer l) then Some (master, l)
      else do {
        layer \<leftarrow> if ol_footprint_clearing l then do {
            (_, m) \<leftarrow> set_convex_region_cost (map (\<lambda>p. (pt_x p, pt_y p)) (ol_transformed l)) FREE_SPACE (cl_map (ol_layer l));
            Some ((ol_layer l)\<lparr>cl_map := m\<rparr>) }
          else Some (ol_layer l);
        let method = 1;
        let l' = l\<lparr>ol_layer := layer, ol_combination := method\<rparr>;
        master' \<leftarrow> if method = 0 then update_overwrite_by_valid layer min_i min_j max_i max_j master
          else if method = 1 then update_overwrite_by_max layer min_i min_j max_i max_j master
          else Some master;
        Some (master', l') })"

definition obstacle_activate :: "int \<Rightarrow> obstacle_layer \<Rightarrow> obstacle_layer" where
  "obstacle_activate now l = l\<lparr>ol_buffers := map (reset_last_updated now) (ol_buffers l)\<rparr>"

definition obstacle_reset :: "int \<Rightarrow> obstacle_layer \<Rightarrow> obstacle_layer option" where
  "obstacle_reset now l = do {
     m \<leftarrow> reset_maps (cl_map (ol_layer l));
     Some (obstacle_activate now (l\<lparr>ol_layer := (ol_layer l)\<lparr>cl_map := m, cl_current := True\<rparr>\<rparr>)) }"

subsection \<open>Rays stay on the map\<close>

lemma world_to_map_cells [simp]: "world_to_map (m\<lparr>cm_cells := c\<rparr>) = world_to_map m"
  by (intro ext) (simp add: world_to_map_def to_cell_def)

lemma world_to_cell_cells [simp]: "world_to_cell (m\<lparr>cm_cells := c\<rparr>) = world_to_cell m"
  by (intro ext) (simp add: world_to_cell_def)

lemma clip_ray_cells [simp]: "clip_ray (m\<lparr>cm_cells := c\<rparr>) = clip_ray m"
  by (intro ext) (simp add: clip_ray_def Let_def)

lemma in_map_cells [simp]: "in_map (m\<lparr>cm_cells := c\<rparr>) = in_map m"
  by (intro ext) (simp add: in_map_def)

lemma bresenham_take: "n \<le> N \<Longrightarrow> bresenham da db oa ob n err off = take (Suc n) (bresenham da db oa ob N err off)"
proof (induction n arbitrary: N err off)
  case 0
  then show ?case by (cases N) (simp_all add: Let_def)
next
  case (Suc n)
  then obtain N' where N: "N = Suc N'" "n \<le> N'" by (cases N) auto
  show ?case
    using Suc.IH [OF N(2)] by (simp add: N(1) Let_def)
qed

lemma raytrace_line_prefix:
  assumes "x0 < 2 ^ 31" "y0 < 2 ^ 31" "x1 < 2 ^ 31" "y1 < 2 ^ 31"
  shows "\<exists>n. raytrace_line w x0 y0 x1 y1 len = take n (raytrace_line w x0 y0 x1 y1 UINT_MAX)"
proof -
  define dx dy where "dx = int x1 - int x0" and "dy = int y1 - int y0"
  have d: "signed_difference x1 x0 = dx" "signed_difference y1 y0 = dy"
    using assms by (simp_all add: signed_difference_small dx_def dy_def)
  have scale: "(if sqrt (real_of_int (dx * dx + dy * dy)) = 0 then 1
      else min 1 (real UINT_MAX / sqrt (real_of_int (dx * dx + dy * dy)))) = 1"
    by (rule raytrace_scale [OF refl]) (use assms in \<open>auto simp: dx_def dy_def\<close>)
  have all: "min (nat \<lfloor>1 * real k\<rfloor>) k = k" for k by simp
  show ?thesis
    unfolding raytrace_line_def d Let_def scale all
    by (cases "nat \<bar>dx\<bar> \<ge> nat \<bar>dy\<bar>"; simp only: if_True if_False; rule exI; rule bresenham_take; rule min.cobounded2)
qed

lemma raytrace_line_on_map:
  assumes ok: "map_ok m" and a: "in_map m (fst a) (snd a)" and b: "in_map m (fst b) (snd b)"
    and i: "i \<in> set (raytrace_line (cm_size_x m) (fst a) (snd a) (fst b) (snd b) len)"
  obtains k where "k \<le> line_length a b" "i = get_index m (fst (line_point a b k)) (snd (line_point a b k))"
proof -
  have "fst a < 2 ^ 31" "snd a < 2 ^ 31" "fst b < 2 ^ 31" "snd b < 2 ^ 31"
    using a b in_map_small [OF ok a] by (auto simp: in_map_def)
  then obtain n where "raytrace_line (cm_size_x m) (fst a) (snd a) (fst b) (snd b) len =
      take n (raytrace_line (cm_size_x m) (fst a) (snd a) (fst b) (snd b) UINT_MAX)"
    using raytrace_line_prefix by blast
  then have "i \<in> set (raytrace_line (cm_size_x m) (fst a) (snd a) (fst b) (snd b) UINT_MAX)"
    using i set_take_subset by fastforce
  then show ?thesis
    using that unfolding raytrace_line_points [OF ok a b] by (auto simp: less_Suc_eq_le simp del: upt_Suc)
qed

text \<open>The clipped end of a ray from a point of the map is not past the upper edges.\<close>

lemma clip_ray_end:
  assumes o: "cm_origin_x m \<le> ox" "ox < cm_origin_x m + real (cm_size_x m) * cm_resolution m"
      "cm_origin_y m \<le> oy" "oy < cm_origin_y m + real (cm_size_y m) * cm_resolution m"
    and c: "clip_ray m ox oy px py = (wx, wy)"
  shows "wx \<le> cm_origin_x m + real (cm_size_x m) * cm_resolution m"
    "wy \<le> cm_origin_y m + real (cm_size_y m) * cm_resolution m"
proof -
  define ex ey where "ex = cm_origin_x m + real (cm_size_x m) * cm_resolution m"
    and "ey = cm_origin_y m + real (cm_size_y m) * cm_resolution m"
  define a b where "a = px - ox" and "b = py - oy"
  define w1 where "w1 = (if px < cm_origin_x m then (cm_origin_x m, oy + b * ((cm_origin_x m - ox) / a)) else (px, py))"
  define w2 where "w2 = (if snd w1 < cm_origin_y m then (ox + a * ((cm_origin_y m - oy) / b), cm_origin_y m) else w1)"
  define w3 where "w3 = (if fst w2 > ex then (ex - 1 / 1000, oy + b * ((ex - ox) / a)) else w2)"
  define w4 where "w4 = (if snd w3 > ey then (ox + a * ((ey - oy) / b), ey - 1 / 1000) else w3)"
  have w: "(wx, wy) = w4"
    unfolding c [symmetric] clip_ray_def Let_def w4_def w3_def w2_def w1_def a_def b_def ex_def ey_def by simp
  have s1: "\<exists>t \<ge> 0. w1 = (ox + a * t, oy + b * t)"
  proof (cases "px < cm_origin_x m")
    case True
    then show ?thesis using o
      by (intro exI [of _ "(cm_origin_x m - ox) / a"]) (auto simp: w1_def a_def divide_nonpos_neg)
  next
    case False
    then show ?thesis by (intro exI [of _ 1]) (simp add: w1_def a_def b_def)
  qed
  have s2: "\<exists>t \<ge> 0. w2 = (ox + a * t, oy + b * t)"
  proof (cases "snd w1 < cm_origin_y m")
    case True
    then obtain t where "0 \<le> t" "oy + b * t < cm_origin_y m" using s1 by auto
    then have "0 \<le> t" "b * t < 0" using o(3) by linarith+
    then have "b < 0" by (simp add: mult_less_0_iff)
    then show ?thesis using True o
      by (intro exI [of _ "(cm_origin_y m - oy) / b"]) (auto simp: w2_def divide_nonpos_neg)
  qed (use s1 in \<open>simp add: w2_def\<close>)
  have x3: "fst w3 \<le> ex" by (simp add: w3_def)
  have y3: "\<exists>t \<ge> 0. snd w3 = oy + b * t \<and> ox + a * t \<le> ex"
  proof (cases "fst w2 > ex")
    case True
    then obtain t where "0 \<le> t" "ox + a * t > ex" using s2 by auto
    then have "0 \<le> t" "0 < a * t" using o(2) unfolding ex_def by linarith+
    then have "0 < a" by (simp add: zero_less_mult_iff)
    then show ?thesis using True o(2)
      by (intro exI [of _ "(ex - ox) / a"]) (auto simp: w3_def ex_def)
  next
    case False
    then show ?thesis using s2 by (auto simp: w3_def)
  qed
  have "fst w4 \<le> ex \<and> snd w4 \<le> ey"
  proof (cases "snd w3 > ey")
    case True
    obtain t where t: "0 \<le> t" "snd w3 = oy + b * t" "ox + a * t \<le> ex" using y3 by blast
    then have "0 < b * t" using True o(4) unfolding ey_def by linarith
    then have b: "0 < b" using t(1) by (simp add: zero_less_mult_iff)
    have t4: "0 \<le> (ey - oy) / b" "(ey - oy) / b \<le> t"
      using True t(2) o(4) b by (auto simp: ey_def divide_simps mult.commute)
    have "ox + a * ((ey - oy) / b) \<le> ex"
    proof (cases "a \<le> 0")
      case True
      then have "a * ((ey - oy) / b) \<le> 0" using t4(1) by (rule mult_nonpos_nonneg)
      then show ?thesis using o(2) by (simp add: ex_def)
    next
      case False
      then have "a * ((ey - oy) / b) \<le> a * t" using t4(2) by (intro mult_left_mono) auto
      then show ?thesis using t(3) by linarith
    qed
    then show ?thesis using True by (simp add: w4_def)
  next
    case False
    then show ?thesis using x3 by (simp add: w4_def)
  qed
  then show "wx \<le> cm_origin_x m + real (cm_size_x m) * cm_resolution m"
    "wy \<le> cm_origin_y m + real (cm_size_y m) * cm_resolution m"
    using w by (auto simp: ex_def ey_def)
qed

lemma world_to_map_defined:
  assumes ok: "map_ok m" and small: "cm_size_x m < 2 ^ 31" "cm_size_y m < 2 ^ 31"
    and le: "wx \<le> cm_origin_x m + real (cm_size_x m) * cm_resolution m" "wy \<le> cm_origin_y m + real (cm_size_y m) * cm_resolution m"
  shows "world_to_map m wx wy \<noteq> None"
proof (cases "wx < cm_origin_x m \<or> wy < cm_origin_y m")
  case False
  have res: "0 < cm_resolution m" using ok by (simp add: map_ok_def)
  have cell: "\<exists>c. to_cell m d = Some c" if d: "0 \<le> d" "d \<le> real n * cm_resolution m" "n < 2 ^ 31" for d and n :: nat
  proof -
    have "d / cm_resolution m \<le> real n" using d(2) res by (simp add: divide_le_eq)
    moreover have "real n < 2 ^ 31" using d(3) by simp
    ultimately have "d / cm_resolution m < 2 ^ 31" by linarith
    then show ?thesis using to_int_nonneg [of "d / cm_resolution m"] d(1) res by (simp add: to_cell_def quotient_def)
  qed
  obtain cx where cx: "to_cell m (wx - cm_origin_x m) = Some cx"
    using cell [of "wx - cm_origin_x m" "cm_size_x m"] False le(1) small(1) by auto
  obtain cy where "to_cell m (wy - cm_origin_y m) = Some cy"
    using cell [of "wy - cm_origin_y m" "cm_size_y m"] False le(2) small(2) by auto
  then show ?thesis using False cx by (simp add: world_to_map_def Let_def)
qed (simp add: world_to_map_def)

lemma world_to_map_inside:
  assumes "map_ok m" "world_to_map m wx wy = Some (Some c)"
  shows "in_map m (fst c) (snd c)" "cm_origin_x m \<le> wx" "wx < cm_origin_x m + real (cm_size_x m) * cm_resolution m"
    "cm_origin_y m \<le> wy" "wy < cm_origin_y m + real (cm_size_y m) * cm_resolution m"
proof -
  have w: "world_to_map m wx wy = Some (Some (fst c, snd c))" using assms(2) by simp
  note iff = world_to_map_iff [OF assms(1), THEN iffD1, OF w]
  show inside: "in_map m (fst c) (snd c)" using iff by simp
  have res: "0 < cm_resolution m" using assms(1) by (simp add: map_ok_def)
  have "real (fst c) + 1 \<le> real (cm_size_x m)" "real (snd c) + 1 \<le> real (cm_size_y m)" using inside by (simp_all add: in_map_def)
  then have "(real (fst c) + 1) * cm_resolution m \<le> real (cm_size_x m) * cm_resolution m"
    "(real (snd c) + 1) * cm_resolution m \<le> real (cm_size_y m) * cm_resolution m" "0 \<le> real (fst c) * cm_resolution m" "0 \<le> real (snd c) * cm_resolution m"
    using res by (simp_all add: mult_right_mono)
  then show "cm_origin_x m \<le> wx" "wx < cm_origin_x m + real (cm_size_x m) * cm_resolution m"
    "cm_origin_y m \<le> wy" "wy < cm_origin_y m + real (cm_size_y m) * cm_resolution m"
    using iff by linarith+
qed

subsection \<open>The effect of clearing and marking\<close>

text \<open>\<open>recost S v m m'\<close>: \<open>m'\<close> is \<open>m\<close> with some cells of \<open>S\<close> set to \<open>v\<close>.\<close>

definition recost :: "location set \<Rightarrow> u8 \<Rightarrow> costmap \<Rightarrow> costmap \<Rightarrow> bool" where
  "recost S v m m' \<longleftrightarrow> map_ok m' \<and> m' = m\<lparr>cm_cells := cm_cells m'\<rparr>
     \<and> (\<forall>x y. in_map m x y \<longrightarrow> cost_at m' x y = cost_at m x y \<or> cost_at m' x y = v \<and> (x, y) \<in> S)"

definition grows :: "bounds \<Rightarrow> bounds \<Rightarrow> bool" where
  "grows b b' \<longleftrightarrow> min_x b' \<le> min_x b \<and> min_y b' \<le> min_y b \<and> max_x b \<le> max_x b' \<and> max_y b \<le> max_y b'"

lemma grows_refl [simp]: "grows b b"
  by (simp add: grows_def)

lemma grows_trans: "grows a b \<Longrightarrow> grows b c \<Longrightarrow> grows a c"
  by (auto simp: grows_def)

lemma grows_touch: "grows b (touch x y b)"
  by (simp add: grows_def touch_def)

lemma recost_refl: "map_ok m \<Longrightarrow> recost S v m m"
  by (simp add: recost_def)

lemma recostD:
  assumes "recost S v m m'"
  shows "map_ok m'" "m' = m\<lparr>cm_cells := cm_cells m'\<rparr>" "world_to_map m' = world_to_map m" "world_to_cell m' = world_to_cell m"
    "clip_ray m' = clip_ray m" "in_map m' = in_map m" "cm_size_x m' = cm_size_x m" "cm_size_y m' = cm_size_y m"
proof -
  show same: "m' = m\<lparr>cm_cells := cm_cells m'\<rparr>" and "map_ok m'" using assms by (simp_all add: recost_def)
  show "world_to_map m' = world_to_map m" "world_to_cell m' = world_to_cell m" "clip_ray m' = clip_ray m" "in_map m' = in_map m"
    "cm_size_x m' = cm_size_x m" "cm_size_y m' = cm_size_y m"
    by (subst same, simp)+
qed

lemma recost_trans:
  assumes "recost S v a b" "recost S' v b c" "S \<subseteq> T" "S' \<subseteq> T"
  shows "recost T v a c"
  unfolding recost_def
proof (intro conjI allI impI)
  show "map_ok c" by (rule recostD [OF assms(2)])
  have "c = (a\<lparr>cm_cells := cm_cells b\<rparr>)\<lparr>cm_cells := cm_cells c\<rparr>" using recostD(2) [OF assms(1)] recostD(2) [OF assms(2)] by simp
  then show "c = a\<lparr>cm_cells := cm_cells c\<rparr>" by simp
  fix x y assume "in_map a x y"
  then show "cost_at c x y = cost_at a x y \<or> cost_at c x y = v \<and> (x, y) \<in> T"
    using assms recostD(6) [OF assms(1)] unfolding recost_def by (metis subsetD)
qed

lemma mark_offsets_ok:
  assumes "map_ok m" "cm_cells m = Some cells" "\<forall>i \<in> set is. \<exists>p \<in> S. in_map m (fst p) (snd p) \<and> i = get_index m (fst p) (snd p)"
  shows "\<exists>cells'. mark_offsets v is cells = Some cells' \<and> recost S v m (m\<lparr>cm_cells := Some cells'\<rparr>)"
  using assms
proof (induction "is" arbitrary: m cells)
  case Nil
  have "m\<lparr>cm_cells := Some cells\<rparr> = m" using Nil.prems(2) by simp
  then show ?case using recost_refl [OF Nil.prems(1)] by simp
next
  case (Cons i "is")
  obtain p where p: "p \<in> S" "in_map m (fst p) (snd p)" "i = get_index m (fst p) (snd p)" using Cons.prems(3) by auto
  obtain m1 where m1: "set_cost (fst p) (snd p) v m = Some m1" "map_ok m1" "m1 = m\<lparr>cm_cells := cm_cells m1\<rparr>"
    "\<And>x y. in_map m x y \<Longrightarrow> cost_at m1 x y = (if x = fst p \<and> y = snd p then v else cost_at m x y)"
    by (rule set_cost_ok [OF Cons.prems(1) p(2), of v]) (use that in blast)
  then obtain cells1 where cells1: "set_opt cells i v = Some cells1" "m1 = m\<lparr>cm_cells := Some cells1\<rparr>"
    using Cons.prems(2) p(3) by (auto simp: set_cost_def bind_eq_Some_conv)
  have one: "recost S v m m1" using m1 p(1) by (auto simp: recost_def prod_eq_iff)
  have idx: "get_index m1 = get_index m" unfolding cells1(2) by (intro ext) (simp add: get_index_def)
  obtain cells' where "mark_offsets v is cells1 = Some cells'" "recost S v m1 (m1\<lparr>cm_cells := Some cells'\<rparr>)"
    using Cons.IH [OF m1(2), of cells1] Cons.prems(3) cells1(2) recostD(6) [OF one] idx by auto
  then show ?case using cells1 recost_trans [OF one, of S _ S] by auto
qed

text \<open>The cells a ray of an observation may clear.\<close>

definition on_ray :: "costmap \<Rightarrow> observation \<Rightarrow> point \<Rightarrow> location set" where
  "on_ray m obs p = {c. \<exists>start finish k.
     world_to_map m (pt_x (ob_origin obs)) (pt_y (ob_origin obs)) = Some (Some start)
     \<and> (case clip_ray m (pt_x (ob_origin obs)) (pt_y (ob_origin obs)) (pt_x p) (pt_y p) of
          (wx, wy) \<Rightarrow> world_to_map m wx wy) = Some (Some finish)
     \<and> k \<le> line_length start finish \<and> c = line_point start finish k}"

lemma clear_ray_ok:
  assumes ok: "map_ok m" and start: "world_to_map m (pt_x (ob_origin obs)) (pt_y (ob_origin obs)) = Some (Some start)"
    and far: "world_to_cell m (ob_raytrace_range obs) \<noteq> None"
  shows "\<exists>m' b'. clear_ray obs start p (m, b) = Some (m', b') \<and> recost (on_ray m obs p) FREE_SPACE m m' \<and> grows b b'"
proof -
  let ?ox = "pt_x (ob_origin obs)" and ?oy = "pt_y (ob_origin obs)"
  obtain wx wy where w: "clip_ray m ?ox ?oy (pt_x p) (pt_y p) = (wx, wy)" by force
  note inside = world_to_map_inside [OF ok start]
  have small: "cm_size_x m < 2 ^ 31" "cm_size_y m < 2 ^ 31" using in_map_small [OF ok inside(1)] by simp_all
  have "world_to_map m wx wy \<noteq> None"
    by (rule world_to_map_defined [OF ok small clip_ray_end [OF inside(2-5) w]])
  then consider "world_to_map m wx wy = Some None" | finish where "world_to_map m wx wy = Some (Some finish)"
    by (metis option.exhaust)
  then show ?thesis
  proof cases
    case 1
    then show ?thesis using w recost_refl [OF ok] by (auto simp: clear_ray_def)
  next
    case 2
    obtain r where r: "world_to_cell m (ob_raytrace_range obs) = Some r" using far by auto
    obtain cells where cells: "cm_cells m = Some cells" using ok by (auto simp: map_ok_def)
    let ?line = "raytrace_line (cm_size_x m) (fst start) (snd start) (fst finish) (snd finish) r"
    have "\<exists>c \<in> on_ray m obs p. in_map m (fst c) (snd c) \<and> i = get_index m (fst c) (snd c)" if i: "i \<in> set ?line" for i
    proof -
      obtain k where k: "k \<le> line_length start finish" "i = get_index m (fst (line_point start finish k)) (snd (line_point start finish k))"
        using raytrace_line_on_map [OF ok inside(1) world_to_map_inside(1) [OF ok 2] i] .
      have "line_point start finish k \<in> on_ray m obs p" using start 2 w k(1) by (auto simp: on_ray_def)
      then show ?thesis using k line_point_in_map [OF inside(1) world_to_map_inside(1) [OF ok 2] k(1)] by auto
    qed
    then obtain cells' where "mark_offsets FREE_SPACE ?line cells = Some cells'"
      "recost (on_ray m obs p) FREE_SPACE m (m\<lparr>cm_cells := Some cells'\<rparr>)"
      using mark_offsets_ok [OF ok cells, of ?line "on_ray m obs p"] by auto
    then show ?thesis using w 2 r cells by (cases finish) (simp add: clear_ray_def cells_of_def update_raytrace_bounds_def Let_def grows_touch)
  qed
qed

lemma clear_rays_ok:
  assumes ok: "map_ok m" and start: "world_to_map m (pt_x (ob_origin obs)) (pt_y (ob_origin obs)) = Some (Some start)"
    and far: "world_to_cell m (ob_raytrace_range obs) \<noteq> None"
  shows "\<exists>m' b'. clear_rays obs start ps (m, b) = Some (m', b')
    \<and> recost (\<Union>p \<in> set ps. on_ray m obs p) FREE_SPACE m m' \<and> grows b b'"
  using assms
proof (induction ps arbitrary: m b)
  case (Cons p ps)
  obtain m1 b1 where m1: "clear_ray obs start p (m, b) = Some (m1, b1)" "recost (on_ray m obs p) FREE_SPACE m m1" "grows b b1"
    using clear_ray_ok [OF Cons.prems] by blast
  note same = recostD [OF m1(2)]
  have rays: "on_ray m1 obs = on_ray m obs" by (rule ext) (simp add: on_ray_def same(3,5))
  obtain m2 b2 where m2: "clear_rays obs start ps (m1, b1) = Some (m2, b2)"
    "recost (\<Union>p \<in> set ps. on_ray m obs p) FREE_SPACE m1 m2" "grows b1 b2"
    using Cons.IH [OF same(1), of b1] Cons.prems(2,3) unfolding rays by (auto simp: same(3-6))
  have "recost (\<Union>p \<in> set (p # ps). on_ray m obs p) FREE_SPACE m m2"
    by (rule recost_trans [OF m1(2) m2(2)]) auto
  moreover have "clear_rays obs start (p # ps) (m, b) = Some (m2, b2)" using m1(1) m2(1) by simp
  ultimately show ?case using grows_trans [OF m1(3) m2(3)] by blast
qed (simp add: recost_refl)

definition ray_cells :: "costmap \<Rightarrow> observation list \<Rightarrow> location set" where
  "ray_cells m obss = (\<Union>obs \<in> set obss. \<Union>p \<in> set (cloud_points (ob_cloud obs)). on_ray m obs p)"

definition origins_ok :: "costmap \<Rightarrow> observation list \<Rightarrow> bool" where
  "origins_ok m obss \<longleftrightarrow> (\<forall>obs \<in> set obss. world_to_map m (pt_x (ob_origin obs)) (pt_y (ob_origin obs)) \<noteq> None
     \<and> world_to_cell m (ob_raytrace_range obs) \<noteq> None)"

lemma raytrace_freespace_ok:
  assumes ok: "map_ok m" and "world_to_map m (pt_x (ob_origin obs)) (pt_y (ob_origin obs)) \<noteq> None"
    and far: "world_to_cell m (ob_raytrace_range obs) \<noteq> None"
  shows "\<exists>m' b'. raytrace_freespace obs (m, b) = Some (m', b') \<and> recost (ray_cells m [obs]) FREE_SPACE m m' \<and> grows b b'"
proof (cases "world_to_map m (pt_x (ob_origin obs)) (pt_y (ob_origin obs)) = Some None")
  case True
  then show ?thesis using recost_refl [OF ok] by (simp add: raytrace_freespace_def)
next
  case False
  then obtain start where start: "world_to_map m (pt_x (ob_origin obs)) (pt_y (ob_origin obs)) = Some (Some start)"
    using assms(2) by auto
  obtain m' b' where "clear_rays obs start (cloud_points (ob_cloud obs)) (m, touch (pt_x (ob_origin obs)) (pt_y (ob_origin obs)) b) = Some (m', b')"
    "recost (ray_cells m [obs]) FREE_SPACE m m'" "grows (touch (pt_x (ob_origin obs)) (pt_y (ob_origin obs)) b) b'"
    using clear_rays_ok [OF ok start far, of "cloud_points (ob_cloud obs)"] by (fastforce simp: ray_cells_def)
  then show ?thesis using start grows_trans [OF grows_touch] by (simp add: raytrace_freespace_def)
qed

lemma raytrace_observations_ok:
  assumes "map_ok m" "origins_ok m obss"
  shows "\<exists>m' b'. raytrace_observations obss (m, b) = Some (m', b') \<and> recost (ray_cells m obss) FREE_SPACE m m' \<and> grows b b'"
  using assms
proof (induction obss arbitrary: m b)
  case (Cons obs obss)
  obtain m1 b1 where m1: "raytrace_freespace obs (m, b) = Some (m1, b1)" "recost (ray_cells m [obs]) FREE_SPACE m m1" "grows b b1"
    using raytrace_freespace_ok [OF Cons.prems(1), of obs b] Cons.prems(2) by (auto simp: origins_ok_def)
  note same = recostD [OF m1(2)]
  have "on_ray m1 = on_ray m" by (intro ext) (simp add: on_ray_def same(3,5))
  then have rays: "ray_cells m1 obss = ray_cells m obss" by (simp add: ray_cells_def)
  obtain m2 b2 where m2: "raytrace_observations obss (m1, b1) = Some (m2, b2)" "recost (ray_cells m obss) FREE_SPACE m1 m2" "grows b1 b2"
    using Cons.IH [OF same(1), of b1] Cons.prems(2) unfolding rays by (auto simp: origins_ok_def same(3,4))
  have "recost (ray_cells m (obs # obss)) FREE_SPACE m m2"
    by (rule recost_trans [OF m1(2) m2(2)]) (auto simp: ray_cells_def)
  then show ?case using m1 m2 grows_trans by auto
qed (simp add: recost_refl)

definition marks :: "costmap \<Rightarrow> real \<Rightarrow> observation \<Rightarrow> point \<Rightarrow> location \<Rightarrow> bool" where
  "marks m max_height obs p c \<longleftrightarrow> point_accepted max_height obs p \<and> world_to_map m (pt_x p) (pt_y p) = Some (Some c)"

definition marked_cells :: "costmap \<Rightarrow> real \<Rightarrow> observation list \<Rightarrow> location set" where
  "marked_cells m max_height obss =
     {c. \<exists>obs \<in> set obss. \<exists>p \<in> set (cloud_points (ob_cloud obs)). marks m max_height obs p c}"

definition in_bounds :: "point \<Rightarrow> bounds \<Rightarrow> bool" where
  "in_bounds p b \<longleftrightarrow> min_x b \<le> pt_x p \<and> pt_x p \<le> max_x b \<and> min_y b \<le> pt_y p \<and> pt_y p \<le> max_y b"

lemma in_bounds_touch: "in_bounds p (touch (pt_x p) (pt_y p) b)"
  by (simp add: in_bounds_def touch_def)

lemma in_bounds_grows: "in_bounds p b \<Longrightarrow> grows b b' \<Longrightarrow> in_bounds p b'"
  by (auto simp: in_bounds_def grows_def)

text \<open>\<open>painted S m m'\<close>: \<open>m'\<close> is \<open>m\<close> with exactly the cells of \<open>S\<close> lethal.\<close>

definition painted :: "location set \<Rightarrow> costmap \<Rightarrow> costmap \<Rightarrow> bool" where
  "painted S m m' \<longleftrightarrow> map_ok m' \<and> m' = m\<lparr>cm_cells := cm_cells m'\<rparr>
     \<and> (\<forall>x y. in_map m x y \<longrightarrow> cost_at m' x y = (if (x, y) \<in> S then LETHAL_OBSTACLE else cost_at m x y))"

lemma paintedD:
  assumes "painted S m m'"
  shows "map_ok m'" "m' = m\<lparr>cm_cells := cm_cells m'\<rparr>" "world_to_map m' = world_to_map m" "in_map m' = in_map m"
proof -
  show same: "m' = m\<lparr>cm_cells := cm_cells m'\<rparr>" and "map_ok m'" using assms by (simp_all add: painted_def)
  show "world_to_map m' = world_to_map m" "in_map m' = in_map m" by (subst same, simp)+
qed

lemma painted_trans:
  assumes "painted S a b" "painted S' b c"
  shows "painted (S \<union> S') a c"
  unfolding painted_def
proof (intro conjI allI impI)
  show "map_ok c" by (rule paintedD [OF assms(2)])
  have "c = (a\<lparr>cm_cells := cm_cells b\<rparr>)\<lparr>cm_cells := cm_cells c\<rparr>" using paintedD(2) [OF assms(1)] paintedD(2) [OF assms(2)] by simp
  then show "c = a\<lparr>cm_cells := cm_cells c\<rparr>" by simp
  fix x y assume "in_map a x y"
  then show "cost_at c x y = (if (x, y) \<in> S \<union> S' then LETHAL_OBSTACLE else cost_at a x y)"
    using assms paintedD(4) [OF assms(1)] unfolding painted_def by auto
qed

lemma mark_point_ok:
  assumes ok: "map_ok m" and "world_to_map m (pt_x p) (pt_y p) \<noteq> None"
  shows "\<exists>m' b'. mark_point h obs p (m, b) = Some (m', b') \<and> painted {c. marks m h obs p c} m m' \<and> grows b b'
    \<and> (\<forall>c. marks m h obs p c \<longrightarrow> in_bounds p b')"
proof (cases "\<exists>c. marks m h obs p c")
  case True
  then obtain c where c: "marks m h obs p c" "{c. marks m h obs p c} = {c}" by (auto simp: marks_def)
  then have w: "world_to_map m (pt_x p) (pt_y p) = Some (Some (fst c, snd c))" by (simp add: marks_def)
  have inside: "in_map m (fst c) (snd c)" using world_to_map_inside(1) [OF ok, of "pt_x p" "pt_y p" c] w by simp
  obtain m' where m': "set_cost (fst c) (snd c) LETHAL_OBSTACLE m = Some m'" "map_ok m'" "m' = m\<lparr>cm_cells := cm_cells m'\<rparr>"
    "\<And>x y. in_map m x y \<Longrightarrow> cost_at m' x y = (if x = fst c \<and> y = snd c then LETHAL_OBSTACLE else cost_at m x y)"
    by (rule set_cost_ok [OF ok inside, of LETHAL_OBSTACLE]) (use that in blast)
  then have "painted {c. marks m h obs p c} m m'" unfolding c(2) by (auto simp: painted_def prod_eq_iff)
  moreover have "mark_point h obs p (m, b) = Some (m', touch (pt_x p) (pt_y p) b)"
    using c(1) w m'(1) by (cases c) (simp add: mark_point_def marks_def)
  ultimately show ?thesis using grows_touch in_bounds_touch by blast
next
  case False
  then have "mark_point h obs p (m, b) = Some (m, b)"
    using assms(2) by (auto simp: mark_point_def marks_def split: option.splits)
  then show ?thesis using False ok by (auto simp: painted_def)
qed

lemma mark_points_ok:
  assumes "map_ok m" "\<forall>p \<in> set ps. world_to_map m (pt_x p) (pt_y p) \<noteq> None"
  shows "\<exists>m' b'. mark_points h obs ps (m, b) = Some (m', b') \<and> painted {c. \<exists>p \<in> set ps. marks m h obs p c} m m' \<and> grows b b'
    \<and> (\<forall>p \<in> set ps. \<forall>c. marks m h obs p c \<longrightarrow> in_bounds p b')"
  using assms
proof (induction ps arbitrary: m b)
  case (Cons p ps)
  obtain m1 b1 where m1: "mark_point h obs p (m, b) = Some (m1, b1)" "painted {c. marks m h obs p c} m m1" "grows b b1"
    "\<forall>c. marks m h obs p c \<longrightarrow> in_bounds p b1"
    using mark_point_ok [OF Cons.prems(1), of p h obs b] Cons.prems(2) by auto
  have same: "marks m1 h obs = marks m h obs" by (intro ext) (simp add: marks_def paintedD(3) [OF m1(2)])
  obtain m2 b2 where m2: "mark_points h obs ps (m1, b1) = Some (m2, b2)" "painted {c. \<exists>p \<in> set ps. marks m h obs p c} m1 m2" "grows b1 b2"
    "\<forall>p \<in> set ps. \<forall>c. marks m h obs p c \<longrightarrow> in_bounds p b2"
    using Cons.IH [OF paintedD(1) [OF m1(2)], of b1] Cons.prems(2) unfolding same by (auto simp: paintedD(3) [OF m1(2)])
  have "{c. \<exists>p \<in> set (p # ps). marks m h obs p c} = {c. marks m h obs p c} \<union> {c. \<exists>p \<in> set ps. marks m h obs p c}" by auto
  then show ?case
    using m1 m2 painted_trans [OF m1(2) m2(2)] grows_trans [OF m1(3) m2(3)] in_bounds_grows [OF _ m2(3)] by auto
qed (simp add: painted_def)

lemma mark_observations_ok:
  assumes "map_ok m" "\<forall>obs \<in> set obss. \<forall>p \<in> set (cloud_points (ob_cloud obs)). world_to_map m (pt_x p) (pt_y p) \<noteq> None"
  shows "\<exists>m' b'. mark_observations h obss (m, b) = Some (m', b') \<and> painted (marked_cells m h obss) m m' \<and> grows b b'
    \<and> (\<forall>obs \<in> set obss. \<forall>p \<in> set (cloud_points (ob_cloud obs)). \<forall>c. marks m h obs p c \<longrightarrow> in_bounds p b')"
  using assms
proof (induction obss arbitrary: m b)
  case (Cons obs obss)
  obtain m1 b1 where m1: "mark_points h obs (cloud_points (ob_cloud obs)) (m, b) = Some (m1, b1)"
    "painted {c. \<exists>p \<in> set (cloud_points (ob_cloud obs)). marks m h obs p c} m m1" "grows b b1"
    "\<forall>p \<in> set (cloud_points (ob_cloud obs)). \<forall>c. marks m h obs p c \<longrightarrow> in_bounds p b1"
    using mark_points_ok [OF Cons.prems(1), of "cloud_points (ob_cloud obs)" h obs b] Cons.prems(2) by auto
  have same: "marks m1 = marks m" by (intro ext) (simp add: marks_def paintedD(3) [OF m1(2)])
  have "marked_cells m1 h obss = marked_cells m h obss" by (simp add: marked_cells_def same)
  then obtain m2 b2 where m2: "mark_observations h obss (m1, b1) = Some (m2, b2)" "painted (marked_cells m h obss) m1 m2" "grows b1 b2"
    "\<forall>obs \<in> set obss. \<forall>p \<in> set (cloud_points (ob_cloud obs)). \<forall>c. marks m h obs p c \<longrightarrow> in_bounds p b2"
    using Cons.IH [OF paintedD(1) [OF m1(2)], of b1] Cons.prems(2) by (auto simp: paintedD(3) [OF m1(2)] same)
  have "marked_cells m h (obs # obss) = {c. \<exists>p \<in> set (cloud_points (ob_cloud obs)). marks m h obs p c} \<union> marked_cells m h obss"
    by (auto simp: marked_cells_def)
  then show ?case
    using m1 m2 painted_trans [OF m1(2) m2(2)] grows_trans [OF m1(3) m2(3)] in_bounds_grows [OF _ m2(3)] by auto
qed (simp add: painted_def marked_cells_def)

lemma use_extra_bounds_ok:
  "use_extra_bounds b l = (b', l') \<Longrightarrow> cl_map l' = cl_map l \<and> cl_enabled l' = cl_enabled l \<and> grows b b'"
  by (auto simp: use_extra_bounds_def grows_def split: if_splits)

lemma grows_touch_all: "grows b (touch_all ps b)"
  by (induction ps arbitrary: b) (auto intro: grows_trans [OF grows_touch])

lemma update_footprint_ok:
  obtains b' l' where "update_footprint fp x y yaw b l = (b', l')" "grows b b'" "ol_layer l' = ol_layer l"
  by (cases "ol_footprint_clearing l") (simp_all add: update_footprint_def Let_def grows_touch_all)

text \<open>C29. UpdateBounds of an enabled obstacle layer whose points have representable cells never leaves its arrays: exactly the cells of the accepted points of the marking observations become lethal, every other cell keeps its cost or is a free cell on a ray of a clearing observation, and the bounds grow to hold every point that was marked.\<close>

theorem obstacle_layer_marks_and_clears:
  fixes m l1 layer b1
  assumes prep: "prepare_map raw system_now robot_x robot_y l = Some l1" and on: "cl_enabled (ol_layer l1)"
    and m: "m = cl_map (ol_layer l1)" "map_ok m" and extra: "use_extra_bounds b (ol_layer l1) = (b1, layer)"
    and marking: "get_marking_observations now (l1\<lparr>ol_layer := layer\<rparr>) = Some (marking, marking_current, l2)"
    and clearing: "(if marking_current then get_clearing_observations now l2 else Some ([], False, l2)) = Some (clearing, current, l3)"
    and cells: "\<forall>obs \<in> set marking. \<forall>p \<in> set (cloud_points (ob_cloud obs)). world_to_map m (pt_x p) (pt_y p) \<noteq> None"
      "origins_ok m clearing"
  shows "\<exists>b' l'. obstacle_update_bounds raw system_now now footprint robot_x robot_y yaw b l = Some (b', l')
    \<and> map_ok (cl_map (ol_layer l')) \<and> cl_current (ol_layer l') = current \<and> grows b b'
    \<and> (\<forall>x y. in_map m x y \<longrightarrow> (let cost = cost_at (cl_map (ol_layer l')) x y in
         if (x, y) \<in> marked_cells m (ol_max_height l3) marking then cost = LETHAL_OBSTACLE
         else cost = cost_at m x y \<or> cost = FREE_SPACE \<and> (x, y) \<in> ray_cells m clearing))
    \<and> (\<forall>obs \<in> set marking. \<forall>p \<in> set (cloud_points (ob_cloud obs)). \<forall>c. marks m (ol_max_height l3) obs p c \<longrightarrow> in_bounds p b')"
proof -
  have layer: "cl_map layer = m" "grows b b1" using use_extra_bounds_ok [OF extra] m(1) by simp_all
  obtain m1 b2 where c: "raytrace_observations clearing (m, b1) = Some (m1, b2)" "recost (ray_cells m clearing) FREE_SPACE m m1" "grows b1 b2"
    using raytrace_observations_ok [OF m(2) cells(2)] by blast
  note same = recostD [OF c(2)]
  have marked: "marked_cells m1 = marked_cells m" by (intro ext) (simp add: marked_cells_def marks_def same(3))
  have marks: "marks m1 = marks m" by (intro ext) (simp add: marks_def same(3))
  obtain m2 b3 where k: "mark_observations (ol_max_height l3) marking (m1, b2) = Some (m2, b3)"
    "painted (marked_cells m1 (ol_max_height l3) marking) m1 m2" "grows b2 b3"
    "\<forall>obs \<in> set marking. \<forall>p \<in> set (cloud_points (ob_cloud obs)). \<forall>c. marks m (ol_max_height l3) obs p c \<longrightarrow> in_bounds p b3"
    using mark_observations_ok [OF same(1), of marking "ol_max_height l3" b2] cells(1) unfolding marks same(3) by blast
  let ?l = "l3\<lparr>ol_layer := layer\<lparr>cl_map := m2, cl_current := current\<rparr>\<rparr>"
  obtain b' l' where u: "update_footprint footprint robot_x robot_y yaw b3 ?l = (b', l')" "grows b3 b'" "ol_layer l' = ol_layer ?l"
    by (rule update_footprint_ok)
  have "obstacle_update_bounds raw system_now now footprint robot_x robot_y yaw b l = Some (b', l')"
    using prep on extra marking clearing c(1) k(1) u(1) layer(1) by (simp add: obstacle_update_bounds_def)
  moreover have "grows b b'" using layer(2) c(3) k(3) u(2) grows_trans by blast
  moreover have "let cost = cost_at m2 x y in
      if (x, y) \<in> marked_cells m (ol_max_height l3) marking then cost = LETHAL_OBSTACLE
      else cost = cost_at m x y \<or> cost = FREE_SPACE \<and> (x, y) \<in> ray_cells m clearing" if "in_map m x y" for x y
    using that k(2) c(2) same(6) unfolding marked by (auto simp: painted_def recost_def)
  moreover have "\<forall>obs \<in> set marking. \<forall>p \<in> set (cloud_points (ob_cloud obs)). \<forall>c. marks m (ol_max_height l3) obs p c \<longrightarrow> in_bounds p b'"
    using k(4) in_bounds_grows [OF _ u(2)] by blast
  moreover have "map_ok m2" by (rule paintedD(1) [OF k(2)])
  ultimately show ?thesis using u(3) by auto
qed

definition wall_point :: point where "wall_point = \<lparr>pt_x = 3 / 2, pt_y = 1 / 2, pt_z = 0\<rparr>"

definition wall_observation :: observation where
  "wall_observation = \<lparr>ob_origin = \<lparr>pt_x = 1 / 2, pt_y = 1 / 2, pt_z = 0\<rparr>,
     ob_cloud = \<lparr>cloud_frame = ''map'', cloud_stamp = 0, cloud_points = [wall_point]\<rparr>, ob_obstacle_range = 3, ob_raytrace_range = 3\<rparr>"

definition wall_layer :: obstacle_layer where
  "wall_layer = \<lparr>ol_layer = strip True [7, 7], ol_rolling = False, ol_footprint_clearing = False, ol_combination = 1,
     ol_max_height = 1, ol_transformed = [], ol_buffers = [], ol_marking = [], ol_clearing = [],
     ol_static_marking = [wall_observation], ol_static_clearing = [wall_observation], ol_reset_time = 0\<rparr>"

theorem obstacle_layer_marks_and_clears_witness:
  "\<exists>b' l'. obstacle_update_bounds (\<lambda>_. 0) 0 0 [] 0 0 0 no_extra_bounds wall_layer = Some (b', l')
    \<and> cost_at (cl_map (ol_layer l')) 1 0 = LETHAL_OBSTACLE"
proof -
  let ?m = "cl_map (strip True [7, 7])"
  have ok: "map_ok ?m" by (simp add: strip_fits)
  have prep: "prepare_map (\<lambda>_. 0) 0 0 0 wall_layer = Some wall_layer" "cl_enabled (ol_layer wall_layer)"
    "?m = cl_map (ol_layer wall_layer)" "use_extra_bounds no_extra_bounds (ol_layer wall_layer) = (no_extra_bounds, strip True [7, 7])"
    by (simp_all add: prepare_map_def wall_layer_def trunc_real_def use_extra_bounds_def strip_def)
  have obs: "get_marking_observations 0 (wall_layer\<lparr>ol_layer := strip True [7, 7]\<rparr>) =
      Some ([wall_observation], True, wall_layer\<lparr>ol_layer := strip True [7, 7]\<rparr>)"
    "(if True then get_clearing_observations 0 (wall_layer\<lparr>ol_layer := strip True [7, 7]\<rparr>)
      else Some ([], False, wall_layer\<lparr>ol_layer := strip True [7, 7]\<rparr>)) =
      Some ([wall_observation], True, wall_layer\<lparr>ol_layer := strip True [7, 7]\<rparr>)"
    by (simp_all add: get_marking_observations_def get_clearing_observations_def wall_layer_def)
  have cell: "world_to_map ?m (3 / 2) (1 / 2) = Some (Some (1, 0))" "world_to_map ?m (1 / 2) (1 / 2) = Some (Some (0, 0))"
    using world_to_map_iff [OF ok, of "3 / 2" "1 / 2" 1 0] world_to_map_iff [OF ok, of "1 / 2" "1 / 2" 0 0]
    by (simp_all add: in_map_def strip_def)
  have cells: "\<forall>obs \<in> set [wall_observation]. \<forall>p \<in> set (cloud_points (ob_cloud obs)). world_to_map ?m (pt_x p) (pt_y p) \<noteq> None"
    "origins_ok ?m [wall_observation]"
    using cell by (simp_all add: wall_observation_def wall_point_def origins_ok_def)
      (simp add: world_to_cell_def quotient_def strip_def)
  have "(1, 0) \<in> marked_cells ?m (ol_max_height (wall_layer\<lparr>ol_layer := strip True [7, 7]\<rparr>)) [wall_observation]"
    using cell(1) by (simp add: marked_cells_def marks_def wall_observation_def wall_point_def point_accepted_def wall_layer_def)
  moreover have "in_map ?m 1 0" by (simp add: in_map_def strip_def)
  moreover note obstacle_layer_marks_and_clears [OF prep(1,2,3) ok prep(4) obs cells, of "[]" 0]
  ultimately show ?thesis by (auto simp: Let_def)
qed

end
