(* ===== verification/StaticLayer.thy ===== *)
theory StaticLayer
  imports CostLayer
begin

text \<open>
  The static layer of \<open>static_layer.h\<close> and \<open>static_layer.cpp\<close>: the costs of a map received as an
  occupancy grid. What the arrival of a map does to the other layers is in \<open>LayeredMap\<close>.

  \<open>tf\<close> is the transform from the global frame to the frame of the map, which can fail.
\<close>

record static_layer =
  sl_layer :: cost_layer
  sl_map_received :: bool
  sl_updated :: bool
  sl_x :: nat
  sl_y :: nat
  sl_width :: nat
  sl_height :: nat
  sl_lethal_threshold :: u8
  sl_unknown_value :: u8
  sl_track_unknown :: bool
  sl_use_maximum :: bool
  sl_first_map_only :: bool
  sl_trinary :: bool
  sl_subscribed :: bool
  sl_map_frame :: string

record static_config =
  sc_first_map_only :: bool
  sc_track_unknown :: bool
  sc_use_maximum :: bool
  sc_lethal_threshold :: int
  sc_trinary :: bool
  sc_unknown_value :: int

subsection \<open>Operations\<close>

text \<open>The part of \<open>OnInitialize\<close> before it waits for a map, and the part after.\<close>

definition static_configure :: "static_config \<Rightarrow> static_layer \<Rightarrow> static_layer" where
  "static_configure cfg l =
     l\<lparr>sl_layer := (sl_layer l)\<lparr>cl_current := True\<rparr>, sl_first_map_only := sc_first_map_only cfg,
       sl_track_unknown := sc_track_unknown cfg, sl_use_maximum := sc_use_maximum cfg,
       sl_lethal_threshold := word_of_int (max (min 100 (sc_lethal_threshold cfg)) 0),
       sl_trinary := sc_trinary cfg, sl_unknown_value := word_of_int (sc_unknown_value cfg),
       sl_map_received := False, sl_subscribed := True\<rparr>"

definition static_started :: "static_layer \<Rightarrow> static_layer" where
  "static_started l =
     l\<lparr>sl_x := 0, sl_y := 0, sl_width := cm_size_x (cl_map (sl_layer l)), sl_height := cm_size_y (cl_map (sl_layer l)),
       sl_layer := (sl_layer l)\<lparr>cl_enabled := True\<rparr>, sl_updated := True\<rparr>"

definition static_match_size :: "(nat \<Rightarrow> u8) \<Rightarrow> costmap \<Rightarrow> bool \<Rightarrow> static_layer \<Rightarrow> static_layer option" where
  "static_match_size raw master rolling l =
     (if \<not> rolling then do { layer \<leftarrow> match_size raw master (sl_layer l); Some (l\<lparr>sl_layer := layer\<rparr>) }
      else Some l)"

definition interpret_value :: "static_layer \<Rightarrow> u8 \<Rightarrow> u8 option" where
  "interpret_value l value =
     (if sl_track_unknown l \<and> value = sl_unknown_value l then Some NO_INFORMATION
      else if \<not> sl_track_unknown l \<and> value = sl_unknown_value l then Some FREE_SPACE
      else if value \<ge> sl_lethal_threshold l then Some LETHAL_OBSTACLE
      else if sl_trinary l then Some FREE_SPACE
      else let scale = real (unat value) / real (unat (sl_lethal_threshold l))
           in real_to_u8 (scale * 254))"

text \<open>The loop of \<open>InComingMap\<close> that fills the array, \<open>n\<close> cells from \<open>i\<close>, and the fields it sets then.\<close>

primrec fill_costs :: "static_layer \<Rightarrow> int list \<Rightarrow> nat \<Rightarrow> nat \<Rightarrow> u8 list \<Rightarrow> u8 list option" where
  "fill_costs l data 0 i cells = Some cells"
| "fill_costs l data (Suc n) i cells = do {
     d \<leftarrow> at_opt data i;
     cost \<leftarrow> interpret_value l (word_of_int d);
     cells' \<leftarrow> set_opt cells i cost;
     fill_costs l data n (Suc i) cells' }"

definition static_store_map :: "occupancy_grid \<Rightarrow> static_layer \<Rightarrow> static_layer option" where
  "static_store_map g l = do {
     let m = cl_map (sl_layer l);
     cells \<leftarrow> fill_costs l (og_data g) (og_height g * og_width g) 0 (cells_of m);
     Some (l\<lparr>sl_layer := (sl_layer l)\<lparr>cl_map := m\<lparr>cm_cells := map_option (\<lambda>_. cells) (cm_cells m)\<rparr>\<rparr>,
       sl_map_received := True, sl_updated := True, sl_map_frame := og_frame g, sl_x := 0, sl_y := 0,
       sl_width := cm_size_x m, sl_height := cm_size_y m,
       sl_subscribed := (if sl_first_map_only l then False else sl_subscribed l)\<rparr>) }"

definition static_deactivate :: "static_layer \<Rightarrow> static_layer" where
  "static_deactivate l = l\<lparr>sl_subscribed := False\<rparr>"

definition static_update_bounds :: "bool \<Rightarrow> bounds \<Rightarrow> static_layer \<Rightarrow> bounds \<times> static_layer" where
  "static_update_bounds rolling b l =
     (if \<not> rolling \<and> (\<not> sl_map_received l \<or> \<not> (sl_updated l \<or> cl_has_extra (sl_layer l))) then (b, l)
      else let (b1, layer) = use_extra_bounds b (sl_layer l);
               (wx0, wy0) = map_to_world (cl_map layer) (sl_x l) (sl_y l);
               (wx1, wy1) = map_to_world (cl_map layer) (wrap32 (sl_x l + sl_width l)) (wrap32 (sl_y l + sl_height l))
           in (\<lparr>min_x = min wx0 (min_x b1), min_y = min wy0 (min_y b1), max_x = max (max_x b1) wx1, max_y = max (max_y b1) wy1\<rparr>,
               l\<lparr>sl_layer := layer, sl_updated := False\<rparr>))"

text \<open>With a rolling window every cell of the master grid is looked up in the map; a failing transform
  ends the update where it stands.\<close>

definition cost_lookup :: "static_layer \<Rightarrow> nat \<Rightarrow> nat \<Rightarrow> nat \<Rightarrow> nat \<Rightarrow> costmap \<Rightarrow> costmap option" where
  "cost_lookup l mi mj mx my master = do {
     c \<leftarrow> get_cost (cl_map (sl_layer l)) mx my;
     if \<not> sl_use_maximum l then set_cost mi mj c master
     else do { old \<leftarrow> get_cost master mi mj; set_cost mi mj (max old c) master } }"

primrec roll_cells :: "(real \<Rightarrow> real \<Rightarrow> (real \<times> real) option) \<Rightarrow> static_layer \<Rightarrow> (int \<times> int) list \<Rightarrow> costmap \<Rightarrow> costmap option" where
  "roll_cells tf l [] master = Some master"
| "roll_cells tf l (c # cs) master = do {
     let mi = to_unsigned (fst c);
     let mj = to_unsigned (snd c);
     case tf (fst (map_to_world master mi mj)) (snd (map_to_world master mi mj)) of None \<Rightarrow> Some master
     | Some (px, py) \<Rightarrow> do {
         r \<leftarrow> world_to_map (cl_map (sl_layer l)) px py;
         master' \<leftarrow> (case r of None \<Rightarrow> Some master | Some (mx, my) \<Rightarrow> cost_lookup l mi mj mx my master);
         roll_cells tf l cs master' } }"

definition static_update_costs ::
  "(real \<Rightarrow> real \<Rightarrow> (real \<times> real) option) \<Rightarrow> bool \<Rightarrow> int \<Rightarrow> int \<Rightarrow> int \<Rightarrow> int \<Rightarrow> static_layer \<Rightarrow> costmap \<Rightarrow> costmap option" where
  "static_update_costs tf rolling min_i min_j max_i max_j l master =
     (if \<not> sl_map_received l then Some master
      else if \<not> rolling then
        if \<not> sl_use_maximum l then update_overwrite_by_all (sl_layer l) min_i min_j max_i max_j master
        else update_overwrite_by_max (sl_layer l) min_i min_j max_i max_j master
      else roll_cells tf l [(i, j). i \<leftarrow> [min_i..max_i - 1], j \<leftarrow> [min_j..max_j - 1]] master)"

subsection \<open>The costs of a map\<close>

text \<open>What the code computes with a \<open>double\<close> is an integer division.\<close>

definition grid_cost :: "static_layer \<Rightarrow> u8 \<Rightarrow> u8" where
  "grid_cost l v =
     (if v = sl_unknown_value l then if sl_track_unknown l then NO_INFORMATION else FREE_SPACE
      else if sl_lethal_threshold l \<le> v then LETHAL_OBSTACLE
      else if sl_trinary l then FREE_SPACE
      else of_nat (unat v * 254 div unat (sl_lethal_threshold l)))"

lemma interpret_value_grid_cost: "interpret_value l v = Some (grid_cost l v)"
proof (cases "v < sl_lethal_threshold l")
  case True
  define a b where "a = unat v" and "b = unat (sl_lethal_threshold l)"
  have less: "a < b" using True unfolding a_def b_def by (rule unat_mono)
  have "real a / real b * 254 = real (a * 254) / real b" by simp
  then have floor: "\<lfloor>real a / real b * 254\<rfloor> = int (a * 254 div b)" by (simp only: floor_divide_of_nat_eq)
  have "a * 254 < b * 254" using less by simp
  then have "a * 254 div b < 254" using less by (simp add: div_less_iff_less_mult mult.commute)
  then have "\<lfloor>real a / real b * 254\<rfloor> < 256" using floor by linarith
  then have "real a / real b * 254 < 256" by (simp only: floor_less_iff)
  moreover have "- 1 < real a / real b * 254" by (rule less_le_trans [of _ 0]) simp_all
  ultimately have "real_to_u8 (real a / real b * 254) = Some (of_nat (a * 254 div b))"
    using floor by (simp add: real_to_u8_def trunc_real_def)
  then show ?thesis using True by (simp add: interpret_value_def grid_cost_def a_def b_def not_le [symmetric])
next
  case False
  then show ?thesis by (simp add: interpret_value_def grid_cost_def not_less)
qed

lemma fill_costs_ok:
  assumes "i + n \<le> length data" "i + n \<le> length cells"
  shows "\<exists>cells'. fill_costs l data n i cells = Some cells' \<and> length cells' = length cells
    \<and> (\<forall>k < length cells. cells' ! k = (if i \<le> k \<and> k < i + n then grid_cost l (word_of_int (data ! k)) else cells ! k))"
  using assms
proof (induction n arbitrary: i cells)
  case (Suc n)
  let ?c = "cells[i := grid_cost l (word_of_int (data ! i))]"
  obtain cells' where "fill_costs l data n (Suc i) ?c = Some cells'" "length cells' = length ?c"
    "\<forall>k < length ?c. cells' ! k = (if Suc i \<le> k \<and> k < Suc i + n then grid_cost l (word_of_int (data ! k)) else ?c ! k)"
    using Suc.IH [of "Suc i" ?c] Suc.prems by auto
  then show ?case using Suc.prems
    by (auto simp: interpret_value_grid_cost nth_list_update not_less_eq_eq dest!: le_antisym)
qed auto

text \<open>C30. InComingMap, once the layer has the size of the received grid, stores every value of the grid without leaving an array: the unknown value as no information (or free, if unknown space is not tracked), values from the threshold on as lethal, and the others as free or scaled to the range below 254.\<close>

theorem static_layer_stores_map:
  assumes "map_ok (cl_map (sl_layer l))" "cm_size_x (cl_map (sl_layer l)) = og_width g" "cm_size_y (cl_map (sl_layer l)) = og_height g"
    and "og_width g * og_height g \<le> length (og_data g)"
  shows "\<exists>l'. static_store_map g l = Some l' \<and> map_ok (cl_map (sl_layer l')) \<and> sl_map_received l' \<and> sl_updated l'
    \<and> (\<forall>x y. x < og_width g \<and> y < og_height g \<longrightarrow>
        cost_at (cl_map (sl_layer l')) x y = grid_cost l (word_of_int (og_data g ! (y * og_width g + x))))"
proof -
  let ?m = "cl_map (sl_layer l)"
  obtain cells where cells: "cm_cells ?m = Some cells" "length cells = og_width g * og_height g"
    using assms(1-3) unfolding map_ok_def by (elim conjE exE) simp
  obtain cells' where c: "fill_costs l (og_data g) (og_height g * og_width g) 0 cells = Some cells'" "length cells' = length cells"
    "\<forall>k < length cells. cells' ! k = grid_cost l (word_of_int (og_data g ! k))"
    using fill_costs_ok [of 0 "og_height g * og_width g" "og_data g" cells l] assms(4) cells(2) by (auto simp: mult.commute)
  let ?m' = "?m\<lparr>cm_cells := Some cells'\<rparr>"
  have "map_ok ?m'" using assms(1-3) c(2) cells(2) by (simp add: map_ok_def)
  moreover have "cost_at ?m' x y = grid_cost l (word_of_int (og_data g ! (y * og_width g + x)))"
    if "x < og_width g" "y < og_height g" for x y
    using c(3) grid_index_less [OF that] cells(2) assms(2) by (simp add: cost_at_def)
  ultimately show ?thesis using c(1) cells(1) by (simp add: static_store_map_def cells_of_def Let_def)
qed

definition office_layer :: static_layer where
  "office_layer = \<lparr>sl_layer = strip True [0, 0], sl_map_received = False, sl_updated = False, sl_x = 0, sl_y = 0, sl_width = 0,
     sl_height = 0, sl_lethal_threshold = 100, sl_unknown_value = 255, sl_track_unknown = True, sl_use_maximum = True,
     sl_first_map_only = False, sl_trinary = False, sl_subscribed = True, sl_map_frame = []\<rparr>"

definition office_grid :: occupancy_grid where
  "office_grid = \<lparr>og_width = 2, og_height = 1, og_resolution = 1, og_origin_x = 0, og_origin_y = 0, og_frame = ''map'', og_data = [-1, 50]\<rparr>"

theorem static_layer_stores_map_witness:
  "\<exists>l'. static_store_map office_grid office_layer = Some l'
    \<and> cost_at (cl_map (sl_layer l')) 0 0 = NO_INFORMATION \<and> cost_at (cl_map (sl_layer l')) 1 0 = 127"
proof -
  have "map_ok (cl_map (sl_layer office_layer))" "cm_size_x (cl_map (sl_layer office_layer)) = og_width office_grid"
    "cm_size_y (cl_map (sl_layer office_layer)) = og_height office_grid" "og_width office_grid * og_height office_grid \<le> length (og_data office_grid)"
    by (simp_all add: office_layer_def office_grid_def map_ok_def strip_def)
  from static_layer_stores_map [OF this] obtain l' where l': "static_store_map office_grid office_layer = Some l'"
    "\<And>x y. x < og_width office_grid \<and> y < og_height office_grid \<Longrightarrow>
        cost_at (cl_map (sl_layer l')) x y = grid_cost office_layer (word_of_int (og_data office_grid ! (y * og_width office_grid + x)))"
    by blast
  from l'(1) l'(2) [of 0 0] l'(2) [of 1 0] show ?thesis
    by (simp add: office_grid_def grid_cost_def office_layer_def)
qed

end
