(* ===== verification/LayeredMap.thy ===== *)
theory LayeredMap
  imports StaticLayer ObstacleLayer InflationLayer
begin

text \<open>
  The layered cost map of \<open>layered_costmap.h\<close> and \<open>layered_costmap.cpp\<close>: the master grid and its
  layers, which are asked for bounds and then write their costs, one after the other; and the
  calls that reach the other layers, such as the arrival of a map in the static layer.

  The virtual methods of \<open>Layer\<close> are functions of a datatype with the three kinds of layers.
\<close>

datatype layer = Static static_layer | Obstacle obstacle_layer | Inflation inflation

record layered_map =
  lm_map :: costmap
  lm_global_frame :: string
  lm_rolling :: bool
  lm_size_locked :: bool
  lm_initialized :: bool
  lm_current :: bool
  lm_bounds :: bounds
  lm_inscribed :: real
  lm_circumscribed :: real
  lm_footprint :: "point list"
  lm_window :: "int \<times> int \<times> int \<times> int"
  lm_plugins :: "layer list"

text \<open>What the code reads from outside: the contents of new arrays, the system clock, the clock of the
  node and the transform to the frame of the static map.\<close>

record surroundings =
  new_costs :: "nat \<Rightarrow> u8"
  new_flags :: "nat \<Rightarrow> bool"
  system_time :: int
  node_time :: int
  transform :: "real \<Rightarrow> real \<Rightarrow> (real \<times> real) option"

subsection \<open>The methods of the layers\<close>

definition layer_match_size :: "surroundings \<Rightarrow> costmap \<Rightarrow> bool \<Rightarrow> layer \<Rightarrow> layer option" where
  "layer_match_size s master rolling p =
     (case p of Static l \<Rightarrow> map_option Static (static_match_size (new_costs s) master rolling l)
      | Obstacle l \<Rightarrow> do { layer \<leftarrow> match_size (new_costs s) master (ol_layer l); Some (Obstacle (l\<lparr>ol_layer := layer\<rparr>)) }
      | Inflation l \<Rightarrow> map_option Inflation (inflation_match_size (new_flags s) master l))"

definition layer_is_current :: "layer \<Rightarrow> bool" where
  "layer_is_current p = (case p of Static l \<Rightarrow> cl_current (sl_layer l)
      | Obstacle l \<Rightarrow> cl_current (ol_layer l) | Inflation l \<Rightarrow> il_current l)"

definition layer_footprint_changed :: "costmap \<Rightarrow> real \<Rightarrow> layer \<Rightarrow> layer option" where
  "layer_footprint_changed master inscribed p =
     (case p of Inflation l \<Rightarrow> map_option Inflation (on_footprint_changed master inscribed l) | _ \<Rightarrow> Some p)"

definition layer_update_bounds ::
  "surroundings \<Rightarrow> bool \<Rightarrow> point list \<Rightarrow> real \<Rightarrow> real \<Rightarrow> real \<Rightarrow> bounds \<Rightarrow> layer \<Rightarrow> (bounds \<times> layer) option" where
  "layer_update_bounds s rolling footprint rx ry yaw b p =
     (case p of Static l \<Rightarrow> Some (apsnd Static (static_update_bounds rolling b l))
      | Obstacle l \<Rightarrow> map_option (apsnd Obstacle)
          (obstacle_update_bounds (new_costs s) (system_time s) (node_time s) footprint rx ry yaw b l)
      | Inflation l \<Rightarrow> Some (apsnd Inflation (inflation_update_bounds b l)))"

definition layer_update_costs ::
  "surroundings \<Rightarrow> bool \<Rightarrow> int \<Rightarrow> int \<Rightarrow> int \<Rightarrow> int \<Rightarrow> costmap \<Rightarrow> layer \<Rightarrow> (costmap \<times> layer) option" where
  "layer_update_costs s rolling x0 y0 xn yn master p =
     (case p of Static l \<Rightarrow> do { m \<leftarrow> static_update_costs (transform s) rolling x0 y0 xn yn l master; Some (m, Static l) }
      | Obstacle l \<Rightarrow> map_option (apsnd Obstacle) (obstacle_update_costs x0 y0 xn yn master l)
      | Inflation l \<Rightarrow> map_option (apsnd Inflation) (inflation_update_costs (new_flags s) x0 y0 xn yn master l))"

subsection \<open>The layered map\<close>

definition layered_map_new :: "costmap \<Rightarrow> string \<Rightarrow> bool \<Rightarrow> bool \<Rightarrow> layered_map \<Rightarrow> layered_map" where
  "layered_map_new m global_frame rolling_window track_unknown uninitialised =
     uninitialised\<lparr>lm_map := m\<lparr>cm_default := (if track_unknown then 255 else 0)\<rparr>, lm_global_frame := global_frame,
       lm_rolling := rolling_window, lm_initialized := False, lm_size_locked := False, lm_plugins := []\<rparr>"

definition add_plugin :: "layer \<Rightarrow> layered_map \<Rightarrow> layered_map" where
  "add_plugin p L = L\<lparr>lm_plugins := lm_plugins L @ [p]\<rparr>"

definition layered_is_current :: "layered_map \<Rightarrow> bool \<times> layered_map" where
  "layered_is_current L = (let c = list_all layer_is_current (lm_plugins L) in (c, L\<lparr>lm_current := c\<rparr>))"

definition layered_resize_map ::
  "surroundings \<Rightarrow> nat \<Rightarrow> nat \<Rightarrow> real \<Rightarrow> real \<Rightarrow> real \<Rightarrow> bool \<Rightarrow> layered_map \<Rightarrow> layered_map option" where
  "layered_resize_map s size_x size_y resolution origin_x origin_y size_locked L = do {
     m \<leftarrow> resize_map (new_costs s) size_x size_y resolution origin_x origin_y (lm_map L);
     ps \<leftarrow> those (map (layer_match_size s m (lm_rolling L)) (lm_plugins L));
     Some (L\<lparr>lm_size_locked := size_locked, lm_map := m, lm_plugins := ps\<rparr>) }"

definition set_footprint :: "point list \<Rightarrow> layered_map \<Rightarrow> layered_map option" where
  "set_footprint footprint_spec L = do {
     let (inscribed, circumscribed) = calculate_min_and_max_distances footprint_spec;
     ps \<leftarrow> those (map (layer_footprint_changed (lm_map L) inscribed) (lm_plugins L));
     Some (L\<lparr>lm_footprint := footprint_spec, lm_inscribed := inscribed, lm_circumscribed := circumscribed, lm_plugins := ps\<rparr>) }"

primrec update_bounds_all ::
  "surroundings \<Rightarrow> bool \<Rightarrow> point list \<Rightarrow> real \<Rightarrow> real \<Rightarrow> real \<Rightarrow> bounds \<Rightarrow> layer list \<Rightarrow> (bounds \<times> layer list) option" where
  "update_bounds_all s rolling footprint rx ry yaw b [] = Some (b, [])"
| "update_bounds_all s rolling footprint rx ry yaw b (p # ps) = do {
     (b1, p') \<leftarrow> layer_update_bounds s rolling footprint rx ry yaw b p;
     (b2, ps') \<leftarrow> update_bounds_all s rolling footprint rx ry yaw b1 ps;
     Some (b2, p' # ps') }"

primrec update_costs_all ::
  "surroundings \<Rightarrow> bool \<Rightarrow> int \<Rightarrow> int \<Rightarrow> int \<Rightarrow> int \<Rightarrow> costmap \<Rightarrow> layer list \<Rightarrow> (costmap \<times> layer list) option" where
  "update_costs_all s rolling x0 y0 xn yn master [] = Some (master, [])"
| "update_costs_all s rolling x0 y0 xn yn master (p # ps) = do {
     (m1, p') \<leftarrow> layer_update_costs s rolling x0 y0 xn yn master p;
     (m2, ps') \<leftarrow> update_costs_all s rolling x0 y0 xn yn m1 ps;
     Some (m2, p' # ps') }"

text \<open>The window of cells \<open>(x0, y0, xn, yn)\<close> that the bounds cover.\<close>

definition update_window :: "costmap \<Rightarrow> bounds \<Rightarrow> (int \<times> int \<times> int \<times> int) option" where
  "update_window m b = do {
     (x0, y0) \<leftarrow> world_to_map_with_boundary m (min_x b) (min_y b);
     (xn, yn) \<leftarrow> world_to_map_with_boundary m (max_x b) (max_y b);
     xn1 \<leftarrow> int_result (xn + 1);
     yn1 \<leftarrow> int_result (yn + 1);
     Some (max 0 x0, max 0 y0, min (wrap_int (int (cm_size_x m))) xn1, min (wrap_int (int (cm_size_y m))) yn1) }"

definition empty_bounds :: bounds where
  "empty_bounds = \<lparr>min_x = 10 ^ 30, min_y = 10 ^ 30, max_x = - (10 ^ 30), max_y = - (10 ^ 30)\<rparr>"

definition update_map :: "surroundings \<Rightarrow> real \<Rightarrow> real \<Rightarrow> real \<Rightarrow> layered_map \<Rightarrow> layered_map option" where
  "update_map s rx ry yaw L = do {
     m0 \<leftarrow> if lm_rolling L
       then update_origin (new_costs s) (rx - size_x_world (lm_map L) / 2) (ry - size_y_world (lm_map L) / 2) (lm_map L)
       else Some (lm_map L);
     let L0 = L\<lparr>lm_map := m0\<rparr>;
     if lm_plugins L = [] then Some L0
     else do {
       (b, ps) \<leftarrow> update_bounds_all s (lm_rolling L) (lm_footprint L) rx ry yaw empty_bounds (lm_plugins L);
       let L1 = L0\<lparr>lm_bounds := b, lm_plugins := ps\<rparr>;
       (x0, y0, xn, yn) \<leftarrow> update_window m0 b;
       if xn < x0 \<or> yn < y0 then Some L1
       else do {
         m1 \<leftarrow> reset_part_map (to_unsigned x0) (to_unsigned y0) (to_unsigned xn) (to_unsigned yn) m0;
         (m2, ps') \<leftarrow> update_costs_all s (lm_rolling L) x0 y0 xn yn m1 ps;
         Some (L1\<lparr>lm_map := m2, lm_plugins := ps', lm_window := (x0, y0, xn, yn), lm_initialized := True\<rparr>) } } }"

subsection \<open>A map arrives\<close>

text \<open>\<open>InComingMap\<close> of the static layer that is plugin \<open>i\<close>.\<close>

definition static_plugin :: "nat \<Rightarrow> layered_map \<Rightarrow> static_layer option" where
  "static_plugin i L = do { p \<leftarrow> at_opt (lm_plugins L) i; case p of Static l \<Rightarrow> Some l | _ \<Rightarrow> None }"

definition set_static_plugin :: "nat \<Rightarrow> static_layer \<Rightarrow> layered_map \<Rightarrow> layered_map" where
  "set_static_plugin i l L = L\<lparr>lm_plugins := (lm_plugins L)[i := Static l]\<rparr>"

definition map_differs :: "costmap \<Rightarrow> occupancy_grid \<Rightarrow> bool" where
  "map_differs m g \<longleftrightarrow> cm_size_x m \<noteq> og_width g \<or> cm_size_y m \<noteq> og_height g \<or> cm_resolution m \<noteq> og_resolution g
     \<or> cm_origin_x m \<noteq> og_origin_x g \<or> cm_origin_y m \<noteq> og_origin_y g"

definition incoming_map :: "surroundings \<Rightarrow> occupancy_grid \<Rightarrow> nat \<Rightarrow> layered_map \<Rightarrow> layered_map option" where
  "incoming_map s g i L = do {
     l \<leftarrow> static_plugin i L;
     L1 \<leftarrow> if \<not> lm_rolling L \<and> (map_differs (lm_map L) g \<or> \<not> lm_size_locked L)
       then layered_resize_map s (og_width g) (og_height g) (og_resolution g) (og_origin_x g) (og_origin_y g) True L
       else if map_differs (cl_map (sl_layer l)) g then do {
         m \<leftarrow> resize_map (new_costs s) (og_width g) (og_height g) (og_resolution g) (og_origin_x g) (og_origin_y g) (cl_map (sl_layer l));
         Some (set_static_plugin i (l\<lparr>sl_layer := (sl_layer l)\<lparr>cl_map := m\<rparr>\<rparr>) L) }
       else Some L;
     l1 \<leftarrow> static_plugin i L1;
     l2 \<leftarrow> static_store_map g l1;
     Some (set_static_plugin i l2 L1) }"

text \<open>\<open>OnInitialize\<close>: the layer waits until a map has arrived (or the node stops).\<close>

definition static_initialize :: "surroundings \<Rightarrow> static_config \<Rightarrow> occupancy_grid option \<Rightarrow> nat \<Rightarrow> layered_map \<Rightarrow> layered_map option" where
  "static_initialize s cfg arrived i L = do {
     l \<leftarrow> static_plugin i L;
     let L1 = set_static_plugin i (static_configure cfg l) L;
     L2 \<leftarrow> (case arrived of None \<Rightarrow> Some L1 | Some g \<Rightarrow> incoming_map s g i L1);
     l2 \<leftarrow> static_plugin i L2;
     Some (set_static_plugin i (static_started l2) L2) }"

definition static_reset :: "surroundings \<Rightarrow> static_config \<Rightarrow> occupancy_grid option \<Rightarrow> nat \<Rightarrow> layered_map \<Rightarrow> layered_map option" where
  "static_reset s cfg arrived i L = do {
     l \<leftarrow> static_plugin i L;
     if sl_first_map_only l then Some (set_static_plugin i (l\<lparr>sl_updated := True\<rparr>) L)
     else static_initialize s cfg arrived i L }"

subsection \<open>Clearing the window\<close>

lemma reset_rows_ok:
  assumes "map_ok m" "0 < cm_size_x m" "x0 + len \<le> cm_size_x m" "y + n \<le> cm_size_y m"
  shows "\<exists>m'. reset_rows (y * cm_size_x m + x0) ((y + n) * cm_size_x m + x0) len m = Some m' \<and> map_ok m'
    \<and> m' = m\<lparr>cm_cells := cm_cells m'\<rparr>
    \<and> (\<forall>i j. in_map m i j \<longrightarrow> cost_at m' i j =
        (if x0 \<le> i \<and> i < x0 + len \<and> y \<le> j \<and> j < y + n then cm_default m else cost_at m i j))"
  using assms
proof (induction n arbitrary: y m)
  case 0
  show ?case by (rule exI [of _ m]) (use 0 in \<open>auto simp: reset_rows.simps\<close>)
next
  case (Suc n)
  let ?w = "cm_size_x m" and ?h = "cm_size_y m"
  obtain cells where cells: "cm_cells m = Some cells" "length cells = ?w * ?h" and small: "?w * ?h < 2 ^ 31"
    using Suc.prems(1) unfolding map_ok_def by (elim conjE exE)
  have fits: "y * ?w + x0 + len \<le> length cells"
  proof -
    have "y * ?w + x0 + len \<le> Suc y * ?w" using Suc.prems(3) by simp
    also have "\<dots> \<le> ?h * ?w" using Suc.prems(4) by (intro mult_le_mono1) simp
    finally show ?thesis by (simp add: cells(2) mult.commute)
  qed
  define m1 where "m1 = m\<lparr>cm_cells := Some (splice cells (y * ?w + x0) (replicate len (cm_default m)))\<rparr>"
  have written: "write_cells (y * ?w + x0) (replicate len (cm_default m)) m = Some m1"
    using cells(1) fits by (simp add: write_cells_def mem_write_def m1_def)
  have ok1: "map_ok m1" using Suc.prems(1) cells(2) fits by (simp add: map_ok_def m1_def)
  have cost1: "cost_at m1 i j = (if x0 \<le> i \<and> i < x0 + len \<and> j = y then cm_default m else cost_at m i j)"
    if ij: "in_map m i j" for i j
  proof -
    have idx: "j * ?w + i < length cells" using ij cells(2) grid_index_less by (simp add: in_map_def)
    have "y * ?w + x0 \<le> j * ?w + i \<and> j * ?w + i < y * ?w + x0 + len \<longleftrightarrow> x0 \<le> i \<and> i < x0 + len \<and> j = y"
    proof
      assume *: "y * ?w + x0 \<le> j * ?w + i \<and> j * ?w + i < y * ?w + x0 + len"
      have "(y * ?w + (j * ?w + i - y * ?w)) div ?w = y + (j * ?w + i - y * ?w) div ?w" using Suc.prems(2) by simp
      moreover have "y * ?w + (j * ?w + i - y * ?w) = j * ?w + i" using * by simp
      moreover have "(j * ?w + i - y * ?w) div ?w = 0"
        by (rule div_less) (use * Suc.prems(3) in linarith)
      moreover have "(j * ?w + i) div ?w = j" using ij by (simp add: in_map_def)
      ultimately have "j = y" by simp
      then show "x0 \<le> i \<and> i < x0 + len \<and> j = y" using * by simp
    qed simp
    moreover have "splice cells (y * ?w + x0) (replicate len (cm_default m)) ! (j * ?w + i) =
        (if j * ?w + i < y * ?w + x0 then cells ! (j * ?w + i) else if j * ?w + i < y * ?w + x0 + len
         then replicate len (cm_default m) ! (j * ?w + i - (y * ?w + x0)) else cells ! (j * ?w + i))"
      using nth_splice [of "y * ?w + x0" "replicate len (cm_default m)" cells "j * ?w + i"] fits idx by simp
    ultimately show ?thesis using cells(1) by (auto simp: cost_at_def m1_def)
  qed
  have wrap: "wrap32 (y * ?w + x0 + ?w) = Suc y * ?w + x0"
  proof -
    have "Suc y * ?w \<le> ?h * ?w" using Suc.prems(4) by (intro mult_le_mono1) simp
    moreover have "1 * x0 \<le> ?h * ?w" using Suc.prems(3,4) by (intro mult_le_mono) simp_all
    ultimately have "Suc y * ?w + x0 < 2 ^ 32" using small by (simp add: mult.commute)
    then show ?thesis by (simp add: ac_simps)
  qed
  have less: "y * ?w + x0 < (y + Suc n) * ?w + x0" using Suc.prems(2) by (simp add: algebra_simps)
  have m1s: "cm_size_x m1 = ?w" "cm_size_y m1 = ?h" "cm_default m1 = cm_default m" by (simp_all add: m1_def)
  obtain m' where m': "reset_rows (Suc y * ?w + x0) ((Suc y + n) * ?w + x0) len m1 = Some m'" "map_ok m'"
    "m' = m1\<lparr>cm_cells := cm_cells m'\<rparr>"
    "\<forall>i j. in_map m1 i j \<longrightarrow> cost_at m' i j =
        (if x0 \<le> i \<and> i < x0 + len \<and> Suc y \<le> j \<and> j < Suc y + n then cm_default m1 else cost_at m1 i j)"
    using Suc.IH [OF ok1, of "Suc y"] Suc.prems(2-4) unfolding m1s by auto
  have "reset_rows (y * ?w + x0) ((y + Suc n) * ?w + x0) len m = Some m'"
    using m'(1) less by (subst reset_rows.simps) (simp add: written wrap m1s del: mult_Suc)
  moreover have "m' = m\<lparr>cm_cells := cm_cells m'\<rparr>" using m'(3) by (simp add: m1_def)
  moreover have "cost_at m' i j = (if x0 \<le> i \<and> i < x0 + len \<and> y \<le> j \<and> j < y + Suc n then cm_default m else cost_at m i j)"
    if "in_map m i j" for i j
    using m'(4) cost1 [OF that] that by (auto simp: m1_def)
  ultimately show ?case using m'(2) by blast
qed

lemma reset_part_map_ok:
  assumes "map_ok m" "cm_size_x m < 2 ^ 31" "cm_size_y m < 2 ^ 31" "x0 \<le> xn" "xn \<le> cm_size_x m" "y0 \<le> yn" "yn \<le> cm_size_y m"
  shows "\<exists>m'. reset_part_map x0 y0 xn yn m = Some m' \<and> map_ok m' \<and> m' = m\<lparr>cm_cells := cm_cells m'\<rparr>
    \<and> (\<forall>i j. in_map m i j \<longrightarrow> cost_at m' i j =
        (if x0 \<le> i \<and> i < xn \<and> y0 \<le> j \<and> j < yn then cm_default m else cost_at m i j))"
proof (cases "cm_size_x m = 0")
  case True
  then have "reset_part_map x0 y0 xn yn m = Some m"
    using assms(4,5) by (simp add: reset_part_map_def) (simp add: reset_rows.simps wrap32_def)
  then show ?thesis using True assms(1) by (auto simp: in_map_def)
next
  case False
  let ?w = "cm_size_x m" and ?h = "cm_size_y m"
  have small: "?w * ?h < 2 ^ 31" using assms(1) by (simp add: map_ok_def)
  have row: "wrap32 (wrap32 (r * ?w) + x0) = r * ?w + x0" if "r \<le> ?h" for r
  proof -
    have "r * ?w \<le> ?h * ?w" using that by (rule mult_le_mono1)
    then have "r * ?w < 2 ^ 31" using small unfolding mult.commute [of ?h] by (rule le_less_trans)
    then show ?thesis using assms(2,4,5) by simp
  qed
  have "wrap32 (wrap32 (y0 * ?w) + x0) = y0 * ?w + x0" "wrap32 (wrap32 (yn * ?w) + x0) = yn * ?w + x0"
    using assms(6,7) by (auto intro!: row)
  moreover have "sub32 xn x0 = xn - x0" using assms(2,4,5) by (simp add: sub32_le)
  ultimately show ?thesis
    using reset_rows_ok [OF assms(1), of x0 "xn - x0" y0 "yn - y0"] False assms(4-7) by (simp add: reset_part_map_def)
qed

subsection \<open>The layers write their costs\<close>

text \<open>How a layer with a map of its own changes a cell of the window.\<close>

definition layer_merge :: "layer \<Rightarrow> nat \<Rightarrow> nat \<Rightarrow> u8 \<Rightarrow> u8" where
  "layer_merge p x y old =
     (case p of
        Static l \<Rightarrow> let c = cost_at (cl_map (sl_layer l)) x y in
          if \<not> sl_map_received l then old
          else if sl_use_maximum l then if cl_enabled (sl_layer l) then merge_max c old else old
          else if cl_current (sl_layer l) then c else old
      | Obstacle l \<Rightarrow> if cl_enabled (ol_layer l) then merge_max (cost_at (cl_map (ol_layer l)) x y) old else old
      | Inflation l \<Rightarrow> old)"

definition merging_layer :: "costmap \<Rightarrow> layer \<Rightarrow> bool" where
  "merging_layer master p = (case p of
     Static l \<Rightarrow> layer_fits (sl_layer l) master
   | Obstacle l \<Rightarrow> layer_fits (ol_layer l) master \<and> \<not> ol_footprint_clearing l
   | Inflation l \<Rightarrow> False)"

lemma merging_layer_same:
  "cm_size_x m' = cm_size_x m \<Longrightarrow> cm_size_y m' = cm_size_y m \<Longrightarrow> merging_layer m' p = merging_layer m p"
  by (cases p) (simp_all add: merging_layer_def layer_fits_def)

definition merged_by :: "(nat \<Rightarrow> nat \<Rightarrow> u8 \<Rightarrow> u8) \<Rightarrow> int \<Rightarrow> int \<Rightarrow> int \<Rightarrow> int \<Rightarrow> costmap \<Rightarrow> costmap \<Rightarrow> bool" where
  "merged_by f x0 y0 xn yn m m' \<longleftrightarrow> map_ok m' \<and> m' = m\<lparr>cm_cells := cm_cells m'\<rparr>
     \<and> (\<forall>x y. in_map m x y \<longrightarrow> cost_at m' x y =
          (if x0 \<le> int x \<and> int x < xn \<and> y0 \<le> int y \<and> int y < yn then f x y (cost_at m x y) else cost_at m x y))"

lemma merged_byD:
  assumes "merged_by f x0 y0 xn yn m m'"
  shows "map_ok m'" "m' = m\<lparr>cm_cells := cm_cells m'\<rparr>" "in_map m' = in_map m" "cm_size_x m' = cm_size_x m" "cm_size_y m' = cm_size_y m"
proof -
  show same: "m' = m\<lparr>cm_cells := cm_cells m'\<rparr>" and "map_ok m'" using assms by (simp_all add: merged_by_def)
  show "in_map m' = in_map m" "cm_size_x m' = cm_size_x m" "cm_size_y m' = cm_size_y m" by (subst same, simp)+
qed

lemma merged_by_refl: "map_ok m \<Longrightarrow> merged_by (\<lambda>x y c. c) x0 y0 xn yn m m"
  by (simp add: merged_by_def)

lemma merged_by_trans:
  assumes "merged_by f x0 y0 xn yn a b" "merged_by g x0 y0 xn yn b c"
  shows "merged_by (\<lambda>x y old. g x y (f x y old)) x0 y0 xn yn a c"
  unfolding merged_by_def
proof (intro conjI allI impI)
  show "map_ok c" by (rule merged_byD [OF assms(2)])
  have "c = (a\<lparr>cm_cells := cm_cells b\<rparr>)\<lparr>cm_cells := cm_cells c\<rparr>" using merged_byD(2) [OF assms(1)] merged_byD(2) [OF assms(2)] by simp
  then show "c = a\<lparr>cm_cells := cm_cells c\<rparr>" by simp
  fix x y assume "in_map a x y"
  then show "cost_at c x y = (if x0 \<le> int x \<and> int x < xn \<and> y0 \<le> int y \<and> int y < yn
      then g x y (f x y (cost_at a x y)) else cost_at a x y)"
    using assms merged_byD(3) [OF assms(1)] unfolding merged_by_def by auto
qed

lemma window_merged_by:
  "window_merged f l x0 y0 xn yn m m' \<Longrightarrow> merged_by (\<lambda>x y. f (cost_at (cl_map l) x y)) x0 y0 xn yn m m'"
  by (simp add: window_merged_def merged_by_def)

lemma if_partial: "If True = (\<lambda>a b. a)" "If False = (\<lambda>a b. b)"
  by (simp_all add: fun_eq_iff)

lemma layer_update_costs_merges:
  assumes "map_ok m" "merging_layer m p" "window_ok m x0 y0 xn yn"
  shows "\<exists>m' p'. layer_update_costs s False x0 y0 xn yn m p = Some (m', p') \<and> merged_by (layer_merge p) x0 y0 xn yn m m'"
proof (cases p)
  case (Static l)
  then have fits: "layer_fits (sl_layer l) m" using assms(2) by (simp add: merging_layer_def)
  show ?thesis
    using overwrite_merges_by(1,2) [OF assms(1) fits assms(3)] merged_by_refl [OF assms(1)]
    by (auto simp: Static layer_update_costs_def static_update_costs_def update_overwrite_by_all_def update_overwrite_by_max_def
        layer_merge_def [abs_def] if_partial dest!: window_merged_by)
next
  case (Obstacle l)
  then have fits: "layer_fits (ol_layer l) m" "\<not> ol_footprint_clearing l" using assms(2) by (simp_all add: merging_layer_def)
  show ?thesis
    using overwrite_merges_by(1) [OF assms(1) fits(1) assms(3)] fits(2) merged_by_refl [OF assms(1)]
    by (auto simp: Obstacle layer_update_costs_def obstacle_update_costs_def update_overwrite_by_max_def Let_def
        layer_merge_def [abs_def] if_partial dest!: window_merged_by)
qed (use assms(2) in \<open>simp add: merging_layer_def\<close>)

primrec merge_layers :: "layer list \<Rightarrow> nat \<Rightarrow> nat \<Rightarrow> u8 \<Rightarrow> u8" where
  "merge_layers [] x y c = c"
| "merge_layers (p # ps) x y c = merge_layers ps x y (layer_merge p x y c)"

lemma update_costs_all_merges:
  assumes "map_ok m" "\<forall>p \<in> set ps. merging_layer m p" "window_ok m x0 y0 xn yn"
  shows "\<exists>m' ps'. update_costs_all s False x0 y0 xn yn m ps = Some (m', ps') \<and> merged_by (merge_layers ps) x0 y0 xn yn m m'"
  using assms
proof (induction ps arbitrary: m)
  case Nil
  then show ?case using merged_by_refl [OF Nil.prems(1)] by (simp add: merged_by_def)
next
  case (Cons p ps)
  obtain m1 p' where m1: "layer_update_costs s False x0 y0 xn yn m p = Some (m1, p')" "merged_by (layer_merge p) x0 y0 xn yn m m1"
    using layer_update_costs_merges [OF Cons.prems(1) _ Cons.prems(3), of p s] Cons.prems(2) by auto
  note same = merged_byD [OF m1(2)]
  have "\<forall>p \<in> set ps. merging_layer m1 p" "window_ok m1 x0 y0 xn yn"
    using Cons.prems(2,3) by (simp_all add: merging_layer_same [OF same(4,5)] window_ok_same [OF same(4,5)])
  then obtain m2 ps' where m2: "update_costs_all s False x0 y0 xn yn m1 ps = Some (m2, ps')"
    "merged_by (merge_layers ps) x0 y0 xn yn m1 m2"
    using Cons.IH [OF same(1)] by auto
  have "merged_by (merge_layers (p # ps)) x0 y0 xn yn m m2"
    using merged_by_trans [OF m1(2) m2(2)] by (simp add: merged_by_def)
  moreover have "update_costs_all s False x0 y0 xn yn m (p # ps) = Some (m2, p' # ps')" using m1(1) m2(1) by simp
  ultimately show ?case by blast
qed

subsection \<open>The window\<close>

lemma to_cell_mono:
  assumes "0 < cm_resolution m" "d \<le> d'" "to_cell m d = Some c" "to_cell m d' = Some c'"
  shows "c \<le> c'"
proof -
  have "d / cm_resolution m \<le> d' / cm_resolution m" using assms(1,2) by (simp add: divide_right_mono)
  moreover have "c = trunc_real (d / cm_resolution m)" "c' = trunc_real (d' / cm_resolution m)"
    using assms by (auto simp: to_cell_def quotient_def to_int_def split: if_splits)
  ultimately show ?thesis
    by (auto simp: trunc_real_def floor_mono ceiling_mono intro: order_trans [of _ 0])
qed

lemma bounded_cell_range:
  assumes "0 < cm_resolution m" "0 < n" "n < 2 ^ 31" "bounded_cell m origin n w = Some c"
  shows "0 \<le> c \<and> c \<le> int n"
proof -
  consider "w < origin" | "origin \<le> w" "w > cm_resolution m * real n + origin" | "origin \<le> w" "w \<le> cm_resolution m * real n + origin"
    by linarith
  then show ?thesis
  proof cases
    case 2
    then have "c = int (sub32 n 1)" using assms(4) by (simp add: bounded_cell_def)
    moreover have "sub32 n 1 = n - 1" using assms(2,3) by (simp add: sub32_le del: One_nat_def)
    ultimately show ?thesis using assms(2) by simp
  next
    case 3
    then have c: "to_cell m (w - origin) = Some c" using assms(4) by (simp add: bounded_cell_def)
    have q: "0 \<le> (w - origin) / cm_resolution m" "(w - origin) / cm_resolution m \<le> real n"
      using 3 assms(1) by (simp_all add: divide_le_eq mult.commute)
    then have "c = \<lfloor>(w - origin) / cm_resolution m\<rfloor>"
      using c assms(1) to_int_nonneg [OF q(1)] by (simp add: to_cell_def quotient_def split: if_splits)
    then show ?thesis using q by (simp add: floor_le_iff le_floor_iff)
  qed (use assms(4) in \<open>simp add: bounded_cell_def\<close>)
qed

text \<open>A cell of the map is on the right side of the bounded cell of a coordinate below or above it.\<close>

lemma bounded_cell_sides:
  assumes m: "0 < cm_resolution m" "0 < n" "n < 2 ^ 31" and c: "bounded_cell m origin n b = Some c"
    and w: "to_cell m (w - origin) = Some (int k)" "k < n" "w < origin + real n * cm_resolution m"
  shows "b \<le> w \<Longrightarrow> c \<le> int k" "w \<le> b \<Longrightarrow> int k \<le> c"
proof -
  have sub: "sub32 n 1 = n - 1" using m(2,3) by (simp add: sub32_le del: One_nat_def)
  show "c \<le> int k" if "b \<le> w"
    using c that w to_cell_mono [OF m(1), of "b - origin" "w - origin" c "int k"]
    by (auto simp: bounded_cell_def mult.commute split: if_splits)
  show "int k \<le> c" if "w \<le> b"
  proof (cases "b < origin")
    case True
    then have "w - origin \<le> 0" using that by simp
    moreover have "to_cell m 0 = Some 0" using m(1) by (simp add: to_cell_def quotient_def to_int_def trunc_real_def)
    ultimately have "int k \<le> 0" using to_cell_mono [OF m(1), of "w - origin" 0 "int k" 0] w(1) by simp
    then show ?thesis using c True by (simp add: bounded_cell_def)
  next
    case False
    then show ?thesis
      using c that w to_cell_mono [OF m(1), of "w - origin" "b - origin" "int k" c] sub
      by (auto simp: bounded_cell_def split: if_splits)
  qed
qed

definition in_window :: "nat \<Rightarrow> nat \<Rightarrow> int \<times> int \<times> int \<times> int \<Rightarrow> bool" where
  "in_window x y w = (case w of (x0, y0, xn, yn) \<Rightarrow> x0 \<le> int x \<and> int x < xn \<and> y0 \<le> int y \<and> int y < yn)"

lemma update_window_ok:
  assumes m: "map_ok m" "0 < cm_size_x m" "0 < cm_size_y m" "cm_size_x m < 2 ^ 31" "cm_size_y m < 2 ^ 31"
    and u: "update_window m b = Some (x0, y0, xn, yn)"
  shows "window_ok m x0 y0 xn yn"
    and "world_to_map m wx wy = Some (Some (x, y)) \<Longrightarrow> min_x b \<le> wx \<Longrightarrow> wx \<le> max_x b \<Longrightarrow> min_y b \<le> wy \<Longrightarrow> wy \<le> max_y b
      \<Longrightarrow> in_window x y (x0, y0, xn, yn)"
proof -
  have res: "0 < cm_resolution m" using m(1) by (simp add: map_ok_def)
  have sizes: "wrap_int (int (cm_size_x m)) = int (cm_size_x m)" "wrap_int (int (cm_size_y m)) = int (cm_size_y m)"
    using m(4,5) by simp_all
  obtain a0 b0 an bn where
    c: "bounded_cell m (cm_origin_x m) (cm_size_x m) (min_x b) = Some a0" "bounded_cell m (cm_origin_y m) (cm_size_y m) (min_y b) = Some b0"
      "bounded_cell m (cm_origin_x m) (cm_size_x m) (max_x b) = Some an" "bounded_cell m (cm_origin_y m) (cm_size_y m) (max_y b) = Some bn"
    and w: "x0 = max 0 a0" "y0 = max 0 b0" "xn = min (int (cm_size_x m)) (an + 1)" "yn = min (int (cm_size_y m)) (bn + 1)"
    using u unfolding update_window_def sizes
    by (auto simp: world_to_map_with_boundary_def bind_eq_Some_conv int_result_def split: if_splits)
  show "window_ok m x0 y0 xn yn" by (simp add: window_ok_def w)
  assume p: "world_to_map m wx wy = Some (Some (x, y))" "min_x b \<le> wx" "wx \<le> max_x b" "min_y b \<le> wy" "wy \<le> max_y b"
  obtain cx cy where cells: "0 \<le> wx - cm_origin_x m" "0 \<le> wy - cm_origin_y m"
    "to_cell m (wx - cm_origin_x m) = Some cx" "to_cell m (wy - cm_origin_y m) = Some cy"
    "in_map m x y" "to_unsigned cx = x" "to_unsigned cy = y" by (rule world_to_map_cases [OF p(1)])
  have "cx = int x" "cy = int y" using to_cell_nonneg(1) [OF res cells(1,3)] to_cell_nonneg(1) [OF res cells(2,4)] cells(6,7) by simp_all
  moreover note inside = world_to_map_inside [OF m(1) p(1)]
  ultimately have "a0 \<le> int x" "int x \<le> an" "b0 \<le> int y" "int y \<le> bn"
    using bounded_cell_sides(1) [OF res m(2,4) c(1)] bounded_cell_sides(2) [OF res m(2,4) c(3)]
      bounded_cell_sides(1) [OF res m(3,5) c(2)] bounded_cell_sides(2) [OF res m(3,5) c(4)] cells p(2-5)
    by (simp_all add: in_map_def)
  then show "in_window x y (x0, y0, xn, yn)" using cells(5) by (simp add: in_window_def w in_map_def)
qed


definition office_map :: layered_map where
  "office_map = \<lparr>lm_map = cl_map (strip True [7, 7]), lm_global_frame = ''map'', lm_rolling = False, lm_size_locked = True,
     lm_initialized = False, lm_current = False, lm_bounds = empty_bounds, lm_inscribed = 0, lm_circumscribed = 0,
     lm_footprint = [], lm_window = (0, 0, 0, 0),
     lm_plugins = [Static (office_layer\<lparr>sl_layer := strip True [254, 0], sl_map_received := True, sl_updated := True, sl_width := 2, sl_height := 1\<rparr>)]\<rparr>"


end
