(* ===== verification/BehaviorTree.thy ===== *)
theory BehaviorTree
  imports Prelude
begin

text \<open>
  The behavior tree of \<open>behavior_node.h\<close>: nodes that are run once per cycle and answer with a state.

  Nodes are shared pointers to each other (children, and the parent that a precondition looks at),
  so the tree is a store from addresses to nodes; a missing address is a null pointer. The actions
  and preconditions of an application are parameters that act on a world of any type (the
  blackboard and the robot); they do not touch the tree. The calls of virtual methods through
  child pointers are recursive calls with fuel, a bound on the depth of the tree.
\<close>

datatype behavior_state = RUNNING | SUCCESS | FAILURE | IDLE

datatype behavior_type = PARALLEL | SELECTOR | SEQUENCE | ACTION | PRECONDITION

datatype abort_type = ABORT_NONE | ABORT_SELF | ABORT_LOW_PRIORITY | ABORT_BOTH

subsection \<open>Nodes\<close>

text \<open>The fields of all classes of nodes; a node uses those of its class.\<close>

record node =
  bn_type :: behavior_type
  bn_state :: behavior_state
  bn_parent :: "nat option"
  bn_level :: nat
  bn_child :: "nat option"
  bn_abort :: abort_type
  bn_children :: "nat list"
  bn_index :: nat
  bn_reevaluation :: "bool list"
  bn_done :: "bool list"
  bn_success :: nat
  bn_failure :: nat
  bn_threshold :: nat

type_synonym nodes = "nat \<Rightarrow> node option"

definition base_node :: "behavior_type \<Rightarrow> node" where
  "base_node t = \<lparr>bn_type = t, bn_state = IDLE, bn_parent = None, bn_level = 0, bn_child = None, bn_abort = ABORT_NONE,
     bn_children = [], bn_index = 0, bn_reevaluation = [], bn_done = [], bn_success = 0, bn_failure = 0, bn_threshold = 0\<rparr>"

definition action_node :: node where "action_node = base_node ACTION"
definition precondition_node :: "abort_type \<Rightarrow> node" where "precondition_node a = (base_node PRECONDITION)\<lparr>bn_abort := a\<rparr>"
definition selector_node :: node where "selector_node = base_node SELECTOR"
definition sequence_node :: node where "sequence_node = base_node SEQUENCE"
definition parallel_node :: "nat \<Rightarrow> node" where "parallel_node threshold = (base_node PARALLEL)\<lparr>bn_threshold := threshold\<rparr>"

text \<open>An update of a node through its pointer; a null pointer is a fault.\<close>

definition set_node :: "nat \<Rightarrow> (node \<Rightarrow> node) \<Rightarrow> nodes \<Rightarrow> nodes option" where
  "set_node i f N = map_option (\<lambda>nd. N(i \<mapsto> f nd)) (N i)"

definition set_parent :: "nat option \<Rightarrow> nat \<Rightarrow> nodes \<Rightarrow> nodes option" where
  "set_parent p i N = set_node i (\<lambda>nd. nd\<lparr>bn_parent := p\<rparr>) N"

definition set_level :: "nat \<Rightarrow> nat \<Rightarrow> nodes \<Rightarrow> nodes option" where
  "set_level l i N = set_node i (\<lambda>nd. nd\<lparr>bn_level := l\<rparr>) N"

text \<open>\<open>SetChild\<close> of a decorator: the level it clears is that of the new child.\<close>

definition set_child :: "nat \<Rightarrow> nat option \<Rightarrow> nodes \<Rightarrow> nodes option" where
  "set_child i child N = do {
     nd \<leftarrow> N i;
     N1 \<leftarrow> (case bn_child nd of None \<Rightarrow> Some N
       | Some old \<Rightarrow> do { N' \<leftarrow> set_parent None old N; c \<leftarrow> child; set_level 0 c N' });
     N2 \<leftarrow> set_node i (\<lambda>nd. nd\<lparr>bn_child := child\<rparr>) N1;
     c \<leftarrow> child;
     N3 \<leftarrow> set_parent (Some i) c N2;
     nd3 \<leftarrow> N3 i;
     set_level (bn_level nd3) c N3 }"

definition aborts_lower :: "abort_type \<Rightarrow> bool" where
  "aborts_lower a \<longleftrightarrow> a = ABORT_LOW_PRIORITY \<or> a = ABORT_BOTH"

text \<open>\<open>AddChildren\<close> of a composite node, and the part a selector adds to it.\<close>

definition add_child :: "nat \<Rightarrow> nat \<Rightarrow> nodes \<Rightarrow> nodes option" where
  "add_child i c N = do {
     nd \<leftarrow> N i;
     N1 \<leftarrow> set_node i (\<lambda>nd. nd\<lparr>bn_children := bn_children nd @ [c]\<rparr>) N;
     N2 \<leftarrow> set_parent (Some i) c N1;
     set_level (wrap32 (bn_level nd + 1)) c N2 }"

definition add_reevaluation :: "nat \<Rightarrow> nat \<Rightarrow> nodes \<Rightarrow> nodes option" where
  "add_reevaluation i c N = do {
     cd \<leftarrow> N c;
     set_node i (\<lambda>nd. nd\<lparr>bn_reevaluation := bn_reevaluation nd @ [bn_type cd = PRECONDITION \<and> aborts_lower (bn_abort cd)]\<rparr>) N }"

definition selector_add_child :: "nat \<Rightarrow> nat \<Rightarrow> nodes \<Rightarrow> nodes option" where
  "selector_add_child i c N = do { N1 \<leftarrow> add_child i c N; add_reevaluation i c N1 }"

primrec add_children :: "nat \<Rightarrow> nat list \<Rightarrow> nodes \<Rightarrow> nodes option" where
  "add_children i [] N = Some N"
| "add_children i (c # cs) N = do { N1 \<leftarrow> add_child i c N; add_children i cs N1 }"

primrec add_reevaluations :: "nat \<Rightarrow> nat list \<Rightarrow> nodes \<Rightarrow> nodes option" where
  "add_reevaluations i [] N = Some N"
| "add_reevaluations i (c # cs) N = do { N1 \<leftarrow> add_reevaluation i c N; add_reevaluations i cs N1 }"

definition selector_add_children :: "nat \<Rightarrow> nat list \<Rightarrow> nodes \<Rightarrow> nodes option" where
  "selector_add_children i cs N = do { N1 \<leftarrow> add_children i cs N; add_reevaluations i cs N1 }"

subsection \<open>Running and resetting\<close>

text \<open>What an application puts into the tree. \<open>precondition i\<close> is \<open>None\<close> when no function was chosen.\<close>

record 'w behavior =
  action_initialize :: "nat \<Rightarrow> 'w \<Rightarrow> 'w"
  action_update :: "nat \<Rightarrow> 'w \<Rightarrow> behavior_state \<times> 'w"
  action_terminate :: "nat \<Rightarrow> behavior_state \<Rightarrow> 'w \<Rightarrow> 'w"
  precondition_function :: "nat \<Rightarrow> ('w \<Rightarrow> bool \<times> 'w) option"

type_synonym 'w tree_state = "nodes \<times> 'w"

definition update_field :: "nat \<Rightarrow> (node \<Rightarrow> node) \<Rightarrow> 'w tree_state \<Rightarrow> 'w tree_state option" where
  "update_field i f st = do { N \<leftarrow> set_node i f (fst st); Some (N, snd st) }"

primrec reset_each :: "(nat \<Rightarrow> 'w tree_state \<Rightarrow> 'w tree_state option) \<Rightarrow> nat list \<Rightarrow> 'w tree_state \<Rightarrow> 'w tree_state option" where
  "reset_each rst [] st = Some st"
| "reset_each rst (c # cs) st = do { st' \<leftarrow> rst c st; reset_each rst cs st' }"

text \<open>\<open>OnTerminate\<close> of the five classes; \<open>rst\<close> is \<open>Reset\<close> of a child. The definitions of a class are
  simplification rules: the lemmas are about the dispatch.\<close>

definition precondition_terminate where [simp]:
  "precondition_terminate rst nd s st = (if s = IDLE \<or> s = FAILURE then do { c \<leftarrow> bn_child nd; rst c st } else Some st)"

definition selector_terminate where [simp]:
  "selector_terminate rst nd s st = (if s = IDLE then do { c \<leftarrow> at_opt (bn_children nd) (bn_index nd); rst c st } else Some st)"

definition sequence_terminate where [simp]:
  "sequence_terminate rst nd s st = (if s = IDLE then do { c \<leftarrow> at_opt (bn_children nd) (bn_index nd); rst c st } else Some st)"

definition parallel_terminate where [simp]:
  "parallel_terminate rst nd s st = (if s = RUNNING then Some st else reset_each rst (bn_children nd) st)"

definition on_terminate ::
  "'w behavior \<Rightarrow> (nat \<Rightarrow> 'w tree_state \<Rightarrow> 'w tree_state option) \<Rightarrow> nat \<Rightarrow> behavior_state \<Rightarrow> 'w tree_state \<Rightarrow> 'w tree_state option" where
  "on_terminate B rst i s st = do {
     nd \<leftarrow> fst st i;
     case bn_type nd of
       ACTION \<Rightarrow> Some (fst st, action_terminate B i s (snd st))
     | PRECONDITION \<Rightarrow> precondition_terminate rst nd s st
     | SELECTOR \<Rightarrow> selector_terminate rst nd s st
     | SEQUENCE \<Rightarrow> sequence_terminate rst nd s st
     | PARALLEL \<Rightarrow> parallel_terminate rst nd s st }"

primrec reset_node :: "'w behavior \<Rightarrow> nat \<Rightarrow> nat \<Rightarrow> 'w tree_state \<Rightarrow> 'w tree_state option" where
  "reset_node B 0 i st = None"
| "reset_node B (Suc n) i st = do {
     nd \<leftarrow> fst st i;
     if bn_state nd = RUNNING then do {
       st1 \<leftarrow> update_field i (\<lambda>nd. nd\<lparr>bn_state := IDLE\<rparr>) st;
       on_terminate B (reset_node B n) i IDLE st1 }
     else Some st }"

definition selector_initialize where [simp]:
  "selector_initialize i st = update_field i (\<lambda>nd. nd\<lparr>bn_index := 0\<rparr>) st"

definition sequence_initialize where [simp]:
  "sequence_initialize i st = update_field i (\<lambda>nd. nd\<lparr>bn_index := 0\<rparr>) st"

definition parallel_initialize where [simp]:
  "parallel_initialize i nd st = update_field i (\<lambda>x. x\<lparr>bn_failure := 0, bn_success := 0,
     bn_done := replicate (length (bn_children nd)) False\<rparr>) st"

definition on_initialize :: "'w behavior \<Rightarrow> nat \<Rightarrow> 'w tree_state \<Rightarrow> 'w tree_state option" where
  "on_initialize B i st = do {
     nd \<leftarrow> fst st i;
     case bn_type nd of
       ACTION \<Rightarrow> Some (fst st, action_initialize B i (snd st))
     | PRECONDITION \<Rightarrow> Some st
     | SELECTOR \<Rightarrow> selector_initialize i st
     | SEQUENCE \<Rightarrow> sequence_initialize i st
     | PARALLEL \<Rightarrow> parallel_initialize i nd st }"

definition precondition :: "'w behavior \<Rightarrow> nat \<Rightarrow> 'w tree_state \<Rightarrow> bool \<times> 'w tree_state" where
  "precondition B i st = (case precondition_function B i of
       None \<Rightarrow> (False, st)
     | Some f \<Rightarrow> let (b, w) = f (snd st) in (b, (fst st, w)))"

text \<open>\<open>Reevaluation\<close>: first from the back, when the parent is a selector that already runs a later child,
  then of the node itself.\<close>

definition self_reevaluation :: "'w behavior \<Rightarrow> nat \<Rightarrow> node \<Rightarrow> 'w tree_state \<Rightarrow> (bool \<times> 'w tree_state) option" where
  "self_reevaluation B i nd st = do {
     check \<leftarrow> if bn_abort nd = ABORT_SELF \<or> bn_abort nd = ABORT_BOTH then Some True
       else do { c \<leftarrow> bn_child nd; cd \<leftarrow> fst st c; Some (bn_state cd \<noteq> RUNNING) };
     Some (if check then precondition B i st else (True, st)) }"

primrec find_child :: "nat \<Rightarrow> nat list \<Rightarrow> nat" where
  "find_child i [] = 0"
| "find_child i (c # cs) = (if c = i then 0 else Suc (find_child i cs))"

definition reevaluation ::
  "'w behavior \<Rightarrow> (nat \<Rightarrow> 'w tree_state \<Rightarrow> 'w tree_state option) \<Rightarrow> nat \<Rightarrow> 'w tree_state \<Rightarrow> (bool \<times> 'w tree_state) option" where
  "reevaluation B rst i st = do {
     nd \<leftarrow> fst st i;
     case bn_parent nd of
       None \<Rightarrow> self_reevaluation B i nd st
     | Some p \<Rightarrow> do {
         pd \<leftarrow> fst st p;
         if bn_type pd = SELECTOR \<and> aborts_lower (bn_abort nd) then
           (let k = find_child i (bn_children pd) in
             if k = length (bn_children pd) then Some (False, st)
             else if k < bn_index pd then
               (case precondition B i st of (b, st1) \<Rightarrow>
                 if b then do {
                   running \<leftarrow> at_opt (bn_children pd) (bn_index pd);
                   st2 \<leftarrow> rst running st1;
                   st3 \<leftarrow> update_field p (\<lambda>pd. pd\<lparr>bn_index := k\<rparr>) st2;
                   Some (True, st3) }
                 else Some (False, st1))
             else self_reevaluation B i nd st)
         else self_reevaluation B i nd st } }"

subsection \<open>Update of the composite nodes\<close>

text \<open>The loop of the selector over the earlier children; a result is the state \<open>Update\<close> returns at once.
  Its fuel, and that of the loops below, is the number of children.\<close>

primrec selector_reevaluate ::
  "(nat \<Rightarrow> 'w tree_state \<Rightarrow> (behavior_state \<times> 'w tree_state) option) \<Rightarrow> nat \<Rightarrow> nat \<Rightarrow> nat \<Rightarrow> 'w tree_state
   \<Rightarrow> (behavior_state option \<times> 'w tree_state) option" where
  "selector_reevaluate run i 0 index st = do {
     nd \<leftarrow> fst st i;
     if index < bn_index nd then None else Some (None, st) }"
| "selector_reevaluate run i (Suc m) index st = do {
     nd \<leftarrow> fst st i;
     if \<not> index < bn_index nd then Some (None, st)
     else do {
       again \<leftarrow> at_opt (bn_reevaluation nd) index;
       if again then do {
         c \<leftarrow> at_opt (bn_children nd) index;
         (s, st1) \<leftarrow> run c st;
         nd1 \<leftarrow> fst st1 i;
         if index = bn_index nd1 then
           if s \<noteq> FAILURE then Some (Some s, st1)
           else do { st2 \<leftarrow> update_field i (\<lambda>nd. nd\<lparr>bn_index := wrap32 (bn_index nd + 1)\<rparr>) st1; Some (None, st2) }
         else selector_reevaluate run i m (Suc index) st1 }
       else selector_reevaluate run i m (Suc index) st } }"

text \<open>The loop over the children of a selector or a sequence: it goes on after the state \<open>next\<close>.\<close>

primrec composite_loop ::
  "behavior_state \<Rightarrow> (nat \<Rightarrow> 'w tree_state \<Rightarrow> (behavior_state \<times> 'w tree_state) option) \<Rightarrow> nat \<Rightarrow> nat \<Rightarrow> 'w tree_state
   \<Rightarrow> (behavior_state \<times> 'w tree_state) option" where
  "composite_loop go_on run i 0 st = None"
| "composite_loop go_on run i (Suc m) st = do {
     nd \<leftarrow> fst st i;
     c \<leftarrow> at_opt (bn_children nd) (bn_index nd);
     (s, st1) \<leftarrow> run c st;
     if s \<noteq> go_on then Some (s, st1)
     else do {
       nd1 \<leftarrow> fst st1 i;
       let index = wrap32 (bn_index nd1 + 1);
       if index = length (bn_children nd1) then do {
         st2 \<leftarrow> update_field i (\<lambda>nd. nd\<lparr>bn_index := 0\<rparr>) st1;
         Some (go_on, st2) }
       else do {
         st2 \<leftarrow> update_field i (\<lambda>nd. nd\<lparr>bn_index := index\<rparr>) st1;
         composite_loop go_on run i m st2 } } }"

text \<open>\<open>children_node_ptr_.size() - threshold_\<close> is computed without a sign.\<close>

definition failures_allowed :: "nat \<Rightarrow> nat \<Rightarrow> nat" where
  "failures_allowed n threshold = (if threshold \<le> n then n - threshold else 2 ^ 64 + n - threshold)"

primrec parallel_loop ::
  "(nat \<Rightarrow> 'w tree_state \<Rightarrow> (behavior_state \<times> 'w tree_state) option) \<Rightarrow> nat \<Rightarrow> nat list \<Rightarrow> 'w tree_state
   \<Rightarrow> (behavior_state \<times> 'w tree_state) option" where
  "parallel_loop run i [] st = Some (RUNNING, st)"
| "parallel_loop run i (index # rest) st = do {
     nd \<leftarrow> fst st i;
     done \<leftarrow> at_opt (bn_done nd) index;
     if done then parallel_loop run i rest st
     else do {
       c \<leftarrow> at_opt (bn_children nd) index;
       (s, st1) \<leftarrow> run c st;
       if s = SUCCESS then do {
         st2 \<leftarrow> update_field i (\<lambda>nd. nd\<lparr>bn_done := (bn_done nd)[index := True], bn_success := wrap32 (bn_success nd + 1)\<rparr>) st1;
         nd2 \<leftarrow> fst st2 i;
         if bn_success nd2 \<ge> bn_threshold nd2 then Some (SUCCESS, st2) else parallel_loop run i rest st2 }
       else if s = FAILURE then do {
         st2 \<leftarrow> update_field i (\<lambda>nd. nd\<lparr>bn_done := (bn_done nd)[index := True], bn_failure := wrap32 (bn_failure nd + 1)\<rparr>) st1;
         nd2 \<leftarrow> fst st2 i;
         if bn_failure nd2 \<ge> failures_allowed (length (bn_children nd2)) (bn_threshold nd2) then Some (FAILURE, st2)
         else parallel_loop run i rest st2 }
       else parallel_loop run i rest st1 } }"

definition precondition_update where
  "precondition_update B run rst i nd st =
     (case bn_child nd of
        None \<Rightarrow> Some (SUCCESS, st)
      | Some c \<Rightarrow> do {
          (holds, st1) \<leftarrow> reevaluation B rst i st;
          if holds then run c st1 else Some (FAILURE, st1) })"

definition selector_update where
  "selector_update run i nd st = (let n = length (bn_children nd) in
     if n = 0 then Some (SUCCESS, st)
     else do {
       (r, st1) \<leftarrow> selector_reevaluate run i n 0 st;
       case r of Some s \<Rightarrow> Some (s, st1) | None \<Rightarrow> composite_loop FAILURE run i n st1 })"

definition sequence_update where
  "sequence_update run i nd st = (let n = length (bn_children nd) in
     if n = 0 then Some (SUCCESS, st) else composite_loop SUCCESS run i n st)"

definition parallel_update where
  "parallel_update run i nd st = (let n = length (bn_children nd) in
     if n = 0 then Some (SUCCESS, st) else parallel_loop run i [0..<n] st)"

definition update_node ::
  "'w behavior \<Rightarrow> (nat \<Rightarrow> 'w tree_state \<Rightarrow> (behavior_state \<times> 'w tree_state) option) \<Rightarrow>
   (nat \<Rightarrow> 'w tree_state \<Rightarrow> 'w tree_state option) \<Rightarrow> nat \<Rightarrow> 'w tree_state \<Rightarrow> (behavior_state \<times> 'w tree_state) option" where
  "update_node B run rst i st = do {
     nd \<leftarrow> fst st i;
     case bn_type nd of
       ACTION \<Rightarrow> (case action_update B i (snd st) of (s, w) \<Rightarrow> Some (s, (fst st, w)))
     | PRECONDITION \<Rightarrow> precondition_update B run rst i nd st
     | SELECTOR \<Rightarrow> selector_update run i nd st
     | SEQUENCE \<Rightarrow> sequence_update run i nd st
     | PARALLEL \<Rightarrow> parallel_update run i nd st }"

primrec run_node :: "'w behavior \<Rightarrow> nat \<Rightarrow> nat \<Rightarrow> 'w tree_state \<Rightarrow> (behavior_state \<times> 'w tree_state) option" where
  "run_node B 0 i st = None"
| "run_node B (Suc n) i st = do {
     nd \<leftarrow> fst st i;
     st1 \<leftarrow> if bn_state nd \<noteq> RUNNING then on_initialize B i st else Some st;
     (s, st2) \<leftarrow> update_node B (run_node B n) (reset_node B (Suc n)) i st1;
     st3 \<leftarrow> update_field i (\<lambda>nd. nd\<lparr>bn_state := s\<rparr>) st2;
     st4 \<leftarrow> if s \<noteq> RUNNING then on_terminate B (reset_node B (Suc n)) i s st3 else Some st3;
     nd4 \<leftarrow> fst st4 i;
     Some (bn_state nd4, st4) }"

text \<open>The loop of \<open>BehaviorTree::Run\<close> while the process is up: what the callbacks of a frame do to the world,
  and then one tick of the root. The answers of the ticks are kept; the program only counts the frames.\<close>

primrec tree_run :: "'w behavior \<Rightarrow> nat \<Rightarrow> nat \<Rightarrow> ('w \<Rightarrow> 'w) list \<Rightarrow> nat \<Rightarrow> 'w tree_state \<Rightarrow> (behavior_state list \<times> nat \<times> 'w tree_state) option" where
  "tree_run B n root [] frame st = Some ([], frame, st)"
| "tree_run B n root (spin # spins) frame st = do {
     (s, st1) \<leftarrow> run_node B n root (fst st, spin (snd st));
     (ss, frame', st2) \<leftarrow> tree_run B n root spins (wrap32 (frame + 1)) st1;
     Some (s # ss, frame', st2) }"

subsection \<open>Well-formed trees\<close>

definition kids :: "node \<Rightarrow> nat list" where
  "kids nd = (case bn_type nd of ACTION \<Rightarrow> [] | PRECONDITION \<Rightarrow> (case bn_child nd of None \<Rightarrow> [] | Some c \<Rightarrow> [c])
     | _ \<Rightarrow> bn_children nd)"

text \<open>What running a tree does not change.\<close>

definition shape :: "node \<Rightarrow> node" where
  "shape nd = nd\<lparr>bn_state := IDLE, bn_index := 0, bn_done := [], bn_success := 0, bn_failure := 0\<rparr>"

definition same_shape :: "nodes \<Rightarrow> nodes \<Rightarrow> bool" where
  "same_shape N N' \<longleftrightarrow> (\<forall>q. map_option shape (N' q) = map_option shape (N q))"

definition node_wf :: "nodes \<Rightarrow> (nat \<Rightarrow> nat) \<Rightarrow> nat \<Rightarrow> node \<Rightarrow> bool" where
  "node_wf N rank i nd \<longleftrightarrow> distinct (kids nd) \<and> length (bn_children nd) < 2 ^ 32
     \<and> (\<forall>c \<in> set (kids nd). rank c < rank i \<and> (\<exists>cd. N c = Some cd \<and> bn_parent cd = Some i))
     \<and> (\<forall>p. bn_parent nd = Some p \<longrightarrow> N p \<noteq> None)
     \<and> (bn_type nd = SELECTOR \<longrightarrow> length (bn_reevaluation nd) = length (bn_children nd)
          \<and> (\<forall>k < length (bn_children nd). bn_reevaluation nd ! k \<longrightarrow>
               (\<exists>cd. N (bn_children nd ! k) = Some cd \<and> bn_type cd = PRECONDITION \<and> aborts_lower (bn_abort cd))))"

definition wf_tree :: "(nat \<Rightarrow> nat) \<Rightarrow> nodes \<Rightarrow> bool" where
  "wf_tree rank N \<longleftrightarrow> (\<forall>i nd. N i = Some nd \<longrightarrow> node_wf N rank i nd)"

definition running :: "nodes \<Rightarrow> nat \<Rightarrow> bool" where
  "running N i \<longleftrightarrow> (\<exists>nd. N i = Some nd \<and> bn_state nd = RUNNING)"

definition one_current :: "node \<Rightarrow> bool" where
  "one_current nd \<longleftrightarrow> bn_type nd = SELECTOR \<or> bn_type nd = SEQUENCE"

text \<open>The discipline of running nodes: a running child has a running parent, of which it is the current
  child if that has one; and a running node has the fields it needs to go on.\<close>

definition can_go_on :: "node \<Rightarrow> bool" where
  "can_go_on nd \<longleftrightarrow> (bn_type nd = PRECONDITION \<longrightarrow> bn_child nd \<noteq> None)
     \<and> (one_current nd \<longrightarrow> bn_index nd < length (bn_children nd))
     \<and> (bn_type nd = PARALLEL \<longrightarrow> length (bn_done nd) = length (bn_children nd))"

definition node_ok :: "nodes \<Rightarrow> nat \<Rightarrow> bool" where
  "node_ok N i \<longleftrightarrow> (\<forall>nd. N i = Some nd \<longrightarrow> (bn_state nd = RUNNING \<longrightarrow> can_go_on nd)
     \<and> (\<forall>c \<in> set (kids nd). running N c \<longrightarrow> bn_state nd = RUNNING \<and> (one_current nd \<longrightarrow> c = bn_children nd ! bn_index nd)))"

definition child_rel :: "nodes \<Rightarrow> (nat \<times> nat) set" where
  "child_rel N = {(a, b). \<exists>nd. N a = Some nd \<and> b \<in> set (kids nd)}"

definition below :: "nodes \<Rightarrow> nat \<Rightarrow> nat set" where
  "below N i = {q. (i, q) \<in> (child_rel N)\<^sup>*}"

definition all_ok :: "nodes \<Rightarrow> nat \<Rightarrow> bool" where
  "all_ok N i \<longleftrightarrow> (\<forall>q \<in> below N i. node_ok N q)"

definition quiet :: "nodes \<Rightarrow> nat \<Rightarrow> bool" where
  "quiet N i \<longleftrightarrow> (\<forall>q \<in> below N i. \<not> running N q)"

definition agree :: "nodes \<Rightarrow> nodes \<Rightarrow> nat set \<Rightarrow> bool" where
  "agree N N' S \<longleftrightarrow> (\<forall>q. q \<notin> S \<longrightarrow> N' q = N q)"

lemma agreeD: "agree N N' S \<Longrightarrow> q \<notin> S \<Longrightarrow> N' q = N q"
  by (simp add: agree_def)

lemma agree_refl [simp]: "agree N N S"
  by (simp add: agree_def)

lemma agree_trans: "agree N N1 S \<Longrightarrow> agree N1 N2 T \<Longrightarrow> S \<union> T \<subseteq> U \<Longrightarrow> agree N N2 U"
  unfolding agree_def by (metis UnCI subsetD)

lemma agree_mono: "agree N N' S \<Longrightarrow> S \<subseteq> T \<Longrightarrow> agree N N' T"
  unfolding agree_def by blast

lemma same_shape_refl [simp]: "same_shape N N"
  by (simp add: same_shape_def)

lemma same_shape_trans: "same_shape N N1 \<Longrightarrow> same_shape N1 N2 \<Longrightarrow> same_shape N N2"
  by (simp add: same_shape_def)

lemma shape_fields:
  assumes "shape nd' = shape nd"
  shows "bn_type nd' = bn_type nd" "bn_parent nd' = bn_parent nd" "bn_child nd' = bn_child nd" "bn_abort nd' = bn_abort nd"
    "bn_children nd' = bn_children nd" "bn_reevaluation nd' = bn_reevaluation nd" "bn_threshold nd' = bn_threshold nd" "kids nd' = kids nd"
proof -
  have "bn_type (shape nd') = bn_type (shape nd)" "bn_parent (shape nd') = bn_parent (shape nd)" "bn_child (shape nd') = bn_child (shape nd)"
    "bn_abort (shape nd') = bn_abort (shape nd)" "bn_children (shape nd') = bn_children (shape nd)"
    "bn_reevaluation (shape nd') = bn_reevaluation (shape nd)" "bn_threshold (shape nd') = bn_threshold (shape nd)"
    by (simp_all add: assms)
  then show "bn_type nd' = bn_type nd" "bn_parent nd' = bn_parent nd" "bn_child nd' = bn_child nd" "bn_abort nd' = bn_abort nd"
    "bn_children nd' = bn_children nd" "bn_reevaluation nd' = bn_reevaluation nd" "bn_threshold nd' = bn_threshold nd" "kids nd' = kids nd"
    by (simp_all add: shape_def kids_def cong: behavior_type.case_cong)
qed

lemma same_shape_Some:
  assumes "same_shape N N'" "N i = Some nd"
  obtains nd' where "N' i = Some nd'" "shape nd' = shape nd"
  using assms unfolding same_shape_def by (metis (no_types, lifting) map_option_eq_Some option.simps(9))

lemma same_shape_dom: "same_shape N N' \<Longrightarrow> N' i = None \<longleftrightarrow> N i = None"
  unfolding same_shape_def by (metis map_option_is_None)

lemma child_rel_same_shape:
  assumes "same_shape N N'"
  shows "child_rel N' = child_rel N"
proof -
  have "(\<exists>nd. N' a = Some nd \<and> b \<in> set (kids nd)) \<longleftrightarrow> (\<exists>nd. N a = Some nd \<and> b \<in> set (kids nd))" for a b
  proof (cases "N a")
    case None
    then show ?thesis using same_shape_dom [OF assms, of a] by simp
  next
    case (Some nd)
    then show ?thesis using same_shape_Some [OF assms Some] shape_fields(8) by (metis option.inject)
  qed
  then show ?thesis by (simp add: child_rel_def)
qed

lemma below_same_shape: "same_shape N N' \<Longrightarrow> below N' = below N"
  by (intro ext) (simp add: below_def child_rel_same_shape)

lemma wf_same_shape:
  assumes "wf_tree rank N" "same_shape N N'"
  shows "wf_tree rank N'"
  unfolding wf_tree_def
proof (intro allI impI)
  fix i nd' assume nd': "N' i = Some nd'"
  then obtain nd where nd: "N i = Some nd" using same_shape_dom [OF assms(2), of i] by (cases "N i") auto
  obtain nd'' where "N' i = Some nd''" "shape nd'' = shape nd" by (rule same_shape_Some [OF assms(2) nd])
  then have shape: "shape nd' = shape nd" using nd' by simp
  note f = shape_fields [OF shape]
  have wf: "node_wf N rank i nd" using assms(1) nd by (simp add: wf_tree_def)
  have child: "\<exists>cd'. N' c = Some cd' \<and> bn_parent cd' = bn_parent cd \<and> bn_type cd' = bn_type cd \<and> bn_abort cd' = bn_abort cd"
    if "N c = Some cd" for c cd
    using same_shape_Some [OF assms(2) that] shape_fields by metis
  show "node_wf N' rank i nd'"
    unfolding node_wf_def f
  proof (intro conjI allI ballI impI)
    show "distinct (kids nd)" "length (bn_children nd) < 2 ^ 32" using wf by (simp_all add: node_wf_def)
    show "rank c < rank i" if "c \<in> set (kids nd)" for c using wf that by (simp add: node_wf_def)
    show "\<exists>cd. N' c = Some cd \<and> bn_parent cd = Some i" if "c \<in> set (kids nd)" for c
      using wf that child unfolding node_wf_def by metis
    show "N' p \<noteq> None" if "bn_parent nd = Some p" for p
      using wf that same_shape_dom [OF assms(2), of p] by (simp add: node_wf_def)
    show "length (bn_reevaluation nd) = length (bn_children nd)" if "bn_type nd = SELECTOR" using wf that by (simp add: node_wf_def)
    show "\<exists>cd. N' (bn_children nd ! k) = Some cd \<and> bn_type cd = PRECONDITION \<and> aborts_lower (bn_abort cd)"
      if "bn_type nd = SELECTOR" "k < length (bn_children nd)" "bn_reevaluation nd ! k" for k
      using wf that child unfolding node_wf_def by metis
  qed
qed

lemma wf_node: "wf_tree rank N \<Longrightarrow> N i = Some nd \<Longrightarrow> node_wf N rank i nd"
  by (simp add: wf_tree_def)

lemma wf_kid:
  assumes "wf_tree rank N" "N i = Some nd" "c \<in> set (kids nd)"
  obtains cd where "N c = Some cd" "bn_parent cd = Some i" "rank c < rank i"
  using wf_node [OF assms(1,2)] assms(3) unfolding node_wf_def by metis

lemma below_self [simp]: "i \<in> below N i"
  by (simp add: below_def)

lemma below_child: "N i = Some nd \<Longrightarrow> c \<in> set (kids nd) \<Longrightarrow> q \<in> below N c \<Longrightarrow> q \<in> below N i"
  unfolding below_def child_rel_def by (auto intro: converse_rtrancl_into_rtrancl)

lemma below_cases:
  assumes "q \<in> below N i" "N i = Some nd"
  obtains "q = i" | c where "c \<in> set (kids nd)" "q \<in> below N c"
proof -
  have "(i, q) \<in> (child_rel N)\<^sup>*" using assms(1) by (simp add: below_def)
  then show ?thesis
  proof (cases rule: converse_rtranclE)
    case base
    then show ?thesis using that(1) by simp
  next
    case (step c)
    then show ?thesis using that(2) assms(2) by (auto simp: below_def child_rel_def)
  qed
qed

lemma below_rank:
  assumes "wf_tree rank N" "q \<in> below N i"
  shows "rank q \<le> rank i"
proof -
  have "(i, q) \<in> (child_rel N)\<^sup>*" using assms(2) by (simp add: below_def)
  then show ?thesis
  proof (induction rule: rtrancl_induct)
    case (step y z)
    then obtain yd where "N y = Some yd" "z \<in> set (kids yd)" by (auto simp: child_rel_def)
    then have "rank z < rank y" by (rule wf_kid [OF assms(1)])
    then show ?case using step.IH by simp
  qed simp
qed

lemma not_below_child:
  assumes "wf_tree rank N" "N i = Some nd" "c \<in> set (kids nd)"
  shows "i \<notin> below N c"
proof
  assume "i \<in> below N c"
  then have "rank i \<le> rank c" by (rule below_rank [OF assms(1)])
  moreover have "rank c < rank i" by (rule wf_kid [OF assms])
  ultimately show False by simp
qed

lemma below_parent:
  assumes "wf_tree rank N" "q \<in> below N c" "q \<noteq> c" "N q = Some nd" "bn_parent nd = Some p"
  shows "p \<in> below N c"
proof -
  have "(c, q) \<in> (child_rel N)\<^sup>*" using assms(2) by (simp add: below_def)
  then obtain a where a: "(c, a) \<in> (child_rel N)\<^sup>*" "(a, q) \<in> child_rel N" using assms(3) by (auto elim: rtranclE)
  then obtain ad where "N a = Some ad" "q \<in> set (kids ad)" by (auto simp: child_rel_def)
  then obtain cd where "N q = Some cd" "bn_parent cd = Some a" by (rule wf_kid [OF assms(1)])
  then show ?thesis using a(1) assms(4,5) by (simp add: below_def)
qed

lemma below_disjoint:
  assumes wf: "wf_tree rank N" and i: "N i = Some nd" "c \<in> set (kids nd)" "c' \<in> set (kids nd)" "c \<noteq> c'" and q: "q \<in> below N c"
  shows "q \<notin> below N c'"
proof -
  have "(c, q) \<in> (child_rel N)\<^sup>*" using q by (simp add: below_def)
  then show ?thesis
  proof (induction rule: rtrancl_induct)
    case base
    obtain cd where "N c = Some cd" "bn_parent cd = Some i" by (rule wf_kid [OF wf i(1,2)])
    then show ?case using below_parent [OF wf, of c c'] not_below_child [OF wf i(1,3)] i(4) by blast
  next
    case (step y z)
    then obtain yd where y: "N y = Some yd" "z \<in> set (kids yd)" by (auto simp: child_rel_def)
    obtain zd where z: "N z = Some zd" "bn_parent zd = Some y" by (rule wf_kid [OF wf y])
    obtain cd where "N c' = Some cd" "bn_parent cd = Some i" by (rule wf_kid [OF wf i(1,3)])
    moreover have "y \<in> below N c" using step.hyps by (simp add: below_def)
    ultimately have "z \<noteq> c'" using z not_below_child [OF wf i(1,2)] by auto
    then show ?case using below_parent [OF wf _ _ z] step.IH by blast
  qed
qed

text \<open>What happens outside a subtree does not matter to it.\<close>

lemma below_unchanged:
  assumes "\<And>q. q \<in> below N i \<Longrightarrow> N' q = N q"
  shows "below N' i = below N i"
proof -
  have "q \<in> below N' i \<Longrightarrow> q \<in> below N i" for q
    unfolding below_def mem_Collect_eq
  proof (induction rule: rtrancl_induct)
    case (step y z)
    then have "N' y = N y" using assms by (simp add: below_def)
    then have "(y, z) \<in> child_rel N" using step.hyps(2) by (simp add: child_rel_def)
    then show ?case using step.IH by simp
  qed simp
  moreover have "q \<in> below N i \<Longrightarrow> q \<in> below N' i" for q
    unfolding below_def mem_Collect_eq
  proof (induction rule: rtrancl_induct)
    case (step y z)
    then have "N' y = N y" using assms by (simp add: below_def)
    then have "(y, z) \<in> child_rel N'" using step.hyps(2) by (simp add: child_rel_def)
    then show ?case using step.IH by simp
  qed simp
  ultimately show ?thesis by blast
qed

lemma running_unchanged: "N' q = N q \<Longrightarrow> running N' q = running N q"
  by (simp add: running_def)

lemma quiet_unchanged:
  assumes "\<And>q. q \<in> below N i \<Longrightarrow> N' q = N q"
  shows "quiet N' i = quiet N i"
proof -
  have "running N' q = running N q" if "q \<in> below N i" for q using assms [OF that] by (rule running_unchanged)
  then show ?thesis by (simp add: quiet_def below_unchanged [OF assms])
qed

lemma all_ok_unchanged:
  assumes "\<And>q. q \<in> below N i \<Longrightarrow> N' q = N q"
  shows "all_ok N' i = all_ok N i"
proof -
  have "node_ok N' q = node_ok N q" if q: "q \<in> below N i" for q
  proof -
    have "running N' c = running N c" if "N q = Some nd" "c \<in> set (kids nd)" for nd c
    proof -
      have "c \<in> below N i" using q that unfolding below_def child_rel_def by (auto intro: rtrancl_into_rtrancl)
      then show ?thesis by (rule running_unchanged [OF assms])
    qed
    then show ?thesis using assms [OF q] by (auto simp: node_ok_def)
  qed
  then show ?thesis by (simp add: all_ok_def below_unchanged [OF assms])
qed

lemma quiet_of:
  assumes "all_ok N i" "\<not> running N i"
  shows "quiet N i"
proof -
  have "\<not> running N q" if "(i, q) \<in> (child_rel N)\<^sup>*" for q
    using that
  proof (induction rule: rtrancl_induct)
    case (step y z)
    then obtain yd where "N y = Some yd" "z \<in> set (kids yd)" by (auto simp: child_rel_def)
    moreover have "node_ok N y" using assms(1) step.hyps(1) by (simp add: all_ok_def below_def)
    ultimately show ?case using step.IH by (auto simp: node_ok_def running_def)
  qed (rule assms(2))
  then show ?thesis by (simp add: quiet_def below_def)
qed

lemma all_ok_quiet:
  assumes "quiet N i"
  shows "all_ok N i"
  unfolding all_ok_def
proof
  fix q assume q: "q \<in> below N i"
  have "\<not> running N c" if "N q = Some nd" "c \<in> set (kids nd)" for nd c
    using q that assms unfolding quiet_def below_def child_rel_def by (auto intro: rtrancl_into_rtrancl)
  moreover have "\<not> running N q" using assms q by (simp add: quiet_def)
  ultimately show "node_ok N q" by (auto simp: node_ok_def running_def)
qed

lemma all_ok_self: "all_ok N i \<Longrightarrow> node_ok N i"
  by (simp add: all_ok_def)

lemma all_ok_kid: "all_ok N i \<Longrightarrow> N i = Some nd \<Longrightarrow> c \<in> set (kids nd) \<Longrightarrow> all_ok N c"
  using below_child unfolding all_ok_def by blast

lemma all_ok_kids:
  assumes "N i = Some nd" "node_ok N i" "\<And>c. c \<in> set (kids nd) \<Longrightarrow> all_ok N c"
  shows "all_ok N i"
  unfolding all_ok_def
proof
  fix q assume "q \<in> below N i"
  from this assms(1) show "node_ok N q" by (rule below_cases) (use assms(2,3) in \<open>auto simp: all_ok_def\<close>)
qed

lemma quiet_kids:
  assumes "N i = Some nd" "\<not> running N i" "\<And>c. c \<in> set (kids nd) \<Longrightarrow> quiet N c"
  shows "quiet N i"
  unfolding quiet_def
proof
  fix q assume "q \<in> below N i"
  from this assms(1) show "\<not> running N q" by (rule below_cases) (use assms(2,3) in \<open>auto simp: quiet_def\<close>)
qed

text \<open>A change in the subtree of one child does not matter to its parent and to the other children, nor does a
  change of the fields of the node itself matter to its children.\<close>

lemma kid_frame:
  assumes wf: "wf_tree rank N" and i: "N i = Some nd" "c \<in> set (kids nd)" and N': "agree N N' (below N c)"
  shows "N' i = Some nd"
    and "c' \<in> set (kids nd) \<Longrightarrow> c' \<noteq> c \<Longrightarrow> all_ok N' c' = all_ok N c'"
    and "c' \<in> set (kids nd) \<Longrightarrow> c' \<noteq> c \<Longrightarrow> quiet N' c' = quiet N c'"
    and "c' \<in> set (kids nd) \<Longrightarrow> c' \<noteq> c \<Longrightarrow> running N' c' = running N c'"
proof -
  show "N' i = Some nd" using agreeD [OF N' not_below_child [OF wf i]] i(1) by simp
  have other: "N' q = N q" if "c' \<in> set (kids nd)" "c' \<noteq> c" "q \<in> below N c'" for q
    using agreeD [OF N' below_disjoint [OF wf i(1) that(1) i(2) that(2,3)]] .
  show "all_ok N' c' = all_ok N c'" if "c' \<in> set (kids nd)" "c' \<noteq> c"
    by (rule all_ok_unchanged) (rule other [OF that])
  show "quiet N' c' = quiet N c'" if "c' \<in> set (kids nd)" "c' \<noteq> c"
    by (rule quiet_unchanged) (rule other [OF that])
  show "running N' c' = running N c'" if "c' \<in> set (kids nd)" "c' \<noteq> c"
    by (rule running_unchanged) (rule other [OF that below_self])
qed

lemma own_frame:
  assumes wf: "wf_tree rank N" and i: "N i = Some nd" and shape: "shape nd' = shape nd"
  shows "same_shape N (N(i \<mapsto> nd'))" "wf_tree rank (N(i \<mapsto> nd'))" "kids nd' = kids nd"
    and "agree N (N(i \<mapsto> nd')) {i}"
    and "c \<in> set (kids nd) \<Longrightarrow> all_ok (N(i \<mapsto> nd')) c = all_ok N c"
    and "c \<in> set (kids nd) \<Longrightarrow> running (N(i \<mapsto> nd')) c = running N c"
proof -
  show same: "same_shape N (N(i \<mapsto> nd'))" using i shape by (simp add: same_shape_def)
  show "wf_tree rank (N(i \<mapsto> nd'))" by (rule wf_same_shape [OF wf same])
  show "kids nd' = kids nd" using shape_fields(8) [OF shape] .
  show "agree N (N(i \<mapsto> nd')) {i}" by (simp add: agree_def)
  have other: "(N(i \<mapsto> nd')) q = N q" if "c \<in> set (kids nd)" "q \<in> below N c" for q
    using not_below_child [OF wf i that(1)] that(2) by auto
  show "all_ok (N(i \<mapsto> nd')) c = all_ok N c" if "c \<in> set (kids nd)"
    by (rule all_ok_unchanged) (rule other [OF that])
  show "running (N(i \<mapsto> nd')) c = running N c" if "c \<in> set (kids nd)"
    by (rule running_unchanged) (rule other [OF that below_self])
qed

lemma kid_below: "N i = Some nd \<Longrightarrow> c \<in> set (kids nd) \<Longrightarrow> wf_tree rank N \<Longrightarrow> below N c \<subseteq> below N i - {i}"
  using below_child not_below_child by blast

lemma kid_exists: "wf_tree rank N \<Longrightarrow> N i = Some nd \<Longrightarrow> c \<in> set (kids nd) \<Longrightarrow> N c \<noteq> None \<and> rank c < rank i"
  using wf_kid by (metis option.distinct(1))

end
