(* ===== verification/BehaviorTick.thy ===== *)
theory BehaviorTick
  imports BehaviorTree
begin

text \<open>
  What a tick of a behavior tree does: \<open>Reset\<close> stops everything below a node, the loops of the composite
  nodes keep the discipline of running nodes also when a precondition aborts its running sibling, and so a tick
  of a well-formed tree always returns. Each class of nodes has its lemma over the contracts \<open>resets\<close>
  and \<open>runs\<close> of the recursive calls; the fuel is the rank of a node, its height in the tree.
\<close>

subsection \<open>Reset\<close>

definition resets :: "(nat \<Rightarrow> nat) \<Rightarrow> (nat \<Rightarrow> 'w tree_state \<Rightarrow> 'w tree_state option) \<Rightarrow> nat \<Rightarrow> bool" where
  "resets rank rst n \<longleftrightarrow> (\<forall>N w i. wf_tree rank N \<longrightarrow> N i \<noteq> None \<longrightarrow> rank i < n \<longrightarrow> all_ok N i \<longrightarrow>
     (\<exists>N' w'. rst i (N, w) = Some (N', w') \<and> same_shape N N' \<and> agree N N' (below N i) \<and> quiet N' i))"

lemma resetsE:
  assumes "resets rank rst n" "wf_tree rank N" "N i \<noteq> None" "rank i < n" "all_ok N i"
  obtains N' w' where "rst i (N, w) = Some (N', w')" "same_shape N N'" "agree N N' (below N i)" "quiet N' i"
  using assms unfolding resets_def by blast

lemma reset_each_ok:
  assumes "resets rank rst (rank i)" "wf_tree rank N" "N i = Some nd" "set cs \<subseteq> set (kids nd)" "distinct cs"
    "\<And>c. c \<in> set cs \<Longrightarrow> all_ok N c"
  shows "\<exists>N' w'. reset_each rst cs (N, w) = Some (N', w') \<and> same_shape N N' \<and> agree N N' (below N i - {i})
    \<and> (\<forall>c \<in> set cs. quiet N' c) \<and> (\<forall>c \<in> set (kids nd) - set cs. quiet N' c = quiet N c)"
  using assms(2-)
proof (induction cs arbitrary: N w)
  case (Cons c cs)
  have c: "c \<in> set (kids nd)" using Cons.prems by simp
  have kid: "N c \<noteq> None" "rank c < rank i" using kid_exists [OF Cons.prems(1,2) c] by simp_all
  obtain N1 w1 where r: "rst c (N, w) = Some (N1, w1)" and same: "same_shape N N1" and ag: "agree N N1 (below N c)" and q: "quiet N1 c"
    by (rule resetsE [OF assms(1) Cons.prems(1) kid]) (use Cons.prems(5) in auto)
  note frame = kid_frame [OF Cons.prems(1,2) c ag]
  have wf1: "wf_tree rank N1" by (rule wf_same_shape [OF Cons.prems(1) same])
  have ok1: "all_ok N1 c'" if "c' \<in> set cs" for c'
    using Cons.prems(3,4,5) that frame(2) [of c'] by auto
  obtain N2 w2 where e: "reset_each rst cs (N1, w1) = Some (N2, w2)" and same2: "same_shape N1 N2"
    and ag2: "agree N1 N2 (below N1 i - {i})" and q2: "\<forall>c \<in> set cs. quiet N2 c"
    and rest: "\<forall>c \<in> set (kids nd) - set cs. quiet N2 c = quiet N1 c"
    using Cons.IH [OF wf1 frame(1) _ _ ok1, of w1] Cons.prems(3,4) by auto
  have "agree N N2 (below N i - {i})"
    using agree_trans [OF ag ag2] kid_below [OF Cons.prems(2) c Cons.prems(1)] below_same_shape [OF same] by simp
  moreover have "quiet N2 c" using rest q c Cons.prems(4) by simp
  moreover have "\<forall>c' \<in> set (kids nd) - set (c # cs). quiet N2 c' = quiet N c'" using rest frame(3) by simp
  moreover have "reset_each rst (c # cs) (N, w) = Some (N2, w2)" using r e by simp
  ultimately show ?case using same_shape_trans [OF same same2] q2 by (intro exI conjI) simp_all
qed simp

definition stops :: "node \<Rightarrow> behavior_state \<Rightarrow> nat \<Rightarrow> bool" where
  "stops nd s c \<longleftrightarrow> bn_type nd = PARALLEL \<or> bn_type nd = PRECONDITION \<and> (s = IDLE \<or> s = FAILURE)
     \<or> one_current nd \<and> s = IDLE \<and> c = bn_children nd ! bn_index nd"

lemma reset_one:
  assumes rst: "resets rank rst (rank i)" and wf: "wf_tree rank N" and i: "N i = Some nd" and c: "c \<in> set (kids nd)"
    and ok: "\<And>c'. c' \<in> set (kids nd) \<Longrightarrow> all_ok N c'" and run: "\<And>c'. c' \<in> set (kids nd) \<Longrightarrow> running N c' \<Longrightarrow> c' = c"
  shows "\<exists>N' w'. rst c (N, w) = Some (N', w') \<and> same_shape N N' \<and> agree N N' (below N i - {i}) \<and> (\<forall>c \<in> set (kids nd). quiet N' c)"
proof -
  have kid: "N c \<noteq> None" "rank c < rank i" using kid_exists [OF wf i c] by simp_all
  obtain N1 w1 where r: "rst c (N, w) = Some (N1, w1)" and same: "same_shape N N1" and ag: "agree N N1 (below N c)" and q: "quiet N1 c"
    by (rule resetsE [OF rst wf kid ok [OF c]])
  have "quiet N1 c'" if c': "c' \<in> set (kids nd)" for c'
  proof (cases "c' = c")
    case False
    then have "quiet N c'" using run [OF c'] quiet_of [OF ok [OF c']] by blast
    then show ?thesis using kid_frame(3) [OF wf i c ag c' False] by simp
  qed (simp add: q)
  moreover have "agree N N1 (below N i - {i})" using ag kid_below [OF i c wf] unfolding agree_def by blast
  ultimately show ?thesis using r same by blast
qed

lemma on_terminate_ok:
  assumes rst: "resets rank rst (rank i)" and wf: "wf_tree rank N" and i: "N i = Some nd" and s: "s \<noteq> RUNNING"
    and ok: "\<And>c. c \<in> set (kids nd) \<Longrightarrow> all_ok N c" and stops: "\<And>c. c \<in> set (kids nd) \<Longrightarrow> running N c \<Longrightarrow> stops nd s c"
    and pre: "bn_type nd = PRECONDITION \<Longrightarrow> s = IDLE \<or> s = FAILURE \<Longrightarrow> bn_child nd \<noteq> None"
    and cur: "one_current nd \<Longrightarrow> s = IDLE \<Longrightarrow> bn_index nd < length (bn_children nd)"
  shows "\<exists>N' w'. on_terminate B rst i s (N, w) = Some (N', w') \<and> same_shape N N' \<and> agree N N' (below N i - {i})
    \<and> (\<forall>c \<in> set (kids nd). quiet N' c)"
proof -
  have still: ?thesis if "on_terminate B rst i s (N, w) = Some (N, w')" "\<And>c. c \<in> set (kids nd) \<Longrightarrow> \<not> stops nd s c" for w'
    using that quiet_of [OF ok] stops by (intro exI [of _ N] exI [of _ w']) auto
  have current: ?thesis if "bn_type nd = SELECTOR \<or> bn_type nd = SEQUENCE"
  proof (cases "s = IDLE")
    case True
    let ?c = "bn_children nd ! bn_index nd"
    have lt: "bn_index nd < length (bn_children nd)" using cur True that by (auto simp: one_current_def)
    then have "?c \<in> set (kids nd)" using that by (auto simp: kids_def)
    then have "\<exists>N' w'. rst ?c (N, w) = Some (N', w') \<and> same_shape N N' \<and> agree N N' (below N i - {i}) \<and> (\<forall>c \<in> set (kids nd). quiet N' c)"
      by (rule reset_one [OF rst wf i _ ok]) (use stops that in \<open>auto simp: stops_def\<close>)
    moreover have "on_terminate B rst i s (N, w) = rst ?c (N, w)"
      using that lt True i by (auto simp: on_terminate_def at_opt_def)
    ultimately show ?thesis by simp
  next
    case False
    then show ?thesis by (intro still) (use that i s in \<open>auto simp: on_terminate_def stops_def one_current_def\<close>)
  qed
  show ?thesis
  proof (cases "bn_type nd")
    case PARALLEL
    then have k: "kids nd = bn_children nd" by (simp add: kids_def)
    have "distinct (kids nd)" using wf_node [OF wf i] by (simp add: node_wf_def)
    then have "\<exists>N' w'. reset_each rst (kids nd) (N, w) = Some (N', w') \<and> same_shape N N' \<and> agree N N' (below N i - {i})
      \<and> (\<forall>c \<in> set (kids nd). quiet N' c) \<and> (\<forall>c \<in> set (kids nd) - set (kids nd). quiet N' c = quiet N c)"
      by (intro reset_each_ok [OF rst wf i]) (simp_all add: ok)
    moreover have "on_terminate B rst i s (N, w) = reset_each rst (kids nd) (N, w)" using PARALLEL i s k by (simp add: on_terminate_def)
    ultimately show ?thesis by auto
  next
    case PRECONDITION
    show ?thesis
    proof (cases "s = IDLE \<or> s = FAILURE")
      case True
      then obtain c where c: "bn_child nd = Some c" using pre PRECONDITION by auto
      then have "\<exists>N' w'. rst c (N, w) = Some (N', w') \<and> same_shape N N' \<and> agree N N' (below N i - {i}) \<and> (\<forall>c \<in> set (kids nd). quiet N' c)"
        by (intro reset_one [OF rst wf i _ ok]) (use PRECONDITION in \<open>auto simp: kids_def\<close>)
      moreover have "on_terminate B rst i s (N, w) = rst c (N, w)" using PRECONDITION True c i by (auto simp: on_terminate_def)
      ultimately show ?thesis by simp
    next
      case False
      then show ?thesis by (intro still) (use PRECONDITION i in \<open>auto simp: on_terminate_def stops_def one_current_def\<close>)
    qed
  next
    case ACTION
    then show ?thesis by (intro still) (use i in \<open>auto simp: on_terminate_def kids_def\<close>)
  qed (use current in auto)
qed

lemma reset_node_resets: "resets rank (reset_node B n) n"
proof (induction n)
  case (Suc n)
  show ?case unfolding resets_def
  proof (intro allI impI)
    fix N w i assume wf: "wf_tree rank N" and ex: "N i \<noteq> None" and r: "rank i < Suc n" and ok: "all_ok N i"
    obtain nd where i: "N i = Some nd" using ex by auto
    show "\<exists>N' w'. reset_node B (Suc n) i (N, w) = Some (N', w') \<and> same_shape N N' \<and> agree N N' (below N i) \<and> quiet N' i"
    proof (cases "bn_state nd = RUNNING")
      case False
      then have "quiet N i" using quiet_of [OF ok] i by (simp add: running_def)
      then show ?thesis using False i by simp
    next
      case True
      let ?nd = "nd\<lparr>bn_state := IDLE\<rparr>"
      let ?N = "N(i \<mapsto> ?nd)"
      have sh: "shape ?nd = shape nd" by (simp add: shape_def)
      note own = own_frame [OF wf i sh]
      have nok: "can_go_on nd" "\<And>c. c \<in> set (kids nd) \<Longrightarrow> running N c \<Longrightarrow> one_current nd \<Longrightarrow> c = bn_children nd ! bn_index nd"
        using all_ok_self [OF ok] i True by (auto simp: node_ok_def)
      have rst: "resets rank (reset_node B n) (rank i)" using Suc r unfolding resets_def by (meson less_Suc_eq_le less_le_trans)
      have i': "?N i = Some ?nd" by simp
      have "\<exists>N' w'. on_terminate B (reset_node B n) i IDLE (?N, w) = Some (N', w') \<and> same_shape ?N N' \<and> agree ?N N' (below ?N i - {i})
        \<and> (\<forall>c \<in> set (kids ?nd). quiet N' c)"
      proof (rule on_terminate_ok [OF rst own(2) i'])
        show "all_ok ?N c" if "c \<in> set (kids ?nd)" for c using that own(3,5) all_ok_kid [OF ok i] by simp
        show "stops ?nd IDLE c" if "c \<in> set (kids ?nd)" "running ?N c" for c
        proof -
          have c: "c \<in> set (kids nd)" "running N c" using that own(3,6) by simp_all
          then show ?thesis using nok(2) [OF c] by (cases "bn_type nd") (auto simp: stops_def one_current_def kids_def)
        qed
        show "bn_child ?nd \<noteq> None" if "bn_type ?nd = PRECONDITION" using nok(1) that by (simp add: can_go_on_def)
        show "bn_index ?nd < length (bn_children ?nd)" if "one_current ?nd" using nok(1) that by (auto simp: can_go_on_def one_current_def)
      qed simp
      then obtain N' w' where t: "on_terminate B (reset_node B n) i IDLE (?N, w) = Some (N', w')" "same_shape ?N N'"
        "agree ?N N' (below ?N i - {i})" "\<forall>c \<in> set (kids nd). quiet N' c" using own(3) by auto
      have same: "same_shape N N'" using same_shape_trans [OF own(1) t(2)] .
      have ag: "agree N N' (below N i)" using agree_trans [OF own(4) t(3)] below_same_shape [OF own(1)] by auto
      have nd': "N' i = Some ?nd" using agreeD [OF t(3), of i] by simp
      have "quiet N' i" by (rule quiet_kids [where N = N' and i = i, OF nd']) (use t(4) own(3) nd' in \<open>simp_all add: running_def\<close>)
      moreover have "reset_node B (Suc n) i (N, w) = Some (N', w')" using t(1) i True by (simp add: update_field_def set_node_def)
      ultimately show ?thesis using same ag by blast
    qed
  qed
qed (simp add: resets_def)

subsection \<open>One tick\<close>

definition after_update :: "nodes \<Rightarrow> nat \<Rightarrow> behavior_state \<Rightarrow> bool" where
  "after_update N i s \<longleftrightarrow> (\<exists>nd. N i = Some nd \<and> (\<forall>c \<in> set (kids nd). all_ok N c
     \<and> (running N c \<longrightarrow> (if s = RUNNING then one_current nd \<longrightarrow> c = bn_children nd ! bn_index nd else stops nd s c)))
     \<and> (s = RUNNING \<longrightarrow> can_go_on nd)
     \<and> (bn_type nd = PRECONDITION \<longrightarrow> s = IDLE \<or> s = FAILURE \<longrightarrow> bn_child nd \<noteq> None)
     \<and> (one_current nd \<longrightarrow> s = IDLE \<longrightarrow> bn_index nd < length (bn_children nd)))"

definition finish_run ::
  "'w behavior \<Rightarrow> (nat \<Rightarrow> 'w tree_state \<Rightarrow> 'w tree_state option) \<Rightarrow> nat \<Rightarrow> behavior_state \<Rightarrow> 'w tree_state \<Rightarrow> (behavior_state \<times> 'w tree_state) option" where
  "finish_run B rst i s st = do {
     st3 \<leftarrow> update_field i (\<lambda>nd. nd\<lparr>bn_state := s\<rparr>) st;
     st4 \<leftarrow> if s \<noteq> RUNNING then on_terminate B rst i s st3 else Some st3;
     nd4 \<leftarrow> fst st4 i;
     Some (bn_state nd4, st4) }"

lemma finish_ok:
  assumes rst: "resets rank rst (rank i)" and wf: "wf_tree rank N" and after: "after_update N i s"
  shows "\<exists>N' w'. finish_run B rst i s (N, w) = Some (s, (N', w')) \<and> same_shape N N' \<and> agree N N' (below N i) \<and> all_ok N' i
    \<and> (\<exists>nd'. N' i = Some nd' \<and> bn_state nd' = s)"
proof -
  obtain nd where i: "N i = Some nd" and ok: "\<And>c. c \<in> set (kids nd) \<Longrightarrow> all_ok N c"
    and run: "\<And>c. c \<in> set (kids nd) \<Longrightarrow> running N c \<Longrightarrow>
      if s = RUNNING then one_current nd \<longrightarrow> c = bn_children nd ! bn_index nd else stops nd s c"
    and fields: "s = RUNNING \<longrightarrow> can_go_on nd" "bn_type nd = PRECONDITION \<longrightarrow> s = IDLE \<or> s = FAILURE \<longrightarrow> bn_child nd \<noteq> None"
      "one_current nd \<longrightarrow> s = IDLE \<longrightarrow> bn_index nd < length (bn_children nd)"
    using after unfolding after_update_def by blast
  let ?nd = "nd\<lparr>bn_state := s\<rparr>"
  let ?N = "N(i \<mapsto> ?nd)"
  have sh: "shape ?nd = shape nd" by (simp add: shape_def)
  note own = own_frame [OF wf i sh]
  have i': "?N i = Some ?nd" by simp
  have set: "update_field i (\<lambda>nd. nd\<lparr>bn_state := s\<rparr>) (N, w) = Some (?N, w)" using i by (simp add: update_field_def set_node_def)
  have one: "one_current ?nd = one_current nd" "stops ?nd s = stops nd s" by (simp_all add: one_current_def stops_def fun_eq_iff)
  show ?thesis
  proof (cases "s = RUNNING")
    case True
    have "node_ok ?N i" unfolding node_ok_def
    proof (intro allI impI conjI ballI)
      fix nd' assume "?N i = Some nd'"
      then have nd': "nd' = ?nd" by simp
      show "can_go_on nd'" using fields(1) True by (simp add: nd' can_go_on_def one_current_def)
      show "bn_state nd' = RUNNING" using True by (simp add: nd')
      show "c = bn_children nd' ! bn_index nd'" if "c \<in> set (kids nd')" "running ?N c" "one_current nd'" for c
        using that run [of c] own(3,6) True by (simp add: nd' one_current_def)
    qed
    then have "all_ok ?N i" by (rule all_ok_kids [where N = ?N and i = i, OF i']) (use own(3,5) ok in simp)
    moreover have "agree N ?N (below N i)" by (rule agree_mono [OF own(4)]) simp
    ultimately show ?thesis using own(1) True set by (intro exI [of _ ?N] exI [of _ w]) (simp add: finish_run_def)
  next
    case False
    have "\<exists>N' w'. on_terminate B rst i s (?N, w) = Some (N', w') \<and> same_shape ?N N' \<and> agree ?N N' (below ?N i - {i})
        \<and> (\<forall>c \<in> set (kids ?nd). quiet N' c)"
    proof (rule on_terminate_ok [OF rst own(2) i' False])
      show "all_ok ?N c" if "c \<in> set (kids ?nd)" for c using that own(3,5) ok by simp
      show "stops ?nd s c" if "c \<in> set (kids ?nd)" "running ?N c" for c using that run [of c] own(3,6) False by (simp add: one)
      show "bn_child ?nd \<noteq> None" if "bn_type ?nd = PRECONDITION" "s = IDLE \<or> s = FAILURE" using fields(2) that by simp
      show "bn_index ?nd < length (bn_children ?nd)" if "one_current ?nd" "s = IDLE" using fields(3) that by (auto simp: one_current_def)
    qed
    then obtain N' w' where t: "on_terminate B rst i s (?N, w) = Some (N', w')" "same_shape ?N N'"
      "agree ?N N' (below ?N i - {i})" "\<forall>c \<in> set (kids nd). quiet N' c" using own(3) by auto
    have nd': "N' i = Some ?nd" using agreeD [OF t(3), of i] by simp
    have "quiet N' i" by (rule quiet_kids [where N = N' and i = i, OF nd']) (use t(4) own(3) nd' False in \<open>simp_all add: running_def\<close>)
    moreover have "agree N N' (below N i)" using agree_trans [OF own(4) t(3)] below_same_shape [OF own(1)] by auto
    ultimately show ?thesis using same_shape_trans [OF own(1) t(2)] all_ok_quiet [of N' i] t(1) set False
      by (intro exI [of _ N'] exI [of _ w']) (simp add: finish_run_def nd')
  qed
qed

text \<open>A precondition may stop the running child of its parent, when that is a selector.\<close>

definition may_abort :: "nodes \<Rightarrow> node \<Rightarrow> nat \<Rightarrow> nat \<Rightarrow> node \<Rightarrow> bool" where
  "may_abort N nd i p pd \<longleftrightarrow> bn_type nd = PRECONDITION \<and> aborts_lower (bn_abort nd) \<and> bn_parent nd = Some p \<and> N p = Some pd
     \<and> bn_type pd = SELECTOR \<and> i \<in> set (bn_children pd) \<and> find_child i (bn_children pd) < bn_index pd"

definition current_child :: "node \<Rightarrow> nat" where
  "current_child nd = bn_children nd ! bn_index nd"

definition aborted :: "nodes \<Rightarrow> nodes \<Rightarrow> nat \<Rightarrow> nat \<Rightarrow> node \<Rightarrow> bool" where
  "aborted N N' i p pd \<longleftrightarrow> agree N N' (below N i \<union> below N (current_child pd) \<union> {p})
     \<and> N' p = Some (pd\<lparr>bn_index := find_child i (bn_children pd)\<rparr>) \<and> quiet N' (current_child pd)"

definition frame_ok :: "nodes \<Rightarrow> nodes \<Rightarrow> node \<Rightarrow> nat \<Rightarrow> behavior_state \<Rightarrow> bool" where
  "frame_ok N N' nd i s \<longleftrightarrow> agree N N' (below N i) \<and> (\<forall>p pd. may_abort N nd i p pd \<longrightarrow> s \<noteq> RUNNING)
     \<or> (\<exists>p pd. may_abort N nd i p pd \<and> aborted N N' i p pd)"

definition abort_ready :: "(nat \<Rightarrow> nat) \<Rightarrow> nodes \<Rightarrow> node \<Rightarrow> nat \<Rightarrow> nat \<Rightarrow> bool" where
  "abort_ready rank N nd i n \<longleftrightarrow> (\<forall>p pd. may_abort N nd i p pd \<longrightarrow>
     bn_index pd < length (bn_children pd) \<and> all_ok N (current_child pd) \<and> rank p \<le> n)"

definition runs :: "(nat \<Rightarrow> nat) \<Rightarrow> (nat \<Rightarrow> 'w tree_state \<Rightarrow> (behavior_state \<times> 'w tree_state) option) \<Rightarrow> nat \<Rightarrow> bool" where
  "runs rank run n \<longleftrightarrow> (\<forall>N w i nd. wf_tree rank N \<longrightarrow> N i = Some nd \<longrightarrow> rank i < n \<longrightarrow> all_ok N i \<longrightarrow> abort_ready rank N nd i n \<longrightarrow>
     (\<exists>s N' w'. run i (N, w) = Some (s, (N', w')) \<and> same_shape N N' \<and> all_ok N' i \<and> (running N' i \<longleftrightarrow> s = RUNNING)
       \<and> frame_ok N N' nd i s))"

lemma runsE:
  assumes "runs rank run n" "wf_tree rank N" "N i = Some nd" "rank i < n" "all_ok N i" "abort_ready rank N nd i n"
  obtains s N' w' where "run i (N, w) = Some (s, (N', w'))" "same_shape N N'" "all_ok N' i" "running N' i \<longleftrightarrow> s = RUNNING" "frame_ok N N' nd i s"
  using assms unfolding runs_def by blast

lemma runs_plainE:
  assumes "runs rank run n" "wf_tree rank N" "N i = Some nd" "rank i < n" "all_ok N i" "\<And>p pd. \<not> may_abort N nd i p pd"
  obtains s N' w' where "run i (N, w) = Some (s, (N', w'))" "same_shape N N'" "all_ok N' i" "running N' i \<longleftrightarrow> s = RUNNING"
    "agree N N' (below N i)"
proof -
  have "abort_ready rank N nd i n" using assms(6) by (simp add: abort_ready_def)
  from assms(1-5) this obtain s N' w' where "run i (N, w) = Some (s, (N', w'))" "same_shape N N'" "all_ok N' i"
    "running N' i \<longleftrightarrow> s = RUNNING" "frame_ok N N' nd i s" by (rule runsE)
  then show ?thesis using that assms(6) by (auto simp: frame_ok_def)
qed

lemma runs_mono: "runs rank run n \<Longrightarrow> m \<le> n \<Longrightarrow> runs rank run m"
  unfolding runs_def
proof (intro allI impI)
  fix N w i nd
  assume all: "\<forall>N w i nd. wf_tree rank N \<longrightarrow> N i = Some nd \<longrightarrow> rank i < n \<longrightarrow> all_ok N i \<longrightarrow> abort_ready rank N nd i n \<longrightarrow>
     (\<exists>s N' w'. run i (N, w) = Some (s, (N', w')) \<and> same_shape N N' \<and> all_ok N' i \<and> (running N' i \<longleftrightarrow> s = RUNNING)
       \<and> frame_ok N N' nd i s)"
    and m: "m \<le> n" and hyps: "wf_tree rank N" "N i = Some nd" "rank i < m" "all_ok N i" "abort_ready rank N nd i m"
  have "rank i < n" using hyps(3) m by simp
  moreover have "abort_ready rank N nd i n" using hyps(5) le_trans [OF _ m] by (auto simp: abort_ready_def)
  ultimately show "\<exists>s N' w'. run i (N, w) = Some (s, (N', w')) \<and> same_shape N N' \<and> all_ok N' i \<and> (running N' i \<longleftrightarrow> s = RUNNING)
       \<and> frame_ok N N' nd i s" using all hyps(1,2,4) by blast
qed

lemma find_child_nth: "distinct cs \<Longrightarrow> k < length cs \<Longrightarrow> find_child (cs ! k) cs = k"
proof (induction cs arbitrary: k)
  case (Cons c cs)
  then show ?case by (cases k) auto
qed simp

text \<open>A child that is the current one, or whose parent is no selector, cannot abort another.\<close>

lemma kid_no_abort:
  assumes wf: "wf_tree rank N" and i: "N i = Some nd" "c \<in> set (kids nd)" "N c = Some cd"
    and cur: "bn_type nd = SELECTOR \<Longrightarrow> bn_index nd < length (bn_children nd) \<and> c = bn_children nd ! bn_index nd"
  shows "\<not> may_abort N cd c p pd"
proof
  assume m: "may_abort N cd c p pd"
  obtain cd' where "N c = Some cd'" "bn_parent cd' = Some i" by (rule wf_kid [OF wf i(1,2)])
  then have "p = i" "pd = nd" using m i by (auto simp: may_abort_def)
  then have sel: "bn_type nd = SELECTOR" "find_child c (bn_children nd) < bn_index nd" using m by (auto simp: may_abort_def)
  have "distinct (bn_children nd)" using wf_node [OF wf i(1)] sel(1) by (simp add: node_wf_def kids_def)
  then show False using find_child_nth cur [OF sel(1)] sel(2) by auto
qed

subsection \<open>The loops of the composite nodes\<close>

definition composite_ready :: "nodes \<Rightarrow> nat \<Rightarrow> node \<Rightarrow> bool" where
  "composite_ready N i nd \<longleftrightarrow> N i = Some nd \<and> one_current nd \<and> bn_index nd < length (bn_children nd)
     \<and> (\<forall>c \<in> set (kids nd). all_ok N c \<and> (running N c \<longrightarrow> c = current_child nd))"

lemma composite_kids: "one_current nd \<Longrightarrow> kids nd = bn_children nd"
  by (auto simp: one_current_def kids_def)

lemma current_child_kid: "composite_ready N i nd \<Longrightarrow> current_child nd \<in> set (kids nd)"
  by (simp add: composite_ready_def composite_kids current_child_def)

text \<open>A state of an update that leaves no other child running.\<close>

lemma composite_after:
  assumes "N i = Some nd" "one_current nd" "bn_index nd < length (bn_children nd) \<or> s \<noteq> RUNNING \<and> s \<noteq> IDLE"
    "\<And>c. c \<in> set (kids nd) \<Longrightarrow> all_ok N c" "\<And>c. c \<in> set (kids nd) \<Longrightarrow> running N c \<Longrightarrow> s = RUNNING \<and> c = current_child nd"
  shows "after_update N i s"
proof -
  have ty: "bn_type nd \<noteq> PRECONDITION" "bn_type nd \<noteq> PARALLEL" using assms(2) by (auto simp: one_current_def)
  show ?thesis unfolding after_update_def
  proof (intro exI conjI ballI impI)
    show "N i = Some nd" by (rule assms(1))
    show "all_ok N c" if "c \<in> set (kids nd)" for c by (rule assms(4) [OF that])
    show "if s = RUNNING then one_current nd \<longrightarrow> c = bn_children nd ! bn_index nd else stops nd s c"
      if "c \<in> set (kids nd)" "running N c" for c
      using assms(5) [OF that] by (simp add: current_child_def)
    show "can_go_on nd" if "s = RUNNING" using that assms(3) ty by (simp add: can_go_on_def)
  qed (use ty assms(3) in auto)
qed

lemma running_of: "N i = Some nd \<Longrightarrow> running N i \<longleftrightarrow> bn_state nd = RUNNING"
  by (simp add: running_def)

lemma composite_step:
  assumes runs: "runs rank run (rank i)" and wf: "wf_tree rank N" and ready: "composite_ready N i nd"
  shows "\<exists>s N' w'. run (current_child nd) (N, w) = Some (s, (N', w')) \<and> same_shape N N' \<and> agree N N' (below N i - {i}) \<and> N' i = Some nd
    \<and> (\<forall>c \<in> set (kids nd). all_ok N' c \<and> (running N' c \<longrightarrow> c = current_child nd \<and> s = RUNNING))"
proof -
  let ?c = "current_child nd"
  have i: "N i = Some nd" and ok: "\<And>c. c \<in> set (kids nd) \<Longrightarrow> all_ok N c \<and> (running N c \<longrightarrow> c = ?c)"
    and lt: "bn_index nd < length (bn_children nd)" using ready by (auto simp: composite_ready_def)
  note c = current_child_kid [OF ready]
  obtain cd where cd: "N ?c = Some cd" "rank ?c < rank i" using kid_exists [OF wf i c] by auto
  have no: "\<not> may_abort N cd ?c p pd" for p pd
    by (rule kid_no_abort [OF wf i c cd(1)]) (simp add: lt current_child_def)
  obtain s N' w' where r: "run ?c (N, w) = Some (s, (N', w'))" "same_shape N N'" "all_ok N' ?c" "running N' ?c \<longleftrightarrow> s = RUNNING"
    "agree N N' (below N ?c)"
    by (rule runs_plainE [OF runs wf cd _ no]) (use ok [OF c] in auto)
  note frame = kid_frame [OF wf i c r(5)]
  have "all_ok N' c' \<and> (running N' c' \<longrightarrow> c' = ?c \<and> s = RUNNING)" if "c' \<in> set (kids nd)" for c'
    using ok [OF that] r(3,4) frame(2,4) [OF that] by (cases "c' = ?c") auto
  moreover have "agree N N' (below N i - {i})" using r(5) kid_below [OF i c wf] unfolding agree_def by blast
  ultimately show ?thesis using r(1,2) frame(1) by blast
qed

lemma set_index:
  assumes "wf_tree rank N" "N i = Some nd"
  shows "update_field i (\<lambda>nd. nd\<lparr>bn_index := k\<rparr>) (N, w) = Some (N(i \<mapsto> nd\<lparr>bn_index := k\<rparr>), w)"
    and "same_shape N (N(i \<mapsto> nd\<lparr>bn_index := k\<rparr>))" "wf_tree rank (N(i \<mapsto> nd\<lparr>bn_index := k\<rparr>))"
    and "kids (nd\<lparr>bn_index := k\<rparr>) = kids nd" "agree N (N(i \<mapsto> nd\<lparr>bn_index := k\<rparr>)) {i}"
    and "c \<in> set (kids nd) \<Longrightarrow> all_ok (N(i \<mapsto> nd\<lparr>bn_index := k\<rparr>)) c = all_ok N c"
    and "c \<in> set (kids nd) \<Longrightarrow> running (N(i \<mapsto> nd\<lparr>bn_index := k\<rparr>)) c = running N c"
  using own_frame [OF assms, of "nd\<lparr>bn_index := k\<rparr>"] assms(2)
  by (simp_all add: update_field_def set_node_def shape_def)

lemma composite_loop_ok:
  assumes runs: "runs rank run (rank i)" and go: "go_on = FAILURE \<or> go_on = SUCCESS"
    and "wf_tree rank N" "composite_ready N i nd" "length (bn_children nd) \<le> m + bn_index nd"
  shows "\<exists>s N' w'. composite_loop go_on run i m (N, w) = Some (s, (N', w')) \<and> same_shape N N' \<and> agree N N' (below N i) \<and> after_update N' i s"
  using assms(3-)
proof (induction m arbitrary: N w nd)
  case 0
  then show ?case by (simp add: composite_ready_def)
next
  case (Suc m)
  note wf = Suc.prems(1) and ready = Suc.prems(2)
  have i: "N i = Some nd" and one: "one_current nd" and lt: "bn_index nd < length (bn_children nd)" using ready by (auto simp: composite_ready_def)
  have len: "length (bn_children nd) < 2 ^ 32" using wf_node [OF wf i] by (simp add: node_wf_def)
  obtain s N1 w1 where r: "run (current_child nd) (N, w) = Some (s, (N1, w1))" "same_shape N N1" "agree N N1 (below N i - {i})" "N1 i = Some nd"
    and kids: "\<And>c. c \<in> set (kids nd) \<Longrightarrow> all_ok N1 c \<and> (running N1 c \<longrightarrow> c = current_child nd \<and> s = RUNNING)"
    using composite_step [OF runs wf ready, of w] by blast
  have wf1: "wf_tree rank N1" by (rule wf_same_shape [OF wf r(2)])
  have ag1: "agree N N1 (below N i)" using r(3) unfolding agree_def by blast
  have run: "run (bn_children nd ! bn_index nd) (N, w) = Some (s, (N1, w1))" using r(1) by (simp add: current_child_def)
  show ?case
  proof (cases "s = go_on")
    case False
    have "after_update N1 i s" by (rule composite_after [where nd = nd]) (use r(4) one lt kids in auto)
    moreover have "composite_loop go_on run i (Suc m) (N, w) = Some (s, (N1, w1))" using i lt run False by (simp add: at_opt_def)
    ultimately show ?thesis using r(2) ag1 by blast
  next
    case True
    then have still: "all_ok N1 c \<and> \<not> running N1 c" if "c \<in> set (kids nd)" for c using kids [OF that] go by auto
    let ?k = "Suc (bn_index nd)"
    have wrap: "wrap32 (bn_index nd + 1) = ?k" using lt len by simp
    note upd = set_index [OF wf1 r(4)]
    show ?thesis
    proof (cases "?k = length (bn_children nd)")
      case True
      let ?N = "N1(i \<mapsto> nd\<lparr>bn_index := 0\<rparr>)"
      have "after_update ?N i go_on"
        by (rule composite_after [where nd = "nd\<lparr>bn_index := 0\<rparr>"]) (use go one still upd(4,6,7) in \<open>auto simp: one_current_def\<close>)
      moreover have "agree N ?N (below N i)" by (rule agree_trans [OF ag1 upd(5)]) simp
      moreover have "composite_loop go_on run i (Suc m) (N, w) = Some (go_on, (?N, w1))"
        using i lt run \<open>s = go_on\<close> r(4) True wrap upd(1) [of 0 w1] by (simp add: at_opt_def Let_def)
      ultimately show ?thesis using same_shape_trans [OF r(2) upd(2)] by blast
    next
      case False
      let ?nd = "nd\<lparr>bn_index := ?k\<rparr>"
      let ?N = "N1(i \<mapsto> ?nd)"
      have same: "same_shape N ?N" by (rule same_shape_trans [OF r(2) upd(2)])
      have ready': "composite_ready ?N i ?nd"
        unfolding composite_ready_def using False lt one still upd(4,6,7) by (auto simp: one_current_def)
      have le: "length (bn_children ?nd) \<le> m + bn_index ?nd" using Suc.prems(3) by simp
      obtain t N2 w2 where l: "composite_loop go_on run i m (?N, w1) = Some (t, (N2, w2))" "same_shape ?N N2" "agree ?N N2 (below ?N i)" "after_update N2 i t"
        using Suc.IH [OF upd(3) ready' le, of w1] by blast
      have "agree N ?N (below N i)" by (rule agree_trans [OF ag1 upd(5)]) simp
      then have "agree N N2 (below N i)" by (rule agree_trans [OF _ l(3)]) (simp add: below_same_shape [OF same])
      moreover have "composite_loop go_on run i (Suc m) (N, w) = Some (t, (N2, w2))"
        using i lt run \<open>s = go_on\<close> r(4) False wrap upd(1) [of ?k w1] l(1) by (simp add: at_opt_def Let_def)
      ultimately show ?thesis using same_shape_trans [OF same l(2)] l(4) by blast
    qed
  qed
qed

text \<open>The child a selector tries again can take over from its current child.\<close>

lemma reevaluated_aborts:
  assumes wf: "wf_tree rank N" and i: "N i = Some nd" and sel: "bn_type nd = SELECTOR" and k: "k < bn_index nd" "k < length (bn_children nd)"
    and re: "bn_reevaluation nd ! k" and c: "N (bn_children nd ! k) = Some cd"
  shows "may_abort N cd (bn_children nd ! k) i nd" and "find_child (bn_children nd ! k) (bn_children nd) = k"
proof -
  have w: "node_wf N rank i nd" by (rule wf_node [OF wf i])
  then have "bn_type cd = PRECONDITION \<and> aborts_lower (bn_abort cd)" using sel k(2) re c by (auto simp: node_wf_def)
  moreover have "distinct (bn_children nd)" using w sel by (simp add: node_wf_def kids_def)
  then show f: "find_child (bn_children nd ! k) (bn_children nd) = k" by (rule find_child_nth) (rule k(2))
  moreover have kid: "bn_children nd ! k \<in> set (kids nd)" using sel k(2) by (simp add: kids_def)
  obtain cd' where "N (bn_children nd ! k) = Some cd'" "bn_parent cd' = Some i" by (rule wf_kid [OF wf i kid])
  ultimately show "may_abort N cd (bn_children nd ! k) i nd" using c i sel k by (simp add: may_abort_def)
qed

lemma aborted_kids:
  assumes wf: "wf_tree rank N" and ready: "composite_ready N i nd" and c: "c \<in> set (kids nd)" and ne: "c \<noteq> current_child nd"
    and ab: "aborted N N' c i nd" and ok: "all_ok N' c" and c': "c' \<in> set (kids nd)"
  shows "all_ok N' c'" "running N' c' \<Longrightarrow> c' = c"
proof -
  have i: "N i = Some nd" and rdy: "\<And>c. c \<in> set (kids nd) \<Longrightarrow> all_ok N c \<and> (running N c \<longrightarrow> c = current_child nd)"
    using ready by (auto simp: composite_ready_def)
  have ag: "agree N N' (below N c \<union> below N (current_child nd) \<union> {i})" and q: "quiet N' (current_child nd)"
    using ab by (auto simp: aborted_def)
  note cur = current_child_kid [OF ready]
  have same: "N' q = N q" if "c' \<noteq> c" "c' \<noteq> current_child nd" "q \<in> below N c'" for q
    using agreeD [OF ag, of q] below_disjoint [OF wf i c' _ _ that(3)] not_below_child [OF wf i c'] that c cur by auto
  have other: "all_ok N' c' \<and> \<not> running N' c'" if "c' \<noteq> c" "c' \<noteq> current_child nd"
  proof -
    have "all_ok N' c' = all_ok N c'" by (rule all_ok_unchanged) (rule same [OF that])
    moreover have "running N' c' = running N c'" by (rule running_unchanged) (rule same [OF that below_self])
    ultimately show ?thesis using rdy [OF c'] that(2) by simp
  qed
  show "all_ok N' c'" using ok all_ok_quiet [OF q] other by blast
  show "running N' c' \<Longrightarrow> c' = c" using q below_self other unfolding quiet_def by blast
qed

lemma selector_reevaluate_ok:
  assumes runs: "runs rank run (rank i)" and wf: "wf_tree rank N"
    and "composite_ready N i nd" "bn_type nd = SELECTOR" "bn_index nd \<le> m + index"
  shows "\<exists>r N' w'. selector_reevaluate run i m index (N, w) = Some (r, (N', w')) \<and> same_shape N N' \<and> agree N N' (below N i)
    \<and> (case r of None \<Rightarrow> (\<exists>nd'. composite_ready N' i nd' \<and> bn_children nd' = bn_children nd) | Some s \<Rightarrow> after_update N' i s)"
  using assms(2-)
proof (induction m arbitrary: index N w)
  case 0
  then have "N i = Some nd" "\<not> index < bn_index nd" by (simp_all add: composite_ready_def)
  then show ?case using 0 by (intro exI [of _ None] exI [of _ N] exI [of _ w]) auto
next
  case (Suc m)
  note wf = Suc.prems(1) and ready = Suc.prems(2) and sel = Suc.prems(3)
  have i: "N i = Some nd" and one: "one_current nd" and lt: "bn_index nd < length (bn_children nd)"
    and rdy: "\<And>c. c \<in> set (kids nd) \<Longrightarrow> all_ok N c \<and> (running N c \<longrightarrow> c = current_child nd)"
    using ready by (auto simp: composite_ready_def)
  have w: "length (bn_children nd) < 2 ^ 32" "length (bn_reevaluation nd) = length (bn_children nd)" "distinct (bn_children nd)"
    using wf_node [OF wf i] sel by (simp_all add: node_wf_def kids_def)
  have le: "bn_index nd \<le> m + Suc index" using Suc.prems(4) by simp
  show ?case
  proof (cases "index < bn_index nd")
    case False
    then show ?thesis using i Suc.prems by (intro exI [of _ None] exI [of _ N] exI [of _ w]) auto
  next
    case k: True
    then have kl: "index < length (bn_children nd)" using lt by simp
    let ?c = "bn_children nd ! index"
    have c: "?c \<in> set (kids nd)" using kl one by (simp add: composite_kids)
    have ne: "?c \<noteq> current_child nd" using nth_eq_iff_index_eq [OF w(3) kl lt] k by (simp add: current_child_def)
    obtain cd where cd: "N ?c = Some cd" "rank ?c < rank i" using kid_exists [OF wf i c] by auto
    show ?thesis
    proof (cases "bn_reevaluation nd ! index")
      case False
      then show ?thesis using Suc.IH [OF wf ready sel le, of w] i k kl w(2) by (simp add: at_opt_def)
    next
      case re: True
      note may = reevaluated_aborts [OF wf i sel k kl re cd(1)]
      have unique: "p = i \<and> pd = nd" if "may_abort N cd ?c p pd" for p pd using may(1) that i by (auto simp: may_abort_def)
      have "abort_ready rank N cd ?c (rank i)"
        unfolding abort_ready_def using unique lt rdy [OF current_child_kid [OF ready]] by blast
      then obtain s N1 w1 where r: "run ?c (N, w) = Some (s, (N1, w1))" "same_shape N N1" "all_ok N1 ?c" "running N1 ?c \<longleftrightarrow> s = RUNNING" "frame_ok N N1 cd ?c s"
        using runsE [OF runs wf cd _ _] rdy [OF c] by metis
      have wf1: "wf_tree rank N1" by (rule wf_same_shape [OF wf r(2)])
      have run: "selector_reevaluate run i (Suc m) index (N, w) = (do {
          nd1 \<leftarrow> N1 i;
          if index = bn_index nd1 then
            if s \<noteq> FAILURE then Some (Some s, (N1, w1))
            else do { st2 \<leftarrow> update_field i (\<lambda>nd. nd\<lparr>bn_index := wrap32 (bn_index nd + 1)\<rparr>) (N1, w1); Some (None, st2) }
          else selector_reevaluate run i m (Suc index) (N1, w1) })"
        using i k kl w(2) re r(1) by (simp add: at_opt_def)
      consider (plain) "agree N N1 (below N ?c)" "s \<noteq> RUNNING" | (taken) "aborted N N1 ?c i nd"
        using r(5) may(1) unique unfolding frame_ok_def by blast
      then show ?thesis
      proof cases
        case plain
        note frame = kid_frame [OF wf i c plain(1)]
        have "all_ok N1 c' \<and> (running N1 c' \<longrightarrow> c' = current_child nd)" if "c' \<in> set (kids nd)" for c'
          using frame(2,4) [OF that] r(3,4) plain(2) rdy [OF that] by (cases "c' = ?c") auto
        then have ready1: "composite_ready N1 i nd" using frame(1) one lt by (simp add: composite_ready_def)
        have ag: "agree N N1 (below N i)" by (rule agree_mono [OF plain(1)]) (use kid_below [OF i c wf] in blast)
        obtain x N2 w2 where l: "selector_reevaluate run i m (Suc index) (N1, w1) = Some (x, (N2, w2))" "same_shape N1 N2" "agree N1 N2 (below N1 i)"
          "case x of None \<Rightarrow> (\<exists>nd'. composite_ready N2 i nd' \<and> bn_children nd' = bn_children nd) | Some s \<Rightarrow> after_update N2 i s"
          using Suc.IH [OF wf1 ready1 sel le, of w1] by blast
        have "agree N N2 (below N i)" by (rule agree_trans [OF ag l(3)]) (simp add: below_same_shape [OF r(2)])
        moreover have "selector_reevaluate run i (Suc m) index (N, w) = Some (x, (N2, w2))" using run frame(1) k l(1) by simp
        ultimately show ?thesis using same_shape_trans [OF r(2) l(2)] l(4) by blast
      next
        case taken
        let ?nd = "nd\<lparr>bn_index := index\<rparr>"
        have N1i: "N1 i = Some ?nd" using taken may(2) by (simp add: aborted_def)
        have kd: "kids ?nd = kids nd" "one_current ?nd" using one by (simp_all add: kids_def one_current_def cong: behavior_type.case_cong)
        note kids1 = aborted_kids [OF wf ready c ne taken r(3)]
        have curc: "current_child ?nd = ?c" by (simp add: current_child_def)
        have sub: "below N ?c \<union> below N (current_child nd) \<union> {i} \<subseteq> below N i"
          using kid_below [OF i c wf] kid_below [OF i current_child_kid [OF ready] wf] by auto
        have ag: "agree N N1 (below N i)" by (rule agree_mono [OF _ sub]) (use taken in \<open>simp add: aborted_def\<close>)
        show ?thesis
        proof (cases "s = FAILURE")
          case False
          have "after_update N1 i s"
            by (rule composite_after [where nd = ?nd]) (use N1i kd kl kids1 r(4) curc in auto)
          then show ?thesis using run N1i r(2) ag False by (intro exI [of _ "Some s"] exI [of _ N1] exI [of _ w1]) simp
        next
          case True
          let ?k = "Suc index"
          let ?nd' = "?nd\<lparr>bn_index := ?k\<rparr>"
          let ?N = "N1(i \<mapsto> ?nd')"
          note upd = set_index [OF wf1 N1i]
          have "wrap32 (index + 1) = ?k" using kl w(1) by simp
          then have "selector_reevaluate run i (Suc m) index (N, w) = Some (None, (?N, w1))"
            using run N1i True by (simp add: update_field_def set_node_def)
          moreover have "composite_ready ?N i ?nd'"
            unfolding composite_ready_def using lt k one kids1 r(4) True upd kd by (auto simp: one_current_def)
          moreover have "agree N ?N (below N i)" by (rule agree_trans [OF ag upd(5)]) simp
          moreover have "same_shape N ?N" using same_shape_trans [OF r(2) upd(2)] .
          moreover have "bn_children ?nd' = bn_children nd" by simp
          ultimately show ?thesis
            by (intro exI [of _ None] exI [of _ ?N] exI [of _ w1]) (simp only: option.case, blast)
        qed
      qed
    qed
  qed
qed

text \<open>The loop of the parallel node.\<close>

definition parallel_ready :: "nodes \<Rightarrow> nat \<Rightarrow> node \<Rightarrow> bool" where
  "parallel_ready N i nd \<longleftrightarrow> N i = Some nd \<and> bn_type nd = PARALLEL \<and> length (bn_done nd) = length (bn_children nd)
     \<and> (\<forall>c \<in> set (kids nd). all_ok N c)"

lemma parallel_after: "parallel_ready N i nd \<Longrightarrow> after_update N i s"
  by (auto simp: parallel_ready_def after_update_def stops_def can_go_on_def one_current_def)

lemma parallel_upd:
  assumes wf: "wf_tree rank N" and ready: "parallel_ready N i nd" and len: "length d = length (bn_children nd)"
    and nd': "nd' = nd\<lparr>bn_done := d, bn_success := s, bn_failure := f\<rparr>"
  shows "parallel_ready (N(i \<mapsto> nd')) i nd'" "same_shape N (N(i \<mapsto> nd'))" "wf_tree rank (N(i \<mapsto> nd'))" "agree N (N(i \<mapsto> nd')) {i}"
proof -
  have i: "N i = Some nd" using ready by (simp add: parallel_ready_def)
  have "shape nd' = shape nd" by (simp add: nd' shape_def)
  note own = own_frame [OF wf i this]
  show "same_shape N (N(i \<mapsto> nd'))" "wf_tree rank (N(i \<mapsto> nd'))" "agree N (N(i \<mapsto> nd')) {i}" by (rule own)+
  have k: "kids nd' = kids nd" by (rule own(3))
  have "bn_type nd' = PARALLEL" "length (bn_done nd') = length (bn_children nd')" using ready len by (simp_all add: nd' parallel_ready_def)
  moreover have "\<forall>c \<in> set (kids nd'). all_ok (N(i \<mapsto> nd')) c" using k own(5) ready by (simp add: parallel_ready_def)
  ultimately show "parallel_ready (N(i \<mapsto> nd')) i nd'" by (simp add: parallel_ready_def)
qed

lemma parallel_loop_ok:
  assumes runs: "runs rank run (rank i)"
    and "wf_tree rank N" "parallel_ready N i nd" "set idxs \<subseteq> {..< length (bn_children nd)}"
  shows "\<exists>s N' w'. parallel_loop run i idxs (N, w) = Some (s, (N', w')) \<and> same_shape N N' \<and> agree N N' (below N i) \<and> after_update N' i s"
  using assms(2-)
proof (induction idxs arbitrary: N w nd)
  case Nil
  then show ?case using parallel_after by (intro exI [of _ RUNNING] exI [of _ N] exI [of _ w]) auto
next
  case (Cons k idxs)
  note wf = Cons.prems(1) and ready = Cons.prems(2)
  have i: "N i = Some nd" and ty: "bn_type nd = PARALLEL" and len: "length (bn_done nd) = length (bn_children nd)"
    and ok: "\<And>c. c \<in> set (kids nd) \<Longrightarrow> all_ok N c" using ready by (auto simp: parallel_ready_def)
  have k: "k < length (bn_children nd)" and rest: "set idxs \<subseteq> {..< length (bn_children nd)}" using Cons.prems(3) by auto
  show ?case
  proof (cases "bn_done nd ! k")
    case True
    then show ?thesis using Cons.IH [OF wf ready rest, of w] i k len by (simp add: at_opt_def)
  next
    case False
    let ?c = "bn_children nd ! k"
    have c: "?c \<in> set (kids nd)" using k ty by (simp add: kids_def)
    obtain cd where cd: "N ?c = Some cd" "rank ?c < rank i" using kid_exists [OF wf i c] by auto
    have no: "\<not> may_abort N cd ?c p pd" for p pd by (rule kid_no_abort [OF wf i c cd(1)]) (simp add: ty)
    obtain s N1 w1 where r: "run ?c (N, w) = Some (s, (N1, w1))" "same_shape N N1" "all_ok N1 ?c" "running N1 ?c \<longleftrightarrow> s = RUNNING"
      "agree N N1 (below N ?c)" by (rule runs_plainE [OF runs wf cd ok [OF c] no])
    note frame = kid_frame [OF wf i c r(5)]
    have wf1: "wf_tree rank N1" by (rule wf_same_shape [OF wf r(2)])
    have "all_ok N1 c'" if "c' \<in> set (kids nd)" for c' using frame(2) [OF that] ok [OF that] r(3) by (cases "c' = ?c") auto
    then have ready1: "parallel_ready N1 i nd" using frame(1) ty len by (simp add: parallel_ready_def)
    have ag: "agree N N1 (below N i)" by (rule agree_mono [OF r(5)]) (use kid_below [OF i c wf] in blast)
    have go_on: "\<exists>s N' w'. parallel_loop run i idxs (N2, w1) = Some (s, (N', w')) \<and> same_shape N N' \<and> agree N N' (below N i) \<and> after_update N' i s"
      if "wf_tree rank N2" "parallel_ready N2 i nd2" "bn_children nd2 = bn_children nd" "same_shape N N2" "agree N N2 (below N i)" for N2 nd2
    proof -
      note hyps = that
      have idxs: "set idxs \<subseteq> {..< length (bn_children nd2)}" using rest hyps(3) by simp
      obtain t N3 w3 where l: "parallel_loop run i idxs (N2, w1) = Some (t, (N3, w3))" "same_shape N2 N3" "agree N2 N3 (below N2 i)" "after_update N3 i t"
        using Cons.IH [OF hyps(1,2) idxs, of w1] by blast
      have "agree N N3 (below N i)" by (rule agree_trans [OF hyps(5) l(3)]) (simp add: below_same_shape [OF hyps(4)])
      then show ?thesis using l same_shape_trans [OF hyps(4) l(2)] by blast
    qed
    have run: "parallel_loop run i (k # idxs) (N, w) = (
        if s = SUCCESS then do {
          st2 \<leftarrow> update_field i (\<lambda>nd. nd\<lparr>bn_done := (bn_done nd)[k := True], bn_success := wrap32 (bn_success nd + 1)\<rparr>) (N1, w1);
          nd2 \<leftarrow> fst st2 i;
          if bn_success nd2 \<ge> bn_threshold nd2 then Some (SUCCESS, st2) else parallel_loop run i idxs st2 }
        else if s = FAILURE then do {
          st2 \<leftarrow> update_field i (\<lambda>nd. nd\<lparr>bn_done := (bn_done nd)[k := True], bn_failure := wrap32 (bn_failure nd + 1)\<rparr>) (N1, w1);
          nd2 \<leftarrow> fst st2 i;
          if bn_failure nd2 \<ge> failures_allowed (length (bn_children nd2)) (bn_threshold nd2) then Some (FAILURE, st2)
          else parallel_loop run i idxs st2 }
        else parallel_loop run i idxs (N1, w1))"
      using i k len False r(1) by (simp add: at_opt_def)
    have counted: ?thesis
      if eq: "parallel_loop run i (k # idxs) (N, w) = (if stop then Some (s, (N1(i \<mapsto> nd2), w1)) else parallel_loop run i idxs (N1(i \<mapsto> nd2), w1))"
        and nd2: "nd2 = nd\<lparr>bn_done := (bn_done nd)[k := True], bn_success := a, bn_failure := b\<rparr>" for stop nd2 a b
    proof -
      have d: "length ((bn_done nd)[k := True]) = length (bn_children nd)" by (simp add: len)
      note upd = parallel_upd [OF wf1 ready1 d nd2]
      have same: "same_shape N (N1(i \<mapsto> nd2))" by (rule same_shape_trans [OF r(2) upd(2)])
      have ag2: "agree N (N1(i \<mapsto> nd2)) (below N i)" by (rule agree_trans [OF ag upd(4)]) simp
      have "bn_children nd2 = bn_children nd" by (simp add: nd2)
      note step = go_on [OF upd(3,1) this same ag2]
      show ?thesis using eq step parallel_after [OF upd(1)] same ag2 by (cases stop) auto
    qed
    show ?thesis
    proof (cases s)
      case SUCCESS
      let ?nd = "nd\<lparr>bn_done := (bn_done nd)[k := True], bn_success := wrap32 (bn_success nd + 1), bn_failure := bn_failure nd\<rparr>"
      have "parallel_loop run i (k # idxs) (N, w) = (if bn_threshold nd \<le> wrap32 (bn_success nd + 1) then Some (s, (N1(i \<mapsto> ?nd), w1))
        else parallel_loop run i idxs (N1(i \<mapsto> ?nd), w1))"
        by (subst run) (simp add: SUCCESS frame(1) update_field_def set_node_def)
      then show ?thesis by (rule counted [OF _ refl])
    next
      case FAILURE
      let ?nd = "nd\<lparr>bn_done := (bn_done nd)[k := True], bn_success := bn_success nd, bn_failure := wrap32 (bn_failure nd + 1)\<rparr>"
      have "parallel_loop run i (k # idxs) (N, w) = (if failures_allowed (length (bn_children nd)) (bn_threshold nd) \<le> wrap32 (bn_failure nd + 1) then Some (s, (N1(i \<mapsto> ?nd), w1))
        else parallel_loop run i idxs (N1(i \<mapsto> ?nd), w1))"
        by (subst run) (simp add: FAILURE frame(1) update_field_def set_node_def)
      then show ?thesis by (rule counted [OF _ refl])
    qed (use go_on [OF wf1 ready1 refl r(2) ag] in \<open>simp_all only: run behavior_state.simps if_False\<close>)
  qed
qed

subsection \<open>The whole tick\<close>

definition ready :: "nodes \<Rightarrow> nat \<Rightarrow> node \<Rightarrow> bool" where
  "ready N i nd \<longleftrightarrow> N i = Some nd \<and> (\<forall>c \<in> set (kids nd). all_ok N c \<and> (running N c \<longrightarrow> one_current nd \<longrightarrow> c = current_child nd))
     \<and> (one_current nd \<longrightarrow> bn_children nd \<noteq> [] \<longrightarrow> bn_index nd < length (bn_children nd))
     \<and> (bn_type nd = PARALLEL \<longrightarrow> length (bn_done nd) = length (bn_children nd))"

lemma init_ok:
  assumes wf: "wf_tree rank N" and i: "N i = Some nd" and ok: "all_ok N i"
  shows "\<exists>N' w' nd'. (if bn_state nd \<noteq> RUNNING then on_initialize B i (N, w) else Some (N, w)) = Some (N', w') \<and> same_shape N N'
    \<and> agree N N' {i} \<and> ready N' i nd' \<and> shape nd' = shape nd \<and> (bn_type nd = PRECONDITION \<longrightarrow> N' = N)"
proof (cases "bn_state nd = RUNNING")
  case True
  then have "can_go_on nd" "\<And>c. c \<in> set (kids nd) \<Longrightarrow> running N c \<Longrightarrow> one_current nd \<Longrightarrow> c = current_child nd"
    using all_ok_self [OF ok] i by (auto simp: node_ok_def current_child_def)
  then have "ready N i nd" using i all_ok_kid [OF ok i] by (simp add: ready_def can_go_on_def)
  then show ?thesis using True by auto
next
  case False
  have still: "all_ok N c" "\<not> running N c" if "c \<in> set (kids nd)" for c
    using all_ok_kid [OF ok i that] all_ok_self [OF ok] i that False by (auto simp: node_ok_def)
  have upd: ?thesis if eq: "on_initialize B i (N, w) = Some (N(i \<mapsto> nd'), w)" and sh: "shape nd' = shape nd"
    and ty: "bn_type nd \<noteq> PRECONDITION" and fields: "one_current nd' \<longrightarrow> bn_index nd' = 0"
      "bn_type nd' = PARALLEL \<longrightarrow> length (bn_done nd') = length (bn_children nd')" for nd'
  proof -
    note own = own_frame [OF wf i sh]
    have "ready (N(i \<mapsto> nd')) i nd'" using own(3,5,6) still fields by (auto simp: ready_def)
    then show ?thesis using own(1,4) eq sh ty False by auto
  qed
  have "ready N i nd" if "kids nd = [] \<or> bn_type nd = PRECONDITION" "\<not> one_current nd" "bn_type nd \<noteq> PARALLEL"
    using that i still by (auto simp: ready_def)
  then have same: ?thesis if "bn_type nd = ACTION \<or> bn_type nd = PRECONDITION"
    using that False i by (auto simp: on_initialize_def one_current_def kids_def)
  show ?thesis
  proof (cases "bn_type nd")
    case PARALLEL
    show ?thesis by (rule upd [of "nd\<lparr>bn_failure := 0, bn_success := 0, bn_done := replicate (length (bn_children nd)) False\<rparr>"])
      (use PARALLEL i in \<open>simp_all add: on_initialize_def update_field_def set_node_def shape_def one_current_def\<close>)
  next
    case SELECTOR
    show ?thesis by (rule upd [of "nd\<lparr>bn_index := 0\<rparr>"])
      (use SELECTOR i in \<open>simp_all add: on_initialize_def update_field_def set_node_def shape_def one_current_def\<close>)
  next
    case SEQUENCE
    show ?thesis by (rule upd [of "nd\<lparr>bn_index := 0\<rparr>"])
      (use SEQUENCE i in \<open>simp_all add: on_initialize_def update_field_def set_node_def shape_def one_current_def\<close>)
  qed (use same in auto)
qed

lemma ready_composite: "ready N i nd \<Longrightarrow> one_current nd \<Longrightarrow> bn_children nd \<noteq> [] \<Longrightarrow> composite_ready N i nd"
  by (simp add: ready_def composite_ready_def)

lemma childless_after: "N i = Some nd \<Longrightarrow> kids nd = [] \<Longrightarrow> s = SUCCESS \<or> bn_type nd = ACTION \<Longrightarrow> after_update N i s"
  by (auto simp: after_update_def can_go_on_def one_current_def)

lemma update_ok:
  assumes runs: "runs rank run (rank i)" and wf: "wf_tree rank N" and rdy: "ready N i nd" and ty: "bn_type nd \<noteq> PRECONDITION"
  shows "\<exists>s N' w'. update_node B run rst i (N, w) = Some (s, (N', w')) \<and> same_shape N N' \<and> agree N N' (below N i) \<and> after_update N' i s"
proof -
  have i: "N i = Some nd" using rdy by (simp add: ready_def)
  have empty: ?thesis if "update_node B run rst i (N, w) = Some (SUCCESS, (N, w))" "kids nd = []"
  proof -
    have "after_update N i SUCCESS" by (rule childless_after [where nd = nd]) (use i that in auto)
    then show ?thesis using that(1) by (intro exI [of _ SUCCESS] exI [of _ N] exI [of _ w]) simp
  qed
  show ?thesis
  proof (cases "bn_type nd")
    case ACTION
    obtain s w' where u: "action_update B i w = (s, w')" by (cases "action_update B i w") auto
    have "after_update N i s" by (rule childless_after [where nd = nd]) (simp_all add: i ACTION kids_def)
    then show ?thesis using i u ACTION by (simp add: update_node_def)
  next
    case PARALLEL
    show ?thesis
    proof (cases "bn_children nd = []")
      case True
      then show ?thesis by (intro empty) (use i PARALLEL in \<open>simp_all add: update_node_def parallel_update_def kids_def\<close>)
    next
      case False
      have "parallel_ready N i nd" using rdy PARALLEL by (simp add: ready_def parallel_ready_def)
      then have "\<exists>s N' w'. parallel_loop run i [0..<length (bn_children nd)] (N, w) = Some (s, (N', w')) \<and> same_shape N N' \<and> agree N N' (below N i) \<and> after_update N' i s"
        by (rule parallel_loop_ok [OF runs wf]) auto
      then show ?thesis using i PARALLEL False by (simp add: update_node_def parallel_update_def)
    qed
  next
    case SEQUENCE
    show ?thesis
    proof (cases "bn_children nd = []")
      case True
      then show ?thesis by (intro empty) (use i SEQUENCE in \<open>simp_all add: update_node_def sequence_update_def kids_def\<close>)
    next
      case False
      have rc: "composite_ready N i nd" by (rule ready_composite [OF rdy _ False]) (simp add: one_current_def SEQUENCE)
      have "\<exists>s N' w'. composite_loop SUCCESS run i (length (bn_children nd)) (N, w) = Some (s, (N', w')) \<and> same_shape N N' \<and> agree N N' (below N i) \<and> after_update N' i s"
        by (rule composite_loop_ok [OF runs _ wf rc]) simp_all
      then show ?thesis using i SEQUENCE False by (simp add: update_node_def sequence_update_def)
    qed
  next
    case SELECTOR
    show ?thesis
    proof (cases "bn_children nd = []")
      case True
      then show ?thesis by (intro empty) (use i SELECTOR in \<open>simp_all add: update_node_def selector_update_def kids_def\<close>)
    next
      case False
      let ?n = "length (bn_children nd)"
      have rc: "composite_ready N i nd" by (rule ready_composite [OF rdy _ False]) (simp add: one_current_def SELECTOR)
      then have "bn_index nd \<le> ?n + 0" by (simp add: composite_ready_def)
      from selector_reevaluate_ok [OF runs wf rc SELECTOR this]
      obtain r N1 w1 where r: "selector_reevaluate run i ?n 0 (N, w) = Some (r, (N1, w1))" "same_shape N N1" "agree N N1 (below N i)"
        "case r of None \<Rightarrow> (\<exists>nd'. composite_ready N1 i nd' \<and> bn_children nd' = bn_children nd) | Some s \<Rightarrow> after_update N1 i s" by blast
      show ?thesis
      proof (cases r)
        case (Some s)
        then show ?thesis using r i SELECTOR False by (simp add: update_node_def selector_update_def)
      next
        case None
        then obtain nd' where nd': "composite_ready N1 i nd'" "bn_children nd' = bn_children nd" using r(4) by auto
        have le: "length (bn_children nd') \<le> ?n + bn_index nd'" using nd'(2) by simp
        obtain s N2 w2 where l: "composite_loop FAILURE run i ?n (N1, w1) = Some (s, (N2, w2))" "same_shape N1 N2" "agree N1 N2 (below N1 i)" "after_update N2 i s"
          using composite_loop_ok [OF runs _ wf_same_shape [OF wf r(2)] nd'(1) le, of FAILURE w1] by blast
        have "agree N N2 (below N i)" by (rule agree_trans [OF r(3) l(3)]) (simp add: below_same_shape [OF r(2)])
        moreover have "update_node B run rst i (N, w) = Some (s, (N2, w2))"
          using r(1) l(1) i SELECTOR False None by (simp add: update_node_def selector_update_def)
        ultimately show ?thesis using same_shape_trans [OF r(2) l(2)] l(4) by blast
      qed
    qed
  qed (use ty in simp)
qed

text \<open>A precondition runs its child when its reevaluation passes; the current child of its parent may have
  been stopped by then.\<close>

definition after_frame :: "nodes \<Rightarrow> nodes \<Rightarrow> node \<Rightarrow> nat \<Rightarrow> behavior_state \<Rightarrow> bool" where
  "after_frame N N' nd i s \<longleftrightarrow> same_shape N N' \<and> frame_ok N N' nd i s \<and> after_update N' i s"

lemma precondition_failed:
  assumes "N i = Some nd" "bn_type nd = PRECONDITION" "bn_child nd = Some c" "all_ok N c"
  shows "after_frame N N nd i FAILURE"
  using assms by (auto simp: after_frame_def frame_ok_def after_update_def stops_def kids_def one_current_def)

lemma precondition_result:
  assumes "N i = Some nd" "bn_type nd = PRECONDITION" "bn_child nd = Some c" "all_ok N c" "running N c \<longleftrightarrow> s = RUNNING"
  shows "after_update N i s"
  unfolding after_update_def
proof (intro exI conjI ballI impI)
  show "N i = Some nd" by (rule assms(1))
  show "all_ok N c'" if "c' \<in> set (kids nd)" for c' using that assms(2-4) by (simp add: kids_def)
  show "if s = RUNNING then one_current nd \<longrightarrow> c' = bn_children nd ! bn_index nd else stops nd s c'"
    if "c' \<in> set (kids nd)" "running N c'" for c'
    using that assms(2,3,5) by (simp add: kids_def one_current_def)
  show "can_go_on nd" using assms(2,3) by (simp add: can_go_on_def one_current_def)
qed (use assms(2,3) in \<open>simp_all add: one_current_def\<close>)

lemma run_precondition_child:
  assumes runs: "runs rank run (rank i)" and wf: "wf_tree rank N" and i: "N i = Some nd" and ty: "bn_type nd = PRECONDITION"
    and c: "bn_child nd = Some c" and ok: "all_ok N c"
  shows "\<exists>s N' w'. run c (N, w) = Some (s, (N', w')) \<and> same_shape N N' \<and> agree N N' (below N c) \<and> after_update N' i s"
proof -
  have kid: "c \<in> set (kids nd)" using ty c by (simp add: kids_def)
  obtain cd where cd: "N c = Some cd" "rank c < rank i" using kid_exists [OF wf i kid] by auto
  have no: "\<not> may_abort N cd c p pd" for p pd by (rule kid_no_abort [OF wf i kid cd(1)]) (simp add: ty)
  obtain s N1 w1 where r: "run c (N, w) = Some (s, (N1, w1))" "same_shape N N1" "all_ok N1 c" "running N1 c \<longleftrightarrow> s = RUNNING"
    "agree N N1 (below N c)" by (rule runs_plainE [OF runs wf cd ok no])
  have "after_update N1 i s" by (rule precondition_result [where nd = nd]) (use kid_frame(1) [OF wf i kid r(5)] ty c r(3,4) in auto)
  then show ?thesis using r by blast
qed

lemma self_reevaluation_result:
  assumes "bn_child nd = Some c" "N c = Some cd"
  shows "\<exists>b w'. self_reevaluation B i nd (N, w) = Some (b, (N, w'))"
proof -
  obtain b w' where "precondition B i (N, w) = (b, (N, w'))"
    by (cases "precondition_function B i"; cases "the (precondition_function B i) w") (auto simp: precondition_def)
  then show ?thesis using assms by (auto simp: self_reevaluation_def)
qed

lemma find_child_less: "i \<in> set cs \<longleftrightarrow> find_child i cs < length cs" "find_child i cs \<le> length cs"
  by (induction cs) auto

lemma aborted_by:
  assumes wf: "wf_tree rank N" and i: "N i = Some nd" and may: "may_abort N nd i p pd"
  shows "i \<in> set (kids pd)" "p \<notin> below N i" and "bn_index pd < length (bn_children pd) \<Longrightarrow> current_child pd \<in> set (kids pd) \<and> current_child pd \<noteq> i"
proof -
  have m: "N p = Some pd" "bn_type pd = SELECTOR" "i \<in> set (bn_children pd)" "find_child i (bn_children pd) < bn_index pd"
    using may by (simp_all add: may_abort_def)
  show k: "i \<in> set (kids pd)" using m by (simp add: kids_def)
  show "p \<notin> below N i" by (rule not_below_child [OF wf m(1) k])
  have d: "distinct (bn_children pd)" using wf_node [OF wf m(1)] m(2) by (simp add: node_wf_def kids_def)
  show "current_child pd \<in> set (kids pd) \<and> current_child pd \<noteq> i" if "bn_index pd < length (bn_children pd)"
    using that m(2,4) find_child_nth [OF d that] by (auto simp: kids_def current_child_def)
qed

lemma abort_ok:
  assumes runs: "runs rank run (rank i)" and rst: "resets rank rst n" and wf: "wf_tree rank N" and i: "N i = Some nd"
    and c: "bn_child nd = Some c" "all_ok N c" and may: "may_abort N nd i p pd" and lt: "bn_index pd < length (bn_children pd)"
    and sib: "all_ok N (current_child pd)" and rank: "rank p \<le> n"
  shows "\<exists>N1 w1 s N' w'. rst (current_child pd) (N, w) = Some (N1, w1)
    \<and> update_field p (\<lambda>x. x\<lparr>bn_index := find_child i (bn_children pd)\<rparr>) (N1, w1) = Some (N1(p \<mapsto> pd\<lparr>bn_index := find_child i (bn_children pd)\<rparr>), w1)
    \<and> run c (N1(p \<mapsto> pd\<lparr>bn_index := find_child i (bn_children pd)\<rparr>), w1) = Some (s, (N', w')) \<and> after_frame N N' nd i s"
proof -
  let ?k = "find_child i (bn_children pd)"
  let ?c = "current_child pd"
  note ab = aborted_by [OF wf i may]
  have p: "N p = Some pd" and ty: "bn_type nd = PRECONDITION" using may by (simp_all add: may_abort_def)
  have cur: "?c \<in> set (kids pd)" "?c \<noteq> i" using ab(3) [OF lt] by simp_all
  have kid: "c \<in> set (kids nd)" using ty c(1) by (simp add: kids_def)
  have ex: "N ?c \<noteq> None" "rank ?c < n" using kid_exists [OF wf p cur(1)] rank by auto
  obtain N1 w1 where r: "rst ?c (N, w) = Some (N1, w1)" "same_shape N N1" "agree N N1 (below N ?c)" "quiet N1 ?c"
    by (rule resetsE [OF rst wf ex sib])
  note frame = kid_frame [OF wf p cur(1) r(3)]
  have wf1: "wf_tree rank N1" by (rule wf_same_shape [OF wf r(2)])
  note upd = set_index [OF wf1 frame(1)]
  let ?N = "N1(p \<mapsto> pd\<lparr>bn_index := ?k\<rparr>)"
  have same: "same_shape N ?N" by (rule same_shape_trans [OF r(2) upd(2)])
  have far: "q \<notin> below N ?c" if "q \<in> below N i" for q by (rule below_disjoint [OF wf p ab(1) cur(1) cur(2) [symmetric] that])
  have Ni: "?N q = N q" if "q \<in> below N i" for q using agreeD [OF r(3) far [OF that]] that ab(2) by auto
  have okc: "all_ok ?N c" using all_ok_unchanged [of N c ?N] Ni below_child [of N i nd c, OF i kid] c(2) by simp
  have "?N i = Some nd" using Ni [OF below_self] i by simp
  from run_precondition_child [OF runs upd(3) this ty c(1) okc]
  obtain s N2 w2 where s: "run c (?N, w1) = Some (s, (N2, w2))" "same_shape ?N N2" "agree ?N N2 (below ?N c)" "after_update N2 i s" by blast
  have bel: "below ?N = below N" by (rule below_same_shape [OF same])
  have sub: "below N c \<subseteq> below N i" using below_child [of N i nd c, OF i kid] by blast
  have "aborted N N2 i p pd"
    unfolding aborted_def
  proof (intro conjI)
    have "agree N ?N (below N ?c \<union> {p})" by (rule agree_trans [OF r(3) upd(5)]) simp
    then show "agree N N2 (below N i \<union> below N ?c \<union> {p})" by (rule agree_trans [OF _ s(3)]) (use sub bel in auto)
    show "N2 p = Some (pd\<lparr>bn_index := ?k\<rparr>)" using agreeD [OF s(3), of p] sub ab(2) bel by auto
    have "N2 q = N1 q" if q: "q \<in> below N1 ?c" for q
    proof -
      have q': "q \<in> below N ?c" using q below_same_shape [OF r(2)] by simp
      then have "q \<notin> below N c" using far sub by blast
      moreover have "q \<noteq> p" using not_below_child [OF wf p cur(1)] q' by blast
      ultimately show ?thesis using agreeD [OF s(3), of q] bel by simp
    qed
    then have "quiet N2 ?c = quiet N1 ?c" by (rule quiet_unchanged)
    then show "quiet N2 ?c" using r(4) by simp
  qed
  then have "after_frame N N2 nd i s"
    using may s(4) same_shape_trans [OF same s(2)] unfolding after_frame_def frame_ok_def by blast
  moreover have "update_field p (\<lambda>x. x\<lparr>bn_index := find_child i (bn_children pd)\<rparr>) (N1, w1) = Some (?N, w1)"
    using frame(1) by (simp add: update_field_def set_node_def)
  ultimately show ?thesis using r(1) s(1) by blast
qed

lemma self_update_ok:
  assumes runs: "runs rank run (rank i)" and wf: "wf_tree rank N" and i: "N i = Some nd" and ty: "bn_type nd = PRECONDITION"
    and c: "bn_child nd = Some c" "all_ok N c" and no: "\<And>p pd. \<not> may_abort N nd i p pd"
  shows "\<exists>s N' w'. (do { (holds, st1) \<leftarrow> self_reevaluation B i nd (N, w); if holds then run c st1 else Some (FAILURE, st1) }) = Some (s, (N', w'))
    \<and> after_frame N N' nd i s"
proof -
  have kid: "c \<in> set (kids nd)" using ty c by (simp add: kids_def)
  obtain cd where cd: "N c = Some cd" using kid_exists [OF wf i kid] by auto
  obtain b w1 where b: "self_reevaluation B i nd (N, w) = Some (b, (N, w1))" using self_reevaluation_result [of nd c N cd B i w, OF c(1) cd] by blast
  obtain s N' w' where r: "run c (N, w1) = Some (s, (N', w'))" "same_shape N N'" "agree N N' (below N c)" "after_update N' i s"
    using run_precondition_child [OF runs wf i ty c] by blast
  have "agree N N' (below N i)" by (rule agree_mono [OF r(3)]) (use below_child [of N i nd c, OF i kid] in blast)
  then have "after_frame N N' nd i s" using r no by (simp add: after_frame_def frame_ok_def)
  then show ?thesis using b r(1) precondition_failed [OF i ty c] by (cases b) auto
qed

lemma precondition_update_ok:
  assumes runs: "runs rank run (rank i)" and rst: "resets rank rst n" and wf: "wf_tree rank N" and rdy: "ready N i nd"
    and ty: "bn_type nd = PRECONDITION" and abort: "abort_ready rank N nd i n"
  shows "\<exists>s N' w'. update_node B run rst i (N, w) = Some (s, (N', w')) \<and> after_frame N N' nd i s"
proof -
  have i: "N i = Some nd" using rdy by (simp add: ready_def)
  have start: "update_node B run rst i (N, w) = precondition_update B run rst i nd (N, w)" using i ty by (simp add: update_node_def)
  show ?thesis
  proof (cases "bn_child nd")
    case None
    then have "after_update N i SUCCESS" by (intro childless_after [where nd = nd]) (simp_all add: i ty kids_def)
    then have "after_frame N N nd i SUCCESS" by (simp add: after_frame_def frame_ok_def)
    then show ?thesis using start None by (simp add: precondition_update_def)
  next
    case (Some c)
    have ok: "all_ok N c" using rdy Some ty by (simp add: ready_def kids_def)
    have upd: "precondition_update B run rst i nd (N, w) = (do {
        (holds, st1) \<leftarrow> reevaluation B rst i (N, w);
        if holds then run c st1 else Some (FAILURE, st1) })"
      using Some by (simp add: precondition_update_def)
    have self: ?thesis if "reevaluation B rst i (N, w) = self_reevaluation B i nd (N, w)" "\<And>p pd. \<not> may_abort N nd i p pd"
      unfolding start upd that(1) by (rule self_update_ok [OF runs wf i ty Some ok that(2)])
    note failed = precondition_failed [OF i ty Some ok]
    show ?thesis
    proof (cases "bn_parent nd")
      case None
      then show ?thesis by (intro self) (simp_all add: reevaluation_def i may_abort_def)
    next
      case par: (Some p)
      obtain pd where p: "N p = Some pd" using wf_node [OF wf i] par by (auto simp: node_wf_def)
      let ?k = "find_child i (bn_children pd)"
      show ?thesis
      proof (cases "bn_type pd = SELECTOR \<and> aborts_lower (bn_abort nd)")
        case False
        then show ?thesis by (intro self) (use i par p in \<open>auto simp: reevaluation_def may_abort_def\<close>)
      next
        case low: True
        consider (none) "?k = length (bn_children pd)" | (own) "?k < length (bn_children pd)" "bn_index pd \<le> ?k"
          | (other) "?k < length (bn_children pd)" "?k < bn_index pd"
          using find_child_less(2) [of i "bn_children pd"] by linarith
        then show ?thesis
        proof cases
          case none
          then have "reevaluation B rst i (N, w) = Some (False, (N, w))" using i par p low by (simp add: reevaluation_def Let_def)
          then show ?thesis using start upd failed by simp
        next
          case own
          then show ?thesis by (intro self) (use i par p low in \<open>auto simp: reevaluation_def may_abort_def Let_def\<close>)
        next
          case other
          then have may: "may_abort N nd i p pd" using ty par p low find_child_less(1) by (simp add: may_abort_def)
          then have lt: "bn_index pd < length (bn_children pd)" "all_ok N (current_child pd)" "rank p \<le> n" using abort by (auto simp: abort_ready_def)
          obtain b w0 where b: "precondition B i (N, w) = (b, (N, w0))"
            by (cases "precondition_function B i"; cases "the (precondition_function B i) w") (auto simp: precondition_def)
          show ?thesis
          proof (cases b)
            case False
            then have "reevaluation B rst i (N, w) = Some (False, (N, w0))" using i par p low b other by (simp add: reevaluation_def Let_def)
            then show ?thesis using start upd failed by simp
          next
            case True
            obtain N1 w1 s N' w' where a: "rst (current_child pd) (N, w0) = Some (N1, w1)"
              "update_field p (\<lambda>x. x\<lparr>bn_index := find_child i (bn_children pd)\<rparr>) (N1, w1) = Some (N1(p \<mapsto> pd\<lparr>bn_index := ?k\<rparr>), w1)"
              "run c (N1(p \<mapsto> pd\<lparr>bn_index := ?k\<rparr>), w1) = Some (s, (N', w'))" "after_frame N N' nd i s"
              using abort_ok [OF runs rst wf i Some ok may lt] by blast
            have "reevaluation B rst i (N, w) = Some (True, (N1(p \<mapsto> pd\<lparr>bn_index := ?k\<rparr>), w1))"
              using i par p low b other True a(1,2) lt(1) by (simp add: reevaluation_def Let_def at_opt_def current_child_def)
            then show ?thesis using start upd a(3,4) by simp
          qed
        qed
      qed
    qed
  qed
qed

lemma frame_ok_after:
  assumes wf: "wf_tree rank N" and i: "N i = Some nd" and f: "frame_ok N N1 nd i s" and abort: "abort_ready rank N nd i n"
    and same: "same_shape N N1" and N': "agree N1 N' (below N i)"
  shows "frame_ok N N' nd i s"
proof (cases "\<exists>p pd. may_abort N nd i p pd \<and> aborted N N1 i p pd")
  case False
  then have f': "agree N N1 (below N i)" "\<forall>p pd. may_abort N nd i p pd \<longrightarrow> s \<noteq> RUNNING" using f by (auto simp: frame_ok_def)
  have "agree N N' (below N i)" by (rule agree_trans [OF f'(1) N']) simp
  then show ?thesis using f'(2) by (simp add: frame_ok_def)
next
  case True
  then obtain p pd where may: "may_abort N nd i p pd" and a: "aborted N N1 i p pd" by blast
  note ab = aborted_by [OF wf i may]
  have p: "N p = Some pd" using may by (simp add: may_abort_def)
  have cur: "current_child pd \<in> set (kids pd)" "current_child pd \<noteq> i" using ab(3) may abort by (auto simp: abort_ready_def)
  have a': "agree N N1 (below N i \<union> below N (current_child pd) \<union> {p})" "quiet N1 (current_child pd)"
    "N1 p = Some (pd\<lparr>bn_index := find_child i (bn_children pd)\<rparr>)" using a by (simp_all add: aborted_def)
  have "aborted N N' i p pd"
    unfolding aborted_def
  proof (intro conjI)
    show "agree N N' (below N i \<union> below N (current_child pd) \<union> {p})" by (rule agree_trans [OF a'(1) N']) auto
    show "N' p = Some (pd\<lparr>bn_index := find_child i (bn_children pd)\<rparr>)" using agreeD [OF N' ab(2)] a'(3) by simp
    have "N' q = N1 q" if "q \<in> below N1 (current_child pd)" for q
      using agreeD [OF N', of q] below_disjoint [OF wf p cur(1) ab(1) cur(2), of q] that below_same_shape [OF same] by simp
    then have "quiet N' (current_child pd) = quiet N1 (current_child pd)" by (rule quiet_unchanged)
    then show "quiet N' (current_child pd)" using a'(2) by simp
  qed
  then show ?thesis using may by (auto simp: frame_ok_def)
qed

lemma run_node_unfold:
  "run_node B (Suc n) i st = (do {
     nd \<leftarrow> fst st i;
     st1 \<leftarrow> if bn_state nd \<noteq> RUNNING then on_initialize B i st else Some st;
     (s, st2) \<leftarrow> update_node B (run_node B n) (reset_node B (Suc n)) i st1;
     finish_run B (reset_node B (Suc n)) i s st2 })"
  by (simp add: finish_run_def)

lemma frame_okI: "agree N N' (below N i) \<Longrightarrow> bn_type nd \<noteq> PRECONDITION \<Longrightarrow> frame_ok N N' nd i s"
  by (simp add: frame_ok_def may_abort_def)

lemma run_node_runs: "runs rank (run_node B n) n"
proof (induction n)
  case 0
  show ?case by (simp add: runs_def)
next
  case (Suc n)
  show ?case unfolding runs_def
  proof (intro allI impI)
    fix N w i nd
    assume wf: "wf_tree rank N" and i: "N i = Some nd" and r: "rank i < Suc n" and ok: "all_ok N i" and abort: "abort_ready rank N nd i (Suc n)"
    let ?rst = "reset_node B (Suc n)"
    have runs: "runs rank (run_node B n) (rank i)" by (rule runs_mono [OF Suc]) (use r in simp)
    have rst: "resets rank ?rst (Suc n)" by (rule reset_node_resets)
    have rsti: "resets rank ?rst (rank i)" using rst r unfolding resets_def by (meson less_trans)
    obtain N1 w1 nd1 where init: "(if bn_state nd \<noteq> RUNNING then on_initialize B i (N, w) else Some (N, w)) = Some (N1, w1)" "same_shape N N1"
      "agree N N1 {i}" "ready N1 i nd1" "shape nd1 = shape nd" "bn_type nd = PRECONDITION \<longrightarrow> N1 = N"
      using init_ok [OF wf i ok, of B w] by blast
    have wf1: "wf_tree rank N1" by (rule wf_same_shape [OF wf init(2)])
    have ty: "bn_type nd1 = bn_type nd" by (rule shape_fields(1) [OF init(5)])
    have "\<exists>s N2 w2. update_node B (run_node B n) ?rst i (N1, w1) = Some (s, (N2, w2)) \<and> same_shape N N2 \<and> frame_ok N N2 nd i s \<and> after_update N2 i s"
    proof (cases "bn_type nd = PRECONDITION")
      case True
      then have "N1 = N" "nd1 = nd" using init(4,6) i by (auto simp: ready_def)
      then show ?thesis using precondition_update_ok [OF runs rst wf _ True abort, of B w1] init(4) by (auto simp: after_frame_def)
    next
      case False
      then obtain s N2 w2 where u: "update_node B (run_node B n) ?rst i (N1, w1) = Some (s, (N2, w2))" "same_shape N1 N2" "agree N1 N2 (below N1 i)" "after_update N2 i s"
        using update_ok [OF runs wf1 init(4), of B ?rst w1] ty by auto
      have "agree N N2 (below N i)" by (rule agree_trans [OF init(3) u(3)]) (simp add: below_same_shape [OF init(2)])
      then show ?thesis using u same_shape_trans [OF init(2) u(2)] frame_okI False by blast
    qed
    then obtain s N2 w2 where u: "update_node B (run_node B n) ?rst i (N1, w1) = Some (s, (N2, w2))" "same_shape N N2" "frame_ok N N2 nd i s" "after_update N2 i s"
      by blast
    obtain N3 w3 where f: "finish_run B ?rst i s (N2, w2) = Some (s, (N3, w3))" "same_shape N2 N3" "agree N2 N3 (below N2 i)" "all_ok N3 i"
      "\<exists>nd'. N3 i = Some nd' \<and> bn_state nd' = s"
      using finish_ok [OF rsti wf_same_shape [OF wf u(2)] u(4), of B w2] by blast
    have "run_node B (Suc n) i (N, w) = Some (s, (N3, w3))"
      unfolding run_node_unfold using i init(1) u(1) f(1) by simp
    moreover have "frame_ok N N3 nd i s"
      by (rule frame_ok_after [OF wf i u(3) abort u(2)]) (use f(3) below_same_shape [OF u(2)] in simp)
    moreover have "running N3 i \<longleftrightarrow> s = RUNNING" using f(5) by (auto simp: running_def)
    ultimately show "\<exists>s N' w'. run_node B (Suc n) i (N, w) = Some (s, (N', w')) \<and> same_shape N N' \<and> all_ok N' i
        \<and> (running N' i \<longleftrightarrow> s = RUNNING) \<and> frame_ok N N' nd i s"
      using same_shape_trans [OF u(2) f(2)] f(4) by blast
  qed
qed

lemma root_run:
  assumes "wf_tree rank N" "N i = Some nd" "all_ok N i" "bn_parent nd = None" "rank i < n"
  obtains s N' w' nd' where "run_node B n i (N, w) = Some (s, (N', w'))" "same_shape N N'" "wf_tree rank N'" "all_ok N' i"
    "agree N N' (below N i)" "N' i = Some nd'" "bn_parent nd' = None" "running N' i \<longleftrightarrow> s = RUNNING"
proof -
  have no: "\<not> may_abort N nd i p pd" for p pd by (simp add: may_abort_def assms(4))
  obtain s N' w' where r: "run_node B n i (N, w) = Some (s, (N', w'))" "same_shape N N'" "all_ok N' i" "running N' i \<longleftrightarrow> s = RUNNING"
    "agree N N' (below N i)"
    by (rule runs_plainE [OF run_node_runs assms(1,2,5,3) no])
  obtain nd' where nd': "N' i = Some nd'" "shape nd' = shape nd" by (rule same_shape_Some [OF r(2) assms(2)])
  show ?thesis
    by (rule that [OF r(1,2) wf_same_shape [OF assms(1) r(2)] r(3,5) nd'(1) _ r(4)]) (simp add: shape_fields(2) [OF nd'(2)] assms(4))
qed

lemma tree_run_ok:
  assumes "wf_tree rank N" "N i = Some nd" "all_ok N i" "bn_parent nd = None" "rank i < n"
  shows "\<exists>ss f N' w'. tree_run B n i spins frame (N, w) = Some (ss, f, (N', w')) \<and> length ss = length spins \<and> same_shape N N'
    \<and> wf_tree rank N' \<and> all_ok N' i \<and> agree N N' (below N i)
    \<and> (spins \<noteq> [] \<longrightarrow> last ss \<noteq> RUNNING \<longrightarrow> quiet N' i)"
  using assms
proof (induction spins arbitrary: frame N w nd)
  case Nil
  then show ?case by simp
next
  case (Cons spin spins)
  note root = Cons.prems
  obtain s N1 w1 nd1 where r: "run_node B n i (N, spin w) = Some (s, (N1, w1))" "same_shape N N1" "wf_tree rank N1" "all_ok N1 i"
    "agree N N1 (below N i)" "N1 i = Some nd1" "bn_parent nd1 = None" "running N1 i \<longleftrightarrow> s = RUNNING"
    by (rule root_run [OF root])
  obtain ss f N2 w2 where l: "tree_run B n i spins (wrap32 (frame + 1)) (N1, w1) = Some (ss, f, (N2, w2))" "length ss = length spins" "same_shape N1 N2"
    "wf_tree rank N2" "all_ok N2 i" "agree N1 N2 (below N1 i)" "spins \<noteq> [] \<longrightarrow> last ss \<noteq> RUNNING \<longrightarrow> quiet N2 i"
    using Cons.IH [OF r(3,6,4,7) root(5), of "wrap32 (frame + 1)" w1] by blast
  have "agree N N2 (below N i)" by (rule agree_trans [OF r(5) l(6)]) (simp add: below_same_shape [OF r(2)])
  moreover have "last (s # ss) \<noteq> RUNNING \<longrightarrow> quiet N2 i"
  proof (cases "spins = []")
    case True
    then have "ss = []" "N2 = N1" using l(1,2) by simp_all
    then show ?thesis using quiet_of [OF r(4)] r(8) by simp
  next
    case False
    then have "ss \<noteq> []" using l(2) by auto
    then show ?thesis using l(7) False by simp
  qed
  moreover have "tree_run B n i (spin # spins) frame (N, w) = Some (s # ss, f, (N2, w2))" using r(1) l(1) by simp
  ultimately show ?case using same_shape_trans [OF r(2) l(3)] l(2,4,5) by (intro exI conjI) auto
qed

text \<open>C32. A behavior tree that is well formed (every child knows its parent, children are distinct and no node is below itself,
  a selector reevaluates only its preconditions) and in which at most the current children run can be ticked for ever:
  whatever the actions, the preconditions and the callbacks do to the world, with fuel above the rank of the root no tick fails (no null
  pointer, no index out of range, no endless loop), nodes outside the tree and the links of all nodes are left alone, the tree
  keeps its discipline, with aborts of running siblings as well, and when the root answers anything but RUNNING no node below it runs.\<close>

theorem tree_runs_for_ever:
  assumes "wf_tree rank N" "N i = Some nd" "all_ok N i" "bn_parent nd = None" "rank i < n"
  shows "\<exists>ss f N' w'. tree_run B n i spins frame (N, w) = Some (ss, f, (N', w')) \<and> length ss = length spins \<and> same_shape N N'
    \<and> wf_tree rank N' \<and> all_ok N' i \<and> agree N N' (below N i)
    \<and> (spins \<noteq> [] \<longrightarrow> last ss \<noteq> RUNNING \<longrightarrow> quiet N' i)"
  by (rule tree_run_ok [OF assms])

text \<open>The example: a selector over a precondition, which may take over from the action after it.\<close>

definition sample_behavior :: "nat behavior" where
  "sample_behavior = \<lparr>action_initialize = (\<lambda>i w. w), action_update = (\<lambda>i w. (RUNNING, Suc w)), action_terminate = (\<lambda>i s w. w + 100),
     precondition_function = (\<lambda>i. Some (\<lambda>w. (w = 2, w)))\<rparr>"

definition sample_tree :: nodes where
  "sample_tree = [0 \<mapsto> selector_node, 1 \<mapsto> precondition_node ABORT_LOW_PRIORITY, 2 \<mapsto> action_node, 3 \<mapsto> action_node]"

definition sample_nodes :: "nodes option" where
  "sample_nodes = do { N \<leftarrow> set_child 1 (Some 3) sample_tree; selector_add_children 0 [1, 2] N }"

lemma sample_nodes_eq:
  "the sample_nodes = [0 \<mapsto> selector_node\<lparr>bn_children := [1, 2], bn_reevaluation := [True, False]\<rparr>,
     1 \<mapsto> (precondition_node ABORT_LOW_PRIORITY)\<lparr>bn_child := Some 3, bn_parent := Some 0, bn_level := 1\<rparr>,
     2 \<mapsto> action_node\<lparr>bn_parent := Some 0, bn_level := 1\<rparr>, 3 \<mapsto> action_node\<lparr>bn_parent := Some 1\<rparr>]"
  by (rule ext) (simp add: sample_nodes_def sample_tree_def set_child_def set_parent_def set_level_def set_node_def selector_add_children_def add_child_def
      add_reevaluation_def selector_node_def precondition_node_def action_node_def base_node_def aborts_lower_def)

lemma sample_wf: "wf_tree (\<lambda>i. if i = 0 then 2 else if i = 1 then 1 else 0) (the sample_nodes)"
  unfolding wf_tree_def sample_nodes_eq
  by (auto simp: node_wf_def kids_def selector_node_def precondition_node_def action_node_def base_node_def aborts_lower_def less_Suc_eq
      split: if_splits)

lemma sample_ok: "all_ok (the sample_nodes) 0"
  by (rule all_ok_quiet) (auto simp: quiet_def running_def sample_nodes_eq selector_node_def precondition_node_def action_node_def base_node_def split: if_splits)

theorem tree_runs_for_ever_witness:
  "\<exists>ss f N' w'. tree_run sample_behavior 3 0 [id, id, id] 0 (the sample_nodes, 0) = Some (ss, f, (N', w')) \<and> length ss = 3 \<and> all_ok N' 0"
proof -
  let ?nd = "selector_node\<lparr>bn_children := [1, 2], bn_reevaluation := [True, False]\<rparr>"
  have "the sample_nodes 0 = Some ?nd" by (simp add: sample_nodes_eq)
  moreover have "bn_parent ?nd = None" by (simp add: selector_node_def base_node_def)
  moreover have "(if (0::nat) = 0 then 2 else if (0::nat) = 1 then 1 else 0) < (3::nat)" by simp
  ultimately have t: "\<exists>ss f N' w'. tree_run sample_behavior 3 0 [id, id, id] 0 (the sample_nodes, 0) = Some (ss, f, (N', w'))
    \<and> length ss = length [id, id, id :: nat \<Rightarrow> nat] \<and> same_shape (the sample_nodes) N'
    \<and> wf_tree (\<lambda>i. if i = 0 then 2 else if i = 1 then 1 else 0) N' \<and> all_ok N' 0 \<and> agree (the sample_nodes) N' (below (the sample_nodes) 0)
    \<and> ([id, id, id :: nat \<Rightarrow> nat] \<noteq> [] \<longrightarrow> last ss \<noteq> RUNNING \<longrightarrow> quiet N' 0)"
    by (intro tree_runs_for_ever [OF sample_wf _ sample_ok])
  then show ?thesis by (elim exE conjE) (intro exI conjI, assumption, erule trans, simp, assumption)
qed

subsection \<open>The verdict of a parallel node\<close>

lemma run_failing_action:
  assumes "N c = Some cd" "bn_type cd = ACTION" "bn_state cd \<noteq> RUNNING" "\<And>w. fst (action_update B c w) = FAILURE"
  shows "\<exists>w'. run_node B (Suc m) c (N, w) = Some (FAILURE, (N(c \<mapsto> cd\<lparr>bn_state := FAILURE\<rparr>), w'))"
proof -
  obtain w1 where u: "action_update B c (action_initialize B c w) = (FAILURE, w1)"
    using assms(4) [of "action_initialize B c w"] by (cases "action_update B c (action_initialize B c w)") auto
  show ?thesis using assms(1-3) u
    by (simp add: on_initialize_def update_node_def update_field_def set_node_def on_terminate_def)
qed

definition failed_first :: "nodes \<Rightarrow> nodes \<Rightarrow> nat \<Rightarrow> node \<Rightarrow> nat \<Rightarrow> bool" where
  "failed_first N N' i nd j \<longleftrightarrow> (\<exists>nd'. N' i = Some nd' \<and> bn_type nd' = PARALLEL \<and> bn_children nd' = bn_children nd \<and> bn_threshold nd' = bn_threshold nd
     \<and> bn_failure nd' = j \<and> bn_success nd' = 0 \<and> length (bn_done nd') = length (bn_children nd) \<and> (\<forall>k < length (bn_children nd). bn_done nd' ! k \<longleftrightarrow> k < j))
     \<and> (\<forall>k < length (bn_children nd). j \<le> k \<longrightarrow> N' (bn_children nd ! k) = N (bn_children nd ! k))
     \<and> (\<forall>c \<in> set (bn_children nd). \<not> running N' c \<and> (\<exists>cd. N' c = Some cd \<and> bn_type cd = ACTION))"

lemma parallel_loop_fails:
  fixes n m i :: nat and B :: "'w behavior" and nd :: node and N0 :: nodes
  defines "n \<equiv> length (bn_children nd)"
  assumes dist: "distinct (bn_children nd)" "i \<notin> set (bn_children nd)" and len: "n < 2 ^ 32" and t: "bn_threshold nd \<le> n"
    and fail: "\<And>k w. k < n - bn_threshold nd \<Longrightarrow> fst (action_update B (bn_children nd ! k) w) = FAILURE"
    and "failed_first N0 N i nd j" "j < n - bn_threshold nd"
  shows "\<exists>N' w'. parallel_loop (run_node B (Suc m)) i [j..<n] (N, w) = Some (FAILURE, (N', w')) \<and> failed_first N0 N' i nd (n - bn_threshold nd)"
  using assms(7-)
proof (induction "n - bn_threshold nd - j" arbitrary: j N w)
  case 0
  then show ?case by simp
next
  case (Suc x)
  let ?c = "bn_children nd ! j"
  note ff = Suc.prems(1) [unfolded failed_first_def]
  obtain nd' where nd': "N i = Some nd'" "bn_children nd' = bn_children nd" "bn_threshold nd' = bn_threshold nd" "bn_failure nd' = j"
    "bn_success nd' = 0" "bn_type nd' = PARALLEL" "length (bn_done nd') = n" "\<forall>k < n. bn_done nd' ! k \<longleftrightarrow> k < j"
    using ff unfolding n_def by blast
  have j: "j < n" using Suc.prems(2) by simp
  have c: "?c \<in> set (bn_children nd)" using j by (simp add: n_def)
  obtain cd where cd: "N ?c = Some cd" "bn_type cd = ACTION" "bn_state cd \<noteq> RUNNING"
    using ff c by (force simp: running_def)
  obtain w1 where r: "run_node B (Suc m) ?c (N, w) = Some (FAILURE, (N(?c \<mapsto> cd\<lparr>bn_state := FAILURE\<rparr>), w1))"
    using run_failing_action [of N ?c cd B m w, OF cd fail [OF Suc.prems(2)]] by blast
  let ?nd = "nd'\<lparr>bn_done := (bn_done nd')[j := True], bn_failure := Suc j\<rparr>"
  let ?N = "N(?c \<mapsto> cd\<lparr>bn_state := FAILURE\<rparr>, i \<mapsto> ?nd)"
  have ne: "?c \<noteq> i" using c dist(2) by auto
  have wrap: "wrap32 (j + 1) = Suc j" using j len by simp
  have list: "[j..<n] = j # [Suc j..<n]" using j by (simp add: upt_rec)
  have eq: "parallel_loop (run_node B (Suc m)) i [j..<n] (N, w) =
      (if failures_allowed n (bn_threshold nd) \<le> Suc j then Some (FAILURE, (?N, w1)) else parallel_loop (run_node B (Suc m)) i [Suc j..<n] (?N, w1))"
    using nd' j r ne wrap by (subst list) (simp add: at_opt_def n_def update_field_def set_node_def del: run_node.simps)
  have ff': "failed_first N0 ?N i nd (Suc j)"
    unfolding failed_first_def
  proof (intro conjI allI impI ballI)
    show "\<exists>nd'. ?N i = Some nd' \<and> bn_type nd' = PARALLEL \<and> bn_children nd' = bn_children nd \<and> bn_threshold nd' = bn_threshold nd
       \<and> bn_failure nd' = Suc j \<and> bn_success nd' = 0 \<and> length (bn_done nd') = length (bn_children nd)
       \<and> (\<forall>k < length (bn_children nd). bn_done nd' ! k \<longleftrightarrow> k < Suc j)"
      using nd' j by (intro exI [of _ ?nd]) (auto simp: n_def nth_list_update less_Suc_eq)
    show "?N (bn_children nd ! k) = N0 (bn_children nd ! k)" if "k < length (bn_children nd)" "Suc j \<le> k" for k
    proof -
      have "bn_children nd ! k \<noteq> ?c" using that dist(1) nth_eq_iff_index_eq [OF dist(1) that(1), of j] by simp
      moreover have "bn_children nd ! k \<noteq> i" using that(1) dist(2) nth_mem by metis
      ultimately show ?thesis using ff that by simp
    qed
    show "\<not> running ?N c" if "c \<in> set (bn_children nd)" for c using that ff dist(2) by (auto simp: running_def)
    show "\<exists>cd. ?N c = Some cd \<and> bn_type cd = ACTION" if "c \<in> set (bn_children nd)" for c using that ff dist(2) cd(2) by auto
  qed
  show ?case
  proof (cases "Suc j = n - bn_threshold nd")
    case True
    then show ?thesis using eq ff' t by (intro exI [of _ ?N] exI [of _ w1]) (simp add: failures_allowed_def)
  next
    case False
    then have lt: "Suc j < n - bn_threshold nd" using Suc.prems(2) by simp
    have "x = n - bn_threshold nd - Suc j" using Suc.hyps(2) by simp
    from Suc.hyps(1) [OF this ff' lt, of w1] show ?thesis using eq lt t by (simp add: failures_allowed_def)
  qed
qed

text \<open>A parallel node gives up too early: it is meant to fail when the threshold can no longer be reached, but it compares the
  failures with \<open>size - threshold\<close> and so fails when exactly that many children have failed, although the children that are left,
  as many as the threshold, have not been run and could all succeed.\<close>

theorem parallel_gives_up_early:
  assumes i: "N i = Some nd" "bn_type nd = PARALLEL" "bn_state nd \<noteq> RUNNING"
    and kids: "distinct (bn_children nd)" "i \<notin> set (bn_children nd)" "length (bn_children nd) < 2 ^ 32"
      "\<And>c. c \<in> set (bn_children nd) \<Longrightarrow> \<exists>cd. N c = Some cd \<and> bn_type cd = ACTION \<and> bn_state cd \<noteq> RUNNING"
    and t: "bn_threshold nd < length (bn_children nd)"
    and fail: "\<And>k w. k < length (bn_children nd) - bn_threshold nd \<Longrightarrow> fst (action_update B (bn_children nd ! k) w) = FAILURE"
  shows "\<exists>N' w'. run_node B (Suc (Suc m)) i (N, w) = Some (FAILURE, (N', w'))
    \<and> length (drop (length (bn_children nd) - bn_threshold nd) (bn_children nd)) = bn_threshold nd
    \<and> (\<forall>c \<in> set (drop (length (bn_children nd) - bn_threshold nd) (bn_children nd)). N' c = N c)"
proof -
  let ?n = "length (bn_children nd)"
  let ?nd = "nd\<lparr>bn_failure := 0, bn_success := 0, bn_done := replicate ?n False\<rparr>"
  let ?N = "N(i \<mapsto> ?nd)"
  have "\<not> running N c" if "c \<in> set (bn_children nd)" for c using kids(4) [OF that] by (auto simp: running_def)
  then have start: "failed_first N ?N i nd 0"
    unfolding failed_first_def using i kids(2) kids(4) [THEN exE] by (auto simp: running_def) metis
  have pos: "0 < ?n - bn_threshold nd" and le: "bn_threshold nd \<le> ?n" using t by simp_all
  obtain N1 w1 where l: "parallel_loop (run_node B (Suc m)) i [0..<?n] (?N, w) = Some (FAILURE, (N1, w1))"
    and ff: "failed_first N N1 i nd (?n - bn_threshold nd)"
    using parallel_loop_fails [OF kids(1-3) le fail start pos] by blast
  obtain nd1 where nd1: "N1 i = Some nd1" "bn_type nd1 = PARALLEL" "bn_children nd1 = bn_children nd" using ff unfolding failed_first_def by blast
  let ?N2 = "N1(i \<mapsto> nd1\<lparr>bn_state := FAILURE\<rparr>)"
  have idle: "reset_each (reset_node B (Suc (Suc m))) cs (?N2, w1) = Some (?N2, w1)" if "set cs \<subseteq> set (bn_children nd)" for cs
    using that
  proof (induction cs)
    case (Cons c cs)
    then have c: "c \<in> set (bn_children nd)" "c \<noteq> i" using kids(2) by auto
    then obtain cd where "?N2 c = Some cd" "bn_state cd \<noteq> RUNNING" using ff unfolding failed_first_def running_def by force
    then show ?case using Cons by simp
  qed simp
  have fin: "finish_run B (reset_node B (Suc (Suc m))) i FAILURE (N1, w1) = Some (FAILURE, (?N2, w1))"
    using nd1 idle [of "bn_children nd"] by (simp add: finish_run_def update_field_def set_node_def on_terminate_def del: reset_node.simps)
  have "bn_children nd \<noteq> []" using t by auto
  then have upd: "update_node B run rst i (?N, w) = parallel_loop run i [0..<?n] (?N, w)" for run rst
    using i(2) by (simp add: update_node_def parallel_update_def Let_def)
  have init: "on_initialize B i (N, w) = Some (?N, w)" using i by (simp add: on_initialize_def update_field_def set_node_def)
  have "run_node B (Suc (Suc m)) i (N, w) = Some (FAILURE, (?N2, w1))"
    by (subst run_node_unfold) (simp only: fst_conv i init upd l fin bind.bind_lunit prod.case if_True not_False_eq_True simp_thms)
  moreover have "?N2 c = N c" if c: "c \<in> set (drop (?n - bn_threshold nd) (bn_children nd))" for c
  proof -
    let ?d = "?n - bn_threshold nd"
    obtain l where l: "l < length (drop ?d (bn_children nd))" "c = drop ?d (bn_children nd) ! l"
      using c by (metis in_set_conv_nth)
    then have "?d + l < ?n" "?d \<le> ?d + l" "c = bn_children nd ! (?d + l)" using le by simp_all
    moreover have "c \<noteq> i" using c kids(2) set_drop_subset by fast
    ultimately show ?thesis using ff by (simp add: failed_first_def)
  qed
  ultimately show ?thesis using le by (intro exI [of _ ?N2] exI [of _ w1]) simp
qed

definition sample_parallel :: nodes where
  "sample_parallel = [0 \<mapsto> (parallel_node 1)\<lparr>bn_children := [1, 2]\<rparr>, 1 \<mapsto> action_node\<lparr>bn_parent := Some 0, bn_level := 1\<rparr>,
     2 \<mapsto> action_node\<lparr>bn_parent := Some 0, bn_level := 1\<rparr>]"

definition one_fails :: "nat behavior" where
  "one_fails = sample_behavior\<lparr>action_update := (\<lambda>i w. (if i = 1 then FAILURE else SUCCESS, w))\<rparr>"

theorem parallel_gives_up_early_witness:
  "\<exists>N' w'. run_node one_fails 2 0 (sample_parallel, 0) = Some (FAILURE, (N', w')) \<and> N' 2 = sample_parallel 2"
proof -
  let ?nd = "(parallel_node 1)\<lparr>bn_children := [1, 2]\<rparr>"
  have f: "bn_children ?nd = [1, 2]" "bn_threshold ?nd = 1" by (simp_all add: parallel_node_def base_node_def)
  have "\<exists>N' w'. run_node one_fails (Suc (Suc 0)) 0 (sample_parallel, 0) = Some (FAILURE, (N', w'))
    \<and> length (drop (length (bn_children ?nd) - bn_threshold ?nd) (bn_children ?nd)) = bn_threshold ?nd
    \<and> (\<forall>c \<in> set (drop (length (bn_children ?nd) - bn_threshold ?nd) (bn_children ?nd)). N' c = sample_parallel c)"
    by (rule parallel_gives_up_early) (auto simp: sample_parallel_def parallel_node_def action_node_def base_node_def one_fails_def)
  then obtain N' w' where r: "run_node one_fails (Suc (Suc 0)) 0 (sample_parallel, 0) = Some (FAILURE, (N', w'))"
    and rest: "\<forall>c \<in> set (drop (length (bn_children ?nd) - bn_threshold ?nd) (bn_children ?nd)). N' c = sample_parallel c" by blast
  have "N' 2 = sample_parallel 2" using rest by (simp add: parallel_node_def base_node_def)
  then show ?thesis using r unfolding numeral_2_eq_2 by blast
qed

end
