(* ===== verification/KdTree.thy ===== *)
theory KdTree
  imports Complex_Main Prelude
begin

text \<open>
  The histogram of poses of the particle filter, \<open>particle_filter_kdtree.cpp\<close>: a binary tree over the
  cells of the pose space, and the grouping of its cells into clusters.

  A pointer to a node is its index in the vector of nodes. Doubles are real numbers; the components of a
  key are whole, as \<open>std::floor\<close> makes them. The recursive functions have fuel, a bound on the depth
  of their recursion; an assertion that does not hold is a fault.
\<close>

type_synonym vec3 = "real \<times> real \<times> real"
type_synonym key = "int \<times> int \<times> int"

definition vc :: "vec3 \<Rightarrow> nat \<Rightarrow> real" where
  "vc v i = (if i = 0 then fst v else if i = 1 then fst (snd v) else snd (snd v))"

definition kc :: "key \<Rightarrow> nat \<Rightarrow> int" where
  "kc k i = (if i = 0 then fst k else if i = 1 then fst (snd k) else snd (snd k))"

record kd_node =
  kn_left :: "nat option"
  kn_right :: "nat option"
  kn_leaf :: bool
  kn_depth :: nat
  kn_cluster :: int
  kn_pivot_dim :: int
  kn_pivot_value :: real
  kn_key :: key
  kn_value :: real

record kd_tree =
  kt_size :: vec3
  kt_root :: "nat option"
  kt_count :: nat
  kt_max :: nat
  kt_nodes :: "kd_node option list"
  kt_leaves :: int

text \<open>A new object of the class; the pointers of a new node are not initialised.\<close>

definition new_kd_tree :: kd_tree where
  "new_kd_tree = \<lparr>kt_size = (0.5, 0.5, 10.0 * pi / 180.0), kt_root = None, kt_count = 0, kt_max = 0, kt_nodes = [], kt_leaves = 0\<rparr>"

definition new_kd_node :: kd_node where
  "new_kd_node = \<lparr>kn_left = None, kn_right = None, kn_leaf = False, kn_depth = 0, kn_cluster = - 1, kn_pivot_dim = 0,
     kn_pivot_value = 0, kn_key = (0, 0, 0), kn_value = 0\<rparr>"

text \<open>\<open>resize\<close> fills the vector of nodes with null pointers; \<open>push_back\<close> adds behind them.\<close>

definition initialize_by_max_size :: "nat \<Rightarrow> kd_tree \<Rightarrow> kd_tree" where
  "initialize_by_max_size n t = t\<lparr>kt_size := (0.5, 0.5, 10.0 * pi / 180.0), kt_count := 0, kt_max := n,
     kt_nodes := take n (kt_nodes t) @ replicate (n - length (kt_nodes t)) None, kt_leaves := 0\<rparr>"

text \<open>The loop of \<open>Clear\<close> runs while the vector is empty and reads its last element: it is entered only with an
  empty vector, and then that read is out of bounds.\<close>

definition kd_empty :: "kd_tree \<Rightarrow> kd_tree" where
  "kd_empty t = t\<lparr>kt_root := None, kt_nodes := [], kt_leaves := 0, kt_count := 0\<rparr>"

definition kd_clear :: "kd_tree \<Rightarrow> kd_tree option" where
  "kd_clear t = (if kt_nodes t = [] then None else Some (kd_empty t))"

definition node_at :: "kd_tree \<Rightarrow> nat \<Rightarrow> kd_node option" where
  "node_at t i = (if i < length (kt_nodes t) then kt_nodes t ! i else None)"

definition update_at :: "nat \<Rightarrow> (kd_node \<Rightarrow> kd_node) \<Rightarrow> kd_tree \<Rightarrow> kd_tree option" where
  "update_at i f t = map_option (\<lambda>nd. t\<lparr>kt_nodes := (kt_nodes t)[i := Some (f nd)]\<rparr>) (node_at t i)"

definition pose_key :: "kd_tree \<Rightarrow> vec3 \<Rightarrow> key" where
  "pose_key t pose = (\<lfloor>vc pose 0 / vc (kt_size t) 0\<rfloor>, \<lfloor>vc pose 1 / vc (kt_size t) 1\<rfloor>, \<lfloor>vc pose 2 / vc (kt_size t) 2\<rfloor>)"

subsection \<open>Insertion\<close>

text \<open>The case of a null pointer.\<close>

definition new_leaf :: "nat option \<Rightarrow> key \<Rightarrow> real \<Rightarrow> kd_tree \<Rightarrow> (nat \<times> kd_tree) option" where
  "new_leaf parent key value t =
     (if kt_count t < kt_max t then do {
        depth \<leftarrow> (case parent of None \<Rightarrow> Some 0 | Some p \<Rightarrow> do { pd \<leftarrow> node_at t p; Some (kn_depth pd + 1) });
        let nd = new_kd_node\<lparr>kn_leaf := True, kn_depth := depth, kn_key := key, kn_value := value\<rparr>;
        Some (length (kt_nodes t), t\<lparr>kt_count := kt_count t + 1, kt_nodes := kt_nodes t @ [Some nd], kt_leaves := kt_leaves t + 1\<rparr>) }
      else None)"

text \<open>The dimension in which two keys differ most, \<open>-1\<close> if they do not.\<close>

primrec choose_pivot :: "key \<Rightarrow> key \<Rightarrow> nat list \<Rightarrow> int \<times> int \<Rightarrow> int \<times> int" where
  "choose_pivot k k' [] m = m"
| "choose_pivot k k' (i # idx) m =
     (let split = \<bar>kc k i - kc k' i\<bar> in choose_pivot k k' idx (if split > fst m then (split, int i) else m))"

definition pivot_of :: "key \<Rightarrow> key \<Rightarrow> int" where
  "pivot_of k k' = snd (choose_pivot k k' [0, 1, 2] (0, - 1))"

definition middle :: "key \<Rightarrow> key \<Rightarrow> int \<Rightarrow> real" where
  "middle k k' d = (real_of_int (kc k (nat d)) + real_of_int (kc k' (nat d))) / 2.0"

definition goes_left :: "key \<Rightarrow> int \<Rightarrow> real \<Rightarrow> bool" where
  "goes_left k d p \<longleftrightarrow> real_of_int (kc k (nat d)) < p"

primrec insert_node :: "nat \<Rightarrow> nat option \<Rightarrow> nat option \<Rightarrow> key \<Rightarrow> real \<Rightarrow> kd_tree \<Rightarrow> (nat \<times> kd_tree) option" where
  "insert_node 0 parent ptr key value t = None"
| "insert_node (Suc m) parent ptr key value t =
     (case ptr of
        None \<Rightarrow> new_leaf parent key value t
      | Some i \<Rightarrow> do {
          nd \<leftarrow> node_at t i;
          if kn_leaf nd then
            if key = kn_key nd then do {
              t' \<leftarrow> update_at i (\<lambda>nd. nd\<lparr>kn_value := kn_value nd + value\<rparr>) t;
              Some (i, t') }
            else
              (let pivot_dim = pivot_of key (kn_key nd);
                   pivot_value = middle key (kn_key nd) pivot_dim in
               if pivot_dim < 0 then None
               else do {
                 t1 \<leftarrow> update_at i (\<lambda>nd. nd\<lparr>kn_pivot_dim := pivot_dim, kn_pivot_value := pivot_value\<rparr>) t;
                 t5 \<leftarrow> (if goes_left key pivot_dim pivot_value then do {
                     (l, t2) \<leftarrow> insert_node m (Some i) None key value t1;
                     t3 \<leftarrow> update_at i (\<lambda>nd. nd\<lparr>kn_left := Some l\<rparr>) t2;
                     (r, t4) \<leftarrow> insert_node m (Some i) None (kn_key nd) (kn_value nd) t3;
                     update_at i (\<lambda>nd. nd\<lparr>kn_right := Some r\<rparr>) t4 }
                   else do {
                     (l, t2) \<leftarrow> insert_node m (Some i) None (kn_key nd) (kn_value nd) t1;
                     t3 \<leftarrow> update_at i (\<lambda>nd. nd\<lparr>kn_left := Some l\<rparr>) t2;
                     (r, t4) \<leftarrow> insert_node m (Some i) None key value t3;
                     update_at i (\<lambda>nd. nd\<lparr>kn_right := Some r\<rparr>) t4 });
                 t6 \<leftarrow> update_at i (\<lambda>nd. nd\<lparr>kn_leaf := False\<rparr>) t5;
                 Some (i, t6\<lparr>kt_leaves := kt_leaves t6 - 1\<rparr>) })
          else do {
            l \<leftarrow> kn_left nd;
            r \<leftarrow> kn_right nd;
            (_, t') \<leftarrow> insert_node m (Some i)
              (Some (if goes_left key (kn_pivot_dim nd) (kn_pivot_value nd) then l else r)) key value t;
            Some (i, t') } })"

text \<open>A path in the tree has no more nodes than the vector, and the last call creates a node.\<close>

definition insert_pose :: "vec3 \<Rightarrow> real \<Rightarrow> kd_tree \<Rightarrow> kd_tree option" where
  "insert_pose pose value t = do {
     (i, t') \<leftarrow> insert_node (length (kt_nodes t) + 2) None (kt_root t) (pose_key t pose) value t;
     Some (t'\<lparr>kt_root := Some i\<rparr>) }"

subsection \<open>Search\<close>

primrec find_node :: "nat \<Rightarrow> nat option \<Rightarrow> key \<Rightarrow> kd_tree \<Rightarrow> nat option option" where
  "find_node 0 ptr key t = None"
| "find_node (Suc m) ptr key t = do {
     i \<leftarrow> ptr;
     nd \<leftarrow> node_at t i;
     if kn_leaf nd then Some (if key = kn_key nd then Some i else None)
     else do {
       l \<leftarrow> kn_left nd;
       r \<leftarrow> kn_right nd;
       find_node m (Some (if goes_left key (kn_pivot_dim nd) (kn_pivot_value nd) then l else r)) key t } }"

definition get_cluster :: "vec3 \<Rightarrow> kd_tree \<Rightarrow> int option" where
  "get_cluster pose t = do {
     r \<leftarrow> find_node (length (kt_nodes t) + 1) (kt_root t) (pose_key t pose) t;
     case r of None \<Rightarrow> Some (- 1) | Some i \<Rightarrow> do { nd \<leftarrow> node_at t i; Some (kn_cluster nd) } }"

subsection \<open>Clusters\<close>

definition neighbor_key :: "key \<Rightarrow> nat \<Rightarrow> key" where
  "neighbor_key k i = (kc k 0 + int (i div 9) - 1, kc k 1 + int ((i mod 9) div 3) - 1, kc k 2 + int ((i mod 9) mod 3) - 1)"

text \<open>The loop of \<open>ClusterNode\<close> over the 27 cells around a node; \<open>visit\<close> is its recursive call.\<close>

primrec cluster_neighbors :: "(nat \<Rightarrow> kd_tree \<Rightarrow> kd_tree option) \<Rightarrow> nat \<Rightarrow> nat list \<Rightarrow> kd_tree \<Rightarrow> kd_tree option" where
  "cluster_neighbors visit j [] t = Some t"
| "cluster_neighbors visit j (i # idx) t = do {
     nd \<leftarrow> node_at t j;
     r \<leftarrow> find_node (length (kt_nodes t) + 1) (kt_root t) (neighbor_key (kn_key nd) i) t;
     t' \<leftarrow> (case r of
         None \<Rightarrow> Some t
       | Some n \<Rightarrow> do {
           nn \<leftarrow> node_at t n;
           if \<not> kn_leaf nn then None
           else if kn_cluster nn \<ge> 0 then Some t
           else do {
             t1 \<leftarrow> update_at n (\<lambda>x. x\<lparr>kn_cluster := kn_cluster nd\<rparr>) t;
             visit n t1 } });
     cluster_neighbors visit j idx t' }"

primrec cluster_node :: "nat \<Rightarrow> nat \<Rightarrow> kd_tree \<Rightarrow> kd_tree option" where
  "cluster_node 0 j t = None"
| "cluster_node (Suc m) j t = cluster_neighbors (cluster_node m) j [0..<27] t"

primrec queue_leaves :: "nat list \<Rightarrow> nat list \<Rightarrow> kd_tree \<Rightarrow> (nat list \<times> kd_tree) option" where
  "queue_leaves [] queue t = Some (queue, t)"
| "queue_leaves (i # idx) queue t = do {
     nd \<leftarrow> node_at t i;
     if kn_leaf nd then do {
       t1 \<leftarrow> update_at i (\<lambda>x. x\<lparr>kn_cluster := - 1\<rparr>) t;
       queue_leaves idx (queue @ [i]) t1 }
     else queue_leaves idx queue t }"

text \<open>The loop takes the nodes from the end of the queue. The fuel of a visit is the number of nodes: each
  recursive call gives one more of them a label.\<close>

primrec label_clusters :: "nat list \<Rightarrow> int \<Rightarrow> kd_tree \<Rightarrow> (int \<times> kd_tree) option" where
  "label_clusters [] cluster_count t = Some (cluster_count, t)"
| "label_clusters (j # js) cluster_count t = do {
     nd \<leftarrow> node_at t j;
     if kn_cluster nd \<ge> 0 then label_clusters js cluster_count t
     else do {
       t1 \<leftarrow> update_at j (\<lambda>x. x\<lparr>kn_cluster := cluster_count\<rparr>) t;
       t2 \<leftarrow> cluster_node (length (kt_nodes t) + 1) j t1;
       label_clusters js (cluster_count + 1) t2 } }"

definition cluster :: "kd_tree \<Rightarrow> (int \<times> kd_tree) option" where
  "cluster t = do {
     (queue, t1) \<leftarrow> queue_leaves [0..<kt_count t] [] t;
     label_clusters (rev queue) 0 t1 }"

subsection \<open>The tree behind the pointers\<close>

datatype kdt = Tip nat key real | Fork nat int real kdt kdt

primrec root_of :: "kdt \<Rightarrow> nat" where
  "root_of (Tip i k v) = i"
| "root_of (Fork i d p l r) = i"

primrec addrs :: "kdt \<Rightarrow> nat list" where
  "addrs (Tip i k v) = [i]"
| "addrs (Fork i d p l r) = i # addrs l @ addrs r"

primrec leaves :: "kdt \<Rightarrow> (key \<times> nat \<times> real) list" where
  "leaves (Tip i k v) = [(k, i, v)]"
| "leaves (Fork i d p l r) = leaves l @ leaves r"

definition keys :: "kdt \<Rightarrow> key set" where
  "keys T = fst ` set (leaves T)"

primrec ordered :: "kdt \<Rightarrow> bool" where
  "ordered (Tip i k v) \<longleftrightarrow> True"
| "ordered (Fork i d p l r) \<longleftrightarrow> (\<forall>k \<in> keys l. goes_left k d p) \<and> (\<forall>k \<in> keys r. \<not> goes_left k d p) \<and> ordered l \<and> ordered r"

primrec shown :: "kd_tree \<Rightarrow> kdt \<Rightarrow> bool" where
  "shown t (Tip i k v) \<longleftrightarrow> (\<exists>nd. node_at t i = Some nd \<and> kn_leaf nd \<and> kn_key nd = k \<and> kn_value nd = v)"
| "shown t (Fork i d p l r) \<longleftrightarrow> (\<exists>nd. node_at t i = Some nd \<and> \<not> kn_leaf nd \<and> kn_left nd = Some (root_of l) \<and> kn_right nd = Some (root_of r)
     \<and> kn_pivot_dim nd = d \<and> kn_pivot_value nd = p) \<and> shown t l \<and> shown t r"

primrec height :: "kdt \<Rightarrow> nat" where
  "height (Tip i k v) = 0"
| "height (Fork i d p l r) = Suc (max (height l) (height r))"

lemma keys_simps [simp]: "keys (Tip i k v) = {k}" "keys (Fork i d p l r) = keys l \<union> keys r"
  by (auto simp: keys_def)

lemma root_addrs [simp]: "root_of T \<in> set (addrs T)"
  by (cases T) auto

lemma height_addrs: "height T < length (addrs T)"
  by (induction T) auto

lemma shown_node: "shown t T \<Longrightarrow> a \<in> set (addrs T) \<Longrightarrow> node_at t a \<noteq> None"
  by (induction T) auto

lemma node_at_less: "node_at t a \<noteq> None \<Longrightarrow> a < length (kt_nodes t)"
  by (simp add: node_at_def split: if_splits)

lemma shown_cong: "(\<And>a. a \<in> set (addrs T) \<Longrightarrow> node_at t' a = node_at t a) \<Longrightarrow> shown t T \<Longrightarrow> shown t' T"
  by (induction T) auto

lemma leaves_addr: "(k, i, v) \<in> set (leaves T) \<Longrightarrow> i \<in> set (addrs T)"
  by (induction T) auto

lemma leaves_shown: "shown t T \<Longrightarrow> (k, i, v) \<in> set (leaves T) \<Longrightarrow> \<exists>nd. node_at t i = Some nd \<and> kn_leaf nd \<and> kn_key nd = k \<and> kn_value nd = v"
  by (induction T) auto

lemma shown_leaf: "shown t T \<Longrightarrow> a \<in> set (addrs T) \<Longrightarrow> node_at t a = Some nd \<Longrightarrow> kn_leaf nd \<Longrightarrow> (kn_key nd, a, kn_value nd) \<in> set (leaves T)"
  by (induction T) auto

lemma ordered_distinct: "ordered T \<Longrightarrow> distinct (map fst (leaves T))"
proof (induction T)
  case (Fork i d p l r)
  then have "keys l \<inter> keys r = {}" by auto
  then show ?case using Fork by (auto simp: keys_def)
qed simp

subsection \<open>Writing nodes\<close>

definition put_node :: "nat \<Rightarrow> kd_node \<Rightarrow> kd_tree \<Rightarrow> kd_tree" where
  "put_node i x t = t\<lparr>kt_nodes := (kt_nodes t)[i := Some x]\<rparr>"

definition add_node :: "kd_node \<Rightarrow> kd_tree \<Rightarrow> kd_tree" where
  "add_node x t = t\<lparr>kt_count := kt_count t + 1, kt_nodes := kt_nodes t @ [Some x], kt_leaves := kt_leaves t + 1\<rparr>"

lemma update_at_put: "node_at t i = Some nd \<Longrightarrow> update_at i f t = Some (put_node i (f nd) t)"
  by (simp add: update_at_def put_node_def)

lemma put_node_simps [simp]:
  "kt_size (put_node i x t) = kt_size t" "kt_root (put_node i x t) = kt_root t" "kt_count (put_node i x t) = kt_count t"
  "kt_max (put_node i x t) = kt_max t" "length (kt_nodes (put_node i x t)) = length (kt_nodes t)" "kt_leaves (put_node i x t) = kt_leaves t"
  by (simp_all add: put_node_def)

lemma add_node_simps [simp]:
  "kt_size (add_node x t) = kt_size t" "kt_root (add_node x t) = kt_root t" "kt_count (add_node x t) = Suc (kt_count t)"
  "kt_max (add_node x t) = kt_max t" "length (kt_nodes (add_node x t)) = Suc (length (kt_nodes t))" "kt_leaves (add_node x t) = kt_leaves t + 1"
  by (simp_all add: add_node_def)

lemma node_at_put: "i < length (kt_nodes t) \<Longrightarrow> node_at (put_node i x t) j = (if j = i then Some x else node_at t j)"
  by (simp add: node_at_def put_node_def)

lemma node_at_add: "node_at (add_node x t) j = (if j = length (kt_nodes t) then Some x else node_at t j)"
  by (auto simp: node_at_def add_node_def nth_append)

lemma new_leaf_add:
  assumes "kt_count t < kt_max t" "node_at t p = Some pd"
  shows "new_leaf (Some p) key value t = Some (length (kt_nodes t),
    add_node (new_kd_node\<lparr>kn_leaf := True, kn_depth := kn_depth pd + 1, kn_key := key, kn_value := value\<rparr>) t)"
  using assms by (simp add: new_leaf_def add_node_def)

lemma choose_pivot_dim:
  assumes "fst m = 0 \<longrightarrow> snd m = - 1" "fst m > 0 \<longrightarrow> snd m \<ge> 0 \<and> \<bar>kc k (nat (snd m)) - kc k' (nat (snd m))\<bar> = fst m" "fst m \<ge> 0"
    "(\<exists>i \<in> set idx. kc k i \<noteq> kc k' i) \<or> fst m > 0"
  shows "snd (choose_pivot k k' idx m) \<ge> 0 \<and> kc k (nat (snd (choose_pivot k k' idx m))) \<noteq> kc k' (nat (snd (choose_pivot k k' idx m)))"
  using assms
proof (induction idx arbitrary: m)
  case (Cons i idx)
  show ?case
  proof (cases "\<bar>kc k i - kc k' i\<bar> > fst m")
    case True
    then show ?thesis using Cons.IH [of "(\<bar>kc k i - kc k' i\<bar>, int i)"] Cons.prems(3) by (simp add: Let_def)
  next
    case False
    then have "kc k i \<noteq> kc k' i \<Longrightarrow> fst m > 0" by linarith
    then have "(\<exists>i \<in> set idx. kc k i \<noteq> kc k' i) \<or> fst m > 0" using Cons.prems(4) by (metis set_ConsD)
    then show ?thesis using Cons.IH [of m] Cons.prems(1-3) False by (simp add: Let_def)
  qed
qed auto

lemma kc_eq: "(\<And>i. i \<in> set [0, 1, 2] \<Longrightarrow> kc k i = kc k' i) \<Longrightarrow> k = k'"
proof -
  assume a: "\<And>i. i \<in> set [0, 1, 2] \<Longrightarrow> kc k i = kc k' i"
  show "k = k'" using a [of 0] a [of 1] a [of 2] by (cases k; cases k') (simp add: kc_def)
qed

lemma pivot_of:
  assumes "k \<noteq> k'"
  shows "pivot_of k k' \<ge> 0 \<and> kc k (nat (pivot_of k k')) \<noteq> kc k' (nat (pivot_of k k'))"
proof -
  have ex: "\<exists>i \<in> set [0, 1, 2]. kc k i \<noteq> kc k' i"
  proof (rule ccontr)
    assume none: "\<not> (\<exists>i \<in> set [0, 1, 2]. kc k i \<noteq> kc k' i)"
    have "k = k'" by (rule kc_eq) (use none in blast)
    then show False using assms by simp
  qed
  show ?thesis unfolding pivot_of_def by (rule choose_pivot_dim) (simp, simp, simp, use ex in blast)
qed

lemma middle: "kc k (nat d) \<noteq> kc k' (nat d) \<Longrightarrow> goes_left k d (middle k k' d) \<longleftrightarrow> \<not> goes_left k' d (middle k k' d)"
  by (auto simp: goes_left_def middle_def field_simps)

subsection \<open>Insertion keeps the histogram\<close>

primrec ins :: "key \<Rightarrow> real \<Rightarrow> nat \<Rightarrow> kdt \<Rightarrow> kdt" where
  "ins k v n (Tip i k' v') = (if k = k' then Tip i k' (v' + v)
     else let d = pivot_of k k'; p = middle k k' d in
       if goes_left k d p then Fork i d p (Tip n k v) (Tip (Suc n) k' v') else Fork i d p (Tip n k' v') (Tip (Suc n) k v))"
| "ins k v n (Fork i d p l r) = (if goes_left k d p then Fork i d p (ins k v n l) r else Fork i d p l (ins k v n r))"

lemma ins_root [simp]: "root_of (ins k v n T) = root_of T"
  by (cases T) (auto simp: Let_def)

lemma ins_keys: "keys (ins k v n T) = insert k (keys T)"
  by (induction T) (auto simp: Let_def)

lemma ins_ordered: "ordered T \<Longrightarrow> ordered (ins k v n T)"
proof (induction T)
  case (Tip i k' v')
  show ?case
  proof (cases "k = k'")
    case False
    have "goes_left k (pivot_of k k') (middle k k' (pivot_of k k')) \<longleftrightarrow> \<not> goes_left k' (pivot_of k k') (middle k k' (pivot_of k k'))"
      by (rule middle) (use pivot_of [OF False] in simp)
    then show ?thesis using False by (simp add: Let_def)
  qed simp
qed (auto simp: ins_keys)

definition grown :: "key \<Rightarrow> kdt \<Rightarrow> nat" where
  "grown k T = (if k \<in> keys T then 0 else 1)"

lemma ins_addrs:
  "ordered T \<Longrightarrow> distinct (addrs T) \<Longrightarrow> (\<forall>a \<in> set (addrs T). a < n) \<Longrightarrow>
   distinct (addrs (ins k v n T)) \<and> set (addrs (ins k v n T)) = set (addrs T) \<union> {n..<n + 2 * grown k T}"
proof (induction T)
  case (Tip i k' v')
  then show ?case by (auto simp: Let_def grown_def)
next
  case (Fork i d p l r)
  have "k \<in> keys l \<union> keys r \<longleftrightarrow> k \<in> keys (if goes_left k d p then l else r)" using Fork.prems(1) by auto
  then have g: "grown k (Fork i d p l r) = grown k (if goes_left k d p then l else r)" by (simp add: grown_def)
  have o: "ordered l" "ordered r" "distinct (addrs l)" "distinct (addrs r)" "i \<notin> set (addrs l)" "i \<notin> set (addrs r)"
    "set (addrs l) \<inter> set (addrs r) = {}" "i < n" "\<forall>a \<in> set (addrs l). a < n" "\<forall>a \<in> set (addrs r). a < n"
    using Fork.prems by auto
  show ?case
  proof (cases "goes_left k d p")
    case True
    have IH: "distinct (addrs (ins k v n l))" "set (addrs (ins k v n l)) = set (addrs l) \<union> {n..<n + 2 * grown k l}"
      using Fork.IH(1) [OF o(1,3,9)] by simp_all
    have "set (addrs r) \<inter> {n..<n + 2 * grown k l} = {}" using o(10) by auto
    then show ?thesis using o IH True by (simp add: g) blast
  next
    case False
    have IH: "distinct (addrs (ins k v n r))" "set (addrs (ins k v n r)) = set (addrs r) \<union> {n..<n + 2 * grown k r}"
      using Fork.IH(2) [OF o(2,4,10)] by simp_all
    have "set (addrs l) \<inter> {n..<n + 2 * grown k r} = {}" using o(9) by auto
    then show ?thesis using o IH False by (simp add: g) blast
  qed
qed

definition histogram :: "kdt \<Rightarrow> key \<Rightarrow> real" where
  "histogram T k = (\<Sum>(k', i, v) \<leftarrow> leaves T. if k' = k then v else 0)"

lemma histogram_simps [simp]:
  "histogram (Tip i k' v) k = (if k' = k then v else 0)"
  "histogram (Fork i d p l r) k = histogram l k + histogram r k"
  by (simp_all add: histogram_def)

lemma ins_histogram: "histogram (ins k v n T) = (\<lambda>k'. histogram T k' + (if k' = k then v else 0))"
  by (induction T) (auto simp: Let_def fun_eq_iff)

lemma ins_leaves: "ordered T \<Longrightarrow> length (leaves (ins k v n T)) = length (leaves T) + grown k T"
proof (induction T)
  case (Fork i d p l r)
  have "k \<in> keys l \<union> keys r \<longleftrightarrow> k \<in> keys (if goes_left k d p then l else r)" using Fork.prems by auto
  then have g: "grown k (Fork i d p l r) = grown k (if goes_left k d p then l else r)" by (simp add: grown_def)
  show ?case using Fork by (cases "goes_left k d p") (simp_all add: g)
qed (auto simp: Let_def grown_def)

definition insert_frame :: "kd_tree \<Rightarrow> kd_tree \<Rightarrow> kdt \<Rightarrow> nat \<Rightarrow> bool" where
  "insert_frame t t' T g \<longleftrightarrow> (\<forall>a. a \<notin> set (addrs T) \<longrightarrow> a < length (kt_nodes t) \<longrightarrow> node_at t' a = node_at t a)
     \<and> length (kt_nodes t') = length (kt_nodes t) + 2 * g \<and> kt_count t' = kt_count t + 2 * g
     \<and> kt_leaves t' = kt_leaves t + int g \<and> kt_size t' = kt_size t \<and> kt_max t' = kt_max t"

lemma split_leaf:
  assumes i: "node_at t i = Some nd" "kn_leaf nd" and ne: "key \<noteq> kn_key nd" and room: "kt_count t + 2 \<le> kt_max t"
  shows "\<exists>t'. insert_node (Suc (Suc m)) parent (Some i) key w t = Some (i, t')
    \<and> shown t' (ins key w (length (kt_nodes t)) (Tip i (kn_key nd) (kn_value nd))) \<and> insert_frame t t' (Tip i (kn_key nd) (kn_value nd)) 1"
proof -
  let ?k = "kn_key nd" and ?v = "kn_value nd" and ?n = "length (kt_nodes t)"
  let ?d = "pivot_of key ?k"
  let ?p = "middle key ?k ?d"
  have d: "\<not> ?d < 0" using pivot_of [OF ne] by simp
  have il: "i < ?n" using node_at_less [of t i] i(1) by simp
  let ?nd1 = "nd\<lparr>kn_pivot_dim := ?d, kn_pivot_value := ?p\<rparr>"
  have start: "insert_node (Suc (Suc m)) parent (Some i) key w t = (do {
      t5 \<leftarrow> (if goes_left key ?d ?p then do {
           (l, t2) \<leftarrow> new_leaf (Some i) key w (put_node i ?nd1 t);
           t3 \<leftarrow> update_at i (\<lambda>nd. nd\<lparr>kn_left := Some l\<rparr>) t2;
           (r, t4) \<leftarrow> new_leaf (Some i) ?k ?v t3;
           update_at i (\<lambda>nd. nd\<lparr>kn_right := Some r\<rparr>) t4 }
         else do {
           (l, t2) \<leftarrow> new_leaf (Some i) ?k ?v (put_node i ?nd1 t);
           t3 \<leftarrow> update_at i (\<lambda>nd. nd\<lparr>kn_left := Some l\<rparr>) t2;
           (r, t4) \<leftarrow> new_leaf (Some i) key w t3;
           update_at i (\<lambda>nd. nd\<lparr>kn_right := Some r\<rparr>) t4 });
      t6 \<leftarrow> update_at i (\<lambda>nd. nd\<lparr>kn_leaf := False\<rparr>) t5;
      Some (i, t6\<lparr>kt_leaves := kt_leaves t6 - 1\<rparr>) })"
    using i ne d update_at_put [OF i(1), of "\<lambda>x. x\<lparr>kn_pivot_dim := ?d, kn_pivot_value := ?p\<rparr>"]
    by (simp add: Let_def)
  have two: "\<exists>t'. (do {
           (l, t2) \<leftarrow> new_leaf (Some i) k1 v1 (put_node i ?nd1 t);
           t3 \<leftarrow> update_at i (\<lambda>nd. nd\<lparr>kn_left := Some l\<rparr>) t2;
           (r, t4) \<leftarrow> new_leaf (Some i) k2 v2 t3;
           t5 \<leftarrow> update_at i (\<lambda>nd. nd\<lparr>kn_right := Some r\<rparr>) t4;
           t6 \<leftarrow> update_at i (\<lambda>nd. nd\<lparr>kn_leaf := False\<rparr>) t5;
           Some (i, t6\<lparr>kt_leaves := kt_leaves t6 - 1\<rparr>) }) = Some (i, t')
       \<and> shown t' (Fork i ?d ?p (Tip ?n k1 v1) (Tip (Suc ?n) k2 v2)) \<and> insert_frame t t' (Tip i ?k ?v) 1" for k1 v1 k2 v2
  proof -
    let ?leaf = "\<lambda>k v. new_kd_node\<lparr>kn_leaf := True, kn_depth := kn_depth nd + 1, kn_key := k, kn_value := v\<rparr>"
    let ?t1 = "put_node i ?nd1 t"
    let ?t2 = "add_node (?leaf k1 v1) ?t1"
    let ?t3 = "put_node i (?nd1\<lparr>kn_left := Some ?n\<rparr>) ?t2"
    let ?t4 = "add_node (?leaf k2 v2) ?t3"
    let ?t5 = "put_node i (?nd1\<lparr>kn_left := Some ?n, kn_right := Some (Suc ?n)\<rparr>) ?t4"
    let ?t6 = "put_node i (?nd1\<lparr>kn_left := Some ?n, kn_right := Some (Suc ?n), kn_leaf := False\<rparr>) ?t5"
    let ?t7 = "?t6\<lparr>kt_leaves := kt_leaves ?t6 - 1\<rparr>"
    have ne: "i \<noteq> ?n" "i \<noteq> Suc ?n" "i < Suc ?n" "i < Suc (Suc ?n)" using il by simp_all
    note at = node_at_put node_at_add il ne ne(1,2) [symmetric] i(1)
    have n1: "new_leaf (Some i) k1 v1 ?t1 = Some (?n, ?t2)"
      using new_leaf_add [of ?t1 i ?nd1 k1 v1] room by (simp add: at)
    have n2: "update_at i (\<lambda>nd. nd\<lparr>kn_left := Some ?n\<rparr>) ?t2 = Some ?t3"
      using update_at_put [of ?t2 i ?nd1 "\<lambda>nd. nd\<lparr>kn_left := Some ?n\<rparr>"] by (simp add: at)
    have n3: "new_leaf (Some i) k2 v2 ?t3 = Some (Suc ?n, ?t4)"
      using new_leaf_add [of ?t3 i "?nd1\<lparr>kn_left := Some ?n\<rparr>" k2 v2] room by (simp add: at)
    have n4: "update_at i (\<lambda>nd. nd\<lparr>kn_right := Some (Suc ?n)\<rparr>) ?t4 = Some ?t5"
      using update_at_put [of ?t4 i "?nd1\<lparr>kn_left := Some ?n\<rparr>" "\<lambda>nd. nd\<lparr>kn_right := Some (Suc ?n)\<rparr>"] by (simp add: at)
    have n5: "update_at i (\<lambda>nd. nd\<lparr>kn_leaf := False\<rparr>) ?t5 = Some ?t6"
      using update_at_put [of ?t5 i "?nd1\<lparr>kn_left := Some ?n, kn_right := Some (Suc ?n)\<rparr>" "\<lambda>nd. nd\<lparr>kn_leaf := False\<rparr>"] by (simp add: at)
    have node7: "node_at ?t7 a = node_at ?t6 a" for a by (simp add: node_at_def)
    have "shown ?t7 (Fork i ?d ?p (Tip ?n k1 v1) (Tip (Suc ?n) k2 v2))"
      unfolding shown.simps node7 using il by (simp add: at)
    moreover have "insert_frame t ?t7 (Tip i ?k ?v) 1"
      unfolding insert_frame_def node7 by (simp add: at)
    ultimately show ?thesis by (simp only: n1 n2 n3 n4 n5 bind.bind_lunit prod.case) blast
  qed
  show ?thesis
  proof (cases "goes_left key ?d ?p")
    case True
    then show ?thesis unfolding start using two [of key w ?k ?v] ne by (simp add: Let_def bind_assoc split_def)
  next
    case False
    then show ?thesis unfolding start using two [of ?k ?v key w] ne by (simp add: Let_def bind_assoc split_def)
  qed
qed

lemma insert_frame_mono: "insert_frame t t' T g \<Longrightarrow> set (addrs T) \<subseteq> set (addrs T') \<Longrightarrow> insert_frame t t' T' g"
  unfolding insert_frame_def by blast

lemma insert_node_ok:
  assumes "shown t T" "ordered T" "distinct (addrs T)" "k \<notin> keys T \<longrightarrow> kt_count t + 2 \<le> kt_max t" "height T + 2 \<le> fuel"
  shows "\<exists>t'. insert_node fuel parent (Some (root_of T)) k v t = Some (root_of T, t')
    \<and> shown t' (ins k v (length (kt_nodes t)) T) \<and> insert_frame t t' T (grown k T)"
  using assms
proof (induction T arbitrary: fuel parent)
  case (Tip i k' v')
  then obtain m where m: "fuel = Suc (Suc m)" by (cases fuel; cases "fuel - 1") auto
  obtain nd where nd: "node_at t i = Some nd" "kn_leaf nd" "kn_key nd = k'" "kn_value nd = v'" using Tip.prems(1) by auto
  show ?case
  proof (cases "k = k'")
    case False
    then show ?thesis using split_leaf [OF nd(1,2), of k m parent v] Tip.prems(4) nd(3,4) m by (simp add: grown_def)
  next
    case True
    have il: "i < length (kt_nodes t)" using node_at_less [of t i] nd(1) by simp
    let ?t = "put_node i (nd\<lparr>kn_value := kn_value nd + v\<rparr>) t"
    have "insert_node fuel parent (Some i) k v t = Some (i, ?t)" using m nd True update_at_put [OF nd(1)] by simp
    moreover have "shown ?t (Tip i k' (v' + v))" using nd il by (simp add: node_at_put)
    moreover have "insert_frame t ?t (Tip i k' v') 0" using il by (simp add: insert_frame_def node_at_put)
    ultimately show ?thesis using True by (simp add: grown_def)
  qed
next
  case (Fork i d p l r)
  then obtain m where m: "fuel = Suc m" "height l + 2 \<le> m" "height r + 2 \<le> m" by (cases fuel) auto
  obtain nd where nd: "node_at t i = Some nd" "\<not> kn_leaf nd" "kn_left nd = Some (root_of l)" "kn_right nd = Some (root_of r)"
    "kn_pivot_dim nd = d" "kn_pivot_value nd = p" and sh: "shown t l" "shown t r" using Fork.prems(1) by auto
  have o: "ordered l" "ordered r" "distinct (addrs l)" "distinct (addrs r)" "i \<notin> set (addrs l)" "i \<notin> set (addrs r)"
    "set (addrs l) \<inter> set (addrs r) = {}" using Fork.prems(2,3) by auto
  have less: "a < length (kt_nodes t)" if "a \<in> insert i (set (addrs l) \<union> set (addrs r))" for a
    using that node_at_less [of t a] shown_node [OF sh(1)] shown_node [OF sh(2)] nd(1) by auto
  show ?case
  proof (cases "goes_left k d p")
    case True
    have g: "grown k (Fork i d p l r) = grown k l" using Fork.prems(2) True by (auto simp: grown_def)
    have "k \<notin> keys l \<longrightarrow> kt_count t + 2 \<le> kt_max t" using Fork.prems(2,4) True by auto
    from Fork.IH(1) [OF sh(1) o(1,3) this m(2), of "Some i"]
    obtain t' where t': "insert_node m (Some i) (Some (root_of l)) k v t = Some (root_of l, t')"
      "shown t' (ins k v (length (kt_nodes t)) l)" "insert_frame t t' l (grown k l)" by blast
    have old: "node_at t' a = node_at t a" if "a \<notin> set (addrs l)" "a < length (kt_nodes t)" for a
      using t'(3) that by (simp add: insert_frame_def)
    have "shown t' r" by (rule shown_cong [OF _ sh(2)]) (use old o(7) less in blast)
    moreover have "node_at t' i = Some nd" using old [OF o(5)] less nd(1) by simp
    moreover have "insert_frame t t' (Fork i d p l r) (grown k l)" by (rule insert_frame_mono [OF t'(3)]) auto
    moreover have "insert_node fuel parent (Some i) k v t = Some (i, t')" using m(1) nd True t'(1) by simp
    ultimately show ?thesis using True nd t'(2) g by simp
  next
    case False
    have g: "grown k (Fork i d p l r) = grown k r" using Fork.prems(2) False by (auto simp: grown_def)
    have "k \<notin> keys r \<longrightarrow> kt_count t + 2 \<le> kt_max t" using Fork.prems(2,4) False by auto
    from Fork.IH(2) [OF sh(2) o(2,4) this m(3), of "Some i"]
    obtain t' where t': "insert_node m (Some i) (Some (root_of r)) k v t = Some (root_of r, t')"
      "shown t' (ins k v (length (kt_nodes t)) r)" "insert_frame t t' r (grown k r)" by blast
    have old: "node_at t' a = node_at t a" if "a \<notin> set (addrs r)" "a < length (kt_nodes t)" for a
      using t'(3) that by (simp add: insert_frame_def)
    have "shown t' l" by (rule shown_cong [OF _ sh(1)]) (use old o(7) less in blast)
    moreover have "node_at t' i = Some nd" using old [OF o(6)] less nd(1) by simp
    moreover have "insert_frame t t' (Fork i d p l r) (grown k r)" by (rule insert_frame_mono [OF t'(3)]) auto
    moreover have "insert_node fuel parent (Some i) k v t = Some (i, t')" using m(1) nd False t'(1) by simp
    ultimately show ?thesis using False nd t'(2) g by simp
  qed
qed

text \<open>The tree a cleared or filled object holds.\<close>

fun holds :: "kd_tree \<Rightarrow> kdt option \<Rightarrow> bool" where
  "holds t None \<longleftrightarrow> kt_root t = None \<and> kt_nodes t = [] \<and> kt_count t = 0 \<and> kt_leaves t = 0"
| "holds t (Some T) \<longleftrightarrow> kt_root t = Some (root_of T) \<and> shown t T \<and> ordered T \<and> distinct (addrs T)
     \<and> set (addrs T) = {..<length (kt_nodes t)} \<and> kt_count t = length (kt_nodes t) \<and> kt_leaves t = int (length (leaves T))"

definition keys_of :: "kdt option \<Rightarrow> key set" where
  "keys_of c = (case c of None \<Rightarrow> {} | Some T \<Rightarrow> keys T)"

definition histogram_of :: "kdt option \<Rightarrow> key \<Rightarrow> real" where
  "histogram_of c k = (case c of None \<Rightarrow> 0 | Some T \<Rightarrow> histogram T k)"

lemma addrs_leaves: "length (addrs T) + 1 = 2 * length (leaves T)"
  by (induction T) auto

lemma card_keys: "ordered T \<Longrightarrow> card (keys T) = length (leaves T)"
  using distinct_card [OF ordered_distinct] by (simp add: keys_def)

lemma holds_length: "holds t (Some T) \<Longrightarrow> length (kt_nodes t) = length (addrs T)"
  using distinct_card [of "addrs T"] by simp

lemma holds_used: "holds t (Some T) \<Longrightarrow> kt_nodes t \<noteq> []"
  using holds_length [of t T] height_addrs [of T] by (metis length_0_conv not_less_zero)

lemma kd_empty_holds: "holds (kd_empty t) None"
  by (simp add: kd_empty_def)

lemma insert_pose_ok:
  assumes h: "holds t c" and room: "2 * card (keys_of c) + 1 \<le> kt_max t" and k_def: "k = pose_key t pose"
  shows "\<exists>t' T. insert_pose pose v t = Some t' \<and> holds t' (Some T) \<and> keys T = insert k (keys_of c)
    \<and> histogram T = (\<lambda>k'. histogram_of c k' + (if k' = k then v else 0)) \<and> kt_size t' = kt_size t \<and> kt_max t' = kt_max t"
proof (cases c)
  case None
  let ?t = "(add_node (new_kd_node\<lparr>kn_leaf := True, kn_depth := 0, kn_key := k, kn_value := v\<rparr>) t)\<lparr>kt_root := Some 0\<rparr>"
  have empty: "kt_root t = None" "kt_nodes t = []" "kt_count t = 0" "kt_leaves t = 0" using h None by simp_all
  have "insert_pose pose v t = Some ?t"
    using empty room by (simp add: insert_pose_def new_leaf_def add_node_def k_def)
  moreover have "holds ?t (Some (Tip 0 k v))"
    using empty by (simp add: add_node_def node_at_def lessThan_Suc)
  moreover have "keys (Tip 0 k v) = insert k (keys_of c)" "histogram (Tip 0 k v) = (\<lambda>k'. histogram_of c k' + (if k' = k then v else 0))"
    using None by (simp_all add: keys_of_def histogram_of_def fun_eq_iff)
  ultimately show ?thesis by (intro exI [of _ ?t] exI [of _ "Tip 0 k v"]) simp
next
  case (Some T)
  let ?n = "length (kt_nodes t)"
  have T: "kt_root t = Some (root_of T)" "shown t T" "ordered T" "distinct (addrs T)" "set (addrs T) = {..<?n}" "kt_count t = ?n"
    "kt_leaves t = int (length (leaves T))" using h Some by simp_all
  have "?n + 1 = 2 * card (keys T)" using holds_length [of t T] h Some addrs_leaves [of T] card_keys [OF T(3)] by simp
  then have "kt_count t + 2 \<le> kt_max t" using room T(6) Some by (simp add: keys_of_def)
  moreover have "height T + 2 \<le> ?n + 2" using height_addrs [of T] holds_length [of t T] h Some by simp
  ultimately obtain t' where t': "insert_node (?n + 2) None (Some (root_of T)) k v t = Some (root_of T, t')" "shown t' (ins k v ?n T)"
    "insert_frame t t' T (grown k T)" using insert_node_ok [OF T(2-4), of k "?n + 2" None v] by blast
  have "\<forall>a \<in> set (addrs T). a < ?n" using T(5) by simp
  from ins_addrs [OF T(3,4) this, of k v]
  have a: "distinct (addrs (ins k v ?n T))" "set (addrs (ins k v ?n T)) = set (addrs T) \<union> {?n..<?n + 2 * grown k T}" by simp_all
  let ?t = "t'\<lparr>kt_root := Some (root_of T)\<rparr>"
  have "shown ?t (ins k v ?n T)" by (rule shown_cong [OF _ t'(2)]) (simp add: node_at_def)
  then have "holds ?t (Some (ins k v ?n T))"
    using t'(3) a T ins_ordered [OF T(3)] ins_leaves [OF T(3), of k v ?n] by (auto simp: insert_frame_def)
  moreover have "insert_pose pose v t = Some ?t" using T(1) t'(1) by (simp add: insert_pose_def k_def)
  ultimately show ?thesis using Some t'(3)
    by (intro exI [of _ ?t] exI [of _ "ins k v ?n T"]) (simp add: keys_of_def histogram_of_def ins_keys ins_histogram insert_frame_def)
qed

primrec insert_poses :: "(vec3 \<times> real) list \<Rightarrow> kd_tree \<Rightarrow> kd_tree option" where
  "insert_poses [] t = Some t"
| "insert_poses (p # ps) t = do { t' \<leftarrow> insert_pose (fst p) (snd p) t; insert_poses ps t' }"

lemma pose_key_cong: "kt_size t' = kt_size t \<Longrightarrow> pose_key t' = pose_key t"
  by (simp add: pose_key_def fun_eq_iff)

lemma insert_poses_ok:
  assumes "holds t c" "2 * card (keys_of c) + 2 * length ps \<le> kt_max t + 1" "finite (keys_of c)"
  shows "\<exists>t' c'. insert_poses ps t = Some t' \<and> holds t' c' \<and> keys_of c' = keys_of c \<union> pose_key t ` fst ` set ps
    \<and> histogram_of c' = (\<lambda>k. histogram_of c k + (\<Sum>p \<leftarrow> ps. if pose_key t (fst p) = k then snd p else 0))
    \<and> kt_size t' = kt_size t \<and> kt_max t' = kt_max t"
  using assms
proof (induction ps arbitrary: t c)
  case Nil
  then show ?case by (intro exI [of _ t] exI [of _ c]) simp
next
  case (Cons p ps)
  have "2 * card (keys_of c) + 1 \<le> kt_max t" using Cons.prems(2) by simp
  from insert_pose_ok [OF Cons.prems(1) this refl, of "fst p" "snd p"]
  obtain t1 T where t1: "insert_pose (fst p) (snd p) t = Some t1" "holds t1 (Some T)" "keys T = insert (pose_key t (fst p)) (keys_of c)"
    "histogram T = (\<lambda>k'. histogram_of c k' + (if k' = pose_key t (fst p) then snd p else 0))" "kt_size t1 = kt_size t" "kt_max t1 = kt_max t" by blast
  have k1: "keys_of (Some T) = insert (pose_key t (fst p)) (keys_of c)" "histogram_of (Some T) = histogram T"
    using t1(3) by (simp_all add: keys_of_def histogram_of_def fun_eq_iff)
  have "card (keys_of (Some T)) \<le> Suc (card (keys_of c))" unfolding k1 by (rule card_insert_le_m1) (use Cons.prems(3) in simp_all)
  then have "2 * card (keys_of (Some T)) + 2 * length ps \<le> kt_max t1 + 1" using Cons.prems(2) t1(6) by simp
  moreover have "finite (keys_of (Some T))" unfolding k1 using Cons.prems(3) by simp
  ultimately obtain t' c' where t': "insert_poses ps t1 = Some t'" "holds t' c'" "keys_of c' = keys_of (Some T) \<union> pose_key t1 ` fst ` set ps"
    "histogram_of c' = (\<lambda>k. histogram_of (Some T) k + (\<Sum>p \<leftarrow> ps. if pose_key t1 (fst p) = k then snd p else 0))"
    "kt_size t' = kt_size t1" "kt_max t' = kt_max t1" using Cons.IH [OF t1(2)] by blast
  note pk = pose_key_cong [OF t1(5)]
  have "keys_of c' = keys_of c \<union> pose_key t ` fst ` set (p # ps)" unfolding t'(3) k1 pk by auto
  moreover have "histogram_of c' = (\<lambda>k. histogram_of c k + (\<Sum>p \<leftarrow> p # ps. if pose_key t (fst p) = k then snd p else 0))"
    unfolding t'(4) k1 t1(4) pk by (auto simp: fun_eq_iff)
  moreover have "insert_poses (p # ps) t = Some t'" using t1(1) t'(1) by simp
  ultimately show ?case using t'(2,5,6) t1(5,6) by (intro exI [of _ t'] exI [of _ c']) simp
qed

subsection \<open>Search finds the leaves\<close>

definition index_of :: "kdt \<Rightarrow> key \<Rightarrow> nat option" where
  "index_of T k = map_of (map (\<lambda>(k, i, v). (k, i)) (leaves T)) k"

lemma index_of_None: "index_of T k = None \<longleftrightarrow> k \<notin> keys T"
  by (force simp: index_of_def map_of_eq_None_iff keys_def)

lemma index_of_Some:
  assumes "ordered T"
  shows "index_of T k = Some i \<longleftrightarrow> (\<exists>v. (k, i, v) \<in> set (leaves T))"
proof -
  have "map fst (map (\<lambda>(k, i, v). (k, i)) (leaves T)) = map fst (leaves T)" by (simp add: split_def)
  then have "distinct (map fst (map (\<lambda>(k, i, v). (k, i)) (leaves T)))" using ordered_distinct [OF assms] by presburger
  then show ?thesis unfolding index_of_def by (subst map_of_eq_Some_iff) force+
qed

lemma index_of_Fork:
  assumes "ordered (Fork i d p l r)"
  shows "index_of (Fork i d p l r) k = (if goes_left k d p then index_of l k else index_of r k)"
proof -
  have app: "index_of (Fork i d p l r) k = (case index_of r k of Some x \<Rightarrow> Some x | None \<Rightarrow> index_of l k)
    \<or> index_of (Fork i d p l r) k = (case index_of l k of Some x \<Rightarrow> Some x | None \<Rightarrow> index_of r k)"
    by (simp add: index_of_def map_add_def split: option.split)
  show ?thesis
  proof (cases "goes_left k d p")
    case True
    then have "index_of r k = None" using assms by (auto simp: index_of_None)
    then show ?thesis using app True by (auto split: option.splits)
  next
    case False
    then have "index_of l k = None" using assms by (auto simp: index_of_None)
    then show ?thesis using app False by (auto split: option.splits)
  qed
qed

lemma find_node_ok:
  "shown t T \<Longrightarrow> ordered T \<Longrightarrow> height T < m \<Longrightarrow> find_node m (Some (root_of T)) k t = Some (index_of T k)"
proof (induction T arbitrary: m)
  case (Tip i k' v')
  then obtain m' where "m = Suc m'" by (cases m) auto
  then show ?case using Tip by (auto simp: index_of_def)
next
  case (Fork i d p l r)
  then obtain m' where m: "m = Suc m'" "height l < m'" "height r < m'" by (cases m) auto
  obtain nd where "node_at t i = Some nd" "\<not> kn_leaf nd" "kn_left nd = Some (root_of l)" "kn_right nd = Some (root_of r)"
    "kn_pivot_dim nd = d" "kn_pivot_value nd = p" using Fork.prems(1) by auto
  then show ?case using Fork.IH(1) [OF _ _ m(2)] Fork.IH(2) [OF _ _ m(3)] Fork.prems m(1) index_of_Fork [OF Fork.prems(2), of k] by simp
qed

lemma find_root_ok:
  assumes "holds t (Some T)"
  shows "find_node (length (kt_nodes t) + 1) (kt_root t) k t = Some (index_of T k)"
proof -
  have "height T < length (kt_nodes t) + 1" using height_addrs [of T] holds_length [OF assms] by simp
  then show ?thesis using assms find_node_ok [of t T "length (kt_nodes t) + 1" k] by simp
qed

declare find_node.simps [simp del]

subsection \<open>The tree is a histogram\<close>

lemma kd_empty_fields [simp]: "kt_max (kd_empty t) = kt_max t" "kt_size (kd_empty t) = kt_size t" "pose_key (kd_empty t) = pose_key t"
  by (simp_all add: kd_empty_def pose_key_def fun_eq_iff)

lemma kd_clear_some: "kt_nodes t \<noteq> [] \<Longrightarrow> kd_clear t = Some (kd_empty t)"
  by (simp add: kd_clear_def)

lemma filled_tree:
  assumes "2 * length ps \<le> kt_max t + 1"
  shows "\<exists>t' c. insert_poses ps (kd_empty t) = Some t' \<and> holds t' c \<and> keys_of c = pose_key t ` fst ` set ps
    \<and> histogram_of c = (\<lambda>k. \<Sum>p \<leftarrow> ps. if pose_key t (fst p) = k then snd p else 0) \<and> pose_key t' = pose_key t"
proof -
  have e: "keys_of None = {}" "histogram_of None = (\<lambda>k. 0)" by (simp_all add: keys_of_def histogram_of_def fun_eq_iff)
  have "2 * card (keys_of None) + 2 * length ps \<le> kt_max (kd_empty t) + 1" "finite (keys_of None)" using assms by (simp_all add: e)
  from insert_poses_ok [OF kd_empty_holds this]
  obtain t' c where "insert_poses ps (kd_empty t) = Some t'" "holds t' c" "keys_of c = keys_of None \<union> pose_key (kd_empty t) ` fst ` set ps"
    "histogram_of c = (\<lambda>k. histogram_of None k + (\<Sum>p \<leftarrow> ps. if pose_key (kd_empty t) (fst p) = k then snd p else 0))"
    "kt_size t' = kt_size (kd_empty t)" by blast
  note r = this [unfolded e kd_empty_fields]
  have "pose_key t' = pose_key t" by (rule pose_key_cong) (rule r(5))
  moreover have "keys_of c = pose_key t ` fst ` set ps" using r(3) by simp
  moreover have "histogram_of c = (\<lambda>k. \<Sum>p \<leftarrow> ps. if pose_key t (fst p) = k then snd p else 0)" using r(4) by simp
  ultimately show ?thesis using r(1,2) by blast
qed

lemma histogram_leaf:
  assumes "ordered T" "(k, i, v) \<in> set (leaves T)"
  shows "histogram T k = v"
  using assms
proof (induction T)
  case (Fork j d p l r)
  have zero: "histogram T' k = 0" if "k \<notin> keys T'" for T' using that by (induction T') auto
  show ?case
  proof (cases "(k, i, v) \<in> set (leaves l)")
    case True
    then have "k \<in> keys l" by (force simp: keys_def)
    then have "k \<notin> keys r" using Fork.prems(1) by auto
    then show ?thesis using Fork.IH(1) Fork.prems(1) True zero by simp
  next
    case False
    then have r: "(k, i, v) \<in> set (leaves r)" using Fork.prems(2) by simp
    then have "k \<in> keys r" by (force simp: keys_def)
    then have "k \<notin> keys l" using Fork.prems(1) by auto
    then show ?thesis using Fork.IH(2) Fork.prems(1) r zero by simp
  qed
qed simp


definition sample_poses :: "(vec3 \<times> real) list" where
  "sample_poses = [((0, 0, 0), 1), ((0.6, 0, 0), 1), ((0.1, 0.1, 0), 2), ((5, 5, 0), 1)]"


end
