(* ===== verification/KdCluster.thy ===== *)
theory KdCluster
  imports KdTree
begin

text \<open>
  The clusters of the histogram of poses, \<open>Cluster\<close> and \<open>ClusterNode\<close> of \<open>particle_filter_kdtree.cpp\<close>:
  the labels found by the search through neighbouring cells are the connected components of the occupied cells.
\<close>

subsection \<open>Clusters are connected components\<close>

definition touches :: "key \<Rightarrow> key \<Rightarrow> bool" where
  "touches k k' \<longleftrightarrow> (\<forall>i < 3. \<bar>kc k i - kc k' i\<bar> \<le> 1)"

lemma touches_sym: "touches k k' = touches k' k"
  by (auto simp: touches_def abs_minus_commute)

lemma kc_neighbor_key:
  "kc (neighbor_key k i) 0 = kc k 0 + int (i div 9) - 1" "kc (neighbor_key k i) 1 = kc k 1 + int ((i mod 9) div 3) - 1"
  "kc (neighbor_key k i) 2 = kc k 2 + int ((i mod 9) mod 3) - 1"
  by (simp_all add: neighbor_key_def kc_def)

lemma touches_iff: "touches k k' \<longleftrightarrow> \<bar>kc k 0 - kc k' 0\<bar> \<le> 1 \<and> \<bar>kc k 1 - kc k' 1\<bar> \<le> 1 \<and> \<bar>kc k 2 - kc k' 2\<bar> \<le> 1"
  by (auto simp: touches_def numeral_3_eq_3 less_Suc_eq numeral_2_eq_2)

lemma neighbor_key_touches: "(\<exists>i < 27. neighbor_key k i = k') \<longleftrightarrow> touches k k'"
proof
  assume "\<exists>i < 27. neighbor_key k i = k'"
  then obtain i where i: "i < 27" "neighbor_key k i = k'" by blast
  have "i div 9 < 3" using i(1) by (simp add: less_mult_imp_div_less)
  moreover have "(i mod 9) div 3 < 3" by (rule less_mult_imp_div_less) simp
  moreover have "(i mod 9) mod 3 < 3" by simp
  ultimately have b: "int (i div 9) \<le> 2" "int ((i mod 9) div 3) \<le> 2" "int ((i mod 9) mod 3) \<le> 2" by linarith+
  have gen: "0 \<le> x \<Longrightarrow> x \<le> 2 \<Longrightarrow> \<bar>y - (y + x - 1)\<bar> \<le> (1::int)" for x y by linarith
  show "touches k k'" unfolding i(2) [symmetric] touches_iff kc_neighbor_key by (intro conjI gen b of_nat_0_le_iff)
next
  assume t: "touches k k'"
  have c: "\<bar>kc k 0 - kc k' 0\<bar> \<le> 1" "\<bar>kc k 1 - kc k' 1\<bar> \<le> 1" "\<bar>kc k 2 - kc k' 2\<bar> \<le> 1" using t by (simp_all add: touches_iff)
  define a b d where "a = nat (kc k' 0 - kc k 0 + 1)" and "b = nat (kc k' 1 - kc k 1 + 1)" and "d = nat (kc k' 2 - kc k 2 + 1)"
  have abd: "a < 3" "b < 3" "d < 3" using c by (auto simp: a_def b_def d_def)
  let ?i = "9 * a + (3 * b + d)"
  have i: "?i < 27" "?i div 9 = a" "?i mod 9 = 3 * b + d" "(3 * b + d) div 3 = b" "(3 * b + d) mod 3 = d" using abd by simp_all
  have k': "kc k' 0 = kc k 0 + int a - 1" "kc k' 1 = kc k 1 + int b - 1" "kc k' 2 = kc k 2 + int d - 1"
    using c by (auto simp: a_def b_def d_def)
  have "neighbor_key k ?i = k'"
  proof (rule kc_eq)
    fix j assume "j \<in> set [0, 1, 2::nat]"
    then consider "j = 0" | "j = 1" | "j = 2" by auto
    then show "kc (neighbor_key k ?i) j = kc k' j" by cases (simp_all only: kc_neighbor_key i k')
  qed
  then show "\<exists>i < 27. neighbor_key k i = k'" using i(1) by blast
qed

text \<open>Labels are all that clustering changes.\<close>

definition same_tree :: "kd_tree \<Rightarrow> kd_tree \<Rightarrow> bool" where
  "same_tree t t' \<longleftrightarrow> t' = t\<lparr>kt_nodes := kt_nodes t'\<rparr> \<and> length (kt_nodes t') = length (kt_nodes t)
     \<and> (\<forall>i. map_option (\<lambda>x. x\<lparr>kn_cluster := 0\<rparr>) (node_at t' i) = map_option (\<lambda>x. x\<lparr>kn_cluster := 0\<rparr>) (node_at t i))"

definition label :: "kd_tree \<Rightarrow> nat \<Rightarrow> int" where
  "label t i = (case node_at t i of None \<Rightarrow> - 1 | Some nd \<Rightarrow> kn_cluster nd)"

lemma same_tree_refl [simp]: "same_tree t t"
  by (simp add: same_tree_def)

lemma same_tree_trans: "same_tree t t1 \<Longrightarrow> same_tree t1 t2 \<Longrightarrow> same_tree t t2"
  unfolding same_tree_def by (cases t; cases t1; cases t2) simp

lemma same_tree_fields:
  assumes "same_tree t t'"
  shows "kt_size t' = kt_size t" "kt_root t' = kt_root t" "kt_count t' = kt_count t" "kt_max t' = kt_max t" "kt_leaves t' = kt_leaves t"
    "length (kt_nodes t') = length (kt_nodes t)"
proof -
  have eq: "t' = t\<lparr>kt_nodes := kt_nodes t'\<rparr>" and len: "length (kt_nodes t') = length (kt_nodes t)" using assms by (simp_all add: same_tree_def)
  show "kt_size t' = kt_size t" "kt_root t' = kt_root t" "kt_count t' = kt_count t" "kt_max t' = kt_max t" "kt_leaves t' = kt_leaves t"
    by (subst eq, simp)+
  show "length (kt_nodes t') = length (kt_nodes t)" by (rule len)
qed

lemma same_tree_node:
  assumes "same_tree t t'" "node_at t i = Some nd"
  shows "\<exists>c. node_at t' i = Some (nd\<lparr>kn_cluster := c\<rparr>)"
proof -
  have "map_option (\<lambda>x. x\<lparr>kn_cluster := 0\<rparr>) (node_at t' i) = Some (nd\<lparr>kn_cluster := 0\<rparr>)" using assms by (simp add: same_tree_def)
  then obtain nd' where nd': "node_at t' i = Some nd'" "nd'\<lparr>kn_cluster := 0\<rparr> = nd\<lparr>kn_cluster := 0\<rparr>" by auto
  have "nd' = (nd'\<lparr>kn_cluster := 0\<rparr>)\<lparr>kn_cluster := kn_cluster nd'\<rparr>" by simp
  then have "nd' = nd\<lparr>kn_cluster := kn_cluster nd'\<rparr>" using nd'(2) by simp
  then show ?thesis using nd'(1) by metis
qed

lemma same_tree_shown:
  assumes "same_tree t t'"
  shows "shown t T \<Longrightarrow> shown t' T"
proof (induction T)
  case (Tip i k v)
  then show ?case using same_tree_node [OF assms, of i] by fastforce
next
  case (Fork i d p l r)
  then show ?case using same_tree_node [OF assms, of i] by fastforce
qed

lemma same_tree_holds: "same_tree t t' \<Longrightarrow> holds t (Some T) \<Longrightarrow> holds t' (Some T)"
  using same_tree_fields [of t t'] same_tree_shown [of t t' T] by simp

lemma set_label:
  assumes "node_at t i = Some nd" and t': "t' = put_node i (nd\<lparr>kn_cluster := c\<rparr>) t"
  shows "update_at i (\<lambda>x. x\<lparr>kn_cluster := c\<rparr>) t = Some t'" "same_tree t t'" "label t' i = c" "j \<noteq> i \<Longrightarrow> label t' j = label t j"
proof -
  have il: "i < length (kt_nodes t)" using node_at_less [of t i] assms(1) by simp
  show "update_at i (\<lambda>x. x\<lparr>kn_cluster := c\<rparr>) t = Some t'" using update_at_put [OF assms(1)] by (simp add: t')
  have "kt_nodes t' = (kt_nodes t)[i := Some (nd\<lparr>kn_cluster := c\<rparr>)]" "t' = t\<lparr>kt_nodes := kt_nodes t'\<rparr>" by (simp_all add: t' put_node_def)
  then show "same_tree t t'" using il assms(1) by (auto simp: same_tree_def node_at_def nth_list_update)
  show "label t' i = c" "j \<noteq> i \<Longrightarrow> label t' j = label t j" using il by (simp_all add: label_def t' node_at_put)
qed

definition cells :: "kdt \<Rightarrow> nat set" where
  "cells T = {i. \<exists>k v. (k, i, v) \<in> set (leaves T)}"

definition adjacent :: "kdt \<Rightarrow> (nat \<times> nat) set" where
  "adjacent T = {(i, j). \<exists>k v k' v'. (k, i, v) \<in> set (leaves T) \<and> (k', j, v') \<in> set (leaves T) \<and> touches k k'}"

definition unlabelled :: "kdt \<Rightarrow> kd_tree \<Rightarrow> nat set" where
  "unlabelled T t = {i \<in> cells T. label t i < 0}"

definition from_cell :: "kdt \<Rightarrow> nat \<Rightarrow> nat set" where
  "from_cell T j = {i. (j, i) \<in> (adjacent T)\<^sup>*}"

definition closed_at :: "kdt \<Rightarrow> kd_tree \<Rightarrow> nat \<Rightarrow> bool" where
  "closed_at T t i \<longleftrightarrow> (\<forall>j. (i, j) \<in> adjacent T \<longrightarrow> label t j \<ge> 0)"

definition explored :: "kdt \<Rightarrow> kd_tree \<Rightarrow> kd_tree \<Rightarrow> int \<Rightarrow> nat set \<Rightarrow> bool" where
  "explored T t t' c S \<longleftrightarrow> same_tree t t' \<and> (\<forall>i. label t i \<ge> 0 \<longrightarrow> label t' i = label t i)
     \<and> (\<forall>i. label t i < 0 \<longrightarrow> label t' i \<ge> 0 \<longrightarrow> label t' i = c \<and> i \<in> cells T \<and> i \<in> S \<and> closed_at T t' i)"

lemma explored_same: "explored T t t' c S \<Longrightarrow> same_tree t t'"
  by (simp add: explored_def)

lemma explored_kept: "explored T t t' c S \<Longrightarrow> label t i \<ge> 0 \<Longrightarrow> label t' i = label t i"
  by (simp add: explored_def)

lemma explored_new: "explored T t t' c S \<Longrightarrow> label t i < 0 \<Longrightarrow> label t' i \<ge> 0 \<Longrightarrow> label t' i = c \<and> i \<in> cells T \<and> i \<in> S \<and> closed_at T t' i"
  by (simp add: explored_def)

lemma explored_refl [simp]: "explored T t t c S"
  by (simp add: explored_def)

lemma explored_trans:
  assumes a: "explored T t t1 c S" and b: "explored T t1 t2 c S"
  shows "explored T t t2 c S"
  unfolding explored_def
proof (intro conjI allI impI)
  show "same_tree t t2" by (rule same_tree_trans [OF explored_same [OF a] explored_same [OF b]])
  show "label t2 i = label t i" if "label t i \<ge> 0" for i using explored_kept [OF a that] explored_kept [OF b, of i] that by simp
  have "label t2 i = c \<and> i \<in> cells T \<and> i \<in> S \<and> closed_at T t2 i" if new: "label t i < 0" "label t2 i \<ge> 0" for i
  proof (cases "label t1 i \<ge> 0")
    case True
    have "closed_at T t2 i" using explored_new [OF a new(1) True] explored_kept [OF b] unfolding closed_at_def by metis
    then show ?thesis using explored_new [OF a new(1) True] explored_kept [OF b True] by simp
  next
    case False
    then show ?thesis using explored_new [OF b _ new(2)] by simp
  qed
  then show "label t2 i = c" "i \<in> cells T" "i \<in> S" "closed_at T t2 i" if "label t i < 0" "label t2 i \<ge> 0" for i using that by blast+
qed

lemma explored_mono: "explored T t t' c S \<Longrightarrow> S \<subseteq> S' \<Longrightarrow> explored T t t' c S'"
  unfolding explored_def by blast

lemma finite_cells: "finite (cells T)"
proof -
  have "cells T = (\<lambda>x. fst (snd x)) ` set (leaves T)" by (force simp: cells_def)
  then show ?thesis by simp
qed

lemma cell_node:
  assumes "holds t (Some T)" "j \<in> cells T"
  obtains nd where "node_at t j = Some nd" "kn_leaf nd" "(kn_key nd, j, kn_value nd) \<in> set (leaves T)"
proof -
  obtain k v where kv: "(k, j, v) \<in> set (leaves T)" using assms(2) by (auto simp: cells_def)
  have "shown t T" using assms(1) by simp
  from leaves_shown [OF this kv] that kv show ?thesis by blast
qed

lemma adjacent_sym: "(i, j) \<in> adjacent T \<Longrightarrow> (j, i) \<in> adjacent T"
  unfolding adjacent_def mem_Collect_eq prod.case using touches_sym by blast

lemma adjacent_cells: "(i, j) \<in> adjacent T \<Longrightarrow> i \<in> cells T \<and> j \<in> cells T"
  unfolding adjacent_def cells_def by blast

text \<open>The neighbours of a cell are what the loop over the 27 keys finds.\<close>

lemma adjacent_found:
  assumes "holds t (Some T)" "node_at t j = Some nd" "(kn_key nd, j, kn_value nd) \<in> set (leaves T)"
  shows "(j, n) \<in> adjacent T \<longleftrightarrow> (\<exists>i < 27. index_of T (neighbor_key (kn_key nd) i) = Some n)"
proof -
  have ord: "ordered T" using assms(1) by simp
  have key: "k = kn_key nd" if "(k, j, v) \<in> set (leaves T)" for k v
    using leaves_shown [OF _ that, of t] assms(1,2) by auto
  have "(j, n) \<in> adjacent T \<longleftrightarrow> (\<exists>k' v'. (k', n, v') \<in> set (leaves T) \<and> touches (kn_key nd) k')"
    using assms(3) key unfolding adjacent_def by blast
  also have "\<dots> \<longleftrightarrow> (\<exists>k'. index_of T k' = Some n \<and> touches (kn_key nd) k')" using index_of_Some [OF ord] by blast
  also have "\<dots> \<longleftrightarrow> (\<exists>i < 27. index_of T (neighbor_key (kn_key nd) i) = Some n)"
    unfolding neighbor_key_touches [symmetric] by blast
  finally show ?thesis .
qed

definition visits :: "kdt \<Rightarrow> (nat \<Rightarrow> kd_tree \<Rightarrow> kd_tree option) \<Rightarrow> nat \<Rightarrow> bool" where
  "visits T f m \<longleftrightarrow> (\<forall>t j. holds t (Some T) \<longrightarrow> j \<in> cells T \<longrightarrow> label t j \<ge> 0 \<longrightarrow> card (unlabelled T t) < m \<longrightarrow>
     (\<exists>t'. f j t = Some t' \<and> explored T t t' (label t j) (from_cell T j) \<and> closed_at T t' j))"

lemma cluster_neighbors_ok:
  assumes f: "visits T f m" and j: "j \<in> cells T"
    and "holds t (Some T)" "label t j \<ge> 0" "card (unlabelled T t) \<le> m" "set idx \<subseteq> {..<27}"
  shows "\<exists>t'. cluster_neighbors f j idx t = Some t' \<and> explored T t t' (label t j) (from_cell T j)
    \<and> (\<forall>i \<in> set idx. \<forall>nd n. node_at t j = Some nd \<longrightarrow> index_of T (neighbor_key (kn_key nd) i) = Some n \<longrightarrow> label t' n \<ge> 0)"
  using assms(3-)
proof (induction idx arbitrary: t)
  case (Cons i idx)
  note h = Cons.prems(1) and c0 = Cons.prems(2) and idx = Cons.prems(4)
  obtain nd where nd: "node_at t j = Some nd" "kn_leaf nd" "(kn_key nd, j, kn_value nd) \<in> set (leaves T)" by (rule cell_node [OF h j])
  have lab: "label t j = kn_cluster nd" using nd(1) by (simp add: label_def)
  note find = find_root_ok [OF h, of "neighbor_key (kn_key nd) i"]
  let ?S = "from_cell T j"
  have rest: "\<exists>t'. cluster_neighbors f j idx t1 = Some t' \<and> explored T t t' (label t j) ?S
      \<and> (\<forall>i' \<in> insert i (set idx). \<forall>nd n. node_at t j = Some nd \<longrightarrow> index_of T (neighbor_key (kn_key nd) i') = Some n \<longrightarrow> label t' n \<ge> 0)"
    if e: "explored T t t1 (label t j) ?S" and n: "\<And>n. index_of T (neighbor_key (kn_key nd) i) = Some n \<Longrightarrow> label t1 n \<ge> 0" for t1
  proof -
    have h1: "holds t1 (Some T)" by (rule same_tree_holds [OF explored_same [OF e] h])
    have l1: "label t1 j = label t j" by (rule explored_kept [OF e c0])
    have "label t a < 0" if "label t1 a < 0" for a using explored_kept [OF e, of a] that by (cases "label t a \<ge> 0") auto
    then have "unlabelled T t1 \<subseteq> unlabelled T t" by (auto simp: unlabelled_def)
    moreover have "finite (unlabelled T t)" using finite_cells [of T] by (simp add: unlabelled_def)
    ultimately have "card (unlabelled T t1) \<le> card (unlabelled T t)" by (intro card_mono)
    then have card: "card (unlabelled T t1) \<le> m" using Cons.prems(3) by simp
    have idx': "set idx \<subseteq> {..<27}" and l0: "label t1 j \<ge> 0" using idx l1 c0 by auto
    obtain t' where t': "cluster_neighbors f j idx t1 = Some t'" "explored T t1 t' (label t j) ?S"
      "\<forall>i \<in> set idx. \<forall>nd n. node_at t1 j = Some nd \<longrightarrow> index_of T (neighbor_key (kn_key nd) i) = Some n \<longrightarrow> label t' n \<ge> 0"
      using Cons.IH [OF h1 l0 card idx', unfolded l1] by blast
    obtain x where x: "node_at t1 j = Some (nd\<lparr>kn_cluster := x\<rparr>)" using same_tree_node [OF explored_same [OF e] nd(1)] by blast
    have "label t' n \<ge> 0" if "i' \<in> insert i (set idx)" "index_of T (neighbor_key (kn_key nd) i') = Some n" for i' n
    proof (cases "i' \<in> set idx")
      case True
      then show ?thesis using t'(3) x that(2) by simp
    next
      case False
      then have "label t1 n \<ge> 0" using that n by simp
      then show ?thesis using explored_kept [OF t'(2)] by simp
    qed
    then show ?thesis using t'(1) explored_trans [OF e t'(2)] nd(1) by auto
  qed
  show ?case
  proof (cases "index_of T (neighbor_key (kn_key nd) i)")
    case None
    have "cluster_neighbors f j (i # idx) t = cluster_neighbors f j idx t" using nd(1) find None by simp
    then show ?thesis using rest [of t] None by simp
  next
    case (Some n)
    have adj: "(j, n) \<in> adjacent T" using adjacent_found [OF h nd(1,3)] Some idx by auto
    have n: "n \<in> cells T" using adjacent_cells [OF adj] by simp
    obtain nn where nn: "node_at t n = Some nn" "kn_leaf nn" "(kn_key nn, n, kn_value nn) \<in> set (leaves T)" by (rule cell_node [OF h n])
    have labn: "label t n = kn_cluster nn" using nn(1) by (simp add: label_def)
    show ?thesis
    proof (cases "kn_cluster nn \<ge> 0")
      case True
      have "cluster_neighbors f j (i # idx) t = cluster_neighbors f j idx t" using nd(1) find Some nn True by simp
      then show ?thesis using rest [of t] Some labn True by simp
    next
      case False
      let ?t1 = "put_node n (nn\<lparr>kn_cluster := kn_cluster nd\<rparr>) t"
      note set = set_label [OF nn(1) refl, where c = "kn_cluster nd"]
      have h1: "holds ?t1 (Some T)" by (rule same_tree_holds [OF set(2) h])
      have "x \<in> unlabelled T ?t1 \<longleftrightarrow> x \<in> unlabelled T t - {n}" for x
        using set(3) set(4) [of x] c0 lab by (cases "x = n") (simp_all add: unlabelled_def)
      then have "unlabelled T ?t1 = unlabelled T t - {n}" by blast
      moreover have "n \<in> unlabelled T t" using n False labn by (simp add: unlabelled_def)
      moreover have "finite (unlabelled T t)" using finite_cells [of T] by (simp add: unlabelled_def)
      ultimately have "card (unlabelled T ?t1) < m" using Cons.prems(3) card_Diff1_less [of "unlabelled T t" n] by simp
      then obtain t2 where t2: "f n ?t1 = Some t2" "explored T ?t1 t2 (label t j) (from_cell T n)" "closed_at T t2 n"
        using f h1 n set(3) c0 lab unfolding visits_def by (metis (no_types, lifting))
      have sub: "from_cell T n \<subseteq> ?S" using adj by (auto simp: from_cell_def intro: converse_rtrancl_into_rtrancl)
      have nS: "n \<in> ?S" using adj by (auto simp: from_cell_def)
      have e: "explored T t t2 (label t j) ?S"
        unfolding explored_def
      proof (intro conjI allI impI)
        show "same_tree t t2" by (rule same_tree_trans [OF set(2) explored_same [OF t2(2)]])
        show "label t2 a = label t a" if "label t a \<ge> 0" for a
          using that explored_kept [OF t2(2), of a] set(4) [of a] labn False by force
        have "label t2 a = label t j \<and> a \<in> cells T \<and> a \<in> ?S \<and> closed_at T t2 a" if a: "label t a < 0" "label t2 a \<ge> 0" for a
        proof (cases "a = n")
          case True
          have "label t2 n = label t j" using explored_kept [OF t2(2), of n] set(3) c0 lab by simp
          then show ?thesis using True n nS t2(3) by simp
        next
          case False
          then show ?thesis using explored_new [OF t2(2), of a] set(4) [OF False] a sub by auto
        qed
        then show "label t2 a = label t j" "a \<in> cells T" "a \<in> ?S" "closed_at T t2 a" if "label t a < 0" "label t2 a \<ge> 0" for a using that by blast+
      qed
      have "label t2 n \<ge> 0" using explored_kept [OF t2(2), of n] set(3) c0 lab by simp
      moreover have "cluster_neighbors f j (i # idx) t = cluster_neighbors f j idx t2" using nd(1) find Some nn False set(1) t2(1) by simp
      ultimately show ?thesis using rest [OF e] Some by simp
    qed
  qed
qed simp

lemma cluster_node_visits: "visits T (cluster_node m) m"
proof (induction m)
  case (Suc m)
  show ?case unfolding visits_def
  proof (intro allI impI)
    fix t j assume h: "holds t (Some T)" and j: "j \<in> cells T" and l: "label t j \<ge> 0" and card: "card (unlabelled T t) < Suc m"
    obtain nd where nd: "node_at t j = Some nd" "kn_leaf nd" "(kn_key nd, j, kn_value nd) \<in> set (leaves T)" by (rule cell_node [OF h j])
    have "card (unlabelled T t) \<le> m" "set [0..<27] \<subseteq> {..<27::nat}" using card by auto
    from cluster_neighbors_ok [OF Suc j h l this]
    obtain t' where t': "cluster_neighbors (cluster_node m) j [0..<27] t = Some t'" "explored T t t' (label t j) (from_cell T j)"
      "\<forall>i \<in> set [0..<27]. \<forall>nd n. node_at t j = Some nd \<longrightarrow> index_of T (neighbor_key (kn_key nd) i) = Some n \<longrightarrow> label t' n \<ge> 0" by blast
    have "closed_at T t' j" unfolding closed_at_def adjacent_found [OF h nd(1,3)] using t'(3) nd(1) by auto
    then show "\<exists>t'. cluster_node (Suc m) j t = Some t' \<and> explored T t t' (label t j) (from_cell T j) \<and> closed_at T t' j" using t' by simp
  qed
qed (simp add: visits_def)

text \<open>The queue holds all leaves, without labels.\<close>

lemma queue_leaves_ok:
  assumes "holds t (Some T)" "set idx \<subseteq> {..<length (kt_nodes t)}"
  shows "\<exists>q t'. queue_leaves idx q0 t = Some (q0 @ q, t') \<and> same_tree t t' \<and> set q = cells T \<inter> set idx
    \<and> (\<forall>i. label t' i = (if i \<in> set q then - 1 else label t i))"
  using assms
proof (induction idx arbitrary: q0 t)
  case Nil
  then show ?case by (intro exI [of _ "[]"] exI [of _ t]) simp
next
  case (Cons i idx)
  have sh: "shown t T" and all: "set (addrs T) = {..<length (kt_nodes t)}" using Cons.prems(1) by simp_all
  have ia: "i \<in> set (addrs T)" using Cons.prems(2) all by simp
  then obtain nd where nd: "node_at t i = Some nd" using shown_node [OF sh] by auto
  have cell: "i \<in> cells T \<longleftrightarrow> kn_leaf nd"
  proof -
    have "kn_leaf nd" if "(k, i, v) \<in> set (leaves T)" for k v using leaves_shown [OF sh that] nd by simp
    then show ?thesis using shown_leaf [OF sh ia nd] unfolding cells_def mem_Collect_eq by blast
  qed
  show ?case
  proof (cases "kn_leaf nd")
    case False
    obtain q t' where "queue_leaves idx q0 t = Some (q0 @ q, t')" "same_tree t t'" "set q = cells T \<inter> set idx"
      "\<forall>i. label t' i = (if i \<in> set q then - 1 else label t i)" using Cons.IH [OF Cons.prems(1), of q0] Cons.prems(2) by auto
    then show ?thesis using nd False cell by (intro exI [of _ q] exI [of _ t']) auto
  next
    case True
    let ?t = "put_node i (nd\<lparr>kn_cluster := - 1\<rparr>) t"
    note set = set_label [OF nd refl, where c = "- 1"]
    have h: "holds ?t (Some T)" by (rule same_tree_holds [OF set(2) Cons.prems(1)])
    have idx: "set idx \<subseteq> {..<length (kt_nodes ?t)}" using Cons.prems(2) by simp
    obtain q t' where q: "queue_leaves idx (q0 @ [i]) ?t = Some ((q0 @ [i]) @ q, t')" "same_tree ?t t'" "set q = cells T \<inter> set idx"
      "\<forall>i. label t' i = (if i \<in> set q then - 1 else label ?t i)" using Cons.IH [OF h idx, of "q0 @ [i]"] by blast
    have "label t' a = (if a \<in> set (i # q) then - 1 else label t a)" for a using q(4) set(3) set(4) [of a] by (cases "a = i") auto
    moreover have "queue_leaves (i # idx) q0 t = Some (q0 @ i # q, t')" using nd True set(1) q(1) by simp
    moreover have "set (i # q) = cells T \<inter> set (i # idx)" using q(3) cell True by auto
    ultimately show ?thesis using same_tree_trans [OF set(2) q(2)] by blast
  qed
qed

text \<open>The clusters found so far are whole components with labels of their own.\<close>

definition clusters_ok :: "kdt \<Rightarrow> kd_tree \<Rightarrow> int \<Rightarrow> bool" where
  "clusters_ok T t n \<longleftrightarrow> 0 \<le> n \<and> (\<forall>i \<in> cells T. label t i \<ge> 0 \<longrightarrow> label t i < n \<and> closed_at T t i)
     \<and> (\<forall>i \<in> cells T. \<forall>j \<in> cells T. label t i \<ge> 0 \<longrightarrow> label t j \<ge> 0 \<longrightarrow> (label t i = label t j \<longleftrightarrow> (i, j) \<in> (adjacent T)\<^sup>*))
     \<and> (\<forall>c. 0 \<le> c \<longrightarrow> c < n \<longrightarrow> (\<exists>i \<in> cells T. label t i = c))"

lemma adjacent_rtrancl_sym: "(i, j) \<in> (adjacent T)\<^sup>* \<Longrightarrow> (j, i) \<in> (adjacent T)\<^sup>*"
  using sym_rtrancl [of "adjacent T"] adjacent_sym by (auto simp: sym_def)

lemma closed_reach:
  assumes "\<And>i. label t i \<ge> 0 \<Longrightarrow> i \<in> cells T \<Longrightarrow> closed_at T t i" "i \<in> cells T" "label t i \<ge> 0" "(i, j) \<in> (adjacent T)\<^sup>*"
  shows "label t j \<ge> 0 \<and> j \<in> cells T"
  using assms(4,2,3)
proof (induction rule: rtrancl_induct)
  case (step y z)
  then show ?case using assms(1) [of y] adjacent_cells [OF step.hyps(2)] by (auto simp: closed_at_def)
qed simp

lemma new_cluster_ok:
  assumes old: "clusters_ok T t n" and h: "holds t (Some T)" and j: "j \<in> cells T" and l: "label t j < 0" and nd: "node_at t j = Some nd"
  shows "\<exists>t2. update_at j (\<lambda>x. x\<lparr>kn_cluster := n\<rparr>) t = Some (put_node j (nd\<lparr>kn_cluster := n\<rparr>) t)
    \<and> cluster_node (length (kt_nodes t) + 1) j (put_node j (nd\<lparr>kn_cluster := n\<rparr>) t) = Some t2
    \<and> same_tree t t2 \<and> clusters_ok T t2 (n + 1) \<and> label t2 j \<ge> 0 \<and> (\<forall>i. label t i \<ge> 0 \<longrightarrow> label t2 i = label t i)"
proof -
  let ?t1 = "put_node j (nd\<lparr>kn_cluster := n\<rparr>) t"
  note set = set_label [OF nd refl, where c = n]
  have n: "0 \<le> n" using old by (simp add: clusters_ok_def)
  have h1: "holds ?t1 (Some T)" by (rule same_tree_holds [OF set(2) h])
  have "cells T \<subseteq> set (addrs T)" using leaves_addr by (auto simp: cells_def)
  then have "card (cells T) \<le> length (kt_nodes t)" using holds_length [OF h] card_mono [of "set (addrs T)"] card_length [of "addrs T"] by (metis List.finite_set le_trans)
  moreover have "card (unlabelled T ?t1) \<le> card (cells T)" by (rule card_mono [OF finite_cells]) (auto simp: unlabelled_def)
  ultimately have "card (unlabelled T ?t1) < length (kt_nodes t) + 1" by simp
  then obtain t2 where t2: "cluster_node (length (kt_nodes t) + 1) j ?t1 = Some t2" "explored T ?t1 t2 n (from_cell T j)" "closed_at T t2 j"
    using cluster_node_visits [of T "length (kt_nodes t) + 1"] h1 j set(3) n unfolding visits_def by metis
  have kept: "label t2 i = label t i" if "label t i \<ge> 0" for i
    using that explored_kept [OF t2(2), of i] set(4) [of i] l by (cases "i = j") auto
  have lj: "label t2 j = n" using explored_kept [OF t2(2), of j] set(3) n by simp
  have new: "label t2 i = n \<and> i \<in> from_cell T j \<and> closed_at T t2 i" if "label t i < 0" "label t2 i \<ge> 0" for i
  proof (cases "i = j")
    case True
    then show ?thesis using lj t2(3) by (simp add: from_cell_def)
  next
    case False
    then show ?thesis using explored_new [OF t2(2), of i] set(4) [OF False] that by simp
  qed
  have old_ok: "label t i < n" "closed_at T t i" if "i \<in> cells T" "label t i \<ge> 0" for i using old that by (simp_all add: clusters_ok_def)
  have closed: "closed_at T t2 i" if "i \<in> cells T" "label t2 i \<ge> 0" for i
  proof (cases "label t i < 0")
    case True
    then show ?thesis using new that(2) by simp
  next
    case False
    then have "closed_at T t i" using old_ok(2) that(1) by simp
    then show ?thesis using kept unfolding closed_at_def by metis
  qed
  have reach: "(i, i') \<in> (adjacent T)\<^sup>* \<longleftrightarrow> label t2 i = label t2 i'"
    if i: "i \<in> cells T" "label t2 i \<ge> 0" and i': "i' \<in> cells T" "label t2 i' \<ge> 0" for i i'
  proof -
    have split: "(i, i') \<notin> (adjacent T)\<^sup>*" if "label t i < 0" "label t i' \<ge> 0" for i i'
    proof
      assume "(i, i') \<in> (adjacent T)\<^sup>*"
      then have r: "(i', i) \<in> (adjacent T)\<^sup>*" by (rule adjacent_rtrancl_sym)
      show False
      proof (cases "i' \<in> cells T")
        case True
        then show False using closed_reach [of t T i' i] old_ok(2) r that by auto
      next
        case False
        from r this have "i = i'" by (cases rule: converse_rtranclE) (auto dest: adjacent_cells)
        then show False using that by simp
      qed
    qed
    consider (both) "label t i < 0" "label t i' < 0" | (one) "label t i < 0" "label t i' \<ge> 0" | (two) "label t i \<ge> 0" "label t i' < 0"
      | (none) "label t i \<ge> 0" "label t i' \<ge> 0" by linarith
    then show ?thesis
    proof cases
      case both
      have "(j, i) \<in> (adjacent T)\<^sup>*" "(j, i') \<in> (adjacent T)\<^sup>*" using new [OF both(1) i(2)] new [OF both(2) i'(2)] by (simp_all add: from_cell_def)
      then have "(i, i') \<in> (adjacent T)\<^sup>*" using adjacent_rtrancl_sym [of j i T] by (meson rtrancl_trans)
      then show ?thesis using new [OF both(1) i(2)] new [OF both(2) i'(2)] by simp
    next
      case one
      then show ?thesis using split [OF one] new [OF one(1) i(2)] kept [OF one(2)] old_ok(1) [OF i'(1) one(2)] by simp
    next
      case two
      then show ?thesis using split [OF two(2,1)] adjacent_rtrancl_sym [of i i' T] new [OF two(2) i'(2)] kept [OF two(1)] old_ok(1) [OF i(1) two(1)] by auto
    next
      case none
      then show ?thesis using kept old i(1) i'(1) by (simp add: clusters_ok_def)
    qed
  qed
  have "label t2 i < n + 1" if "i \<in> cells T" "label t2 i \<ge> 0" for i
    using that new [of i] kept [of i] old_ok(1) [of i] by (cases "label t i < 0") auto
  moreover have "\<exists>i \<in> cells T. label t2 i = c" if c: "0 \<le> c" "c < n + 1" for c
  proof (cases "c = n")
    case True
    then show ?thesis using j lj by blast
  next
    case False
    then obtain i where "i \<in> cells T" "label t i = c" using old c unfolding clusters_ok_def by (metis zle_add1_eq_le order_le_less)
    then show ?thesis using kept [of i] c(1) by blast
  qed
  ultimately have "clusters_ok T t2 (n + 1)" using n closed reach by (simp add: clusters_ok_def)
  then show ?thesis using set(1) t2(1) same_tree_trans [OF set(2) explored_same [OF t2(2)]] lj n kept by auto
qed

lemma label_clusters_ok:
  assumes "clusters_ok T t n" "holds t (Some T)" "set js \<subseteq> cells T"
  shows "\<exists>n' t'. label_clusters js n t = Some (n', t') \<and> same_tree t t' \<and> clusters_ok T t' n' \<and> (\<forall>j \<in> set js. label t' j \<ge> 0)
    \<and> (\<forall>i. label t i \<ge> 0 \<longrightarrow> label t' i = label t i)"
  using assms
proof (induction js arbitrary: t n)
  case (Cons j js)
  have j: "j \<in> cells T" "set js \<subseteq> cells T" using Cons.prems(3) by simp_all
  obtain nd where nd: "node_at t j = Some nd" using cell_node [OF Cons.prems(2) j(1)] by blast
  have l: "label t j = kn_cluster nd" using nd by (simp add: label_def)
  show ?case
  proof (cases "kn_cluster nd \<ge> 0")
    case True
    obtain n' t' where "label_clusters js n t = Some (n', t')" "same_tree t t'" "clusters_ok T t' n'" "\<forall>j \<in> set js. label t' j \<ge> 0"
      "\<forall>i. label t i \<ge> 0 \<longrightarrow> label t' i = label t i" using Cons.IH [OF Cons.prems(1,2) j(2)] by blast
    then show ?thesis using nd True l by (intro exI [of _ n'] exI [of _ t']) auto
  next
    case False
    obtain t2 where t2: "update_at j (\<lambda>x. x\<lparr>kn_cluster := n\<rparr>) t = Some (put_node j (nd\<lparr>kn_cluster := n\<rparr>) t)"
      "cluster_node (length (kt_nodes t) + 1) j (put_node j (nd\<lparr>kn_cluster := n\<rparr>) t) = Some t2"
      "same_tree t t2" "clusters_ok T t2 (n + 1)" "label t2 j \<ge> 0" "\<forall>i. label t i \<ge> 0 \<longrightarrow> label t2 i = label t i"
      using new_cluster_ok [OF Cons.prems(1,2) j(1) _ nd] l False by auto
    obtain n' t' where t': "label_clusters js (n + 1) t2 = Some (n', t')" "same_tree t2 t'" "clusters_ok T t' n'" "\<forall>j \<in> set js. label t' j \<ge> 0"
      "\<forall>i. label t2 i \<ge> 0 \<longrightarrow> label t' i = label t2 i" using Cons.IH [OF t2(4) same_tree_holds [OF t2(3) Cons.prems(2)] j(2)] by blast
    have "label_clusters (j # js) n t = Some (n', t')" using nd False t2(1,2) t'(1) by (simp del: cluster_node.simps)
    then show ?thesis using same_tree_trans [OF t2(3) t'(2)] t'(3-5) t2(5,6) by (intro exI [of _ n'] exI [of _ t']) auto
  qed
qed simp

lemma cluster_ok:
  assumes "holds t (Some T)"
  shows "\<exists>n t'. cluster t = Some (n, t') \<and> same_tree t t' \<and> clusters_ok T t' n \<and> (\<forall>i \<in> cells T. label t' i \<ge> 0)"
proof -
  have cnt: "kt_count t = length (kt_nodes t)" using assms by simp
  have sub: "set [0..<kt_count t] \<subseteq> {..<length (kt_nodes t)}" using cnt by auto
  obtain q t1 where q: "queue_leaves [0..<kt_count t] [] t = Some ([] @ q, t1)" "same_tree t t1" "set q = cells T \<inter> set [0..<kt_count t]"
    "\<forall>i. label t1 i = (if i \<in> set q then - 1 else label t i)"
    using queue_leaves_ok [OF assms sub, of "[]"] by blast
  have "cells T \<subseteq> set (addrs T)" using leaves_addr by (auto simp: cells_def)
  then have sq: "set q = cells T" using q(3) cnt assms by auto
  have "clusters_ok T t1 0" using q(4) sq by (simp add: clusters_ok_def)
  from label_clusters_ok [OF this same_tree_holds [OF q(2) assms], of "rev q"] sq
  obtain n t2 where t2: "label_clusters (rev q) 0 t1 = Some (n, t2)" "same_tree t1 t2" "clusters_ok T t2 n" "\<forall>j \<in> set (rev q). label t2 j \<ge> 0" by auto
  have "cluster t = Some (n, t2)" using q(1) t2(1) by (simp add: cluster_def)
  then show ?thesis using same_tree_trans [OF q(2) t2(2)] t2(3,4) sq by auto
qed

subsection \<open>Properties\<close>

text \<open>Two poses are connected when a chain of occupied cells that touch each other leads from one to the other.\<close>

definition connected :: "kd_tree \<Rightarrow> vec3 set \<Rightarrow> (vec3 \<times> vec3) set" where
  "connected t P = {(p, q). p \<in> P \<and> q \<in> P \<and> touches (pose_key t p) (pose_key t q)}\<^sup>*"

lemma connected_adjacent:
  assumes "ordered T" and P: "keys T = pose_key t ` P" and i: "index_of T (pose_key t p) = Some i" and j: "index_of T (pose_key t q) = Some j"
    and p: "p \<in> P" and q: "q \<in> P" and uniq: "\<And>i k v k' v'. (k, i, v) \<in> set (leaves T) \<Longrightarrow> (k', i, v') \<in> set (leaves T) \<Longrightarrow> k = k'"
  shows "(i, j) \<in> (adjacent T)\<^sup>* \<longleftrightarrow> (p, q) \<in> connected t P"
proof -
  note ix = index_of_Some [OF assms(1)]
  show ?thesis
  proof
    assume "(i, j) \<in> (adjacent T)\<^sup>*"
    then have "\<forall>q. q \<in> P \<longrightarrow> index_of T (pose_key t q) = Some j \<longrightarrow> (p, q) \<in> connected t P"
    proof (induction rule: rtrancl_induct)
      case base
      have "pose_key t q = pose_key t p" if "index_of T (pose_key t q) = Some i" for q using that i uniq unfolding ix by blast
      then have "touches (pose_key t p) (pose_key t q)" if "index_of T (pose_key t q) = Some i" for q using that by (simp add: touches_def)
      then show ?case using p unfolding connected_def by blast
    next
      case (step y z)
      obtain k v k' v' where yz: "(k, y, v) \<in> set (leaves T)" "(k', z, v') \<in> set (leaves T)" "touches k k'" using step.hyps(2) by (auto simp: adjacent_def)
      have "k \<in> keys T" using yz(1) by (force simp: keys_def)
      then obtain r where r: "r \<in> P" "pose_key t r = k" using P by auto
      have "index_of T (pose_key t r) = Some y" unfolding ix r(2) using yz(1) by blast
      then have c: "(p, r) \<in> connected t P" using step.IH r(1) by blast
      show ?case
      proof (intro allI impI)
        fix q assume q: "q \<in> P" "index_of T (pose_key t q) = Some z"
        have "pose_key t q = k'" using q(2) yz(2) uniq unfolding ix by blast
        then have "(r, q) \<in> {(p, q). p \<in> P \<and> q \<in> P \<and> touches (pose_key t p) (pose_key t q)}" using r q(1) yz(3) by simp
        then show "(p, q) \<in> connected t P" using c unfolding connected_def by (rule rtrancl_into_rtrancl [rotated])
      qed
    qed
    then show "(p, q) \<in> connected t P" using q j by blast
  next
    assume "(p, q) \<in> connected t P"
    then have "\<forall>j. index_of T (pose_key t q) = Some j \<longrightarrow> (i, j) \<in> (adjacent T)\<^sup>*"
      unfolding connected_def
    proof (induction rule: rtrancl_induct)
      case base
      then show ?case using i by simp
    next
      case (step y z)
      then have "y \<in> P" "touches (pose_key t y) (pose_key t z)" by simp_all
      then obtain a where a: "index_of T (pose_key t y) = Some a" using P index_of_None [of T "pose_key t y"] by auto
      then have ia: "(i, a) \<in> (adjacent T)\<^sup>*" using step.IH by blast
      show ?case
      proof (intro allI impI)
        fix j assume "index_of T (pose_key t z) = Some j"
        then have "(a, j) \<in> adjacent T" using a \<open>touches (pose_key t y) (pose_key t z)\<close> unfolding ix adjacent_def by blast
        then show "(i, j) \<in> (adjacent T)\<^sup>*" using ia by (rule rtrancl_into_rtrancl [rotated])
      qed
    qed
    then show "(i, j) \<in> (adjacent T)\<^sup>*" using j by blast
  qed
qed

lemma leaf_key_unique:
  assumes "shown t T" "(k, i, v) \<in> set (leaves T)" "(k', i, v') \<in> set (leaves T)"
  shows "k = k'"
  using leaves_shown [OF assms(1,2)] leaves_shown [OF assms(1,3)] by auto

text \<open>A tree that holds exactly the cells of a set of poses, and what \<open>Cluster\<close> and \<open>GetCluster\<close> make of it.\<close>

definition filled :: "kd_tree \<Rightarrow> vec3 set \<Rightarrow> bool" where
  "filled t P \<longleftrightarrow> (\<exists>c. holds t c \<and> keys_of c = pose_key t ` P)"

definition grouped :: "kd_tree \<Rightarrow> kd_tree \<Rightarrow> vec3 set \<Rightarrow> int \<Rightarrow> bool" where
  "grouped t t' P n \<longleftrightarrow>
     (\<forall>p \<in> P. \<forall>q \<in> P. \<exists>a b. get_cluster p t' = Some a \<and> get_cluster q t' = Some b
         \<and> 0 \<le> a \<and> a < n \<and> (a = b \<longleftrightarrow> (p, q) \<in> connected t P))
     \<and> (\<forall>a. 0 \<le> a \<longrightarrow> a < n \<longrightarrow> (\<exists>p \<in> P. get_cluster p t' = Some a))"

lemma groupedD:
  assumes "grouped t t' P n"
  shows "p \<in> P \<Longrightarrow> \<exists>a. get_cluster p t' = Some a \<and> 0 \<le> a \<and> a < n"
    and "0 \<le> a \<Longrightarrow> a < n \<Longrightarrow> \<exists>p \<in> P. get_cluster p t' = Some a"
  using assms unfolding grouped_def by blast+

lemma cluster_filled:
  assumes f: "filled t P" and ne: "P \<noteq> {}"
  shows "\<exists>n t'. cluster t = Some (n, t') \<and> filled t' P \<and> grouped t t' P n
    \<and> kt_size t' = kt_size t \<and> kt_max t' = kt_max t \<and> kt_leaves t' = kt_leaves t \<and> kt_nodes t' \<noteq> []"
proof -
  obtain c where c: "holds t c" "keys_of c = pose_key t ` P" using f by (auto simp: filled_def)
  have "keys_of c \<noteq> {}" using c(2) ne by simp
  then obtain T where cT: "c = Some T" by (cases c) (auto simp: keys_of_def)
  have keys: "keys T = pose_key t ` P" using c(2) cT by (simp add: keys_of_def)
  have h1: "holds t (Some T)" using c(1) cT by simp
  obtain n t2 where t2: "cluster t = Some (n, t2)" "same_tree t t2" "clusters_ok T t2 n" "\<forall>i \<in> cells T. label t2 i \<ge> 0"
    using cluster_ok [OF h1] by blast
  have h2: "holds t2 (Some T)" by (rule same_tree_holds [OF t2(2) h1])
  have T: "shown t2 T" "ordered T" using h2 by simp_all
  note same = same_tree_fields [OF t2(2)]
  have pk: "pose_key t2 = pose_key t" by (rule pose_key_cong) (rule same(1))
  have found: "\<exists>i. index_of T (pose_key t p) = Some i \<and> i \<in> cells T \<and> get_cluster p t2 = Some (label t2 i)" if "p \<in> P" for p
  proof -
    have "pose_key t p \<in> keys T" unfolding keys by (rule imageI [OF that])
    then obtain i where i: "index_of T (pose_key t p) = Some i" using index_of_None [of T "pose_key t p"] by (cases "index_of T (pose_key t p)") auto
    then obtain v where v: "(pose_key t p, i, v) \<in> set (leaves T)" using index_of_Some [OF T(2)] by blast
    obtain nd where "node_at t2 i = Some nd" using leaves_shown [OF T(1) v] by blast
    then have "get_cluster p t2 = Some (label t2 i)" using find_root_ok [OF h2, of "pose_key t p"] i by (simp add: get_cluster_def pk label_def)
    moreover have "i \<in> cells T" unfolding cells_def using v by (cases "pose_key t p") force
    ultimately show ?thesis using i by blast
  qed
  have "\<exists>a b. get_cluster p t2 = Some a \<and> get_cluster q t2 = Some b \<and> 0 \<le> a \<and> a < n \<and> (a = b \<longleftrightarrow> (p, q) \<in> connected t P)"
    if p: "p \<in> P" and q: "q \<in> P" for p q
  proof -
    obtain i where i: "index_of T (pose_key t p) = Some i" "i \<in> cells T" "get_cluster p t2 = Some (label t2 i)" using found [OF p] by blast
    obtain j where j: "index_of T (pose_key t q) = Some j" "j \<in> cells T" "get_cluster q t2 = Some (label t2 j)" using found [OF q] by blast
    have "(i, j) \<in> (adjacent T)\<^sup>* \<longleftrightarrow> (p, q) \<in> connected t P"
      by (rule connected_adjacent [OF T(2) keys i(1) j(1) p q]) (rule leaf_key_unique [OF T(1)])
    then show ?thesis using i j t2(3,4) by (simp add: clusters_ok_def)
  qed
  moreover have "\<exists>p \<in> P. get_cluster p t2 = Some a" if a: "0 \<le> a" "a < n" for a
  proof -
    obtain i where i: "i \<in> cells T" "label t2 i = a" using t2(3) a unfolding clusters_ok_def by blast
    then obtain k v where v: "(k, i, v) \<in> set (leaves T)" unfolding cells_def by blast
    then have "k \<in> keys T" by (force simp: keys_def)
    then obtain p where p: "p \<in> P" "pose_key t p = k" unfolding keys by blast
    obtain j where j: "index_of T (pose_key t p) = Some j" "get_cluster p t2 = Some (label t2 j)" using found [OF p(1)] by blast
    have "j = i" using j(1) v unfolding p(2) index_of_Some [OF T(2)] using index_of_Some [OF T(2), of k] by (metis option.inject)
    then show ?thesis using p(1) j(2) i(2) by blast
  qed
  ultimately have "grouped t t2 P n" unfolding grouped_def by blast
  moreover have "filled t2 P" unfolding filled_def using h2 keys pk by (intro exI [of _ "Some T"]) (simp add: keys_of_def)
  moreover have "kt_nodes t2 \<noteq> []" by (rule holds_used [OF h2])
  ultimately show ?thesis using t2(1) same by blast
qed

text \<open>C35. \<open>Cluster\<close> computes connected components: on a tree filled with any number of poses it returns, and gives
  two poses the same cluster number exactly when a chain of occupied cells, each touching the next also at an edge or a corner, leads from
  one to the other; the numbers are exactly those below the number of clusters it counts.\<close>

theorem clusters_are_components:
  assumes "2 * length ps \<le> kt_max t + 1" "kt_nodes t \<noteq> []" "ps \<noteq> []"
  shows "\<exists>t1 n t2. Option.bind (kd_clear t) (insert_poses ps) = Some t1 \<and> cluster t1 = Some (n, t2)
    \<and> (\<forall>p \<in> fst ` set ps. \<forall>q \<in> fst ` set ps. \<exists>a b. get_cluster p t2 = Some a \<and> get_cluster q t2 = Some b
         \<and> 0 \<le> a \<and> a < n \<and> (a = b \<longleftrightarrow> (p, q) \<in> connected t (fst ` set ps)))
    \<and> (\<forall>a. 0 \<le> a \<longrightarrow> a < n \<longrightarrow> (\<exists>p \<in> fst ` set ps. get_cluster p t2 = Some a))"
proof -
  let ?P = "fst ` set ps"
  note clear = kd_clear_some [OF assms(2)]
  obtain t1 c where t1: "insert_poses ps (kd_empty t) = Some t1" "holds t1 c" "keys_of c = pose_key t ` ?P" "pose_key t1 = pose_key t"
    using filled_tree [OF assms(1)] by blast
  have "filled t1 ?P" unfolding filled_def using t1(2,3,4) by auto
  moreover have "?P \<noteq> {}" using assms(3) by simp
  ultimately obtain n t2 where t2: "cluster t1 = Some (n, t2)" "grouped t1 t2 ?P n" using cluster_filled by blast
  have "connected t1 ?P = connected t ?P" by (simp add: connected_def t1(4))
  then show ?thesis using t1(1) t2 clear unfolding grouped_def by simp
qed

theorem clusters_are_components_witness:
  "\<exists>t1 n t2. Option.bind (kd_clear (initialize_by_max_size 12 new_kd_tree)) (insert_poses sample_poses) = Some t1 \<and> cluster t1 = Some (n, t2)
    \<and> get_cluster (0, 0, 0) t2 = get_cluster (0.6, 0, 0) t2"
proof -
  let ?t = "initialize_by_max_size 12 new_kd_tree"
  have "touches (pose_key ?t (0, 0, 0)) (pose_key ?t (0.6, 0, 0))"
    by (simp add: pose_key_def vc_def initialize_by_max_size_def touches_iff kc_def)
  then have "((0, 0, 0), (0.6, 0, 0)) \<in> connected ?t (fst ` set sample_poses)"
    unfolding connected_def by (intro r_into_rtrancl) (simp add: sample_poses_def)
  moreover have "(0, 0, 0) \<in> fst ` set sample_poses" "(0.6, 0, 0) \<in> fst ` set sample_poses" by (simp_all add: sample_poses_def)
  moreover have "2 * length sample_poses \<le> kt_max ?t + 1" "kt_nodes ?t \<noteq> []" "sample_poses \<noteq> []" by (simp_all add: sample_poses_def initialize_by_max_size_def)
  ultimately show ?thesis using clusters_are_components [of sample_poses ?t] by metis
qed

end
