(* ===== verification/ParticleFilter.thy ===== *)
theory ParticleFilter
  imports KdCluster CostMap
begin

text \<open>
  The particle filter of \<open>particle_filter.cpp\<close>: two sets of weighted poses, of which one is current and the
  other takes the result of the next resampling. Each set has a histogram of its poses (\<open>KdTree\<close>), which
  decides how many samples are enough and which of them form a cluster.

  Random numbers come from the world \<open>'w\<close>: \<open>drand\<close> stands for \<open>drand48\<close>, \<open>gauss\<close> for the normally distributed
  numbers, \<open>random_pose\<close> for the function the filter is given, which can fail. Doubles are real numbers; where the code divides by
  zero and goes on with the infinite or undefined result, the definition says what it does with it. The
  statistics of a cluster or set of weight 0, and the logarithm of 0, have some real value here.
\<close>

subsection \<open>The state\<close>

type_synonym vec4 = "real \<times> real \<times> real \<times> real"
type_synonym mat = "nat \<Rightarrow> nat \<Rightarrow> real"

record sample =
  sp_pose :: vec3
  sp_weight :: real

record pf_cluster =
  pc_count :: int
  pc_weight :: real
  pc_mean :: vec3
  pc_cov :: mat
  pc_ws_vec :: vec4
  pc_ws_mat :: mat

record sample_set =
  ss_count :: nat
  ss_samples :: "sample list"
  ss_cluster_count :: int
  ss_cluster_max :: nat
  ss_clusters :: "pf_cluster list"
  ss_tree :: kd_tree
  ss_mean :: vec3
  ss_cov :: mat
  ss_converged :: bool

record particle_filter =
  pf_min :: nat
  pf_max :: nat
  pf_pop_err :: real
  pf_pop_z :: real
  pf_current :: nat
  pf_sets :: "sample_set list"
  pf_w_slow :: real
  pf_w_fast :: real
  pf_alpha_slow :: real
  pf_alpha_fast :: real
  pf_dist_threshold :: real
  pf_converged :: bool

definition zero_mat :: mat where
  "zero_mat = (\<lambda>j k. 0)"

definition mat_set :: "nat \<Rightarrow> nat \<Rightarrow> real \<Rightarrow> mat \<Rightarrow> mat" where
  "mat_set j k v m = m(j := (m j)(k := v))"

definition new_cluster :: pf_cluster where
  "new_cluster = \<lparr>pc_count = 0, pc_weight = 0, pc_mean = (0, 0, 0), pc_cov = zero_mat, pc_ws_vec = (0, 0, 0, 0), pc_ws_mat = zero_mat\<rparr>"

definition new_sample_set :: "nat \<Rightarrow> sample_set" where
  "new_sample_set max_samples =
     \<lparr>ss_count = max_samples, ss_samples = replicate max_samples \<lparr>sp_pose = (0, 0, 0), sp_weight = 1 / real max_samples\<rparr>,
      ss_cluster_count = 0, ss_cluster_max = max_samples, ss_clusters = replicate max_samples new_cluster,
      ss_tree = initialize_by_max_size (3 * max_samples) new_kd_tree, ss_mean = (0, 0, 0), ss_cov = zero_mat, ss_converged = False\<rparr>"

definition on_set :: "nat \<Rightarrow> (sample_set \<Rightarrow> sample_set) \<Rightarrow> particle_filter \<Rightarrow> particle_filter" where
  "on_set i f p = p\<lparr>pf_sets := (pf_sets p)[i := f (pf_sets p ! i)]\<rparr>"

definition init_converged :: "particle_filter \<Rightarrow> particle_filter" where
  "init_converged p = on_set (pf_current p) (\<lambda>s. s\<lparr>ss_converged := False\<rparr>) (p\<lparr>pf_converged := False\<rparr>)"

definition new_filter :: "nat \<Rightarrow> nat \<Rightarrow> real \<Rightarrow> real \<Rightarrow> particle_filter" where
  "new_filter min_samples max_samples alpha_slow alpha_fast = init_converged
     \<lparr>pf_min = min_samples, pf_max = max_samples, pf_pop_err = 0.01, pf_pop_z = 3, pf_current = 0,
      pf_sets = [new_sample_set max_samples, new_sample_set max_samples], pf_w_slow = 0, pf_w_fast = 0,
      pf_alpha_slow = alpha_slow, pf_alpha_fast = alpha_fast, pf_dist_threshold = 0.5, pf_converged = False\<rparr>"

definition set_kld_param :: "real \<Rightarrow> real \<Rightarrow> particle_filter \<Rightarrow> particle_filter" where
  "set_kld_param pop_err pop_z p = p\<lparr>pf_pop_err := pop_err, pf_pop_z := pop_z\<rparr>"

text \<open>The samples that are in use, and the first \<open>n\<close> entries of a vector changed.\<close>

definition live_samples :: "sample_set \<Rightarrow> sample list option" where
  "live_samples s = (if ss_count s \<le> length (ss_samples s) then Some (take (ss_count s) (ss_samples s)) else None)"

definition map_first :: "nat \<Rightarrow> ('a \<Rightarrow> 'a) \<Rightarrow> 'a list \<Rightarrow> 'a list option" where
  "map_first n f xs = (if n \<le> length xs then Some (map f (take n xs) @ drop n xs) else None)"

subsection \<open>Statistics\<close>

definition atan2 :: "real \<Rightarrow> real \<Rightarrow> real" where
  "atan2 y x =
     (if x > 0 then arctan (y / x)
      else if x < 0 then (if y \<ge> 0 then arctan (y / x) + pi else arctan (y / x) - pi)
      else if y > 0 then pi / 2 else if y < 0 then - (pi / 2) else 0)"

definition linear_cov :: "mat \<Rightarrow> real \<Rightarrow> vec3 \<Rightarrow> mat \<Rightarrow> mat" where
  "linear_cov ws_mat weight mean cov =
     foldr (\<lambda>(j, k). mat_set j k (ws_mat j k / weight - vc mean j * vc mean k)) [(1, 1), (1, 0), (0, 1), (0, 0)] cov"

definition angular_variance :: "real \<Rightarrow> real \<Rightarrow> real" where
  "angular_variance c s = - 2 * ln (sqrt (c * c + s * s))"

text \<open>One sample is added to its cluster and to the overall sums.\<close>

record cluster_run =
  cr_clusters :: "pf_cluster list"
  cr_count :: int
  cr_weight :: real
  cr_ws :: vec4

definition add_to_cluster :: "sample \<Rightarrow> pf_cluster \<Rightarrow> pf_cluster" where
  "add_to_cluster x cl =
     (let w = sp_weight x; pose = sp_pose x; (a, b, c, d) = pc_ws_vec cl;
          cl1 = cl\<lparr>pc_count := pc_count cl + 1, pc_weight := pc_weight cl + w,
            pc_ws_vec := (a + w * vc pose 0, b + w * vc pose 1, c + w * cos (vc pose 2), d + w * sin (vc pose 2))\<rparr>
      in cl1\<lparr>pc_cov := linear_cov (pc_ws_mat cl1) (pc_weight cl1) (pc_mean cl1) (pc_cov cl1)\<rparr>)"

definition add_to_sums :: "sample \<Rightarrow> pf_cluster \<Rightarrow> vec4 \<Rightarrow> vec4" where
  "add_to_sums x cl ws =
     (let w = sp_weight x; pose = sp_pose x; (a, b, c, d) = ws; (cla, clb, _, _) = pc_ws_vec cl
      in (a + w * cla, b + w * clb, c + w * cos (vc pose 2), d + w * sin (vc pose 2)))"

text \<open>The loop over the samples; it returns \<open>False\<close> when it finds a sample without a cluster.\<close>

primrec sum_samples :: "kd_tree \<Rightarrow> nat \<Rightarrow> sample list \<Rightarrow> cluster_run \<Rightarrow> (bool \<times> cluster_run) option" where
  "sum_samples t cluster_max [] r = Some (True, r)"
| "sum_samples t cluster_max (x # xs) r = do {
     cluster_index \<leftarrow> get_cluster (sp_pose x) t;
     if cluster_index < 0 then Some (False, r)
     else if cluster_index \<ge> int cluster_max then sum_samples t cluster_max xs r
     else do {
       cl \<leftarrow> at_opt (cr_clusters r) (nat cluster_index);
       let cl' = add_to_cluster x cl;
       sum_samples t cluster_max xs
         \<lparr>cr_clusters = (cr_clusters r)[nat cluster_index := cl'], cr_count = max (cr_count r) (cluster_index + 1),
          cr_weight = cr_weight r + sp_weight x, cr_ws = add_to_sums x cl' (cr_ws r)\<rparr> } }"

definition finish_cluster :: "pf_cluster \<Rightarrow> pf_cluster" where
  "finish_cluster cl =
     (let (a, b, c, d) = pc_ws_vec cl; w = pc_weight cl; mean = (a / w, b / w, atan2 d c)
      in cl\<lparr>pc_mean := mean, pc_cov := mat_set 2 2 (angular_variance c d) (linear_cov (pc_ws_mat cl) w mean zero_mat)\<rparr>)"

definition cluster_statistics :: "sample_set \<Rightarrow> sample_set option" where
  "cluster_statistics s = do {
     (_, t) \<leftarrow> cluster (ss_tree s);
     cls \<leftarrow> map_first (ss_cluster_max s) (\<lambda>_. new_cluster) (ss_clusters s);
     xs \<leftarrow> live_samples s;
     (found, r) \<leftarrow> sum_samples t (ss_cluster_max s) xs \<lparr>cr_clusters = cls, cr_count = 0, cr_weight = 0, cr_ws = (0, 0, 0, 0)\<rparr>;
     let s1 = s\<lparr>ss_tree := t, ss_cluster_count := cr_count r, ss_clusters := cr_clusters r, ss_mean := (0, 0, 0), ss_cov := zero_mat\<rparr>;
     if \<not> found then Some s1
     else do {
       cls' \<leftarrow> map_first (nat (cr_count r)) finish_cluster (cr_clusters r);
       let (a, b, c, d) = cr_ws r;
       let mean = (a / cr_weight r, b / cr_weight r, atan2 d c);
       Some (s1\<lparr>ss_clusters := cls', ss_mean := mean,
         ss_cov := mat_set 2 2 (angular_variance c d) (linear_cov zero_mat (cr_weight r) mean zero_mat)\<rparr>) } }"

text \<open>The parameterless \<open>ClusterStatistics\<close> works on the first set, not on the current one.\<close>

definition filter_statistics :: "particle_filter \<Rightarrow> particle_filter option" where
  "filter_statistics p = do {
     s \<leftarrow> at_opt (pf_sets p) 0;
     s' \<leftarrow> cluster_statistics s;
     Some (p\<lparr>pf_sets := (pf_sets p)[0 := s']\<rparr>) }"

definition get_cluster_statistics :: "nat \<Rightarrow> particle_filter \<Rightarrow> (real \<times> vec3 \<times> mat) option option" where
  "get_cluster_statistics clabel p = do {
     s \<leftarrow> at_opt (pf_sets p) (pf_current p);
     if clabel \<ge> ss_count s then Some None
     else do {
       cl \<leftarrow> at_opt (ss_clusters s) clabel;
       Some (Some (pc_weight cl, pc_mean cl, pc_cov cl)) } }"

text \<open>The filter has converged when no sample is farther than the threshold from the mean, in \<open>x\<close> or in \<open>y\<close>.\<close>

definition update_converged :: "particle_filter \<Rightarrow> (bool \<times> particle_filter) option" where
  "update_converged p = do {
     s \<leftarrow> at_opt (pf_sets p) (pf_current p);
     xs \<leftarrow> live_samples s;
     let mean_x = sum_list (map (\<lambda>x. vc (sp_pose x) 0) xs) / real (ss_count s);
     let mean_y = sum_list (map (\<lambda>x. vc (sp_pose x) 1) xs) / real (ss_count s);
     let far = list_ex (\<lambda>x. \<bar>vc (sp_pose x) 0 - mean_x\<bar> > pf_dist_threshold p \<or> \<bar>vc (sp_pose x) 1 - mean_y\<bar> > pf_dist_threshold p) xs;
     Some (\<not> far, on_set (pf_current p) (\<lambda>s. s\<lparr>ss_converged := \<not> far\<rparr>) (p\<lparr>pf_converged := \<not> far\<rparr>)) }"

subsection \<open>Initialisation\<close>

primrec init_samples :: "('w \<Rightarrow> (vec3 \<times> 'w) option) \<Rightarrow> nat \<Rightarrow> nat list \<Rightarrow> sample_set \<Rightarrow> 'w \<Rightarrow> (sample_set \<times> 'w) option" where
  "init_samples gen max_samples [] s w = Some (s, w)"
| "init_samples gen max_samples (i # idx) s w = do {
     (pose, w1) \<leftarrow> gen w;
     xs \<leftarrow> set_opt (ss_samples s) i \<lparr>sp_pose = pose, sp_weight = 1 / real max_samples\<rparr>;
     t \<leftarrow> insert_pose pose (1 / real max_samples) (ss_tree s);
     init_samples gen max_samples idx (s\<lparr>ss_samples := xs, ss_tree := t\<rparr>) w1 }"

definition init_by_model :: "('w \<Rightarrow> (vec3 \<times> 'w) option) \<Rightarrow> particle_filter \<Rightarrow> 'w \<Rightarrow> (particle_filter \<times> 'w) option" where
  "init_by_model gen p w = do {
     s \<leftarrow> at_opt (pf_sets p) (pf_current p);
     t \<leftarrow> kd_clear (ss_tree s);
     (s1, w') \<leftarrow> init_samples gen (pf_max p) [0..<pf_max p] (s\<lparr>ss_tree := t, ss_count := pf_max p\<rparr>) w;
     s2 \<leftarrow> cluster_statistics s1;
     Some (init_converged (p\<lparr>pf_sets := (pf_sets p)[pf_current p := s2], pf_w_slow := 0, pf_w_fast := 0\<rparr>), w') }"

text \<open>The Gaussian density: \<open>eigen\<close> is the decomposition of the covariance into a rotation and a diagonal.\<close>

record gaussian_pdf =
  gp_mean :: vec3
  gp_rotation :: mat
  gp_diagonal :: vec3

definition new_gaussian_pdf :: "(mat \<Rightarrow> mat \<times> vec3) \<Rightarrow> vec3 \<Rightarrow> mat \<Rightarrow> gaussian_pdf" where
  "new_gaussian_pdf eigen mean cov = (let (v, d) = eigen cov in \<lparr>gp_mean = mean, gp_rotation = v, gp_diagonal = d\<rparr>)"

definition generate_sample :: "(real \<Rightarrow> 'w \<Rightarrow> real \<times> 'w) \<Rightarrow> gaussian_pdf \<Rightarrow> 'w \<Rightarrow> vec3 \<times> 'w" where
  "generate_sample gauss g w =
     (let (r0, w1) = gauss (vc (gp_diagonal g) 0) w; (r1, w2) = gauss (vc (gp_diagonal g) 1) w1;
          (r2, w3) = gauss (vc (gp_diagonal g) 2) w2;
          coord = (\<lambda>i. vc (gp_mean g) i + gp_rotation g i 0 * r0 + gp_rotation g i 1 * r1 + gp_rotation g i 2 * r2)
      in ((coord 0, coord 1, coord 2), w3))"

definition init_by_guassian ::
  "(mat \<Rightarrow> mat \<times> vec3) \<Rightarrow> (real \<Rightarrow> 'w \<Rightarrow> real \<times> 'w) \<Rightarrow> vec3 \<Rightarrow> mat \<Rightarrow> particle_filter \<Rightarrow> 'w \<Rightarrow> (particle_filter \<times> 'w) option" where
  "init_by_guassian eigen gauss mean cov = init_by_model (\<lambda>w. Some (generate_sample gauss (new_gaussian_pdf eigen mean cov) w))"

definition random_heading :: "('w \<Rightarrow> real \<times> 'w) \<Rightarrow> ('w \<Rightarrow> vec3 \<times> 'w) \<Rightarrow> 'w \<Rightarrow> vec3 \<times> 'w" where
  "random_heading drand gen w = (let (pose, w1) = gen w; (r, w2) = drand w1 in ((vc pose 0, vc pose 1, r * 2 * pi - pi), w2))"

definition init_by_guassian_with_random_heading ::
  "(mat \<Rightarrow> mat \<times> vec3) \<Rightarrow> (real \<Rightarrow> 'w \<Rightarrow> real \<times> 'w) \<Rightarrow> ('w \<Rightarrow> real \<times> 'w) \<Rightarrow> vec3 \<Rightarrow> mat \<Rightarrow> particle_filter \<Rightarrow> 'w \<Rightarrow> (particle_filter \<times> 'w) option" where
  "init_by_guassian_with_random_heading eigen gauss drand mean cov =
     init_by_model (\<lambda>w. Some (random_heading drand (generate_sample gauss (new_gaussian_pdf eigen mean cov)) w))"

subsection \<open>Weights and resampling\<close>

definition resample_limit :: "int \<Rightarrow> particle_filter \<Rightarrow> int option" where
  "resample_limit k p =
     (if k \<le> 1 then Some (int (pf_max p))
      else
        (let b = 2 / (9 * (real_of_int k - 1));
             c = sqrt (2 / (9 * (real_of_int k - 1))) * pf_pop_z p;
             x = 1 - b + c in do {
           n \<leftarrow> to_int (real_of_int \<lceil>(real_of_int k - 1) / (2 * pf_pop_err p) * x * x * x\<rceil>);
           Some (if n < int (pf_min p) then int (pf_min p) else if n > int (pf_max p) then int (pf_max p) else n) }))"

definition running_average :: "real \<Rightarrow> real \<Rightarrow> real \<Rightarrow> real" where
  "running_average alpha w_avg w = (if w = 0 then w_avg else w + alpha * (w_avg - w))"

definition update_omega :: "real \<Rightarrow> particle_filter \<Rightarrow> particle_filter option" where
  "update_omega total_weight p = do {
     s \<leftarrow> at_opt (pf_sets p) (pf_current p);
     xs \<leftarrow> live_samples s;
     if total_weight > 0 then do {
       ys \<leftarrow> map_first (ss_count s) (\<lambda>x. x\<lparr>sp_weight := sp_weight x / total_weight\<rparr>) (ss_samples s);
       let w_avg = sum_list (map sp_weight xs) / real (ss_count s);
       Some (on_set (pf_current p) (\<lambda>s. s\<lparr>ss_samples := ys\<rparr>)
         (p\<lparr>pf_w_slow := running_average (pf_alpha_slow p) w_avg (pf_w_slow p),
            pf_w_fast := running_average (pf_alpha_fast p) w_avg (pf_w_fast p)\<rparr>)) }
     else do {
       ys \<leftarrow> map_first (ss_count s) (\<lambda>x. x\<lparr>sp_weight := 1 / real (ss_count s)\<rparr>) (ss_samples s);
       Some (on_set (pf_current p) (\<lambda>s. s\<lparr>ss_samples := ys\<rparr>) p) } }"

text \<open>The table of cumulated weights, and the first entry \<open>i\<close> with \<open>c[i] \<le> r < c[i + 1]\<close>.\<close>

primrec cumulate :: "real \<Rightarrow> real list \<Rightarrow> real list" where
  "cumulate x [] = [x]"
| "cumulate x (w # ws) = x # cumulate (x + w) ws"

primrec pick_sample :: "real list \<Rightarrow> real \<Rightarrow> nat list \<Rightarrow> nat option" where
  "pick_sample c r [] = None"
| "pick_sample c r (i # idx) = (if c ! i \<le> r \<and> r < c ! (i + 1) then Some i else pick_sample c r idx)"

text \<open>\<open>w_diff\<close>. With \<open>w_slow_ = 0\<close> the quotient is not a number (\<open>None\<close>: no comparison with it holds) or infinite; a
  \<open>w_diff\<close> of plus infinity is as good as 1, since \<open>drand48\<close> is below 1.\<close>

definition random_share :: "particle_filter \<Rightarrow> real option" where
  "random_share p =
     (if pf_w_slow p = 0 then (if pf_w_fast p = 0 then None else if pf_w_fast p > 0 then Some 0 else Some 1)
      else Some (max 0 (1 - pf_w_fast p / pf_w_slow p)))"

definition draw_pose :: "('w \<Rightarrow> real \<times> 'w) \<Rightarrow> ('w \<Rightarrow> (vec3 \<times> 'w) option) \<Rightarrow> real option \<Rightarrow> sample list \<Rightarrow> 'w \<Rightarrow> (vec3 \<times> 'w) option" where
  "draw_pose drand random_pose w_diff xs w =
     (let (d, w1) = drand w in
      if (case w_diff of None \<Rightarrow> False | Some v \<Rightarrow> d < v) then random_pose w1
      else
        (let (r, w2) = drand w1 in do {
           i \<leftarrow> pick_sample (cumulate 0 (map sp_weight xs)) r [0..<length xs];
           x \<leftarrow> at_opt xs i;
           if sp_weight x > 0 then Some (sp_pose x, w2) else None }))"

text \<open>The loop that draws the samples of the new set, for the indices that are left; it ends early when there are enough.\<close>

primrec draw_samples :: "('w \<Rightarrow> (vec3 \<times> 'w) option) \<Rightarrow> particle_filter \<Rightarrow> nat list \<Rightarrow> sample_set \<Rightarrow> real \<Rightarrow> 'w \<Rightarrow> (sample_set \<times> real \<times> 'w) option" where
  "draw_samples draw p [] s tot w = Some (s, tot, w)"
| "draw_samples draw p (i # idx) s tot w = do {
     (pose, w') \<leftarrow> draw w;
     xs \<leftarrow> set_opt (ss_samples s) i \<lparr>sp_pose = pose, sp_weight = 1\<rparr>;
     t \<leftarrow> insert_pose pose 1 (ss_tree s);
     let s' = s\<lparr>ss_count := i + 1, ss_samples := xs, ss_tree := t\<rparr>;
     kld_resample_num \<leftarrow> resample_limit (kt_leaves t) p;
     if int (i + 1) > kld_resample_num then Some (s', tot + 1, w')
     else draw_samples draw p idx s' (tot + 1) w' }"

definition update_resample :: "('w \<Rightarrow> real \<times> 'w) \<Rightarrow> ('w \<Rightarrow> (vec3 \<times> 'w) option) \<Rightarrow> particle_filter \<Rightarrow> 'w \<Rightarrow> (particle_filter \<times> 'w) option" where
  "update_resample drand random_pose p w = do {
     let other = (pf_current p + 1) mod 2;
     set_a \<leftarrow> at_opt (pf_sets p) (pf_current p);
     set_b \<leftarrow> at_opt (pf_sets p) other;
     xs \<leftarrow> live_samples set_a;
     t \<leftarrow> kd_clear (ss_tree set_b);
     let w_diff = random_share p;
     (b1, tot, w') \<leftarrow> draw_samples (draw_pose drand random_pose w_diff xs) p [0..<pf_max p] (set_b\<lparr>ss_tree := t, ss_count := 0\<rparr>) 0 w;
     let p1 = (if (case w_diff of None \<Rightarrow> False | Some v \<Rightarrow> v > 0) then p\<lparr>pf_w_slow := 0, pf_w_fast := 0\<rparr> else p);
     ys \<leftarrow> map_first (ss_count b1) (\<lambda>x. x\<lparr>sp_weight := sp_weight x / tot\<rparr>) (ss_samples b1);
     b2 \<leftarrow> cluster_statistics (b1\<lparr>ss_samples := ys\<rparr>);
     (_, p2) \<leftarrow> update_converged (p1\<lparr>pf_sets := (pf_sets p)[other := b2], pf_current := other\<rparr>);
     Some (p2, w') }"

subsection \<open>The histogram the filter relies on\<close>

text \<open>What the filter needs of its histogram: \<open>filled t P\<close> says that \<open>t\<close> holds the poses \<open>P\<close>, \<open>room t\<close> limits them.\<close>

locale pose_histogram =
  fixes room :: "'t \<Rightarrow> nat"
    and used :: "'t \<Rightarrow> bool"
    and filled_with :: "'t \<Rightarrow> vec3 set \<Rightarrow> bool"
    and clear :: "'t \<Rightarrow> 't option"
    and put :: "vec3 \<Rightarrow> real \<Rightarrow> 't \<Rightarrow> 't option"
    and bins :: "'t \<Rightarrow> int"
    and group :: "'t \<Rightarrow> (int \<times> 't) option"
    and bin_of :: "vec3 \<Rightarrow> 't \<Rightarrow> int option"
  assumes clear_ok: "used t \<Longrightarrow> \<exists>t'. clear t = Some t' \<and> filled_with t' {} \<and> room t' = room t"
    and put_ok: "filled_with t P \<Longrightarrow> finite P \<Longrightarrow> 2 * card P + 1 \<le> room t \<Longrightarrow>
      \<exists>t'. put p v t = Some t' \<and> filled_with t' (insert p P) \<and> room t' = room t \<and> used t'"
    and bins_ok: "filled_with t P \<Longrightarrow> finite P \<Longrightarrow> bins t \<le> int (card P)"
    and group_ok: "filled_with t P \<Longrightarrow> P \<noteq> {} \<Longrightarrow> \<exists>n t'. group t = Some (n, t') \<and> filled_with t' P \<and> room t' = room t \<and> used t'
      \<and> (\<forall>p \<in> P. \<exists>a. bin_of p t' = Some a \<and> 0 \<le> a \<and> a < n) \<and> (\<forall>a. 0 \<le> a \<longrightarrow> a < n \<longrightarrow> (\<exists>p \<in> P. bin_of p t' = Some a))"
    and bin_total: "filled_with t P \<Longrightarrow> P \<noteq> {} \<Longrightarrow> \<exists>a. bin_of p t = Some a"
begin

lemma put_next:
  assumes "filled_with t (set ps)" "2 * length ps + 1 \<le> room t"
  shows "\<exists>t'. put p v t = Some t' \<and> filled_with t' (set (ps @ [p])) \<and> room t' = room t \<and> used t' \<and> bins t' \<le> int (length ps + 1)"
proof -
  have "2 * card (set ps) + 1 \<le> room t" using assms(2) card_length [of ps] by linarith
  then obtain t' where t': "put p v t = Some t'" "filled_with t' (insert p (set ps))" "room t' = room t" "used t'"
    using put_ok [OF assms(1)] by blast
  have "bins t' \<le> int (card (insert p (set ps)))" by (rule bins_ok [OF t'(2)]) simp
  moreover have "card (insert p (set ps)) \<le> length ps + 1" using card_length [of "p # ps"] by simp
  ultimately have "bins t' \<le> int (length ps + 1)" by linarith
  then show ?thesis using t' by (intro exI [of _ t']) simp
qed

lemma group_all:
  assumes "filled_with t (set ps)" "ps \<noteq> []"
  shows "\<exists>n t'. group t = Some (int n, t') \<and> filled_with t' (set ps) \<and> room t' = room t \<and> used t' \<and> n \<le> length ps
    \<and> (\<forall>p \<in> set ps. \<exists>k < n. bin_of p t' = Some (int k)) \<and> (\<forall>k < n. \<exists>p \<in> set ps. bin_of p t' = Some (int k))"
proof -
  have "set ps \<noteq> {}" using assms(2) by simp
  from group_ok [OF assms(1) this]
  obtain n t' where g: "group t = Some (n, t')" "filled_with t' (set ps)" "room t' = room t" "used t'"
    and lab: "\<And>p. p \<in> set ps \<Longrightarrow> \<exists>a. bin_of p t' = Some a \<and> 0 \<le> a \<and> a < n"
    and onto: "\<And>a. 0 \<le> a \<Longrightarrow> a < n \<Longrightarrow> \<exists>p \<in> set ps. bin_of p t' = Some a" by blast
  have n: "0 \<le> n" using lab [of "hd ps"] assms(2) by fastforce
  have "{0..<n} \<subseteq> (\<lambda>p. the (bin_of p t')) ` set ps" using onto by force
  then have "card {0..<n} \<le> card (set ps)" by (meson List.finite_set card_image_le card_mono finite_imageI le_trans)
  then have "nat n \<le> length ps" using card_length [of ps] by simp
  moreover have "\<exists>k < nat n. bin_of p t' = Some (int k)" if p: "p \<in> set ps" for p
  proof -
    obtain a where "bin_of p t' = Some a" "0 \<le> a" "a < n" using lab [OF p] by blast
    then show ?thesis by (intro exI [of _ "nat a"]) simp
  qed
  moreover have "\<exists>p \<in> set ps. bin_of p t' = Some (int k)" if "k < nat n" for k using onto [of "int k"] that by simp
  moreover have "group t = Some (int (nat n), t')" using g(1) n by simp
  ultimately show ?thesis using g(2-4) by blast
qed

end

lemma kd_clear_filled: "kt_nodes t \<noteq> [] \<Longrightarrow> \<exists>t'. kd_clear t = Some t' \<and> filled t' {} \<and> kt_max t' = kt_max t"
  by (intro exI [of _ "kd_empty t"]) (simp add: kd_clear_some filled_def keys_of_def kd_empty_holds exI [of _ None] del: holds.simps)

lemma filled_card:
  assumes "filled t P" "finite P"
  shows "kt_leaves t \<le> int (card P)"
proof -
  obtain c where c: "holds t c" "keys_of c = pose_key t ` P" using assms(1) by (auto simp: filled_def)
  have "kt_leaves t = int (card (keys_of c))"
  proof (cases c)
    case None
    then show ?thesis using c(1) by (simp add: keys_of_def)
  next
    case (Some T)
    then have "ordered T" "kt_leaves t = int (length (leaves T))" using c(1) by simp_all
    then show ?thesis using card_keys [of T] Some by (simp add: keys_of_def)
  qed
  then show ?thesis using card_image_le [OF assms(2), of "pose_key t"] c(2) by simp
qed

lemma insert_pose_filled:
  assumes "filled t P" "finite P" "2 * card P + 1 \<le> kt_max t"
  shows "\<exists>t'. insert_pose p v t = Some t' \<and> filled t' (insert p P) \<and> kt_max t' = kt_max t \<and> kt_nodes t' \<noteq> []"
proof -
  obtain c where c: "holds t c" "keys_of c = pose_key t ` P" using assms(1) by (auto simp: filled_def)
  have "2 * card (keys_of c) + 1 \<le> kt_max t" using assms(3) card_image_le [OF assms(2), of "pose_key t"] c(2) by simp
  from insert_pose_ok [OF c(1) this refl, of p v]
  obtain t' T where t': "insert_pose p v t = Some t'" "holds t' (Some T)" "keys T = insert (pose_key t p) (keys_of c)"
    "kt_size t' = kt_size t" "kt_max t' = kt_max t" by blast
  have "pose_key t' = pose_key t" by (rule pose_key_cong) (rule t'(4))
  then have "filled t' (insert p P)" unfolding filled_def using t'(2,3) c(2) by (intro exI [of _ "Some T"]) (simp add: keys_of_def)
  moreover have "kt_nodes t' \<noteq> []" by (rule holds_used [OF t'(2)])
  ultimately show ?thesis using t'(1,5) by blast
qed

lemma cluster_grouped:
  assumes "filled t P" "P \<noteq> {}"
  shows "\<exists>n t'. cluster t = Some (n, t') \<and> filled t' P \<and> kt_max t' = kt_max t \<and> kt_nodes t' \<noteq> []
    \<and> (\<forall>p \<in> P. \<exists>a. get_cluster p t' = Some a \<and> 0 \<le> a \<and> a < n) \<and> (\<forall>a. 0 \<le> a \<longrightarrow> a < n \<longrightarrow> (\<exists>p \<in> P. get_cluster p t' = Some a))"
  using cluster_filled [OF assms] groupedD by blast

lemma get_cluster_total:
  assumes "filled t P" "P \<noteq> {}"
  shows "\<exists>a. get_cluster p t = Some a"
proof -
  obtain c where c: "holds t c" "keys_of c = pose_key t ` P" using assms(1) by (auto simp: filled_def)
  then obtain T where T: "holds t (Some T)" using assms(2) by (cases c) (auto simp: keys_of_def)
  note f = find_root_ok [OF T, of "pose_key t p"]
  show ?thesis
  proof (cases "index_of T (pose_key t p)")
    case None
    then show ?thesis using f by (simp add: get_cluster_def)
  next
    case (Some i)
    then obtain v where v: "(pose_key t p, i, v) \<in> set (leaves T)" using index_of_Some [of T] T by auto
    have "shown t T" using T by simp
    then obtain nd where "node_at t i = Some nd" using leaves_shown v by blast
    then show ?thesis using f Some by (simp add: get_cluster_def)
  qed
qed

interpretation kd: pose_histogram kt_max "\<lambda>t. kt_nodes t \<noteq> []" filled kd_clear insert_pose kt_leaves cluster get_cluster
  by unfold_locales (blast intro: kd_clear_filled insert_pose_filled filled_card cluster_grouped get_cluster_total)+

subsection \<open>The number of samples\<close>

text \<open>The parameters of the sample size, when the largest number of samples fits an \<open>int\<close>.\<close>

definition kld_fits :: "particle_filter \<Rightarrow> bool" where
  "kld_fits p \<longleftrightarrow> 0 < pf_pop_err p \<and> 0 \<le> pf_pop_z p \<and> real (pf_max p) / (2 * pf_pop_err p) * (1 + pf_pop_z p) ^ 3 < 2 ^ 31 - 1"

lemma resample_limit_ok:
  assumes "kld_fits p" "pf_min p \<le> pf_max p" "k \<le> int (pf_max p)"
  shows "\<exists>n. resample_limit k p = Some n \<and> int (pf_min p) \<le> n \<and> n \<le> int (pf_max p)"
proof (cases "k \<le> 1")
  case True
  then show ?thesis using assms(2) by (simp add: resample_limit_def)
next
  case False
  let ?b = "2 / (9 * (real_of_int k - 1))"
  let ?x = "1 - ?b + sqrt ?b * pf_pop_z p"
  let ?q = "(real_of_int k - 1) / (2 * pf_pop_err p) * ?x * ?x * ?x"
  have k: "real_of_int k - 1 \<ge> 1" using False by linarith
  have z: "0 \<le> pf_pop_z p" "0 < pf_pop_err p" using assms(1) by (simp_all add: kld_fits_def)
  have b: "0 \<le> ?b" "?b \<le> 1" using k by (simp_all add: field_simps)
  have "0 \<le> sqrt ?b" "sqrt ?b \<le> 1" using b by (simp_all del: divide_le_eq_1)
  then have "0 \<le> sqrt ?b * pf_pop_z p" "sqrt ?b * pf_pop_z p \<le> pf_pop_z p" using z(1) by (simp_all add: mult_left_le_one_le)
  then have x: "0 \<le> ?x" "?x \<le> 1 + pf_pop_z p" using b by linarith+
  have a: "0 \<le> (real_of_int k - 1) / (2 * pf_pop_err p)" "(real_of_int k - 1) / (2 * pf_pop_err p) \<le> real (pf_max p) / (2 * pf_pop_err p)"
    using k z assms(3) by (auto intro!: divide_right_mono)
  have "?q = (real_of_int k - 1) / (2 * pf_pop_err p) * ?x ^ 3" by (simp add: power3_eq_cube mult.assoc)
  also have "\<dots> \<le> real (pf_max p) / (2 * pf_pop_err p) * (1 + pf_pop_z p) ^ 3" using a x by (intro mult_mono power_mono) auto
  finally have "?q < 2 ^ 31 - 1" using assms(1) by (simp add: kld_fits_def)
  moreover have "0 \<le> ?q" using a x by (intro mult_nonneg_nonneg) auto
  ultimately have c: "0 \<le> real_of_int \<lceil>?q\<rceil>" "real_of_int \<lceil>?q\<rceil> < 2 ^ 31" using of_int_ceiling_le_add_one [of ?q] by linarith+
  have "to_int (real_of_int \<lceil>?q\<rceil>) = Some \<lceil>?q\<rceil>" using c to_int_nonneg [of "real_of_int \<lceil>?q\<rceil>"] by simp
  then have "resample_limit k p = Some (if \<lceil>?q\<rceil> < int (pf_min p) then int (pf_min p) else if \<lceil>?q\<rceil> > int (pf_max p) then int (pf_max p) else \<lceil>?q\<rceil>)"
    using False unfolding resample_limit_def Let_def by (simp only: if_False bind.bind_lunit)
  then show ?thesis using assms(2) by simp
qed

end
