(* ===== verification/FilterStatistics.thy ===== *)
theory FilterStatistics
  imports ParticleFilter
begin

text \<open>
  The statistics of the particle filter: \<open>ClusterStatistics\<close> gives every cluster the number, the weight and the
  weighted mean of its samples.
\<close>

subsection \<open>Well-formed sets\<close>

definition set_ok :: "nat \<Rightarrow> sample_set \<Rightarrow> bool" where
  "set_ok m s \<longleftrightarrow> length (ss_samples s) = m \<and> ss_cluster_max s = m \<and> length (ss_clusters s) = m
     \<and> kt_max (ss_tree s) = 3 * m \<and> kt_nodes (ss_tree s) \<noteq> [] \<and> 1 \<le> ss_count s \<and> ss_count s \<le> m"

definition live :: "sample_set \<Rightarrow> sample list" where
  "live s = take (ss_count s) (ss_samples s)"

text \<open>The histogram of a set holds its poses.\<close>

definition histogram_ok :: "sample_set \<Rightarrow> bool" where
  "histogram_ok s \<longleftrightarrow> filled (ss_tree s) (set (map sp_pose (live s)))"

lemma live_samples_ok: "set_ok m s \<Longrightarrow> live_samples s = Some (live s)"
  by (simp add: live_samples_def live_def set_ok_def)

lemma length_live [simp]: "set_ok m s \<Longrightarrow> length (live s) = ss_count s"
  by (simp add: live_def set_ok_def)

lemma map_first_ok [simp]: "n \<le> length xs \<Longrightarrow> map_first n f xs = Some (map f (take n xs) @ drop n xs)"
  by (simp add: map_first_def)

subsection \<open>Sums over a cluster\<close>

definition members :: "kd_tree \<Rightarrow> sample list \<Rightarrow> nat \<Rightarrow> sample list" where
  "members t xs k = filter (\<lambda>x. get_cluster (sp_pose x) t = Some (int k)) xs"

definition weighted_sum :: "(vec3 \<Rightarrow> real) \<Rightarrow> sample list \<Rightarrow> real" where
  "weighted_sum f xs = (\<Sum>x \<leftarrow> xs. sp_weight x * f (sp_pose x))"

lemma weighted_sum_simps [simp]: "weighted_sum f [] = 0" "weighted_sum f (x # xs) = sp_weight x * f (sp_pose x) + weighted_sum f xs"
  by (simp_all add: weighted_sum_def)

lemma members_simps [simp]:
  "members t [] k = []"
  "members t (x # xs) k = (if get_cluster (sp_pose x) t = Some (int k) then x # members t xs k else members t xs k)"
  by (simp_all add: members_def)

lemma gather_fields:
  "pc_count (fold add_to_cluster xs cl) = pc_count cl + int (length xs)
   \<and> pc_weight (fold add_to_cluster xs cl) = pc_weight cl + weighted_sum (\<lambda>_. 1) xs
   \<and> pc_ws_vec (fold add_to_cluster xs cl) = (case pc_ws_vec cl of (a, b, c, d) \<Rightarrow>
       (a + weighted_sum (\<lambda>p. vc p 0) xs, b + weighted_sum (\<lambda>p. vc p 1) xs,
        c + weighted_sum (\<lambda>p. cos (vc p 2)) xs, d + weighted_sum (\<lambda>p. sin (vc p 2)) xs))"
proof (induction xs arbitrary: cl)
  case Nil
  then show ?case by (cases "pc_ws_vec cl") simp
next
  case (Cons x xs)
  show ?case using Cons [of "add_to_cluster x cl"] by (cases "pc_ws_vec cl") (simp add: add_to_cluster_def Let_def)
qed

lemma sum_samples_ok:
  assumes "\<forall>x \<in> set xs. \<exists>k < n. get_cluster (sp_pose x) t = Some (int k)" "n \<le> m" "length (cr_clusters r) = m" "cr_count r \<le> int n"
  shows "\<exists>r'. sum_samples t m xs r = Some (True, r') \<and> length (cr_clusters r') = m
    \<and> (\<forall>k < m. cr_clusters r' ! k = fold add_to_cluster (members t xs k) (cr_clusters r ! k))
    \<and> cr_weight r' = cr_weight r + weighted_sum (\<lambda>_. 1) xs
    \<and> cr_count r \<le> cr_count r' \<and> cr_count r' \<le> int n
    \<and> (\<forall>x \<in> set xs. \<forall>k. get_cluster (sp_pose x) t = Some k \<longrightarrow> k < cr_count r')"
  using assms
proof (induction xs arbitrary: r)
  case (Cons x xs)
  obtain k where k: "k < n" "get_cluster (sp_pose x) t = Some (int k)" using Cons.prems(1) by auto
  let ?cl = "add_to_cluster x (cr_clusters r ! k)"
  let ?r = "\<lparr>cr_clusters = (cr_clusters r)[k := ?cl], cr_count = max (cr_count r) (int k + 1),
    cr_weight = cr_weight r + sp_weight x, cr_ws = add_to_sums x ?cl (cr_ws r)\<rparr>"
  have km: "k < m" using k(1) Cons.prems(2) by simp
  have "\<forall>x \<in> set xs. \<exists>k < n. get_cluster (sp_pose x) t = Some (int k)" "length (cr_clusters ?r) = m" "cr_count ?r \<le> int n"
    using Cons.prems(1,3,4) k(1) by simp_all
  from Cons.IH [OF this(1) Cons.prems(2) this(2,3)]
  obtain r' where r': "sum_samples t m xs ?r = Some (True, r')" "length (cr_clusters r') = m"
    "\<And>j. j < m \<Longrightarrow> cr_clusters r' ! j = fold add_to_cluster (members t xs j) (cr_clusters ?r ! j)"
    "cr_weight r' = cr_weight ?r + weighted_sum (\<lambda>_. 1) xs" "cr_count ?r \<le> cr_count r'" "cr_count r' \<le> int n"
    "\<forall>x \<in> set xs. \<forall>k. get_cluster (sp_pose x) t = Some k \<longrightarrow> k < cr_count r'" by blast
  have "sum_samples t m (x # xs) r = Some (True, r')" using k(2) km Cons.prems(3) r'(1) by simp
  moreover have "cr_clusters r' ! j = fold add_to_cluster (members t (x # xs) j) (cr_clusters r ! j)" if "j < m" for j
    using r'(3) [OF that] km Cons.prems(3) k(2) by (cases "j = k") simp_all
  moreover have "\<forall>y \<in> set (x # xs). \<forall>k. get_cluster (sp_pose y) t = Some k \<longrightarrow> k < cr_count r'" using r'(5,7) k(2) by simp
  moreover have "cr_weight r' = cr_weight r + weighted_sum (\<lambda>_. 1) (x # xs)" "cr_count r \<le> cr_count r'" using r'(4,5) by simp_all
  ultimately show ?case using r'(2,6) by blast
qed simp

text \<open>The clusters of a set describe its samples.\<close>

definition clusters_summarise :: "sample_set \<Rightarrow> bool" where
  "clusters_summarise s \<longleftrightarrow> 1 \<le> ss_cluster_count s \<and> ss_cluster_count s \<le> int (ss_count s)
     \<and> (\<forall>x \<in> set (live s). \<exists>k < nat (ss_cluster_count s). get_cluster (sp_pose x) (ss_tree s) = Some (int k))
     \<and> (\<forall>k < nat (ss_cluster_count s). let cl = ss_clusters s ! k; xs = members (ss_tree s) (live s) k in
          xs \<noteq> [] \<and> pc_count cl = int (length xs) \<and> pc_weight cl = weighted_sum (\<lambda>_. 1) xs
          \<and> pc_mean cl = (weighted_sum (\<lambda>p. vc p 0) xs / pc_weight cl, weighted_sum (\<lambda>p. vc p 1) xs / pc_weight cl,
              atan2 (weighted_sum (\<lambda>p. sin (vc p 2)) xs) (weighted_sum (\<lambda>p. cos (vc p 2)) xs)))"

lemma finish_gathered:
  assumes "xs = members t ys k"
  shows "pc_count (finish_cluster (fold add_to_cluster xs new_cluster)) = int (length xs)
    \<and> pc_weight (finish_cluster (fold add_to_cluster xs new_cluster)) = weighted_sum (\<lambda>_. 1) xs
    \<and> pc_mean (finish_cluster (fold add_to_cluster xs new_cluster)) =
       (weighted_sum (\<lambda>p. vc p 0) xs / weighted_sum (\<lambda>_. 1) xs, weighted_sum (\<lambda>p. vc p 1) xs / weighted_sum (\<lambda>_. 1) xs,
        atan2 (weighted_sum (\<lambda>p. sin (vc p 2)) xs) (weighted_sum (\<lambda>p. cos (vc p 2)) xs))"
  using gather_fields [of xs new_cluster] by (simp add: finish_cluster_def new_cluster_def Let_def)

lemma cluster_statistics_ok:
  assumes s: "set_ok m s" and h: "histogram_ok s"
  shows "\<exists>s'. cluster_statistics s = Some s' \<and> set_ok m s' \<and> histogram_ok s' \<and> clusters_summarise s'
    \<and> ss_samples s' = ss_samples s \<and> ss_count s' = ss_count s \<and> ss_converged s' = ss_converged s"
proof -
  have cnt: "1 \<le> ss_count s" "ss_count s \<le> m" "length (ss_clusters s) = m" "ss_cluster_max s = m" using s by (simp_all add: set_ok_def)
  have ne: "map sp_pose (live s) \<noteq> []" using length_live [OF s] cnt(1) by auto
  obtain n t where t: "cluster (ss_tree s) = Some (int n, t)" "filled t (set (map sp_pose (live s)))" "kt_max t = kt_max (ss_tree s)"
    "kt_nodes t \<noteq> []" "n \<le> length (map sp_pose (live s))"
    and lab: "\<forall>p \<in> set (map sp_pose (live s)). \<exists>k < n. get_cluster p t = Some (int k)"
    and onto: "\<forall>k < n. \<exists>p \<in> set (map sp_pose (live s)). get_cluster p t = Some (int k)"
    using kd.group_all [OF h [unfolded histogram_ok_def] ne] by blast
  have nm: "n \<le> ss_count s" using t(5) length_live [OF s] by simp
  let ?r = "\<lparr>cr_clusters = map (\<lambda>_. new_cluster) (ss_clusters s), cr_count = 0, cr_weight = 0, cr_ws = (0, 0, 0, 0)\<rparr>"
  have lab': "\<forall>x \<in> set (live s). \<exists>k < n. get_cluster (sp_pose x) t = Some (int k)" using lab by simp
  have "n \<le> m" "length (cr_clusters ?r) = m" "cr_count ?r \<le> int n" using nm cnt by simp_all
  from sum_samples_ok [OF lab' this]
  obtain r where r: "sum_samples t m (live s) ?r = Some (True, r)" "length (cr_clusters r) = m"
    "\<And>k. k < m \<Longrightarrow> cr_clusters r ! k = fold add_to_cluster (members t (live s) k) (cr_clusters ?r ! k)"
    "cr_count r \<le> int n" "\<forall>x \<in> set (live s). \<forall>k. get_cluster (sp_pose x) t = Some k \<longrightarrow> k < cr_count r" by blast
  have count: "cr_count r = int n"
  proof (cases n)
    case 0
    have "hd (live s) \<in> set (live s)" using ne by simp
    then show ?thesis using lab' 0 by blast
  next
    case (Suc j)
    then obtain x where "x \<in> set (live s)" "get_cluster (sp_pose x) t = Some (int j)" using onto by auto
    then show ?thesis using r(4,5) Suc by fastforce
  qed
  have n1: "1 \<le> n" using lab' ne by (cases "live s") auto
  obtain a b c d where ws: "cr_ws r = (a, b, c, d)" by (cases "cr_ws r")
  let ?mean = "(a / cr_weight r, b / cr_weight r, atan2 d c)"
  let ?cls = "map finish_cluster (take n (cr_clusters r)) @ drop n (cr_clusters r)"
  let ?s = "s\<lparr>ss_tree := t, ss_cluster_count := int n, ss_clusters := ?cls, ss_mean := ?mean,
    ss_cov := mat_set 2 2 (angular_variance c d) (linear_cov zero_mat (cr_weight r) ?mean zero_mat)\<rparr>"
  have "cluster_statistics s = Some ?s"
    using t(1) cnt live_samples_ok [OF s] r(1,2) count nm ws by (simp add: cluster_statistics_def Let_def)
  moreover have set: "set_ok m ?s" using s t(3,4) r(2) nm cnt by (simp add: set_ok_def)
  moreover have live: "live ?s = live s" by (simp add: live_def)
  then have "histogram_ok ?s" using t(2) by (simp add: histogram_ok_def)
  moreover have "clusters_summarise ?s"
  proof -
    have at: "?cls ! k = finish_cluster (fold add_to_cluster (members t (live s) k) new_cluster)" if "k < n" for k
      using that nm cnt r(2) r(3) [of k] by (simp add: nth_append)
    have "members t (live s) k \<noteq> []" if k: "k < n" for k
    proof -
      obtain x where "x \<in> set (live s)" "get_cluster (sp_pose x) t = Some (int k)" using onto k by auto
      then have "x \<in> set (members t (live s) k)" by (simp add: members_def)
      then show ?thesis by auto
    qed
    then show ?thesis using n1 nm lab' at finish_gathered [OF refl, of t "live s"] live by (simp add: clusters_summarise_def Let_def)
  qed
  ultimately show ?thesis by (intro exI [of _ ?s]) simp
qed

text \<open>The statistics of a set whose histogram holds other poses than its samples: they need not be right, but they return.\<close>

lemma sum_samples_returns:
  assumes "\<And>p. \<exists>a. get_cluster p t = Some a" "length (cr_clusters r) = m" "0 \<le> cr_count r" "cr_count r \<le> int m"
  shows "\<exists>b r'. sum_samples t m xs r = Some (b, r') \<and> length (cr_clusters r') = m \<and> 0 \<le> cr_count r' \<and> cr_count r' \<le> int m"
  using assms(2-)
proof (induction xs arbitrary: r)
  case (Cons x xs)
  obtain a where a: "get_cluster (sp_pose x) t = Some a" using assms(1) by blast
  show ?case
  proof (cases "a < 0 \<or> a \<ge> int m")
    case True
    then show ?thesis using Cons a by auto
  next
    case False
    then show ?thesis using Cons.IH a Cons.prems by (auto simp: Let_def nat_less_iff)
  qed
qed auto

lemma cluster_statistics_returns:
  assumes s: "set_ok m s" and f: "filled (ss_tree s) P" "P \<noteq> {}"
  shows "\<exists>s'. cluster_statistics s = Some s' \<and> set_ok m s' \<and> filled (ss_tree s') P \<and> ss_samples s' = ss_samples s \<and> ss_count s' = ss_count s"
proof -
  have cnt: "length (ss_clusters s) = m" "ss_cluster_max s = m" using s by (simp_all add: set_ok_def)
  obtain n t where t: "cluster (ss_tree s) = Some (n, t)" "filled t P" "kt_max t = kt_max (ss_tree s)" "kt_nodes t \<noteq> []"
    using kd.group_ok [OF f] by blast
  let ?r = "\<lparr>cr_clusters = map (\<lambda>_. new_cluster) (ss_clusters s), cr_count = 0, cr_weight = 0, cr_ws = (0, 0, 0, 0)\<rparr>"
  obtain b r where r: "sum_samples t m (live s) ?r = Some (b, r)" "length (cr_clusters r) = m" "0 \<le> cr_count r" "cr_count r \<le> int m"
    using sum_samples_returns [of t ?r m "live s"] kd.bin_total [OF t(2) f(2)] cnt by auto
  have "nat (cr_count r) \<le> m" using r(4) by simp
  then show ?thesis using t r cnt s live_samples_ok [OF s]
    by (cases b; cases "cr_ws r") (simp_all add: cluster_statistics_def Let_def set_ok_def)
qed

end
