(* ===== verification/FilterUpdate.thy ===== *)
theory FilterUpdate
  imports FilterStatistics
begin

text \<open>
  The particle filter at work: every initialisation and every update of a well-formed filter with normalised
  weights returns and leaves a well-formed filter with normalised weights.
\<close>

subsection \<open>Well-formed filters\<close>

definition normalised :: "sample_set \<Rightarrow> bool" where
  "normalised s \<longleftrightarrow> (\<forall>x \<in> set (live s). 0 \<le> sp_weight x) \<and> weighted_sum (\<lambda>_. 1) (live s) = 1"

definition filter_ok :: "particle_filter \<Rightarrow> bool" where
  "filter_ok p \<longleftrightarrow> length (pf_sets p) = 2 \<and> pf_current p < 2 \<and> 1 \<le> pf_max p \<and> pf_min p \<le> pf_max p \<and> kld_fits p
     \<and> (\<forall>s \<in> set (pf_sets p). set_ok (pf_max p) s)"

definition current_set :: "particle_filter \<Rightarrow> sample_set" where
  "current_set p = pf_sets p ! pf_current p"

lemma current_ok:
  assumes "filter_ok p"
  shows "at_opt (pf_sets p) (pf_current p) = Some (current_set p)" "set_ok (pf_max p) (current_set p)"
  using assms by (simp_all add: filter_ok_def current_set_def)

lemma filter_ok_update:
  assumes "filter_ok p" "set_ok (pf_max p) s" "i < 2"
    "p' = p\<lparr>pf_sets := (pf_sets p)[j := s], pf_current := i, pf_w_slow := a, pf_w_fast := b, pf_converged := c\<rparr>"
  shows "filter_ok p'"
  using assms set_update_subset_insert [of "pf_sets p" j s] by (auto simp: filter_ok_def kld_fits_def)

subsection \<open>Initialisation\<close>

lemma take_Suc_update: "i < length xs \<Longrightarrow> take (Suc i) (xs[i := x]) = take i xs @ [x]"
  by (simp add: take_Suc_conv_app_nth)

lemma init_samples_ok:
  assumes gen: "\<And>w. gen w \<noteq> None"
    and "filled (ss_tree s) (set (map sp_pose (take i (ss_samples s))))" "i + n \<le> length (ss_samples s)" "2 * (i + n) \<le> kt_max (ss_tree s)"
  shows "\<exists>xs t w'. init_samples gen m [i..<i + n] s w = Some (s\<lparr>ss_samples := xs, ss_tree := t\<rparr>, w')
    \<and> filled t (set (map sp_pose (take (i + n) xs))) \<and> kt_max t = kt_max (ss_tree s) \<and> (0 < n \<longrightarrow> kt_nodes t \<noteq> [])
    \<and> length xs = length (ss_samples s) \<and> take i xs = take i (ss_samples s)
    \<and> (\<forall>x \<in> set (drop i (take (i + n) xs)). sp_weight x = 1 / real m \<and> (\<exists>w w'. gen w = Some (sp_pose x, w')))"
  using assms(2-)
proof (induction n arbitrary: i s w)
  case 0
  then show ?case by (intro exI [of _ "ss_samples s"] exI [of _ "ss_tree s"] exI [of _ w]) simp
next
  case (Suc n)
  obtain pose w1 where g: "gen w = Some (pose, w1)" using gen [of w] by auto
  let ?x = "\<lparr>sp_pose = pose, sp_weight = 1 / real m\<rparr>"
  let ?xs = "(ss_samples s)[i := ?x]"
  have i: "i < length (ss_samples s)" using Suc.prems(2) by simp
  then have tk: "take (Suc i) ?xs = take i (ss_samples s) @ [?x]" by (rule take_Suc_update)
  have "2 * length (map sp_pose (take i (ss_samples s))) + 1 \<le> kt_max (ss_tree s)" using Suc.prems(2,3) by simp
  from kd.put_next [OF Suc.prems(1) this, of pose "1 / real m"]
  obtain t where t: "insert_pose pose (1 / real m) (ss_tree s) = Some t"
    "filled t (set (map sp_pose (take i (ss_samples s)) @ [pose]))" "kt_max t = kt_max (ss_tree s)" "kt_nodes t \<noteq> []" by blast
  let ?s = "s\<lparr>ss_samples := ?xs, ss_tree := t\<rparr>"
  have "filled (ss_tree ?s) (set (map sp_pose (take (Suc i) (ss_samples ?s))))" using t(2) tk by simp
  moreover have "Suc i + n \<le> length (ss_samples ?s)" "2 * (Suc i + n) \<le> kt_max (ss_tree ?s)" using Suc.prems(2,3) t(3) by simp_all
  ultimately obtain xs t' w' where r: "init_samples gen m [Suc i..<Suc i + n] ?s w1 = Some (?s\<lparr>ss_samples := xs, ss_tree := t'\<rparr>, w')"
    "filled t' (set (map sp_pose (take (Suc i + n) xs)))" "kt_max t' = kt_max t" "0 < n \<longrightarrow> kt_nodes t' \<noteq> []"
    "length xs = length (ss_samples s)" "take (Suc i) xs = take (Suc i) ?xs"
    "\<forall>x \<in> set (drop (Suc i) (take (Suc i + n) xs)). sp_weight x = 1 / real m \<and> (\<exists>w w'. gen w = Some (sp_pose x, w'))"
    using Suc.IH [of ?s "Suc i" w1] by auto
  have idx: "[i..<i + Suc n] = i # [Suc i..<Suc i + n]" by (simp add: upt_conv_Cons)
  have "init_samples gen m [i..<i + Suc n] s w = Some (s\<lparr>ss_samples := xs, ss_tree := t'\<rparr>, w')"
    unfolding idx using g i t(1) r(1) by simp
  moreover have "kt_nodes t' \<noteq> []"
  proof (cases "n = 0")
    case True
    then have "?s = ?s\<lparr>ss_samples := xs, ss_tree := t'\<rparr>" using r(1) by simp
    then have "ss_tree ?s = ss_tree (?s\<lparr>ss_samples := xs, ss_tree := t'\<rparr>)" by (rule arg_cong)
    then show ?thesis using t(4) by simp
  qed (use r(4) in simp)
  moreover have "take i xs = take i (ss_samples s)" using arg_cong [OF r(6), of "take i"] by (simp add: min_def)
  moreover have "drop i (take (i + Suc n) xs) = ?x # drop (Suc i) (take (Suc i + n) xs)"
  proof -
    have "xs ! i = ?x" using arg_cong [OF r(6), of "\<lambda>ys. ys ! i"] i by simp
    moreover have "i < length (take (i + Suc n) xs)" using i r(5) by simp
    ultimately show ?thesis using Cons_nth_drop_Suc [of i "take (i + Suc n) xs"] by simp
  qed
  ultimately show ?case using r(2,3,5,7) t(3) g
    by (intro exI [of _ xs] exI [of _ t'] exI [of _ w']) (auto intro: exI [of _ w])
qed

text \<open>A set that was filled with samples of equal weight, and its statistics.\<close>

lemma equal_weights:
  assumes "\<forall>x \<in> set xs. sp_weight x = 1 / real (length xs)" "xs \<noteq> []"
  shows "weighted_sum (\<lambda>_. 1) xs = 1"
proof -
  have "weighted_sum (\<lambda>_. 1) xs = (\<Sum>x \<leftarrow> xs. 1 / real (length xs))" unfolding weighted_sum_def
    by (rule arg_cong [where f = sum_list], rule map_cong) (use assms(1) in simp_all)
  then show ?thesis using assms(2) by (simp add: sum_list_triv)
qed

lemma equal_normalised:
  assumes "set_ok m s" "\<forall>x \<in> set (live s). sp_weight x = 1 / real (ss_count s)"
  shows "normalised s"
proof -
  have "length (live s) = ss_count s" "1 \<le> ss_count s" using assms(1) by (simp_all add: set_ok_def live_def)
  moreover from this have "live s \<noteq> []" by auto
  ultimately show ?thesis using equal_weights [of "live s"] assms(2) by (auto simp: normalised_def)
qed

lemma init_by_model_ok:
  assumes p: "filter_ok p" and gen: "\<And>w. gen w \<noteq> None"
  shows "\<exists>p' w'. init_by_model gen p w = Some (p', w') \<and> filter_ok p' \<and> pf_current p' = pf_current p \<and> pf_max p' = pf_max p
    \<and> ss_count (current_set p') = pf_max p \<and> pf_sets p' = (pf_sets p)[pf_current p := current_set p']
    \<and> (\<forall>x \<in> set (live (current_set p')). sp_weight x = 1 / real (pf_max p) \<and> (\<exists>w w'. gen w = Some (sp_pose x, w')))
    \<and> histogram_ok (current_set p') \<and> clusters_summarise (current_set p')"
proof -
  let ?s = "current_set p" and ?m = "pf_max p"
  note c = current_ok [OF p]
  have len: "length (ss_samples ?s) = ?m" "kt_max (ss_tree ?s) = 3 * ?m" "kt_nodes (ss_tree ?s) \<noteq> []" "1 \<le> ?m"
    using c(2) p by (simp_all add: set_ok_def filter_ok_def)
  obtain t where t: "kd_clear (ss_tree ?s) = Some t" "filled t {}" "kt_max t = kt_max (ss_tree ?s)" using kd.clear_ok [OF len(3)] by blast
  let ?s0 = "?s\<lparr>ss_tree := t, ss_count := ?m\<rparr>"
  have "filled (ss_tree ?s0) (set (map sp_pose (take 0 (ss_samples ?s0))))" "0 + ?m \<le> length (ss_samples ?s0)"
    "2 * (0 + ?m) \<le> kt_max (ss_tree ?s0)" using t len by simp_all
  from init_samples_ok [where gen = gen and m = ?m and w = w, OF gen this]
  obtain xs t1 w' where r: "init_samples gen ?m [0..<?m] ?s0 w = Some (?s0\<lparr>ss_samples := xs, ss_tree := t1\<rparr>, w')"
    "filled t1 (set (map sp_pose (take ?m xs)))" "kt_max t1 = kt_max (ss_tree ?s0)" "0 < ?m \<longrightarrow> kt_nodes t1 \<noteq> []"
    "length xs = length (ss_samples ?s0)"
    "\<forall>x \<in> set (drop 0 (take (0 + ?m) xs)). sp_weight x = 1 / real ?m \<and> (\<exists>w w'. gen w = Some (sp_pose x, w'))" by auto
  let ?s1 = "?s0\<lparr>ss_samples := xs, ss_tree := t1\<rparr>"
  have s1: "set_ok ?m ?s1" using c(2) r t len by (simp add: set_ok_def)
  have "histogram_ok ?s1" using r(2) by (simp add: histogram_ok_def live_def)
  from cluster_statistics_ok [OF s1 this]
  obtain s2 where s2: "cluster_statistics ?s1 = Some s2" "set_ok ?m s2" "histogram_ok s2" "clusters_summarise s2"
    "ss_samples s2 = xs" "ss_count s2 = ?m" "ss_converged s2 = ss_converged ?s1" by auto
  let ?s3 = "s2\<lparr>ss_converged := False\<rparr>"
  let ?p = "p\<lparr>pf_sets := (pf_sets p)[pf_current p := ?s3], pf_current := pf_current p, pf_w_slow := 0, pf_w_fast := 0, pf_converged := False\<rparr>"
  have cur: "pf_current p < length (pf_sets p)" "pf_current p < 2" using p by (simp_all add: filter_ok_def)
  have "init_by_model gen p w = Some (?p, w')"
    using c(1) t(1) r(1) s2(1) cur by (simp add: init_by_model_def init_converged_def on_set_def)
  moreover have "set_ok ?m ?s3" using s2(2) by (simp add: set_ok_def)
  then have "filter_ok ?p" using filter_ok_update [OF p] cur(2) by blast
  moreover have curs: "current_set ?p = ?s3" using cur by (simp add: current_set_def)
  have live: "live ?s3 = take ?m xs" using s2(5,6) by (simp add: live_def)
  have "histogram_ok ?s3" "clusters_summarise ?s3" using s2(3,4) by (simp_all add: histogram_ok_def clusters_summarise_def live_def)
  ultimately show ?thesis using live s2(6) r(6) curs by (intro exI [of _ ?p] exI [of _ w']) simp
qed

end
