(* ===== verification/FilterResample.thy ===== *)
theory FilterResample
  imports FilterUpdate
begin

text \<open>
  Updating the weights and resampling: \<open>UpdateOmega\<close> normalises, and \<open>UpdateResample\<close> draws a set of at most the
  configured size from the samples of positive weight.
\<close>

subsection \<open>Drawing one sample\<close>

lemma length_cumulate [simp]: "length (cumulate x ws) = Suc (length ws)"
  by (induction ws arbitrary: x) simp_all

lemma cumulate_nth: "i \<le> length ws \<Longrightarrow> cumulate x ws ! i = x + sum_list (take i ws)"
proof (induction ws arbitrary: x i)
  case (Cons w ws)
  then show ?case by (cases i) simp_all
qed simp

lemma pick_sample_ok:
  assumes "c ! i \<le> r" "r < c ! (i + n)"
  shows "\<exists>j. pick_sample c r [i..<i + n] = Some j \<and> i \<le> j \<and> j < i + n \<and> c ! j \<le> r \<and> r < c ! (j + 1)"
  using assms
proof (induction n arbitrary: i)
  case (Suc n)
  have idx: "[i..<i + Suc n] = i # [Suc i..<Suc i + n]" by (simp add: upt_conv_Cons)
  show ?case
  proof (cases "r < c ! (i + 1)")
    case True
    then show ?thesis unfolding idx using Suc.prems(1) by (intro exI [of _ i]) simp
  next
    case False
    then have "c ! Suc i \<le> r" by simp
    moreover have "r < c ! (Suc i + n)" using Suc.prems(2) by simp
    ultimately obtain j where "pick_sample c r [Suc i..<Suc i + n] = Some j" "Suc i \<le> j" "j < Suc i + n" "c ! j \<le> r" "r < c ! (j + 1)"
      using Suc.IH [of "Suc i"] by blast
    then show ?thesis unfolding idx using False by (intro exI [of _ j]) simp
  qed
qed simp

text \<open>A pose that may be drawn: random, or that of a sample of positive weight.\<close>

definition drawable :: "('w \<Rightarrow> (vec3 \<times> 'w) option) \<Rightarrow> sample list \<Rightarrow> vec3 \<Rightarrow> bool" where
  "drawable random_pose xs pose \<longleftrightarrow> (\<exists>x \<in> set xs. 0 < sp_weight x \<and> pose = sp_pose x) \<or> (\<exists>w w'. random_pose w = Some (pose, w'))"

lemma draw_pose_ok:
  assumes "weighted_sum (\<lambda>_. 1) xs = 1" and drand: "\<And>w. 0 \<le> fst (drand w) \<and> fst (drand w) < 1" and rp: "\<And>w. random_pose w \<noteq> None"
  shows "\<exists>pose w'. draw_pose drand random_pose w_diff xs w = Some (pose, w') \<and> drawable random_pose xs pose"
proof (cases "case w_diff of None \<Rightarrow> False | Some v \<Rightarrow> fst (drand w) < v")
  case True
  obtain pose w' where r: "random_pose (snd (drand w)) = Some (pose, w')" using rp [of "snd (drand w)"] by auto
  then have "draw_pose drand random_pose w_diff xs w = Some (pose, w')" using True by (simp add: draw_pose_def split_def)
  moreover have "drawable random_pose xs pose" unfolding drawable_def using r by blast
  ultimately show ?thesis by blast
next
  case False
  let ?c = "cumulate 0 (map sp_weight xs)"
  let ?r = "fst (drand (snd (drand w)))"
  have "sum_list (map sp_weight xs) = 1" using assms(1) by (simp add: weighted_sum_def)
  then have "?c ! 0 \<le> ?r" "?r < ?c ! (0 + length xs)" using drand [of "snd (drand w)"] by (simp_all add: cumulate_nth)
  from pick_sample_ok [OF this]
  obtain j where j: "pick_sample ?c ?r [0..<length xs] = Some j" "j < length xs" "?c ! j \<le> ?r" "?r < ?c ! (j + 1)" by auto
  have "?c ! (j + 1) = ?c ! j + sp_weight (xs ! j)" using j(2) by (simp add: cumulate_nth take_Suc_conv_app_nth)
  then have pos: "0 < sp_weight (xs ! j)" using j(3,4) by simp
  then have "draw_pose drand random_pose w_diff xs w = Some (sp_pose (xs ! j), snd (drand (snd (drand w))))"
    using False j(1,2) by (simp add: draw_pose_def split_def Let_def)
  moreover have "drawable random_pose xs (sp_pose (xs ! j))" unfolding drawable_def using pos nth_mem [OF j(2)] by blast
  ultimately show ?thesis by blast
qed

subsection \<open>Drawing a set\<close>

lemma draw_samples_ok:
  assumes draw: "\<And>w. \<exists>pose w'. draw w = Some (pose, w') \<and> Q pose"
    and p: "kld_fits p" "pf_min p \<le> pf_max p"
    and "filled (ss_tree s) (set (map sp_pose (take i (ss_samples s))))" "i + n \<le> length (ss_samples s)" "2 * (i + n) \<le> kt_max (ss_tree s)"
    "i + n = pf_max p" "ss_count s = i" "0 < i \<longrightarrow> kt_nodes (ss_tree s) \<noteq> []"
    "\<forall>x \<in> set (take i (ss_samples s)). sp_weight x = 1 \<and> Q (sp_pose x)"
  shows "\<exists>xs t j w'. draw_samples draw p [i..<i + n] s (real i) w = Some (s\<lparr>ss_count := j, ss_samples := xs, ss_tree := t\<rparr>, real j, w')
    \<and> filled t (set (map sp_pose (take j xs))) \<and> kt_max t = kt_max (ss_tree s) \<and> (0 < j \<longrightarrow> kt_nodes t \<noteq> [])
    \<and> length xs = length (ss_samples s) \<and> i \<le> j \<and> j \<le> pf_max p \<and> (0 < n \<longrightarrow> 0 < j) \<and> (j = pf_max p \<or> pf_min p < j)
    \<and> (\<forall>x \<in> set (take j xs). sp_weight x = 1 \<and> Q (sp_pose x))"
  using assms(4-)
proof (induction n arbitrary: i s w)
  case 0
  have "s\<lparr>ss_count := i, ss_samples := ss_samples s, ss_tree := ss_tree s\<rparr> = s" using 0 by simp
  then have "draw_samples draw p [i..<i + 0] s (real i) w = Some (s\<lparr>ss_count := i, ss_samples := ss_samples s, ss_tree := ss_tree s\<rparr>, real i, w)" by simp
  then show ?case using 0 by (intro exI [of _ "ss_samples s"] exI [of _ "ss_tree s"] exI [of _ i] exI [of _ w]) simp
next
  case (Suc n)
  obtain pose w1 where d: "draw w = Some (pose, w1)" "Q pose" using draw by blast
  let ?x = "\<lparr>sp_pose = pose, sp_weight = 1\<rparr>"
  let ?xs = "(ss_samples s)[i := ?x]"
  have i: "i < length (ss_samples s)" using Suc.prems(2) by simp
  then have tk: "take (Suc i) ?xs = take i (ss_samples s) @ [?x]" by (rule take_Suc_update)
  have "2 * length (map sp_pose (take i (ss_samples s))) + 1 \<le> kt_max (ss_tree s)" using Suc.prems(2,3) by simp
  from kd.put_next [OF Suc.prems(1) this, of pose 1]
  obtain t where t: "insert_pose pose 1 (ss_tree s) = Some t"
    "filled t (set (map sp_pose (take i (ss_samples s)) @ [pose]))" "kt_max t = kt_max (ss_tree s)" "kt_nodes t \<noteq> []"
    "kt_leaves t \<le> int (length (map sp_pose (take i (ss_samples s))) + 1)" by blast
  let ?s = "s\<lparr>ss_count := Suc i, ss_samples := ?xs, ss_tree := t\<rparr>"
  have "kt_leaves t \<le> int (pf_max p)" using t(5) i Suc.prems(4) by simp
  then obtain k where k: "resample_limit (kt_leaves t) p = Some k" "int (pf_min p) \<le> k" "k \<le> int (pf_max p)"
    using resample_limit_ok [OF p] by blast
  have Q: "\<forall>x \<in> set (take (Suc i) ?xs). sp_weight x = 1 \<and> Q (sp_pose x)" unfolding tk using Suc.prems(7) d(2) by auto
  have f: "filled t (set (map sp_pose (take (Suc i) ?xs)))" unfolding tk using t(2) by simp
  have idx: "[i..<i + Suc n] = i # [Suc i..<Suc i + n]" by (simp add: upt_conv_Cons)
  show ?case
  proof (cases "int (Suc i) > k")
    case True
    have "draw_samples draw p [i..<i + Suc n] s (real i) w = Some (?s, real (Suc i), w1)"
      unfolding idx using d i t(1) k(1) True by (simp add: add.commute)
    then show ?thesis using True k(2) f t(3,4) Q Suc.prems(4)
      by (intro exI [of _ ?xs] exI [of _ t] exI [of _ "Suc i"] exI [of _ w1]) (simp del: upt_Suc)
  next
    case False
    have step: "draw_samples draw p [i..<i + Suc n] s (real i) w = draw_samples draw p [Suc i..<Suc i + n] ?s (real (Suc i)) w1"
      unfolding idx using d i t(1) k(1) False by (simp add: add.commute)
    have "filled (ss_tree ?s) (set (map sp_pose (take (Suc i) (ss_samples ?s))))" "Suc i + n \<le> length (ss_samples ?s)"
      "2 * (Suc i + n) \<le> kt_max (ss_tree ?s)" "Suc i + n = pf_max p" "ss_count ?s = Suc i" "0 < Suc i \<longrightarrow> kt_nodes (ss_tree ?s) \<noteq> []"
      "\<forall>x \<in> set (take (Suc i) (ss_samples ?s)). sp_weight x = 1 \<and> Q (sp_pose x)"
      using f Q t(3,4) Suc.prems(2-4) by simp_all
    from Suc.IH [OF this, of w1]
    obtain xs t' j w' where r: "draw_samples draw p [Suc i..<Suc i + n] ?s (real (Suc i)) w1 = Some (?s\<lparr>ss_count := j, ss_samples := xs, ss_tree := t'\<rparr>, real j, w')"
      "filled t' (set (map sp_pose (take j xs)))" "kt_max t' = kt_max t" "0 < j \<longrightarrow> kt_nodes t' \<noteq> []" "length xs = length (ss_samples s)"
      "Suc i \<le> j" "j \<le> pf_max p" "j = pf_max p \<or> pf_min p < j" "\<forall>x \<in> set (take j xs). sp_weight x = 1 \<and> Q (sp_pose x)" by auto
    then have "draw_samples draw p [i..<i + Suc n] s (real i) w = Some (s\<lparr>ss_count := j, ss_samples := xs, ss_tree := t'\<rparr>, real j, w')"
      using step by simp
    then show ?thesis using r(2-9) t(3) by (intro exI [of _ xs] exI [of _ t'] exI [of _ j] exI [of _ w']) auto
  qed
qed

subsection \<open>Convergence\<close>

definition mean_of :: "nat \<Rightarrow> sample list \<Rightarrow> real" where
  "mean_of i xs = (\<Sum>x \<leftarrow> xs. vc (sp_pose x) i) / real (length xs)"

definition converged_at :: "real \<Rightarrow> sample list \<Rightarrow> bool" where
  "converged_at d xs \<longleftrightarrow> (\<forall>x \<in> set xs. \<bar>vc (sp_pose x) 0 - mean_of 0 xs\<bar> \<le> d \<and> \<bar>vc (sp_pose x) 1 - mean_of 1 xs\<bar> \<le> d)"

lemma update_converged_ok:
  assumes "at_opt (pf_sets p) (pf_current p) = Some s" "set_ok m s"
  shows "update_converged p = Some (converged_at (pf_dist_threshold p) (live s),
    p\<lparr>pf_sets := (pf_sets p)[pf_current p := s\<lparr>ss_converged := converged_at (pf_dist_threshold p) (live s)\<rparr>],
      pf_converged := converged_at (pf_dist_threshold p) (live s)\<rparr>)"
proof -
  have n: "real (ss_count s) = real (length (live s))" using assms(2) by simp
  have "converged_at (pf_dist_threshold p) (live s) \<longleftrightarrow> \<not> list_ex (\<lambda>x. \<bar>vc (sp_pose x) 0 - mean_of 0 (live s)\<bar> > pf_dist_threshold p
      \<or> \<bar>vc (sp_pose x) 1 - mean_of 1 (live s)\<bar> > pf_dist_threshold p) (live s)"
    by (auto simp: converged_at_def list_ex_iff not_less)
  then show ?thesis using assms live_samples_ok [OF assms(2)] by (simp add: update_converged_def on_set_def mean_of_def Let_def)
qed

subsection \<open>Weights\<close>

lemma scaled_weights:
  "weighted_sum (\<lambda>_. 1) (map (\<lambda>x. x\<lparr>sp_weight := sp_weight x / c\<rparr>) xs) = weighted_sum (\<lambda>_. 1) xs / c"
  by (induction xs) (simp_all add: add_divide_distrib)

lemma weights_nonneg: "\<forall>x \<in> set xs. 0 \<le> sp_weight x \<Longrightarrow> 0 \<le> weighted_sum (\<lambda>_. 1) xs"
  by (induction xs) simp_all

text \<open>A set whose live samples are changed by \<open>f\<close>.\<close>

lemma map_live:
  assumes "set_ok m s" "s' = s\<lparr>ss_samples := map f (take (ss_count s) (ss_samples s)) @ drop (ss_count s) (ss_samples s)\<rparr>"
  shows "set_ok m s'" "live s' = map f (live s)" "ss_count s' = ss_count s"
  using assms by (simp_all add: set_ok_def live_def)

lemma update_omega_ok:
  assumes p: "filter_ok p" and w: "\<forall>x \<in> set (live (current_set p)). 0 \<le> sp_weight x"
    and t: "t = weighted_sum (\<lambda>_. 1) (live (current_set p)) \<or> t = 0"
  shows "\<exists>p'. update_omega t p = Some p' \<and> filter_ok p' \<and> normalised (current_set p') \<and> pf_current p' = pf_current p \<and> pf_max p' = pf_max p
    \<and> pf_sets p' = (pf_sets p)[pf_current p := current_set p']
    \<and> live (current_set p') = (if t > 0 then map (\<lambda>x. x\<lparr>sp_weight := sp_weight x / t\<rparr>) (live (current_set p))
        else map (\<lambda>x. x\<lparr>sp_weight := 1 / real (length (live (current_set p)))\<rparr>) (live (current_set p)))"
proof -
  let ?s = "current_set p"
  note c = current_ok [OF p]
  have n: "ss_count ?s \<le> length (ss_samples ?s)" "1 \<le> ss_count ?s" using c(2) by (simp_all add: set_ok_def)
  have cur: "pf_current p < length (pf_sets p)" "pf_current p < 2" using p by (simp_all add: filter_ok_def)
  define f :: "sample \<Rightarrow> sample" where "f = (if t > 0 then (\<lambda>x. x\<lparr>sp_weight := sp_weight x / t\<rparr>) else (\<lambda>x. x\<lparr>sp_weight := 1 / real (ss_count ?s)\<rparr>))"
  let ?s' = "?s\<lparr>ss_samples := map f (take (ss_count ?s) (ss_samples ?s)) @ drop (ss_count ?s) (ss_samples ?s)\<rparr>"
  note s' = map_live [OF c(2) refl, of f]
  have live: "live ?s' = (if t > 0 then map (\<lambda>x. x\<lparr>sp_weight := sp_weight x / t\<rparr>) (live ?s)
        else map (\<lambda>x. x\<lparr>sp_weight := 1 / real (length (live ?s))\<rparr>) (live ?s))"
    using s'(2) length_live [OF c(2)] by (simp add: f_def)
  have norm: "normalised ?s'"
  proof (cases "t > 0")
    case True
    then show ?thesis using w t by (auto simp: normalised_def live scaled_weights)
  next
    case False
    have "\<forall>x \<in> set (live ?s'). sp_weight x = 1 / real (ss_count ?s')" using False length_live [OF c(2)] live by auto
    then show ?thesis using equal_normalised [OF s'(1)] by simp
  qed
  let ?w = "sum_list (map sp_weight (live ?s)) / real (ss_count ?s)"
  let ?p = "p\<lparr>pf_sets := (pf_sets p)[pf_current p := ?s'], pf_current := pf_current p,
    pf_w_slow := (if t > 0 then running_average (pf_alpha_slow p) ?w (pf_w_slow p) else pf_w_slow p),
    pf_w_fast := (if t > 0 then running_average (pf_alpha_fast p) ?w (pf_w_fast p) else pf_w_fast p), pf_converged := pf_converged p\<rparr>"
  have "update_omega t p = Some ?p"
    using c(1) n live_samples_ok [OF c(2)] by (simp add: update_omega_def on_set_def current_set_def f_def Let_def)
  moreover have "filter_ok ?p" by (rule filter_ok_update [OF p s'(1) cur(2) refl])
  moreover have "current_set ?p = ?s'" using cur by (simp add: current_set_def)
  ultimately show ?thesis using norm live by (intro exI [of _ ?p]) simp
qed

subsection \<open>Resampling\<close>

lemma update_resample_ok:
  assumes p: "filter_ok p" and norm: "normalised (current_set p)" and drand: "\<And>w. 0 \<le> fst (drand w) \<and> fst (drand w) < 1"
    and rp: "\<And>w. random_pose w \<noteq> None"
  shows "\<exists>p' w'. update_resample drand random_pose p w = Some (p', w') \<and> filter_ok p' \<and> pf_current p' = (pf_current p + 1) mod 2
    \<and> pf_max p' = pf_max p \<and> pf_min p \<le> ss_count (current_set p') \<and> pf_sets p' = (pf_sets p)[pf_current p' := current_set p']
    \<and> (\<forall>x \<in> set (live (current_set p')). sp_weight x = 1 / real (ss_count (current_set p'))
         \<and> drawable random_pose (live (current_set p)) (sp_pose x))
    \<and> histogram_ok (current_set p') \<and> clusters_summarise (current_set p')
    \<and> pf_converged p' = converged_at (pf_dist_threshold p) (live (current_set p'))"
proof -
  let ?a = "current_set p" and ?m = "pf_max p" and ?o = "(pf_current p + 1) mod 2"
  let ?b = "pf_sets p ! ?o"
  note c = current_ok [OF p]
  have P: "length (pf_sets p) = 2" "1 \<le> ?m" "pf_min p \<le> ?m" "kld_fits p" using p by (simp_all add: filter_ok_def)
  have o: "?o < 2" by simp
  then have b: "at_opt (pf_sets p) ?o = Some ?b" "set_ok ?m ?b" using p P(1) by (simp_all add: filter_ok_def)
  have len: "length (ss_samples ?b) = ?m" "kt_max (ss_tree ?b) = 3 * ?m" "kt_nodes (ss_tree ?b) \<noteq> []" using b(2) by (simp_all add: set_ok_def)
  obtain t where t: "kd_clear (ss_tree ?b) = Some t" "filled t {}" "kt_max t = kt_max (ss_tree ?b)" using kd.clear_ok [OF len(3)] by blast
  let ?b0 = "?b\<lparr>ss_tree := t, ss_count := 0\<rparr>"
  let ?draw = "draw_pose drand random_pose (random_share p) (live ?a)"
  have draw: "\<exists>pose w'. ?draw w = Some (pose, w') \<and> drawable random_pose (live ?a) pose" for w
    by (rule draw_pose_ok [OF _ drand rp]) (use norm in \<open>simp add: normalised_def\<close>)
  have pre: "filled (ss_tree ?b0) (set (map sp_pose (take 0 (ss_samples ?b0))))" "0 + ?m \<le> length (ss_samples ?b0)"
    "2 * (0 + ?m) \<le> kt_max (ss_tree ?b0)" "0 + ?m = pf_max p" "ss_count ?b0 = 0" "0 < (0::nat) \<longrightarrow> kt_nodes (ss_tree ?b0) \<noteq> []"
    "\<forall>x \<in> set (take 0 (ss_samples ?b0)). sp_weight x = 1 \<and> drawable random_pose (live ?a) (sp_pose x)" using t len by simp_all
  from draw_samples_ok [where draw = ?draw and w = w, OF draw P(4,3) pre]
  obtain xs t1 j w' where r: "draw_samples ?draw p [0..<?m] ?b0 0 w = Some (?b0\<lparr>ss_count := j, ss_samples := xs, ss_tree := t1\<rparr>, real j, w')"
    "filled t1 (set (map sp_pose (take j xs)))" "kt_max t1 = kt_max (ss_tree ?b0)" "0 < j" "kt_nodes t1 \<noteq> []"
    "length xs = length (ss_samples ?b0)" "j \<le> ?m" "j = ?m \<or> pf_min p < j"
    "\<forall>x \<in> set (take j xs). sp_weight x = 1 \<and> drawable random_pose (live ?a) (sp_pose x)"
    using P(2) by auto
  let ?f = "\<lambda>x. x\<lparr>sp_weight := sp_weight x / real j\<rparr>"
  let ?ys = "map ?f (take j xs) @ drop j xs"
  let ?b1 = "?b0\<lparr>ss_count := j, ss_samples := xs, ss_tree := t1\<rparr>\<lparr>ss_samples := ?ys\<rparr>"
  have live1: "live ?b1 = map ?f (take j xs)" using r(6,7) len by (simp add: live_def)
  have b1: "set_ok ?m ?b1" using b(2) r t len by (simp add: set_ok_def)
  have "histogram_ok ?b1" unfolding histogram_ok_def live1 using r(2) by (simp add: image_image)
  from cluster_statistics_ok [OF b1 this]
  obtain b2 where b2: "cluster_statistics ?b1 = Some b2" "set_ok ?m b2" "histogram_ok b2" "clusters_summarise b2"
    "ss_samples b2 = ?ys" "ss_count b2 = j" by auto
  have live2: "live b2 = map ?f (take j xs)" using b2(5,6) r(6,7) len by (simp add: live_def)
  define reset where "reset = (case random_share p of None \<Rightarrow> False | Some v \<Rightarrow> v > 0)"
  let ?p1 = "(if reset then p\<lparr>pf_w_slow := 0, pf_w_fast := 0\<rparr> else p)"
  let ?p2 = "?p1\<lparr>pf_sets := (pf_sets p)[?o := b2], pf_current := ?o\<rparr>"
  let ?c = "converged_at (pf_dist_threshold p) (live b2)"
  let ?b3 = "b2\<lparr>ss_converged := ?c\<rparr>"
  let ?p3 = "p\<lparr>pf_sets := (pf_sets p)[?o := ?b3], pf_current := ?o, pf_w_slow := (if reset then 0 else pf_w_slow p),
    pf_w_fast := (if reset then 0 else pf_w_fast p), pf_converged := ?c\<rparr>"
  have "at_opt (pf_sets ?p2) (pf_current ?p2) = Some b2" using P(1) o by simp
  from update_converged_ok [OF this b2(2)]
  have u: "update_converged ?p2 = Some (?c, ?p3)" by simp
  have "map_first j ?f xs = Some ?ys" using r(6,7) len by simp
  then have "update_resample drand random_pose p w = Some (?p3, w')"
    unfolding update_resample_def Let_def using c(1) b(1) live_samples_ok [OF c(2)] t(1) r(1) b2(1) u
    by (cases reset) (simp_all add: reset_def [symmetric])
  moreover define p3 where "p3 = ?p3"
  ultimately have "update_resample drand random_pose p w = Some (p3, w')" by simp
  moreover have b3: "set_ok ?m ?b3" using b2(2) by (simp add: set_ok_def)
  have "filter_ok p3" unfolding p3_def by (rule filter_ok_update [OF p b3 o refl])
  moreover have cs: "current_set p3 = ?b3" "pf_current p3 = ?o" "pf_max p3 = ?m" "pf_converged p3 = ?c" "pf_sets p3 = (pf_sets p)[?o := ?b3]"
    using P(1) o by (simp_all add: current_set_def p3_def)
  have live3: "live ?b3 = live b2" by (simp add: live_def)
  have "histogram_ok ?b3" "clusters_summarise ?b3" using b2(3,4) by (simp_all add: histogram_ok_def clusters_summarise_def live_def)
  moreover have "pf_min p \<le> j" using r(8) P(3) by auto
  moreover have "\<forall>x \<in> set (live b2). sp_weight x = 1 / real j \<and> drawable random_pose (live ?a) (sp_pose x)" using r(9) by (auto simp: live2)
  ultimately show ?thesis using b2(6) by (intro exI [of _ p3] exI [of _ w']) (simp add: cs live3)
qed

subsection \<open>New filters\<close>

lemma new_sample_set_ok: "1 \<le> m \<Longrightarrow> set_ok m (new_sample_set m)"
  by (simp add: set_ok_def new_sample_set_def initialize_by_max_size_def new_kd_tree_def)

lemma new_filter_ok:
  assumes "1 \<le> m" "k \<le> m" "kld_fits (set_kld_param e z (new_filter k m a b))"
  shows "filter_ok (set_kld_param e z (new_filter k m a b))"
proof -
  have "set_ok m ((new_sample_set m)\<lparr>ss_converged := False\<rparr>)" using new_sample_set_ok [OF assms(1)] by (simp add: set_ok_def)
  then show ?thesis using assms new_sample_set_ok [OF assms(1)]
    by (simp add: filter_ok_def set_kld_param_def new_filter_def init_converged_def on_set_def)
qed

subsection \<open>Properties\<close>

text \<open>C36. Resampling a well-formed filter whose current weights are normalised, with random numbers from the interval from 0 (included) to 1 (excluded) and a generator of poses that does not fail: \<open>UpdateResample\<close>
  returns; no assertion fails and no index leaves its vector. The other set becomes the current one, with at least the minimal and at most
  the maximal number of samples, all of the same weight; each pose is random or that of a sample of positive weight. Its clusters have
  the number, weight and weighted mean of their samples, no sample is without a cluster, and the filter counts as converged exactly if no sample is farther from the mean than the threshold.\<close>

theorem resampling_correct:
  assumes "filter_ok p" "normalised (current_set p)" "\<forall>w. 0 \<le> fst (drand w) \<and> fst (drand w) < 1" "\<forall>w. random_pose w \<noteq> None"
  shows "\<exists>p' w'. update_resample drand random_pose p w = Some (p', w') \<and> filter_ok p' \<and> pf_current p' = (pf_current p + 1) mod 2
    \<and> pf_min p \<le> ss_count (current_set p') \<and> ss_count (current_set p') \<le> pf_max p
    \<and> (\<forall>x \<in> set (live (current_set p')). sp_weight x = 1 / real (ss_count (current_set p'))
         \<and> ((\<exists>y \<in> set (live (current_set p)). 0 < sp_weight y \<and> sp_pose x = sp_pose y) \<or> (\<exists>w w'. random_pose w = Some (sp_pose x, w'))))
    \<and> clusters_summarise (current_set p') \<and> (pf_converged p' \<longleftrightarrow> converged_at (pf_dist_threshold p) (live (current_set p')))"
proof -
  have d: "0 \<le> fst (drand w) \<and> fst (drand w) < 1" for w using assms(3) by blast
  have rp: "random_pose w \<noteq> None" for w using assms(4) by blast
  obtain p' w' where r: "update_resample drand random_pose p w = Some (p', w')" "filter_ok p'" "pf_current p' = (pf_current p + 1) mod 2"
    "pf_max p' = pf_max p" "pf_min p \<le> ss_count (current_set p')" "clusters_summarise (current_set p')"
    "pf_converged p' = converged_at (pf_dist_threshold p) (live (current_set p'))"
    and x: "\<forall>x \<in> set (live (current_set p')). sp_weight x = 1 / real (ss_count (current_set p'))
         \<and> drawable random_pose (live (current_set p)) (sp_pose x)"
    using update_resample_ok [where drand = drand and random_pose = random_pose and w = w, OF assms(1,2) d rp] by blast
  have "ss_count (current_set p') \<le> pf_max p" using current_ok(2) [OF r(2)] r(4) by (simp add: set_ok_def)
  then show ?thesis using r x unfolding drawable_def by blast
qed

definition sample_filter :: particle_filter where
  "sample_filter = set_kld_param 0.05 0.99 (new_filter 1 2 0.001 0.1)"

lemma sample_filter_ok: "filter_ok sample_filter" "normalised (current_set sample_filter)"
proof -
  show "filter_ok sample_filter" unfolding sample_filter_def
    by (rule new_filter_ok) (simp_all add: kld_fits_def set_kld_param_def new_filter_def init_converged_def on_set_def power3_eq_cube)
  show "normalised (current_set sample_filter)"
    by (simp add: sample_filter_def set_kld_param_def new_filter_def init_converged_def on_set_def current_set_def normalised_def
      live_def new_sample_set_def numeral_2_eq_2)
qed

theorem resampling_correct_witness:
  "\<exists>p' w'. update_resample (\<lambda>w. (if w then 0.25 else 0.75, \<not> w)) (\<lambda>w. Some ((0, 0, 0), w)) sample_filter True = Some (p', w')
    \<and> 1 \<le> ss_count (current_set p') \<and> ss_count (current_set p') \<le> 2"
proof -
  have r: "\<forall>w. 0 \<le> fst (if w then 0.25 else 0.75 :: real, \<not> w) \<and> fst (if w then 0.25 else 0.75 :: real, \<not> w) < 1" by simp
  have m: "pf_min sample_filter = 1" "pf_max sample_filter = 2"
    by (simp_all add: sample_filter_def set_kld_param_def new_filter_def init_converged_def on_set_def)
  show ?thesis using resampling_correct [OF sample_filter_ok r, where w = True and random_pose = "\<lambda>w. Some ((0, 0, 0), w)"] unfolding m by blast
qed

end
