(* ===== verification/AmclMap.thy ===== *)
theory AmclMap
  imports CostMap
begin

text \<open>
  The map of the localisation, \<open>amcl_map.cpp\<close>: which cells are occupied, and how far each cell is from an
  obstacle.

  The cells are numbered row by row. Indices are whole numbers without overflow: the vector of the cells has been
  allocated. The priority queue is a list of which \<open>pick\<close> takes a cell of least distance.
\<close>

subsection \<open>The map\<close>

record amcl_cell =
  ac_state :: int
  ac_dist :: real

record amcl_map =
  am_size_x :: int
  am_size_y :: int
  am_scale :: real
  am_origin_x :: real
  am_origin_y :: real
  am_max_x_distance :: real
  am_max_y_distance :: real
  am_diag_distance :: real
  am_max_occ_dist :: real
  am_cells :: "amcl_cell list"

definition at_int :: "'a list \<Rightarrow> int \<Rightarrow> 'a option" where
  "at_int xs i = (if 0 \<le> i then at_opt xs (nat i) else None)"

definition set_int :: "'a list \<Rightarrow> int \<Rightarrow> 'a \<Rightarrow> 'a list option" where
  "set_int xs i x = (if 0 \<le> i then set_opt xs (nat i) x else None)"

definition cell_index :: "amcl_map \<Rightarrow> int \<Rightarrow> int \<Rightarrow> int" where
  "cell_index m i j = i + j * am_size_x m"

definition half :: "int \<Rightarrow> int" where
  "half n = (if n \<ge> 0 then n div 2 else - ((- n) div 2))"

definition coords_to_cell :: "amcl_map \<Rightarrow> real \<Rightarrow> real \<Rightarrow> (int \<times> int) option" where
  "coords_to_cell m x y = do {
     qx \<leftarrow> quotient (x - am_origin_x m) (am_scale m);
     qy \<leftarrow> quotient (y - am_origin_y m) (am_scale m);
     mx \<leftarrow> to_int (real_of_int (\<lfloor>qx + 0.5\<rfloor> + half (am_size_x m)));
     my \<leftarrow> to_int (real_of_int (\<lfloor>qy + 0.5\<rfloor> + half (am_size_y m)));
     Some (mx, my) }"

definition cell_to_coords :: "amcl_map \<Rightarrow> int \<Rightarrow> int \<Rightarrow> real \<times> real" where
  "cell_to_coords m x y =
     (am_origin_x m + real_of_int (x - half (am_size_x m)) * am_scale m,
      am_origin_y m + real_of_int (y - half (am_size_y m)) * am_scale m)"

definition cell_valid :: "amcl_map \<Rightarrow> int \<Rightarrow> int \<Rightarrow> bool" where
  "cell_valid m i j \<longleftrightarrow> i \<ge> 0 \<and> i < am_size_x m \<and> j \<ge> 0 \<and> j < am_size_y m"

definition index_free :: "amcl_map \<Rightarrow> int \<Rightarrow> int \<Rightarrow> bool option" where
  "index_free m i j = do { c \<leftarrow> at_int (am_cells m) (cell_index m i j); Some (ac_state c = - 1) }"

definition occ_dist :: "amcl_map \<Rightarrow> int \<Rightarrow> real option" where
  "occ_dist m k = do { c \<leftarrow> at_int (am_cells m) k; Some (ac_dist c) }"

definition euclidean_distance :: "real \<Rightarrow> real \<Rightarrow> real \<Rightarrow> real \<Rightarrow> real" where
  "euclidean_distance x1 y1 x2 y2 = sqrt ((x1 - x2) ^ 2 + (y1 - y2) ^ 2)"

definition cell_of_value :: "int \<Rightarrow> amcl_cell" where
  "cell_of_value v = \<lparr>ac_state = (if v = 0 then - 1 else if v = 100 then 1 else 0), ac_dist = 0\<rparr>"

text \<open>\<open>ConvertFromMsg\<close> on a new map; the message has to have a value for every cell.\<close>

definition map_from_msg :: "occupancy_grid \<Rightarrow> amcl_map option" where
  "map_from_msg msg =
     (let w = wrap_int (int (og_width msg)); h = wrap_int (int (og_height msg)); s = og_resolution msg;
          n = og_width msg * og_height msg in
      if length (og_data msg) < n then None
      else Some \<lparr>am_size_x = w, am_size_y = h, am_scale = s, am_origin_x = og_origin_x msg + real_of_int (half w) * s,
        am_origin_y = og_origin_y msg + real_of_int (half h) * s, am_max_x_distance = real_of_int w * s, am_max_y_distance = real_of_int h * s,
        am_diag_distance = euclidean_distance 0 0 (real_of_int w * s) (real_of_int h * s), am_max_occ_dist = 0,
        am_cells = map cell_of_value (take n (og_data msg))\<rparr>)"

subsection \<open>Distances to obstacles\<close>

record distance_map =
  dm_cell_radius :: int
  dm_distances :: "real list list"

definition new_distance_map :: "real \<Rightarrow> real \<Rightarrow> distance_map option" where
  "new_distance_map scale max_dist = do {
     q \<leftarrow> quotient max_dist scale;
     r \<leftarrow> to_int q;
     if r + 2 < 0 then None
     else Some \<lparr>dm_cell_radius = r,
       dm_distances = map (\<lambda>i. map (\<lambda>j. sqrt (real (i * i + j * j))) [0..<nat (r + 2)]) [0..<nat (r + 2)]\<rparr> }"

record queue_cell =
  qc_i :: int
  qc_j :: int
  qc_src_i :: int
  qc_src_j :: int

record c_space =
  cs_cells :: "amcl_cell list"
  cs_marks :: "bool list"
  cs_queue :: "queue_cell list"

definition c_space_enqueue :: "amcl_map \<Rightarrow> distance_map \<Rightarrow> int \<Rightarrow> int \<Rightarrow> int \<Rightarrow> int \<Rightarrow> c_space \<Rightarrow> c_space option" where
  "c_space_enqueue m d i j src_i src_j st = do {
     let index = cell_index m i j;
     mark \<leftarrow> at_int (cs_marks st) index;
     if mark then Some st
     else do {
       row \<leftarrow> at_int (dm_distances d) \<bar>i - src_i\<bar>;
       distance \<leftarrow> at_int row \<bar>j - src_j\<bar>;
       if distance > real_of_int (dm_cell_radius d) then Some st
       else do {
         c \<leftarrow> at_int (cs_cells st) index;
         cells \<leftarrow> set_int (cs_cells st) index (c\<lparr>ac_dist := distance * am_scale m\<rparr>);
         marks \<leftarrow> set_int (cs_marks st) index True;
         Some \<lparr>cs_cells = cells, cs_marks = marks,
           cs_queue = cs_queue st @ [\<lparr>qc_i = i, qc_j = j, qc_src_i = src_i, qc_src_j = src_j\<rparr>]\<rparr> } } }"

text \<open>The obstacle cells are marked, at distance 0, and put into the queue; all others start with the largest distance.\<close>

primrec c_space_start :: "amcl_map \<Rightarrow> real \<Rightarrow> (int \<times> int) list \<Rightarrow> c_space \<Rightarrow> c_space option" where
  "c_space_start m max_occ_dist [] st = Some st"
| "c_space_start m max_occ_dist (ij # ijs) st = do {
     let index = cell_index m (fst ij) (snd ij);
     c \<leftarrow> at_int (cs_cells st) index;
     st' \<leftarrow> (if ac_state c = 1 then do {
           cells \<leftarrow> set_int (cs_cells st) index (c\<lparr>ac_dist := 0\<rparr>);
           marks \<leftarrow> set_int (cs_marks st) index True;
           Some \<lparr>cs_cells = cells, cs_marks = marks,
             cs_queue = cs_queue st @ [\<lparr>qc_i = fst ij, qc_j = snd ij, qc_src_i = fst ij, qc_src_j = snd ij\<rparr>]\<rparr> }
         else do {
           cells \<leftarrow> set_int (cs_cells st) index (c\<lparr>ac_dist := max_occ_dist\<rparr>);
           Some (st\<lparr>cs_cells := cells\<rparr>) });
     c_space_start m max_occ_dist ijs st' }"

definition all_cells :: "amcl_map \<Rightarrow> (int \<times> int) list" where
  "all_cells m = concat (map (\<lambda>i. map (\<lambda>j. (i, j)) [0..am_size_y m - 1]) [0..am_size_x m - 1])"

text \<open>The key of a cell in the queue is its current distance.\<close>

definition queue_key :: "amcl_map \<Rightarrow> c_space \<Rightarrow> queue_cell \<Rightarrow> real" where
  "queue_key m st c = (case occ_dist (m\<lparr>am_cells := cs_cells st\<rparr>) (cell_index m (qc_i c) (qc_j c)) of None \<Rightarrow> 0 | Some d \<Rightarrow> d)"

definition c_space_visit :: "amcl_map \<Rightarrow> distance_map \<Rightarrow> queue_cell \<Rightarrow> c_space \<Rightarrow> c_space option" where
  "c_space_visit m d c st = do {
     let i = qc_i c;
     let j = qc_j c;
     st1 \<leftarrow> (if i > 0 then c_space_enqueue m d (i - 1) j (qc_src_i c) (qc_src_j c) st else Some st);
     st2 \<leftarrow> (if j > 0 then c_space_enqueue m d i (j - 1) (qc_src_i c) (qc_src_j c) st1 else Some st1);
     st3 \<leftarrow> (if i < am_size_x m - 1 then c_space_enqueue m d (i + 1) j (qc_src_i c) (qc_src_j c) st2 else Some st2);
     if j < am_size_y m - 1 then c_space_enqueue m d i (j + 1) (qc_src_i c) (qc_src_j c) st3 else Some st3 }"

text \<open>The cell is removed only after its neighbours were added: what is removed is the first of the queue by then.\<close>

partial_function (option) c_space_loop ::
  "((queue_cell \<Rightarrow> real) \<Rightarrow> queue_cell list \<Rightarrow> queue_cell) \<Rightarrow> amcl_map \<Rightarrow> distance_map \<Rightarrow> c_space \<Rightarrow> c_space option" where
  "c_space_loop pick m d st =
     (if cs_queue st = [] then Some st
      else do {
        st' \<leftarrow> c_space_visit m d (pick (queue_key m st) (cs_queue st)) st;
        c_space_loop pick m d (st'\<lparr>cs_queue := remove1 (pick (queue_key m st') (cs_queue st')) (cs_queue st')\<rparr>) })"

definition update_c_space ::
  "((queue_cell \<Rightarrow> real) \<Rightarrow> queue_cell list \<Rightarrow> queue_cell) \<Rightarrow> real \<Rightarrow> amcl_map \<Rightarrow> amcl_map option" where
  "update_c_space pick max_occ_dist m = do {
     d \<leftarrow> new_distance_map (am_scale m) max_occ_dist;
     st \<leftarrow> c_space_start m max_occ_dist (all_cells m)
       \<lparr>cs_cells = am_cells m, cs_marks = replicate (nat (am_size_x m * am_size_y m)) False, cs_queue = []\<rparr>;
     st' \<leftarrow> c_space_loop pick m d st;
     Some (m\<lparr>am_max_occ_dist := max_occ_dist, am_cells := cs_cells st'\<rparr>) }"

text \<open>The distances as an occupancy grid. A value that does not fit a \<open>signed char\<close> is a fault.\<close>

definition distance_value :: "amcl_map \<Rightarrow> amcl_cell \<Rightarrow> int option" where
  "distance_value m c = do {
     q \<leftarrow> quotient (ac_dist c) (am_max_occ_dist m);
     v \<leftarrow> quotient (q * 100) (am_scale m);
     if - 129 < v \<and> v < 128 then Some (trunc_real v) else None }"

definition distance_map_msg :: "amcl_map \<Rightarrow> occupancy_grid option" where
  "distance_map_msg m = do {
     vs \<leftarrow> those (map (distance_value m) (am_cells m));
     Some \<lparr>og_width = nat (am_size_x m), og_height = nat (am_size_y m), og_resolution = am_scale m,
       og_origin_x = am_origin_x m - real_of_int (half (am_size_x m)) * am_scale m,
       og_origin_y = am_origin_y m - real_of_int (half (am_size_y m)) * am_scale m, og_frame = ''map'', og_data = vs\<rparr> }"

subsection \<open>Well-formed maps\<close>

definition amcl_map_ok :: "amcl_map \<Rightarrow> bool" where
  "amcl_map_ok m \<longleftrightarrow> 0 \<le> am_size_x m \<and> 0 \<le> am_size_y m \<and> length (am_cells m) = nat (am_size_x m * am_size_y m)"

definition amcl_cell_at :: "amcl_map \<Rightarrow> int \<Rightarrow> int \<Rightarrow> amcl_cell" where
  "amcl_cell_at m i j = am_cells m ! nat (cell_index m i j)"

definition obstacle :: "amcl_map \<Rightarrow> int \<Rightarrow> int \<Rightarrow> bool" where
  "obstacle m i j \<longleftrightarrow> cell_valid m i j \<and> ac_state (amcl_cell_at m i j) = 1"

lemma at_int_Some [simp]: "0 \<le> i \<Longrightarrow> nat i < length xs \<Longrightarrow> at_int xs i = Some (xs ! nat i)"
  by (simp add: at_int_def)

lemma set_int_Some [simp]: "0 \<le> i \<Longrightarrow> nat i < length xs \<Longrightarrow> set_int xs i x = Some (xs[nat i := x])"
  by (simp add: set_int_def)

lemma index_range:
  assumes "cell_valid m i j"
  shows "0 \<le> cell_index m i j" "nat (cell_index m i j) < nat (am_size_x m * am_size_y m)"
proof -
  have v: "0 \<le> i" "i + 1 \<le> am_size_x m" "0 \<le> j" "j + 1 \<le> am_size_y m" using assms by (auto simp: cell_valid_def)
  show i: "0 \<le> cell_index m i j" using v by (simp add: cell_index_def)
  have "(j + 1) * am_size_x m \<le> am_size_y m * am_size_x m" using v by (intro mult_right_mono) auto
  then have "cell_index m i j < am_size_x m * am_size_y m" using v by (simp add: cell_index_def algebra_simps)
  then show "nat (cell_index m i j) < nat (am_size_x m * am_size_y m)" using i by simp
qed

lemma index_inj:
  assumes "cell_valid m i j" "cell_valid m i' j'" "nat (cell_index m i j) = nat (cell_index m i' j')"
  shows "i = i' \<and> j = j'"
proof -
  have v: "0 \<le> i" "i < am_size_x m" "0 \<le> i'" "i' < am_size_x m" using assms(1,2) by (auto simp: cell_valid_def)
  have "cell_index m i j = cell_index m i' j'" using assms(3) index_range(1) [OF assms(1)] index_range(1) [OF assms(2)] by linarith
  then have eq: "i + j * am_size_x m = i' + j' * am_size_x m" by (simp add: cell_index_def)
  have "i = i'" using arg_cong [OF eq, of "\<lambda>n. n mod am_size_x m"] v by simp
  then show ?thesis using eq v by simp
qed

lemma map_from_msg_ok:
  assumes "map_from_msg msg = Some m" "og_width msg < 2 ^ 31" "og_height msg < 2 ^ 31"
  shows "amcl_map_ok m"
proof -
  have "nat (int (og_width msg) * int (og_height msg)) = og_width msg * og_height msg" by (simp add: nat_mult_distrib)
  then show ?thesis using assms by (auto simp: map_from_msg_def Let_def amcl_map_ok_def split: if_splits)
qed

subsection \<open>The distances\<close>

definition cell_distance :: "int \<Rightarrow> int \<Rightarrow> int \<Rightarrow> int \<Rightarrow> real" where
  "cell_distance i j i' j' = sqrt (real_of_int ((i - i') ^ 2 + (j - j') ^ 2))"

text \<open>A marked cell has the distance to some obstacle within the radius, any other cell the largest distance.\<close>

definition c_space_inv :: "amcl_map \<Rightarrow> int \<Rightarrow> real \<Rightarrow> (int \<times> int) set \<Rightarrow> c_space \<Rightarrow> bool" where
  "c_space_inv m r max_dist S st \<longleftrightarrow>
     length (cs_cells st) = length (am_cells m) \<and> length (cs_marks st) = length (am_cells m)
     \<and> map ac_state (cs_cells st) = map ac_state (am_cells m)
     \<and> (\<forall>i j. (i, j) \<in> S \<longrightarrow> cell_valid m i j \<longrightarrow>
          (if cs_marks st ! nat (cell_index m i j)
           then \<exists>i' j'. obstacle m i' j' \<and> cell_distance i j i' j' \<le> real_of_int r
              \<and> ac_dist (cs_cells st ! nat (cell_index m i j)) = cell_distance i j i' j' * am_scale m \<and> (obstacle m i j \<longrightarrow> i' = i \<and> j' = j)
           else ac_dist (cs_cells st ! nat (cell_index m i j)) = max_dist \<and> \<not> obstacle m i j))
     \<and> (\<forall>c \<in> set (cs_queue st). cell_valid m (qc_i c) (qc_j c) \<and> obstacle m (qc_src_i c) (qc_src_j c)
          \<and> cell_distance (qc_i c) (qc_j c) (qc_src_i c) (qc_src_j c) \<le> real_of_int r)"

lemma c_space_cell:
  assumes "c_space_inv m r max_dist UNIV st" "cell_valid m i j"
  shows "cs_marks st ! nat (cell_index m i j) \<Longrightarrow> \<exists>i' j'. obstacle m i' j' \<and> cell_distance i j i' j' \<le> real_of_int r
      \<and> ac_dist (cs_cells st ! nat (cell_index m i j)) = cell_distance i j i' j' * am_scale m \<and> (obstacle m i j \<longrightarrow> i' = i \<and> j' = j)"
    and "\<not> cs_marks st ! nat (cell_index m i j) \<Longrightarrow> ac_dist (cs_cells st ! nat (cell_index m i j)) = max_dist \<and> \<not> obstacle m i j"
proof -
  have h: "if cs_marks st ! nat (cell_index m i j)
      then \<exists>i' j'. obstacle m i' j' \<and> cell_distance i j i' j' \<le> real_of_int r
         \<and> ac_dist (cs_cells st ! nat (cell_index m i j)) = cell_distance i j i' j' * am_scale m \<and> (obstacle m i j \<longrightarrow> i' = i \<and> j' = j)
      else ac_dist (cs_cells st ! nat (cell_index m i j)) = max_dist \<and> \<not> obstacle m i j"
    using assms unfolding c_space_inv_def by blast
  show "\<exists>i' j'. obstacle m i' j' \<and> cell_distance i j i' j' \<le> real_of_int r
      \<and> ac_dist (cs_cells st ! nat (cell_index m i j)) = cell_distance i j i' j' * am_scale m \<and> (obstacle m i j \<longrightarrow> i' = i \<and> j' = j)"
    if m: "cs_marks st ! nat (cell_index m i j)" using h unfolding if_P [OF m] .
  show "ac_dist (cs_cells st ! nat (cell_index m i j)) = max_dist \<and> \<not> obstacle m i j"
    if m: "\<not> cs_marks st ! nat (cell_index m i j)" using h unfolding if_not_P [OF m] .
qed

definition distances_ok :: "distance_map \<Rightarrow> bool" where
  "distances_ok d \<longleftrightarrow> 0 \<le> dm_cell_radius d \<and> (\<forall>a b. 0 \<le> a \<longrightarrow> a \<le> dm_cell_radius d + 1 \<longrightarrow> 0 \<le> b \<longrightarrow> b \<le> dm_cell_radius d + 1 \<longrightarrow>
     (\<exists>row. at_int (dm_distances d) a = Some row \<and> at_int row b = Some (sqrt (real_of_int (a ^ 2 + b ^ 2)))))"

lemma new_distance_map_ok:
  assumes "new_distance_map scale max_dist = Some d" "0 < scale" "0 \<le> max_dist"
  shows "distances_ok d"
proof -
  obtain r where r: "to_int (max_dist / scale) = Some r"
    "d = \<lparr>dm_cell_radius = r, dm_distances = map (\<lambda>i. map (\<lambda>j. sqrt (real (i * i + j * j))) [0..<nat (r + 2)]) [0..<nat (r + 2)]\<rparr>"
    using assms by (auto simp: new_distance_map_def quotient_def split: bind_splits if_splits)
  have r0: "0 \<le> r" using r(1) assms(2,3) to_int_nonneg [of "max_dist / scale"] by (auto split: if_splits)
  have "at_int (dm_distances d) a = Some (map (\<lambda>j. sqrt (real (nat a * nat a + j * j))) [0..<nat (r + 2)])
      \<and> at_int (map (\<lambda>j. sqrt (real (nat a * nat a + j * j))) [0..<nat (r + 2)]) b = Some (sqrt (real_of_int (a ^ 2 + b ^ 2)))"
    if "0 \<le> a" "a \<le> r + 1" "0 \<le> b" "b \<le> r + 1" for a b
    using that r0 by (simp add: r(2) power2_eq_square del: upt_Suc)
  then show ?thesis using r0 by (simp add: distances_ok_def r(2))
qed

lemma distance_coord: "\<bar>i - i'\<bar> \<le> r" "\<bar>j - j'\<bar> \<le> r" if "cell_distance i j i' j' \<le> real_of_int r"
proof -
  have "real_of_int \<bar>i - i'\<bar> \<le> cell_distance i j i' j'" "real_of_int \<bar>j - j'\<bar> \<le> cell_distance i j i' j'"
    unfolding cell_distance_def by (rule real_le_rsqrt; simp)+
  then show "\<bar>i - i'\<bar> \<le> r" "\<bar>j - j'\<bar> \<le> r" using that by linarith+
qed

lemma distance_abs: "sqrt (real_of_int (\<bar>i - i'\<bar> ^ 2 + \<bar>j - j'\<bar> ^ 2)) = cell_distance i j i' j'"
  by (simp add: cell_distance_def)

text \<open>What is left to do: cells without a mark, and cells in the queue.\<close>

definition c_space_pending :: "c_space \<Rightarrow> nat" where
  "c_space_pending st = length (filter Not (cs_marks st)) + length (cs_queue st)"

lemma count_update: "k < length bs \<Longrightarrow> \<not> bs ! k \<Longrightarrow> Suc (length (filter Not (bs[k := True]))) = length (filter Not bs)"
proof (induction bs arbitrary: k)
  case (Cons b bs)
  then show ?case by (cases k) auto
qed simp

lemma c_space_enqueue_ok:
  assumes inv: "c_space_inv m (dm_cell_radius d) max_dist UNIV st" and m: "amcl_map_ok m" and d: "distances_ok d"
    and v: "cell_valid m i j" and src: "obstacle m si sj" and near: "\<bar>i - si\<bar> \<le> dm_cell_radius d + 1" "\<bar>j - sj\<bar> \<le> dm_cell_radius d + 1"
  shows "\<exists>st'. c_space_enqueue m d i j si sj st = Some st' \<and> c_space_inv m (dm_cell_radius d) max_dist UNIV st' \<and> c_space_pending st' = c_space_pending st
    \<and> set (cs_queue st) \<subseteq> set (cs_queue st')"
proof -
  let ?k = "nat (cell_index m i j)" and ?r = "dm_cell_radius d"
  note k0 = index_range [OF v]
  have len: "length (cs_cells st) = length (am_cells m)" "length (cs_marks st) = length (am_cells m)" "?k < length (am_cells m)"
    using inv m k0 by (simp_all add: c_space_inv_def amcl_map_ok_def)
  have mark: "at_int (cs_marks st) (cell_index m i j) = Some (cs_marks st ! ?k)" using k0 len by simp
  show ?thesis
  proof (cases "cs_marks st ! ?k")
    case True
    then show ?thesis using mark inv by (simp add: c_space_enqueue_def)
  next
    case False
    obtain row where row: "at_int (dm_distances d) \<bar>i - si\<bar> = Some row" "at_int row \<bar>j - sj\<bar> = Some (cell_distance i j si sj)"
      using d near unfolding distances_ok_def distance_abs [symmetric] by (meson abs_ge_zero)
    show ?thesis
    proof (cases "cell_distance i j si sj > real_of_int ?r")
      case True
      then show ?thesis using mark False row inv by (simp add: c_space_enqueue_def)
    next
      case near: False
      let ?c = "cs_cells st ! ?k"
      let ?st = "\<lparr>cs_cells = (cs_cells st)[?k := ?c\<lparr>ac_dist := cell_distance i j si sj * am_scale m\<rparr>], cs_marks = (cs_marks st)[?k := True],
        cs_queue = cs_queue st @ [\<lparr>qc_i = i, qc_j = j, qc_src_i = si, qc_src_j = sj\<rparr>]\<rparr>"
      have "c_space_enqueue m d i j si sj st = Some ?st" using mark False row near k0 len by (simp add: c_space_enqueue_def Let_def)
      moreover have "c_space_inv m ?r max_dist UNIV ?st"
      proof -
        have nob: "\<not> obstacle m i j" using inv v False unfolding c_space_inv_def by (auto split: if_splits)
        have states: "map ac_state ((cs_cells st)[?k := ?c\<lparr>ac_dist := cell_distance i j si sj * am_scale m\<rparr>]) = map ac_state (am_cells m)"
          using inv len by (simp add: map_update c_space_inv_def) (metis list_update_id nth_map)
        have "if (cs_marks st)[?k := True] ! nat (cell_index m a b)
           then \<exists>i' j'. obstacle m i' j' \<and> cell_distance a b i' j' \<le> real_of_int ?r
              \<and> ac_dist ((cs_cells st)[?k := ?c\<lparr>ac_dist := cell_distance i j si sj * am_scale m\<rparr>] ! nat (cell_index m a b)) = cell_distance a b i' j' * am_scale m
              \<and> (obstacle m a b \<longrightarrow> i' = a \<and> j' = b)
           else ac_dist ((cs_cells st)[?k := ?c\<lparr>ac_dist := cell_distance i j si sj * am_scale m\<rparr>] ! nat (cell_index m a b)) = max_dist \<and> \<not> obstacle m a b"
          if ab: "cell_valid m a b" for a b
        proof (cases "nat (cell_index m a b) = ?k")
          case True
          then have "a = i" "b = j" using index_inj [OF ab v] by simp_all
          moreover have "obstacle m si sj \<and> cell_distance i j si sj \<le> real_of_int ?r" using src near by simp
          ultimately show ?thesis using len nob by (simp, blast)
        next
          case False
          then show ?thesis using inv ab unfolding c_space_inv_def by simp
        qed
        then show ?thesis using inv states v src near len unfolding c_space_inv_def by simp
      qed
      moreover have "c_space_pending ?st = c_space_pending st" using count_update [of ?k "cs_marks st"] False len by (simp add: c_space_pending_def)
      ultimately show ?thesis by (intro exI [of _ ?st]) auto
    qed
  qed
qed

lemma c_space_visit_ok:
  assumes inv: "c_space_inv m (dm_cell_radius d) max_dist UNIV st" and m: "amcl_map_ok m" and d: "distances_ok d" and c: "c \<in> set (cs_queue st)"
  shows "\<exists>st'. c_space_visit m d c st = Some st' \<and> c_space_inv m (dm_cell_radius d) max_dist UNIV st' \<and> c_space_pending st' = c_space_pending st
    \<and> set (cs_queue st) \<subseteq> set (cs_queue st')"
proof -
  let ?i = "qc_i c" and ?j = "qc_j c" and ?I = "c_space_inv m (dm_cell_radius d) max_dist UNIV"
  have v: "cell_valid m ?i ?j" and src: "obstacle m (qc_src_i c) (qc_src_j c)"
    and near: "\<bar>?i - qc_src_i c\<bar> \<le> dm_cell_radius d" "\<bar>?j - qc_src_j c\<bar> \<le> dm_cell_radius d"
    using inv c distance_coord unfolding c_space_inv_def by blast+
  have step: "\<exists>st'. (if b then c_space_enqueue m d i j (qc_src_i c) (qc_src_j c) st else Some st) = Some st' \<and> ?I st' \<and> c_space_pending st' = c_space_pending st
      \<and> set (cs_queue st) \<subseteq> set (cs_queue st')"
    if "?I st" "b \<longrightarrow> cell_valid m i j" "\<bar>i - ?i\<bar> + \<bar>j - ?j\<bar> \<le> 1" for b i j st
  proof (cases b)
    case True
    have "\<bar>i - qc_src_i c\<bar> \<le> dm_cell_radius d + 1" "\<bar>j - qc_src_j c\<bar> \<le> dm_cell_radius d + 1" using that(3) near by linarith+
    then show ?thesis using c_space_enqueue_ok [OF that(1) m d _ src, of i j] that(2) True by simp
  qed (use that(1) in simp)
  obtain st1 where s1: "(if ?i > 0 then c_space_enqueue m d (?i - 1) ?j (qc_src_i c) (qc_src_j c) st else Some st) = Some st1" "?I st1"
    "c_space_pending st1 = c_space_pending st" "set (cs_queue st) \<subseteq> set (cs_queue st1)"
    using step [OF inv, of "?i > 0" "?i - 1" ?j] v by (auto simp: cell_valid_def)
  obtain st2 where s2: "(if ?j > 0 then c_space_enqueue m d ?i (?j - 1) (qc_src_i c) (qc_src_j c) st1 else Some st1) = Some st2" "?I st2"
    "c_space_pending st2 = c_space_pending st1" "set (cs_queue st1) \<subseteq> set (cs_queue st2)"
    using step [OF s1(2), of "?j > 0" ?i "?j - 1"] v by (auto simp: cell_valid_def)
  obtain st3 where s3: "(if ?i < am_size_x m - 1 then c_space_enqueue m d (?i + 1) ?j (qc_src_i c) (qc_src_j c) st2 else Some st2) = Some st3" "?I st3"
    "c_space_pending st3 = c_space_pending st2" "set (cs_queue st2) \<subseteq> set (cs_queue st3)"
    using step [OF s2(2), of "?i < am_size_x m - 1" "?i + 1" ?j] v by (auto simp: cell_valid_def)
  obtain st4 where s4: "(if ?j < am_size_y m - 1 then c_space_enqueue m d ?i (?j + 1) (qc_src_i c) (qc_src_j c) st3 else Some st3) = Some st4" "?I st4"
    "c_space_pending st4 = c_space_pending st3" "set (cs_queue st3) \<subseteq> set (cs_queue st4)"
    using step [OF s3(2), of "?j < am_size_y m - 1" ?i "?j + 1"] v by (auto simp: cell_valid_def)
  have "c_space_visit m d c st = Some st4" unfolding c_space_visit_def Let_def s1(1) s2(1) s3(1) s4(1) bind.bind_lunit s2(1) s3(1) s4(1) ..
  then show ?thesis using s4 s3(3,4) s2(3,4) s1(3,4) by (intro exI [of _ st4]) auto
qed

text \<open>What the loop needs of the priority queue.\<close>

locale cell_queue =
  fixes pick :: "(queue_cell \<Rightarrow> real) \<Rightarrow> queue_cell list \<Rightarrow> queue_cell"
  assumes pick_in: "q \<noteq> [] \<Longrightarrow> pick f q \<in> set q"
begin

lemma c_space_loop_ok:
  assumes "c_space_inv m (dm_cell_radius d) max_dist UNIV st" "amcl_map_ok m" "distances_ok d"
  shows "\<exists>st'. c_space_loop pick m d st = Some st' \<and> c_space_inv m (dm_cell_radius d) max_dist UNIV st'"
  using assms(1)
proof (induction "c_space_pending st" arbitrary: st rule: less_induct)
  case less
  show ?case
  proof (cases "cs_queue st = []")
    case True
    then show ?thesis using less.prems by (subst c_space_loop.simps) simp
  next
    case False
    let ?c = "pick (queue_key m st) (cs_queue st)"
    obtain st1 where s1: "c_space_visit m d ?c st = Some st1" "c_space_inv m (dm_cell_radius d) max_dist UNIV st1" "c_space_pending st1 = c_space_pending st"
      "set (cs_queue st) \<subseteq> set (cs_queue st1)"
      using c_space_visit_ok [OF less.prems assms(2,3) pick_in [OF False]] by blast
    let ?q = "pick (queue_key m st1) (cs_queue st1)"
    let ?st = "st1\<lparr>cs_queue := remove1 ?q (cs_queue st1)\<rparr>"
    have ne: "cs_queue st1 \<noteq> []" using s1(4) False by auto
    then have "?q \<in> set (cs_queue st1)" by (rule pick_in)
    moreover have "length (cs_queue st1) \<noteq> 0" using ne by simp
    ultimately have "c_space_pending ?st < c_space_pending st" unfolding s1(3) [symmetric] by (simp add: c_space_pending_def length_remove1)
    moreover have "c_space_inv m (dm_cell_radius d) max_dist UNIV ?st" using s1(2) set_remove1_subset [of ?q "cs_queue st1"]
      unfolding c_space_inv_def by auto
    ultimately obtain st' where "c_space_loop pick m d ?st = Some st'" "c_space_inv m (dm_cell_radius d) max_dist UNIV st'"
      using less.hyps by blast
    then show ?thesis using False s1(1) by (subst c_space_loop.simps) simp
  qed
qed

end

lemma c_space_start_ok:
  assumes "c_space_inv m r max_dist S st" "amcl_map_ok m" "0 \<le> r" "\<forall>ij \<in> set ijs. cell_valid m (fst ij) (snd ij)" "distinct ijs" "set ijs \<inter> S = {}"
    "\<forall>ij \<in> set ijs. \<not> cs_marks st ! nat (cell_index m (fst ij) (snd ij))"
  shows "\<exists>st'. c_space_start m max_dist ijs st = Some st' \<and> c_space_inv m r max_dist (S \<union> set ijs) st'"
  using assms(1,4-)
proof (induction ijs arbitrary: S st)
  case (Cons ij ijs)
  obtain i j where ij: "ij = (i, j)" by (cases ij)
  let ?k = "nat (cell_index m i j)"
  have v: "cell_valid m i j" using Cons.prems(2) ij by simp
  note k0 = index_range [OF v]
  have len: "length (cs_cells st) = length (am_cells m)" "length (cs_marks st) = length (am_cells m)" "?k < length (am_cells m)"
    using Cons.prems(1) assms(2) k0 by (simp_all add: c_space_inv_def amcl_map_ok_def)
  let ?c = "cs_cells st ! ?k"
  have states: "map ac_state (cs_cells st) = map ac_state (am_cells m)" using Cons.prems(1) by (simp add: c_space_inv_def)
  have state: "ac_state ?c = ac_state (amcl_cell_at m i j)" using arg_cong [OF states, of "\<lambda>xs. xs ! ?k"] len by (simp add: amcl_cell_at_def)
  let ?obs = "ac_state ?c = 1"
  define st1 where "st1 = (if ?obs then \<lparr>cs_cells = (cs_cells st)[?k := ?c\<lparr>ac_dist := 0\<rparr>], cs_marks = (cs_marks st)[?k := True],
      cs_queue = cs_queue st @ [\<lparr>qc_i = i, qc_j = j, qc_src_i = i, qc_src_j = j\<rparr>]\<rparr>
    else st\<lparr>cs_cells := (cs_cells st)[?k := ?c\<lparr>ac_dist := max_dist\<rparr>]\<rparr>)"
  have run: "c_space_start m max_dist (ij # ijs) st = c_space_start m max_dist ijs st1"
    using k0 len by (simp add: ij st1_def Let_def)
  have upd: "map ac_state ((cs_cells st)[?k := ?c\<lparr>ac_dist := x\<rparr>]) = map ac_state (am_cells m)" for x
    using states len by (simp add: map_update) (metis list_update_id nth_map)
  have other: "nat (cell_index m a b) \<noteq> ?k" if "cell_valid m a b" "(a, b) \<noteq> (i, j)" for a b using index_inj [OF that(1) v] that(2) by blast
  have self: "cs_marks st1 ! ?k = ?obs" "cs_cells st1 ! ?k = ?c\<lparr>ac_dist := if ?obs then 0 else max_dist\<rparr>"
    using len Cons.prems(5) ij by (auto simp: st1_def)
  have rest: "cs_marks st1 ! nat (cell_index m a b) = cs_marks st ! nat (cell_index m a b)"
    "cs_cells st1 ! nat (cell_index m a b) = cs_cells st ! nat (cell_index m a b)" if "cell_valid m a b" "(a, b) \<noteq> (i, j)" for a b
    using other [OF that] by (simp_all add: st1_def)
  have obs: "obstacle m i j \<longleftrightarrow> ?obs" using v state by (simp add: obstacle_def)
  have zero: "cell_distance i j i j = 0" by (simp add: cell_distance_def)
  have cells: "if cs_marks st1 ! nat (cell_index m a b)
      then \<exists>i' j'. obstacle m i' j' \<and> cell_distance a b i' j' \<le> real_of_int r
         \<and> ac_dist (cs_cells st1 ! nat (cell_index m a b)) = cell_distance a b i' j' * am_scale m \<and> (obstacle m a b \<longrightarrow> i' = a \<and> j' = b)
      else ac_dist (cs_cells st1 ! nat (cell_index m a b)) = max_dist \<and> \<not> obstacle m a b"
    if "(a, b) \<in> insert (i, j) S" "cell_valid m a b" for a b
  proof (cases "(a, b) = (i, j)")
    case True
    then have ab: "a = i" "b = j" by simp_all
    show ?thesis
    proof (cases ?obs)
      case True
      then have "obstacle m i j \<and> cell_distance i j i j \<le> real_of_int r \<and> ac_dist (cs_cells st1 ! ?k) = cell_distance i j i j * am_scale m"
        using self obs zero assms(3) by simp
      then show ?thesis using self(1) True unfolding ab by auto
    qed (use self obs in \<open>simp add: ab\<close>)
  next
    case False
    then have "(a, b) \<in> S" using that(1) by blast
    then show ?thesis using Cons.prems(1) that(2) rest [OF that(2) False] unfolding c_space_inv_def by simp
  qed
  have queue: "\<forall>c \<in> set (cs_queue st1). cell_valid m (qc_i c) (qc_j c) \<and> obstacle m (qc_src_i c) (qc_src_j c)
      \<and> cell_distance (qc_i c) (qc_j c) (qc_src_i c) (qc_src_j c) \<le> real_of_int r"
    using Cons.prems(1) v obs zero assms(3) by (auto simp: st1_def c_space_inv_def)
  have "length (cs_cells st1) = length (am_cells m)" "length (cs_marks st1) = length (am_cells m)"
    "map ac_state (cs_cells st1) = map ac_state (am_cells m)" using len upd by (simp_all add: st1_def)
  then have "c_space_inv m r max_dist (insert (i, j) S) st1" using cells queue unfolding c_space_inv_def by blast
  moreover have "\<forall>ab \<in> set ijs. \<not> cs_marks st1 ! nat (cell_index m (fst ab) (snd ab))"
  proof
    fix ab assume ab: "ab \<in> set ijs"
    obtain a b where e: "ab = (a, b)" by (cases ab)
    have "cell_valid m a b" "(a, b) \<noteq> (i, j)" "\<not> cs_marks st ! nat (cell_index m a b)" using ab e ij Cons.prems(2,3,5) by auto
    then show "\<not> cs_marks st1 ! nat (cell_index m (fst ab) (snd ab))" using rest(1) [of a b] e by simp
  qed
  moreover have "set ijs \<inter> insert (i, j) S = {}" using Cons.prems(3,4) ij by auto
  ultimately obtain st' where "c_space_start m max_dist ijs st1 = Some st'" "c_space_inv m r max_dist (insert (i, j) S \<union> set ijs) st'"
    using Cons.IH [of "insert (i, j) S" st1] Cons.prems(2,3) by auto
  then show ?case using run ij by (intro exI [of _ st']) simp
qed simp

lemma all_cells_valid: "(i, j) \<in> set (all_cells m) \<longleftrightarrow> cell_valid m i j"
  by (force simp: all_cells_def cell_valid_def)

lemma distinct_all_cells: "distinct (all_cells m)"
proof -
  have "distinct (concat (map (\<lambda>i. map (\<lambda>j. (i, j)) [0..b]) xs))" if "distinct xs" for b :: int and xs :: "int list"
    using that by (induction xs) (auto simp: distinct_map inj_on_def)
  then show ?thesis by (simp add: all_cells_def)
qed

definition distances_right :: "amcl_map \<Rightarrow> real \<Rightarrow> amcl_map \<Rightarrow> bool" where
  "distances_right m max_dist m' \<longleftrightarrow> m' = m\<lparr>am_max_occ_dist := max_dist, am_cells := am_cells m'\<rparr>
     \<and> map ac_state (am_cells m') = map ac_state (am_cells m)
     \<and> (\<forall>i j. cell_valid m i j \<longrightarrow>
          (if obstacle m i j then ac_dist (amcl_cell_at m' i j) = 0
           else ac_dist (amcl_cell_at m' i j) = max_dist \<or> (\<exists>i' j'. obstacle m i' j' \<and> ac_dist (amcl_cell_at m' i j) = cell_distance i j i' j' * am_scale m
              \<and> cell_distance i j i' j' * am_scale m \<le> max_dist)))"

context cell_queue
begin

lemma update_c_space_ok:
  assumes m: "amcl_map_ok m" and s: "0 < am_scale m" "0 \<le> max_dist" "max_dist / am_scale m < 2 ^ 31"
  shows "\<exists>m'. update_c_space pick max_dist m = Some m' \<and> distances_right m max_dist m'"
proof -
  have to: "to_int (max_dist / am_scale m) = Some \<lfloor>max_dist / am_scale m\<rfloor>" using s to_int_nonneg [of "max_dist / am_scale m"] by simp
  have "0 \<le> \<lfloor>max_dist / am_scale m\<rfloor>" using s by simp
  then obtain d where d: "new_distance_map (am_scale m) max_dist = Some d" "dm_cell_radius d = \<lfloor>max_dist / am_scale m\<rfloor>"
    using s to by (simp add: new_distance_map_def quotient_def)
  note dok = new_distance_map_ok [OF d(1) s(1,2)]
  let ?r = "dm_cell_radius d"
  have r0: "0 \<le> ?r" using dok by (simp add: distances_ok_def)
  have av: "\<forall>ij \<in> set (all_cells m). cell_valid m (fst ij) (snd ij)" using all_cells_valid by auto
  let ?st = "\<lparr>cs_cells = am_cells m, cs_marks = replicate (nat (am_size_x m * am_size_y m)) False, cs_queue = []\<rparr>"
  have inv0: "c_space_inv m ?r max_dist {} ?st" using m by (simp add: c_space_inv_def amcl_map_ok_def)
  have "\<forall>ij \<in> set (all_cells m). \<not> cs_marks ?st ! nat (cell_index m (fst ij) (snd ij))"
    using index_range(2) by (auto simp: all_cells_valid)
  then obtain st1 where s1: "c_space_start m max_dist (all_cells m) ?st = Some st1" "c_space_inv m ?r max_dist (set (all_cells m)) st1"
    using c_space_start_ok [OF inv0 m r0 av distinct_all_cells] by auto
  have "c_space_inv m ?r max_dist UNIV st1" using s1(2) unfolding c_space_inv_def all_cells_valid by blast
  then obtain st2 where s2: "c_space_loop pick m d st1 = Some st2" "c_space_inv m ?r max_dist UNIV st2"
    using c_space_loop_ok [OF _ m dok] by blast
  let ?m = "m\<lparr>am_max_occ_dist := max_dist, am_cells := cs_cells st2\<rparr>"
  have "update_c_space pick max_dist m = Some ?m" using d(1) s1(1) s2(1) by (simp add: update_c_space_def)
  moreover have "distances_right m max_dist ?m"
  proof -
    have idx: "amcl_cell_at ?m i j = cs_cells st2 ! nat (cell_index m i j)" for i j by (simp add: amcl_cell_at_def cell_index_def)
    have r: "real_of_int ?r * am_scale m \<le> max_dist" using s(1) d(2) mult_right_mono [OF of_int_floor_le [of "max_dist / am_scale m"], of "am_scale m"] by simp
    have "if obstacle m i j then ac_dist (amcl_cell_at ?m i j) = 0
        else ac_dist (amcl_cell_at ?m i j) = max_dist \<or> (\<exists>i' j'. obstacle m i' j' \<and> ac_dist (amcl_cell_at ?m i j) = cell_distance i j i' j' * am_scale m
              \<and> cell_distance i j i' j' * am_scale m \<le> max_dist)" if v: "cell_valid m i j" for i j
    proof (cases "cs_marks st2 ! nat (cell_index m i j)")
      case True
      then obtain i' j' where o: "obstacle m i' j'" "cell_distance i j i' j' \<le> real_of_int ?r"
        "ac_dist (amcl_cell_at ?m i j) = cell_distance i j i' j' * am_scale m" "obstacle m i j \<longrightarrow> i' = i \<and> j' = j"
        using c_space_cell(1) [OF s2(2) v True] unfolding idx by blast
      have "cell_distance i j i' j' * am_scale m \<le> max_dist" using mult_right_mono [OF o(2), of "am_scale m"] s(1) r by linarith
      then show ?thesis using o by (auto simp: cell_distance_def)
    next
      case False
      then show ?thesis using c_space_cell(2) [OF s2(2) v] unfolding idx by simp
    qed
    moreover have "map ac_state (am_cells ?m) = map ac_state (am_cells m)" using s2(2) by (simp add: c_space_inv_def)
    ultimately show ?thesis unfolding distances_right_def by simp
  qed
  ultimately show ?thesis by blast
qed

end

text \<open>One such queue: the first of the cells with the smallest key.\<close>

fun first_nearest :: "(queue_cell \<Rightarrow> real) \<Rightarrow> queue_cell list \<Rightarrow> queue_cell" where
  "first_nearest f [] = undefined"
| "first_nearest f [c] = c"
| "first_nearest f (c # d # cs) = (let k = first_nearest f (d # cs) in if f c \<le> f k then c else k)"

interpretation nearest: cell_queue first_nearest
proof
  show "q \<noteq> [] \<Longrightarrow> first_nearest f q \<in> set q" for q f
    by (induction f q rule: first_nearest.induct) (auto simp: Let_def)
qed

subsection \<open>Properties\<close>

lemma cell_coords_cell:
  assumes "cell_valid m i j" "0 < am_scale m" "am_size_x m < 2 ^ 31" "am_size_y m < 2 ^ 31"
  shows "coords_to_cell m (fst (cell_to_coords m i j)) (snd (cell_to_coords m i j)) = Some (i, j)"
proof -
  have f: "\<lfloor>real_of_int k + 0.5\<rfloor> = k" for k :: int by linarith
  have "to_int (real_of_int k) = Some k" if "0 \<le> k" "k < 2 ^ 31" for k
    using that to_int_nonneg [of "real_of_int k"] by simp
  then have "to_int (real_of_int i) = Some i" "to_int (real_of_int j) = Some j" using assms by (auto simp: cell_valid_def)
  then show ?thesis using assms(2) f [of "i - half (am_size_x m)"] f [of "j - half (am_size_y m)"]
    by (simp add: coords_to_cell_def cell_to_coords_def quotient_def)
qed

text \<open>A message whose map contains every distance the localisation may compute: one cell far from all obstacles is enough to leave the range of its values.\<close>

lemma those_None: "None \<in> set xs \<Longrightarrow> those xs = None"
  by (induction xs) (auto split: option.splits)

lemma distance_message_overflows:
  assumes "c \<in> set (am_cells m)" "ac_dist c = am_max_occ_dist m" "0 < am_max_occ_dist m" "0 < am_scale m" "am_scale m \<le> 100 / 128"
  shows "distance_map_msg m = None"
proof -
  have "128 \<le> 100 / am_scale m" using assms(4,5) by (simp add: field_simps)
  then have "distance_value m c = None" using assms by (simp add: distance_value_def quotient_def)
  then have "None \<in> set (map (distance_value m) (am_cells m))" using assms(1) by force
  then have "those (map (distance_value m) (am_cells m)) = None"
    by (rule those_None)
  then show ?thesis by (simp add: distance_map_msg_def)
qed


definition hall :: occupancy_grid where
  "hall = \<lparr>og_width = 2, og_height = 2, og_resolution = 0.05, og_origin_x = 0, og_origin_y = 0, og_frame = ''map'', og_data = [0, 0, 100, - 1]\<rparr>"


end
