(* ===== verification/AmclSensors.thy ===== *)
theory AmclSensors
  imports ParticleFilter AmclMap
begin

text \<open>
  The sensor models of the localisation: \<open>sensor_odom.cpp\<close> moves the samples as the robot moved, \<open>sensor_laser.cpp\<close>
  weighs them by how well the laser scan fits the map there.

  Logarithms of probabilities are \<open>None\<close> for minus infinity. The range of a beam is \<open>None\<close> if it is not a number. A
  \<open>CHECK\<close> that does not hold ends the program: a fault.
\<close>

subsection \<open>Angles and poses\<close>

definition normalize :: "real \<Rightarrow> real" where
  "normalize z = atan2 (sin z) (cos z)"

definition angle_diff :: "real \<Rightarrow> real \<Rightarrow> real" where
  "angle_diff a b =
     (let d1 = normalize a - normalize b; d2 = 2 * pi - \<bar>d1\<bar>; d2' = (if d1 > 0 then d2 * - 1 else d2)
      in if \<bar>d1\<bar> < \<bar>d2'\<bar> then d1 else d2')"

definition coord_add :: "vec3 \<Rightarrow> vec3 \<Rightarrow> vec3" where
  "coord_add a b =
     (vc b 0 + vc a 0 * cos (vc b 2) - vc a 1 * sin (vc b 2), vc b 1 + vc a 0 * sin (vc b 2) + vc a 1 * cos (vc b 2),
      atan2 (sin (vc b 2 + vc a 2)) (cos (vc b 2 + vc a 2)))"

subsection \<open>Odometry\<close>

record odom_model =
  om_alpha1 :: real
  om_alpha2 :: real
  om_alpha3 :: real
  om_alpha4 :: real
  om_alpha5 :: real

definition move_pose :: "(real \<Rightarrow> 'w \<Rightarrow> real \<times> 'w) \<Rightarrow> odom_model \<Rightarrow> vec3 \<Rightarrow> vec3 \<Rightarrow> vec3 \<Rightarrow> 'w \<Rightarrow> vec3 \<times> 'w" where
  "move_pose gauss om pose delta p w =
     (let old_angle = vc pose 2 - vc delta 2;
          delta_trans = sqrt (vc delta 0 * vc delta 0 + vc delta 1 * vc delta 1);
          delta_rot = vc delta 2;
          trans_hat_stddev = sqrt (om_alpha3 om * (delta_trans * delta_trans) + om_alpha1 om * (delta_rot * delta_rot));
          rot_hat_stddev = sqrt (om_alpha4 om * (delta_rot * delta_rot) + om_alpha2 om * (delta_trans * delta_trans));
          strafe_hat_stddev = sqrt (om_alpha1 om * (delta_rot * delta_rot) + om_alpha5 om * (delta_trans * delta_trans));
          delta_bearing = angle_diff (atan2 (vc delta 1) (vc delta 0)) old_angle + vc p 2;
          cs = cos delta_bearing; sn = sin delta_bearing;
          (r1, w1) = gauss trans_hat_stddev w; (r2, w2) = gauss rot_hat_stddev w1; (r3, w3) = gauss strafe_hat_stddev w2;
          delta_trans_hat = delta_trans + r1; delta_rot_hat = delta_rot + r2; delta_strafe_hat = 0 + r3
      in ((vc p 0 + (delta_trans_hat * cs + delta_strafe_hat * sn), vc p 1 + (delta_trans_hat * sn - delta_strafe_hat * cs),
           vc p 2 + delta_rot_hat), w3))"

primrec move_samples :: "(vec3 \<Rightarrow> 'w \<Rightarrow> vec3 \<times> 'w) \<Rightarrow> sample list \<Rightarrow> 'w \<Rightarrow> sample list \<times> 'w" where
  "move_samples mv [] w = ([], w)"
| "move_samples mv (x # xs) w =
     (let (pose, w1) = mv (sp_pose x) w; (ys, w2) = move_samples mv xs w1 in (x\<lparr>sp_pose := pose\<rparr> # ys, w2))"

definition update_action :: "(real \<Rightarrow> 'w \<Rightarrow> real \<times> 'w) \<Rightarrow> odom_model \<Rightarrow> vec3 \<Rightarrow> vec3 \<Rightarrow> sample_set \<Rightarrow> 'w \<Rightarrow> (sample_set \<times> 'w) option" where
  "update_action gauss om pose delta s w = do {
     xs \<leftarrow> live_samples s;
     let (ys, w') = move_samples (move_pose gauss om pose delta) xs w;
     Some (s\<lparr>ss_samples := ys @ drop (ss_count s) (ss_samples s)\<rparr>, w') }"

subsection \<open>Laser\<close>

record laser_model =
  lm_pose :: vec3
  lm_max_beams :: nat
  lm_do_beamskip :: bool
  lm_skip_distance :: real
  lm_skip_threshold :: real
  lm_skip_error_threshold :: real
  lm_max_samples :: nat
  lm_max_obs :: nat
  lm_temp_obs :: "real list list"
  lm_z_hit :: real
  lm_z_rand :: real
  lm_sigma_hit :: real
  lm_filter_weight :: real

record laser_data =
  ld_range_max :: real
  ld_ranges :: "(real option \<times> real) list"

text \<open>\<open>raw\<close> is what a new object holds in the fields the constructor does not set.\<close>

definition new_laser_model :: "laser_model \<Rightarrow> nat \<Rightarrow> laser_model" where
  "new_laser_model raw max_beams = raw\<lparr>lm_max_samples := 0, lm_max_obs := 0, lm_temp_obs := [], lm_max_beams := max_beams\<rparr>"

record laser_params =
  lp_z_hit :: real
  lp_z_rand :: real
  lp_sigma_hit :: real
  lp_max_occ_dist :: real
  lp_do_beamskip :: bool
  lp_skip_distance :: real
  lp_skip_threshold :: real
  lp_skip_error_threshold :: real
  lp_filter_weight :: real

definition set_model_likelihood_field_prob ::
  "((queue_cell \<Rightarrow> real) \<Rightarrow> queue_cell list \<Rightarrow> queue_cell) \<Rightarrow> laser_params \<Rightarrow> laser_model \<Rightarrow> amcl_map \<Rightarrow> (laser_model \<times> amcl_map) option" where
  "set_model_likelihood_field_prob pick lp l m = do {
     m' \<leftarrow> update_c_space pick (lp_max_occ_dist lp) m;
     Some (l\<lparr>lm_z_hit := lp_z_hit lp, lm_z_rand := lp_z_rand lp, lm_sigma_hit := lp_sigma_hit lp, lm_do_beamskip := lp_do_beamskip lp,
       lm_skip_distance := lp_skip_distance lp, lm_skip_threshold := lp_skip_threshold lp,
       lm_skip_error_threshold := lp_skip_error_threshold lp, lm_filter_weight := lp_filter_weight lp\<rparr>, m') }"

definition set_laser_pose :: "vec3 \<Rightarrow> laser_model \<Rightarrow> laser_model" where
  "set_laser_pose pose l = l\<lparr>lm_pose := pose\<rparr>"

definition resize_list :: "nat \<Rightarrow> 'a \<Rightarrow> 'a list \<Rightarrow> 'a list" where
  "resize_list n x xs = take n xs @ replicate (n - length xs) x"

definition reset_temp_data :: "nat \<Rightarrow> nat \<Rightarrow> laser_model \<Rightarrow> laser_model option" where
  "reset_temp_data new_max_samples new_max_obs l =
     (let k = max (lm_max_samples l) new_max_samples in
      if k = 0 \<or> new_max_obs = 0 then None
      else Some (l\<lparr>lm_max_obs := new_max_obs, lm_max_samples := k,
        lm_temp_obs := map (resize_list new_max_obs 0) (resize_list k [] (lm_temp_obs l))\<rparr>))"

definition log_add :: "real option \<Rightarrow> real \<Rightarrow> real option" where
  "log_add l p = (if p = 0 then None else map_option (\<lambda>x. x + ln p) l)"

definition log_exp :: "real option \<Rightarrow> real" where
  "log_exp l = (case l of None \<Rightarrow> 0 | Some x \<Rightarrow> exp x)"

text \<open>\<open>exp (- (z * z) / z_hit_denom)\<close>; 0 divided by 0 is not a number, and the \<open>CHECK\<close> behind it fails.\<close>

definition hit_weight :: "real \<Rightarrow> real \<Rightarrow> real option" where
  "hit_weight z denom = (if denom = 0 then (if z = 0 then None else Some 0) else Some (exp (- (z * z) / denom)))"

text \<open>The probability of a beam, and whether it ends near an obstacle.\<close>

definition beam_likelihood :: "laser_model \<Rightarrow> amcl_map \<Rightarrow> real \<Rightarrow> vec3 \<Rightarrow> real \<Rightarrow> real \<Rightarrow> (real \<times> bool) option" where
  "beam_likelihood l m range_max pose obs_range obs_bearing = do {
     let denom = 2 * lm_sigma_hit l * lm_sigma_hit l;
     (mi, mj) \<leftarrow> coords_to_cell m (vc pose 0 + obs_range * cos (vc pose 2 + obs_bearing)) (vc pose 1 + obs_range * sin (vc pose 2 + obs_bearing));
     (hit, near) \<leftarrow> (if \<not> cell_valid m mi mj then do { q \<leftarrow> hit_weight (am_max_occ_dist m) denom; Some (lm_z_hit l * q, False) }
       else do {
         z \<leftarrow> occ_dist m (cell_index m mi mj);
         q \<leftarrow> hit_weight z denom;
         Some (lm_z_hit l * q, z < lm_skip_distance l) });
     z_rand_mult \<leftarrow> quotient 1 range_max;
     let pz = 0 + hit + lm_z_rand l * z_rand_mult;
     if 0 \<le> pz \<and> pz \<le> 1 then Some (pz, near) else None }"

definition beam_step :: "nat \<Rightarrow> nat \<Rightarrow> nat" where
  "beam_step range_count max_beams = max 1 ((range_count + max_beams - 1) div max_beams)"

definition beam_count :: "nat \<Rightarrow> nat \<Rightarrow> nat" where
  "beam_count range_count step = (range_count + step - 1) div step"

record beam_run =
  br_log :: "real option"
  br_counts :: "int list"
  br_row :: "real list"

definition add_beam :: "laser_model \<Rightarrow> amcl_map \<Rightarrow> bool \<Rightarrow> real \<Rightarrow> vec3 \<Rightarrow> real option \<times> real \<Rightarrow> nat \<Rightarrow> beam_run \<Rightarrow> beam_run option" where
  "add_beam l m do_beamskip range_max pose beam b r =
     (case fst beam of
        None \<Rightarrow> Some r
      | Some obs_range \<Rightarrow>
          if obs_range \<ge> range_max then Some r
          else do {
            (pz, near) \<leftarrow> beam_likelihood l m range_max pose obs_range (snd beam);
            counts \<leftarrow> (if near then do { n \<leftarrow> at_opt (br_counts r) b; set_opt (br_counts r) b (n + 1) } else Some (br_counts r));
            if \<not> do_beamskip then Some (r\<lparr>br_counts := counts, br_log := log_add (br_log r) pz\<rparr>)
            else do {
              row \<leftarrow> set_opt (br_row r) b pz;
              Some (r\<lparr>br_counts := counts, br_row := row\<rparr>) } })"

primrec add_beams :: "laser_model \<Rightarrow> amcl_map \<Rightarrow> bool \<Rightarrow> laser_data \<Rightarrow> nat \<Rightarrow> vec3 \<Rightarrow> nat list \<Rightarrow> beam_run \<Rightarrow> beam_run option" where
  "add_beams l m do_beamskip d step pose [] r = Some r"
| "add_beams l m do_beamskip d step pose (b # bs) r = do {
     beam \<leftarrow> at_opt (ld_ranges d) (b * step);
     r' \<leftarrow> add_beam l m do_beamskip (ld_range_max d) pose beam b r;
     add_beams l m do_beamskip d step pose bs r' }"

record laser_run =
  lr_samples :: "sample list"
  lr_counts :: "int list"
  lr_obs :: "real list list"
  lr_tot :: real

definition scale_weight :: "real option \<Rightarrow> nat \<Rightarrow> laser_run \<Rightarrow> laser_run option" where
  "scale_weight lp j r = do {
     x \<leftarrow> at_opt (lr_samples r) j;
     let w = sp_weight x * log_exp lp;
     Some (r\<lparr>lr_samples := (lr_samples r)[j := x\<lparr>sp_weight := w\<rparr>], lr_tot := lr_tot r + w\<rparr>) }"

primrec weigh_samples :: "laser_model \<Rightarrow> amcl_map \<Rightarrow> bool \<Rightarrow> laser_data \<Rightarrow> nat \<Rightarrow> nat list \<Rightarrow> nat list \<Rightarrow> laser_run \<Rightarrow> laser_run option" where
  "weigh_samples l m do_beamskip d step bs [] r = Some r"
| "weigh_samples l m do_beamskip d step bs (j # js) r = do {
     x \<leftarrow> at_opt (lr_samples r) j;
     row \<leftarrow> (if do_beamskip then at_opt (lr_obs r) j else Some []);
     b \<leftarrow> add_beams l m do_beamskip d step (coord_add (lm_pose l) (sp_pose x)) bs
       \<lparr>br_log = Some 0, br_counts = lr_counts r, br_row = row\<rparr>;
     let r1 = r\<lparr>lr_counts := br_counts b\<rparr>;
     r2 \<leftarrow> (if do_beamskip then Some (r1\<lparr>lr_obs := (lr_obs r1)[j := br_row b]\<rparr>) else scale_weight (br_log b) j r1);
     weigh_samples l m do_beamskip d step bs js r2 }"

text \<open>With beam skipping: the beams that enough samples agree with, or all of them if too many would be skipped.\<close>

primrec integrate_beams :: "bool list \<Rightarrow> real list \<Rightarrow> nat list \<Rightarrow> real option \<Rightarrow> real option option" where
  "integrate_beams used row [] lp = Some lp"
| "integrate_beams used row (b # bs) lp = do {
     use \<leftarrow> at_opt used b;
     if use then do { p \<leftarrow> at_opt row b; integrate_beams used row bs (log_add lp p) }
     else integrate_beams used row bs lp }"

primrec integrate_samples :: "bool list \<Rightarrow> nat list \<Rightarrow> nat list \<Rightarrow> laser_run \<Rightarrow> laser_run option" where
  "integrate_samples used bs [] r = Some r"
| "integrate_samples used bs (j # js) r = do {
     row \<leftarrow> at_opt (lr_obs r) j;
     lp \<leftarrow> integrate_beams used row bs (Some 0);
     r' \<leftarrow> scale_weight lp j r;
     integrate_samples used bs js r' }"

definition beam_mask :: "laser_model \<Rightarrow> nat \<Rightarrow> int list \<Rightarrow> bool list" where
  "beam_mask l sample_count counts =
     (let agreed = map (\<lambda>n. real_of_int n / real sample_count > lm_skip_threshold l) counts;
          skipped_beam_count = length (filter Not agreed)
      in if real skipped_beam_count \<ge> real (length counts) * lm_skip_error_threshold l then map (\<lambda>_. True) counts else agreed)"

text \<open>\<open>raw\<close> is the contents of the new array of counters, which the code does not initialise.\<close>

definition likelihood_field_model_prob ::
  "(nat \<Rightarrow> int) \<Rightarrow> laser_data \<Rightarrow> amcl_map \<Rightarrow> laser_model \<Rightarrow> sample_set \<Rightarrow> (real \<times> sample_set \<times> laser_model) option" where
  "likelihood_field_model_prob raw d m l s = do {
     let step = beam_step (length (ld_ranges d)) (lm_max_beams l);
     let do_beamskip = (lm_do_beamskip l \<and> ss_converged s);
     l1 \<leftarrow> (if do_beamskip \<and> (lm_max_obs l < lm_max_beams l \<or> lm_max_samples l < ss_count s)
       then reset_temp_data (ss_count s) (lm_max_beams l) l else Some l);
     let js = [0..<ss_count s];
     r \<leftarrow> weigh_samples l1 m do_beamskip d step [0..<beam_count (length (ld_ranges d)) step] js
       \<lparr>lr_samples = ss_samples s, lr_counts = map raw [0..<lm_max_beams l], lr_obs = lm_temp_obs l1, lr_tot = 0\<rparr>;
     r' \<leftarrow> (if do_beamskip then integrate_samples (beam_mask l1 (ss_count s) (lr_counts r)) [0..<lm_max_beams l] js r else Some r);
     Some (lr_tot r', s\<lparr>ss_samples := lr_samples r'\<rparr>, l1\<lparr>lm_temp_obs := lr_obs r'\<rparr>) }"

definition update_sensor ::
  "(nat \<Rightarrow> int) \<Rightarrow> laser_data \<Rightarrow> amcl_map \<Rightarrow> laser_model \<Rightarrow> sample_set \<Rightarrow> (real \<times> sample_set \<times> laser_model) option" where
  "update_sensor raw d m l s =
     (if lm_max_beams l < 2 then Some (0, s, l) else likelihood_field_model_prob raw d m l s)"

end
