(* ===== verification/AmclLaser.thy ===== *)
theory AmclLaser
  imports AmclSensors FilterStatistics
begin

text \<open>
  What the sensor models do to the samples: odometry moves them and keeps their weights, the laser multiplies
  each weight by the probability of the scan and keeps the poses.
\<close>

subsection \<open>Odometry\<close>

lemma move_samples_weights: "map sp_weight (fst (move_samples mv xs w)) = map sp_weight xs"
  by (induction xs arbitrary: w) (simp_all add: split_def Let_def)

lemma live_replaced:
  assumes "set_ok m s" "length ys = ss_count s" "s' = s\<lparr>ss_samples := ys @ drop (ss_count s) (ss_samples s)\<rparr>"
  shows "set_ok m s'" "live s' = ys"
  using assms by (simp_all add: set_ok_def live_def)

lemma update_action_ok:
  assumes "set_ok m s"
  shows "\<exists>s' w'. update_action gauss om pose delta s w = Some (s', w') \<and> set_ok m s' \<and> ss_count s' = ss_count s
    \<and> map sp_weight (live s') = map sp_weight (live s) \<and> ss_cluster_count s' = ss_cluster_count s \<and> ss_converged s' = ss_converged s"
proof -
  obtain ys w' where ys: "move_samples (move_pose gauss om pose delta) (live s) w = (ys, w')" by fastforce
  have wt: "map sp_weight ys = map sp_weight (live s)" using move_samples_weights [of "move_pose gauss om pose delta" "live s" w] ys by simp
  then have "length ys = ss_count s" using assms by (metis length_map length_live)
  note s' = live_replaced [OF assms this refl]
  show ?thesis using s' wt ys live_samples_ok [OF assms]
    by (intro exI [of _ "s\<lparr>ss_samples := ys @ drop (ss_count s) (ss_samples s)\<rparr>"] exI [of _ w']) (simp add: update_action_def)
qed

subsection \<open>Logarithms of probabilities\<close>

lemma log_exp_nonneg [simp]: "0 \<le> log_exp l"
  by (cases l) (simp_all add: log_exp_def)

lemma log_exp_zero [simp]: "log_exp (Some 0) = 1"
  by (simp add: log_exp_def)

lemma log_exp_add: "0 \<le> p \<Longrightarrow> log_exp (log_add l p) = log_exp l * p"
  by (cases l) (auto simp: log_add_def log_exp_def exp_add)

subsection \<open>Scaled weights\<close>

definition scaled :: "nat \<Rightarrow> nat \<Rightarrow> laser_run \<Rightarrow> laser_run \<Rightarrow> bool" where
  "scaled j n r r' \<longleftrightarrow> map sp_pose (lr_samples r') = map sp_pose (lr_samples r)
     \<and> (\<forall>i. i < j \<or> j + n \<le> i \<longrightarrow> lr_samples r' ! i = lr_samples r ! i)
     \<and> (\<forall>i < length (lr_samples r). 0 \<le> sp_weight (lr_samples r ! i) \<longrightarrow> 0 \<le> sp_weight (lr_samples r' ! i))
     \<and> lr_tot r' = lr_tot r + (\<Sum>i = j..<j + n. sp_weight (lr_samples r' ! i))"

lemma scaled_length: "scaled j n r r' \<Longrightarrow> length (lr_samples r') = length (lr_samples r)"
  unfolding scaled_def by (metis length_map)

lemma scaled_refl: "lr_samples r' = lr_samples r \<Longrightarrow> lr_tot r' = lr_tot r \<Longrightarrow> scaled j 0 r r'"
  by (simp add: scaled_def)

lemma scaled_step:
  assumes "scale_weight lp j r1 = Some r2" "lr_samples r1 = lr_samples r" "lr_tot r1 = lr_tot r" "scaled (Suc j) n r2 r'"
  shows "scaled j (Suc n) r r'"
proof -
  let ?x = "lr_samples r ! j"
  let ?w = "sp_weight ?x * log_exp lp"
  have j: "j < length (lr_samples r)" and r2: "lr_samples r2 = (lr_samples r)[j := ?x\<lparr>sp_weight := ?w\<rparr>]" "lr_tot r2 = lr_tot r + ?w"
    using assms(1-3) by (auto simp: scale_weight_def Let_def split: bind_splits)
  have "map sp_pose (lr_samples r2) = map sp_pose (lr_samples r)" using j unfolding r2(1) by (simp add: map_update) (metis list_update_id nth_map)
  moreover have rj: "lr_samples r' ! j = ?x\<lparr>sp_weight := ?w\<rparr>" using assms(4) j r2(1) by (simp add: scaled_def)
  moreover have "0 \<le> sp_weight (lr_samples r' ! i)" if "i < length (lr_samples r)" "0 \<le> sp_weight (lr_samples r ! i)" for i
  proof -
    have "0 \<le> sp_weight (lr_samples r2 ! i)" using that by (cases "i = j") (simp_all add: r2(1))
    then show ?thesis using assms(4) that(1) by (simp add: scaled_def r2(1))
  qed
  moreover have "(\<Sum>i = j..<j + Suc n. sp_weight (lr_samples r' ! i)) = ?w + (\<Sum>i = Suc j..<Suc j + n. sp_weight (lr_samples r' ! i))"
    using rj by (subst sum.atLeast_Suc_lessThan) simp_all
  moreover have "lr_samples r' ! i = lr_samples r ! i" if "i < j \<or> j + Suc n \<le> i" for i
    using assms(4) that by (cases "i = j") (auto simp: scaled_def r2(1))
  ultimately show ?thesis using assms(4) unfolding scaled_def r2(2) by simp
qed

lemma weigh_samples_scaled:
  "weigh_samples l m False d step bs [j..<j + n] r = Some r' \<Longrightarrow> scaled j n r r'"
proof (induction n arbitrary: j r)
  case 0
  then show ?case by (simp add: scaled_refl)
next
  case (Suc n)
  have idx: "[j..<j + Suc n] = j # [Suc j..<Suc j + n]" by (simp add: upt_conv_Cons)
  obtain b :: beam_run and r1 r2 where r: "r1 = r\<lparr>lr_counts := br_counts b\<rparr>" "scale_weight (br_log b) j r1 = Some r2"
    "weigh_samples l m False d step bs [Suc j..<Suc j + n] r2 = Some r'"
    using Suc.prems unfolding idx by (auto split: bind_splits)
  show ?case by (rule scaled_step [OF r(2) _ _ Suc.IH [OF r(3)]]) (simp_all add: r(1))
qed

lemma weigh_samples_skip:
  "weigh_samples l m True d step bs js r = Some r' \<Longrightarrow> lr_samples r' = lr_samples r \<and> lr_tot r' = lr_tot r"
proof (induction js arbitrary: r)
  case (Cons j js)
  then obtain r1 where "weigh_samples l m True d step bs js r1 = Some r'" "lr_samples r1 = lr_samples r" "lr_tot r1 = lr_tot r"
    by (auto split: bind_splits)
  then show ?case using Cons.IH by metis
qed simp

lemma integrate_samples_scaled:
  "integrate_samples used bs [j..<j + n] r = Some r' \<Longrightarrow> scaled j n r r'"
proof (induction n arbitrary: j r)
  case 0
  then show ?case by (simp add: scaled_refl)
next
  case (Suc n)
  have idx: "[j..<j + Suc n] = j # [Suc j..<Suc j + n]" by (simp add: upt_conv_Cons)
  obtain lp r2 where r: "scale_weight lp j r = Some r2" "integrate_samples used bs [Suc j..<Suc j + n] r2 = Some r'"
    using Suc.prems unfolding idx by (auto split: bind_splits)
  show ?case by (rule scaled_step [OF r(1) refl refl Suc.IH [OF r(2)]])
qed

lemma scaled_live:
  assumes "scaled 0 (ss_count s) r r'" "lr_samples r = ss_samples s" "lr_tot r = 0" "set_ok m s" "\<forall>x \<in> set (live s). 0 \<le> sp_weight x"
    "s' = s\<lparr>ss_samples := lr_samples r'\<rparr>"
  shows "set_ok m s'" "map sp_pose (live s') = map sp_pose (live s)" "\<forall>x \<in> set (live s'). 0 \<le> sp_weight x" "lr_tot r' = weighted_sum (\<lambda>_. 1) (live s')"
proof -
  have len: "length (lr_samples r') = length (ss_samples s)" using scaled_length [OF assms(1)] assms(2) by simp
  have n: "ss_count s \<le> length (ss_samples s)" using assms(4) by (simp add: set_ok_def)
  show "set_ok m s'" using assms(4,6) len by (simp add: set_ok_def)
  show "map sp_pose (live s') = map sp_pose (live s)" using assms(1,2,6) by (simp add: scaled_def live_def take_map [symmetric])
  have at: "live s' ! i = lr_samples r' ! i" "live s ! i = ss_samples s ! i" if "i < ss_count s" for i using that assms(6) by (simp_all add: live_def)
  have l': "length (live s') = ss_count s" using len n assms(6) by (simp add: live_def)
  show "\<forall>x \<in> set (live s'). 0 \<le> sp_weight x"
  proof
    fix x assume "x \<in> set (live s')"
    then obtain i where i: "i < ss_count s" "x = lr_samples r' ! i" using l' at(1) by (metis in_set_conv_nth)
    have "live s ! i \<in> set (live s)" using i(1) length_live [OF assms(4)] by simp
    then have "0 \<le> sp_weight (ss_samples s ! i)" using assms(5) at(2) [OF i(1)] by metis
    then show "0 \<le> sp_weight x" using assms(1,2) i n by (simp add: scaled_def)
  qed
  have "weighted_sum (\<lambda>_. 1) (live s') = (\<Sum>i = 0..<ss_count s. sp_weight (live s' ! i))"
    unfolding weighted_sum_def by (simp add: sum_list_sum_nth l')
  also have "\<dots> = (\<Sum>i = 0..<ss_count s. sp_weight (lr_samples r' ! i))" by (rule sum.cong) (simp_all add: at)
  finally show "lr_tot r' = weighted_sum (\<lambda>_. 1) (live s')" using assms(1,3) by (simp add: scaled_def)
qed

lemma update_sensor_ok:
  assumes "update_sensor raw d m l s = Some (t, s', l')" "set_ok k s" "\<forall>x \<in> set (live s). 0 \<le> sp_weight x"
  shows "set_ok k s' \<and> map sp_pose (live s') = map sp_pose (live s) \<and> (\<forall>x \<in> set (live s'). 0 \<le> sp_weight x) \<and> ss_count s' = ss_count s
    \<and> (t = weighted_sum (\<lambda>_. 1) (live s') \<or> t = 0)"
proof (cases "lm_max_beams l < 2")
  case True
  then show ?thesis using assms by (simp add: update_sensor_def)
next
  case False
  let ?skip = "lm_do_beamskip l \<and> ss_converged s"
  let ?step = "beam_step (length (ld_ranges d)) (lm_max_beams l)"
  have run: "likelihood_field_model_prob raw d m l s = Some (t, s', l')" using assms(1) False by (simp add: update_sensor_def)
  obtain l1 r r' where r: "weigh_samples l1 m ?skip d ?step [0..<beam_count (length (ld_ranges d)) ?step] [0..<ss_count s]
      \<lparr>lr_samples = ss_samples s, lr_counts = map raw [0..<lm_max_beams l], lr_obs = lm_temp_obs l1, lr_tot = 0\<rparr> = Some r"
    "(if ?skip then integrate_samples (beam_mask l1 (ss_count s) (lr_counts r)) [0..<lm_max_beams l] [0..<ss_count s] r else Some r) = Some r'"
    "t = lr_tot r'" "s' = s\<lparr>ss_samples := lr_samples r'\<rparr>"
    using run unfolding likelihood_field_model_prob_def Let_def by (auto split: bind_splits simp del: weigh_samples.simps)
  define r0 where "r0 = \<lparr>lr_samples = ss_samples s, lr_counts = map raw [0..<lm_max_beams l], lr_obs = lm_temp_obs l1, lr_tot = 0\<rparr>"
  have "scaled 0 (ss_count s) r0 r'"
  proof (cases ?skip)
    case True
    then have "lr_samples r = lr_samples r0" "lr_tot r = lr_tot r0" using r(1) weigh_samples_skip unfolding r0_def by simp_all
    moreover have "scaled 0 (ss_count s) r r'" using r(2) True integrate_samples_scaled [of _ _ 0 "ss_count s"] by simp
    ultimately show ?thesis by (simp add: scaled_def)
  next
    case False
    then have skip: "?skip = False" by simp
    have "weigh_samples l1 m False d ?step [0..<beam_count (length (ld_ranges d)) ?step] [0..<0 + ss_count s] r0 = Some r'"
      using r(1,2) unfolding skip r0_def if_False by simp
    then show ?thesis by (rule weigh_samples_scaled)
  qed
  from scaled_live [OF this _ _ assms(2,3) r(4)] show ?thesis using r(3,4) by (simp add: r0_def)
qed

subsection \<open>The likelihood of a scan\<close>

text \<open>The beam contributes its probability, and 1 if it is not used.\<close>

definition beam_factor :: "laser_model \<Rightarrow> amcl_map \<Rightarrow> laser_data \<Rightarrow> vec3 \<Rightarrow> nat \<Rightarrow> real" where
  "beam_factor l m d pose i =
     (case fst (ld_ranges d ! i) of
        None \<Rightarrow> 1
      | Some z \<Rightarrow> if z \<ge> ld_range_max d then 1
          else (case beam_likelihood l m (ld_range_max d) pose z (snd (ld_ranges d ! i)) of None \<Rightarrow> 1 | Some (p, near) \<Rightarrow> p))"

definition scan_likelihood :: "laser_model \<Rightarrow> amcl_map \<Rightarrow> laser_data \<Rightarrow> nat \<Rightarrow> nat list \<Rightarrow> vec3 \<Rightarrow> real" where
  "scan_likelihood l m d step bs pose = (\<Prod>b \<leftarrow> bs. beam_factor l m d pose (b * step))"

text \<open>Every beam in use ends at a cell whose numbers fit an \<open>int\<close>.\<close>

definition beams_representable :: "amcl_map \<Rightarrow> laser_data \<Rightarrow> vec3 \<Rightarrow> bool" where
  "beams_representable m d pose \<longleftrightarrow> (\<forall>(range, bearing) \<in> set (ld_ranges d). \<forall>z. range = Some z \<longrightarrow> z < ld_range_max d \<longrightarrow>
     coords_to_cell m (vc pose 0 + z * cos (vc pose 2 + bearing)) (vc pose 1 + z * sin (vc pose 2 + bearing)) \<noteq> None)"

definition laser_params_ok :: "laser_model \<Rightarrow> laser_data \<Rightarrow> bool" where
  "laser_params_ok l d \<longleftrightarrow> 0 \<le> lm_z_hit l \<and> 0 \<le> lm_z_rand l \<and> lm_sigma_hit l \<noteq> 0 \<and> 0 < ld_range_max d
     \<and> lm_z_hit l + lm_z_rand l / ld_range_max d \<le> 1"

lemma beam_likelihood_ok:
  assumes p: "laser_params_ok l d" and m: "amcl_map_ok m"
    and c: "coords_to_cell m (vc pose 0 + z * cos (vc pose 2 + bearing)) (vc pose 1 + z * sin (vc pose 2 + bearing)) \<noteq> None"
  shows "\<exists>q near. beam_likelihood l m (ld_range_max d) pose z bearing = Some (q, near) \<and> 0 \<le> q \<and> q \<le> 1"
proof -
  let ?denom = "2 * lm_sigma_hit l * lm_sigma_hit l"
  obtain mi mj where cell: "coords_to_cell m (vc pose 0 + z * cos (vc pose 2 + bearing)) (vc pose 1 + z * sin (vc pose 2 + bearing)) = Some (mi, mj)"
    using c by auto
  have dn: "?denom \<noteq> 0" "0 < ?denom" using p by (auto simp: laser_params_ok_def zero_less_mult_iff)
  have w: "\<exists>q. hit_weight x ?denom = Some q \<and> 0 \<le> q \<and> q \<le> 1" for x using dn by (simp add: hit_weight_def)
  have "\<exists>h near. (if \<not> cell_valid m mi mj then do { q \<leftarrow> hit_weight (am_max_occ_dist m) ?denom; Some (lm_z_hit l * q, False) }
       else do {
         z \<leftarrow> occ_dist m (cell_index m mi mj);
         q \<leftarrow> hit_weight z ?denom;
         Some (lm_z_hit l * q, z < lm_skip_distance l) }) = Some (h, near) \<and> 0 \<le> h \<and> h \<le> lm_z_hit l"
  proof (cases "cell_valid m mi mj")
    case True
    then obtain z' where "occ_dist m (cell_index m mi mj) = Some z'"
      using index_range [OF True] m by (simp add: occ_dist_def amcl_map_ok_def)
    moreover obtain q where "hit_weight z' ?denom = Some q" "0 \<le> q" "q \<le> 1" using w by blast
    ultimately show ?thesis using True p by (simp add: laser_params_ok_def mult_left_le)
  next
    case False
    obtain q where "hit_weight (am_max_occ_dist m) ?denom = Some q" "0 \<le> q" "q \<le> 1" using w by blast
    then show ?thesis using False p by (intro exI [of _ "lm_z_hit l * q"] exI [of _ False]) (simp add: laser_params_ok_def mult_left_le)
  qed
  then obtain h near where h: "(if \<not> cell_valid m mi mj then do { q \<leftarrow> hit_weight (am_max_occ_dist m) ?denom; Some (lm_z_hit l * q, False) }
       else do {
         z \<leftarrow> occ_dist m (cell_index m mi mj);
         q \<leftarrow> hit_weight z ?denom;
         Some (lm_z_hit l * q, z < lm_skip_distance l) }) = Some (h, near)" "0 \<le> h" "h \<le> lm_z_hit l" by blast
  have r: "quotient 1 (ld_range_max d) = Some (1 / ld_range_max d)" "0 \<le> lm_z_rand l / ld_range_max d"
    using p by (simp_all add: laser_params_ok_def quotient_def)
  have "0 \<le> h + lm_z_rand l / ld_range_max d" "h + lm_z_rand l / ld_range_max d \<le> 1" using h(2,3) r(2) p unfolding laser_params_ok_def by linarith+
  moreover from this have "beam_likelihood l m (ld_range_max d) pose z bearing = Some (h + lm_z_rand l / ld_range_max d, near)"
    unfolding beam_likelihood_def Let_def cell using h(1) r(1) by simp
  ultimately show ?thesis by blast
qed

lemma add_beams_ok:
  assumes p: "laser_params_ok l d" and m: "amcl_map_ok m" and rep: "beams_representable m d pose"
    and b: "\<forall>b \<in> set bs. b * step < length (ld_ranges d) \<and> b < length (br_counts r)"
  shows "\<exists>r'. add_beams l m False d step pose bs r = Some r' \<and> length (br_counts r') = length (br_counts r)
    \<and> log_exp (br_log r') = log_exp (br_log r) * scan_likelihood l m d step bs pose"
  using b
proof (induction bs arbitrary: r)
  case Nil
  then show ?case by (simp add: scan_likelihood_def)
next
  case (Cons b bs)
  let ?i = "b * step"
  obtain range bearing where rb: "ld_ranges d ! ?i = (range, bearing)" by fastforce
  have i: "?i < length (ld_ranges d)" "b < length (br_counts r)" using Cons.prems by simp_all
  have "\<exists>r1. add_beam l m False (ld_range_max d) pose (range, bearing) b r = Some r1
       \<and> length (br_counts r1) = length (br_counts r) \<and> log_exp (br_log r1) = log_exp (br_log r) * beam_factor l m d pose ?i"
  proof (cases "range = None \<or> (\<exists>z. range = Some z \<and> z \<ge> ld_range_max d)")
    case True
    then show ?thesis using rb by (auto simp: beam_factor_def add_beam_def)
  next
    case False
    then obtain z where z: "range = Some z" "z < ld_range_max d" by (cases range) auto
    have "(range, bearing) \<in> set (ld_ranges d)" using i(1) rb by (metis nth_mem)
    then have "coords_to_cell m (vc pose 0 + z * cos (vc pose 2 + bearing)) (vc pose 1 + z * sin (vc pose 2 + bearing)) \<noteq> None"
      using rep z unfolding beams_representable_def by blast
    from beam_likelihood_ok [OF p m this]
    obtain q near where q: "beam_likelihood l m (ld_range_max d) pose z bearing = Some (q, near)" "0 \<le> q" by blast
    then show ?thesis using z rb i(2) log_exp_add [OF q(2)] by (cases near) (simp_all add: beam_factor_def add_beam_def)
  qed
  then obtain r1 where r1: "add_beam l m False (ld_range_max d) pose (range, bearing) b r = Some r1"
    "length (br_counts r1) = length (br_counts r)" "log_exp (br_log r1) = log_exp (br_log r) * beam_factor l m d pose ?i" by blast
  have "\<forall>b \<in> set bs. b * step < length (ld_ranges d) \<and> b < length (br_counts r1)" using Cons.prems r1(2) by simp
  then obtain r' where r': "add_beams l m False d step pose bs r1 = Some r'" "length (br_counts r') = length (br_counts r1)"
    "log_exp (br_log r') = log_exp (br_log r1) * scan_likelihood l m d step bs pose" using Cons.IH by blast
  have "add_beams l m False d step pose (b # bs) r = Some r'" using i(1) rb r1(1) r'(1) by simp
  then show ?case using r'(2,3) r1(2,3) by (simp add: scan_likelihood_def mult.assoc)
qed

lemma beam_bounds:
  assumes "0 < k" "b < beam_count n (beam_step n k)"
  shows "b * beam_step n k < n" "b < k"
proof -
  let ?s = "beam_step n k"
  have s: "1 \<le> ?s" by (simp add: beam_step_def)
  have "b + 1 \<le> (n + ?s - 1) div ?s" using assms(2) by (simp add: beam_count_def)
  then have "(b + 1) * ?s \<le> n + ?s - 1" using s by (metis div_times_less_eq_dividend le_trans mult_le_mono1)
  then show b: "b * ?s < n" using s by simp
  have "n \<le> k * ((n + k - 1) div k)"
  proof -
    have "n + k - 1 < k * ((n + k - 1) div k) + k" using assms(1) by (metis add.commute mult_div_mod_eq mod_less_divisor nat_add_left_cancel_less)
    then show ?thesis by linarith
  qed
  also have "\<dots> \<le> k * ?s" by (simp add: beam_step_def)
  finally have "b * ?s < k * ?s" using b by linarith
  then show "b < k" by simp
qed

lemma weigh_samples_ok:
  assumes p: "laser_params_ok l d" and m: "amcl_map_ok m"
    and b: "\<forall>b \<in> set bs. b * step < length (ld_ranges d) \<and> b < k"
    and "length (lr_counts r) = k" "j + n \<le> length (lr_samples r)"
    "\<forall>i. j \<le> i \<longrightarrow> i < j + n \<longrightarrow> beams_representable m d (coord_add (lm_pose l) (sp_pose (lr_samples r ! i)))"
  shows "\<exists>r'. weigh_samples l m False d step bs [j..<j + n] r = Some r'
    \<and> (\<forall>i. j \<le> i \<longrightarrow> i < j + n \<longrightarrow> sp_weight (lr_samples r' ! i)
        = sp_weight (lr_samples r ! i) * scan_likelihood l m d step bs (coord_add (lm_pose l) (sp_pose (lr_samples r ! i))))"
  using assms(4-)
proof (induction n arbitrary: j r)
  case (Suc n)
  have idx: "[j..<j + Suc n] = j # [Suc j..<Suc j + n]" by (simp add: upt_conv_Cons)
  let ?x = "lr_samples r ! j"
  let ?b = "\<lparr>br_log = Some 0, br_counts = lr_counts r, br_row = []\<rparr>"
  let ?like = "\<lambda>x. scan_likelihood l m d step bs (coord_add (lm_pose l) (sp_pose x))"
  have j: "j < length (lr_samples r)" using Suc.prems(2) by simp
  have "beams_representable m d (coord_add (lm_pose l) (sp_pose ?x))" using Suc.prems(3) by simp
  moreover have "\<forall>b \<in> set bs. b * step < length (ld_ranges d) \<and> b < length (br_counts ?b)" using b Suc.prems(1) by simp
  ultimately obtain br where br: "add_beams l m False d step (coord_add (lm_pose l) (sp_pose ?x)) bs ?b = Some br"
    "length (br_counts br) = length (br_counts ?b)" "log_exp (br_log br) = log_exp (br_log ?b) * ?like ?x"
    using add_beams_ok [OF p m] by blast
  let ?r = "r\<lparr>lr_counts := br_counts br, lr_samples := (lr_samples r)[j := ?x\<lparr>sp_weight := sp_weight ?x * log_exp (br_log br)\<rparr>],
    lr_tot := lr_tot r + sp_weight ?x * log_exp (br_log br)\<rparr>"
  have step: "weigh_samples l m False d step bs [j..<j + Suc n] r = weigh_samples l m False d step bs [Suc j..<Suc j + n] ?r"
    unfolding idx using j br(1) by (simp add: scale_weight_def Let_def)
  have "length (lr_counts ?r) = k" "Suc j + n \<le> length (lr_samples ?r)"
    "\<forall>i. Suc j \<le> i \<longrightarrow> i < Suc j + n \<longrightarrow> beams_representable m d (coord_add (lm_pose l) (sp_pose (lr_samples ?r ! i)))"
    using Suc.prems br(2) by simp_all
  from Suc.IH [OF this]
  obtain r' where r': "weigh_samples l m False d step bs [Suc j..<Suc j + n] ?r = Some r'"
    "\<forall>i. Suc j \<le> i \<longrightarrow> i < Suc j + n \<longrightarrow> sp_weight (lr_samples r' ! i) = sp_weight (lr_samples ?r ! i) * ?like (lr_samples ?r ! i)" by blast
  have "lr_samples r' ! j = lr_samples ?r ! j" using weigh_samples_scaled [OF r'(1)] by (simp add: scaled_def)
  then have "sp_weight (lr_samples r' ! j) = sp_weight ?x * ?like ?x" using j br(3) by simp
  moreover have "sp_weight (lr_samples r' ! i) = sp_weight (lr_samples r ! i) * ?like (lr_samples r ! i)" if "Suc j \<le> i" "i < Suc j + n" for i
    using r'(2) that by simp
  ultimately have "\<forall>i. j \<le> i \<longrightarrow> i < j + Suc n \<longrightarrow> sp_weight (lr_samples r' ! i) = sp_weight (lr_samples r ! i) * ?like (lr_samples r ! i)"
    by (metis add_Suc_right add_Suc_shift le_antisym not_less_eq_eq)
  then show ?case using step r'(1) by (intro exI [of _ r']) simp
qed simp

lemma update_sensor_weighs:
  assumes "set_ok k s" "amcl_map_ok m" "laser_params_ok l d" "2 \<le> lm_max_beams l" "\<not> (lm_do_beamskip l \<and> ss_converged s)"
    "\<forall>x \<in> set (live s). 0 \<le> sp_weight x \<and> beams_representable m d (coord_add (lm_pose l) (sp_pose x))"
  shows "\<exists>t s' l'. update_sensor raw d m l s = Some (t, s', l') \<and> t = weighted_sum (\<lambda>_. 1) (live s') \<and> map sp_pose (live s') = map sp_pose (live s)
    \<and> map sp_weight (live s') = map (\<lambda>x. sp_weight x * scan_likelihood l m d (beam_step (length (ld_ranges d)) (lm_max_beams l))
         [0..<beam_count (length (ld_ranges d)) (beam_step (length (ld_ranges d)) (lm_max_beams l))] (coord_add (lm_pose l) (sp_pose x))) (live s)"
proof -
  let ?step = "beam_step (length (ld_ranges d)) (lm_max_beams l)"
  let ?bs = "[0..<beam_count (length (ld_ranges d)) ?step]"
  let ?like = "\<lambda>x. scan_likelihood l m d ?step ?bs (coord_add (lm_pose l) (sp_pose x))"
  let ?r = "\<lparr>lr_samples = ss_samples s, lr_counts = map raw [0..<lm_max_beams l], lr_obs = lm_temp_obs l, lr_tot = 0\<rparr>"
  have n: "ss_count s \<le> length (ss_samples s)" using assms(1) by (simp add: set_ok_def)
  have live: "live s ! i = ss_samples s ! i" if "i < ss_count s" for i using that by (simp add: live_def)
  have "0 < lm_max_beams l" using assms(4) by simp
  then have b: "\<forall>b \<in> set ?bs. b * ?step < length (ld_ranges d) \<and> b < lm_max_beams l" using beam_bounds by simp
  have sizes: "length (lr_counts ?r) = lm_max_beams l" "0 + ss_count s \<le> length (lr_samples ?r)" using n by simp_all
  have beams: "\<forall>i. 0 \<le> i \<longrightarrow> i < 0 + ss_count s \<longrightarrow> beams_representable m d (coord_add (lm_pose l) (sp_pose (lr_samples ?r ! i)))"
  proof (intro allI impI)
    fix i assume "i < 0 + ss_count s"
    then have i: "i < ss_count s" by simp
    then have "live s ! i \<in> set (live s)" using length_live [OF assms(1)] by simp
    then show "beams_representable m d (coord_add (lm_pose l) (sp_pose (lr_samples ?r ! i)))" using assms(6) unfolding live [OF i] by simp
  qed
  obtain r where r: "weigh_samples l m False d ?step ?bs [0..<0 + ss_count s] ?r = Some r"
    "\<forall>i. 0 \<le> i \<longrightarrow> i < 0 + ss_count s \<longrightarrow> sp_weight (lr_samples r ! i) = sp_weight (lr_samples ?r ! i) * ?like (lr_samples ?r ! i)"
    using weigh_samples_ok [OF assms(3,2) b sizes beams] by blast
  let ?s = "s\<lparr>ss_samples := lr_samples r\<rparr>"
  have skip: "(lm_do_beamskip l \<and> ss_converged s) = False" using assms(5) by simp
  have run: "update_sensor raw d m l s = Some (lr_tot r, ?s, l\<lparr>lm_temp_obs := lr_obs r\<rparr>)"
    using assms(4) r(1) by (simp add: update_sensor_def likelihood_field_model_prob_def Let_def skip)
  have sc: "scaled 0 (ss_count s) ?r r" using weigh_samples_scaled [OF r(1)] .
  have nn: "\<forall>x \<in> set (live s). 0 \<le> sp_weight x" using assms(6) by blast
  note sl = scaled_live [OF sc _ _ assms(1) nn refl]
  have "map sp_weight (live ?s) = map (\<lambda>x. sp_weight x * ?like x) (live s)"
  proof (rule nth_equalityI)
    show len: "length (map sp_weight (live ?s)) = length (map (\<lambda>x. sp_weight x * ?like x) (live s))"
      using sl(2) by (metis length_map laser_run.select_convs(1,4))
    fix i assume "i < length (map sp_weight (live ?s))"
    then have i: "i < ss_count s" using len length_live [OF assms(1)] by simp
    then show "map sp_weight (live ?s) ! i = map (\<lambda>x. sp_weight x * ?like x) (live s) ! i"
      using r(2) len length_live [OF assms(1)] live [OF i] by (simp add: live_def)
  qed
  then show ?thesis using run sl by (intro exI [of _ "lr_tot r"] exI [of _ ?s] exI [of _ "l\<lparr>lm_temp_obs := lr_obs r\<rparr>"]) simp
qed

subsection \<open>Properties\<close>


definition two_samples :: sample_set where
  "two_samples = new_sample_set 2"

definition small_amcl_map :: amcl_map where
  "small_amcl_map = \<lparr>am_size_x = 1, am_size_y = 1, am_scale = 1, am_origin_x = 0, am_origin_y = 0, am_max_x_distance = 1, am_max_y_distance = 1,
     am_diag_distance = sqrt 2, am_max_occ_dist = 2, am_cells = [\<lparr>ac_state = 1, ac_dist = 0\<rparr>]\<rparr>"

definition small_laser :: laser_model where
  "small_laser = \<lparr>lm_pose = (0, 0, 0), lm_max_beams = 30, lm_do_beamskip = False, lm_skip_distance = 0.5, lm_skip_threshold = 0.3,
     lm_skip_error_threshold = 0.9, lm_max_samples = 0, lm_max_obs = 0, lm_temp_obs = [], lm_z_hit = 0.5, lm_z_rand = 0.5, lm_sigma_hit = 0.2, lm_filter_weight = 0.4\<rparr>"

definition one_beam :: laser_data where
  "one_beam = \<lparr>ld_range_max = 8, ld_ranges = [(Some 1, 0), (None, 0)]\<rparr>"


end
