(* ===== verification/Amcl.thy ===== *)
theory Amcl
  imports FilterResample AmclLaser
begin

text \<open>
  The localisation of the robot, \<open>amcl.cpp\<close>: it holds the map, the particle filter and the sensor models, moves and
  weighs the particles with every laser scan, resamples them now and then, and takes the heaviest cluster for the pose of the robot.

  What comes from outside is in the record \<open>chance\<close>: random numbers, the eigenvalue decomposition, the choice
  among equal elements of a priority queue, the order in which a sort leaves equal elements, and what uninitialised memory holds. A pose or a covariance may contain values that are
  not numbers (\<open>None\<close>). The lock and the conversion of the particles to messages are not modelled.
\<close>

subsection \<open>The state\<close>

record 'w chance =
  ch_drand :: "'w \<Rightarrow> real \<times> 'w"
  ch_gauss :: "real \<Rightarrow> 'w \<Rightarrow> real \<times> 'w"
  ch_eigen :: "mat \<Rightarrow> mat \<times> vec3"
  ch_pick :: "(queue_cell \<Rightarrow> real) \<Rightarrow> queue_cell list \<Rightarrow> queue_cell"
  ch_sort :: "sample list \<Rightarrow> sample list"
  ch_raw_laser :: laser_model
  ch_raw_counts :: "nat \<Rightarrow> int"

record amcl_config =
  ac_min_particles :: nat
  ac_max_particles :: nat
  ac_alpha_slow :: real
  ac_alpha_fast :: real
  ac_kld_err :: real
  ac_kld_z :: real
  ac_update_min_d :: real
  ac_update_min_a :: real
  ac_max_uwb_particles :: int
  ac_resample_uwb_factor :: real
  ac_uwb_cov_x :: real
  ac_uwb_cov_y :: real
  ac_use_global_localization :: bool
  ac_random_heading :: bool
  ac_odom :: odom_model
  ac_laser_max_beams :: nat
  ac_laser :: laser_params

record amcl =
  mc_max_uwb_particles :: int
  mc_uwb_cov_x :: real
  mc_uwb_cov_y :: real
  mc_resample_uwb_factor :: real
  mc_d_thresh :: real
  mc_a_thresh :: real
  mc_resample_interval :: int
  mc_resample_count :: int
  mc_laser_min_range :: real
  mc_laser_max_range :: real
  mc_total_weight :: real
  mc_init_pose :: vec3
  mc_init_cov :: vec3
  mc_hyp :: "(vec3 \<times> mat) option"
  mc_odom_pose :: vec3
  mc_map :: "amcl_map option"
  mc_pf :: "particle_filter option"
  mc_pf_init :: bool
  mc_laser_model :: "laser_model option"
  mc_odom_model :: "odom_model option"
  mc_use_global :: bool
  mc_random_heading :: bool
  mc_free :: "(int \<times> int) list"
  mc_laser_update :: bool
  mc_resampled :: bool
  mc_force_publication :: bool
  mc_publish_cloud :: bool
  mc_publish_pose :: bool
  mc_update_tf :: bool

type_synonym maybe_vec3 = "real option \<times> real option \<times> real option"

definition or_else :: "real option \<Rightarrow> real \<Rightarrow> real" where
  "or_else x d = (case x of None \<Rightarrow> d | Some v \<Rightarrow> v)"

definition update_pose_from_param :: "maybe_vec3 \<Rightarrow> maybe_vec3 \<Rightarrow> amcl \<Rightarrow> amcl" where
  "update_pose_from_param init_pose init_cov a =
     (case (init_pose, init_cov) of ((x, y, z), (cx, cy, cz)) \<Rightarrow>
        a\<lparr>mc_init_pose := (or_else x 0, or_else y 0, or_else z 0),
          mc_init_cov := (or_else cx (0.5 * 0.5), or_else cy (0.5 * 0.5), or_else cz ((pi / 12) * (pi / 12)))\<rparr>)"

text \<open>\<open>Init\<close>; a configuration with too many particles for the radio beacons ends the program.\<close>

definition amcl_init :: "amcl_config \<Rightarrow> maybe_vec3 \<Rightarrow> maybe_vec3 \<Rightarrow> amcl \<Rightarrow> amcl option" where
  "amcl_init cfg init_pose init_cov a =
     (if int (ac_max_particles cfg) > ac_max_uwb_particles cfg
      then Some (update_pose_from_param init_pose init_cov
        (a\<lparr>mc_d_thresh := ac_update_min_d cfg, mc_a_thresh := ac_update_min_a cfg, mc_max_uwb_particles := ac_max_uwb_particles cfg,
           mc_resample_uwb_factor := ac_resample_uwb_factor cfg, mc_uwb_cov_x := ac_uwb_cov_x cfg, mc_uwb_cov_y := ac_uwb_cov_y cfg,
           mc_use_global := ac_use_global_localization cfg, mc_random_heading := ac_random_heading cfg\<rparr>))
      else None)"

subsection \<open>Initial poses\<close>

text \<open>A random pose: a free cell of the map and any heading.\<close>

definition uniform_pose_generator :: "'w chance \<Rightarrow> amcl_map \<Rightarrow> (int \<times> int) list \<Rightarrow> 'w \<Rightarrow> (vec3 \<times> 'w) option" where
  "uniform_pose_generator ch m free w =
     (let (r, w1) = ch_drand ch w in do {
        cell \<leftarrow> at_int free \<lfloor>r * real (length free)\<rfloor>;
        let (x, y) = cell_to_coords m (fst cell) (snd cell);
        let (h, w2) = ch_drand ch w1;
        Some ((x, y, h * 2 * pi - pi), w2) })"

definition diagonal_cov :: "vec3 \<Rightarrow> mat" where
  "diagonal_cov v = mat_set 0 0 (vc v 0) (mat_set 1 1 (vc v 1) (mat_set 2 2 (vc v 2) zero_mat))"

definition apply_init_pose :: "'w chance \<Rightarrow> amcl \<Rightarrow> 'w \<Rightarrow> (amcl \<times> 'w) option" where
  "apply_init_pose ch a w =
     (case (mc_hyp a, mc_map a) of
        (Some (mean, cov), Some m) \<Rightarrow> do {
          p \<leftarrow> mc_pf a;
          (p', w') \<leftarrow> init_by_guassian (ch_eigen ch) (ch_gauss ch) mean cov p w;
          Some (a\<lparr>mc_pf := Some p', mc_pf_init := False, mc_hyp := None\<rparr>, w') }
      | _ \<Rightarrow> Some (a, w))"

definition handle_initial_pose :: "'w chance \<Rightarrow> vec3 \<Rightarrow> mat \<Rightarrow> amcl \<Rightarrow> 'w \<Rightarrow> (amcl \<times> 'w) option" where
  "handle_initial_pose ch mean cov a w = apply_init_pose ch (a\<lparr>mc_hyp := Some (mean, cov)\<rparr>) w"

definition global_localization :: "'w chance \<Rightarrow> amcl \<Rightarrow> 'w \<Rightarrow> (amcl \<times> 'w) option" where
  "global_localization ch a w =
     (case mc_map a of
        None \<Rightarrow> Some (a, w)
      | Some m \<Rightarrow> do {
          p \<leftarrow> mc_pf a;
          (p', w') \<leftarrow> init_by_model (uniform_pose_generator ch m (mc_free a)) p w;
          Some (a\<lparr>mc_pf := Some p', mc_pf_init := False\<rparr>, w') })"

definition random_heading_global_localization :: "'w chance \<Rightarrow> amcl \<Rightarrow> 'w \<Rightarrow> (bool \<times> amcl \<times> 'w) option" where
  "random_heading_global_localization ch a w =
     (case mc_map a of
        None \<Rightarrow> Some (False, a, w)
      | Some m \<Rightarrow> do {
          p \<leftarrow> mc_pf a;
          (p', w') \<leftarrow> init_by_guassian_with_random_heading (ch_eigen ch) (ch_gauss ch) (ch_drand ch) (mc_init_pose a) (diagonal_cov (mc_init_cov a)) p w;
          Some (True, a\<lparr>mc_pf := Some p', mc_pf_init := False\<rparr>, w') })"

definition set_laser_sensor_pose :: "vec3 \<Rightarrow> amcl \<Rightarrow> amcl option" where
  "set_laser_sensor_pose pose a = do {
     l \<leftarrow> mc_laser_model a;
     Some (a\<lparr>mc_laser_update := True, mc_laser_model := Some (set_laser_pose pose l)\<rparr>) }"

subsection \<open>The arrival of a map\<close>

primrec free_cells :: "amcl_map \<Rightarrow> (int \<times> int) list \<Rightarrow> (int \<times> int) list option" where
  "free_cells m [] = Some []"
| "free_cells m (ij # ijs) = do {
     free \<leftarrow> index_free m (fst ij) (snd ij);
     rest \<leftarrow> free_cells m ijs;
     Some (if free then ij # rest else rest) }"

definition amcl_reset :: "amcl \<Rightarrow> amcl" where
  "amcl_reset a = a\<lparr>mc_map := None, mc_pf := None\<rparr>"

definition handle_map_message :: "'w chance \<Rightarrow> amcl_config \<Rightarrow> occupancy_grid \<Rightarrow> maybe_vec3 \<Rightarrow> maybe_vec3 \<Rightarrow> amcl \<Rightarrow> 'w \<Rightarrow> (amcl \<times> 'w) option" where
  "handle_map_message ch cfg msg init_pose init_cov a w = do {
     m \<leftarrow> map_from_msg msg;
     free \<leftarrow> free_cells m (all_cells m);
     let p = set_kld_param (ac_kld_err cfg) (ac_kld_z cfg)
       (new_filter (ac_min_particles cfg) (ac_max_particles cfg) (ac_alpha_slow cfg) (ac_alpha_fast cfg));
     let a1 = update_pose_from_param init_pose init_cov ((amcl_reset a)\<lparr>mc_free := free\<rparr>);
     (p1, w1) \<leftarrow> init_by_guassian (ch_eigen ch) (ch_gauss ch) (mc_init_pose a1) (diagonal_cov (mc_init_cov a1)) p w;
     (l, m') \<leftarrow> set_model_likelihood_field_prob (ch_pick ch) (ac_laser cfg) (new_laser_model (ch_raw_laser ch) (ac_laser_max_beams cfg)) m;
     let a2 = a1\<lparr>mc_map := Some m', mc_pf := Some p1, mc_pf_init := False, mc_odom_model := Some (ac_odom cfg), mc_laser_model := Some l\<rparr>;
     if mc_use_global a2 then global_localization ch a2 w1
     else if mc_random_heading a2 then do { (_, r) \<leftarrow> random_heading_global_localization ch a2 w1; Some r }
     else apply_init_pose ch a2 w1 }"

text \<open>\<open>on_current\<close> works on the current set of the filter in place.\<close>

definition on_current :: "(sample_set \<Rightarrow> (sample_set \<times> 'b) option) \<Rightarrow> particle_filter \<Rightarrow> (particle_filter \<times> 'b) option" where
  "on_current f p = do {
     s \<leftarrow> at_opt (pf_sets p) (pf_current p);
     (s', r) \<leftarrow> f s;
     Some (p\<lparr>pf_sets := (pf_sets p)[pf_current p := s']\<rparr>, r) }"

subsection \<open>The radio beacon\<close>

primrec thread :: "('a \<Rightarrow> 'w \<Rightarrow> 'b \<times> 'w) \<Rightarrow> 'a list \<Rightarrow> 'w \<Rightarrow> 'b list \<times> 'w" where
  "thread f [] w = ([], w)"
| "thread f (x # xs) w = (let (y, w1) = f x w; (ys, w2) = thread f xs w1 in (y # ys, w2))"

text \<open>A pose near the beacon, with the given deviation and heading.\<close>

definition near_uwb :: "'w chance \<Rightarrow> amcl \<Rightarrow> vec3 \<Rightarrow> real \<Rightarrow> real \<Rightarrow> 'w \<Rightarrow> vec3 \<times> 'w" where
  "near_uwb ch a uwb heading deviation w =
     (let (r0, w1) = ch_gauss ch (mc_uwb_cov_x a) w; (r1, w2) = ch_gauss ch (mc_uwb_cov_y a) w1; (r2, w3) = ch_gauss ch deviation w2
      in ((vc uwb 0 + r0, vc uwb 1 + r1, heading + r2), w3))"

definition uwb_distance :: "vec3 \<Rightarrow> sample \<Rightarrow> real" where
  "uwb_distance uwb x = euclidean_distance (vc uwb 0) (vc uwb 1) (vc (sp_pose x) 0) (vc (sp_pose x) 1)"

text \<open>A sample that is too far from the beacon is moved there. With a factor of 0 none is too far.\<close>

definition pull_sample :: "'w chance \<Rightarrow> amcl \<Rightarrow> amcl_map \<Rightarrow> vec3 \<Rightarrow> sample \<Rightarrow> 'w \<Rightarrow> sample \<times> 'w" where
  "pull_sample ch a m uwb x w =
     (if mc_resample_uwb_factor a \<noteq> 0 \<and> uwb_distance uwb x > am_diag_distance m / mc_resample_uwb_factor a
      then (let (pose, w1) = near_uwb ch a uwb (vc uwb 2) ((pi / 3) * (pi / 3)) w in (x\<lparr>sp_pose := pose\<rparr>, w1))
      else (x, w))"

definition nudge_sample :: "'w chance \<Rightarrow> amcl \<Rightarrow> vec3 \<Rightarrow> sample \<Rightarrow> 'w \<Rightarrow> sample \<times> 'w" where
  "nudge_sample ch a uwb x w = (let (pose, w1) = near_uwb ch a uwb (vc (sp_pose x) 2) ((pi / 12) * (pi / 12)) w in (x\<lparr>sp_pose := pose\<rparr>, w1))"

definition uwb_samples :: "'w chance \<Rightarrow> amcl \<Rightarrow> amcl_map \<Rightarrow> vec3 \<Rightarrow> sample_set \<Rightarrow> 'w \<Rightarrow> (sample_set \<times> 'w) option" where
  "uwb_samples ch a m uwb s w = do {
     xs \<leftarrow> live_samples s;
     let (ys, w1) = thread (pull_sample ch a m uwb) xs w;
     let tot = sum_list (map (uwb_distance uwb) ys);
     if \<not> tot > 0 then None
     else do {
       let zs = ch_sort ch (map (\<lambda>y. y\<lparr>sp_weight := sp_weight y * ((tot - uwb_distance uwb y) / tot)\<rparr>) ys) @ drop (ss_count s) (ss_samples s);
       let n = nat (if mc_max_uwb_particles a \<le> 0 then 1 else mc_max_uwb_particles a);
       if length zs < n then None
       else (let (us, w2) = thread (nudge_sample ch a uwb) (take n zs) w1 in Some (s\<lparr>ss_samples := us @ drop n zs\<rparr>, w2)) } }"

definition update_uwb :: "'w chance \<Rightarrow> vec3 \<Rightarrow> amcl \<Rightarrow> 'w \<Rightarrow> (amcl \<times> 'w) option" where
  "update_uwb ch uwb a w = do {
     p \<leftarrow> mc_pf a;
     m \<leftarrow> mc_map a;
     (p', w') \<leftarrow> on_current (\<lambda>s. uwb_samples ch a m uwb s w) p;
     Some (a\<lparr>mc_pf := Some p'\<rparr>, w') }"

definition update_uwb_cov :: "'w chance \<Rightarrow> vec3 \<Rightarrow> vec3 \<Rightarrow> amcl \<Rightarrow> 'w \<Rightarrow> (amcl \<times> 'w) option" where
  "update_uwb_cov ch uwb cov a w = update_uwb ch uwb (a\<lparr>mc_uwb_cov_x := vc cov 0, mc_uwb_cov_y := vc cov 1\<rparr>) w"

subsection \<open>A laser scan\<close>

record laser_scan =
  ls_range_min :: real
  ls_range_max :: real
  ls_ranges :: "real option list"

definition update_odom_pose_data :: "'w chance \<Rightarrow> vec3 \<Rightarrow> amcl \<Rightarrow> 'w \<Rightarrow> (amcl \<times> 'w) option" where
  "update_odom_pose_data ch pose a w =
     (let delta = (if mc_pf_init a
            then (vc pose 0 - vc (mc_odom_pose a) 0, vc pose 1 - vc (mc_odom_pose a) 1, angle_diff (vc pose 2) (vc (mc_odom_pose a) 2))
            else (0, 0, 0));
          moved = (\<bar>vc delta 0\<bar> > mc_d_thresh a \<or> \<bar>vc delta 1\<bar> > mc_d_thresh a \<or> \<bar>vc delta 2\<bar> > mc_a_thresh a);
          a1 = (if mc_pf_init a \<and> moved then a\<lparr>mc_laser_update := True\<rparr> else a)\<lparr>mc_force_publication := False\<rparr>
      in if \<not> mc_pf_init a1
         then Some (a1\<lparr>mc_odom_pose := pose, mc_pf_init := True, mc_laser_update := True, mc_force_publication := True, mc_resample_count := 0\<rparr>, w)
         else if mc_laser_update a1
         then do {
           om \<leftarrow> mc_odom_model a1;
           p \<leftarrow> mc_pf a1;
           (p', w') \<leftarrow> on_current (\<lambda>s. update_action (ch_gauss ch) om pose delta s w) p;
           Some (a1\<lparr>mc_pf := Some p'\<rparr>, w') }
         else Some (a1, w))"

text \<open>The scan as the sensor model gets it: readings that are too short count as the largest range.\<close>

definition make_laser_data :: "amcl \<Rightarrow> laser_scan \<Rightarrow> real \<Rightarrow> real \<Rightarrow> laser_data" where
  "make_laser_data a scan angle_min angle_increment =
     (let range_max = (if mc_laser_max_range a > 0 then min (ls_range_max scan) (mc_laser_max_range a) else ls_range_max scan);
          range_min = (if mc_laser_min_range a > 0 then max (ls_range_min scan) (mc_laser_min_range a) else ls_range_min scan)
      in \<lparr>ld_range_max = range_max,
          ld_ranges = map (\<lambda>i. (map_option (\<lambda>z. if z \<le> range_min then range_max else z) (ls_ranges scan ! i), angle_min + real i * angle_increment))
            [0..<length (ls_ranges scan)]\<rparr>)"

definition resample_particles :: "'w chance \<Rightarrow> amcl \<Rightarrow> 'w \<Rightarrow> (vec3 list \<times> amcl \<times> 'w) option" where
  "resample_particles ch a w = do {
     p \<leftarrow> mc_pf a;
     m \<leftarrow> mc_map a;
     let a1 = a\<lparr>mc_resample_count := mc_resample_count a + 1\<rparr>;
     (p', a2, w') \<leftarrow> (if mc_resample_interval a = 0 then None
       else if mc_resample_count a1 mod mc_resample_interval a = 0 then do {
         (p', w') \<leftarrow> update_resample (ch_drand ch) (uniform_pose_generator ch m (mc_free a)) p w;
         Some (p', a1\<lparr>mc_resampled := True\<rparr>, w') }
       else Some (p, a1, w));
     s \<leftarrow> at_opt (pf_sets p') (pf_current p');
     xs \<leftarrow> live_samples s;
     Some (map sp_pose xs, a2\<lparr>mc_pf := Some p', mc_publish_cloud := True\<rparr>, w') }"

definition update_laser :: "'w chance \<Rightarrow> laser_scan \<Rightarrow> real \<Rightarrow> real \<Rightarrow> vec3 \<Rightarrow> amcl \<Rightarrow> 'w \<Rightarrow> (vec3 list \<times> amcl \<times> 'w) option" where
  "update_laser ch scan angle_min angle_increment pose a w = do {
     l \<leftarrow> mc_laser_model a;
     p \<leftarrow> mc_pf a;
     m \<leftarrow> mc_map a;
     let d = make_laser_data a scan angle_min angle_increment;
     (p1, total_weight, l') \<leftarrow> on_current (\<lambda>s. do { (t, s', l') \<leftarrow> update_sensor (ch_raw_counts ch) d m l s; Some (s', t, l') }) p;
     p2 \<leftarrow> update_omega total_weight p1;
     resample_particles ch (a\<lparr>mc_laser_model := Some l', mc_total_weight := total_weight, mc_pf := Some p2, mc_laser_update := False, mc_odom_pose := pose\<rparr>) w }"

text \<open>The heaviest of the clusters, from the first one on; a later one has to be heavier.\<close>

primrec best_hypothesis :: "particle_filter \<Rightarrow> nat list \<Rightarrow> real \<times> (vec3 \<times> mat) option \<Rightarrow> (real \<times> (vec3 \<times> mat) option) option" where
  "best_hypothesis p [] best = Some best"
| "best_hypothesis p (k # ks) best = do {
     r \<leftarrow> get_cluster_statistics k p;
     case r of
       None \<Rightarrow> Some best
     | Some (weight, mean, cov) \<Rightarrow> best_hypothesis p ks (if weight > fst best then (weight, Some (mean, cov)) else best) }"

definition update_filter :: "amcl \<Rightarrow> ((vec3 \<times> mat) option \<times> amcl) option" where
  "update_filter a =
     (if mc_resampled a \<or> mc_force_publication a then do {
        p \<leftarrow> mc_pf a;
        p' \<leftarrow> (if \<not> mc_resampled a then filter_statistics p else Some p);
        s \<leftarrow> at_opt (pf_sets p') (pf_current p');
        (max_weight, hyp) \<leftarrow> best_hypothesis p' [0..<nat (ss_cluster_count s)] (0, None);
        case hyp of
          Some (mean, cov) \<Rightarrow> Some (Some (mean, ss_cov s), a\<lparr>mc_pf := Some p', mc_publish_pose := True, mc_update_tf := True\<rparr>)
        | None \<Rightarrow> Some (None, a\<lparr>mc_pf := Some p', mc_publish_pose := False, mc_update_tf := False\<rparr>) }
      else Some (None, a\<lparr>mc_update_tf := False, mc_publish_pose := True\<rparr>))"

definition clear_flags :: "amcl \<Rightarrow> amcl" where
  "clear_flags a = a\<lparr>mc_publish_pose := False, mc_publish_cloud := False, mc_update_tf := False\<rparr>"

text \<open>The result: the poses of the particles, if they changed, and the pose of the robot with its covariance, if there is one.\<close>

definition amcl_update ::
  "'w chance \<Rightarrow> vec3 \<Rightarrow> laser_scan \<Rightarrow> real \<Rightarrow> real \<Rightarrow> amcl \<Rightarrow> 'w \<Rightarrow> (vec3 list option \<times> (vec3 \<times> mat) option \<times> amcl \<times> 'w) option" where
  "amcl_update ch pose scan angle_min angle_increment a w = do {
     (a1, w1) \<leftarrow> update_odom_pose_data ch pose (clear_flags a) w;
     let a2 = a1\<lparr>mc_resampled := False\<rparr>;
     (cloud, a3, w3) \<leftarrow> (if mc_laser_update a2 then do {
         (cloud, r) \<leftarrow> update_laser ch scan angle_min angle_increment pose a2 w1;
         Some (Some cloud, r) }
       else Some (None, a2, w1));
     (hyp, a4) \<leftarrow> update_filter a3;
     Some (cloud, hyp, a4, w3) }"

end
