(* ===== verification/AmclRun.thy ===== *)
theory AmclRun
  imports Amcl
begin

text \<open>
  The localisation at work: with a map, every update keeps the invariant \<open>amcl_ok\<close>, and it returns unless the
  sensor model fails on the scan.
\<close>

subsection \<open>The invariant\<close>

definition chance_ok :: "'w chance \<Rightarrow> bool" where
  "chance_ok ch \<longleftrightarrow> (\<forall>w. 0 \<le> fst (ch_drand ch w) \<and> fst (ch_drand ch w) < 1) \<and> (\<forall>f q. q \<noteq> [] \<longrightarrow> ch_pick ch f q \<in> set q)
     \<and> (\<forall>xs. mset (ch_sort ch xs) = mset xs \<and> sorted (map sp_weight (ch_sort ch xs)))"

text \<open>A filter that can be updated; \<open>ClusterStatistics\<close> needs a histogram in the first set.\<close>

definition filter_ready :: "particle_filter \<Rightarrow> bool" where
  "filter_ready p \<longleftrightarrow> filter_ok p \<and> (\<forall>x \<in> set (live (current_set p)). 0 \<le> sp_weight x) \<and> (\<exists>P. P \<noteq> {} \<and> filled (ss_tree (pf_sets p ! 0)) P)"

definition amcl_ok :: "amcl \<Rightarrow> bool" where
  "amcl_ok a \<longleftrightarrow> (\<exists>m p. mc_map a = Some m \<and> mc_pf a = Some p \<and> amcl_map_ok m \<and> filter_ready p \<and> mc_max_uwb_particles a \<le> int (pf_max p))
     \<and> mc_laser_model a \<noteq> None \<and> mc_odom_model a \<noteq> None \<and> 0 < mc_resample_interval a \<and> mc_free a \<noteq> []"

definition particle_set :: "amcl \<Rightarrow> sample_set" where
  "particle_set a = current_set (the (mc_pf a))"

lemma normalised_ready: "filter_ok p \<Longrightarrow> normalised (current_set p) \<Longrightarrow> P \<noteq> {} \<Longrightarrow> filled (ss_tree (pf_sets p ! 0)) P \<Longrightarrow> filter_ready p"
  by (auto simp: filter_ready_def normalised_def)

text \<open>The current set is replaced.\<close>

lemma on_current_ok:
  assumes p: "filter_ok p" and f: "f (current_set p) = Some (s', r)" "set_ok (pf_max p) s'"
  shows "\<exists>p'. on_current f p = Some (p', r) \<and> filter_ok p' \<and> current_set p' = s' \<and> pf_current p' = pf_current p \<and> pf_max p' = pf_max p
    \<and> pf_sets p' = (pf_sets p)[pf_current p := s']"
proof -
  have cur: "pf_current p < 2" "length (pf_sets p) = 2" using p by (simp_all add: filter_ok_def)
  let ?p = "p\<lparr>pf_sets := (pf_sets p)[pf_current p := s'], pf_current := pf_current p, pf_w_slow := pf_w_slow p, pf_w_fast := pf_w_fast p,
    pf_converged := pf_converged p\<rparr>"
  have "filter_ok ?p" by (rule filter_ok_update [OF p f(2) cur(1) refl])
  then show ?thesis using current_ok(1) [OF p] f(1) cur by (intro exI [of _ ?p]) (simp add: on_current_def current_set_def)
qed

lemma filter_ready_set:
  assumes "filter_ready p" "filter_ok p'" "pf_sets p' = (pf_sets p)[i := s']" "\<forall>x \<in> set (live (current_set p')). 0 \<le> sp_weight x"
    "i = 0 \<Longrightarrow> \<exists>P. P \<noteq> {} \<and> filled (ss_tree s') P"
  shows "filter_ready p'"
  using assms by (cases i) (auto simp: filter_ready_def filter_ok_def)

lemma weights_of: "map sp_weight ys = map sp_weight xs \<Longrightarrow> \<forall>x \<in> set xs. 0 \<le> sp_weight x \<Longrightarrow> \<forall>y \<in> set ys. 0 \<le> sp_weight y"
  by (metis (mono_tags, opaque_lifting) image_iff list.set_map)

lemma histogram_of_live: "set_ok m s \<Longrightarrow> histogram_ok s \<Longrightarrow> \<exists>P. P \<noteq> {} \<and> filled (ss_tree s) P"
  using length_live [of m s] unfolding histogram_ok_def set_ok_def by (metis list.map_disc_iff list.size(3) not_one_le_zero set_empty)

subsection \<open>Random poses\<close>

lemma at_int_free:
  assumes "0 \<le> r" "r < 1" "xs \<noteq> []"
  shows "\<exists>x \<in> set xs. at_int xs \<lfloor>r * real (length xs)\<rfloor> = Some x"
proof -
  have "0 \<le> r * real (length xs)" "r * real (length xs) < real (length xs)" using assms by simp_all
  then have "0 \<le> \<lfloor>r * real (length xs)\<rfloor>" "nat \<lfloor>r * real (length xs)\<rfloor> < length xs" by (simp_all add: nat_less_iff floor_less_iff)
  then show ?thesis by simp
qed

lemma uniform_pose_ok:
  assumes "chance_ok ch" "free \<noteq> []"
  shows "\<exists>x y h w'. uniform_pose_generator ch m free w = Some ((x, y, h), w') \<and> (\<exists>(i, j) \<in> set free. (x, y) = cell_to_coords m i j) \<and> - pi \<le> h \<and> h < pi"
proof -
  obtain r w1 where r: "ch_drand ch w = (r, w1)" by fastforce
  obtain h w2 where h: "ch_drand ch w1 = (h, w2)" by fastforce
  have d: "0 \<le> fst (ch_drand ch w)" "fst (ch_drand ch w) < 1" for w using assms(1) by (simp_all add: chance_ok_def)
  have rh: "0 \<le> r" "r < 1" "0 \<le> h" "h < 1" using d [of w] d [of w1] r h by simp_all
  obtain c where c: "c \<in> set free" "at_int free \<lfloor>r * real (length free)\<rfloor> = Some c" using at_int_free [OF rh(1,2) assms(2)] by blast
  obtain x y where xy: "cell_to_coords m (fst c) (snd c) = (x, y)" by fastforce
  have "uniform_pose_generator ch m free w = Some ((x, y, h * 2 * pi - pi), w2)"
    using r h c(2) xy by (simp add: uniform_pose_generator_def)
  moreover have "- pi \<le> h * 2 * pi - pi" "h * 2 * pi - pi < pi" using rh by simp_all
  moreover have "\<exists>(i, j) \<in> set free. (x, y) = cell_to_coords m i j" using c(1) xy by (intro bexI [of _ c]) (simp_all add: split_def)
  ultimately show ?thesis by blast
qed

text \<open>What an update leaves as it is.\<close>

definition same_setup :: "amcl \<Rightarrow> amcl \<Rightarrow> bool" where
  "same_setup a a' \<longleftrightarrow> mc_map a' = mc_map a \<and> mc_odom_model a' = mc_odom_model a \<and> mc_resample_interval a' = mc_resample_interval a
     \<and> mc_free a' = mc_free a \<and> mc_max_uwb_particles a' = mc_max_uwb_particles a \<and> (mc_laser_model a' = None \<longleftrightarrow> mc_laser_model a = None)"

lemma amcl_ok_kept:
  assumes "amcl_ok a" "same_setup a a'" "mc_pf a = Some p" "mc_pf a' = Some p'" "filter_ready p'" "pf_max p' = pf_max p"
  shows "amcl_ok a'"
  using assms by (auto simp: amcl_ok_def same_setup_def)

subsection \<open>The motion\<close>

lemma update_action_tree: "update_action gauss om pose delta s w = Some (s', w') \<Longrightarrow> ss_tree s' = ss_tree s"
  by (auto simp: update_action_def split: bind_splits prod.splits)

lemma laser_update_same: "mc_laser_update a \<Longrightarrow> a\<lparr>mc_laser_update := True\<rparr> = a"
  by (cases a) simp

lemma update_odom_ok:
  assumes a: "mc_pf a = Some p" "filter_ready p" "mc_odom_model a = Some om"
  shows "\<exists>a1 w1 p1. update_odom_pose_data ch pose a w = Some (a1, w1) \<and> filter_ready p1 \<and> pf_max p1 = pf_max p
    \<and> map sp_weight (live (current_set p1)) = map sp_weight (live (current_set p))
    \<and> mc_pf a1 = Some p1 \<and> same_setup a a1 \<and> mc_laser_model a1 = mc_laser_model a \<and> mc_pf_init a1 \<and> mc_force_publication a1 = (\<not> mc_pf_init a)
    \<and> mc_publish_cloud a1 = mc_publish_cloud a
    \<and> (\<not> mc_pf_init a \<longrightarrow> mc_laser_update a1 \<and> p1 = p)"
proof (cases "mc_pf_init a")
  case False
  then show ?thesis using a by (simp add: update_odom_pose_data_def Let_def same_setup_def)
next
  case True
  have init: "mc_pf_init a = True" using True by simp
  define delta where "delta = (vc pose 0 - vc (mc_odom_pose a) 0, vc pose 1 - vc (mc_odom_pose a) 1, angle_diff (vc pose 2) (vc (mc_odom_pose a) 2))"
  define u where "u \<longleftrightarrow> mc_laser_update a \<or> \<bar>vc delta 0\<bar> > mc_d_thresh a \<or> \<bar>vc delta 1\<bar> > mc_d_thresh a \<or> \<bar>vc delta 2\<bar> > mc_a_thresh a"
  let ?a = "a\<lparr>mc_laser_update := u, mc_force_publication := False\<rparr>"
  have run: "update_odom_pose_data ch pose a w = (if u then do {
      (p', w') \<leftarrow> on_current (\<lambda>s. update_action (ch_gauss ch) om pose delta s w) p; Some (?a\<lparr>mc_pf := Some p'\<rparr>, w') } else Some (?a, w))"
    unfolding update_odom_pose_data_def Let_def init if_True delta_def [symmetric]
    by (cases "mc_laser_update a"; cases "\<bar>vc delta 0\<bar> > mc_d_thresh a \<or> \<bar>vc delta 1\<bar> > mc_d_thresh a \<or> \<bar>vc delta 2\<bar> > mc_a_thresh a")
      (simp_all add: a(1,3) init u_def laser_update_same)
  show ?thesis
  proof (cases u)
    case u: True
    have p: "filter_ok p" using a(2) by (simp add: filter_ready_def)
    obtain s' w' where s': "update_action (ch_gauss ch) om pose delta (current_set p) w = Some (s', w')" "set_ok (pf_max p) s'"
      "map sp_weight (live s') = map sp_weight (live (current_set p))"
      using update_action_ok [where gauss = "ch_gauss ch" and om = om and pose = pose and delta = delta and w = w, OF current_ok(2) [OF p]] by blast
    from on_current_ok [where f = "\<lambda>s. update_action (ch_gauss ch) om pose delta s w", OF p s'(1,2)]
    obtain p' where p': "on_current (\<lambda>s. update_action (ch_gauss ch) om pose delta s w) p = Some (p', w')" "filter_ok p'" "current_set p' = s'"
      "pf_current p' = pf_current p" "pf_max p' = pf_max p" "pf_sets p' = (pf_sets p)[pf_current p := s']" by blast
    have nonneg: "\<forall>x \<in> set (live (current_set p')). 0 \<le> sp_weight x"
      by (rule weights_of [OF s'(3) [folded p'(3)]]) (use a(2) in \<open>simp add: filter_ready_def\<close>)
    have tree: "\<exists>P. P \<noteq> {} \<and> filled (ss_tree s') P" if "pf_current p = 0"
      using a(2) update_action_tree [OF s'(1)] that by (simp add: filter_ready_def current_set_def)
    have "filter_ready p'" by (rule filter_ready_set [OF a(2) p'(2,6) nonneg tree])
    moreover define a1 where "a1 = ?a\<lparr>mc_pf := Some p'\<rparr>"
    have "same_setup a a1 \<and> mc_pf a1 = Some p' \<and> mc_laser_model a1 = mc_laser_model a \<and> mc_pf_init a1 \<and> mc_force_publication a1 = (\<not> mc_pf_init a)
        \<and> mc_publish_cloud a1 = mc_publish_cloud a"
      using True by (simp add: a1_def same_setup_def)
    moreover have "update_odom_pose_data ch pose a w = Some (a1, w')" using run u p'(1) by (simp add: a1_def)
    moreover have "map sp_weight (live (current_set p')) = map sp_weight (live (current_set p))" using s'(3) p'(3) by simp
    ultimately show ?thesis using True p'(5) by blast
  next
    case False
    then have "update_odom_pose_data ch pose a w = Some (?a, w)" using run by simp
    then show ?thesis using True a by (intro exI [of _ ?a] exI [of _ w] exI [of _ p]) (simp add: same_setup_def)
  qed
qed

subsection \<open>The scan\<close>

definition scan_weighed :: "'w chance \<Rightarrow> laser_scan \<Rightarrow> real \<Rightarrow> real \<Rightarrow> amcl \<Rightarrow> bool" where
  "scan_weighed ch scan angle_min angle_increment a \<longleftrightarrow>
     update_sensor (ch_raw_counts ch) (make_laser_data a scan angle_min angle_increment) (the (mc_map a)) (the (mc_laser_model a)) (particle_set a) \<noteq> None"

lemma update_sensor_tree: "update_sensor raw d m l s = Some (t, s', l') \<Longrightarrow> ss_tree s' = ss_tree s"
  by (auto simp: update_sensor_def likelihood_field_model_prob_def Let_def split: bind_splits if_splits)

text \<open>The particles that an update publishes.\<close>

lemma resample_particles_ok:
  assumes a: "mc_pf a = Some p" "filter_ok p" "normalised (current_set p)" "P \<noteq> {}" "filled (ss_tree (pf_sets p ! 0)) P" "mc_map a = Some m"
    and r: "0 < mc_resample_interval a" "mc_free a \<noteq> []" "chance_ok ch"
  shows "\<exists>a' w' p'. resample_particles ch a w = Some (map sp_pose (live (current_set p')), a', w') \<and> filter_ok p' \<and> normalised (current_set p')
    \<and> filter_ready p' \<and> pf_max p' = pf_max p
    \<and> a' = a\<lparr>mc_pf := Some p', mc_resample_count := mc_resample_count a + 1, mc_publish_cloud := True,
        mc_resampled := (mc_resampled a \<or> (mc_resample_count a + 1) mod mc_resample_interval a = 0)\<rparr>
    \<and> ((mc_resample_count a + 1) mod mc_resample_interval a = 0 \<longrightarrow> clusters_summarise (current_set p')
        \<and> (\<forall>x \<in> set (live (current_set p')). 0 < sp_weight x))"
proof (cases "(mc_resample_count a + 1) mod mc_resample_interval a = 0")
  case False
  note c = current_ok [OF a(2)]
  have "filter_ready p" by (rule normalised_ready [OF a(2-5)])
  then show ?thesis using False a r(1) c live_samples_ok [OF c(2)]
    by (intro exI [of _ "a\<lparr>mc_resample_count := mc_resample_count a + 1, mc_publish_cloud := True\<rparr>"] exI [of _ w] exI [of _ p])
      (simp add: resample_particles_def Let_def)
next
  case True
  let ?gen = "uniform_pose_generator ch m (mc_free a)"
  have d: "0 \<le> fst (ch_drand ch w) \<and> fst (ch_drand ch w) < 1" for w using r(3) by (simp add: chance_ok_def)
  have g: "?gen w \<noteq> None" for w using uniform_pose_ok [OF r(3,2)] by fastforce
  obtain p' w' where p': "update_resample (ch_drand ch) ?gen p w = Some (p', w')" "filter_ok p'" "pf_current p' = (pf_current p + 1) mod 2"
    "pf_max p' = pf_max p" "\<forall>x \<in> set (live (current_set p')). sp_weight x = 1 / real (ss_count (current_set p'))"
    "histogram_ok (current_set p')" "clusters_summarise (current_set p')" "pf_sets p' = (pf_sets p)[pf_current p' := current_set p']"
    using update_resample_ok [where drand = "ch_drand ch" and random_pose = ?gen and w = w, OF a(2,3) d g] by blast
  note c = current_ok [OF p'(2)]
  have norm: "normalised (current_set p')" by (rule equal_normalised [OF c(2) p'(5)])
  have pos: "\<forall>x \<in> set (live (current_set p')). 0 < sp_weight x" using p'(5) c(2) by (auto simp: set_ok_def)
  have nonneg: "\<forall>x \<in> set (live (current_set p')). 0 \<le> sp_weight x" using pos by fastforce
  have ready: "filter_ready p'"
    by (rule filter_ready_set [OF normalised_ready [OF a(2-5)] p'(2,8) nonneg histogram_of_live [OF c(2) p'(6)]])
  let ?a = "a\<lparr>mc_pf := Some p', mc_resample_count := mc_resample_count a + 1, mc_publish_cloud := True, mc_resampled := True\<rparr>"
  have "resample_particles ch a w = Some (map sp_pose (live (current_set p')), ?a, w')"
    using True a(1,6) r(1) p'(1) c(1) live_samples_ok [OF c(2)] by (simp add: resample_particles_def Let_def)
  then show ?thesis using True p'(2,4,7) norm pos ready by (intro exI [of _ ?a] exI [of _ w'] exI [of _ p']) simp
qed

lemma update_omega_tree:
  assumes "update_omega t p = Some p'"
  shows "map ss_tree (pf_sets p') = map ss_tree (pf_sets p)"
proof -
  have "map ss_tree (xs[i := s]) = map ss_tree xs" if "ss_tree s = ss_tree (xs ! i)" for xs i and s :: sample_set
    using that by (simp add: map_update list_update_beyond) (metis list_update_id map_update)
  then show ?thesis using assms by (auto simp: update_omega_def on_set_def Let_def split: bind_splits if_splits)
qed

text \<open>The poses that \<open>UpdateLaser\<close> publishes are those of the particles, whose weights are normalised.\<close>

lemma update_laser_ok:
  assumes a: "mc_laser_model a = Some l" "mc_pf a = Some p" "mc_map a = Some m" "filter_ready p" "scan_weighed ch scan angle_min angle_increment a"
    and r: "0 < mc_resample_interval a" "mc_free a \<noteq> []" "chance_ok ch"
  shows "\<exists>a' w' p'. update_laser ch scan angle_min angle_increment pose a w = Some (map sp_pose (live (current_set p')), a', w')
    \<and> mc_pf a' = Some p' \<and> normalised (current_set p') \<and> filter_ready p' \<and> pf_max p' = pf_max p \<and> same_setup a a' \<and> mc_pf_init a' = mc_pf_init a
    \<and> mc_publish_cloud a' \<and> mc_force_publication a' = mc_force_publication a
    \<and> mc_resampled a' = (mc_resampled a \<or> (mc_resample_count a + 1) mod mc_resample_interval a = 0)
    \<and> ((mc_resample_count a + 1) mod mc_resample_interval a = 0 \<longrightarrow> clusters_summarise (current_set p')
        \<and> (\<forall>x \<in> set (live (current_set p')). 0 < sp_weight x))"
proof -
  let ?d = "make_laser_data a scan angle_min angle_increment"
  let ?f = "\<lambda>s. do { (t, s', l') \<leftarrow> update_sensor (ch_raw_counts ch) ?d m l s; Some (s', t, l') }"
  have p: "filter_ok p" "\<forall>x \<in> set (live (current_set p)). 0 \<le> sp_weight x" using a(4) by (simp_all add: filter_ready_def)
  obtain P where P: "P \<noteq> {}" "filled (ss_tree (pf_sets p ! 0)) P" using a(4) by (auto simp: filter_ready_def)
  obtain t s' l' where s': "update_sensor (ch_raw_counts ch) ?d m l (current_set p) = Some (t, s', l')"
    using a(1-3,5) by (auto simp: scan_weighed_def particle_set_def)
  note us = update_sensor_ok [OF s' current_ok(2) [OF p(1)] p(2)]
  have "?f (current_set p) = Some (s', t, l')" using s' by simp
  from on_current_ok [where f = ?f, OF p(1) this] us
  obtain p1 where p1: "on_current ?f p = Some (p1, t, l')" "filter_ok p1" "current_set p1 = s'" "pf_max p1 = pf_max p"
    "pf_sets p1 = (pf_sets p)[pf_current p := s']" by blast
  have "\<forall>x \<in> set (live (current_set p1)). 0 \<le> sp_weight x" "t = weighted_sum (\<lambda>_. 1) (live (current_set p1)) \<or> t = 0" using us p1(3) by auto
  from update_omega_ok [OF p1(2) this]
  obtain p2 where p2: "update_omega t p1 = Some p2" "filter_ok p2" "normalised (current_set p2)" "pf_max p2 = pf_max p1" by blast
  have len: "length (pf_sets p) = 2" "length (pf_sets p2) = 2" "length (pf_sets p1) = 2" using p(1) p1(2) p2(2) by (simp_all add: filter_ok_def)
  have "ss_tree (pf_sets p1 ! 0) = ss_tree (pf_sets p ! 0)"
    using p1(5) len update_sensor_tree [OF s'] by (cases "pf_current p") (simp_all add: current_set_def)
  moreover have "ss_tree (pf_sets p2 ! 0) = ss_tree (pf_sets p1 ! 0)"
    using arg_cong [OF update_omega_tree [OF p2(1)], of "\<lambda>ts. ts ! 0"] len by simp
  ultimately have tree: "filled (ss_tree (pf_sets p2 ! 0)) P" using P(2) by simp
  let ?a = "a\<lparr>mc_laser_model := Some l', mc_total_weight := t, mc_pf := Some p2, mc_laser_update := False, mc_odom_pose := pose\<rparr>"
  have "mc_pf ?a = Some p2" "mc_map ?a = Some m" "0 < mc_resample_interval ?a" "mc_free ?a \<noteq> []" using a(3) r by simp_all
  from resample_particles_ok [OF this(1) p2(2,3) P(1) tree this(2-4) r(3), of w]
  obtain a' w' p' where r': "resample_particles ch ?a w = Some (map sp_pose (live (current_set p')), a', w')" "normalised (current_set p')"
    "filter_ready p'" "pf_max p' = pf_max p2"
    "a' = ?a\<lparr>mc_pf := Some p', mc_resample_count := mc_resample_count ?a + 1, mc_publish_cloud := True,
        mc_resampled := (mc_resampled ?a \<or> (mc_resample_count ?a + 1) mod mc_resample_interval ?a = 0)\<rparr>"
    "(mc_resample_count ?a + 1) mod mc_resample_interval ?a = 0 \<longrightarrow> clusters_summarise (current_set p')
        \<and> (\<forall>x \<in> set (live (current_set p')). 0 < sp_weight x)" by blast
  have "update_laser ch scan angle_min angle_increment pose a w = Some (map sp_pose (live (current_set p')), a', w')"
    using a(1-3) p1(1) p2(1) r'(1) by (simp add: update_laser_def)
  moreover have "same_setup a a'" using r'(5) a(1) by (simp add: same_setup_def)
  ultimately show ?thesis using r'(2-6) p1(4) p2(4) by (intro exI [of _ a'] exI [of _ w'] exI [of _ p']) simp
qed

subsection \<open>The pose of the robot\<close>

text \<open>The cluster \<open>k\<close> is the first one of the largest weight.\<close>

definition heaviest :: "sample_set \<Rightarrow> nat \<Rightarrow> bool" where
  "heaviest s k \<longleftrightarrow> k < nat (ss_cluster_count s) \<and> (\<forall>j < nat (ss_cluster_count s). pc_weight (ss_clusters s ! j) \<le> pc_weight (ss_clusters s ! k))
     \<and> (\<forall>j < k. pc_weight (ss_clusters s ! j) < pc_weight (ss_clusters s ! k))"

lemma get_cluster_statistics_ok:
  assumes "filter_ok p"
  shows "get_cluster_statistics k p = Some (if ss_count (current_set p) \<le> k then None
    else let cl = ss_clusters (current_set p) ! k in Some (pc_weight cl, pc_mean cl, pc_cov cl))"
  using current_ok [OF assms] by (auto simp: get_cluster_statistics_def set_ok_def Let_def)

lemma best_hypothesis_returns:
  assumes "filter_ok p"
  shows "\<exists>r. best_hypothesis p ks best = Some r"
  by (induction ks arbitrary: best) (auto simp: get_cluster_statistics_ok [OF assms] Let_def)

lemma best_hypothesis_ok:
  assumes "filter_ok p" "i + n \<le> ss_count (current_set p)"
  shows "best_hypothesis p [i..<i + n] best = Some best \<and> (\<forall>j. i \<le> j \<longrightarrow> j < i + n \<longrightarrow> pc_weight (ss_clusters (current_set p) ! j) \<le> fst best)
    \<or> (\<exists>k. i \<le> k \<and> k < i + n \<and> (let cl = ss_clusters (current_set p) ! k in
        best_hypothesis p [i..<i + n] best = Some (pc_weight cl, Some (pc_mean cl, pc_cov cl)) \<and> fst best < pc_weight cl
        \<and> (\<forall>j. i \<le> j \<longrightarrow> j < i + n \<longrightarrow> pc_weight (ss_clusters (current_set p) ! j) \<le> pc_weight cl)
        \<and> (\<forall>j. i \<le> j \<longrightarrow> j < k \<longrightarrow> pc_weight (ss_clusters (current_set p) ! j) < pc_weight cl)))"
  using assms(2)
proof (induction n arbitrary: i best)
  case (Suc n)
  let ?w = "\<lambda>j. pc_weight (ss_clusters (current_set p) ! j)"
  let ?h = "\<lambda>j. (?w j, Some (pc_mean (ss_clusters (current_set p) ! j), pc_cov (ss_clusters (current_set p) ! j)))"
  let ?best = "if ?w i > fst best then ?h i else best"
  have idx: "[i..<i + Suc n] = i # [Suc i..<Suc i + n]" by (simp add: upt_conv_Cons)
  have step: "best_hypothesis p [i..<i + Suc n] best = best_hypothesis p [Suc i..<Suc i + n] ?best"
    unfolding idx using Suc.prems by (simp add: get_cluster_statistics_ok [OF assms(1)] Let_def)
  have below: "j = i \<or> Suc i \<le> j" if "i \<le> j" for j using that by auto
  have "Suc i + n \<le> ss_count (current_set p)" using Suc.prems by simp
  from Suc.IH [OF this, of ?best]
  consider (same) "best_hypothesis p [Suc i..<Suc i + n] ?best = Some ?best" "\<forall>j. Suc i \<le> j \<longrightarrow> j < Suc i + n \<longrightarrow> ?w j \<le> fst ?best"
    | (later) k where "Suc i \<le> k" "k < Suc i + n" "best_hypothesis p [Suc i..<Suc i + n] ?best = Some (?h k)" "fst ?best < ?w k"
      "\<forall>j. Suc i \<le> j \<longrightarrow> j < Suc i + n \<longrightarrow> ?w j \<le> ?w k" "\<forall>j. Suc i \<le> j \<longrightarrow> j < k \<longrightarrow> ?w j < ?w k"
    by (auto simp: Let_def)
  then show ?case
  proof cases
    case same
    show ?thesis
    proof (cases "?w i > fst best")
      case True
      then have "best_hypothesis p [i..<i + Suc n] best = Some (?h i)" "\<forall>j. i \<le> j \<longrightarrow> j < i + Suc n \<longrightarrow> ?w j \<le> ?w i"
        using same step below by auto
      then show ?thesis using True by (intro disjI2 exI [of _ i]) (simp add: Let_def)
    next
      case False
      then have "best_hypothesis p [i..<i + Suc n] best = Some best" "\<forall>j. i \<le> j \<longrightarrow> j < i + Suc n \<longrightarrow> ?w j \<le> fst best"
        using same step below by (auto simp: not_less)
      then show ?thesis by blast
    qed
  next
    case later
    have "?w i \<le> fst ?best" "fst best \<le> fst ?best" by auto
    then have i: "?w i < ?w k" "fst best < ?w k" using later(4) by linarith+
    have all: "?w j \<le> ?w k" if "i \<le> j" "j < i + Suc n" for j
    proof (cases "j = i")
      case True
      show ?thesis unfolding True by (rule less_imp_le [OF i(1)])
    next
      case False
      then have "Suc i \<le> j" "j < Suc i + n" using that by simp_all
      then show ?thesis using later(5) by blast
    qed
    have less: "?w j < ?w k" if "i \<le> j" "j < k" for j
    proof (cases "j = i")
      case True
      show ?thesis unfolding True by (rule i(1))
    next
      case False
      then have "Suc i \<le> j" using that(1) by simp
      then show ?thesis using later(6) that(2) by blast
    qed
    show ?thesis unfolding step using later(1-3) i(2) all less by (intro disjI2 exI [of _ k]) (simp add: Let_def)
  qed
qed simp

lemma positive_cluster:
  assumes "clusters_summarise s" "\<forall>x \<in> set (live s). 0 < sp_weight x" "k < nat (ss_cluster_count s)"
  shows "0 < pc_weight (ss_clusters s ! k)"
proof -
  let ?xs = "members (ss_tree s) (live s) k"
  have "?xs \<noteq> []" "pc_weight (ss_clusters s ! k) = weighted_sum (\<lambda>_. 1) ?xs" using assms(1,3) by (simp_all add: clusters_summarise_def Let_def)
  moreover have "\<forall>x \<in> set ?xs. 0 < sp_weight x" using assms(2) by (simp add: members_def)
  moreover have "0 < weighted_sum (\<lambda>_. 1) xs" if "xs \<noteq> []" "\<forall>x \<in> set xs. 0 < sp_weight x" for xs
    using that by (induction xs rule: list_nonempty_induct) (simp_all add: add_pos_pos)
  ultimately show ?thesis by simp
qed

lemma heaviest_hypothesis:
  assumes p: "filter_ok p" "clusters_summarise (current_set p)" "\<forall>x \<in> set (live (current_set p)). 0 < sp_weight x"
  shows "\<exists>k. heaviest (current_set p) k \<and> best_hypothesis p [0..<nat (ss_cluster_count (current_set p))] (0, None)
    = (let cl = ss_clusters (current_set p) ! k in Some (pc_weight cl, Some (pc_mean cl, pc_cov cl)))"
proof -
  let ?n = "nat (ss_cluster_count (current_set p))"
  have "1 \<le> ss_cluster_count (current_set p)" "ss_cluster_count (current_set p) \<le> int (ss_count (current_set p))"
    using p(2) by (simp_all add: clusters_summarise_def)
  then have n: "0 < ?n" "0 + ?n \<le> ss_count (current_set p)" by simp_all
  let ?w = "\<lambda>j. pc_weight (ss_clusters (current_set p) ! j)"
  have "\<not> ?w 0 \<le> 0" using positive_cluster [OF p(2,3) n(1)] by simp
  then have "\<not> (\<forall>j. 0 \<le> j \<longrightarrow> j < 0 + ?n \<longrightarrow> ?w j \<le> fst (0, None))" using n(1) by (auto intro!: exI [of _ 0])
  then obtain k where k: "k < 0 + ?n" "best_hypothesis p [0..<0 + ?n] (0, None) = (let cl = ss_clusters (current_set p) ! k in Some (pc_weight cl, Some (pc_mean cl, pc_cov cl)))"
    "\<forall>j. 0 \<le> j \<longrightarrow> j < 0 + ?n \<longrightarrow> ?w j \<le> ?w k" "\<forall>j. 0 \<le> j \<longrightarrow> j < k \<longrightarrow> ?w j < ?w k"
    using best_hypothesis_ok [OF p(1) n(2), of "(0, None)"] unfolding Let_def by blast
  have "heaviest (current_set p) k" unfolding heaviest_def using k(1,3,4) by simp
  then show ?thesis using k(2) by auto
qed

lemma filter_statistics_returns:
  assumes "filter_ready p"
  shows "\<exists>p'. filter_statistics p = Some p' \<and> filter_ready p' \<and> pf_max p' = pf_max p \<and> pf_current p' = pf_current p
    \<and> live (current_set p') = live (current_set p)"
proof -
  let ?s = "pf_sets p ! 0"
  have p: "filter_ok p" "length (pf_sets p) = 2" "pf_current p < 2" using assms by (simp_all add: filter_ready_def filter_ok_def)
  then have s: "set_ok (pf_max p) ?s" by (simp add: filter_ok_def)
  obtain P where P: "P \<noteq> {}" "filled (ss_tree ?s) P" using assms by (auto simp: filter_ready_def)
  obtain s' where s': "cluster_statistics ?s = Some s'" "set_ok (pf_max p) s'" "filled (ss_tree s') P" "ss_samples s' = ss_samples ?s" "ss_count s' = ss_count ?s"
    using cluster_statistics_returns [OF s P(2,1)] by blast
  let ?p = "p\<lparr>pf_sets := (pf_sets p)[0 := s'], pf_current := pf_current p, pf_w_slow := pf_w_slow p, pf_w_fast := pf_w_fast p,
    pf_converged := pf_converged p\<rparr>"
  have ok: "filter_ok ?p" by (rule filter_ok_update [OF p(1) s'(2) p(3) refl])
  have live: "live (current_set ?p) = live (current_set p)" using p(2) s'(4,5) by (cases "pf_current p") (simp_all add: current_set_def live_def)
  have "filter_ready ?p" unfolding filter_ready_def live using assms ok P(1) s'(3) p(2) by (auto simp: filter_ready_def)
  moreover have "filter_statistics p = Some ?p" using s'(1) p(2) by (simp add: filter_statistics_def)
  ultimately show ?thesis using live by (intro exI [of _ ?p]) simp
qed

text \<open>The pose is found after every resampling: it is the mean of the heaviest cluster, with the covariance of all particles.\<close>

lemma update_filter_ok:
  assumes a: "mc_pf a = Some p" "filter_ready p"
    and r: "mc_resampled a \<Longrightarrow> clusters_summarise (current_set p) \<and> (\<forall>x \<in> set (live (current_set p)). 0 < sp_weight x)"
  shows "\<exists>hyp a' p'. update_filter a = Some (hyp, a') \<and> mc_pf a' = Some p' \<and> filter_ready p' \<and> pf_max p' = pf_max p \<and> same_setup a a'
    \<and> mc_pf_init a' = mc_pf_init a \<and> mc_resampled a' = mc_resampled a \<and> mc_publish_cloud a' = mc_publish_cloud a
    \<and> live (current_set p') = live (current_set p)
    \<and> (mc_resampled a \<longrightarrow> p' = p \<and> mc_publish_pose a' \<and> mc_update_tf a'
        \<and> (\<exists>k. heaviest (current_set p) k \<and> hyp = Some (pc_mean (ss_clusters (current_set p) ! k), ss_cov (current_set p))))
    \<and> (\<not> mc_resampled a \<longrightarrow> \<not> mc_force_publication a \<longrightarrow> hyp = None \<and> p' = p \<and> mc_publish_pose a' \<and> \<not> mc_update_tf a')"
proof -
  have p: "filter_ok p" using a(2) by (simp add: filter_ready_def)
  consider (res) "mc_resampled a" | (force) "\<not> mc_resampled a" "mc_force_publication a" | (none) "\<not> mc_resampled a" "\<not> mc_force_publication a" by blast
  then show ?thesis
  proof cases
    case res
    obtain k where k: "heaviest (current_set p) k" "best_hypothesis p [0..<nat (ss_cluster_count (current_set p))] (0, None)
        = (let cl = ss_clusters (current_set p) ! k in Some (pc_weight cl, Some (pc_mean cl, pc_cov cl)))"
      using heaviest_hypothesis [OF p] r [OF res] by blast
    have "update_filter a = Some (Some (pc_mean (ss_clusters (current_set p) ! k), ss_cov (current_set p)),
        a\<lparr>mc_pf := Some p, mc_publish_pose := True, mc_update_tf := True\<rparr>)"
      using res a(1) current_ok(1) [OF p] k(2) by (simp add: update_filter_def Let_def)
    then show ?thesis using res a(2) k(1) by (simp add: same_setup_def) blast
  next
    case force
    obtain p' where p': "filter_statistics p = Some p'" "filter_ready p'" "pf_max p' = pf_max p" "live (current_set p') = live (current_set p)"
      using filter_statistics_returns [OF a(2)] by blast
    have ok: "filter_ok p'" using p'(2) by (simp add: filter_ready_def)
    obtain mw hyp where h: "best_hypothesis p' [0..<nat (ss_cluster_count (current_set p'))] (0, None) = Some (mw, hyp)"
      using best_hypothesis_returns [OF ok] by fastforce
    show ?thesis using force a(1) current_ok(1) [OF ok] p' h
      by (cases hyp) (auto simp: update_filter_def same_setup_def)
  next
    case none
    then show ?thesis using a by (simp add: update_filter_def same_setup_def)
  qed
qed

subsection \<open>One update\<close>

lemma amcl_ok_parts:
  assumes "amcl_ok a"
  obtains m p l om where "mc_map a = Some m" "mc_pf a = Some p" "mc_laser_model a = Some l" "mc_odom_model a = Some om" "amcl_map_ok m" "filter_ready p"
    "mc_max_uwb_particles a \<le> int (pf_max p)" "0 < mc_resample_interval a" "mc_free a \<noteq> []"
  using assms unfolding amcl_ok_def by blast

lemma same_setup_trans: "same_setup a b \<Longrightarrow> same_setup b c \<Longrightarrow> same_setup a c"
  by (simp add: same_setup_def)

text \<open>C39. Every update keeps the invariant, and it returns unless the sensor model fails on the scan (a beam that ends at a cell whose
  number does not fit an \<open>int\<close>): no null pointer is followed and no index leaves its vector. Right after an
  initialisation the scan is always used. Where the scan is used the poses that are published are those of the particles, whose weights are
  normalised; where the particles are resampled the pose is the mean of the first cluster of the largest weight, with the covariance of
  all particles, and it is to be published together with the transform. Where the scan is not used there is no cloud, no new pose and no new transform.\<close>

theorem localization_step:
  assumes "amcl_ok a" "chance_ok ch"
    "\<forall>a1 w1. update_odom_pose_data ch pose (clear_flags a) w = Some (a1, w1) \<longrightarrow> mc_laser_update a1 \<longrightarrow>
       scan_weighed ch scan angle_min angle_increment (a1\<lparr>mc_resampled := False\<rparr>)"
  shows "\<exists>cloud hyp a' w'. amcl_update ch pose scan angle_min angle_increment a w = Some (cloud, hyp, a', w') \<and> amcl_ok a' \<and> mc_pf_init a'
    \<and> (\<not> mc_pf_init a \<longrightarrow> cloud \<noteq> None) \<and> mc_publish_cloud a' = (cloud \<noteq> None)
    \<and> (cloud \<noteq> None \<longrightarrow> cloud = Some (map sp_pose (live (particle_set a'))) \<and> normalised (particle_set a'))
    \<and> (mc_resampled a' \<longrightarrow> mc_publish_pose a' \<and> mc_update_tf a' \<and> clusters_summarise (particle_set a')
        \<and> (\<exists>k. heaviest (particle_set a') k \<and> hyp = Some (pc_mean (ss_clusters (particle_set a') ! k), ss_cov (particle_set a'))))
    \<and> (cloud = None \<longrightarrow> hyp = None \<and> mc_publish_pose a' \<and> \<not> mc_update_tf a')"
proof -
  let ?a0 = "clear_flags a"
  obtain m p l om where a: "mc_map a = Some m" "mc_pf a = Some p" "mc_laser_model a = Some l" "mc_odom_model a = Some om" "filter_ready p"
    "0 < mc_resample_interval a" "mc_free a \<noteq> []" using amcl_ok_parts [OF assms(1)] by metis
  have a0: "mc_pf ?a0 = Some p" "mc_odom_model ?a0 = Some om" "same_setup a ?a0" "mc_pf_init ?a0 = mc_pf_init a" "\<not> mc_publish_cloud ?a0"
    using a by (simp_all add: clear_flags_def same_setup_def)
  obtain a1 w1 p1 where a1: "update_odom_pose_data ch pose ?a0 w = Some (a1, w1)" "filter_ready p1" "pf_max p1 = pf_max p" "mc_pf a1 = Some p1"
    "same_setup ?a0 a1" "mc_laser_model a1 = mc_laser_model ?a0" "mc_pf_init a1" "mc_force_publication a1 = (\<not> mc_pf_init ?a0)"
    "mc_publish_cloud a1 = mc_publish_cloud ?a0" "\<not> mc_pf_init ?a0 \<longrightarrow> mc_laser_update a1"
    using update_odom_ok [OF a0(1) a(5) a0(2), of ch pose w] by blast
  define a2 where "a2 = a1\<lparr>mc_resampled := False\<rparr>"
  have a2: "same_setup a a2" "mc_pf a2 = Some p1" "\<not> mc_resampled a2" "mc_laser_update a2 = mc_laser_update a1" "mc_pf_init a2"
    "mc_force_publication a2 = (\<not> mc_pf_init a)" "\<not> mc_publish_cloud a2"
    using same_setup_trans [OF a0(3) a1(5)] a0(4,5) a1(4,7-9) by (simp_all add: a2_def same_setup_def)
  have weighed: "scan_weighed ch scan angle_min angle_increment a2" if "mc_laser_update a2"
    using assms(3) a1(1) that a2(4) unfolding a2_def by blast
  have run: "amcl_update ch pose scan angle_min angle_increment a w = do {
      (cloud, a3, w3) \<leftarrow> (if mc_laser_update a2 then do { (cloud, r) \<leftarrow> update_laser ch scan angle_min angle_increment pose a2 w1; Some (Some cloud, r) }
        else Some (None, a2, w1));
      (hyp, a4) \<leftarrow> update_filter a3; Some (cloud, hyp, a4, w3) }"
    using a1(1) by (simp add: amcl_update_def a2_def)
  show ?thesis
  proof (cases "mc_laser_update a2")
    case False
    have nf: "\<not> mc_force_publication a2" "mc_pf_init a" using False a2(4,6) a1(10) a0(4) by auto
    obtain hyp a' p' where u: "update_filter a2 = Some (hyp, a')" "mc_pf a' = Some p'" "filter_ready p'" "pf_max p' = pf_max p1" "same_setup a2 a'"
      "mc_pf_init a' = mc_pf_init a2" "mc_resampled a' = mc_resampled a2" "mc_publish_cloud a' = mc_publish_cloud a2" "hyp = None"
      "mc_publish_pose a'" "\<not> mc_update_tf a'"
      using update_filter_ok [OF a2(2) a1(2)] a2(3) nf(1) by blast
    have "amcl_ok a'" using amcl_ok_kept [OF assms(1) same_setup_trans [OF a2(1) u(5)] a(2) u(2,3)] u(4) a1(3) by simp
    moreover have "amcl_update ch pose scan angle_min angle_increment a w = Some (None, hyp, a', w1)" unfolding run using False u(1) by simp
    ultimately show ?thesis using u(6-11) a2(3,5,7) nf(2)
      by (intro exI [of _ None] exI [of _ hyp] exI [of _ a'] exI [of _ w1]) simp
  next
    case True
    have s: "mc_map a2 = Some m" "0 < mc_resample_interval a2" "mc_free a2 \<noteq> []" "mc_laser_model a2 \<noteq> None"
      using a2(1) a by (simp_all add: same_setup_def)
    then obtain l2 where l2: "mc_laser_model a2 = Some l2" by auto
    obtain a3 w3 p3 where l: "update_laser ch scan angle_min angle_increment pose a2 w1 = Some (map sp_pose (live (current_set p3)), a3, w3)"
      "mc_pf a3 = Some p3" "normalised (current_set p3)" "filter_ready p3" "pf_max p3 = pf_max p1" "same_setup a2 a3" "mc_pf_init a3 = mc_pf_init a2"
      "mc_publish_cloud a3"
      "mc_resampled a3 = (mc_resampled a2 \<or> (mc_resample_count a2 + 1) mod mc_resample_interval a2 = 0)"
      "(mc_resample_count a2 + 1) mod mc_resample_interval a2 = 0 \<longrightarrow> clusters_summarise (current_set p3)
        \<and> (\<forall>x \<in> set (live (current_set p3)). 0 < sp_weight x)"
      using update_laser_ok [OF l2 a2(2) s(1) a1(2) weighed [OF True] s(2,3) assms(2), of pose w1] by - (elim exE conjE, rule that, assumption+)
    have "mc_resampled a3 \<Longrightarrow> clusters_summarise (current_set p3) \<and> (\<forall>x \<in> set (live (current_set p3)). 0 < sp_weight x)"
      using l(9,10) a2(3) by simp
    from update_filter_ok [OF l(2,4) this]
    obtain hyp a' p' where u: "update_filter a3 = Some (hyp, a')" "mc_pf a' = Some p'" "filter_ready p'" "pf_max p' = pf_max p3" "same_setup a3 a'"
      "mc_pf_init a' = mc_pf_init a3" "mc_resampled a' = mc_resampled a3" "mc_publish_cloud a' = mc_publish_cloud a3"
      "live (current_set p') = live (current_set p3)"
      "mc_resampled a3 \<longrightarrow> p' = p3 \<and> mc_publish_pose a' \<and> mc_update_tf a'
        \<and> (\<exists>k. heaviest (current_set p3) k \<and> hyp = Some (pc_mean (ss_clusters (current_set p3) ! k), ss_cov (current_set p3)))" by blast
    have "same_setup a a'" using same_setup_trans a2(1) l(6) u(5) by blast
    then have ok: "amcl_ok a'" using amcl_ok_kept [OF assms(1) _ a(2) u(2,3)] u(4) l(5) a1(3) by simp
    have P: "particle_set a' = current_set p'" using u(2) by (simp add: particle_set_def)
    have run': "amcl_update ch pose scan angle_min angle_increment a w = Some (Some (map sp_pose (live (current_set p3))), hyp, a', w3)"
      unfolding run using True l(1) u(1) by simp
    have norm: "normalised (current_set p')" using l(3) u(9) by (simp add: normalised_def)
    have res: "mc_resampled a' \<longrightarrow> mc_publish_pose a' \<and> mc_update_tf a' \<and> clusters_summarise (current_set p')
        \<and> (\<exists>k. heaviest (current_set p') k \<and> hyp = Some (pc_mean (ss_clusters (current_set p') ! k), ss_cov (current_set p')))"
      using u(7,10) l(9,10) a2(3) by auto
    show ?thesis using run' ok norm res u(6,8,9) l(7,8) a2(5)
      by (intro exI [of _ "Some (map sp_pose (live (current_set p3)))"] exI [of _ hyp] exI [of _ a'] exI [of _ w3]) (simp add: P)
  qed
qed

subsection \<open>An example\<close>

definition dice :: "bool chance" where
  "dice = \<lparr>ch_drand = \<lambda>w. (if w then 0.25 else 0.75, \<not> w), ch_gauss = \<lambda>sigma w. (0, w),
     ch_eigen = \<lambda>m. (\<lambda>i j. if i = j then 1 else 0, (m 0 0, m 1 1, m 2 2)), ch_pick = first_nearest, ch_sort = sort_key sp_weight,
     ch_raw_laser = small_laser, ch_raw_counts = \<lambda>i. 0\<rparr>"

lemma dice_ok: "chance_ok dice"
  by (simp add: chance_ok_def dice_def nearest.pick_in)

definition started :: "particle_filter \<Rightarrow> amcl" where
  "started p = \<lparr>mc_max_uwb_particles = 1, mc_uwb_cov_x = 0.06, mc_uwb_cov_y = 0.06, mc_resample_uwb_factor = 0, mc_d_thresh = 0.05, mc_a_thresh = 0.05,
     mc_resample_interval = 2, mc_resample_count = 0, mc_laser_min_range = 0, mc_laser_max_range = 0, mc_total_weight = 0, mc_init_pose = (0, 0, 0),
     mc_init_cov = (0, 0, 0), mc_hyp = None, mc_odom_pose = (0, 0, 0), mc_map = Some small_amcl_map, mc_pf = Some p, mc_pf_init = False,
     mc_laser_model = Some small_laser, mc_odom_model = Some \<lparr>om_alpha1 = 0.1, om_alpha2 = 0.1, om_alpha3 = 0.1, om_alpha4 = 0.1, om_alpha5 = 0.1\<rparr>,
     mc_use_global = False, mc_random_heading = False, mc_free = [(0, 0)], mc_laser_update = True, mc_resampled = False, mc_force_publication = False,
     mc_publish_cloud = False, mc_publish_pose = False, mc_update_tf = False\<rparr>"

lemma started_example:
  "\<exists>p w'. init_by_model (\<lambda>w. Some ((0, 0, 0), w)) sample_filter True = Some (p, w') \<and> amcl_ok (started p) \<and> filter_ready p
    \<and> (\<forall>x \<in> set (live (current_set p)). sp_pose x = (0, 0, 0))"
proof -
  have g: "(\<lambda>w. Some ((0, 0, 0), w)) w \<noteq> None" for w :: bool by simp
  obtain p w' where p: "init_by_model (\<lambda>w. Some ((0, 0, 0), w)) sample_filter True = Some (p, w')" "filter_ok p" "pf_current p = pf_current sample_filter"
    "pf_max p = pf_max sample_filter"
    "\<forall>x \<in> set (live (current_set p)). sp_weight x = 1 / real (pf_max sample_filter) \<and> (\<exists>w w'. Some ((0, 0, 0), w) = Some (sp_pose x, w'))"
    "histogram_ok (current_set p)"
    using init_by_model_ok [where gen = "\<lambda>w. Some ((0, 0, 0), w)" and w = True, OF sample_filter_ok(1) g] by blast
  have sf: "pf_current sample_filter = 0" "pf_max sample_filter = 2"
    by (simp_all add: sample_filter_def set_kld_param_def new_filter_def init_converged_def on_set_def)
  have "\<exists>P. P \<noteq> {} \<and> filled (ss_tree (pf_sets p ! 0)) P"
    using histogram_of_live [OF current_ok(2) [OF p(2)] p(6)] p(3) sf by (simp add: current_set_def)
  then have r: "filter_ready p" using p(2,5) by (simp add: filter_ready_def)
  moreover have "amcl_map_ok small_amcl_map" by (simp add: amcl_map_ok_def small_amcl_map_def)
  ultimately have "amcl_ok (started p)" using p(4) sf by (simp add: amcl_ok_def started_def)
  then show ?thesis using p(1,5) r by auto
qed

definition wall_scan :: laser_scan where
  "wall_scan = \<lparr>ls_range_min = 0.15, ls_range_max = 8, ls_ranges = [Some 1, None]\<rparr>"

theorem localization_step_witness:
  "\<exists>p cloud hyp a' w'. filter_ready p \<and> amcl_update dice (0, 0, 0) wall_scan 0 0 (started p) True = Some (cloud, hyp, a', w') \<and> amcl_ok a' \<and> cloud \<noteq> None"
proof -
  obtain p where p: "amcl_ok (started p)" "filter_ready p" "\<forall>x \<in> set (live (current_set p)). sp_pose x = (0, 0, 0)" using started_example by blast
  have fields: "\<not> mc_pf_init (started p)" "mc_laser_max_range (started p) = 0" "mc_laser_min_range (started p) = 0" by (simp_all add: started_def)
  have "scan_weighed dice wall_scan 0 0 (a1\<lparr>mc_resampled := False\<rparr>)"
    if "update_odom_pose_data dice (0, 0, 0) (clear_flags (started p)) True = Some (a1, w1)" for a1 w1
  proof -
    have a1: "mc_map a1 = Some small_amcl_map" "mc_laser_model a1 = Some small_laser" "mc_pf a1 = Some p" "mc_laser_max_range a1 = 0" "mc_laser_min_range a1 = 0"
      using that by (auto simp: update_odom_pose_data_def Let_def clear_flags_def started_def)
    have ok: "filter_ok p" "\<forall>x \<in> set (live (current_set p)). 0 \<le> sp_weight x" using p(2) by (simp_all add: filter_ready_def)
    have d: "make_laser_data (a1\<lparr>mc_resampled := False\<rparr>) wall_scan 0 0 = one_beam"
      using a1(4,5) by (simp add: make_laser_data_def wall_scan_def one_beam_def Let_def)
    have "coord_add (lm_pose small_laser) (0, 0, 0) = (0, 0, 0)" by (simp add: small_laser_def coord_add_def vc_def atan2_def)
    moreover have "beams_representable small_amcl_map one_beam (0, 0, 0)"
      by (simp add: beams_representable_def one_beam_def coords_to_cell_def quotient_def small_amcl_map_def vc_def half_def to_int_def)
    ultimately have b: "\<forall>x \<in> set (live (current_set p)). 0 \<le> sp_weight x \<and> beams_representable small_amcl_map one_beam (coord_add (lm_pose small_laser) (sp_pose x))"
      using ok(2) p(3) by simp
    have "amcl_map_ok small_amcl_map" "laser_params_ok small_laser one_beam" "2 \<le> lm_max_beams small_laser" "\<not> (lm_do_beamskip small_laser \<and> ss_converged (current_set p))"
      by (simp_all add: amcl_map_ok_def small_amcl_map_def laser_params_ok_def small_laser_def one_beam_def)
    from update_sensor_weighs [OF current_ok(2) [OF ok(1)] this b, of "ch_raw_counts dice"]
    show ?thesis unfolding scan_weighed_def d using a1(1-3) by (auto simp: particle_set_def)
  qed
  then have "\<forall>a1 w1. update_odom_pose_data dice (0, 0, 0) (clear_flags (started p)) True = Some (a1, w1) \<longrightarrow> mc_laser_update a1 \<longrightarrow>
      scan_weighed dice wall_scan 0 0 (a1\<lparr>mc_resampled := False\<rparr>)" by blast
  from localization_step [OF p(1) dice_ok this] p(2) fields(1) show ?thesis by blast
qed

end
