(* ===== verification/AmclStart.thy ===== *)
theory AmclStart
  imports AmclRun
begin

text \<open>
  The start of the localisation: a map, an initial pose, a global localisation or the position of a radio beacon.
  Each of them gives a state from which the updates of \<open>AmclRun\<close> go on.
\<close>

subsection \<open>Initial particles\<close>

lemma init_ready:
  assumes p: "filter_ok p" "pf_current p = 0 \<or> filter_ready p" and gen: "\<And>w. gen w \<noteq> None"
  shows "\<exists>p' w'. init_by_model gen p w = Some (p', w') \<and> filter_ready p' \<and> pf_current p' = pf_current p \<and> pf_max p' = pf_max p
    \<and> ss_count (current_set p') = pf_max p
    \<and> (\<forall>x \<in> set (live (current_set p')). sp_weight x = 1 / real (pf_max p) \<and> (\<exists>w w'. gen w = Some (sp_pose x, w')))
    \<and> clusters_summarise (current_set p')"
proof -
  obtain p' w' where p': "init_by_model gen p w = Some (p', w')" "filter_ok p'" "pf_current p' = pf_current p" "pf_max p' = pf_max p"
    "ss_count (current_set p') = pf_max p" "pf_sets p' = (pf_sets p)[pf_current p := current_set p']"
    "\<forall>x \<in> set (live (current_set p')). sp_weight x = 1 / real (pf_max p) \<and> (\<exists>w w'. gen w = Some (sp_pose x, w'))"
    "histogram_ok (current_set p')" "clusters_summarise (current_set p')"
    using init_by_model_ok [where gen = gen and w = w, OF p(1) gen] by blast
  have nonneg: "\<forall>x \<in> set (live (current_set p')). 0 \<le> sp_weight x" using p'(7) by simp
  note tree = histogram_of_live [OF current_ok(2) [OF p'(2)] p'(8)]
  have "filter_ready p'"
  proof (cases "pf_current p = 0")
    case True
    then have "\<exists>P. P \<noteq> {} \<and> filled (ss_tree (pf_sets p' ! 0)) P" using tree p'(3) by (simp add: current_set_def)
    then show ?thesis using p'(2) nonneg by (simp add: filter_ready_def)
  next
    case False
    then have "filter_ready p" using p(2) by simp
    then show ?thesis by (rule filter_ready_set [OF _ p'(2,6) nonneg tree])
  qed
  then show ?thesis using p'(1,3-5,7,9) by blast
qed

text \<open>The state right after an initialisation of the particles.\<close>

definition just_initialised :: "amcl \<Rightarrow> bool" where
  "just_initialised a \<longleftrightarrow> \<not> mc_pf_init a \<and> clusters_summarise (particle_set a) \<and> ss_count (particle_set a) = pf_max (the (mc_pf a))
     \<and> (\<forall>x \<in> set (live (particle_set a)). sp_weight x = 1 / real (ss_count (particle_set a)))"

lemma just_initialisedI:
  assumes "mc_pf a = Some p" "\<not> mc_pf_init a" "clusters_summarise (current_set p)" "ss_count (current_set p) = pf_max p"
    "\<forall>x \<in> set (live (current_set p)). sp_weight x = 1 / real (pf_max p) \<and> Q x"
  shows "just_initialised a"
  using assms by (simp add: just_initialised_def particle_set_def)

lemma apply_init_pose_ok:
  assumes a: "mc_map a = Some m" "mc_pf a = Some p" "filter_ready p"
  shows "\<exists>a' w' p'. apply_init_pose ch a w = Some (a', w') \<and> mc_pf a' = Some p' \<and> filter_ready p' \<and> pf_max p' = pf_max p \<and> same_setup a a'
    \<and> mc_hyp a' = None \<and> (mc_hyp a \<noteq> None \<longrightarrow> just_initialised a') \<and> (mc_hyp a = None \<longrightarrow> a' = a)"
proof (cases "mc_hyp a")
  case None
  then show ?thesis using a by (simp add: apply_init_pose_def same_setup_def)
next
  case (Some h)
  obtain mean cov where h: "h = (mean, cov)" by fastforce
  have p: "filter_ok p" using a(3) by (simp add: filter_ready_def)
  have g: "(\<lambda>w. Some (generate_sample (ch_gauss ch) (new_gaussian_pdf (ch_eigen ch) mean cov) w)) w \<noteq> None" for w by simp
  from init_ready [where w = w, OF p _ g] a(3)
  obtain p' w' where p': "init_by_guassian (ch_eigen ch) (ch_gauss ch) mean cov p w = Some (p', w')" "filter_ready p'" "pf_max p' = pf_max p"
    "ss_count (current_set p') = pf_max p" "\<forall>x \<in> set (live (current_set p')). sp_weight x = 1 / real (pf_max p')"
    "clusters_summarise (current_set p')" unfolding init_by_guassian_def by fastforce
  let ?a = "a\<lparr>mc_pf := Some p', mc_pf_init := False, mc_hyp := None\<rparr>"
  have "apply_init_pose ch a w = Some (?a, w')" using Some h a(1,2) p'(1) by (simp add: apply_init_pose_def)
  moreover have "just_initialised ?a" by (rule just_initialisedI [where p = p' and Q = "\<lambda>_. True"]) (use p' in simp_all)
  ultimately show ?thesis using Some p'(2,3) by (intro exI [of _ ?a] exI [of _ w'] exI [of _ p']) (simp add: same_setup_def)
qed

lemma global_localization_ok:
  assumes a: "mc_map a = Some m" "mc_pf a = Some p" "filter_ready p" "mc_free a \<noteq> []" and ch: "chance_ok ch"
  shows "\<exists>a' w' p'. global_localization ch a w = Some (a', w') \<and> mc_pf a' = Some p' \<and> filter_ready p' \<and> pf_max p' = pf_max p \<and> same_setup a a'
    \<and> just_initialised a' \<and> mc_hyp a' = mc_hyp a
    \<and> (\<forall>x \<in> set (live (current_set p')). \<exists>(i, j) \<in> set (mc_free a). (vc (sp_pose x) 0, vc (sp_pose x) 1) = cell_to_coords m i j)"
proof -
  let ?gen = "uniform_pose_generator ch m (mc_free a)"
  have p: "filter_ok p" using a(3) by (simp add: filter_ready_def)
  have g: "?gen w \<noteq> None" for w using uniform_pose_ok [OF ch a(4)] by fastforce
  obtain p' w' where p': "init_by_model ?gen p w = Some (p', w')" "filter_ready p'" "pf_max p' = pf_max p"
    "ss_count (current_set p') = pf_max p"
    "\<forall>x \<in> set (live (current_set p')). sp_weight x = 1 / real (pf_max p) \<and> (\<exists>w w'. ?gen w = Some (sp_pose x, w'))"
    "clusters_summarise (current_set p')" using init_ready [where gen = ?gen and w = w, OF p _ g] a(3) by blast
  have "\<exists>(i, j) \<in> set (mc_free a). (vc (sp_pose x) 0, vc (sp_pose x) 1) = cell_to_coords m i j" if x: "x \<in> set (live (current_set p'))" for x
  proof -
    obtain w w' where "?gen w = Some (sp_pose x, w')" using p'(5) x by blast
    then obtain i j where "(i, j) \<in> set (mc_free a)" "(vc (sp_pose x) 0, vc (sp_pose x) 1) = cell_to_coords m i j"
      using uniform_pose_ok [OF ch a(4), of m w] by (auto simp: vc_def)
    then show ?thesis by blast
  qed
  moreover let ?a = "a\<lparr>mc_pf := Some p', mc_pf_init := False\<rparr>"
  have "just_initialised ?a" by (rule just_initialisedI [where p = p' and Q = "\<lambda>_. True"]) (use p' in simp_all)
  moreover have "global_localization ch a w = Some (?a, w')" using a(1,2) p'(1) by (simp add: global_localization_def)
  ultimately show ?thesis using p'(2,3) by (intro exI [of _ ?a] exI [of _ w'] exI [of _ p']) (simp add: same_setup_def)
qed

lemma random_heading_ok:
  assumes a: "mc_map a = Some m" "mc_pf a = Some p" "filter_ready p"
  shows "\<exists>a' w' p'. random_heading_global_localization ch a w = Some (True, a', w') \<and> mc_pf a' = Some p' \<and> filter_ready p' \<and> pf_max p' = pf_max p
    \<and> same_setup a a' \<and> just_initialised a' \<and> mc_hyp a' = mc_hyp a"
proof -
  have p: "filter_ok p" using a(3) by (simp add: filter_ready_def)
  let ?pdf = "new_gaussian_pdf (ch_eigen ch) (mc_init_pose a) (diagonal_cov (mc_init_cov a))"
  have g: "(\<lambda>w. Some (random_heading (ch_drand ch) (generate_sample (ch_gauss ch) ?pdf) w)) w \<noteq> None" for w by simp
  from init_ready [where w = w, OF p _ g] a(3)
  obtain p' w' where p': "init_by_guassian_with_random_heading (ch_eigen ch) (ch_gauss ch) (ch_drand ch) (mc_init_pose a) (diagonal_cov (mc_init_cov a)) p w = Some (p', w')"
    "filter_ready p'" "pf_max p' = pf_max p" "ss_count (current_set p') = pf_max p"
    "\<forall>x \<in> set (live (current_set p')). sp_weight x = 1 / real (pf_max p')" "clusters_summarise (current_set p')"
    unfolding init_by_guassian_with_random_heading_def by fastforce
  let ?a = "a\<lparr>mc_pf := Some p', mc_pf_init := False\<rparr>"
  have "random_heading_global_localization ch a w = Some (True, ?a, w')" using a(1,2) p'(1) by (simp add: random_heading_global_localization_def)
  moreover have "just_initialised ?a" by (rule just_initialisedI [where p = p' and Q = "\<lambda>_. True"]) (use p' in simp_all)
  ultimately show ?thesis using p'(2,3) by (intro exI [of _ ?a] exI [of _ w'] exI [of _ p']) (simp add: same_setup_def)
qed

subsection \<open>A new map\<close>

lemma free_cells_ok:
  assumes "amcl_map_ok m" "\<forall>ij \<in> set ijs. cell_valid m (fst ij) (snd ij)"
  shows "free_cells m ijs = Some (filter (\<lambda>(i, j). ac_state (amcl_cell_at m i j) = - 1) ijs)"
  using assms(2)
proof (induction ijs)
  case (Cons ij ijs)
  have "cell_valid m (fst ij) (snd ij)" using Cons.prems by simp
  from index_range [OF this]
  have "index_free m (fst ij) (snd ij) = Some (ac_state (amcl_cell_at m (fst ij) (snd ij)) = - 1)"
    using assms(1) by (simp add: index_free_def amcl_map_ok_def amcl_cell_at_def)
  then show ?case using Cons by (simp add: split_def)
qed simp

definition amcl_config_ok :: "amcl_config \<Rightarrow> bool" where
  "amcl_config_ok cfg \<longleftrightarrow> 1 \<le> ac_max_particles cfg \<and> ac_min_particles cfg \<le> ac_max_particles cfg \<and> 0 \<le> lp_max_occ_dist (ac_laser cfg)
     \<and> kld_fits (set_kld_param (ac_kld_err cfg) (ac_kld_z cfg)
          (new_filter (ac_min_particles cfg) (ac_max_particles cfg) (ac_alpha_slow cfg) (ac_alpha_fast cfg)))"

lemma new_filter_current: "pf_current (set_kld_param e z (new_filter k m a b)) = 0" "pf_max (set_kld_param e z (new_filter k m a b)) = m"
  by (simp_all add: set_kld_param_def new_filter_def init_converged_def on_set_def)

lemma distances_right_map_ok:
  assumes "distances_right m d m'" "amcl_map_ok m"
  shows "amcl_map_ok m'"
proof -
  have eq: "m' = m\<lparr>am_max_occ_dist := d, am_cells := am_cells m'\<rparr>" and st: "map ac_state (am_cells m') = map ac_state (am_cells m)"
    using assms(1) unfolding distances_right_def by blast+
  have "am_size_x m' = am_size_x m" "am_size_y m' = am_size_y m" by (subst eq, simp)+
  then show ?thesis using assms(2) map_eq_imp_length_eq [OF st] by (simp add: amcl_map_ok_def)
qed

lemma handle_map_message_ok:
  assumes cfg: "amcl_config_ok cfg" "chance_ok ch"
    and m: "map_from_msg msg = Some m" "og_width msg < 2 ^ 31" "og_height msg < 2 ^ 31" "0 < am_scale m"
      "lp_max_occ_dist (ac_laser cfg) / am_scale m < 2 ^ 31" "cell_valid m i j" "ac_state (amcl_cell_at m i j) = - 1"
    and a: "0 < mc_resample_interval a" "mc_max_uwb_particles a \<le> int (ac_max_particles cfg)"
  shows "\<exists>a' w' m'. handle_map_message ch cfg msg init_pose init_cov a w = Some (a', w') \<and> amcl_ok a' \<and> just_initialised a'
    \<and> mc_map a' = Some m' \<and> distances_right m (lp_max_occ_dist (ac_laser cfg)) m' \<and> pf_max (the (mc_pf a')) = ac_max_particles cfg
    \<and> set (mc_free a') = {(i, j). cell_valid m i j \<and> ac_state (amcl_cell_at m i j) = - 1}
    \<and> (mc_use_global a \<longrightarrow> (\<forall>x \<in> set (live (particle_set a')). \<exists>(i, j) \<in> set (mc_free a'). (vc (sp_pose x) 0, vc (sp_pose x) 1) = cell_to_coords m' i j))"
proof -
  note ok = map_from_msg_ok [OF m(1-3)]
  define free where "free = filter (\<lambda>(i, j). ac_state (amcl_cell_at m i j) = - 1) (all_cells m)"
  have valid: "\<forall>ij \<in> set (all_cells m). cell_valid m (fst ij) (snd ij)" using all_cells_valid by auto
  have free: "free_cells m (all_cells m) = Some free" unfolding free_def by (rule free_cells_ok [OF ok valid])
  have setf: "set free = {(i, j). cell_valid m i j \<and> ac_state (amcl_cell_at m i j) = - 1}" by (auto simp: free_def all_cells_valid)
  have ne: "free \<noteq> []" using setf m(6,7) by (metis (mono_tags, lifting) case_prodI empty_iff empty_set mem_Collect_eq)
  define p where "p = set_kld_param (ac_kld_err cfg) (ac_kld_z cfg)
    (new_filter (ac_min_particles cfg) (ac_max_particles cfg) (ac_alpha_slow cfg) (ac_alpha_fast cfg))"
  have p: "filter_ok p" "pf_current p = 0" "pf_max p = ac_max_particles cfg"
    unfolding p_def new_filter_current using new_filter_ok cfg(1) by (simp_all add: amcl_config_ok_def)
  define a1 where "a1 = update_pose_from_param init_pose init_cov ((amcl_reset a)\<lparr>mc_free := free\<rparr>)"
  have a1: "mc_resample_interval a1 = mc_resample_interval a" "mc_free a1 = free" "mc_max_uwb_particles a1 = mc_max_uwb_particles a"
    "mc_use_global a1 = mc_use_global a"
    by (simp_all add: a1_def update_pose_from_param_def amcl_reset_def split: prod.splits)
  let ?pdf = "new_gaussian_pdf (ch_eigen ch) (mc_init_pose a1) (diagonal_cov (mc_init_cov a1))"
  have g: "(\<lambda>w. Some (generate_sample (ch_gauss ch) ?pdf w)) w \<noteq> None" for w by simp
  from init_ready [where w = w, OF p(1) _ g] p(2)
  obtain p1 w1 where p1: "init_by_guassian (ch_eigen ch) (ch_gauss ch) (mc_init_pose a1) (diagonal_cov (mc_init_cov a1)) p w = Some (p1, w1)"
    "filter_ready p1" "pf_max p1 = pf_max p" "ss_count (current_set p1) = pf_max p"
    "\<forall>x \<in> set (live (current_set p1)). sp_weight x = 1 / real (pf_max p)" "clusters_summarise (current_set p1)"
    unfolding init_by_guassian_def by fastforce
  have cq: "cell_queue (ch_pick ch)" by unfold_locales (use cfg(2) in \<open>simp add: chance_ok_def\<close>)
  have "0 \<le> lp_max_occ_dist (ac_laser cfg)" using cfg(1) by (simp add: amcl_config_ok_def)
  from cell_queue.update_c_space_ok [OF cq ok m(4) this m(5)]
  obtain m' where m': "update_c_space (ch_pick ch) (lp_max_occ_dist (ac_laser cfg)) m = Some m'" "distances_right m (lp_max_occ_dist (ac_laser cfg)) m'" by blast
  obtain l where l: "set_model_likelihood_field_prob (ch_pick ch) (ac_laser cfg) (new_laser_model (ch_raw_laser ch) (ac_laser_max_beams cfg)) m = Some (l, m')"
    using m'(1) by (simp add: set_model_likelihood_field_prob_def)
  define a2 where "a2 = a1\<lparr>mc_map := Some m', mc_pf := Some p1, mc_pf_init := False, mc_odom_model := Some (ac_odom cfg), mc_laser_model := Some l\<rparr>"
  have a2: "mc_map a2 = Some m'" "mc_pf a2 = Some p1" "mc_free a2 = free" "mc_free a2 \<noteq> []" "mc_use_global a2 = mc_use_global a" using ne a1 by (simp_all add: a2_def)
  have run: "handle_map_message ch cfg msg init_pose init_cov a w = (if mc_use_global a2 then global_localization ch a2 w1
     else if mc_random_heading a2 then do { (_, r) \<leftarrow> random_heading_global_localization ch a2 w1; Some r } else apply_init_pose ch a2 w1)"
    using m(1) free p1(1) l by (simp add: handle_map_message_def p_def a1_def a2_def Let_def)
  note mok = distances_right_map_ok [OF m'(2) ok]
  have ok2: "amcl_ok a2" using mok p1(2,3) p(3) a ne a1 by (simp add: amcl_ok_def a2_def)
  have init2: "just_initialised a2" by (rule just_initialisedI [where p = p1 and Q = "\<lambda>_. True"]) (use p1 in \<open>simp_all add: a2_def\<close>)
  have "\<exists>a' w' p'. handle_map_message ch cfg msg init_pose init_cov a w = Some (a', w') \<and> mc_pf a' = Some p' \<and> filter_ready p' \<and> pf_max p' = pf_max p1
    \<and> same_setup a2 a' \<and> just_initialised a'
    \<and> (mc_use_global a2 \<longrightarrow> (\<forall>x \<in> set (live (current_set p')). \<exists>(i, j) \<in> set free. (vc (sp_pose x) 0, vc (sp_pose x) 1) = cell_to_coords m' i j))"
  proof (cases "mc_use_global a2")
    case True
    then show ?thesis unfolding run using global_localization_ok [OF a2(1,2) p1(2) a2(4) cfg(2), of w1] unfolding a2(3) by simp blast
  next
    case ng: False
    show ?thesis
    proof (cases "mc_random_heading a2")
      case True
      then show ?thesis unfolding run using ng random_heading_ok [OF a2(1,2) p1(2), of ch w1] by fastforce
    next
      case False
      then show ?thesis unfolding run using ng apply_init_pose_ok [OF a2(1,2) p1(2), of ch w1] init2 by (cases "mc_hyp a2") fastforce+
    qed
  qed
  then obtain a' w' p' where r: "handle_map_message ch cfg msg init_pose init_cov a w = Some (a', w')" "mc_pf a' = Some p'" "filter_ready p'"
    "pf_max p' = pf_max p1" "same_setup a2 a'" "just_initialised a'"
    "mc_use_global a2 \<longrightarrow> (\<forall>x \<in> set (live (current_set p')). \<exists>(i, j) \<in> set free. (vc (sp_pose x) 0, vc (sp_pose x) 1) = cell_to_coords m' i j)" by blast
  have "amcl_ok a'" by (rule amcl_ok_kept [OF ok2 r(5) a2(2) r(2-4)])
  moreover have "mc_map a' = Some m'" "mc_free a' = free" using r(5) a2 by (simp_all add: same_setup_def)
  ultimately show ?thesis using r m'(2) setf p1(3) p(3) a2(5)
    by (intro exI [of _ a'] exI [of _ w'] exI [of _ m']) (simp add: particle_set_def)
qed

subsection \<open>The radio beacon\<close>

lemma thread_weights:
  assumes "\<And>x w. sp_weight (fst (f x w)) = sp_weight x"
  shows "map sp_weight (fst (thread f xs w)) = map sp_weight xs"
  using assms by (induction xs arbitrary: w) (simp_all add: split_def Let_def)

lemma pull_weight: "sp_weight (fst (pull_sample ch a m uwb x w)) = sp_weight x"
  by (simp add: pull_sample_def split_def Let_def)

lemma nudge_weight: "sp_weight (fst (nudge_sample ch a uwb x w)) = sp_weight x"
  by (simp add: nudge_sample_def split_def Let_def)

definition too_far :: "amcl \<Rightarrow> amcl_map \<Rightarrow> vec3 \<Rightarrow> sample \<Rightarrow> bool" where
  "too_far a m uwb x \<longleftrightarrow> mc_resample_uwb_factor a \<noteq> 0 \<and> uwb_distance uwb x > am_diag_distance m / mc_resample_uwb_factor a"

lemma pull_near:
  assumes "x \<in> set xs" "\<not> too_far a m uwb x"
  shows "x \<in> set (fst (thread (pull_sample ch a m uwb) xs w))"
  using assms by (induction xs arbitrary: w) (auto simp: pull_sample_def too_far_def split_def Let_def)

lemma distances_below: "y \<in> set ys \<Longrightarrow> 0 \<le> uwb_distance uwb y \<and> uwb_distance uwb y \<le> sum_list (map (uwb_distance uwb) ys)"
proof (induction ys)
  case (Cons z ys)
  have d: "0 \<le> uwb_distance uwb x" for x by (simp add: uwb_distance_def euclidean_distance_def)
  then have "0 \<le> sum_list (map (uwb_distance uwb) ys)" by (intro sum_list_nonneg) auto
  then show ?case using Cons d [of z] by (auto simp: add_increasing)
qed simp

definition uwb_weight :: "real \<Rightarrow> vec3 \<Rightarrow> sample \<Rightarrow> real" where
  "uwb_weight tot uwb y = sp_weight y * ((tot - uwb_distance uwb y) / tot)"

lemma uwb_samples_ok:
  assumes s: "set_ok k s" "\<forall>x \<in> set (live s). 0 \<le> sp_weight x" and ch: "chance_ok ch" and k: "mc_max_uwb_particles a \<le> int k" "1 \<le> k"
    and x: "x \<in> set (live s)" "\<not> too_far a m uwb x" "0 < uwb_distance uwb x"
  shows "\<exists>s' w' ys. uwb_samples ch a m uwb s w = Some (s', w') \<and> set_ok k s' \<and> ss_count s' = ss_count s \<and> ss_tree s' = ss_tree s
    \<and> sorted (map sp_weight (live s')) \<and> (\<forall>x \<in> set (live s'). 0 \<le> sp_weight x)
    \<and> map sp_weight ys = map sp_weight (live s) \<and> mset (map sp_weight (live s')) = mset (map (uwb_weight (sum_list (map (uwb_distance uwb) ys)) uwb) ys)"
proof -
  obtain ys w1 where ys: "thread (pull_sample ch a m uwb) (live s) w = (ys, w1)" by fastforce
  have wt: "map sp_weight ys = map sp_weight (live s)" using thread_weights [where f = "pull_sample ch a m uwb", OF pull_weight, of "live s" w] ys by simp
  have xy: "x \<in> set ys" using pull_near [OF x(1,2), of ch w] ys by simp
  define tot where "tot = sum_list (map (uwb_distance uwb) ys)"
  have tot: "0 < tot" using distances_below [OF xy, of uwb] x(3) by (simp add: tot_def)
  define zs where "zs = map (\<lambda>y. y\<lparr>sp_weight := uwb_weight tot uwb y\<rparr>) ys"
  define us where "us = ch_sort ch zs"
  have us: "mset us = mset zs" "sorted (map sp_weight us)" using ch by (simp_all add: chance_ok_def us_def)
  have len: "length us = ss_count s" "ss_count s \<le> length (ss_samples s)" "length (ss_samples s) = k"
    using mset_eq_length [OF us(1)] arg_cong [OF wt, of length] length_live [OF s(1)] s(1) by (simp_all add: zs_def set_ok_def)
  define vs where "vs = us @ drop (ss_count s) (ss_samples s)"
  define n where "n = nat (if mc_max_uwb_particles a \<le> 0 then 1 else mc_max_uwb_particles a)"
  obtain ns w2 where ns: "thread (nudge_sample ch a uwb) (take n vs) w1 = (ns, w2)" by fastforce
  have nw: "map sp_weight ns = map sp_weight (take n vs)" using thread_weights [where f = "nudge_sample ch a uwb", OF nudge_weight, of "take n vs" w1] ns by simp
  let ?xs = "ns @ drop n vs"
  let ?s = "s\<lparr>ss_samples := ?xs\<rparr>"
  have vl: "length vs = k" using len by (simp add: vs_def)
  then have nk: "\<not> length vs < n" using k by (auto simp: n_def)
  have "map sp_weight ?xs = map sp_weight (take n vs) @ map sp_weight (drop n vs)" by (simp only: map_append nw)
  also have "\<dots> = map sp_weight vs" by (simp only: map_append [symmetric] append_take_drop_id)
  finally have xw: "map sp_weight ?xs = map sp_weight vs" .
  have xl: "length ?xs = k" using arg_cong [OF xw, of length] vl by simp
  have run: "uwb_samples ch a m uwb s w = Some (?s, w2)"
    unfolding uwb_samples_def live_samples_ok [OF s(1)] bind.bind_lunit ys prod.case Let_def tot_def [symmetric] uwb_weight_def [symmetric]
      zs_def [symmetric] us_def [symmetric] vs_def [symmetric] n_def [symmetric] using tot nk ns by simp
  have sok: "set_ok k ?s" using s(1) xl by (simp add: set_ok_def)
  have "live ?s = take (ss_count s) ?xs" by (simp add: live_def)
  then have "map sp_weight (live ?s) = take (ss_count s) (map sp_weight ?xs)" by (simp only: take_map)
  also have "\<dots> = take (ss_count s) (map sp_weight vs)" by (simp only: xw)
  also have "\<dots> = map sp_weight us" using len(1) by (simp add: vs_def)
  finally have lw: "map sp_weight (live ?s) = map sp_weight us" .
  have ms: "mset (map sp_weight us) = mset (map (uwb_weight tot uwb) ys)"
    using arg_cong [OF us(1), of "image_mset sp_weight"] by (simp add: zs_def o_def image_mset.compositionality)
  have "\<forall>y \<in> set ys. 0 \<le> sp_weight y" by (rule weights_of [OF wt s(2)])
  then have "0 \<le> uwb_weight tot uwb y" if "y \<in> set ys" for y
    using that tot distances_below [OF that, of uwb] by (simp add: uwb_weight_def tot_def)
  then have "\<forall>v \<in> set (map (uwb_weight tot uwb) ys). 0 \<le> v" by auto
  then have "\<forall>v \<in> set (map sp_weight (live ?s)). 0 \<le> v" unfolding lw using ms mset_eq_setD by metis
  then have "\<forall>x \<in> set (live ?s). 0 \<le> sp_weight x" by simp
  moreover have "sorted (map sp_weight (live ?s))" unfolding lw by (rule us(2))
  ultimately show ?thesis using run sok wt ms lw unfolding tot_def
    by (intro exI [of _ ?s] exI [of _ w2] exI [of _ ys]) simp
qed

subsection \<open>Properties\<close>


text \<open>The radio beacon: if some particle lies neither at the beacon nor too far from it, \<open>UpdateUwb\<close> returns, keeps the number of
  particles and the invariant, and orders the particles by weight, each weight being that of a particle scaled down by its share of
  the distances.\<close>

theorem uwb_keeps_localization:
  assumes "amcl_ok a" "chance_ok ch" "mc_map a = Some m" "x \<in> set (live (particle_set a))" "\<not> too_far a m uwb x" "0 < uwb_distance uwb x"
  shows "\<exists>a' w' ys. update_uwb ch uwb a w = Some (a', w') \<and> amcl_ok a' \<and> ss_count (particle_set a') = ss_count (particle_set a)
    \<and> sorted (map sp_weight (live (particle_set a'))) \<and> map sp_weight ys = map sp_weight (live (particle_set a))
    \<and> mset (map sp_weight (live (particle_set a'))) = mset (map (uwb_weight (sum_list (map (uwb_distance uwb) ys)) uwb) ys)"
proof -
  obtain p where p: "mc_pf a = Some p" "filter_ready p" "mc_max_uwb_particles a \<le> int (pf_max p)"
    using amcl_ok_parts [OF assms(1)] by metis
  have P: "particle_set a = current_set p" using p(1) by (simp add: particle_set_def)
  have ok: "filter_ok p" "\<forall>x \<in> set (live (current_set p)). 0 \<le> sp_weight x" "1 \<le> pf_max p" using p(2) by (simp_all add: filter_ready_def filter_ok_def)
  obtain s' w' ys where s': "uwb_samples ch a m uwb (current_set p) w = Some (s', w')" "set_ok (pf_max p) s'" "ss_count s' = ss_count (current_set p)"
    "ss_tree s' = ss_tree (current_set p)" "sorted (map sp_weight (live s'))" "\<forall>x \<in> set (live s'). 0 \<le> sp_weight x"
    "map sp_weight ys = map sp_weight (live (current_set p))"
    "mset (map sp_weight (live s')) = mset (map (uwb_weight (sum_list (map (uwb_distance uwb) ys)) uwb) ys)"
    using uwb_samples_ok [OF current_ok(2) [OF ok(1)] ok(2) assms(2) p(3) ok(3) assms(4-6) [unfolded P], of w] by blast
  from on_current_ok [where f = "\<lambda>s. uwb_samples ch a m uwb s w", OF ok(1) s'(1,2)]
  obtain p' where p': "on_current (\<lambda>s. uwb_samples ch a m uwb s w) p = Some (p', w')" "filter_ok p'" "current_set p' = s'" "pf_max p' = pf_max p"
    "pf_sets p' = (pf_sets p)[pf_current p := s']" by blast
  have tree: "\<exists>P. P \<noteq> {} \<and> filled (ss_tree s') P" if "pf_current p = 0"
    using p(2) s'(4) that by (simp add: filter_ready_def current_set_def)
  have "filter_ready p'" by (rule filter_ready_set [OF p(2) p'(2,5) s'(6) [folded p'(3)] tree])
  moreover let ?a = "a\<lparr>mc_pf := Some p'\<rparr>"
  have "same_setup a ?a" "mc_pf ?a = Some p'" by (simp_all add: same_setup_def)
  ultimately have "amcl_ok ?a" using amcl_ok_kept [OF assms(1) _ p(1)] p'(4) by blast
  moreover have "update_uwb ch uwb a w = Some (?a, w')" using p(1) assms(3) p'(1) by (simp add: update_uwb_def)
  ultimately show ?thesis using s'(3,5,7,8) p'(3) unfolding P
    by (intro exI [of _ ?a] exI [of _ w'] exI [of _ ys]) (simp add: particle_set_def)
qed

definition tiny_config :: amcl_config where
  "tiny_config = \<lparr>ac_min_particles = 1, ac_max_particles = 2, ac_alpha_slow = 0.001, ac_alpha_fast = 0.1, ac_kld_err = 0.05, ac_kld_z = 0.99,
     ac_update_min_d = 0.05, ac_update_min_a = 0.05, ac_max_uwb_particles = 1, ac_resample_uwb_factor = 0, ac_uwb_cov_x = 0.06, ac_uwb_cov_y = 0.06,
     ac_use_global_localization = True, ac_random_heading = False,
     ac_odom = \<lparr>om_alpha1 = 0.1, om_alpha2 = 0.1, om_alpha3 = 0.1, om_alpha4 = 0.1, om_alpha5 = 0.1\<rparr>, ac_laser_max_beams = 30,
     ac_laser = \<lparr>lp_z_hit = 0.5, lp_z_rand = 0.5, lp_sigma_hit = 0.2, lp_max_occ_dist = 2, lp_do_beamskip = False, lp_skip_distance = 0.5,
       lp_skip_threshold = 0.3, lp_skip_error_threshold = 0.9, lp_filter_weight = 0.4\<rparr>\<rparr>"


theorem uwb_keeps_localization_witness:
  "\<exists>p a' w'. filter_ready p \<and> update_uwb dice (1, 0, 0) (started p) True = Some (a', w') \<and> amcl_ok a'"
proof -
  obtain p where p: "amcl_ok (started p)" "filter_ready p" "\<forall>x \<in> set (live (current_set p)). sp_pose x = (0, 0, 0)" using started_example by blast
  have P: "particle_set (started p) = current_set p" by (simp add: particle_set_def started_def)
  have "filter_ok p" using p(2) by (simp add: filter_ready_def)
  then have "live (current_set p) \<noteq> []" using current_ok(2) length_live by (fastforce simp: set_ok_def)
  then obtain x where x: "x \<in> set (live (particle_set (started p)))" unfolding P using hd_in_set by blast
  have "\<not> too_far (started p) small_amcl_map (1, 0, 0) x" by (simp add: too_far_def started_def)
  moreover have "0 < uwb_distance (1, 0, 0) x" using p(3) x unfolding P by (simp add: uwb_distance_def euclidean_distance_def vc_def)
  moreover have "mc_map (started p) = Some small_amcl_map" by (simp add: started_def)
  ultimately show ?thesis using uwb_keeps_localization [OF p(1) dice_ok _ x] p(2) by blast
qed

end
